(* ===== verification/PWSA_Prelude.thy ===== *)
theory PWSA_Prelude
  imports Complex_Main "HOL-Library.Multiset"
begin

text \<open>
  Shared vocabulary of the development: the error values that stand for the ways the C++ code
  can leave its defined behaviour (a failed \<open>assert\<close>, an out-of-range array access, signed
  overflow, a call of \<open>exit\<close>), the result type with its sequencing operator, checked integer
  arithmetic at the widths of \<open>int\<close> and \<open>long\<close>, checked array access, and the generic lemmas on
  these that the component theories use.
\<close>

named_theorems result_simps
named_theorems inv_intros

section \<open>Results and errors\<close>

datatype cerror =
    AssertFail \<comment> \<open>a failed \<open>assert(...)\<close>\<close>
  | OutOfBounds \<comment> \<open>an array access outside the allocation\<close>
  | SignedOverflow \<comment> \<open>an \<open>int\<close> or \<open>long\<close> operation outside its range\<close>
  | ExitFailure \<comment> \<open>\<open>std::exit(EXIT_FAILURE)\<close>\<close>
  | UninitRead \<comment> \<open>the value of a variable that was never assigned\<close>
  | LengthError \<comment> \<open>\<open>std::length_error\<close> from \<open>resize\<close>\<close>
  | NullDeref \<comment> \<open>the target of a null pointer\<close>
  | DivByZero \<comment> \<open>a division or remainder by zero\<close>
  | Diverges \<comment> \<open>a loop that does not end\<close>
  | HeapError \<comment> \<open>\<open>throw new SBPL_Exception()\<close>\<close>

type_synonym 'a result = "cerror + 'a"

definition ebind :: "'a result \<Rightarrow> ('a \<Rightarrow> 'b result) \<Rightarrow> 'b result" where
  "ebind m f = (case m of Inl e \<Rightarrow> Inl e | Inr x \<Rightarrow> f x)"

lemma ebind_simps [simp]: "ebind (Inl e) f = Inl e" "ebind (Inr x) f = f x"
  by (simp_all add: ebind_def)

lemma ebind_Inr_iff [result_simps]: "ebind m f = Inr y \<longleftrightarrow> (\<exists>x. m = Inr x \<and> f x = Inr y)"
  by (cases m) auto

lemma ebind_Inl_iff [result_simps]:
  "ebind m f = Inl e \<longleftrightarrow> m = Inl e \<or> (\<exists>x. m = Inr x \<and> f x = Inl e)"
  by (cases m) auto

lemma ebind_assoc: "ebind (ebind m f) g = ebind m (\<lambda>x. ebind (f x) g)"
  by (cases m) auto

definition eassert :: "bool \<Rightarrow> unit result" where
  "eassert b = (if b then Inr () else Inl AssertFail)"

lemma eassert_simps [simp]: "eassert True = Inr ()" "eassert False = Inl AssertFail"
  by (simp_all add: eassert_def)

lemma eassert_Inr_iff [result_simps]: "eassert b = Inr u \<longleftrightarrow> b"
  by (cases b) auto

text \<open>A loop over a list whose body may fail: the failure ends the loop.\<close>

fun efold :: "('a \<Rightarrow> 's \<Rightarrow> 's result) \<Rightarrow> 'a list \<Rightarrow> 's \<Rightarrow> 's result" where
  "efold f [] s = Inr s"
| "efold f (x # xs) s = ebind (f x s) (efold f xs)"

lemma efold_append: "efold f (xs @ ys) s = ebind (efold f xs s) (efold f ys)"
proof (induction xs arbitrary: s)
  case (Cons x xs)
  then show ?case by (cases "f x s") auto
qed simp

text \<open>
  The rule for such loops: an invariant over the elements done so far, kept by every step, holds
  at the end, and no step fails.
\<close>

lemma efold_invariant:
  assumes "I [] s"
    and "\<And>pre x s. \<lbrakk>\<exists>post. xs = pre @ x # post; I pre s\<rbrakk> \<Longrightarrow> \<exists>s'. f x s = Inr s' \<and> I (pre @ [x]) s'"
  shows "\<exists>s'. efold f xs s = Inr s' \<and> I xs s'"
proof -
  have "\<exists>s'. efold f ys s = Inr s' \<and> I (pre @ ys) s'"
    if "xs = pre @ ys" "I pre s" for pre ys s
    using that
  proof (induction ys arbitrary: pre s)
    case Nil
    then show ?case by simp
  next
    case (Cons y ys)
    then obtain s1 where s1: "f y s = Inr s1" "I (pre @ [y]) s1"
      using assms(2)[of pre y s] by blast
    have "\<exists>s'. efold f ys s1 = Inr s' \<and> I ((pre @ [y]) @ ys) s'"
      using Cons.prems(1) s1(2) by (intro Cons.IH) auto
    then show ?case using s1(1) by auto
  qed
  from this[of "[]" xs s] assms(1) show ?thesis by simp
qed

section \<open>Machine integers\<close>

definition INT_MAX :: int where
  "INT_MAX = 2147483647"

definition LONG_MAX :: int where
  "LONG_MAX = 9223372036854775807"

text \<open>
  \<open>num_add M\<close> is the addition of a signed type whose maximum is \<open>M\<close>; leaving the range
  \<open>-M-1 .. M\<close> is undefined in C++ and an error here.
\<close>

definition num_add :: "int \<Rightarrow> int \<Rightarrow> int \<Rightarrow> int result" where
  "num_add M a b = (if - M - 1 \<le> a + b \<and> a + b \<le> M then Inr (a + b) else Inl SignedOverflow)"

lemma num_add_ok [simp]: "\<lbrakk>- M - 1 \<le> a + b; a + b \<le> M\<rbrakk> \<Longrightarrow> num_add M a b = Inr (a + b)"
  by (simp add: num_add_def)

lemma num_add_Inr_iff [result_simps]:
  "num_add M a b = Inr c \<longleftrightarrow> c = a + b \<and> - M - 1 \<le> a + b \<and> a + b \<le> M"
  by (auto simp: num_add_def)

definition num_mul :: "int \<Rightarrow> int \<Rightarrow> int \<Rightarrow> int result" where
  "num_mul M a b = (if - M - 1 \<le> a * b \<and> a * b \<le> M then Inr (a * b) else Inl SignedOverflow)"

lemma num_mul_ok [simp]: "\<lbrakk>- M - 1 \<le> a * b; a * b \<le> M\<rbrakk> \<Longrightarrow> num_mul M a b = Inr (a * b)"
  by (simp add: num_mul_def)

text \<open>C++ division truncates towards zero.\<close>

definition cdiv :: "int \<Rightarrow> int \<Rightarrow> int" where
  "cdiv a b = sgn a * sgn b * (\<bar>a\<bar> div \<bar>b\<bar>)"

lemma cdiv_nonneg [simp]: "\<lbrakk>0 \<le> a; 0 < b\<rbrakk> \<Longrightarrow> cdiv a b = a div b"
  by (cases "a = 0") (auto simp: cdiv_def)

section \<open>Arrays\<close>

definition arr_get :: "'a list \<Rightarrow> int \<Rightarrow> 'a result" where
  "arr_get xs i = (if 0 \<le> i \<and> i < int (length xs) then Inr (xs ! nat i) else Inl OutOfBounds)"

definition arr_set :: "'a list \<Rightarrow> int \<Rightarrow> 'a \<Rightarrow> 'a list result" where
  "arr_set xs i x = (if 0 \<le> i \<and> i < int (length xs) then Inr (xs[nat i := x]) else Inl OutOfBounds)"

lemma arr_get_ok [simp]: "\<lbrakk>0 \<le> i; i < int (length xs)\<rbrakk> \<Longrightarrow> arr_get xs i = Inr (xs ! nat i)"
  by (simp add: arr_get_def)

lemma arr_set_ok [simp]: "\<lbrakk>0 \<le> i; i < int (length xs)\<rbrakk> \<Longrightarrow> arr_set xs i x = Inr (xs[nat i := x])"
  by (simp add: arr_set_def)

lemma arr_get_Inr_iff [result_simps]:
  "arr_get xs i = Inr x \<longleftrightarrow> 0 \<le> i \<and> i < int (length xs) \<and> x = xs ! nat i"
  by (auto simp: arr_get_def)

lemma arr_set_Inr_iff [result_simps]:
  "arr_set xs i x = Inr ys \<longleftrightarrow> 0 \<le> i \<and> i < int (length xs) \<and> ys = xs[nat i := x]"
  by (auto simp: arr_set_def)

text \<open>Memory seen as a function from indices: swapping two cells permutes the contents.\<close>

lemma map_upd_upt:
  "i < n \<Longrightarrow> map (f(i := x)) [0..<n] = (map f [0..<n])[i := x]"
  by (rule nth_equalityI) (auto simp: nth_list_update)

lemma map_upd_upt_out: "n \<le> i \<Longrightarrow> map (f(i := x)) [0..<n] = map f [0..<n]"
  by (rule nth_equalityI) auto

lemma mset_swap_upt:
  assumes "i < n" "j < n"
  shows "mset (map (f(i := f j, j := f i)) [0..<n]) = mset (map f [0..<n])"
proof -
  have "map (f(i := f j, j := f i)) [0..<n] = (map f [0..<n])[j := map f [0..<n] ! i, i := map f [0..<n] ! j]"
    using assms by (cases "i = j") (auto simp: map_upd_upt list_update_swap list_eq_iff_nth_eq nth_list_update)
  then show ?thesis using assms mset_swap[of i "map f [0..<n]" j] by simp
qed

lemma length_filter_update:
  "i < length xs \<Longrightarrow> length (filter P (xs[i := y])) + (if P (xs ! i) then 1 else 0) =
     length (filter P xs) + (if P y then 1 else 0)"
proof (induction xs arbitrary: i)
  case (Cons x xs)
  then show ?case by (cases i) auto
qed simp

text \<open>A field of an array of records, as a function of the index, with a default outside.\<close>

definition fld :: "('a \<Rightarrow> 'b) \<Rightarrow> 'b \<Rightarrow> 'a list \<Rightarrow> int \<Rightarrow> 'b" where
  "fld f d xs i = (if 0 \<le> i \<and> i < int (length xs) then f (xs ! nat i) else d)"

lemma fld_in: "\<lbrakk>0 \<le> i; i < int (length xs)\<rbrakk> \<Longrightarrow> f (xs ! nat i) = fld f d xs i"
  by (simp add: fld_def)

lemma fld_update: "\<lbrakk>0 \<le> i; i < int (length xs)\<rbrakk> \<Longrightarrow> fld f d (xs[nat i := x]) = (fld f d xs)(i := f x)"
  by (rule ext) (auto simp: fld_def nth_list_update nat_eq_iff)

lemma fld_upd_id [simp]: "\<lbrakk>0 \<le> i; i < int (length xs)\<rbrakk> \<Longrightarrow> (fld f d xs)(i := f (xs ! nat i)) = fld f d xs"
  by (rule ext) (simp add: fld_def)

lemma fld_replicate: "fld f d (replicate n x) i = (if 0 \<le> i \<and> i < int n then f x else d)"
  by (auto simp: fld_def)

text \<open>A sum over the workers, seen from one of them.\<close>

lemma sum_list_frame:
  fixes f :: "'a \<Rightarrow> 'b :: comm_monoid_add"
  assumes "i < length xs"
  shows "\<exists>R. sum_list (map f xs) = f (xs ! i) + R \<and> (\<forall>x. sum_list (map f (xs[i := x])) = f x + R)"
proof (intro exI conjI allI)
  let ?R = "sum_list (map f (take i xs)) + sum_list (map f (drop (Suc i) xs))"
  have *: "sum_list (map f (xs[i := x])) = f x + ?R" for x
    using assms by (simp add: upd_conv_take_nth_drop add.left_commute)
  then show "sum_list (map f (xs[i := x])) = f x + ?R" for x .
  from *[of "xs ! i"] show "sum_list (map f xs) = f (xs ! i) + ?R" by simp
qed

lemma sum_list_empty_mset: "sum_list (xs :: 'a multiset list) = {#} \<longleftrightarrow> (\<forall>x \<in> set xs. x = {#})"
  by (induction xs) auto

end
