(* ===== verification/Bin_Heap.thy ===== *)
theory Bin_Heap
  imports PWSA_Prelude
begin

text \<open>
  The binary heap of \<open>src/src/shared/bin_heap.hpp\<close>: an array of (priority, value) pairs in heap
  order, with a live length \<open>n\<close> and an allocated \<open>capacity\<close>. The buffer is a function from
  indices; a freshly allocated buffer holds an unspecified value in every cell.
\<close>

section \<open>The data structure\<close>

record 'v KV =
  kv_priority :: int
  kv_value :: 'v

record 'v Heap =
  hn :: nat
  capacity :: nat
  hvalues :: "nat \<Rightarrow> 'v KV"

definition parent :: "nat \<Rightarrow> nat" where
  "parent i = (i - 1) div 2"

definition left_child :: "nat \<Rightarrow> nat" where
  "left_child i = 2 * i + 1"

definition right_child :: "nat \<Rightarrow> nat" where
  "right_child i = 2 * i + 2"

definition has_parent :: "nat \<Rightarrow> bool" where
  "has_parent i \<longleftrightarrow> i > 0"

definition has_left_child :: "'v Heap \<Rightarrow> nat \<Rightarrow> bool" where
  "has_left_child h i \<longleftrightarrow> left_child i < hn h"

definition has_right_child :: "'v Heap \<Rightarrow> nat \<Rightarrow> bool" where
  "has_right_child h i \<longleftrightarrow> right_child i < hn h"

definition priority :: "'v Heap \<Rightarrow> nat \<Rightarrow> int" where
  "priority h i = (if i \<ge> hn h then LONG_MAX else kv_priority (hvalues h i))"

definition min_child :: "'v Heap \<Rightarrow> nat \<Rightarrow> nat" where
  "min_child h i =
     (if priority h (left_child i) < priority h (right_child i) then left_child i else right_child i)"

definition swap_values :: "'v Heap \<Rightarrow> nat \<Rightarrow> nat \<Rightarrow> 'v Heap" where
  "swap_values h i j = h\<lparr>hvalues := (hvalues h)(i := hvalues h j, j := hvalues h i)\<rparr>"

lemma child_simps [simp]:
  "parent (left_child i) = i" "parent (right_child i) = i"
  "i < left_child i" "i < right_child i"
  by (simp_all add: parent_def left_child_def right_child_def)

lemma parent_less [simp]: "0 < i \<Longrightarrow> parent i < i"
  by (simp add: parent_def)

lemma parent_neq [simp]: "0 < i \<Longrightarrow> parent i \<noteq> i"
  by (metis less_irrefl parent_less)

lemma parent_below: "\<lbrakk>0 < i; i < n\<rbrakk> \<Longrightarrow> parent i < n"
  by (rule less_trans[OF parent_less])

lemma parent_cases: "0 < i \<Longrightarrow> i = left_child (parent i) \<or> i = right_child (parent i)"
  unfolding parent_def left_child_def right_child_def by presburger

lemma min_child_greater: "i < min_child h i"
  by (simp add: min_child_def)

lemma swap_values_simps [simp]:
  "hn (swap_values h i j) = hn h" "capacity (swap_values h i j) = capacity h"
  "hvalues (swap_values h i j) = (hvalues h)(i := hvalues h j, j := hvalues h i)"
  by (simp_all add: swap_values_def)

function heapify_down_from :: "'v Heap \<Rightarrow> nat \<Rightarrow> 'v Heap" where
  "heapify_down_from h cur =
     (if priority h cur > priority h (left_child cur) \<or> priority h cur > priority h (right_child cur)
      then heapify_down_from (swap_values h cur (min_child h cur)) (min_child h cur)
      else h)"
  by pat_completeness auto
termination
proof (relation "measure (\<lambda>(h, i). hn h - i)", goal_cases)
  case (2 h cur)
  have "cur < hn h"
  proof (rule ccontr)
    assume "\<not> cur < hn h"
    moreover from this have "left_child cur \<ge> hn h" "right_child cur \<ge> hn h"
      by (simp_all add: left_child_def right_child_def)
    ultimately show False using 2 by (simp add: priority_def)
  qed
  then show ?case using min_child_greater[of cur h] by (auto intro: diff_less_mono2)
qed simp

declare heapify_down_from.simps [simp del]

function heapify_up_from :: "'v Heap \<Rightarrow> nat \<Rightarrow> 'v Heap" where
  "heapify_up_from h cur =
     (if has_parent cur \<and> priority h cur < priority h (parent cur)
      then heapify_up_from (swap_values h cur (parent cur)) (parent cur)
      else h)"
  by pat_completeness auto
termination
  by (relation "measure snd") (auto simp: has_parent_def)

declare heapify_up_from.simps [simp del]

text \<open>An array from \<open>mynew_array\<close>: its cells are not initialised.\<close>

definition new_values :: "nat \<Rightarrow> 'v KV" where
  "new_values = (\<lambda>_. undefined)"

definition write_value :: "'v Heap \<Rightarrow> nat \<Rightarrow> 'v KV \<Rightarrow> 'v Heap result" where
  "write_value h i x =
     (if i < capacity h then Inr (h\<lparr>hvalues := (hvalues h)(i := x)\<rparr>) else Inl OutOfBounds)"

definition resize_bigger :: "nat \<Rightarrow> 'v Heap \<Rightarrow> 'v Heap result" where
  "resize_bigger new_cap h =
     ebind (eassert (hn h \<le> new_cap)) (\<lambda>_.
       Inr (h\<lparr>capacity := new_cap,
              hvalues := (\<lambda>i. if i < hn h then hvalues h i else new_values i)\<rparr>))"

definition heap_new :: "'v Heap" where
  "heap_new = \<lparr>hn = 0, capacity = 4096, hvalues = new_values\<rparr>"

definition heap_insert :: "int \<Rightarrow> 'v \<Rightarrow> 'v Heap \<Rightarrow> 'v Heap result" where
  "heap_insert prio v h0 =
     ebind (if hn h0 = capacity h0 then resize_bigger (capacity h0 * 2) h0 else Inr h0) (\<lambda>h.
     ebind (write_value h (hn h) \<lparr>kv_priority = prio, kv_value = v\<rparr>) (\<lambda>h.
       Inr (heapify_up_from (h\<lparr>hn := hn h + 1\<rparr>) (hn h))))"

text \<open>The statements \<open>delete_min\<close> and \<open>discard_min\<close> share: the last entry moves to the root.\<close>

definition drop_root :: "'v Heap \<Rightarrow> 'v Heap" where
  "drop_root h = heapify_down_from
     (h\<lparr>hvalues := (hvalues h)(0 := hvalues h (hn h - 1)), hn := hn h - 1\<rparr>) 0"

definition heap_delete_min :: "'v Heap \<Rightarrow> ('v \<times> 'v Heap) result" where
  "heap_delete_min h =
     ebind (eassert (hn h > 0)) (\<lambda>_.
       let res = kv_value (hvalues h 0) in Inr (res, drop_root h))"

definition heap_discard_min :: "'v Heap \<Rightarrow> 'v Heap result" where
  "heap_discard_min h = ebind (eassert (hn h > 0)) (\<lambda>_. Inr (drop_root h))"

definition heap_peek :: "'v Heap \<Rightarrow> 'v result" where
  "heap_peek h = ebind (eassert (hn h > 0)) (\<lambda>_. Inr (kv_value (hvalues h 0)))"

definition heap_size :: "'v Heap \<Rightarrow> nat" where
  "heap_size h = hn h"

definition heap_swap :: "'v Heap \<Rightarrow> 'v Heap \<Rightarrow> 'v Heap \<times> 'v Heap" where
  "heap_swap this other = (other, this)"

text \<open>
  \<open>split\<close> walks the levels of the tree below the root: the first half of each level is the level
  of the left subtree, moved to the front of this buffer, the second half is the level of the
  right subtree, moved to the other heap. \<open>split_levels m k\<close> is the loop at \<open>level = 2 ^ (k + 1)\<close>.
\<close>

record 'v split_state =
  sp_this :: "'v Heap"
  sp_other :: "'v Heap"
  write_this_idx :: nat
  write_other_idx :: nat
  read_idx :: nat

fun split_this :: "nat \<Rightarrow> nat \<Rightarrow> 'v split_state \<Rightarrow> 'v split_state result" where
  "split_this m 0 s = Inr s"
| "split_this m (Suc i) s =
     (if read_idx s < m
      then ebind (write_value (sp_this s) (write_this_idx s) (hvalues (sp_this s) (read_idx s))) (\<lambda>h.
             split_this m i
               (s\<lparr>sp_this := h\<lparr>hn := hn h + 1\<rparr>, write_this_idx := write_this_idx s + 1,
                  read_idx := read_idx s + 1\<rparr>))
      else Inr s)"

fun split_other :: "nat \<Rightarrow> nat \<Rightarrow> 'v split_state \<Rightarrow> 'v split_state result" where
  "split_other m 0 s = Inr s"
| "split_other m (Suc i) s =
     (if read_idx s < m
      then ebind (write_value (sp_other s) (write_other_idx s) (hvalues (sp_this s) (read_idx s))) (\<lambda>h.
             split_other m i
               (s\<lparr>sp_other := h\<lparr>hn := hn h + 1\<rparr>, write_other_idx := write_other_idx s + 1,
                  read_idx := read_idx s + 1\<rparr>))
      else Inr s)"

lemma split_this_read_idx:
  "split_this m i s = Inr s' \<Longrightarrow>
     read_idx s \<le> read_idx s' \<and> (0 < i \<and> read_idx s < m \<longrightarrow> read_idx s < read_idx s')"
proof (induction m i s rule: split_this.induct)
  case (2 m i s)
  then show ?case by (fastforce simp: result_simps split: if_splits)
qed simp

lemma split_other_read_idx: "split_other m i s = Inr s' \<Longrightarrow> read_idx s \<le> read_idx s'"
proof (induction m i s rule: split_other.induct)
  case (2 m i s)
  then show ?case by (fastforce simp: result_simps split: if_splits)
qed simp

function split_levels :: "nat \<Rightarrow> nat \<Rightarrow> 'v split_state \<Rightarrow> 'v split_state result" where
  "split_levels m k s =
     (if read_idx s < m
      then (case ebind (split_this m (2 ^ k) s) (split_other m (2 ^ k)) of
              Inl e \<Rightarrow> Inl e
            | Inr s' \<Rightarrow> split_levels m (Suc k) s')
      else Inr s)"
  by pat_completeness auto
termination
proof (relation "measure (\<lambda>(m, k, s). m - read_idx s)", goal_cases)
  case (2 m k s s')
  then obtain s1 where "split_this m (2 ^ k) s = Inr s1" "split_other m (2 ^ k) s1 = Inr s'"
    by (auto simp: result_simps)
  then have "read_idx s < read_idx s'"
    using split_this_read_idx[of m "2 ^ k" s s1] split_other_read_idx[of m "2 ^ k" s1 s'] 2(1) by auto
  then show ?case using 2(1) by auto
qed simp

declare split_levels.simps [simp del]

definition heap_split :: "'v Heap \<Rightarrow> 'v Heap \<Rightarrow> ('v Heap \<times> 'v Heap) result" where
  "heap_split this other =
     (if hn this < 2 then Inr (this, other)
      else let m = hn this; root = hvalues this 0 in
        ebind (resize_bigger (m div 2) other) (\<lambda>other.
        ebind (split_levels m 0
                 \<lparr>sp_this = this\<lparr>hn := 0\<rparr>, sp_other = other\<lparr>hn := 0\<rparr>,
                  write_this_idx = 0, write_other_idx = 0, read_idx = 1\<rparr>) (\<lambda>s.
        ebind (heap_insert (kv_priority root) (kv_value root) (sp_other s)) (\<lambda>other.
          Inr (sp_this s, other)))))"

section \<open>Heap order and contents\<close>

text \<open>
  The live entries as a multiset, the order between a node and its parent, and the invariant of
  the class: room in the buffer, priorities in the range of \<open>long\<close>, heap order.
\<close>

definition contents :: "'v Heap \<Rightarrow> (int \<times> 'v) multiset" where
  "contents h = mset (map (\<lambda>i. (kv_priority (hvalues h i), kv_value (hvalues h i))) [0..<hn h])"

definition ordered :: "'v Heap \<Rightarrow> bool" where
  "ordered h \<longleftrightarrow> (\<forall>i<hn h. 0 < i \<longrightarrow> kv_priority (hvalues h (parent i)) \<le> kv_priority (hvalues h i))"

definition heap_invar :: "'v Heap \<Rightarrow> bool" where
  "heap_invar h \<longleftrightarrow> 0 < capacity h \<and> hn h \<le> capacity h
     \<and> (\<forall>i<hn h. kv_priority (hvalues h i) \<le> LONG_MAX) \<and> ordered h"

abbreviation prio :: "'v Heap \<Rightarrow> nat \<Rightarrow> int" where
  "prio h i \<equiv> kv_priority (hvalues h i)"

lemma priority_live: "i < hn h \<Longrightarrow> priority h i = prio h i"
  by (simp add: priority_def)

lemma priority_dead: "hn h \<le> i \<Longrightarrow> priority h i = LONG_MAX"
  by (simp add: priority_def)

lemma size_contents [simp]: "size (contents h) = hn h"
  by (simp add: contents_def)

lemma contents_empty_iff: "contents h = {#} \<longleftrightarrow> hn h = 0"
  by (metis size_contents size_eq_0_iff_empty)

lemma contents_alt: "contents h = image_mset (\<lambda>x. (kv_priority x, kv_value x)) (mset (map (hvalues h) [0..<hn h]))"
  by (simp add: contents_def image_mset.compositionality comp_def flip: mset_map)

lemma contents_swap_values:
  "\<lbrakk>i < hn h; j < hn h\<rbrakk> \<Longrightarrow> contents (swap_values h i j) = contents h"
  by (simp only: contents_alt swap_values_simps mset_swap_upt)

lemma mem_contents: "(p, v) \<in># contents h \<longleftrightarrow> (\<exists>i<hn h. p = prio h i \<and> v = kv_value (hvalues h i))"
  by (auto simp: contents_def)

lemma ordered_root: "\<lbrakk>ordered h; i < hn h\<rbrakk> \<Longrightarrow> prio h 0 \<le> prio h i"
proof (induction i rule: less_induct)
  case (less i)
  show ?case
  proof (cases "i = 0")
    case False
    then have "prio h 0 \<le> prio h (parent i)" using less by (intro less.IH) (auto intro: parent_below)
    also have "\<dots> \<le> prio h i" using less.prems False by (auto simp: ordered_def)
    finally show ?thesis .
  qed simp
qed

subsection \<open>Sifting up\<close>

definition up_inv :: "'v Heap \<Rightarrow> nat \<Rightarrow> bool" where
  "up_inv h k \<longleftrightarrow>
     (\<forall>i<hn h. 0 < i \<longrightarrow> i \<noteq> k \<longrightarrow> prio h (parent i) \<le> prio h i) \<and>
     (\<forall>i<hn h. 0 < i \<longrightarrow> parent i = k \<longrightarrow> 0 < k \<longrightarrow> prio h (parent k) \<le> prio h i)"

lemma up_inv_step:
  assumes "up_inv h k" "k < hn h" "0 < k" "prio h k < prio h (parent k)"
  shows "up_inv (swap_values h k (parent k)) (parent k)"
proof -
  have ne: "parent k \<noteq> k" using assms(3) by (metis less_irrefl parent_less)
  note up = assms(1)[unfolded up_inv_def]
  have "prio (swap_values h k (parent k)) (parent i) \<le> prio (swap_values h k (parent k)) i"
    if i: "i < hn h" "0 < i" "i \<noteq> parent k" for i
  proof -
    consider "i = k" | "i \<noteq> k" "parent i = k" | "i \<noteq> k" "parent i = parent k"
      | "i \<noteq> k" "parent i \<noteq> k" "parent i \<noteq> parent k" by blast
    then show ?thesis
    proof cases
      case 3
      then have "prio h (parent k) \<le> prio h i" using up i by auto
      then show ?thesis using 3 i assms ne by auto
    qed (use up i assms ne in auto)
  qed
  moreover have "prio (swap_values h k (parent k)) (parent (parent k)) \<le> prio (swap_values h k (parent k)) i"
    if i: "i < hn h" "0 < i" "parent i = parent k" "0 < parent k" for i
  proof -
    have pp: "parent (parent k) \<noteq> parent k" "parent (parent k) \<noteq> k"
      using i(4) assms(3) by (metis less_irrefl parent_less, metis less_asym parent_less)
    have "prio h (parent (parent k)) \<le> prio h (parent k)"
      using up i(4) assms(2,3) ne by (auto intro: parent_below)
    moreover have "prio h (parent k) \<le> prio h i" if "i \<noteq> k" using up i that by auto
    moreover have "i \<noteq> parent k" using i by (metis less_irrefl parent_less)
    ultimately show ?thesis using pp ne by (cases "i = k") auto
  qed
  ultimately show ?thesis by (auto simp: up_inv_def)
qed

lemma heapify_up_from_correct:
  assumes "up_inv h k" "k < hn h"
  shows "ordered (heapify_up_from h k) \<and> contents (heapify_up_from h k) = contents h
     \<and> hn (heapify_up_from h k) = hn h \<and> capacity (heapify_up_from h k) = capacity h"
  using assms
proof (induction h k rule: heapify_up_from.induct)
  case (1 h k)
  show ?case
  proof (cases "has_parent k \<and> priority h k < priority h (parent k)")
    case True
    then have k: "0 < k" "parent k < hn h" using "1.prems" by (auto simp: has_parent_def intro: parent_below)
    then have lt: "prio h k < prio h (parent k)" using True "1.prems"(2) by (simp add: priority_live)
    have "up_inv (swap_values h k (parent k)) (parent k)"
      by (rule up_inv_step) (use "1.prems" k lt in auto)
    from "1.IH"[OF True this] k show ?thesis
      using "1.prems"(2) True by (simp add: heapify_up_from.simps[of h k] contents_swap_values)
  next
    case False
    have "prio h (parent k) \<le> prio h k" if "0 < k"
      using False that "1.prems"(2) by (auto simp: has_parent_def priority_live parent_below)
    then have "ordered h" using "1.prems"(1) by (auto simp: ordered_def up_inv_def)
    moreover have "heapify_up_from h k = h" using False by (subst heapify_up_from.simps) auto
    ultimately show ?thesis by simp
  qed
qed

subsection \<open>Sifting down\<close>

definition down_inv :: "'v Heap \<Rightarrow> nat \<Rightarrow> bool" where
  "down_inv h k \<longleftrightarrow>
     (\<forall>i<hn h. 0 < i \<longrightarrow> parent i \<noteq> k \<longrightarrow> prio h (parent i) \<le> prio h i) \<and>
     (\<forall>i<hn h. 0 < i \<longrightarrow> parent i = k \<longrightarrow> 0 < k \<longrightarrow> prio h (parent k) \<le> prio h i)"

definition in_long :: "'v Heap \<Rightarrow> bool" where
  "in_long h \<longleftrightarrow> (\<forall>i<hn h. prio h i \<le> LONG_MAX)"

lemma priority_le_LONG_MAX: "in_long h \<Longrightarrow> priority h i \<le> LONG_MAX"
  by (simp add: priority_def in_long_def)

text \<open>When the loop goes on, the child it descends to is live and the smaller of the two.\<close>

lemma min_child_live:
  assumes "in_long h"
    and "priority h k > priority h (left_child k) \<or> priority h k > priority h (right_child k)"
  shows "min_child h k < hn h" "k < hn h" "prio h (min_child h k) < prio h k"
    "\<And>i. \<lbrakk>i < hn h; 0 < i; parent i = k\<rbrakk> \<Longrightarrow> prio h (min_child h k) \<le> prio h i"
proof -
  let ?c = "min_child h k"
  have le: "priority h ?c \<le> priority h (left_child k)" "priority h ?c \<le> priority h (right_child k)"
    by (auto simp: min_child_def)
  then have lt: "priority h ?c < priority h k" using assms(2) by auto
  show c: "?c < hn h"
    using lt priority_le_LONG_MAX[OF assms(1), of k] priority_dead[of h ?c] by (cases "?c < hn h") auto
  show k: "k < hn h" using c min_child_greater[of k h] by simp
  show "prio h ?c < prio h k" using lt c k by (simp add: priority_live)
  fix i assume i: "i < hn h" "0 < i" "parent i = k"
  then show "prio h ?c \<le> prio h i"
    using parent_cases[of i] le c by (auto simp: priority_live)
qed

lemma down_inv_step:
  assumes "down_inv h k" "c < hn h" "parent c = k" "0 < c" "prio h c < prio h k"
    and min: "\<And>i. \<lbrakk>i < hn h; 0 < i; parent i = k\<rbrakk> \<Longrightarrow> prio h c \<le> prio h i"
  shows "down_inv (swap_values h k c) c"
proof -
  have kc: "k < c" using assms by (metis parent_less)
  note dn = assms(1)[unfolded down_inv_def]
  have "prio (swap_values h k c) (parent i) \<le> prio (swap_values h k c) i"
    if i: "i < hn h" "0 < i" "parent i \<noteq> c" for i
  proof -
    consider "i = k" | "i = c" | "i \<noteq> k" "i \<noteq> c" "parent i = k" | "i \<noteq> k" "i \<noteq> c" "parent i \<noteq> k"
      by blast
    then show ?thesis
    proof cases
      case 1
      then have "parent i \<noteq> k" "parent i \<noteq> c" using i kc parent_less[of i] by auto
      moreover have "prio h (parent k) \<le> prio h c" using dn assms(2,3,4) i 1 by auto
      ultimately show ?thesis using 1 kc by auto
    next
      case 2
      then show ?thesis using assms(3,5) kc by auto
    next
      case 3
      then show ?thesis using min[of i] i kc by auto
    next
      case 4
      then show ?thesis using dn i by auto
    qed
  qed
  moreover have "prio (swap_values h k c) (parent c) \<le> prio (swap_values h k c) i"
    if i: "i < hn h" "0 < i" "parent i = c" for i
  proof -
    have "prio h c \<le> prio h i" using dn i kc assms(3) by (metis less_irrefl)
    moreover have "i \<noteq> k" "i \<noteq> c" using i kc parent_less[of i] by auto
    ultimately show ?thesis using assms(3) kc by auto
  qed
  ultimately show ?thesis by (simp add: down_inv_def del: swap_values_simps(3))
qed

lemma heapify_down_from_correct:
  assumes "down_inv h k" "in_long h"
  shows "ordered (heapify_down_from h k) \<and> contents (heapify_down_from h k) = contents h
     \<and> hn (heapify_down_from h k) = hn h \<and> capacity (heapify_down_from h k) = capacity h"
  using assms
proof (induction h k rule: heapify_down_from.induct)
  case (1 h k)
  let ?c = "min_child h k"
  show ?case
  proof (cases "priority h k > priority h (left_child k) \<or> priority h k > priority h (right_child k)")
    case True
    note mc = min_child_live[OF "1.prems"(2) True]
    have c: "parent ?c = k" "0 < ?c" by (auto simp: min_child_def left_child_def right_child_def parent_def)
    have dn: "down_inv (swap_values h k ?c) ?c"
      by (rule down_inv_step) (use "1.prems" mc c in auto)
    have "in_long (swap_values h k ?c)"
      using "1.prems"(2) mc(1,2) by (auto simp: in_long_def)
    from "1.IH"[OF True dn this] mc show ?thesis
      using True by (simp add: heapify_down_from.simps[of h k] contents_swap_values)
  next
    case False
    have "prio h k \<le> prio h i" if i: "i < hn h" "0 < i" "parent i = k" for i
    proof -
      have "k < hn h" using i parent_less[of i] by auto
      moreover have "priority h k \<le> priority h i" using parent_cases[of i] i False by auto
      ultimately show ?thesis using i by (simp add: priority_live)
    qed
    then have "ordered h" using "1.prems"(1) by (auto simp: ordered_def down_inv_def)
    moreover have "heapify_down_from h k = h" using False by (subst heapify_down_from.simps) auto
    ultimately show ?thesis by simp
  qed
qed

subsection \<open>The operations\<close>

lemma heap_invar_new: "heap_invar heap_new" "contents heap_new = {#}"
  by (simp_all add: heap_invar_def heap_new_def ordered_def contents_def)

lemma heap_invar_in_long: "heap_invar h \<Longrightarrow> in_long h"
  by (simp add: heap_invar_def in_long_def)

lemma in_long_contents: "in_long h \<longleftrightarrow> (\<forall>(p, v) \<in># contents h. p \<le> LONG_MAX)"
  by (force simp: in_long_def mem_contents)

lemma heap_invarI:
  "\<lbrakk>0 < capacity h; hn h \<le> capacity h; in_long h; ordered h\<rbrakk> \<Longrightarrow> heap_invar h"
  by (simp add: heap_invar_def in_long_def)

text \<open>Room for one more entry: what the conditional \<open>resize_bigger\<close> of \<open>insert\<close> provides.\<close>

lemma heap_grow:
  assumes "hn h0 \<le> capacity h0" "0 < capacity h0"
  shows "\<exists>h. (if hn h0 = capacity h0 then resize_bigger (capacity h0 * 2) h0 else Inr h0) = Inr h
    \<and> hn h = hn h0 \<and> hn h < capacity h \<and> (\<forall>i<hn h. hvalues h i = hvalues h0 i)"
  using assms by (auto simp: resize_bigger_def)

lemma heap_insert_correct:
  assumes "heap_invar h" "p \<le> LONG_MAX"
  shows "\<exists>h'. heap_insert p v h = Inr h' \<and> heap_invar h' \<and> contents h' = add_mset (p, v) (contents h)"
proof -
  from assms(1) obtain h1 where
    h1: "(if hn h = capacity h then resize_bigger (capacity h * 2) h else Inr h) = Inr h1"
    and g: "hn h1 = hn h" "hn h1 < capacity h1" "\<And>i. i < hn h \<Longrightarrow> hvalues h1 i = hvalues h i"
    using heap_grow[of h] by (auto simp: heap_invar_def)
  define h2 where "h2 = h1\<lparr>hvalues := (hvalues h1)(hn h1 := \<lparr>kv_priority = p, kv_value = v\<rparr>), hn := hn h1 + 1\<rparr>"
  have ins: "heap_insert p v h = Inr (heapify_up_from h2 (hn h1))"
    using h1 g by (simp add: heap_insert_def write_value_def h2_def)
  have "up_inv h2 (hn h1)"
    using assms(1) g by (auto simp: up_inv_def h2_def heap_invar_def ordered_def parent_below
        less_Suc_eq dest: parent_less)
  then have up: "ordered (heapify_up_from h2 (hn h1))" "contents (heapify_up_from h2 (hn h1)) = contents h2"
    "hn (heapify_up_from h2 (hn h1)) = hn h2" "capacity (heapify_up_from h2 (hn h1)) = capacity h2"
    using heapify_up_from_correct[of h2 "hn h1"] by (auto simp: h2_def)
  have e: "map (\<lambda>i. (prio h2 i, kv_value (hvalues h2 i))) [0..<hn h] =
        map (\<lambda>i. (prio h i, kv_value (hvalues h i))) [0..<hn h]"
    using g by (auto simp: h2_def)
  have c2: "contents h2 = mset (map (\<lambda>i. (prio h2 i, kv_value (hvalues h2 i))) [0..<hn h] @ [(p, v)])"
    using g(1) by (simp add: contents_def h2_def del: mset_map)
  have c: "contents h2 = add_mset (p, v) (contents h)"
    unfolding c2 e by (simp add: contents_def)
  have "in_long (heapify_up_from h2 (hn h1))"
    using heap_invar_in_long[OF assms(1)] assms(2) by (auto simp: in_long_contents up(2) c)
  then have "heap_invar (heapify_up_from h2 (hn h1))"
    using up g assms by (intro heap_invarI) (auto simp: h2_def)
  then show ?thesis using ins up c by auto
qed

lemma contents_root:
  assumes "hn h = Suc m" "h' = h\<lparr>hvalues := (hvalues h)(0 := hvalues h m), hn := m\<rparr>"
  shows "contents h = add_mset (prio h 0, kv_value (hvalues h 0)) (contents h')"
proof (cases m)
  case 0
  then show ?thesis using assms by (simp add: contents_def)
next
  case (Suc j)
  let ?f = "\<lambda>i. (prio h i, kv_value (hvalues h i))"
  have u2: "[0..<m] = 0 # [1..<m]" using Suc by (subst upt_conv_Cons) auto
  then have u: "[0..<Suc m] = [0] @ [1..<m] @ [m]" by simp
  have "contents h = mset (map ?f ([0] @ [1..<m] @ [m]))"
    by (simp only: contents_def assms(1) u)
  moreover have "map (\<lambda>i. (prio h' i, kv_value (hvalues h' i))) [0..<m] = map ?f ([m] @ [1..<m])"
    using assms(2) by (simp add: u2)
  then have "contents h' = mset (map ?f ([m] @ [1..<m]))"
    using assms(2) by (simp add: contents_def)
  ultimately show ?thesis by simp
qed

lemma drop_root_correct:
  assumes "heap_invar h" "0 < hn h"
  shows "heap_invar (drop_root h)
    \<and> contents h = add_mset (prio h 0, kv_value (hvalues h 0)) (contents (drop_root h))"
proof -
  define h1 where "h1 = h\<lparr>hvalues := (hvalues h)(0 := hvalues h (hn h - 1)), hn := hn h - 1\<rparr>"
  have "down_inv h1 0"
    using assms by (auto simp: down_inv_def h1_def heap_invar_def ordered_def parent_def)
  moreover have long: "in_long h1"
    using heap_invar_in_long[OF assms(1)] assms(2) by (auto simp: in_long_def h1_def)
  ultimately have dn: "ordered (drop_root h)" "contents (drop_root h) = contents h1"
    "hn (drop_root h) = hn h1" "capacity (drop_root h) = capacity h1"
    using heapify_down_from_correct[of h1 0] by (auto simp: drop_root_def h1_def)
  have "contents h = add_mset (prio h 0, kv_value (hvalues h 0)) (contents h1)"
    using assms(2) by (intro contents_root[where m = "hn h - 1"]) (auto simp: h1_def)
  moreover have "heap_invar (drop_root h)"
    using dn long assms(1) by (intro heap_invarI) (auto simp: h1_def heap_invar_def in_long_contents)
  ultimately show ?thesis using dn by simp
qed

lemma heap_delete_min_correct:
  assumes "heap_invar h" "contents h \<noteq> {#}"
  shows "\<exists>p v h'. heap_delete_min h = Inr (v, h') \<and> heap_invar h'
    \<and> contents h = add_mset (p, v) (contents h') \<and> (\<forall>(q, u) \<in># contents h. p \<le> q)"
proof -
  have n: "0 < hn h" using assms(2) by (simp add: contents_empty_iff)
  have "\<forall>(q, u) \<in># contents h. prio h 0 \<le> q"
    using assms(1) by (auto simp: mem_contents heap_invar_def intro: ordered_root)
  then show ?thesis
    using drop_root_correct[OF assms(1) n] n by (auto simp: heap_delete_min_def)
qed

subsection \<open>Splitting\<close>

text \<open>
  \<open>lev_size j\<close> is the size of the tree level that holds index \<open>j\<close>. The node of the left (right)
  subtree with index \<open>j\<close> inside that subtree has index \<open>left_src j\<close> (\<open>right_src j\<close>) in the whole
  tree, and both maps commute with \<open>parent\<close>: a subtree of a heap in level order is a heap.
\<close>

fun lev_size :: "nat \<Rightarrow> nat" where
  "lev_size j = (if j = 0 then 1 else 2 * lev_size ((j - 1) div 2))"

declare lev_size.simps [simp del]

lemma lev_size_0 [simp]: "lev_size 0 = 1"
  by (simp add: lev_size.simps)

lemma lev_size_parent: "0 < j \<Longrightarrow> lev_size j = 2 * lev_size (parent j)"
  by (simp add: lev_size.simps[of j] parent_def)

definition left_src :: "nat \<Rightarrow> nat" where
  "left_src j = j + lev_size j"

definition right_src :: "nat \<Rightarrow> nat" where
  "right_src j = j + 2 * lev_size j"

lemma parent_left_src: "0 < j \<Longrightarrow> parent (left_src j) = left_src (parent j)"
  by (simp add: left_src_def lev_size_parent parent_def)

lemma parent_right_src: "0 < j \<Longrightarrow> parent (right_src j) = right_src (parent j)"
  by (simp add: right_src_def lev_size_parent parent_def)

lemma lev_size_level: "\<lbrakk>2 ^ k - 1 \<le> j; j < 2 * 2 ^ k - 1\<rbrakk> \<Longrightarrow> lev_size j = 2 ^ k"
proof (induction k arbitrary: j)
  case (Suc k)
  define t where "t = (2::nat) ^ k"
  have t: "1 \<le> t" "2 * t - 1 \<le> j" "j < 4 * t - 1" using Suc.prems by (simp_all add: t_def)
  then have "t - 1 \<le> (j - 1) div 2" "(j - 1) div 2 < 2 * t - 1" by presburger+
  then have p: "2 ^ k - 1 \<le> parent j" "parent j < 2 * 2 ^ k - 1"
    by (simp_all add: parent_def t_def)
  have "0 < j" using t(1,2) by linarith
  then show ?case using Suc.IH[OF p] by (simp add: lev_size_parent)
qed simp

lemma lev_size_bound: "j + 2 \<le> 2 * lev_size j"
proof (induction j rule: lev_size.induct)
  case (1 j)
  then show ?case by (cases "j = 0") (auto simp: lev_size.simps[of j])
qed

text \<open>The loop invariant of \<open>split\<close>, with \<open>old\<close> the buffer before it and \<open>m\<close> the old length.\<close>

definition split_inv :: "(nat \<Rightarrow> 'v KV) \<Rightarrow> nat \<Rightarrow> 'v split_state \<Rightarrow> bool" where
  "split_inv old m s \<longleftrightarrow>
     hn (sp_this s) = write_this_idx s \<and> hn (sp_other s) = write_other_idx s \<and>
     write_this_idx s < read_idx s \<and> read_idx s \<le> m \<and>
     m \<le> capacity (sp_this s) \<and> capacity (sp_other s) = m div 2 \<and>
     read_idx s = Suc (write_this_idx s + write_other_idx s) \<and>
     (\<forall>j. read_idx s \<le> j \<longrightarrow> hvalues (sp_this s) j = old j) \<and>
     (\<forall>j<write_this_idx s. left_src j < read_idx s \<and> hvalues (sp_this s) j = old (left_src j)) \<and>
     (\<forall>j<write_other_idx s. right_src j < read_idx s \<and> hvalues (sp_other s) j = old (right_src j)) \<and>
     mset (map old [1..<read_idx s]) =
       mset (map (hvalues (sp_this s)) [0..<write_this_idx s]) +
       mset (map (hvalues (sp_other s)) [0..<write_other_idx s])"

lemma split_invD:
  assumes "split_inv old m s"
  shows "hn (sp_this s) = write_this_idx s" "hn (sp_other s) = write_other_idx s"
    "write_this_idx s < read_idx s" "read_idx s \<le> m" "m \<le> capacity (sp_this s)"
    "capacity (sp_other s) = m div 2" "read_idx s = Suc (write_this_idx s + write_other_idx s)"
    "\<And>j. j < write_other_idx s \<Longrightarrow> right_src j < read_idx s"
  using assms unfolding split_inv_def by blast+

lemma map_upt_Suc_upd: "map (f(n := x)) [0..<Suc n] = map f [0..<n] @ [x]"
  by simp

lemma split_inv_this_step:
  assumes "split_inv old m s" "read_idx s < m" "left_src (write_this_idx s) = read_idx s"
  shows "split_inv old m
    (s\<lparr>sp_this := (sp_this s)\<lparr>hvalues := (hvalues (sp_this s))(write_this_idx s := hvalues (sp_this s) (read_idx s)),
         hn := hn (sp_this s) + 1\<rparr>,
       write_this_idx := write_this_idx s + 1, read_idx := read_idx s + 1\<rparr>)"
    (is "split_inv old m ?s")
proof -
  note si = assms(1)[unfolded split_inv_def]
  have rd: "hvalues (sp_this s) (read_idx s) = old (read_idx s)" using si by auto
  have m0: "mset (map old [1..<read_idx s]) = mset (map (hvalues (sp_this s)) [0..<write_this_idx s]) +
       mset (map (hvalues (sp_other s)) [0..<write_other_idx s])" using si by (elim conjE)
  have r: "1 \<le> read_idx s" using si by linarith
  have "mset (map old [1..<read_idx ?s]) = add_mset (old (read_idx s)) (mset (map old [1..<read_idx s]))"
    using r by simp
  also have "\<dots> = mset (map (hvalues (sp_this ?s)) [0..<write_this_idx ?s]) +
       mset (map (hvalues (sp_other ?s)) [0..<write_other_idx ?s])"
    unfolding m0 by (simp add: rd map_upt_Suc_upd del: upt_Suc mset_map)
  finally have ms: "mset (map old [1..<read_idx ?s]) = \<dots>" .
  show ?thesis
    unfolding split_inv_def ms using si assms(2,3) rd by (auto simp: less_Suc_eq)
qed

lemma split_inv_other_step:
  assumes "split_inv old m s" "read_idx s < m" "right_src (write_other_idx s) = read_idx s"
  shows "split_inv old m
    (s\<lparr>sp_other := (sp_other s)\<lparr>hvalues := (hvalues (sp_other s))(write_other_idx s := hvalues (sp_this s) (read_idx s)),
         hn := hn (sp_other s) + 1\<rparr>,
       write_other_idx := write_other_idx s + 1, read_idx := read_idx s + 1\<rparr>)"
    (is "split_inv old m ?s")
proof -
  note si = assms(1)[unfolded split_inv_def]
  have rd: "hvalues (sp_this s) (read_idx s) = old (read_idx s)" using si by auto
  have m0: "mset (map old [1..<read_idx s]) = mset (map (hvalues (sp_this s)) [0..<write_this_idx s]) +
       mset (map (hvalues (sp_other s)) [0..<write_other_idx s])" using si by (elim conjE)
  have r: "1 \<le> read_idx s" using si by linarith
  have "mset (map old [1..<read_idx ?s]) = add_mset (old (read_idx s)) (mset (map old [1..<read_idx s]))"
    using r by simp
  also have "\<dots> = mset (map (hvalues (sp_this ?s)) [0..<write_this_idx ?s]) +
       mset (map (hvalues (sp_other ?s)) [0..<write_other_idx ?s])"
    unfolding m0 by (simp add: rd map_upt_Suc_upd del: upt_Suc mset_map)
  finally have ms: "mset (map old [1..<read_idx ?s]) = \<dots>" .
  show ?thesis
    unfolding split_inv_def ms using si assms(2,3) rd by (auto simp: less_Suc_eq)
qed

lemma split_this_inv:
  assumes "split_inv old m s" "write_this_idx s + i < 2 * 2 ^ k" "2 ^ k - 1 \<le> write_this_idx s"
    "read_idx s = write_this_idx s + 2 ^ k"
  shows "\<exists>s'. split_this m i s = Inr s' \<and> split_inv old m s' \<and> write_other_idx s' = write_other_idx s
    \<and> (read_idx s' = m \<or> write_this_idx s' = write_this_idx s + i \<and> read_idx s' = read_idx s + i)"
  using assms
proof (induction m i s rule: split_this.induct)
  case (2 m i s)
  show ?case
  proof (cases "read_idx s < m")
    case True
    let ?h = "(sp_this s)\<lparr>hvalues := (hvalues (sp_this s))(write_this_idx s := hvalues (sp_this s) (read_idx s))\<rparr>"
    let ?s = "s\<lparr>sp_this := ?h\<lparr>hn := hn ?h + 1\<rparr>, write_this_idx := write_this_idx s + 1, read_idx := read_idx s + 1\<rparr>"
    have w: "write_value (sp_this s) (write_this_idx s) (hvalues (sp_this s) (read_idx s)) = Inr ?h"
      using "2.prems"(1) True by (auto simp: write_value_def split_inv_def)
    have "left_src (write_this_idx s) = read_idx s"
      using "2.prems" by (simp add: left_src_def lev_size_level)
    then have "split_inv old m ?s" using split_inv_this_step[OF "2.prems"(1) True] by simp
    then have "\<exists>s'. split_this m i ?s = Inr s' \<and> split_inv old m s' \<and> write_other_idx s' = write_other_idx ?s
      \<and> (read_idx s' = m \<or> write_this_idx s' = write_this_idx ?s + i \<and> read_idx s' = read_idx ?s + i)"
      using "2.prems" by (intro "2.IH"[OF True]) auto
    then show ?thesis using True w by auto
  next
    case False
    then have "read_idx s = m" using "2.prems"(1) by (simp add: split_inv_def)
    then show ?thesis using "2.prems"(1) by simp
  qed
qed auto

lemma split_other_inv:
  assumes "split_inv old m s" "write_other_idx s + i < 2 * 2 ^ k" "2 ^ k - 1 \<le> write_other_idx s"
    "read_idx s = m \<or> read_idx s = write_other_idx s + 2 * 2 ^ k"
  shows "\<exists>s'. split_other m i s = Inr s' \<and> split_inv old m s' \<and> write_this_idx s' = write_this_idx s
    \<and> (read_idx s' = m \<or> write_other_idx s' = write_other_idx s + i \<and> read_idx s' = read_idx s + i)"
  using assms
proof (induction m i s rule: split_other.induct)
  case (2 m i s)
  show ?case
  proof (cases "read_idx s < m")
    case True
    let ?h = "(sp_other s)\<lparr>hvalues := (hvalues (sp_other s))(write_other_idx s := hvalues (sp_this s) (read_idx s))\<rparr>"
    let ?s = "s\<lparr>sp_other := ?h\<lparr>hn := hn ?h + 1\<rparr>, write_other_idx := write_other_idx s + 1, read_idx := read_idx s + 1\<rparr>"
    have src: "right_src (write_other_idx s) = read_idx s"
      using "2.prems" True by (simp add: right_src_def lev_size_level)
    have "write_other_idx s < m div 2" using "2.prems" True by auto
    then have w: "write_value (sp_other s) (write_other_idx s) (hvalues (sp_this s) (read_idx s)) = Inr ?h"
      using "2.prems"(1) by (auto simp: write_value_def split_inv_def)
    have "split_inv old m ?s" using split_inv_other_step[OF "2.prems"(1) True src] by simp
    then have "\<exists>s'. split_other m i ?s = Inr s' \<and> split_inv old m s' \<and> write_this_idx s' = write_this_idx ?s
      \<and> (read_idx s' = m \<or> write_other_idx s' = write_other_idx ?s + i \<and> read_idx s' = read_idx ?s + i)"
      using "2.prems" True by (intro "2.IH"[OF True]) auto
    then show ?thesis using True w by auto
  next
    case False
    then have "read_idx s = m" using "2.prems"(1) by (simp add: split_inv_def)
    then show ?thesis using "2.prems"(1) by simp
  qed
qed auto

lemma split_levels_inv:
  assumes "split_inv old m s"
    "read_idx s = m \<or> read_idx s = 2 * 2 ^ k - 1 \<and> write_this_idx s = 2 ^ k - 1 \<and> write_other_idx s = 2 ^ k - 1"
  shows "\<exists>s'. split_levels m k s = Inr s' \<and> split_inv old m s' \<and> read_idx s' = m"
  using assms
proof (induction m k s rule: split_levels.induct)
  case (1 m k s)
  show ?case
  proof (cases "read_idx s < m")
    case True
    then have at: "read_idx s = 2 * 2 ^ k - 1" "write_this_idx s = 2 ^ k - 1" "write_other_idx s = 2 ^ k - 1"
      using "1.prems"(2) by auto
    have one: "(2::nat) ^ k + 2 ^ k - Suc 0 < 2 * 2 ^ k" by (simp flip: mult_2)
    have "\<exists>s'. split_this m (2 ^ k) s = Inr s' \<and> split_inv old m s' \<and> write_other_idx s' = write_other_idx s
      \<and> (read_idx s' = m \<or> write_this_idx s' = write_this_idx s + 2 ^ k \<and> read_idx s' = read_idx s + 2 ^ k)"
      using "1.prems"(1) at one by (intro split_this_inv[where k = k]) auto
    moreover have "write_this_idx s + 2 ^ k = 2 * 2 ^ k - 1" "read_idx s + 2 ^ k = 3 * 2 ^ k - 1"
      unfolding at by (simp add: mult_2, simp)
    ultimately obtain s1 where s1: "split_this m (2 ^ k) s = Inr s1" "split_inv old m s1"
      "write_other_idx s1 = 2 ^ k - 1"
      "read_idx s1 = m \<or> write_this_idx s1 = 2 * 2 ^ k - 1 \<and> read_idx s1 = 3 * 2 ^ k - 1"
      using at(3) by metis
    have "\<exists>s'. split_other m (2 ^ k) s1 = Inr s' \<and> split_inv old m s' \<and> write_this_idx s' = write_this_idx s1
      \<and> (read_idx s' = m \<or> write_other_idx s' = write_other_idx s1 + 2 ^ k \<and> read_idx s' = read_idx s1 + 2 ^ k)"
      using s1 one by (intro split_other_inv[where k = k]) auto
    then obtain s2 where s2: "split_other m (2 ^ k) s1 = Inr s2" "split_inv old m s2"
      and w2: "write_this_idx s2 = write_this_idx s1"
        "read_idx s2 = m \<or> write_other_idx s2 = 2 ^ k - 1 + 2 ^ k \<and> read_idx s2 = read_idx s1 + 2 ^ k"
      using s1(3) by metis
    have "read_idx s1 \<le> read_idx s2" using split_other_read_idx[OF s2(1)] .
    then have at2: "read_idx s2 = m \<or> read_idx s2 = 2 * 2 ^ Suc k - 1 \<and> write_this_idx s2 = 2 ^ Suc k - 1
         \<and> write_other_idx s2 = 2 ^ Suc k - 1"
    proof -
      define t where "t = (2::nat) ^ k"
      have "1 \<le> t" by (simp add: t_def)
      then show ?thesis using s1(4) w2 split_invD(4)[OF s2(2)] \<open>read_idx s1 \<le> read_idx s2\<close>
        unfolding power_Suc t_def[symmetric] by arith
    qed
    have step: "ebind (split_this m (2 ^ k) s) (split_other m (2 ^ k)) = Inr s2"
      using s1(1) s2(1) by simp
    show ?thesis using "1.IH"[OF True step s2(2) at2] True step
      by (simp add: split_levels.simps[of m k s])
  next
    case False
    then have "read_idx s = m" using "1.prems"(1) by (simp add: split_inv_def)
    then show ?thesis using "1.prems"(1) by (simp add: split_levels.simps[of m k s])
  qed
qed

lemma split_inv_ordered:
  assumes "split_inv old m s" "\<forall>i<m. 0 < i \<longrightarrow> kv_priority (old (parent i)) \<le> kv_priority (old i)"
  shows "ordered (sp_this s)" "ordered (sp_other s)"
proof -
  note si = assms(1)[unfolded split_inv_def]
  have "prio (sp_this s) (parent i) \<le> prio (sp_this s) i" if "i < write_this_idx s" "0 < i" for i
  proof -
    have "left_src i < m" "0 < left_src i" using si that by (auto simp: left_src_def)
    then have "kv_priority (old (left_src (parent i))) \<le> kv_priority (old (left_src i))"
      using assms(2) that by (metis parent_left_src)
    then show ?thesis using si that by (simp add: parent_below)
  qed
  then show "ordered (sp_this s)" using si by (simp add: ordered_def)
  have "prio (sp_other s) (parent i) \<le> prio (sp_other s) i" if "i < write_other_idx s" "0 < i" for i
  proof -
    have "right_src i < m" "0 < right_src i" using si that by (auto simp: right_src_def)
    then have "kv_priority (old (right_src (parent i))) \<le> kv_priority (old (right_src i))"
      using assms(2) that by (metis parent_right_src)
    then show ?thesis using si that by (simp add: parent_below)
  qed
  then show "ordered (sp_other s)" using si by (simp add: ordered_def)
qed

lemma split_inv_contents:
  assumes "split_inv (hvalues h) (hn h) s" "read_idx s = hn h" "0 < hn h"
  shows "contents h = add_mset (prio h 0, kv_value (hvalues h 0)) (contents (sp_this s) + contents (sp_other s))"
proof -
  let ?g = "\<lambda>x. (kv_priority x, kv_value x)"
  note si = assms(1)[unfolded split_inv_def assms(2)]
  have "[0..<hn h] = 0 # [1..<hn h]" using assms(3) by (simp add: upt_conv_Cons)
  then have "contents h = add_mset (?g (hvalues h 0)) (image_mset ?g (mset (map (hvalues h) [1..<hn h])))"
    by (simp only: contents_alt) simp
  also have "mset (map (hvalues h) [1..<hn h]) =
      mset (map (hvalues (sp_this s)) [0..<write_this_idx s]) + mset (map (hvalues (sp_other s)) [0..<write_other_idx s])"
    using si by (elim conjE)
  finally show ?thesis using si by (simp only: contents_alt image_mset_union)
qed

text \<open>
  The correctness of \<open>split\<close>: both results are heaps, together they hold exactly the entries of
  the argument, neither is empty, and no write leaves the other heap's new buffer of \<open>m / 2\<close> cells.
\<close>

lemma heap_split_correct:
  assumes "heap_invar h" "2 \<le> hn h" "hn b \<le> hn h div 2"
  shows "\<exists>h' b'. heap_split h b = Inr (h', b') \<and> heap_invar h' \<and> heap_invar b'
    \<and> contents h = contents h' + contents b' \<and> contents h' \<noteq> {#} \<and> contents b' \<noteq> {#}"
proof -
  let ?m = "hn h"
  obtain b1 where b1: "resize_bigger (?m div 2) b = Inr b1" "capacity b1 = ?m div 2"
    using assms(3) by (simp add: resize_bigger_def)
  let ?s0 = "\<lparr>sp_this = h\<lparr>hn := 0\<rparr>, sp_other = b1\<lparr>hn := 0\<rparr>,
              write_this_idx = 0, write_other_idx = 0, read_idx = 1\<rparr>"
  have "split_inv (hvalues h) ?m ?s0"
    using assms b1 by (auto simp: split_inv_def heap_invar_def)
  then obtain s where s: "split_levels ?m 0 ?s0 = Inr s" "split_inv (hvalues h) ?m s" "read_idx s = ?m"
    using split_levels_inv[of "hvalues h" ?m ?s0 0] by auto
  note si = split_invD[OF s(2)]
  have c: "contents h = add_mset (prio h 0, kv_value (hvalues h 0)) (contents (sp_this s) + contents (sp_other s))"
    using s assms(2) by (intro split_inv_contents) auto
  have long: "in_long (sp_this s)" "in_long (sp_other s)" "prio h 0 \<le> LONG_MAX"
    using heap_invar_in_long[OF assms(1)] by (auto simp: in_long_contents c)
  have ord: "ordered (sp_this s)" "ordered (sp_other s)"
    using split_inv_ordered[OF s(2)] assms(1) by (auto simp: heap_invar_def ordered_def)
  have "heap_invar (sp_this s)" using si(1,3,4,5) assms(1,2) long ord by (intro heap_invarI) auto
  have wo: "2 * write_other_idx s < ?m"
  proof (cases "write_other_idx s")
    case (Suc j)
    have "right_src j < ?m" using si(8)[of j] Suc s(3) by simp
    then have "2 * j + 2 < ?m" using lev_size_bound[of j] unfolding right_src_def by linarith
    then show ?thesis using Suc by simp
  qed (use assms(2) in simp)
  then have "heap_invar (sp_other s)" using si(2,6) assms(2) long ord by (intro heap_invarI) auto
  from heap_insert_correct[OF this long(3), of "kv_value (hvalues h 0)"]
  obtain b' where b': "heap_insert (prio h 0) (kv_value (hvalues h 0)) (sp_other s) = Inr b'"
    "heap_invar b'" "contents b' = add_mset (prio h 0, kv_value (hvalues h 0)) (contents (sp_other s))"
    by (elim exE conjE)
  have "0 < write_this_idx s" using wo si(7) s(3) assms(2) by linarith
  then have "contents (sp_this s) \<noteq> {#}" using si(1) by (simp add: contents_empty_iff)
  then show ?thesis
    using b' b1 s(1) c \<open>heap_invar (sp_this s)\<close> assms(2) by (auto simp: heap_split_def Let_def)
qed

section \<open>Properties\<close>

text \<open>
  C5. \<open>insert\<close> never fails on a heap of the invariant (growing the buffer when it is full), keeps
  the invariant and adds exactly the new entry.
\<close>

theorem insert_adds_entry:
  assumes "heap_invar h" "p \<le> LONG_MAX"
  shows "\<exists>h'. heap_insert p v h = Inr h' \<and> heap_invar h' \<and> contents h' = add_mset (p, v) (contents h)"
  by (rule heap_insert_correct[OF assms])

theorem insert_adds_entry_witness:
  "\<exists>h'. heap_insert 5 (7 :: int) heap_new = Inr h' \<and> heap_invar h' \<and> contents h' = {#(5, 7)#}"
  using insert_adds_entry[of "heap_new :: int Heap" 5 7] by (simp add: heap_invar_new LONG_MAX_def)

text \<open>
  C4. \<open>delete_min\<close> on a non-empty heap returns the value of an entry of least priority and removes
  exactly that entry; on the empty heap its assertion fails.
\<close>

theorem delete_min_removes_least:
  assumes "heap_invar h"
  shows "case heap_delete_min h of
      Inl e \<Rightarrow> e = AssertFail \<and> contents h = {#}
    | Inr (v, h') \<Rightarrow> heap_invar h' \<and>
        (\<exists>p. contents h = add_mset (p, v) (contents h') \<and> (\<forall>(q, u) \<in># contents h. p \<le> q))"
proof (cases "contents h = {#}")
  case True
  then show ?thesis by (simp add: heap_delete_min_def contents_empty_iff)
next
  case False
  then show ?thesis using heap_delete_min_correct[OF assms] by auto
qed

theorem delete_min_removes_least_witness:
  "\<exists>h v h'. contents h = {#(5, 7), (3, 8 :: int)#} \<and> heap_delete_min h = Inr (v, h') \<and> v = 8 \<and> contents h' = {#(5, 7)#}"
proof -
  obtain h1 where h1: "heap_invar h1" "contents h1 = {#(5, 7 :: int)#}"
    using heap_insert_correct[OF heap_invar_new(1), of 5 7] by (auto simp: heap_invar_new LONG_MAX_def)
  obtain h where h: "heap_invar h" "contents h = {#(5, 7), (3, 8 :: int)#}"
    using heap_insert_correct[OF h1(1), of 3 8] h1(2) by (auto simp: LONG_MAX_def add_mset_commute)
  show ?thesis
    using delete_min_removes_least[OF h(1)] h(2)
    by (intro exI[of _ h]) (auto split: sum.splits simp: add_eq_conv_ex)
qed

text \<open>
  C3. \<open>split\<close> of a heap with at least two entries into an empty one leaves two non-empty heaps in
  heap order that share out the entries; every write of its level loops stays inside the buffers.
\<close>

theorem split_shares_entries:
  assumes "heap_invar h" "2 \<le> heap_size h" "heap_size b = 0"
  shows "\<exists>h' b'. heap_split h b = Inr (h', b') \<and> heap_invar h' \<and> heap_invar b'
    \<and> contents h = contents h' + contents b' \<and> contents h' \<noteq> {#} \<and> contents b' \<noteq> {#}"
  using heap_split_correct[of h b] assms by (simp add: heap_size_def)

theorem split_shares_entries_witness:
  "\<exists>h h' b'. contents h = {#(5, 7), (3, 8 :: int)#} \<and> heap_split h heap_new = Inr (h', b')
    \<and> contents h = contents h' + contents b' \<and> contents h' \<noteq> {#} \<and> contents b' \<noteq> {#}"
proof -
  obtain h1 where h1: "heap_invar h1" "contents h1 = {#(5, 7 :: int)#}"
    using heap_insert_correct[OF heap_invar_new(1), of 5 7] by (auto simp: heap_invar_new LONG_MAX_def)
  obtain h where h: "heap_invar h" "contents h = {#(5, 7), (3, 8 :: int)#}"
    using heap_insert_correct[OF h1(1), of 3 8] h1(2) by (auto simp: LONG_MAX_def add_mset_commute)
  have "heap_size h = 2" using size_contents[of h] h(2) by (simp add: heap_size_def)
  then show ?thesis
    using split_shares_entries[of h heap_new] h by (auto simp: heap_size_def heap_new_def)
qed

end
