(* ===== verification/Search_Iface.thy ===== *)
theory Search_Iface
  imports Bin_Heap
begin

text \<open>
  What the search algorithms share: the result interface of \<open>src/src/shared/search_utils.hpp\<close>, the
  template parameters \<open>GRAPH\<close> and \<open>HEAP\<close> of the search functions as records of operations, the
  contracts of these parameters as locales, paths in a graph, the tree of predecessor pointers
  that every search maintains, and the \<open>while (true)\<close> loop of a search.
\<close>

section \<open>Search results\<close>

text \<open>The virtual functions of \<open>SearchResult\<close> and \<open>SearchResultT\<close>.\<close>

record SearchResult =
  res_is_expanded :: "int \<Rightarrow> bool result"
  res_predecessor :: "int \<Rightarrow> int result"
  res_g :: "int \<Rightarrow> int result"
  res_pebble :: "int \<Rightarrow> int result"

text \<open>The bodies the base class gives them.\<close>

definition base_SearchResult :: SearchResult where
  "base_SearchResult = \<lparr>res_is_expanded = (\<lambda>vertex. Inr False),
     res_predecessor = (\<lambda>vertex. Inr (-1)), res_g = (\<lambda>vertex. Inr (-1)), res_pebble = (\<lambda>vertex. Inr (-1))\<rparr>"

text \<open>\<open>pebble ? pebbles[vertex] : -1\<close>, common to the result classes.\<close>

definition pebble_of :: "int list option \<Rightarrow> int \<Rightarrow> int result" where
  "pebble_of pebbles vertex = (case pebbles of None \<Rightarrow> Inr (-1) | Some ps \<Rightarrow> arr_get ps vertex)"

definition set_pebble :: "int list option \<Rightarrow> int \<Rightarrow> int \<Rightarrow> int list option result" where
  "set_pebble pebbles vertex x =
     (case pebbles of None \<Rightarrow> Inr None | Some ps \<Rightarrow> ebind (arr_set ps vertex x) (\<lambda>ps. Inr (Some ps)))"

definition init_pebbles :: "bool \<Rightarrow> int \<Rightarrow> int list option" where
  "init_pebbles pebble N = (if pebble then Some (replicate (nat N) (-1)) else None)"

definition pebbles_ok :: "int \<Rightarrow> int list option \<Rightarrow> bool" where
  "pebbles_ok N pebbles \<longleftrightarrow> (case pebbles of None \<Rightarrow> True | Some ps \<Rightarrow> int (length ps) = N)"

lemma init_pebbles_ok [simp]: "0 \<le> N \<Longrightarrow> pebbles_ok N (init_pebbles b N)"
  by (simp add: pebbles_ok_def init_pebbles_def)

lemma pebble_of_ok: "\<lbrakk>pebbles_ok N ps; 0 \<le> v; v < N\<rbrakk> \<Longrightarrow> \<exists>x. pebble_of ps v = Inr x"
  by (cases ps) (simp_all add: pebbles_ok_def pebble_of_def)

lemma set_pebble_ok:
  "\<lbrakk>pebbles_ok N ps; 0 \<le> v; v < N\<rbrakk> \<Longrightarrow> \<exists>ps'. set_pebble ps v x = Inr ps' \<and> pebbles_ok N ps'"
  by (cases ps) (auto simp: pebbles_ok_def set_pebble_def)

section \<open>The loop of a search\<close>

datatype 's loop = Continue 's | Break 's

text \<open>\<open>while (true)\<close>: the body says whether the loop goes on; \<open>None\<close> stands for a loop without end.\<close>

partial_function (option) run_loop :: "('s \<Rightarrow> 's loop result) \<Rightarrow> 's \<Rightarrow> 's result option" where
  "run_loop body s = (case body s of
       Inl e \<Rightarrow> Some (Inl e)
     | Inr l \<Rightarrow> (case l of Break t \<Rightarrow> Some (Inr t) | Continue t \<Rightarrow> run_loop body t))"

lemma run_loop_unfold:
  "body s = Inl e \<Longrightarrow> run_loop body s = Some (Inl e)"
  "body s = Inr (Break t) \<Longrightarrow> run_loop body s = Some (Inr t)"
  "body s = Inr (Continue t) \<Longrightarrow> run_loop body s = run_loop body t"
  by (subst run_loop.simps, simp)+

lemma run_loop_rule:
  assumes "I s" "wf R"
    and "\<And>s t. \<lbrakk>I s; body s = Inr (Continue t)\<rbrakk> \<Longrightarrow> I t \<and> (t, s) \<in> R"
  shows "\<exists>r. run_loop body s = Some r \<and>
    (\<exists>s'. I s' \<and> (case r of Inl e \<Rightarrow> body s' = Inl e | Inr t \<Rightarrow> body s' = Inr (Break t)))"
  using assms(2,1)
proof (induction s rule: wf_induct_rule)
  case (less s)
  show ?case
  proof (cases "body s")
    case (Inl e)
    then show ?thesis using less.prems by (subst run_loop.simps) auto
  next
    case (Inr l)
    show ?thesis
    proof (cases l)
      case (Break t)
      then show ?thesis using Inr less.prems by (subst run_loop.simps) auto
    next
      case (Continue t)
      then have "I t" "(t, s) \<in> R" using assms(3)[OF less.prems] Inr by auto
      then show ?thesis using less.IH Inr Continue by (subst run_loop.simps) auto
    qed
  qed
qed

text \<open>A loop whose reachable states never leave it does not return a value.\<close>

lemma run_loop_never:
  assumes r: "run_loop body s = Some r" and s: "I s"
    and step: "\<And>s t. \<lbrakk>I s; body s = Inr (Continue t)\<rbrakk> \<Longrightarrow> I t" and stop: "\<And>s t. I s \<Longrightarrow> body s \<noteq> Inr (Break t)"
  shows "\<exists>e. r = Inl e"
proof -
  have "body = body \<longrightarrow> I s \<longrightarrow> (\<exists>e. r = Inl e)"
  proof (rule run_loop.raw_induct[where P = "\<lambda>b s r. b = body \<longrightarrow> I s \<longrightarrow> (\<exists>e. r = Inl e)", OF _ r], intro impI)
    fix run b s r
    assume IH: "\<And>b s r. run b s = Some r \<Longrightarrow> b = body \<longrightarrow> I s \<longrightarrow> (\<exists>e. r = Inl e)"
      and eq: "(case b s of Inl e \<Rightarrow> Some (Inl e) | Inr (Continue t) \<Rightarrow> run b t | Inr (Break t) \<Rightarrow> Some (Inr t)) = Some r"
      and b: "b = body" and I: "I s"
    show "\<exists>e. r = Inl e" using eq IH[of b] step[OF I] stop[OF I] b by (auto split: sum.splits loop.splits)
  qed
  then show ?thesis using s by simp
qed

section \<open>Template parameters\<close>

record ('v, 'h) heap_ops =
  op_new :: 'h
  op_insert :: "int \<Rightarrow> 'v \<Rightarrow> 'h \<Rightarrow> 'h result"
  op_delete_min :: "'h \<Rightarrow> ('v \<times> 'h) result"
  op_size :: "'h \<Rightarrow> nat"
  op_split :: "'h \<Rightarrow> 'h \<Rightarrow> ('h \<times> 'h) result"

text \<open>
  A graph as the searches see it: the number of vertices and, for a vertex, the (neighbour,
  weight) pairs in the order in which \<open>for_each_neighbor_of\<close> visits them.
\<close>

record 'g graph_ops =
  number_vertices :: "'g \<Rightarrow> int"
  neighbor_list :: "'g \<Rightarrow> int \<Rightarrow> (int \<times> int) list result"

definition edge :: "'g graph_ops \<Rightarrow> 'g \<Rightarrow> int \<Rightarrow> int \<Rightarrow> int \<Rightarrow> bool" where
  "edge G gr u v w \<longleftrightarrow> 0 \<le> u \<and> u < number_vertices G gr \<and>
     (case neighbor_list G gr u of Inl e \<Rightarrow> False | Inr l \<Rightarrow> (v, w) \<in> set l)"

text \<open>\<open>path G gr u v c\<close>: a path from \<open>u\<close> to \<open>v\<close> of cost \<open>c\<close>.\<close>

inductive path :: "'g graph_ops \<Rightarrow> 'g \<Rightarrow> int \<Rightarrow> int \<Rightarrow> int \<Rightarrow> bool" for G gr where
  path_refl: "path G gr u u 0"
| path_step: "\<lbrakk>path G gr u x c; edge G gr x v w\<rbrakk> \<Longrightarrow> path G gr u v (c + w)"

lemma path_trans: "\<lbrakk>path G gr x v d; path G gr u x c\<rbrakk> \<Longrightarrow> path G gr u v (c + d)"
proof (induction rule: path.induct)
  case (path_step x y d v w)
  then show ?case using path.path_step[of G gr u y "c + d" v w] by (simp add: add.assoc)
qed simp

lemma path_edge: "edge G gr u v w \<Longrightarrow> path G gr u v w"
  using path.path_step[OF path.path_refl, of G gr u v w] by simp

text \<open>
  Along a path out of a set of vertices there is a first vertex outside it; its predecessor on
  the path is inside.
\<close>

lemma path_leaves:
  assumes "path G gr u v c" "u \<in> X" "v \<notin> X"
  shows "\<exists>x y w c1 c2. path G gr u x c1 \<and> x \<in> X \<and> edge G gr x y w \<and> y \<notin> X
    \<and> path G gr y v c2 \<and> c = c1 + w + c2"
  using assms
proof (induction rule: path.induct)
  case (path_step u x c v w)
  show ?case
  proof (cases "x \<in> X")
    case True
    then show ?thesis using path_step.hyps path_step.prems path.path_refl[of G gr v] by fastforce
  next
    case False
    then obtain a b w' c1 c2 where *: "path G gr u a c1" "a \<in> X" "edge G gr a b w'" "b \<notin> X"
      "path G gr b x c2" "c = c1 + w' + c2"
      using path_step by blast
    have "path G gr b v (c2 + w)" using path.path_step[OF *(5) path_step.hyps(2)] .
    moreover have "c + w = c1 + w' + (c2 + w)" using *(6) by simp
    ultimately show ?thesis using * by blast
  qed
qed simp

subsection \<open>The contract of a frontier\<close>

locale frontier_heap =
  fixes H :: "('v, 'h) heap_ops"
    and invar :: "'h \<Rightarrow> bool"
    and entries :: "'h \<Rightarrow> (int \<times> 'v) multiset"
  assumes new: "invar (op_new H)" "entries (op_new H) = {#}"
    and insert: "\<lbrakk>invar h; p \<le> LONG_MAX\<rbrakk> \<Longrightarrow>
      \<exists>h'. op_insert H p v h = Inr h' \<and> invar h' \<and> entries h' = add_mset (p, v) (entries h)"
    and delete_min: "\<lbrakk>invar h; entries h \<noteq> {#}\<rbrakk> \<Longrightarrow>
      \<exists>p v h'. op_delete_min H h = Inr (v, h') \<and> invar h'
        \<and> entries h = add_mset (p, v) (entries h') \<and> (\<forall>(q, u) \<in># entries h. p \<le> q)"
    and delete_min_empty: "\<lbrakk>invar h; entries h = {#}\<rbrakk> \<Longrightarrow> op_delete_min H h = Inl AssertFail"
    and size: "invar h \<Longrightarrow> op_size H h = size (entries h)"
    and split: "\<lbrakk>invar h; invar b; 2 \<le> size (entries h); entries b = {#}\<rbrakk> \<Longrightarrow>
      \<exists>h' b'. op_split H h b = Inr (h', b') \<and> invar h' \<and> invar b'
        \<and> entries h = entries h' + entries b' \<and> entries h' \<noteq> {#} \<and> entries b' \<noteq> {#}"
    and split_small: "\<lbrakk>invar h; size (entries h) < 2\<rbrakk> \<Longrightarrow> op_split H h b = Inr (h, b)"
begin

lemma split_keeps_work:
  assumes "invar h" "invar b" "entries b = {#}"
  shows "\<exists>h' b'. op_split H h b = Inr (h', b') \<and> invar h' \<and> invar b'
    \<and> entries h = entries h' + entries b'"
proof (cases "2 \<le> size (entries h)")
  case True
  then show ?thesis using split[OF assms(1,2) True assms(3)] by blast
next
  case False
  then show ?thesis using split_small[of h b] assms by simp
qed

end

subsection \<open>The contract of a graph\<close>

text \<open>
  For a well-formed graph the neighbours of a vertex are vertices and the weights lie between
  zero and a bound of the graph.
\<close>

locale search_graph =
  fixes G :: "'g graph_ops"
    and ok :: "'g \<Rightarrow> bool"
    and max_weight :: "'g \<Rightarrow> int"
  assumes nonneg_size: "ok gr \<Longrightarrow> 0 \<le> number_vertices G gr"
    and neighbors_ok: "\<lbrakk>ok gr; 0 \<le> u; u < number_vertices G gr\<rbrakk> \<Longrightarrow> \<exists>l. neighbor_list G gr u = Inr l"
    and edge_ok: "\<lbrakk>ok gr; edge G gr u v w\<rbrakk> \<Longrightarrow>
      0 \<le> v \<and> v < number_vertices G gr \<and> 0 \<le> w \<and> w \<le> max_weight gr"
begin

lemma path_ok:
  assumes "ok gr" "path G gr u v c"
  shows "0 \<le> c \<and> (0 \<le> u \<and> u < number_vertices G gr \<longrightarrow> 0 \<le> v \<and> v < number_vertices G gr)"
  using assms(2,1) by (induction rule: path.induct) (auto dest: edge_ok)

end

subsection \<open>The binary heap meets the contract\<close>

definition bin_heap_ops :: "('v, 'v Heap) heap_ops" where
  "bin_heap_ops = \<lparr>op_new = heap_new, op_insert = heap_insert, op_delete_min = heap_delete_min,
     op_size = heap_size, op_split = heap_split\<rparr>"

interpretation bh: frontier_heap bin_heap_ops heap_invar contents
proof (unfold_locales, goal_cases)
  case (3 h p v)
  then show ?case using heap_insert_correct by (auto simp: bin_heap_ops_def)
next
  case (4 h)
  then show ?case using heap_delete_min_correct by (auto simp: bin_heap_ops_def)
next
  case (7 h b)
  then show ?case using heap_split_correct[of h b] by (simp add: bin_heap_ops_def contents_empty_iff)
qed (simp_all add: bin_heap_ops_def heap_invar_new heap_delete_min_def heap_size_def heap_split_def
    contents_empty_iff)

end
