(* ===== verification/Pred_Tree.thy ===== *)
theory Pred_Tree
  imports Search_Iface
begin

text \<open>
  The structure every search of the repository maintains in its per-vertex records: a tentative
  distance \<open>D v\<close> (the maximum \<open>M\<close> of the number type where no path is known) and a predecessor
  \<open>P v\<close>. The predecessors of the labelled vertices form a tree rooted at the source, and the tree
  path to a vertex costs at most its distance. One relaxation, also one that read an outdated and
  therefore larger distance of its start vertex, keeps this.
\<close>

inductive chain :: "(int \<Rightarrow> int) \<Rightarrow> int \<Rightarrow> int \<Rightarrow> bool" for P src where
  chain_root: "chain P src src"
| chain_step: "\<lbrakk>v \<noteq> src; chain P src (P v)\<rbrakk> \<Longrightarrow> chain P src v"

lemma chain_upd: "\<lbrakk>v \<noteq> src; v \<noteq> x; chain (P(x := u)) src (P v)\<rbrakk> \<Longrightarrow> chain (P(x := u)) src v"
  by (rule chain_step) (auto simp del: fun_upd_apply simp: fun_upd_other)

definition pred_tree ::
  "(int \<Rightarrow> int \<Rightarrow> int \<Rightarrow> bool) \<Rightarrow> int \<Rightarrow> int \<Rightarrow> (int \<Rightarrow> int) \<Rightarrow> (int \<Rightarrow> int) \<Rightarrow> bool" where
  "pred_tree E src M D P \<longleftrightarrow> D src = 0 \<and>
     (\<forall>v. D v < M \<longrightarrow> 0 \<le> D v \<and> chain P src v \<and>
        (v \<noteq> src \<longrightarrow> (\<exists>w. E (P v) v w \<and> D (P v) + w \<le> D v)))"

lemma pred_treeD:
  assumes "pred_tree E src M D P"
  shows "D src = 0" "D v < M \<Longrightarrow> 0 \<le> D v" "D v < M \<Longrightarrow> chain P src v"
    "\<lbrakk>D v < M; v \<noteq> src\<rbrakk> \<Longrightarrow> \<exists>w. E (P v) v w \<and> D (P v) + w \<le> D v"
  using assms by (simp_all add: pred_tree_def)

inductive tree_path :: "(int \<Rightarrow> int \<Rightarrow> int \<Rightarrow> bool) \<Rightarrow> (int \<Rightarrow> int) \<Rightarrow> int \<Rightarrow> int \<Rightarrow> int \<Rightarrow> bool"
  for E P src where
  tree_root: "tree_path E P src src 0"
| tree_step: "\<lbrakk>v \<noteq> src; tree_path E P src (P v) c; E (P v) v w\<rbrakk> \<Longrightarrow> tree_path E P src v (c + w)"

lemma tree_path_path: "tree_path (edge G gr) P src v c \<Longrightarrow> path G gr src v c"
  by (induction rule: tree_path.induct) (auto intro: path.intros)

lemma tree_path_chain: "tree_path E P src v c \<Longrightarrow> chain P src v"
  by (induction rule: tree_path.induct) (auto intro: chain.intros)

lemma pred_tree_init:
  assumes "0 < M" "\<And>v. v \<noteq> src \<Longrightarrow> M \<le> D v" "D src = 0"
  shows "pred_tree E src M D P"
proof -
  have "v = src" if "D v < M" for v using assms(2)[of v] that by (cases "v = src") auto
  then show ?thesis using assms(3) by (auto simp: pred_tree_def intro: chain.intros)
qed

lemma pred_tree_cost:
  assumes "pred_tree E src M D P" "\<And>u v w. E u v w \<Longrightarrow> 0 \<le> w" "D v < M"
  shows "\<exists>c. c \<le> D v \<and> tree_path E P src v c"
proof -
  have "chain P src v" using assms(1,3) by (simp add: pred_tree_def)
  then show ?thesis using assms(3)
  proof (induction rule: chain.induct)
    case chain_root
    then show ?case using assms(1) tree_root[of E P src] by (force simp: pred_tree_def)
  next
    case (chain_step v)
    then obtain w where w: "E (P v) v w" "D (P v) + w \<le> D v"
      using assms(1) by (auto simp: pred_tree_def)
    moreover have "D (P v) < M" using w assms(2)[OF w(1)] chain_step.prems by linarith
    ultimately obtain c where "c \<le> D (P v)" "tree_path E P src (P v) c" using chain_step.IH by blast
    then show ?case using w chain_step.hyps(1) by (intro exI[of _ "c + w"]) (auto intro: tree_step)
  qed
qed

text \<open>Vertices below the old distance of the relaxed vertex keep their chain.\<close>

lemma chain_relax_below:
  assumes "pred_tree E src M D P" "\<And>u v w. E u v w \<Longrightarrow> 0 \<le> w" "chain P src y" "D y < D x" "D y < M"
  shows "chain (P(x := u)) src y"
  using assms(3,4,5)
proof (induction rule: chain.induct)
  case (chain_step y)
  obtain w where w: "E (P y) y w" "D (P y) + w \<le> D y"
    using assms(1) chain_step by (auto simp: pred_tree_def)
  have "D (P y) \<le> D y" using w assms(2)[OF w(1)] by linarith
  then have c: "chain (P(x := u)) src (P y)"
    using chain_step.prems by (intro chain_step.IH) linarith+
  have "y \<noteq> x" using chain_step.prems by auto
  then show ?case by (rule chain_upd[OF chain_step.hyps(1) _ c])
qed (rule chain_root)

lemma pred_tree_relax:
  assumes tree: "pred_tree E src M D P" and nonneg: "\<And>u v w. E u v w \<Longrightarrow> 0 \<le> w"
    and e: "E u x w" "D u + w \<le> d" "D u < M" "d < D x" "D x \<le> M"
  shows "pred_tree E src M (D(x := d)) (P(x := u))"
proof -
  note t = pred_treeD[OF tree]
  have du: "0 \<le> D u" "0 \<le> w" using t(2) e(3) nonneg[OF e(1)] by auto
  have ux: "D u < D x" using e du by linarith
  have "D src = 0" by (rule t(1))
  then have xs: "x \<noteq> src" using e(2,4) du by auto
  have cu: "chain (P(x := u)) src u"
    by (rule chain_relax_below[OF tree _ t(3)[OF e(3)] ux e(3)]) (rule nonneg)
  have cx: "chain (P(x := u)) src x"
    by (rule chain_step[OF xs]) (simp only: fun_upd_same cu)
  have "chain (P(x := u)) src v" if "chain P src v" for v
    using that
  proof (induction rule: chain.induct)
    case (chain_step v)
    then show ?case using cx chain_upd[of v src x P u] by (cases "v = x") blast+
  qed (rule chain_root)
  note keep = this
  have le: "(D(x := d)) v \<le> D v" for v using e(4) by simp
  have "0 \<le> (D(x := d)) v \<and> chain (P(x := u)) src v \<and>
      (v \<noteq> src \<longrightarrow> (\<exists>w. E ((P(x := u)) v) v w \<and> (D(x := d)) ((P(x := u)) v) + w \<le> (D(x := d)) v))"
    if "(D(x := d)) v < M" for v
  proof (cases "v = x")
    case True
    have "u \<noteq> x" using ux by auto
    then have "E ((P(x := u)) x) x w \<and> (D(x := d)) ((P(x := u)) x) + w \<le> (D(x := d)) x"
      using e(1,2) by simp
    moreover have "0 \<le> (D(x := d)) x" using du e(2) by simp
    ultimately show ?thesis using cx True by blast
  next
    case False
    then have v: "D v < M" "0 \<le> D v" "chain P src v" using that t(2,3)[of v] by auto
    have "\<exists>w. E (P v) v w \<and> (D(x := d)) (P v) + w \<le> D v" if ns: "v \<noteq> src"
    proof -
      obtain w' where w': "E (P v) v w'" "D (P v) + w' \<le> D v" using t(4)[OF v(1) ns] by blast
      have "(D(x := d)) (P v) + w' \<le> D v" using w'(2) le[of "P v"] by linarith
      then show ?thesis using w'(1) by blast
    qed
    then show ?thesis using False v keep by simp
  qed
  then show ?thesis using xs \<open>D src = 0\<close> by (simp add: pred_tree_def)
qed

text \<open>
  What a returned result says about the destination: its distances and predecessors form such a
  tree, and the destination is in it.
\<close>

definition result_tree :: "'g graph_ops \<Rightarrow> int \<Rightarrow> 'g \<Rightarrow> int \<Rightarrow> int \<Rightarrow> SearchResult \<Rightarrow> (int \<Rightarrow> int) \<Rightarrow> (int \<Rightarrow> int) \<Rightarrow> bool" where
  "result_tree G M gr src dst res D P \<longleftrightarrow>
     (\<forall>v. 0 \<le> v \<and> v < number_vertices G gr \<longrightarrow> res_g res v = Inr (D v) \<and> res_predecessor res v = Inr (P v)) \<and>
     pred_tree (edge G gr) src M D P \<and> D dst < M"

text \<open>Over a well-formed graph such a result exhibits a path to the destination.\<close>

context search_graph
begin

lemma result_found:
  assumes "result_tree G M gr src dst res D P" "ok gr"
  shows "\<exists>c. tree_path (edge G gr) P src dst c \<and> path G gr src dst c \<and> 0 \<le> c \<and> c \<le> D dst"
proof -
  have t: "pred_tree (edge G gr) src M D P" "D dst < M" using assms(1) by (auto simp: result_tree_def)
  have "\<exists>c. c \<le> D dst \<and> tree_path (edge G gr) P src dst c"
    by (rule pred_tree_cost[OF t(1) _ t(2)]) (use edge_ok[OF assms(2)] in blast)
  then obtain c where c: "c \<le> D dst" "tree_path (edge G gr) P src dst c" by blast
  have p: "path G gr src dst c" by (rule tree_path_path[OF c(2)])
  then show ?thesis using c path_ok[OF assms(2) p] by blast
qed

end

end
