(* ===== verification/AStar.thy ===== *)
theory AStar
  imports Pred_Tree
begin

text \<open>
  The sequential weighted A* of \<open>src/src/astar.hpp\<close>: \<open>astar\<close> on \<open>int\<close> costs and its template
  \<open>astarT\<close> on any signed number type. \<open>M\<close> is \<open>std::numeric_limits<Number>::max()\<close>, \<open>H\<close> and \<open>G\<close>
  are the operations of the template parameters \<open>HEAP\<close> and \<open>GRAPH\<close>.
\<close>

section \<open>The algorithm\<close>

record astar_state =
  as_is_expanded :: bool
  as_dist :: int
  as_pred :: int

definition AStarResult :: "astar_state list \<Rightarrow> int list option \<Rightarrow> SearchResult" where
  "AStarResult states pebbles =
     \<lparr>res_is_expanded = (\<lambda>vertex. ebind (arr_get states vertex) (\<lambda>s. Inr (as_is_expanded s))),
      res_predecessor = (\<lambda>vertex. ebind (arr_get states vertex) (\<lambda>s. Inr (as_pred s))),
      res_g = (\<lambda>vertex. ebind (arr_get states vertex) (\<lambda>s. Inr (as_dist s))),
      res_pebble = pebble_of pebbles\<rparr>"

definition astar_init :: "int \<Rightarrow> int \<Rightarrow> astar_state list" where
  "astar_init M N = replicate (nat N) \<lparr>as_is_expanded = False, as_dist = M, as_pred = -1\<rparr>"

text \<open>The lambda passed to \<open>for_each_neighbor_of\<close>.\<close>

definition astar_relax ::
  "(int, 'h) heap_ops \<Rightarrow> int \<Rightarrow> (int \<Rightarrow> int) \<Rightarrow> int \<Rightarrow> int \<times> int \<Rightarrow>
   astar_state list \<times> 'h \<Rightarrow> (astar_state list \<times> 'h) result" where
  "astar_relax H M heuristic v nw sf =
     (case nw of (nbr, weight) \<Rightarrow> case sf of (states, frontier) \<Rightarrow>
      ebind (arr_get states v) (\<lambda>sv.
      ebind (num_add M (as_dist sv) weight) (\<lambda>nbrdist.
      ebind (arr_get states nbr) (\<lambda>sn.
        if nbrdist < as_dist sn
        then ebind (num_add M (heuristic nbr) nbrdist) (\<lambda>prio.
             ebind (op_insert H prio nbr frontier) (\<lambda>frontier.
             ebind (arr_set states nbr (sn\<lparr>as_dist := nbrdist, as_pred := v\<rparr>)) (\<lambda>states.
               Inr (states, frontier))))
        else Inr (states, frontier)))))"

type_synonym 'h astar_loop_state = "astar_state list \<times> 'h \<times> int list option"

definition astar_iter ::
  "(int, 'h) heap_ops \<Rightarrow> 'g graph_ops \<Rightarrow> int \<Rightarrow> (int \<Rightarrow> int) \<Rightarrow> 'g \<Rightarrow> int \<Rightarrow>
   'h astar_loop_state \<Rightarrow> 'h astar_loop_state loop result" where
  "astar_iter H G M heuristic graph destination s =
     (case s of (states, frontier, pebbles) \<Rightarrow>
      ebind (op_delete_min H frontier) (\<lambda>(v, frontier).
        if v = destination then Inr (Break (states, frontier, pebbles))
        else ebind (arr_get states v) (\<lambda>sv.
          if \<not> as_is_expanded sv
          then ebind (arr_set states v (sv\<lparr>as_is_expanded := True\<rparr>)) (\<lambda>states.
               ebind (set_pebble pebbles v 0) (\<lambda>pebbles.
               ebind (neighbor_list G graph v) (\<lambda>nbrs.
               ebind (efold (astar_relax H M heuristic v) nbrs (states, frontier)) (\<lambda>(states, frontier).
                 Inr (Continue (states, frontier, pebbles))))))
          else Inr (Continue (states, frontier, pebbles)))))"

text \<open>The iteration of \<open>astarT\<close>, with its check for a negative distance.\<close>

definition astarT_iter ::
  "(int, 'h) heap_ops \<Rightarrow> 'g graph_ops \<Rightarrow> int \<Rightarrow> (int \<Rightarrow> int) \<Rightarrow> 'g \<Rightarrow> int \<Rightarrow>
   'h astar_loop_state \<Rightarrow> 'h astar_loop_state loop result" where
  "astarT_iter H G M heuristic graph destination s =
     (case s of (states, frontier, pebbles) \<Rightarrow>
      ebind (op_delete_min H frontier) (\<lambda>(v, frontier).
        if v = destination then Inr (Break (states, frontier, pebbles))
        else ebind (arr_get states v) (\<lambda>sv.
          if \<not> as_is_expanded sv
          then ebind (arr_set states v (sv\<lparr>as_is_expanded := True\<rparr>)) (\<lambda>states.
               if as_dist sv < 0 then Inl ExitFailure
               else
               ebind (set_pebble pebbles v 0) (\<lambda>pebbles.
               ebind (neighbor_list G graph v) (\<lambda>nbrs.
               ebind (efold (astar_relax H M heuristic v) nbrs (states, frontier)) (\<lambda>(states, frontier).
                 Inr (Continue (states, frontier, pebbles))))))
          else Inr (Continue (states, frontier, pebbles)))))"

definition astar_start ::
  "(int, 'h) heap_ops \<Rightarrow> 'g graph_ops \<Rightarrow> int \<Rightarrow> (int \<Rightarrow> int) \<Rightarrow> 'g \<Rightarrow> int \<Rightarrow> bool \<Rightarrow>
   'h astar_loop_state result" where
  "astar_start H G M heuristic graph source pebble =
     (let N = number_vertices G graph; states = astar_init M N in
      ebind (arr_get states source) (\<lambda>s.
      ebind (arr_set states source (s\<lparr>as_dist := 0\<rparr>)) (\<lambda>states.
      ebind (op_insert H (heuristic source) source (op_new H)) (\<lambda>frontier.
        Inr (states, frontier, init_pebbles pebble N)))))"

definition astar ::
  "(int, 'h) heap_ops \<Rightarrow> 'g graph_ops \<Rightarrow> (int \<Rightarrow> int) \<Rightarrow> 'g \<Rightarrow> int \<Rightarrow> int \<Rightarrow> bool \<Rightarrow>
   SearchResult result option" where
  "astar H G heuristic graph source destination pebble =
     (case astar_start H G INT_MAX heuristic graph source pebble of
        Inl e \<Rightarrow> Some (Inl e)
      | Inr s \<Rightarrow> map_option (\<lambda>r. ebind r (\<lambda>(states, frontier, pebbles). Inr (AStarResult states pebbles)))
                  (run_loop (astar_iter H G INT_MAX heuristic graph destination) s))"

definition astarT ::
  "(int, 'h) heap_ops \<Rightarrow> 'g graph_ops \<Rightarrow> int \<Rightarrow> (int \<Rightarrow> int) \<Rightarrow> 'g \<Rightarrow> int \<Rightarrow> int \<Rightarrow> bool \<Rightarrow>
   SearchResult result option" where
  "astarT H G M heuristic graph source destination pebble =
     (case astar_start H G M heuristic graph source pebble of
        Inl e \<Rightarrow> Some (Inl e)
      | Inr s \<Rightarrow> map_option (\<lambda>r. ebind r (\<lambda>(states, frontier, pebbles). Inr (AStarResult states pebbles)))
                  (run_loop (astarT_iter H G M heuristic graph destination) s))"

section \<open>The invariant of the search\<close>

definition dist_of :: "int \<Rightarrow> astar_state list \<Rightarrow> int \<Rightarrow> int" where
  "dist_of M st v = (if 0 \<le> v \<and> v < int (length st) then as_dist (st ! nat v) else M)"

definition pred_of :: "astar_state list \<Rightarrow> int \<Rightarrow> int" where
  "pred_of st v = (if 0 \<le> v \<and> v < int (length st) then as_pred (st ! nat v) else -1)"

definition expanded :: "astar_state list \<Rightarrow> int \<Rightarrow> bool" where
  "expanded st v \<longleftrightarrow> 0 \<le> v \<and> v < int (length st) \<and> as_is_expanded (st ! nat v)"

definition num_expanded :: "astar_state list \<Rightarrow> nat" where
  "num_expanded st = length (filter as_is_expanded st)"

text \<open>
  What a search needs: the start and goal are vertices, the heuristic lies between zero and a
  bound, and no cost along a path without repeated vertices, plus a heuristic value, reaches the
  maximum of the number type.
\<close>

definition search_pre ::
  "'g graph_ops \<Rightarrow> ('g \<Rightarrow> int) \<Rightarrow> int \<Rightarrow> (int \<Rightarrow> int) \<Rightarrow> int \<Rightarrow> 'g \<Rightarrow> int \<Rightarrow> bool" where
  "search_pre G W M h Hmax gr src \<longleftrightarrow> 0 \<le> src \<and> src < number_vertices G gr \<and>
     (\<forall>v. 0 \<le> v \<and> v < number_vertices G gr \<longrightarrow> 0 \<le> h v \<and> h v \<le> Hmax) \<and>
     0 \<le> W gr \<and> number_vertices G gr * W gr + Hmax < M"

text \<open>\<open>eps\<close>-consistency of the (possibly inflated) heuristic along every edge.\<close>

definition eps_consistent :: "'g graph_ops \<Rightarrow> real \<Rightarrow> (int \<Rightarrow> int) \<Rightarrow> 'g \<Rightarrow> bool" where
  "eps_consistent G eps h gr \<longleftrightarrow>
     (\<forall>u v w. edge G gr u v w \<longrightarrow> real_of_int (h u) \<le> eps * real_of_int w + real_of_int (h v))"

text \<open>A distance within the factor \<open>eps\<close> of every path, provided the heuristic is \<open>eps\<close>-consistent.\<close>

definition within_eps :: "'g graph_ops \<Rightarrow> real \<Rightarrow> (int \<Rightarrow> int) \<Rightarrow> 'g \<Rightarrow> int \<Rightarrow> int \<Rightarrow> int \<Rightarrow> bool" where
  "within_eps G eps h gr src dst d \<longleftrightarrow> (eps_consistent G eps h gr \<and> 1 \<le> eps \<longrightarrow>
     (\<forall>c. path G gr src dst c \<longrightarrow> real_of_int d \<le> eps * real_of_int c))"

lemma eps_consistent_path:
  assumes "eps_consistent G eps h gr" "path G gr u v c"
  shows "real_of_int (h u) \<le> eps * real_of_int c + real_of_int (h v)"
  using assms(2,1)
proof (induction rule: path.induct)
  case (path_step u x c v w)
  have "real_of_int (h x) \<le> eps * real_of_int w + real_of_int (h v)"
    using path_step.hyps(2) path_step.prems by (simp add: eps_consistent_def)
  then show ?case using path_step.IH[OF path_step.prems] by (simp add: algebra_simps)
qed simp

definition astar_inv ::
  "'g graph_ops \<Rightarrow> ('g \<Rightarrow> int) \<Rightarrow> int \<Rightarrow> (int \<Rightarrow> int) \<Rightarrow> 'g \<Rightarrow> int \<Rightarrow>
   astar_state list \<Rightarrow> (int \<times> int) multiset \<Rightarrow> bool" where
  "astar_inv G W M h gr src st C \<longleftrightarrow>
     int (length st) = number_vertices G gr \<and>
     pred_tree (edge G gr) src M (dist_of M st) (pred_of st) \<and>
     (\<forall>v. dist_of M st v \<le> M) \<and>
     (\<forall>v. dist_of M st v < M \<and> \<not> expanded st v \<longrightarrow> (h v + dist_of M st v, v) \<in># C) \<and>
     (\<forall>(p, v) \<in># C. dist_of M st v < M \<and> h v + dist_of M st v \<le> p) \<and>
     (\<forall>v. expanded st v \<longrightarrow> dist_of M st v < M) \<and>
     (\<forall>v. dist_of M st v < M \<longrightarrow> dist_of M st v \<le> W gr * int (num_expanded st))"

text \<open>
  The edges out of expanded vertices have been relaxed, and an expanded vertex was expanded at a
  distance within the factor \<open>eps\<close> of every path to it.
\<close>

definition closed_inv :: "'g graph_ops \<Rightarrow> real \<Rightarrow> int \<Rightarrow> 'g \<Rightarrow> int \<Rightarrow> (int \<Rightarrow> bool) \<Rightarrow> (int \<Rightarrow> int) \<Rightarrow> bool" where
  "closed_inv G eps M gr src X D \<longleftrightarrow>
     (\<forall>u x w c. X u \<and> edge G gr u x w \<and> path G gr src u c \<longrightarrow>
        D x < M \<and> real_of_int (D x) \<le> eps * real_of_int c + real_of_int w)"

text \<open>
  The key step of the bound: a vertex of least priority among the open entries has a distance
  within \<open>eps\<close> of every path to it.
\<close>

lemma select_bound:
  assumes cons: "eps_consistent G eps h gr" and eps: "1 \<le> eps"
    and nonneg: "\<And>u v w. edge G gr u v w \<Longrightarrow> 0 \<le> w"
    and closed: "closed_inv G eps M gr src X D" and src: "D src = 0" "0 < M"
    and open_entry: "\<And>v. D v < M \<Longrightarrow> \<not> X v \<Longrightarrow> (h v + D v, v) \<in># C"
    and least: "\<And>q u. (q, u) \<in># C \<Longrightarrow> h v + D v \<le> q"
    and v: "\<not> X v" and p: "path G gr src v c"
  shows "real_of_int (D v) \<le> eps * real_of_int c"
proof (cases "X src")
  case True
  obtain x y w c1 c2 where *: "path G gr src x c1" "X x" "edge G gr x y w" "\<not> X y"
    "path G gr y v c2" "c = c1 + w + c2"
    using path_leaves[OF p, of "Collect X"] True v by auto
  have y: "D y < M" "real_of_int (D y) \<le> eps * real_of_int c1 + real_of_int w"
    using closed * unfolding closed_inv_def by blast+
  have "h v + D v \<le> h y + D y" using least open_entry[OF y(1) *(4)] by blast
  then have "real_of_int (h v) + real_of_int (D v) \<le> real_of_int (h y) + real_of_int (D y)" by linarith
  moreover have "real_of_int (h y) \<le> eps * real_of_int c2 + real_of_int (h v)"
    by (rule eps_consistent_path[OF cons *(5)])
  moreover have "real_of_int w \<le> eps * real_of_int w"
    using nonneg[OF *(3)] eps by (simp add: mult_le_cancel_right1)
  ultimately show ?thesis using y(2) by (simp add: *(6) algebra_simps)
next
  case False
  have "h v + D v \<le> h src + D src" using least open_entry[OF _ False] src by force
  then have "real_of_int (h v) + real_of_int (D v) \<le> real_of_int (h src)" using src(1) by linarith
  then show ?thesis using eps_consistent_path[OF cons p] by linarith
qed

section \<open>Array updates\<close>

lemma dist_of_update [simp]:
  "\<lbrakk>0 \<le> x; x < int (length st)\<rbrakk> \<Longrightarrow> dist_of M (st[nat x := s]) = (dist_of M st)(x := as_dist s)"
  by (rule ext) (auto simp: dist_of_def nth_list_update nat_eq_iff)

lemma pred_of_update [simp]:
  "\<lbrakk>0 \<le> x; x < int (length st)\<rbrakk> \<Longrightarrow> pred_of (st[nat x := s]) = (pred_of st)(x := as_pred s)"
  by (rule ext) (auto simp: pred_of_def nth_list_update nat_eq_iff)

lemma expanded_update [simp]:
  "\<lbrakk>0 \<le> x; x < int (length st)\<rbrakk> \<Longrightarrow> expanded (st[nat x := s]) = (expanded st)(x := as_is_expanded s)"
  by (rule ext) (auto simp: expanded_def nth_list_update nat_eq_iff)

lemma num_expanded_update:
  assumes "0 \<le> x" "x < int (length st)"
  shows "num_expanded (st[nat x := s]) + (if expanded st x then 1 else 0) =
    num_expanded st + (if as_is_expanded s then 1 else 0)"
  using length_filter_update[of "nat x" st as_is_expanded s] assms by (simp add: num_expanded_def expanded_def)

lemma num_expanded_le: "num_expanded st \<le> length st"
  by (simp add: num_expanded_def)

lemma expanded_range: "expanded st v \<Longrightarrow> 0 \<le> v \<and> v < int (length st)"
  by (simp add: expanded_def)

lemma labelled_range: "dist_of M st v < M \<Longrightarrow> 0 \<le> v \<and> v < int (length st)"
  by (simp add: dist_of_def split: if_splits)

lemma astar_invD:
  assumes "astar_inv G W M h gr src st C"
  shows "int (length st) = number_vertices G gr"
    "pred_tree (edge G gr) src M (dist_of M st) (pred_of st)"
    "dist_of M st v \<le> M"
    "\<lbrakk>dist_of M st v < M; \<not> expanded st v\<rbrakk> \<Longrightarrow> (h v + dist_of M st v, v) \<in># C"
    "(p, v) \<in># C \<Longrightarrow> dist_of M st v < M" "(p, v) \<in># C \<Longrightarrow> h v + dist_of M st v \<le> p"
    "expanded st v \<Longrightarrow> dist_of M st v < M"
    "dist_of M st v < M \<Longrightarrow> dist_of M st v \<le> W gr * int (num_expanded st)"
  using assms unfolding astar_inv_def by auto

lemma astar_invI:
  assumes "int (length st) = number_vertices G gr"
    "pred_tree (edge G gr) src M (dist_of M st) (pred_of st)"
    "\<And>v. dist_of M st v \<le> M"
    "\<And>v. \<lbrakk>dist_of M st v < M; \<not> expanded st v\<rbrakk> \<Longrightarrow> (h v + dist_of M st v, v) \<in># C"
    "\<And>p v. (p, v) \<in># C \<Longrightarrow> dist_of M st v < M \<and> h v + dist_of M st v \<le> p"
    "\<And>v. expanded st v \<Longrightarrow> dist_of M st v < M"
    "\<And>v. dist_of M st v < M \<Longrightarrow> dist_of M st v \<le> W gr * int (num_expanded st)"
  shows "astar_inv G W M h gr src st C"
  unfolding astar_inv_def using assms by blast

section \<open>Correctness over the contracts\<close>

locale astar_ctx = frontier_heap H invar entries + search_graph G ok max_weight
  for H :: "(int, 'h) heap_ops" and invar entries and G :: "'g graph_ops" and ok max_weight +
  fixes M :: int
  assumes M_long: "M \<le> LONG_MAX"
begin

lemma pre_bounds:
  assumes "search_pre G max_weight M h Hmax gr src" "int n \<le> number_vertices G gr"
    "0 \<le> x" "x < number_vertices G gr" "d \<le> max_weight gr * int n"
  shows "d < M" "h x + d \<le> M" "0 \<le> h x" "0 < M"
proof -
  note pre = assms(1)[unfolded search_pre_def]
  have "max_weight gr * int n \<le> max_weight gr * number_vertices G gr"
    using assms(2) pre by (intro mult_left_mono) auto
  then have "max_weight gr * int n \<le> number_vertices G gr * max_weight gr" by (simp add: mult.commute)
  moreover have hx: "0 \<le> h x" "h x \<le> Hmax" using pre assms(3,4) by auto
  moreover have "0 \<le> number_vertices G gr * max_weight gr" using pre assms(3,4) by simp
  ultimately show "d < M" "h x + d \<le> M" "0 \<le> h x" "0 < M" using pre assms(5) by linarith+
qed

lemma relax_step:
  assumes gok: "ok gr" and pre: "search_pre G max_weight M h Hmax gr src"
    and inv: "astar_inv G max_weight M h gr src st (entries fr)" and fr: "invar fr"
    and v: "expanded st v" "edge G gr v x w"
      "dist_of M st v + max_weight gr \<le> max_weight gr * int (num_expanded st)"
  shows "\<exists>st' fr'. astar_relax H M h v (x, w) (st, fr) = Inr (st', fr') \<and> invar fr' \<and>
    astar_inv G max_weight M h gr src st' (entries fr') \<and>
    dist_of M st' v = dist_of M st v \<and> expanded st' = expanded st \<and> num_expanded st' = num_expanded st \<and>
    (\<forall>y. dist_of M st' y \<le> dist_of M st y) \<and> dist_of M st' x \<le> dist_of M st v + w"
proof -
  note iv = astar_invD[OF inv]
  let ?d = "dist_of M st v + w"
  have vr: "0 \<le> v" "v < int (length st)" using expanded_range[OF v(1)] by auto
  have xr: "0 \<le> x" "x < int (length st)" "0 \<le> w" "w \<le> max_weight gr"
    using edge_ok[OF gok v(2)] iv(1) by auto
  have d: "?d \<le> max_weight gr * int (num_expanded st)" using v(3) xr by linarith
  have "int (num_expanded st) \<le> number_vertices G gr" using num_expanded_le[of st] iv(1) by linarith
  note b = pre_bounds[OF pre this _ _ d, of x, folded iv(1), OF xr(1,2)]
  have vM: "dist_of M st v < M" by (rule iv(7)[OF v(1)])
  then have v0: "0 \<le> dist_of M st v" using pred_treeD(2)[OF iv(2)] by blast
  have acc: "as_dist (st ! nat v) = dist_of M st v" "as_dist (st ! nat x) = dist_of M st x"
    using vr xr by (simp_all add: dist_of_def)
  show ?thesis
  proof (cases "?d < dist_of M st x")
    case False
    then have "astar_relax H M h v (x, w) (st, fr) = Inr (st, fr)"
      using vr xr v0 b by (simp add: astar_relax_def acc)
    then show ?thesis using inv fr False by auto
  next
    case True
    obtain fr' where fr': "op_insert H (h x + ?d) x fr = Inr fr'" "invar fr'"
      "entries fr' = add_mset (h x + ?d, x) (entries fr)"
      using insert[OF fr, of "h x + ?d" x] b(2) M_long by auto
    let ?st = "st[nat x := (st ! nat x)\<lparr>as_dist := ?d, as_pred := v\<rparr>]"
    have run: "astar_relax H M h v (x, w) (st, fr) = Inr (?st, fr')"
      using vr xr v0 b True fr'(1) by (simp add: astar_relax_def acc)
    have ex: "expanded ?st = expanded st"
      using xr by (auto simp: expanded_def fun_eq_iff)
    have num: "num_expanded ?st = num_expanded st"
      using num_expanded_update[OF xr(1,2), of "(st ! nat x)\<lparr>as_dist := ?d, as_pred := v\<rparr>"] xr
      by (simp add: expanded_def split: if_splits)
    have D: "dist_of M ?st = (dist_of M st)(x := ?d)" "pred_of ?st = (pred_of st)(x := v)"
      using xr by simp_all
    have vx: "v \<noteq> x" using True xr(3) by auto
    have "astar_inv G max_weight M h gr src ?st (entries fr')"
    proof (rule astar_invI, goal_cases)
      case 2
      show ?case
        unfolding D by (rule pred_tree_relax[OF iv(2)]) (use edge_ok[OF gok] v(2) vM True iv(3) in auto)
    next
      case (4 y)
      then show ?case using iv(4)[of y] by (auto simp: D ex fr'(3) split: if_splits)
    next
      case (5 q y)
      then show ?case using iv(5,6)[of q y] b(1) True by (auto simp: D fr'(3))
    qed (use iv(1,3,7,8) d b(1) in \<open>auto simp: ex num D split: if_splits intro: order_trans less_imp_le\<close>)
    then show ?thesis using run fr' ex num vx True by (auto simp: D)
  qed
qed

lemma relax_all:
  assumes gok: "ok gr" and pre: "search_pre G max_weight M h Hmax gr src"
    and inv: "astar_inv G max_weight M h gr src st (entries fr)" and fr: "invar fr"
    and v: "expanded st v" "neighbor_list G gr v = Inr l"
      "dist_of M st v + max_weight gr \<le> max_weight gr * int (num_expanded st)"
  shows "\<exists>st' fr'. efold (astar_relax H M h v) l (st, fr) = Inr (st', fr') \<and> invar fr' \<and>
    astar_inv G max_weight M h gr src st' (entries fr') \<and>
    expanded st' = expanded st \<and> num_expanded st' = num_expanded st \<and>
    (\<forall>y. dist_of M st' y \<le> dist_of M st y) \<and> (\<forall>x w. (x, w) \<in> set l \<longrightarrow> dist_of M st' x \<le> dist_of M st v + w)"
proof -
  define I where "I = (\<lambda>bef (st', fr'). invar fr' \<and> astar_inv G max_weight M h gr src st' (entries fr') \<and>
    dist_of M st' v = dist_of M st v \<and> expanded st' = expanded st \<and> num_expanded st' = num_expanded st \<and>
    (\<forall>y. dist_of M st' y \<le> dist_of M st y) \<and> (\<forall>x w. (x, w) \<in> set bef \<longrightarrow> dist_of M st' x \<le> dist_of M st v + w))"
  have "\<exists>s'. efold (astar_relax H M h v) l (st, fr) = Inr s' \<and> I l s'"
  proof (rule efold_invariant)
    show "I [] (st, fr)" using inv fr by (simp add: I_def)
    fix bef xw s assume l: "\<exists>post. l = bef @ xw # post" and Is: "I bef s"
    obtain x w st1 fr1 where xw: "xw = (x, w)" "s = (st1, fr1)" by (metis surj_pair)
    have e: "edge G gr v x w"
      using l v expanded_range[OF v(1)] astar_invD(1)[OF inv] by (auto simp: edge_def xw)
    have "\<exists>st' fr'. astar_relax H M h v (x, w) (st1, fr1) = Inr (st', fr') \<and> invar fr' \<and>
      astar_inv G max_weight M h gr src st' (entries fr') \<and>
      dist_of M st' v = dist_of M st1 v \<and> expanded st' = expanded st1 \<and> num_expanded st' = num_expanded st1 \<and>
      (\<forall>y. dist_of M st' y \<le> dist_of M st1 y) \<and> dist_of M st' x \<le> dist_of M st1 v + w"
      using Is v(1,3) e unfolding I_def xw by (intro relax_step[OF gok pre]) auto
    then show "\<exists>s'. astar_relax H M h v xw s = Inr s' \<and> I (bef @ [xw]) s'"
      using Is unfolding I_def xw by (fastforce intro: order_trans)
  qed
  then show ?thesis unfolding I_def by auto
qed

definition loop_inv where
  "loop_inv h eps gr src dst s \<longleftrightarrow> (case s of (st, fr, pb) \<Rightarrow>
     invar fr \<and> astar_inv G max_weight M h gr src st (entries fr) \<and>
     pebbles_ok (number_vertices G gr) pb \<and> \<not> expanded st dst \<and>
     (\<forall>u x w. expanded st u \<and> edge G gr u x w \<longrightarrow> dist_of M st x < M) \<and>
     (eps_consistent G eps h gr \<and> 1 \<le> eps \<longrightarrow> closed_inv G eps M gr src (expanded st) (dist_of M st)))"

definition found where
  "found h eps gr src dst s \<longleftrightarrow> (case s of (st, fr, pb) \<Rightarrow>
     int (length st) = number_vertices G gr \<and>
     pred_tree (edge G gr) src M (dist_of M st) (pred_of st) \<and> dist_of M st dst < M \<and>
     pebbles_ok (number_vertices G gr) pb \<and>
     within_eps G eps h gr src dst (dist_of M st dst))"

text \<open>The entry taken from the frontier, when its vertex is still open, is its current one.\<close>

lemma pop_bound:
  assumes gok: "ok gr" and inv: "astar_inv G max_weight M h gr src st C"
    and M0: "0 < M" and C: "(p, v) \<in># C" "\<And>q u. (q, u) \<in># C \<Longrightarrow> p \<le> q" and v: "\<not> expanded st v"
    and cl: "eps_consistent G eps h gr" "1 \<le> eps" "closed_inv G eps M gr src (expanded st) (dist_of M st)"
    and pa: "path G gr src v c"
  shows "real_of_int (dist_of M st v) \<le> eps * real_of_int c"
proof (rule select_bound[OF cl(1,2) _ cl(3) _ M0 _ _ v pa])
  note iv = astar_invD[OF inv]
  show "dist_of M st src = 0" by (rule pred_treeD(1)[OF iv(2)])
  show "(h y + dist_of M st y, y) \<in># C" if "dist_of M st y < M" "\<not> expanded st y" for y
    using iv(4) that by blast
  show "h v + dist_of M st v \<le> q" if "(q, u) \<in># C" for q u
    using iv(6)[OF C(1)] C(2)[OF that] by linarith
qed (use edge_ok[OF gok] in blast)

lemma pop_entry_inv:
  assumes "astar_inv G max_weight M h gr src st (add_mset (p, v) C)" "expanded st v"
  shows "astar_inv G max_weight M h gr src st C"
proof -
  note iv = astar_invD[OF assms(1)]
  show ?thesis
  proof (rule astar_invI, goal_cases)
    case (4 y)
    then show ?case using iv(4)[of y] assms(2) by auto
  next
    case (5 q y)
    then show ?case using iv(5,6)[of q y] by auto
  qed (use iv(1,2,3,7,8) in auto)
qed

lemma mark_expanded_inv:
  assumes inv: "astar_inv G max_weight M h gr src st (add_mset (p, v) C)" and v: "\<not> expanded st v"
    and W: "0 \<le> max_weight gr"
  defines "st' \<equiv> st[nat v := (st ! nat v)\<lparr>as_is_expanded := True\<rparr>]"
  shows "astar_inv G max_weight M h gr src st' C" "dist_of M st' = dist_of M st"
    "expanded st' = (expanded st)(v := True)" "num_expanded st' = Suc (num_expanded st)"
    "dist_of M st v + max_weight gr \<le> max_weight gr * int (num_expanded st')"
proof -
  note iv = astar_invD[OF inv]
  have vM: "dist_of M st v < M" using iv(5)[of p v] by simp
  note vr = labelled_range[OF vM]
  show D: "dist_of M st' = dist_of M st" and ex: "expanded st' = (expanded st)(v := True)"
    using vr by (auto simp: st'_def fun_eq_iff dist_of_def)
  have len: "length st' = length st" by (simp add: st'_def)
  have P: "pred_of st' = pred_of st" using vr by (auto simp: st'_def fun_eq_iff pred_of_def)
  show num: "num_expanded st' = Suc (num_expanded st)"
    using num_expanded_update[of v st "(st ! nat v)\<lparr>as_is_expanded := True\<rparr>"] vr v by (simp add: st'_def)
  have grow: "max_weight gr * int (num_expanded st') = max_weight gr * int (num_expanded st) + max_weight gr"
    by (simp add: num algebra_simps)
  then show "dist_of M st v + max_weight gr \<le> max_weight gr * int (num_expanded st')"
    using iv(8)[OF vM] by simp
  show "astar_inv G max_weight M h gr src st' C"
  proof (rule astar_invI, goal_cases)
    case (4 y)
    then show ?case using iv(4)[of y] by (auto simp: D ex split: if_splits)
  next
    case (7 y)
    then show ?case using iv(8)[of y] grow W by (simp add: D)
  qed (use iv vM len in \<open>auto simp: D P ex split: if_splits\<close>)
qed

text \<open>One turn of the loop from a state of the invariant.\<close>

lemma iter_empty:
  "\<lbrakk>invar fr; entries fr = {#}\<rbrakk> \<Longrightarrow> astar_iter H G M h gr dst (st, fr, pb) = Inl AssertFail"
  by (simp add: astar_iter_def delete_min_empty)

lemma iter_skip:
  assumes "loop_inv h eps gr src dst (st, fr, pb)"
    "op_delete_min H fr = Inr (v, fr')" "invar fr'" "entries fr = add_mset (p, v) (entries fr')"
    "v \<noteq> dst" "expanded st v"
  shows "astar_iter H G M h gr dst (st, fr, pb) = Inr (Continue (st, fr', pb))"
    "loop_inv h eps gr src dst (st, fr', pb)"
proof -
  show "astar_iter H G M h gr dst (st, fr, pb) = Inr (Continue (st, fr', pb))"
    using assms(2,5,6) by (simp add: astar_iter_def expanded_def)
  have "astar_inv G max_weight M h gr src st (add_mset (p, v) (entries fr'))"
    using assms(1,4) by (simp add: loop_inv_def)
  from pop_entry_inv[OF this assms(6)] have "astar_inv G max_weight M h gr src st (entries fr')" .
  then show "loop_inv h eps gr src dst (st, fr', pb)" using assms(1,3) by (simp add: loop_inv_def)
qed

lemma iter_expand:
  assumes gok: "ok gr" and pre: "search_pre G max_weight M h Hmax gr src"
    and li: "loop_inv h eps gr src dst (st, fr, pb)"
    and pop: "op_delete_min H fr = Inr (v, fr')" "invar fr'" "entries fr = add_mset (p, v) (entries fr')"
      "\<And>q u. (q, u) \<in># entries fr \<Longrightarrow> p \<le> q"
    and v: "v \<noteq> dst" "\<not> expanded st v"
  shows "\<exists>st2 fr2 pb2. astar_iter H G M h gr dst (st, fr, pb) = Inr (Continue (st2, fr2, pb2)) \<and>
    loop_inv h eps gr src dst (st2, fr2, pb2) \<and> num_expanded st2 = Suc (num_expanded st)"
proof -
  have inv: "astar_inv G max_weight M h gr src st (add_mset (p, v) (entries fr'))"
    using li pop(3) by (simp add: loop_inv_def)
  have vM: "dist_of M st v < M" using astar_invD(5)[OF inv, of p v] by simp
  have vr: "0 \<le> v" "v < int (length st)" "int (length st) = number_vertices G gr"
    using labelled_range[OF vM] astar_invD(1)[OF inv] by auto
  define st1 where "st1 = st[nat v := (st ! nat v)\<lparr>as_is_expanded := True\<rparr>]"
  have W0: "0 \<le> max_weight gr" using pre by (simp add: search_pre_def)
  note me = mark_expanded_inv[OF inv v(2) W0, folded st1_def]
  obtain l where l: "neighbor_list G gr v = Inr l" using neighbors_ok[OF gok, of v] vr by auto
  have "\<exists>st' fr''. efold (astar_relax H M h v) l (st1, fr') = Inr (st', fr'') \<and> invar fr'' \<and>
    astar_inv G max_weight M h gr src st' (entries fr'') \<and>
    expanded st' = expanded st1 \<and> num_expanded st' = num_expanded st1 \<and>
    (\<forall>y. dist_of M st' y \<le> dist_of M st1 y) \<and> (\<forall>x w. (x, w) \<in> set l \<longrightarrow> dist_of M st' x \<le> dist_of M st1 v + w)"
    using me l pop(2) by (intro relax_all[OF gok pre]) auto
  then obtain st2 fr2 where r: "efold (astar_relax H M h v) l (st1, fr') = Inr (st2, fr2)" "invar fr2"
    "astar_inv G max_weight M h gr src st2 (entries fr2)" "expanded st2 = (expanded st)(v := True)"
    "num_expanded st2 = Suc (num_expanded st)" "\<And>y. dist_of M st2 y \<le> dist_of M st y"
    "\<And>x w. (x, w) \<in> set l \<Longrightarrow> dist_of M st2 x \<le> dist_of M st v + w"
    using me(2,3,4) by auto
  have "pebbles_ok (number_vertices G gr) pb" using li by (simp add: loop_inv_def)
  from set_pebble_ok[OF this, of v 0] obtain pb2 where
    pb2: "set_pebble pb v 0 = Inr pb2" "pebbles_ok (number_vertices G gr) pb2" using vr by auto
  have run: "astar_iter H G M h gr dst (st, fr, pb) = Inr (Continue (st2, fr2, pb2))"
    using pop(1) v vr pb2(1) l r(1) by (simp add: astar_iter_def expanded_def st1_def)
  have ev: "(x, w) \<in> set l" if "edge G gr v x w" for x w using that l by (simp add: edge_def)
  have n: "int (num_expanded st1) \<le> number_vertices G gr"
    using num_expanded_le[of st1] vr(3) by (simp add: st1_def)
  have lab: "dist_of M st v + w < M" if "edge G gr v x w" for x w
    using pre_bounds(1)[OF pre n, of v] me(5) edge_ok[OF gok that] vr by force
  have lab2: "dist_of M st2 x < M" if "expanded st2 u" "edge G gr u x w" for u x w
  proof (cases "u = v")
    case True
    then show ?thesis using r(7)[OF ev] lab that(2) by (meson le_less_trans)
  next
    case False
    then have "dist_of M st x < M" using li that r(4) by (auto simp: loop_inv_def)
    then show ?thesis using r(6)[of x] by linarith
  qed
  have cl2: "closed_inv G eps M gr src (expanded st2) (dist_of M st2)"
    if c: "eps_consistent G eps h gr" "1 \<le> eps"
    unfolding closed_inv_def
  proof (intro allI impI)
    fix u x w c' assume u: "expanded st2 u \<and> edge G gr u x w \<and> path G gr src u c'"
    have cl: "closed_inv G eps M gr src (expanded st) (dist_of M st)" using li c by (simp add: loop_inv_def)
    show "dist_of M st2 x < M \<and> real_of_int (dist_of M st2 x) \<le> eps * real_of_int c' + real_of_int w"
    proof (cases "u = v")
      case True
      have "real_of_int (dist_of M st v) \<le> eps * real_of_int c'"
        by (rule pop_bound[OF gok inv _ _ _ v(2) c cl]) (use u True vM pop(3,4) pre vr pre_bounds(4)[OF pre n] me(5) in auto)
      moreover have "dist_of M st2 x \<le> dist_of M st v + w" using r(7)[OF ev] u True by blast
      ultimately show ?thesis using lab[of x w] u True by (auto intro: le_less_trans)
    next
      case False
      then have "dist_of M st x < M \<and> real_of_int (dist_of M st x) \<le> eps * real_of_int c' + real_of_int w"
        using cl u r(4) unfolding closed_inv_def by auto
      then show ?thesis using r(6)[of x] by auto
    qed
  qed
  have "\<not> expanded st2 dst" using r(4) li v(1) by (simp add: loop_inv_def)
  then have "loop_inv h eps gr src dst (st2, fr2, pb2)"
    unfolding loop_inv_def prod.case using r(2,3) pb2(2) lab2 cl2 by blast
  then show ?thesis using run r(5) by blast
qed

lemma iter_found:
  assumes gok: "ok gr" and M0: "0 < M" and li: "loop_inv h eps gr src dst (st, fr, pb)"
    and pop: "op_delete_min H fr = Inr (dst, fr')" "entries fr = add_mset (p, dst) (entries fr')"
      "\<And>q u. (q, u) \<in># entries fr \<Longrightarrow> p \<le> q"
  shows "astar_iter H G M h gr dst (st, fr, pb) = Inr (Break (st, fr', pb))"
    "found h eps gr src dst (st, fr', pb)"
proof -
  show "astar_iter H G M h gr dst (st, fr, pb) = Inr (Break (st, fr', pb))"
    using pop(1) by (simp add: astar_iter_def)
  have inv: "astar_inv G max_weight M h gr src st (entries fr)" and nx: "\<not> expanded st dst"
    and pb: "pebbles_ok (number_vertices G gr) pb"
    and cl: "eps_consistent G eps h gr \<Longrightarrow> 1 \<le> eps \<Longrightarrow> closed_inv G eps M gr src (expanded st) (dist_of M st)"
    using li by (simp_all add: loop_inv_def)
  note iv = astar_invD[OF inv]
  have mem: "(p, dst) \<in># entries fr" using pop(2) by simp
  have "real_of_int (dist_of M st dst) \<le> eps * real_of_int c"
    if "eps_consistent G eps h gr" "1 \<le> eps" "path G gr src dst c" for c
    by (rule pop_bound[OF gok inv M0 mem pop(3) nx that(1,2) cl that(3)]) (use that in auto)
  then have "within_eps G eps h gr src dst (dist_of M st dst)" by (simp add: within_eps_def)
  then show "found h eps gr src dst (st, fr', pb)"
    unfolding found_def prod.case using iv(1,2) iv(5)[OF mem] pb by blast
qed

text \<open>When the frontier is empty, everything reachable has been expanded.\<close>

lemma empty_unreachable:
  assumes "loop_inv h eps gr src dst (st, fr, pb)" "entries fr = {#}" "0 < M"
  shows "\<not> path G gr src dst c"
proof
  assume p: "path G gr src dst c"
  have inv: "astar_inv G max_weight M h gr src st {#}" and nx: "\<not> expanded st dst"
    and lab: "\<And>u x w. expanded st u \<Longrightarrow> edge G gr u x w \<Longrightarrow> dist_of M st x < M"
    using assms(1,2) by (auto simp: loop_inv_def)
  note iv = astar_invD[OF inv]
  have ex: "expanded st v" if "dist_of M st v < M" for v using iv(4)[OF that] by auto
  have "expanded st src" using pred_treeD(1)[OF iv(2)] assms(3) by (intro ex) simp
  then show False using path_leaves[OF p, of "Collect (expanded st)"] nx lab ex by auto
qed

definition loop_less where
  "loop_less gr = inv_image (less_than <*lex*> less_than)
     (\<lambda>(st, fr, pb :: int list option). (nat (number_vertices G gr) - num_expanded st, size (entries fr)))"

lemma wf_loop_less: "wf (loop_less gr)"
  unfolding loop_less_def by (intro wf_inv_image wf_lex_prod wf_less_than)

text \<open>One turn of the loop, from any state of the invariant: the four ways it can go.\<close>

lemma iter_cases:
  assumes gok: "ok gr" and pre: "search_pre G max_weight M h Hmax gr src"
    and li: "loop_inv h eps gr src dst s"
  shows "case astar_iter H G M h gr dst s of
      Inl e \<Rightarrow> e = AssertFail \<and> (\<forall>c. \<not> path G gr src dst c)
    | Inr (Break t) \<Rightarrow> found h eps gr src dst t
    | Inr (Continue t) \<Rightarrow> loop_inv h eps gr src dst t \<and> (t, s) \<in> loop_less gr"
proof -
  obtain st fr pb where s: "s = (st, fr, pb)" by (cases s) auto
  note li = li[unfolded s]
  have fr: "invar fr" and inv: "astar_inv G max_weight M h gr src st (entries fr)"
    using li by (simp_all add: loop_inv_def)
  have M0: "0 < M" using pre_bounds(4)[OF pre, of 0 src 0] pre by (simp add: search_pre_def)
  show ?thesis
  proof (cases "entries fr = {#}")
    case True
    then show ?thesis
      using iter_empty[OF fr True] empty_unreachable[OF li True M0] by (simp add: s)
  next
    case False
    obtain p v fr' where pop: "op_delete_min H fr = Inr (v, fr')" "invar fr'"
      "entries fr = add_mset (p, v) (entries fr')" "\<And>q u. (q, u) \<in># entries fr \<Longrightarrow> p \<le> q"
      using delete_min[OF fr False] by fast
    consider "v = dst" | "v \<noteq> dst" "expanded st v" | "v \<noteq> dst" "\<not> expanded st v" by blast
    then show ?thesis
    proof cases
      case 1
      then show ?thesis using iter_found[OF gok M0 li] pop by (simp add: s)
    next
      case 2
      then show ?thesis using iter_skip[OF li pop(1-3) 2] pop(3) by (simp add: s loop_less_def)
    next
      case 3
      obtain st2 fr2 pb2 where r: "astar_iter H G M h gr dst (st, fr, pb) = Inr (Continue (st2, fr2, pb2))"
        "loop_inv h eps gr src dst (st2, fr2, pb2)" "num_expanded st2 = Suc (num_expanded st)"
        using iter_expand[OF gok pre li pop(1-3) _ 3] pop(4) by blast
      have "int (length st2) = number_vertices G gr"
        using r(2) by (auto simp: loop_inv_def dest: astar_invD(1))
      then have "num_expanded st2 \<le> nat (number_vertices G gr)" using num_expanded_le[of st2] by linarith
      then have "nat (number_vertices G gr) - num_expanded st2 < nat (number_vertices G gr) - num_expanded st"
        using r(3) by arith
      then show ?thesis using r(1,2) by (simp add: s loop_less_def)
    qed
  qed
qed

text \<open>The check for a negative distance in the templated version never fires.\<close>

lemma iterT_eq:
  assumes "loop_inv h eps gr src dst s"
  shows "astarT_iter H G M h gr dst s = astar_iter H G M h gr dst s"
proof -
  obtain st fr pb where s: "s = (st, fr, pb)" by (cases s) auto
  have fr: "invar fr" and inv: "astar_inv G max_weight M h gr src st (entries fr)"
    using assms by (simp_all add: loop_inv_def s)
  note iv = astar_invD[OF inv]
  show ?thesis
  proof (cases "entries fr = {#}")
    case True
    then show ?thesis using delete_min_empty[OF fr] by (simp add: astar_iter_def astarT_iter_def s)
  next
    case False
    obtain p v fr' where pop: "op_delete_min H fr = Inr (v, fr')"
      "entries fr = add_mset (p, v) (entries fr')" using delete_min[OF fr False] by fast
    have vM: "dist_of M st v < M" using iv(5)[of p v] pop(2) by simp
    have "0 \<le> as_dist (st ! nat v)"
      using pred_treeD(2)[OF iv(2) vM] labelled_range[OF vM] by (simp add: dist_of_def)
    then show ?thesis
      using labelled_range[OF vM] by (simp add: astar_iter_def astarT_iter_def s pop(1))
  qed
qed

lemma start_inv:
  assumes gok: "ok gr" and pre: "search_pre G max_weight M h Hmax gr src"
  shows "\<exists>s. astar_start H G M h gr src pebble = Inr s \<and> loop_inv h eps gr src dst s"
proof -
  let ?N = "number_vertices G gr"
  have src: "0 \<le> src" "src < ?N" and N: "0 \<le> ?N" and W: "0 \<le> max_weight gr"
    using pre nonneg_size[OF gok] by (auto simp: search_pre_def)
  have b: "h src + 0 \<le> M" "0 < M" using pre_bounds[OF pre, of 0 src 0] pre by (auto simp: search_pre_def)
  obtain fr where fr: "op_insert H (h src) src (op_new H) = Inr fr" "invar fr" "entries fr = {#(h src, src)#}"
    using insert[OF new(1), of "h src" src] b M_long by (auto simp: new(2))
  let ?z = "\<lparr>as_is_expanded = False, as_dist = M, as_pred = -1\<rparr>"
  define st where "st = (astar_init M ?N)[nat src := ?z\<lparr>as_dist := 0\<rparr>]"
  have len: "int (length st) = ?N" using N by (simp add: st_def astar_init_def)
  have run: "astar_start H G M h gr src pebble = Inr (st, fr, init_pebbles pebble ?N)"
    using src fr by (simp add: astar_start_def astar_init_def st_def Let_def)
  have D: "dist_of M st = (\<lambda>v. if v = src then 0 else M)"
    using src by (auto simp: dist_of_def astar_init_def st_def nth_list_update fun_eq_iff nat_eq_iff)
  have ex: "expanded st = (\<lambda>v. False)"
    using src by (auto simp: expanded_def astar_init_def st_def nth_list_update fun_eq_iff nat_eq_iff)
  have "pred_tree (edge G gr) src M (dist_of M st) (pred_of st)"
    using b unfolding D by (intro pred_tree_init) auto
  then have "astar_inv G max_weight M h gr src st (entries fr)"
    using b N W by (intro astar_invI) (auto simp: D ex fr(3) len split: if_splits)
  then have "loop_inv h eps gr src dst (st, fr, init_pebbles pebble ?N)"
    using fr(2) N by (simp add: loop_inv_def ex closed_inv_def)
  then show ?thesis using run by blast
qed

text \<open>
  The outcome of a whole search, for a loop body that agrees with \<open>astar_iter\<close> on the states of
  the invariant.
\<close>

lemma search_outcome:
  assumes gok: "ok gr" and pre: "search_pre G max_weight M h Hmax gr src"
    and start: "astar_start H G M h gr src pebble = Inr s"
    and body: "\<And>s. loop_inv h eps gr src dst s \<Longrightarrow> body s = astar_iter H G M h gr dst s"
  shows "\<exists>r. run_loop body s = Some r \<and>
    (case r of Inl e \<Rightarrow> e = AssertFail \<and> (\<forall>c. \<not> path G gr src dst c) | Inr t \<Rightarrow> found h eps gr src dst t)"
proof -
  have s: "loop_inv h eps gr src dst s" using start_inv[OF gok pre, of pebble eps dst] start by auto
  have "\<exists>r. run_loop body s = Some r \<and> (\<exists>s'. loop_inv h eps gr src dst s' \<and>
    (case r of Inl e \<Rightarrow> body s' = Inl e | Inr t \<Rightarrow> body s' = Inr (Break t)))"
  proof (rule run_loop_rule[where I = "loop_inv h eps gr src dst" and R = "loop_less gr"])
    show "loop_inv h eps gr src dst s" "wf (loop_less gr)" by (fact s, rule wf_loop_less)
    fix s t assume "loop_inv h eps gr src dst s" "body s = Inr (Continue t)"
    then show "loop_inv h eps gr src dst t \<and> (t, s) \<in> loop_less gr"
      using iter_cases[OF gok pre, of eps dst s] body[of s] by simp
  qed
  then obtain r s' where r: "run_loop body s = Some r" "loop_inv h eps gr src dst s'"
    "case r of Inl e \<Rightarrow> body s' = Inl e | Inr t \<Rightarrow> body s' = Inr (Break t)" by blast
  then show ?thesis using iter_cases[OF gok pre r(2)] body[OF r(2)] by (auto split: sum.splits)
qed

lemma found_result:
  assumes "found h eps gr src dst (st, fr, pb)"
  shows "\<exists>D P. result_tree G M gr src dst (AStarResult st pb) D P \<and>
    within_eps G eps h gr src dst (D dst)"
proof -
  have "res_g (AStarResult st pb) v = Inr (dist_of M st v) \<and> res_predecessor (AStarResult st pb) v = Inr (pred_of st v)"
    if "0 \<le> v \<and> v < number_vertices G gr" for v
    using assms that by (simp add: found_def AStarResult_def dist_of_def pred_of_def)
  then have "result_tree G M gr src dst (AStarResult st pb) (dist_of M st) (pred_of st)"
    using assms by (simp add: found_def result_tree_def)
  then show ?thesis using assms by (auto simp: found_def)
qed

lemma astarT_outcome:
  assumes gok: "ok gr" and pre: "search_pre G max_weight M h Hmax gr src"
  shows "\<exists>r. astarT H G M h gr src dst pebble = Some r \<and>
    (case r of Inl e \<Rightarrow> e = AssertFail \<and> (\<forall>c. \<not> path G gr src dst c)
     | Inr res \<Rightarrow> \<exists>D P. result_tree G M gr src dst res D P \<and>
         within_eps G eps h gr src dst (D dst))"
proof -
  obtain s where s: "astar_start H G M h gr src pebble = Inr s" using start_inv[OF gok pre] by blast
  obtain r where r: "run_loop (astarT_iter H G M h gr dst) s = Some r"
    "case r of Inl e \<Rightarrow> e = AssertFail \<and> (\<forall>c. \<not> path G gr src dst c) | Inr t \<Rightarrow> found h eps gr src dst t"
    using search_outcome[OF gok pre s, of eps dst "astarT_iter H G M h gr dst"] iterT_eq by blast
  show ?thesis
  proof (cases r)
    case (Inl e)
    then show ?thesis using r by (simp add: astarT_def s)
  next
    case (Inr t)
    then show ?thesis using r found_result by (cases t) (simp add: astarT_def s)
  qed
qed

lemma astar_outcome:
  assumes gok: "ok gr" and pre: "search_pre G max_weight M h Hmax gr src" and "M = INT_MAX"
  shows "\<exists>r. astar H G h gr src dst pebble = Some r \<and>
    (case r of Inl e \<Rightarrow> e = AssertFail \<and> (\<forall>c. \<not> path G gr src dst c)
     | Inr res \<Rightarrow> \<exists>D P. result_tree G M gr src dst res D P \<and>
         within_eps G eps h gr src dst (D dst))"
proof -
  obtain s where s: "astar_start H G M h gr src pebble = Inr s" using start_inv[OF gok pre] by blast
  obtain r where r: "run_loop (astar_iter H G M h gr dst) s = Some r"
    "case r of Inl e \<Rightarrow> e = AssertFail \<and> (\<forall>c. \<not> path G gr src dst c) | Inr t \<Rightarrow> found h eps gr src dst t"
    using search_outcome[OF gok pre s] by blast
  have run: "astar H G h gr src dst pebble =
    Some (ebind r (\<lambda>(states, frontier, pebbles). Inr (AStarResult states pebbles)))"
    using r(1) s unfolding astar_def assms(3)[symmetric] by simp
  show ?thesis
  proof (cases r)
    case (Inl e)
    then show ?thesis using r(2) by (simp add: run)
  next
    case (Inr t)
    then show ?thesis using r(2) found_result by (cases t) (simp add: run)
  qed
qed

lemma astar_pebbles:
  assumes gok: "ok gr" and pre: "search_pre G max_weight M h Hmax gr src" and "M = INT_MAX"
    and res: "astar H G h gr src dst pebble = Some (Inr res)"
  shows "\<exists>st pb. res = AStarResult st pb \<and> pebbles_ok (number_vertices G gr) pb"
proof -
  obtain s where s: "astar_start H G M h gr src pebble = Inr s" using start_inv[OF gok pre] by blast
  obtain r where r: "run_loop (astar_iter H G M h gr dst) s = Some r"
    "case r of Inl e \<Rightarrow> True | Inr t \<Rightarrow> found h 1 gr src dst t"
    using search_outcome[OF gok pre s, of 1 dst] by (force split: sum.splits)
  then show ?thesis using res s unfolding astar_def assms(3)[symmetric]
    by (auto simp: found_def result_simps split: sum.splits)
qed

end

end
