(* ===== verification/Par_Search.thy ===== *)
theory Par_Search
  imports AStar
begin

text \<open>
  The abstract specification of the parallel best-first searches of the repository (\<open>wpanre.hpp\<close>,
  \<open>pase.hpp\<close>, \<open>pwsa_pc\<close> and \<open>pwsa_pcT\<close> of \<open>pwsa.hpp\<close>). A state has the tentative distances \<open>ps_D\<close>,
  the predecessors \<open>ps_P\<close>, the set \<open>ps_X\<close> of vertices claimed for expansion, the multiset \<open>ps_Q\<close>
  of queued vertices wherever they are kept, and the expansions under way. One step is one atomic
  action of some worker; any interleaving of workers is a sequence of steps. The concrete programs
  are shown to refine this relation in their own theories.
\<close>

section \<open>States and steps\<close>

text \<open>An expansion: claimed, or relaxing with the distance that was read and the edges to do.\<close>

datatype act = Claimed int | Relaxing int int "(int \<times> int) list"

fun act_vertex :: "act \<Rightarrow> int" where
  "act_vertex (Claimed v) = v"
| "act_vertex (Relaxing v d es) = v"

record psearch =
  ps_D :: "int \<Rightarrow> int"
  ps_P :: "int \<Rightarrow> int"
  ps_X :: "int set"
  ps_Q :: "int multiset"
  ps_A :: "act multiset"

inductive astep :: "'g graph_ops \<Rightarrow> 'g \<Rightarrow> psearch \<Rightarrow> psearch \<Rightarrow> bool" for G gr where
  drop: "\<lbrakk>v \<in># ps_Q s; v \<in> ps_X s\<rbrakk> \<Longrightarrow> astep G gr s (s\<lparr>ps_Q := ps_Q s - {#v#}\<rparr>)"
| claim: "\<lbrakk>v \<in># ps_Q s; v \<notin> ps_X s\<rbrakk> \<Longrightarrow>
    astep G gr s (s\<lparr>ps_X := insert v (ps_X s), ps_Q := ps_Q s - {#v#}, ps_A := add_mset (Claimed v) (ps_A s)\<rparr>)"
| read: "\<lbrakk>ps_A s = add_mset (Claimed v) A; neighbor_list G gr v = Inr l\<rbrakk> \<Longrightarrow>
    astep G gr s (s\<lparr>ps_A := add_mset (Relaxing v (ps_D s v) l) A\<rparr>)"
| improve: "\<lbrakk>ps_A s = add_mset (Relaxing v d ((x, w) # es)) A; d + w < ps_D s x\<rbrakk> \<Longrightarrow>
    astep G gr s (s\<lparr>ps_D := (ps_D s)(x := d + w), ps_P := (ps_P s)(x := v), ps_Q := add_mset x (ps_Q s),
      ps_A := add_mset (Relaxing v d es) A\<rparr>)"
| keep: "\<lbrakk>ps_A s = add_mset (Relaxing v d ((x, w) # es)) A; \<not> d + w < ps_D s x\<rbrakk> \<Longrightarrow>
    astep G gr s (s\<lparr>ps_A := add_mset (Relaxing v d es) A\<rparr>)"
| close: "ps_A s = add_mset (Relaxing v d []) A \<Longrightarrow> astep G gr s (s\<lparr>ps_A := A\<rparr>)"

inductive_cases astepE: "astep G gr s t"

definition ps_init :: "int \<Rightarrow> int \<Rightarrow> (int \<Rightarrow> int) \<Rightarrow> psearch" where
  "ps_init M src P = \<lparr>ps_D = (\<lambda>v. if v = src then 0 else M), ps_P = P, ps_X = {}, ps_Q = {#src#}, ps_A = {#}\<rparr>"

abbreviation asteps :: "'g graph_ops \<Rightarrow> 'g \<Rightarrow> psearch \<Rightarrow> psearch \<Rightarrow> bool" where
  "asteps G gr \<equiv> (astep G gr)\<^sup>*\<^sup>*"

section \<open>The invariant\<close>

fun owes :: "act \<Rightarrow> int \<Rightarrow> int \<times> int \<Rightarrow> bool" where
  "owes (Claimed u) v e \<longleftrightarrow> u = v"
| "owes (Relaxing u d es) v e \<longleftrightarrow> u = v \<and> e \<in> set es"

definition pending :: "act multiset \<Rightarrow> int \<Rightarrow> int \<times> int \<Rightarrow> bool" where
  "pending A v e \<longleftrightarrow> (\<exists>a. a \<in># A \<and> owes a v e)"

lemma pending_simps [simp]: "\<not> pending {#} v e" "pending (add_mset a A) v e \<longleftrightarrow> owes a v e \<or> pending A v e"
  by (auto simp: pending_def)

fun act_ok :: "'g graph_ops \<Rightarrow> int \<Rightarrow> 'g \<Rightarrow> (int \<Rightarrow> int) \<Rightarrow> int set \<Rightarrow> act \<Rightarrow> bool" where
  "act_ok G W gr D X (Claimed v) \<longleftrightarrow> v \<in> X \<and> D v + W \<le> W * int (card X)"
| "act_ok G W gr D X (Relaxing v d es) \<longleftrightarrow>
     v \<in> X \<and> D v \<le> d \<and> d + W \<le> W * int (card X) \<and> (\<forall>(x, w) \<in> set es. edge G gr v x w)"

definition ps_inv :: "'g graph_ops \<Rightarrow> int \<Rightarrow> int \<Rightarrow> 'g \<Rightarrow> int \<Rightarrow> psearch \<Rightarrow> bool" where
  "ps_inv G W M gr src s \<longleftrightarrow>
     pred_tree (edge G gr) src M (ps_D s) (ps_P s) \<and>
     (\<forall>v. ps_D s v \<le> M) \<and>
     (\<forall>v. ps_D s v < M \<longrightarrow> 0 \<le> v \<and> v < number_vertices G gr \<and> ps_D s v \<le> W * int (card (ps_X s))) \<and>
     (\<forall>v. v \<in># ps_Q s \<longrightarrow> ps_D s v < M) \<and>
     (\<forall>v \<in> ps_X s. ps_D s v < M) \<and>
     (\<forall>v. ps_D s v < M \<and> v \<notin> ps_X s \<longrightarrow> v \<in># ps_Q s) \<and>
     (\<forall>a. a \<in># ps_A s \<longrightarrow> act_ok G W gr (ps_D s) (ps_X s) a) \<and>
     (\<forall>v. count (image_mset act_vertex (ps_A s)) v \<le> 1) \<and>
     (\<forall>v x w. v \<in> ps_X s \<and> edge G gr v x w \<longrightarrow> ps_D s x < M \<or> pending (ps_A s) v (x, w))"

lemma ps_invD:
  assumes "ps_inv G W M gr src s"
  shows "pred_tree (edge G gr) src M (ps_D s) (ps_P s)" "ps_D s v \<le> M"
    "ps_D s v < M \<Longrightarrow> 0 \<le> v \<and> v < number_vertices G gr" "ps_D s v < M \<Longrightarrow> ps_D s v \<le> W * int (card (ps_X s))"
    "v \<in># ps_Q s \<Longrightarrow> ps_D s v < M" "v \<in> ps_X s \<Longrightarrow> ps_D s v < M"
    "\<lbrakk>ps_D s v < M; v \<notin> ps_X s\<rbrakk> \<Longrightarrow> v \<in># ps_Q s" "a \<in># ps_A s \<Longrightarrow> act_ok G W gr (ps_D s) (ps_X s) a"
    "count (image_mset act_vertex (ps_A s)) v \<le> 1"
    "\<lbrakk>v \<in> ps_X s; edge G gr v x w\<rbrakk> \<Longrightarrow> ps_D s x < M \<or> pending (ps_A s) v (x, w)"
  using assms unfolding ps_inv_def by blast+

lemma ps_invI:
  assumes "pred_tree (edge G gr) src M (ps_D s) (ps_P s)" "\<And>v. ps_D s v \<le> M"
    "\<And>v. ps_D s v < M \<Longrightarrow> 0 \<le> v \<and> v < number_vertices G gr \<and> ps_D s v \<le> W * int (card (ps_X s))"
    "\<And>v. v \<in># ps_Q s \<Longrightarrow> ps_D s v < M" "\<And>v. v \<in> ps_X s \<Longrightarrow> ps_D s v < M"
    "\<And>v. \<lbrakk>ps_D s v < M; v \<notin> ps_X s\<rbrakk> \<Longrightarrow> v \<in># ps_Q s" "\<And>a. a \<in># ps_A s \<Longrightarrow> act_ok G W gr (ps_D s) (ps_X s) a"
    "\<And>v. count (image_mset act_vertex (ps_A s)) v \<le> 1"
    "\<And>v x w. \<lbrakk>v \<in> ps_X s; edge G gr v x w\<rbrakk> \<Longrightarrow> ps_D s x < M \<or> pending (ps_A s) v (x, w)"
  shows "ps_inv G W M gr src s"
  unfolding ps_inv_def using assms by (intro conjI allI impI ballI) blast+

text \<open>What a search needs of its inputs; as for the sequential search, with a bound on path costs.\<close>

definition par_pre :: "'g graph_ops \<Rightarrow> ('g \<Rightarrow> int) \<Rightarrow> int \<Rightarrow> 'g \<Rightarrow> int \<Rightarrow> bool" where
  "par_pre G W M gr src \<longleftrightarrow> 0 \<le> src \<and> src < number_vertices G gr \<and> 0 \<le> W gr \<and> number_vertices G gr * W gr < M"

context search_graph
begin

lemma X_bounds:
  assumes inv: "ps_inv G (max_weight gr) M gr src s" and pre: "par_pre G max_weight M gr src"
  shows "finite (ps_X s)" "int (card (ps_X s)) \<le> number_vertices G gr"
    "max_weight gr * int (card (ps_X s)) < M"
proof -
  have sub: "ps_X s \<subseteq> {0..<number_vertices G gr}" using ps_invD(3,6)[OF inv] by auto
  then show "finite (ps_X s)" by (rule finite_subset) simp
  have "card (ps_X s) \<le> card {0..<number_vertices G gr}" by (rule card_mono[OF _ sub]) simp
  then show c: "int (card (ps_X s)) \<le> number_vertices G gr" using pre by (simp add: par_pre_def le_nat_iff)
  have "max_weight gr * int (card (ps_X s)) \<le> max_weight gr * number_vertices G gr"
    using c pre by (intro mult_left_mono) (auto simp: par_pre_def)
  also have "\<dots> < M" using pre by (simp add: par_pre_def mult.commute)
  finally show "max_weight gr * int (card (ps_X s)) < M" .
qed

lemma ps_inv_init:
  assumes "par_pre G max_weight M gr src" "ok gr"
  shows "ps_inv G (max_weight gr) M gr src (ps_init M src P)"
proof -
  have M: "0 < M" using assms nonneg_size[OF assms(2)] by (auto simp: par_pre_def) (smt (verit) mult_nonneg_nonneg)
  then have "pred_tree (edge G gr) src M (\<lambda>v. if v = src then 0 else M) P" by (intro pred_tree_init) auto
  then show ?thesis using M assms(1) by (intro ps_invI) (auto simp: ps_init_def par_pre_def split: if_splits)
qed

lemma act_ok_mono:
  assumes "act_ok G W gr D X a" "\<And>v. D' v \<le> D v" "X \<subseteq> X'" "finite X'" "0 \<le> W"
  shows "act_ok G W gr D' X' a"
proof -
  have "W * int (card X) \<le> W * int (card X')" using assms(3-5) by (intro mult_left_mono) (auto intro: card_mono)
  then show ?thesis using assms(1,3) assms(2)[of "act_vertex a"] by (cases a) auto
qed

lemma drop_inv:
  assumes inv: "ps_inv G W M gr src s" and v: "v \<in># ps_Q s" "v \<in> ps_X s"
  shows "ps_inv G W M gr src (s\<lparr>ps_Q := ps_Q s - {#v#}\<rparr>)"
proof -
  note d = ps_invD[OF inv]
  show ?thesis
  proof (rule ps_invI, goal_cases)
    case (4 x)
    then show ?case using d(5) by (auto dest: in_diffD)
  next
    case (6 x)
    then have "x \<in># ps_Q s" "x \<noteq> v" using d(7) v by auto
    then show ?case by (simp add: in_diff_count)
  qed (use d in auto)
qed

lemma claim_inv:
  assumes inv: "ps_inv G (max_weight gr) M gr src s" and pre: "par_pre G max_weight M gr src"
    and v: "v \<in># ps_Q s" "v \<notin> ps_X s"
  shows "ps_inv G (max_weight gr) M gr src
    (s\<lparr>ps_X := insert v (ps_X s), ps_Q := ps_Q s - {#v#}, ps_A := add_mset (Claimed v) (ps_A s)\<rparr>)"
proof -
  note d = ps_invD[OF inv]
  have W: "0 \<le> max_weight gr" using pre by (simp add: par_pre_def)
  have fin: "finite (ps_X s)" by (rule X_bounds(1)[OF inv pre])
  then have grow: "max_weight gr * int (card (insert v (ps_X s))) = max_weight gr * int (card (ps_X s)) + max_weight gr"
    using v(2) by (simp add: algebra_simps)
  have vM: "ps_D s v < M" by (rule d(5)[OF v(1)])
  have new: "v \<notin># image_mset act_vertex (ps_A s)"
  proof
    assume "v \<in># image_mset act_vertex (ps_A s)"
    then obtain a where a: "a \<in># ps_A s" "act_vertex a = v" by auto
    from d(8)[OF a(1)] a(2) v(2) show False by (cases a) auto
  qed
  show ?thesis
  proof (rule ps_invI, goal_cases)
    case (3 x)
    then show ?case using d(3,4)[of x] W grow by auto
  next
    case (4 x)
    then show ?case using d(5) by (auto dest: in_diffD)
  next
    case (6 x)
    then have "x \<in># ps_Q s" "x \<noteq> v" using d(7) by auto
    then show ?case by (simp add: in_diff_count)
  next
    case (7 a)
    then show ?case using act_ok_mono[OF d(8), of a "ps_D s" "insert v (ps_X s)"] fin W d(4)[OF vM] grow by auto
  next
    case (8 x)
    then show ?case using d(9)[of x] count_eq_zero_iff[THEN iffD2, OF new] by auto
  next
    case (9 u x w)
    then show ?case using d(10)[of u x w] by auto
  qed (use d vM in auto)
qed

lemma read_inv:
  assumes inv: "ps_inv G W M gr src s" and a: "ps_A s = add_mset (Claimed v) A" and l: "neighbor_list G gr v = Inr l"
  shows "ps_inv G W M gr src (s\<lparr>ps_A := add_mset (Relaxing v (ps_D s v) l) A\<rparr>)"
proof -
  note d = ps_invD[OF inv]
  have ok: "act_ok G W gr (ps_D s) (ps_X s) (Claimed v)" using d(8)[of "Claimed v"] a by simp
  have "\<forall>(x, w) \<in> set l. edge G gr v x w" using d(3,6)[of v] ok l by (auto simp: edge_def)
  then have rel: "act_ok G W gr (ps_D s) (ps_X s) (Relaxing v (ps_D s v) l)" using ok by simp
  show ?thesis
  proof (rule ps_invI, goal_cases)
    case (7 b)
    then show ?case using d(8)[of b] rel a by auto
  next
    case (8 x)
    then show ?case using d(9)[of x] a by simp
  next
    case (9 u x w)
    then show ?case using d(10)[of u x w] l a by (auto simp: edge_def)
  qed (use d in auto)
qed

lemma improve_inv:
  assumes gok: "ok gr" and inv: "ps_inv G (max_weight gr) M gr src s" and pre: "par_pre G max_weight M gr src"
    and a: "ps_A s = add_mset (Relaxing v d ((x, w) # es)) A" and lt: "d + w < ps_D s x"
  shows "ps_inv G (max_weight gr) M gr src
    (s\<lparr>ps_D := (ps_D s)(x := d + w), ps_P := (ps_P s)(x := v), ps_Q := add_mset x (ps_Q s), ps_A := add_mset (Relaxing v d es) A\<rparr>)"
proof -
  note i = ps_invD[OF inv]
  have ok: "act_ok G (max_weight gr) gr (ps_D s) (ps_X s) (Relaxing v d ((x, w) # es))" using i(8)[of "Relaxing v d ((x, w) # es)"] a by simp
  have e: "edge G gr v x w" and v: "v \<in> ps_X s" "ps_D s v \<le> d" and db: "d + max_weight gr \<le> max_weight gr * int (card (ps_X s))"
    using ok by auto
  note xo = edge_ok[OF gok e]
  have dw: "d + w \<le> max_weight gr * int (card (ps_X s))" using db xo by linarith
  have dwM: "d + w < M" using dw X_bounds(3)[OF inv pre] by linarith
  have W: "0 \<le> max_weight gr" and fin: "finite (ps_X s)" using pre X_bounds(1)[OF inv pre] by (auto simp: par_pre_def)
  have mono: "act_ok G (max_weight gr) gr ((ps_D s)(x := d + w)) (ps_X s) b" if "act_ok G (max_weight gr) gr (ps_D s) (ps_X s) b" for b
    by (rule act_ok_mono[OF that _ _ fin W]) (use lt in auto)
  show ?thesis
  proof (rule ps_invI, goal_cases)
    case 1
    have "pred_tree (edge G gr) src M ((ps_D s)(x := d + w)) ((ps_P s)(x := v))"
      by (rule pred_tree_relax[OF i(1) _ e]) (use edge_ok[OF gok] v i(2,6) lt in auto)
    then show ?case by simp
  next
    case (2 y)
    then show ?case using i(2)[of y] dwM by auto
  next
    case (3 y)
    then show ?case using i(3,4)[of y] xo dw by (auto split: if_splits)
  next
    case (4 y)
    then show ?case using i(5)[of y] dwM by auto
  next
    case (6 y)
    then show ?case using i(7)[of y] by (auto split: if_splits)
  next
    case (7 b)
    have "act_ok G (max_weight gr) gr (ps_D s) (ps_X s) b" using 7 i(8)[of b] a ok by auto
    then show ?case using mono by simp
  next
    case (8 y)
    then show ?case using i(9)[of y] a by simp
  next
    case (9 u y c)
    then show ?case using i(10)[of u y c] a dwM by auto
  qed (use i(6) dwM in auto)
qed

lemma keep_inv:
  assumes inv: "ps_inv G W M gr src s" and dM: "d + w < M"
    and a: "ps_A s = add_mset (Relaxing v d ((x, w) # es)) A" and lt: "\<not> d + w < ps_D s x"
  shows "ps_inv G W M gr src (s\<lparr>ps_A := add_mset (Relaxing v d es) A\<rparr>)"
proof -
  note i = ps_invD[OF inv]
  have ok: "act_ok G W gr (ps_D s) (ps_X s) (Relaxing v d ((x, w) # es))" using i(8)[of "Relaxing v d ((x, w) # es)"] a by simp
  show ?thesis
  proof (rule ps_invI, goal_cases)
    case (7 b)
    then show ?case using i(8)[of b] a ok by auto
  next
    case (8 y)
    then show ?case using i(9)[of y] a by simp
  next
    case (9 u y c)
    then show ?case using i(10)[of u y c] a dM lt by auto
  qed (use i in auto)
qed

lemma close_inv:
  assumes inv: "ps_inv G W M gr src s" and a: "ps_A s = add_mset (Relaxing v d []) A"
  shows "ps_inv G W M gr src (s\<lparr>ps_A := A\<rparr>)"
proof -
  note i = ps_invD[OF inv]
  show ?thesis
  proof (rule ps_invI, goal_cases)
    case (7 b)
    then show ?case using i(8)[of b] a by auto
  next
    case (8 y)
    then show ?case using i(9)[of y] a by (auto split: if_splits)
  next
    case (9 u y c)
    then show ?case using i(10)[of u y c] a by auto
  qed (use i in auto)
qed

lemma relaxing_bound:
  assumes gok: "ok gr" and inv: "ps_inv G (max_weight gr) M gr src s" and pre: "par_pre G max_weight M gr src"
    and a: "Relaxing v d ((x, w) # es) \<in># ps_A s"
  shows "d + w < M" "0 \<le> d + w" "d + w \<le> max_weight gr * int (card (ps_X s))"
    "0 \<le> x \<and> x < number_vertices G gr"
proof -
  have ok: "act_ok G (max_weight gr) gr (ps_D s) (ps_X s) (Relaxing v d ((x, w) # es))" using ps_invD(8)[OF inv a] .
  then have e: "edge G gr v x w" by simp
  show b: "d + w \<le> max_weight gr * int (card (ps_X s))" using ok edge_ok[OF gok e] by auto
  then show "d + w < M" using X_bounds(3)[OF inv pre] by linarith
  have "ps_D s v < M" using ps_invD(6)[OF inv] ok by simp
  then have "0 \<le> ps_D s v" by (rule pred_treeD(2)[OF ps_invD(1)[OF inv]])
  then show "0 \<le> d + w" using ok edge_ok[OF gok e] by auto
  show "0 \<le> x \<and> x < number_vertices G gr" using edge_ok[OF gok e] by simp
qed

lemma astep_inv:
  assumes gok: "ok gr" and pre: "par_pre G max_weight M gr src"
    and inv: "ps_inv G (max_weight gr) M gr src s" and st: "astep G gr s t"
  shows "ps_inv G (max_weight gr) M gr src t"
  using st
proof (cases rule: astep.cases)
  case (drop v)
  then show ?thesis using drop_inv[OF inv] by simp
next
  case (claim v)
  then show ?thesis using claim_inv[OF inv pre] by simp
next
  case (read v A l)
  then show ?thesis using read_inv[OF inv] by simp
next
  case (improve v d x w es A)
  then show ?thesis using improve_inv[OF gok inv pre] by simp
next
  case (keep v d x w es A)
  have "Relaxing v d ((x, w) # es) \<in># ps_A s" using keep(2) by simp
  from keep_inv[OF inv relaxing_bound(1)[OF gok inv pre this] keep(2,3)] show ?thesis using keep(1) by simp
next
  case (close v d A)
  then show ?thesis using close_inv[OF inv] by simp
qed

lemma asteps_inv:
  assumes "ok gr" "par_pre G max_weight M gr src" "ps_inv G (max_weight gr) M gr src s" "asteps G gr s t"
  shows "ps_inv G (max_weight gr) M gr src t"
  using assms(4,3) by (induction rule: rtranclp_induct) (auto intro: astep_inv[OF assms(1,2)])

end

section \<open>Consequences\<close>

text \<open>
  Every sequence of steps is finite: a claim enlarges the set of expanded vertices, and between
  claims the outstanding work shrinks.
\<close>

fun is_claimed :: "act \<Rightarrow> bool" where
  "is_claimed (Claimed v) = True"
| "is_claimed (Relaxing v d es) = False"

fun act_todo :: "act \<Rightarrow> nat" where
  "act_todo (Claimed v) = 0"
| "act_todo (Relaxing v d es) = Suc (length es)"

definition ps_measure :: "'g graph_ops \<Rightarrow> 'g \<Rightarrow> psearch \<Rightarrow> nat \<times> nat \<times> nat \<times> nat" where
  "ps_measure G gr s = (nat (number_vertices G gr) - card (ps_X s), size (filter_mset is_claimed (ps_A s)),
     sum_mset (image_mset act_todo (ps_A s)), size (ps_Q s))"

definition ps_less :: "'g graph_ops \<Rightarrow> 'g \<Rightarrow> (psearch \<times> psearch) set" where
  "ps_less G gr = inv_image (less_than <*lex*> less_than <*lex*> less_than <*lex*> less_than) (ps_measure G gr)"

lemma wf_ps_less: "wf (ps_less G gr)"
  unfolding ps_less_def by (intro wf_inv_image wf_lex_prod wf_less_than)

context search_graph
begin

lemma astep_decreases:
  assumes gok: "ok gr" and pre: "par_pre G max_weight M gr src"
    and inv: "ps_inv G (max_weight gr) M gr src s" and st: "astep G gr s t"
  shows "(t, s) \<in> ps_less G gr"
  using st
proof (cases rule: astep.cases)
  case (claim v)
  have fin: "finite (ps_X s)" by (rule X_bounds(1)[OF inv pre])
  have "int (card (ps_X t)) \<le> number_vertices G gr" by (rule X_bounds(2)[OF astep_inv[OF gok pre inv st] pre])
  then have "Suc (card (ps_X s)) \<le> nat (number_vertices G gr)" using claim fin by (simp add: le_nat_iff)
  then show ?thesis using claim fin by (simp add: ps_less_def ps_measure_def)
next
  case (drop v)
  then have "ps_Q t = ps_Q s - {#v#}" "ps_X t = ps_X s" "ps_A t = ps_A s" "v \<in># ps_Q s" by simp_all
  then have "size (ps_Q t) < size (ps_Q s)" by (simp add: size_Diff1_less)
  then show ?thesis using \<open>ps_X t = ps_X s\<close> \<open>ps_A t = ps_A s\<close> by (simp add: ps_less_def ps_measure_def)
qed (simp_all add: ps_less_def ps_measure_def)

lemma astep_progress:
  assumes gok: "ok gr" and inv: "ps_inv G (max_weight gr) M gr src s" and work: "ps_Q s \<noteq> {#} \<or> ps_A s \<noteq> {#}"
  shows "\<exists>t. astep G gr s t"
proof (cases "ps_A s")
  case empty
  then obtain v where "v \<in># ps_Q s" using work by (auto simp: multiset_eq_iff count_eq_zero_iff[symmetric])
  then show ?thesis by (cases "v \<in> ps_X s") (blast intro: astep.drop astep.claim)+
next
  case (add a A)
  show ?thesis
  proof (cases a)
    case (Claimed v)
    then have "v \<in> ps_X s" using ps_invD(8)[OF inv, of a] add by simp
    then obtain l where "neighbor_list G gr v = Inr l" using neighbors_ok[OF gok] ps_invD(3,6)[OF inv] by blast
    then show ?thesis using astep.read[of s v A G gr l] add Claimed by blast
  next
    case (Relaxing v d es)
    show ?thesis
    proof (cases es)
      case Nil
      then show ?thesis using astep.close[of s v d A G gr] add Relaxing by blast
    next
      case (Cons e es')
      obtain x w where "e = (x, w)" by (cases e)
      then show ?thesis using astep.improve[of s v d x w es' A G gr] astep.keep[of s v d x w es' A G gr] add Relaxing Cons
        by blast
    qed
  qed
qed

text \<open>When nothing is queued and nothing is under way, everything reachable has been claimed.\<close>

lemma quiescent_complete:
  assumes inv: "ps_inv G (max_weight gr) M gr src s" and M: "0 < M" and e: "ps_Q s = {#}" "ps_A s = {#}"
    and p: "path G gr src v c"
  shows "v \<in> ps_X s"
proof (rule ccontr)
  assume "v \<notin> ps_X s"
  note i = ps_invD[OF inv]
  have X: "x \<in> ps_X s" if "ps_D s x < M" for x using i(7)[OF that] e by auto
  have "src \<in> ps_X s" using pred_treeD(1)[OF i(1)] M by (intro X) simp
  from path_leaves[OF p this \<open>v \<notin> ps_X s\<close>]
  obtain x y w where "x \<in> ps_X s" "edge G gr x y w" "y \<notin> ps_X s" by (elim exE conjE)
  then show False using i(10)[of x y w] X e by auto
qed

lemma claimed_path:
  assumes gok: "ok gr" and inv: "ps_inv G (max_weight gr) M gr src s" and v: "v \<in> ps_X s"
  shows "\<exists>c. tree_path (edge G gr) (ps_P s) src v c \<and> path G gr src v c \<and> 0 \<le> c \<and> c \<le> ps_D s v"
proof -
  have "\<exists>c. c \<le> ps_D s v \<and> tree_path (edge G gr) (ps_P s) src v c"
    by (rule pred_tree_cost[OF ps_invD(1)[OF inv] _ ps_invD(6)[OF inv v]]) (use edge_ok[OF gok] in blast)
  then obtain c where c: "c \<le> ps_D s v" "tree_path (edge G gr) (ps_P s) src v c" by blast
  then show ?thesis using path_ok[OF gok tree_path_path[OF c(2)]] tree_path_path[OF c(2)] by blast
qed

text \<open>A search that stops with the destination claimed returns a search tree that contains it.\<close>

lemma claimed_result:
  assumes inv: "ps_inv G (max_weight gr) M gr src s" and v: "dst \<in> ps_X s"
    and res: "\<And>v. \<lbrakk>0 \<le> v; v < number_vertices G gr\<rbrakk> \<Longrightarrow> res_g res v = Inr (ps_D s v) \<and> res_predecessor res v = Inr (ps_P s v)"
  shows "result_tree G M gr src dst res (ps_D s) (ps_P s)"
  using ps_invD(1,6)[OF inv] v res by (simp add: result_tree_def)

end

lemma trans_ps_less: "trans (ps_less G gr)"
  unfolding ps_less_def by (intro trans_inv_image trans_lex_prod trans_less_than)

context search_graph
begin

text \<open>A sequence of steps that does anything decreases the measure.\<close>

lemma asteps_decrease:
  assumes gok: "ok gr" and pre: "par_pre G max_weight M gr src"
    and inv: "ps_inv G (max_weight gr) M gr src s" and st: "asteps G gr s t"
  shows "t = s \<or> (t, s) \<in> ps_less G gr"
  using st
proof (induction rule: rtranclp_induct)
  case (step t u)
  have "(u, t) \<in> ps_less G gr"
    by (rule astep_decreases[OF gok pre asteps_inv[OF gok pre inv step.hyps(1)] step.hyps(2)])
  then show ?case using step.IH trans_ps_less[of G gr] by (auto dest: transD)
qed simp

lemma pre_par: "\<lbrakk>ok gr; search_pre G max_weight M h Hmax gr src\<rbrakk> \<Longrightarrow> par_pre G max_weight M gr src"
  using nonneg_size[of gr] by (auto simp: search_pre_def par_pre_def)

text \<open>A new distance and its priority fit the number type.\<close>

lemma prio_bounds:
  assumes gok: "ok gr" and pre: "search_pre G max_weight M h Hmax gr src"
    and inv: "ps_inv G (max_weight gr) M gr src s" and a: "Relaxing v d ((x, w) # es) \<in># ps_A s"
  shows "0 \<le> d + w" "d + w < M" "0 \<le> h x" "d + w + h x \<le> M" "0 \<le> x" "x < number_vertices G gr"
proof -
  note pp = pre_par[OF gok pre]
  note b = relaxing_bound[OF gok inv pp a]
  have "int (card (ps_X s)) \<le> number_vertices G gr" by (rule X_bounds(2)[OF inv pp])
  then have "max_weight gr * int (card (ps_X s)) \<le> max_weight gr * number_vertices G gr"
    using pre by (intro mult_left_mono) (auto simp: search_pre_def)
  then have "max_weight gr * int (card (ps_X s)) + Hmax < M" using pre by (simp add: search_pre_def mult.commute)
  moreover have "0 \<le> h x" "h x \<le> Hmax" using pre b(4) by (auto simp: search_pre_def)
  ultimately show "0 \<le> d + w" "d + w < M" "0 \<le> h x" "d + w + h x \<le> M" "0 \<le> x" "x < number_vertices G gr"
    using b by auto
qed

end

section \<open>Contracts of the parallel searches\<close>

definition nbrs_of :: "'g graph_ops \<Rightarrow> 'g \<Rightarrow> int \<Rightarrow> (int \<times> int) list" where
  "nbrs_of G gr v = (case neighbor_list G gr v of Inl e \<Rightarrow> [] | Inr l \<Rightarrow> l)"

text \<open>The frontier and the graph of a parallel search.\<close>

locale par_ctx = frontier_heap H invar entries + search_graph G ok max_weight
  for H :: "(int, 'h) heap_ops" and invar entries and G :: "'g graph_ops" and ok max_weight

end
