(* ===== verification/Parallel_While.thy ===== *)
theory Parallel_While
  imports Par_Search
begin

text \<open>
  The work-sharing loop \<open>parallel_while_pwsa\<close> of \<open>src/src/shared/parallel_while.hpp\<close>. Every worker
  owns a private frontier; a worker without work blocks its own request cell, writes its id into
  the request cell of another worker with a compare-and-swap and waits for the answer; a worker
  with work answers between two rounds of the body, handing over half of its frontier when that is
  large enough. One step of the model is one atomic action of one worker. The per-worker arrays are
  functions of the worker id. The operations of the client (\<open>Size_input\<close>, \<open>Fork_input\<close> and \<open>Body\<close>)
  are the fields of a record; the body runs in atomic steps of its own on the shared memory \<open>'m\<close>.
  The number of workers is arbitrary; with one worker the choice of another fails its assertion.
\<close>

section \<open>The program\<close>

definition REQUEST_BLOCKED :: int where
  "REQUEST_BLOCKED = -2"

definition REQUEST_WAITING :: int where
  "REQUEST_WAITING = -1"

datatype answer = ANSWER_WAITING | ANSWER_REJECTED | ANSWER_TRANSFERRED

definition SIZE_SPLIT :: int where
  "SIZE_SPLIT = 2"

record ('m, 'f, 'b) pw_client =
  cl_new :: 'f
  cl_size :: "nat \<Rightarrow> 'm \<Rightarrow> 'f \<Rightarrow> int \<times> 'm"
  cl_fork :: "nat \<Rightarrow> 'm \<Rightarrow> 'f \<Rightarrow> 'f \<Rightarrow> ('m \<times> 'f \<times> 'f) result"
  cl_start :: 'b
  cl_body :: "nat \<Rightarrow> 'm \<Rightarrow> 'f \<Rightarrow> 'b \<Rightarrow> ('m \<times> 'f \<times> ('b + bool)) result"

datatype 'b pw_pc =
    PLoop \<comment> \<open>line 40, the test of \<open>is_done\<close>\<close>
  | PSize \<comment> \<open>line 41\<close>
  | PBlock \<comment> \<open>line 46, the load\<close>
  | PBlockCas \<comment> \<open>line 49\<close>
  | PReject nat \<comment> \<open>line 53\<close>
  | PRejectAns nat \<comment> \<open>line 54\<close>
  | PAcquire \<comment> \<open>line 60, the test of \<open>is_done\<close>\<close>
  | PAskWait \<comment> \<open>line 61\<close>
  | PPick \<comment> \<open>lines 62 and 63\<close>
  | PAsk nat \<comment> \<open>line 68\<close>
  | PWait \<comment> \<open>line 72\<close>
  | PWaitDone \<comment> \<open>line 75\<close>
  | PAnswer \<comment> \<open>line 78\<close>
  | PSwap \<comment> \<open>lines 81 to 85\<close>
  | PRespond int \<comment> \<open>line 88, the load\<close>
  | PUnblock \<comment> \<open>line 89, the store\<close>
  | PFork nat \<comment> \<open>line 93\<close>
  | PSend nat \<comment> \<open>line 94\<close>
  | PRefuse nat \<comment> \<open>line 97\<close>
  | PReopen \<comment> \<open>line 99\<close>
  | PBody 'b \<comment> \<open>line 103, inside the body\<close>
  | PSetDone \<comment> \<open>line 105\<close>
  | PReturn \<comment> \<open>left the lambda\<close>

record ('m, 'f, 'b) pw =
  pw_mem :: 'm
  pw_frontiers :: "nat \<Rightarrow> 'f"
  pw_mine :: "nat \<Rightarrow> 'f"
  pw_requests :: "nat \<Rightarrow> int"
  pw_answers :: "nat \<Rightarrow> answer"
  pw_is_done :: bool
  pw_pc :: "nat \<Rightarrow> 'b pw_pc"

definition pgoto :: "nat \<Rightarrow> 'b pw_pc \<Rightarrow> ('m, 'f, 'b) pw \<Rightarrow> ('m, 'f, 'b) pw" where
  "pgoto i pc s = s\<lparr>pw_pc := (pw_pc s)(i := pc)\<rparr>"

definition set_request :: "nat \<Rightarrow> int \<Rightarrow> ('m, 'f, 'b) pw \<Rightarrow> ('m, 'f, 'b) pw" where
  "set_request i r s = s\<lparr>pw_requests := (pw_requests s)(i := r)\<rparr>"

definition set_answer :: "nat \<Rightarrow> answer \<Rightarrow> ('m, 'f, 'b) pw \<Rightarrow> ('m, 'f, 'b) pw" where
  "set_answer i a s = s\<lparr>pw_answers := (pw_answers s)(i := a)\<rparr>"

text \<open>
  \<open>random_other\<close> of \<open>src/src/pasl/parutil/worker.cpp\<close> for worker \<open>i\<close> of \<open>n\<close>, on the number \<open>rnd\<close> that \<open>myrand\<close> returns. With
  a single worker, the default of PASL, its assertion fails.
\<close>

definition random_other :: "nat \<Rightarrow> nat \<Rightarrow> nat \<Rightarrow> nat result" where
  "random_other n i rnd = ebind (eassert (n > 1)) (\<lambda>_. let id = rnd mod (n - 1) in Inr (if id \<ge> i then id + 1 else id))"

text \<open>One action of worker \<open>i\<close> of \<open>n\<close>; \<open>rnd\<close> is used at line 62 only.\<close>

definition pw_step ::
  "('m, 'f, 'b) pw_client \<Rightarrow> nat \<Rightarrow> nat \<Rightarrow> nat \<Rightarrow> ('m, 'f, 'b) pw \<Rightarrow> ('m, 'f, 'b) pw result" where
  "pw_step cl n rnd i s = (case pw_pc s i of
       PLoop \<Rightarrow> Inr (pgoto i (if pw_is_done s then PReturn else PSize) s)
     | PSize \<Rightarrow> (case cl_size cl i (pw_mem s) (pw_mine s i) of (sz, m) \<Rightarrow>
         if sz = 0 then Inr (pgoto i PBlock (s\<lparr>pw_mem := m\<rparr>))
         else ebind (eassert (sz > 0)) (\<lambda>_. Inr (pgoto i (PRespond sz) (s\<lparr>pw_mem := m\<rparr>))))
     | PBlock \<Rightarrow> (let r = pw_requests s i in
         Inr (pgoto i (if r = REQUEST_BLOCKED then PAcquire else if r = REQUEST_WAITING then PBlockCas
                       else PReject (nat r)) s))
     | PBlockCas \<Rightarrow>
         if pw_requests s i = REQUEST_WAITING then Inr (pgoto i PAcquire (set_request i REQUEST_BLOCKED s))
         else Inr (pgoto i PBlock s)
     | PReject j \<Rightarrow> Inr (pgoto i (PRejectAns j) (set_request i REQUEST_BLOCKED s))
     | PRejectAns j \<Rightarrow> Inr (pgoto i PAcquire (set_answer j ANSWER_REJECTED s))
     | PAcquire \<Rightarrow> Inr (pgoto i (if pw_is_done s then PSwap else PAskWait) s)
     | PAskWait \<Rightarrow> Inr (pgoto i PPick (set_answer i ANSWER_WAITING s))
     | PPick \<Rightarrow> ebind (random_other n i rnd) (\<lambda>other.
         Inr (pgoto i (if pw_requests s other \<noteq> REQUEST_WAITING then PAcquire else PAsk other) s))
     | PAsk j \<Rightarrow>
         if pw_requests s j = REQUEST_WAITING then Inr (pgoto i PWait (set_request j (int i) s))
         else Inr (pgoto i PAcquire s)
     | PWait \<Rightarrow> Inr (pgoto i (if pw_answers s i = ANSWER_WAITING then PWaitDone else PAnswer) s)
     | PWaitDone \<Rightarrow> Inr (pgoto i (if pw_is_done s then PReturn else PWait) s)
     | PAnswer \<Rightarrow> Inr (pgoto i (if pw_answers s i = ANSWER_TRANSFERRED then PSwap else PAcquire) s)
     | PSwap \<Rightarrow> (let f = pw_frontiers s i;
                    s = s\<lparr>pw_frontiers := (pw_frontiers s)(i := pw_mine s i), pw_mine := (pw_mine s)(i := f)\<rparr> in
         case cl_size cl i (pw_mem s) f of (sz, m) \<Rightarrow>
         ebind (eassert (sz > 0)) (\<lambda>_. Inr (pgoto i (PRespond sz) (s\<lparr>pw_mem := m\<rparr>))))
     | PRespond sz \<Rightarrow> (let r = pw_requests s i in
         Inr (pgoto i (if r = REQUEST_BLOCKED then PUnblock
                       else if r \<ge> 0 then (if sz = SIZE_SPLIT then PFork (nat r) else PRefuse (nat r))
                       else PBody (cl_start cl)) s))
     | PUnblock \<Rightarrow> Inr (pgoto i (PBody (cl_start cl)) (set_request i REQUEST_WAITING s))
     | PFork j \<Rightarrow> ebind (cl_fork cl i (pw_mem s) (pw_mine s i) (pw_frontiers s j)) (\<lambda>(m, f, g).
         Inr (pgoto i (PSend j) (s\<lparr>pw_mem := m, pw_mine := (pw_mine s)(i := f), pw_frontiers := (pw_frontiers s)(j := g)\<rparr>)))
     | PSend j \<Rightarrow> Inr (pgoto i PReopen (set_answer j ANSWER_TRANSFERRED s))
     | PRefuse j \<Rightarrow> Inr (pgoto i PReopen (set_answer j ANSWER_REJECTED s))
     | PReopen \<Rightarrow> Inr (pgoto i (PBody (cl_start cl)) (set_request i REQUEST_WAITING s))
     | PBody b \<Rightarrow> ebind (cl_body cl i (pw_mem s) (pw_mine s i) b) (\<lambda>(m, f, r).
         Inr (pgoto i (case r of Inl b \<Rightarrow> PBody b | Inr found_dst \<Rightarrow> if found_dst then PSetDone else PLoop)
               (s\<lparr>pw_mem := m, pw_mine := (pw_mine s)(i := f)\<rparr>)))
     | PSetDone \<Rightarrow> Inr (pgoto i PReturn (s\<lparr>pw_is_done := True\<rparr>))
     | PReturn \<Rightarrow> Inr s)"

text \<open>The answer cells are not initialised: \<open>ans\<close> is whatever they hold.\<close>

definition pw_start :: "('m, 'f, 'b) pw_client \<Rightarrow> 'm \<Rightarrow> 'f \<Rightarrow> nat \<Rightarrow> (nat \<Rightarrow> answer) \<Rightarrow> ('m, 'f, 'b) pw" where
  "pw_start cl m input leader ans =
     \<lparr>pw_mem = m, pw_frontiers = (\<lambda>i. cl_new cl), pw_mine = (\<lambda>i. if i = leader then input else cl_new cl),
      pw_requests = (\<lambda>i. if i = leader then REQUEST_WAITING else REQUEST_BLOCKED), pw_answers = ans,
      pw_is_done = False, pw_pc = (\<lambda>i. PLoop)\<rparr>"

text \<open>All schedules of \<open>n\<close> workers, with all random numbers.\<close>

inductive pw_reach ::
  "('m, 'f, 'b) pw_client \<Rightarrow> nat \<Rightarrow> ('m, 'f, 'b) pw \<Rightarrow> ('m, 'f, 'b) pw \<Rightarrow> bool" for cl n s0 where
  pw_reach_start: "pw_reach cl n s0 s0"
| pw_reach_step: "\<lbrakk>pw_reach cl n s0 s; i < n; pw_step cl n rnd i s = Inr t\<rbrakk> \<Longrightarrow> pw_reach cl n s0 t"

definition pw_finished :: "nat \<Rightarrow> ('m, 'f, 'b) pw \<Rightarrow> bool" where
  "pw_finished n s \<longleftrightarrow> (\<forall>i < n. pw_pc s i = PReturn)"

section \<open>The protocol invariant\<close>

text \<open>Worker \<open>i\<close> owes worker \<open>j\<close> an answer.\<close>

definition owes_answer :: "('m, 'f, 'b) pw \<Rightarrow> nat \<Rightarrow> nat \<Rightarrow> bool" where
  "owes_answer s i j \<longleftrightarrow> pw_requests s i = int j \<and> pw_pc s i \<noteq> PReopen \<or> pw_pc s i = PRejectAns j"

fun acquiring :: "'b pw_pc \<Rightarrow> bool" where
  "acquiring PBlock = True" | "acquiring PBlockCas = True" | "acquiring (PReject j) = True"
| "acquiring (PRejectAns j) = True" | "acquiring PAcquire = True" | "acquiring PAskWait = True"
| "acquiring PPick = True" | "acquiring (PAsk j) = True" | "acquiring PWait = True" | "acquiring PWaitDone = True"
| "acquiring PAnswer = True" | "acquiring PSwap = True" | "acquiring _ = False"

fun blocked_pc :: "'b pw_pc \<Rightarrow> bool" where
  "blocked_pc (PRejectAns j) = True" | "blocked_pc PAcquire = True" | "blocked_pc PAskWait = True"
| "blocked_pc PPick = True" | "blocked_pc (PAsk j) = True" | "blocked_pc PWait = True" | "blocked_pc PWaitDone = True"
| "blocked_pc PAnswer = True" | "blocked_pc PSwap = True" | "blocked_pc PUnblock = True" | "blocked_pc _ = False"

fun serving :: "'b pw_pc \<Rightarrow> nat option" where
  "serving (PReject j) = Some j" | "serving (PFork j) = Some j" | "serving (PSend j) = Some j"
| "serving (PRefuse j) = Some j" | "serving _ = None"

fun waiting_pc :: "'b pw_pc \<Rightarrow> bool" where
  "waiting_pc PWait = True" | "waiting_pc PWaitDone = True" | "waiting_pc _ = False"

text \<open>What one worker can say of its own program counter, frontier, request and answer cell, and slot.\<close>

definition local_ok ::
  "('f \<Rightarrow> bool) \<Rightarrow> ('f \<Rightarrow> bool) \<Rightarrow> nat \<Rightarrow> bool \<Rightarrow> nat \<Rightarrow> 'b pw_pc \<Rightarrow> 'f \<Rightarrow> int \<Rightarrow> answer \<Rightarrow> 'f \<Rightarrow> bool" where
  "local_ok emp splittable n d i pc mine req ans slot \<longleftrightarrow>
     (acquiring pc \<longrightarrow> emp mine) \<and> (blocked_pc pc \<longrightarrow> req = REQUEST_BLOCKED) \<and>
     (\<forall>j. serving pc = Some j \<longrightarrow> req = int j) \<and> (pc = PReopen \<longrightarrow> 0 \<le> req) \<and>
     (req = REQUEST_BLOCKED \<or> req = REQUEST_WAITING \<or> (\<exists>j < n. j \<noteq> i \<and> req = int j)) \<and>
     (pc = PPick \<longrightarrow> ans = ANSWER_WAITING) \<and> (\<forall>k. pc = PAsk k \<longrightarrow> ans = ANSWER_WAITING \<and> k < n \<and> k \<noteq> i) \<and>
     (pc = PAnswer \<longrightarrow> ans \<noteq> ANSWER_WAITING) \<and>
     (ans = ANSWER_TRANSFERRED \<and> (waiting_pc pc \<or> pc = PAnswer) \<longrightarrow> \<not> emp slot) \<and>
     (pc = PSwap \<longrightarrow> \<not> emp slot \<or> d) \<and>
     (\<forall>sz. pc = PRespond sz \<longrightarrow> 0 < sz \<and> (sz = SIZE_SPLIT \<longrightarrow> splittable mine)) \<and>
     (\<forall>j. pc = PFork j \<longrightarrow> splittable mine)"

lemma local_okD:
  assumes "local_ok emp splittable n d i pc mine req ans slot"
  shows "acquiring pc \<Longrightarrow> emp mine" "blocked_pc pc \<Longrightarrow> req = REQUEST_BLOCKED" "serving pc = Some j \<Longrightarrow> req = int j"
    "pc = PReopen \<Longrightarrow> 0 \<le> req" "req = REQUEST_BLOCKED \<or> req = REQUEST_WAITING \<or> (\<exists>j < n. j \<noteq> i \<and> req = int j)"
    "pc = PPick \<Longrightarrow> ans = ANSWER_WAITING" "pc = PAsk k \<Longrightarrow> ans = ANSWER_WAITING \<and> k < n \<and> k \<noteq> i"
    "pc = PAnswer \<Longrightarrow> ans \<noteq> ANSWER_WAITING" "\<lbrakk>ans = ANSWER_TRANSFERRED; waiting_pc pc \<or> pc = PAnswer\<rbrakk> \<Longrightarrow> \<not> emp slot"
    "pc = PSwap \<Longrightarrow> \<not> emp slot \<or> d" "pc = PRespond sz \<Longrightarrow> 0 < sz \<and> (sz = SIZE_SPLIT \<longrightarrow> splittable mine)"
    "pc = PFork j \<Longrightarrow> splittable mine"
  using assms unfolding local_ok_def by (elim conjE, simp)+

abbreviation worker_ok :: "('f \<Rightarrow> bool) \<Rightarrow> ('f \<Rightarrow> bool) \<Rightarrow> nat \<Rightarrow> ('m, 'f, 'b) pw \<Rightarrow> nat \<Rightarrow> bool" where
  "worker_ok emp splittable n s i \<equiv> local_ok emp splittable n (pw_is_done s) i (pw_pc s i) (pw_mine s i)
     (pw_requests s i) (pw_answers s i) (pw_frontiers s i)"

text \<open>A debtor's creditor waits, its answer cell is open and its slot empty until the debtor fills it.\<close>

definition owed_ok :: "('f \<Rightarrow> bool) \<Rightarrow> nat \<Rightarrow> ('m, 'f, 'b) pw \<Rightarrow> nat \<Rightarrow> nat \<Rightarrow> bool" where
  "owed_ok emp n s i j \<longleftrightarrow> j < n \<and> j \<noteq> i \<and> (waiting_pc (pw_pc s j) \<or> pw_pc s j = PReturn) \<and>
     pw_answers s j = ANSWER_WAITING \<and> (emp (pw_frontiers s j) \<longleftrightarrow> pw_pc s i \<noteq> PSend j)"

definition slot_ok :: "('f \<Rightarrow> bool) \<Rightarrow> nat \<Rightarrow> ('m, 'f, 'b) pw \<Rightarrow> nat \<Rightarrow> bool" where
  "slot_ok emp n s j \<longleftrightarrow> emp (pw_frontiers s j) \<or>
     pw_answers s j = ANSWER_TRANSFERRED \<and> (waiting_pc (pw_pc s j) \<or> pw_pc s j \<in> {PAnswer, PSwap, PReturn}) \<or>
     (\<exists>i < n. pw_pc s i = PSend j)"

definition proto :: "('f \<Rightarrow> bool) \<Rightarrow> ('f \<Rightarrow> bool) \<Rightarrow> nat \<Rightarrow> ('m, 'f, 'b) pw \<Rightarrow> bool" where
  "proto emp splittable n s \<longleftrightarrow>
     (\<forall>i < n. worker_ok emp splittable n s i) \<and>
     (\<forall>i < n. \<forall>j. owes_answer s i j \<longrightarrow> owed_ok emp n s i j) \<and>
     (\<forall>i < n. \<forall>i' < n. \<forall>j. owes_answer s i j \<and> owes_answer s i' j \<longrightarrow> i = i') \<and>
     (\<forall>j < n. waiting_pc (pw_pc s j) \<and> pw_answers s j = ANSWER_WAITING \<longrightarrow> (\<exists>i < n. owes_answer s i j)) \<and>
     (\<forall>j < n. slot_ok emp n s j)"

lemma protoD:
  assumes "proto emp splittable n s"
  shows "i < n \<Longrightarrow> worker_ok emp splittable n s i"
    "\<lbrakk>i < n; owes_answer s i j\<rbrakk> \<Longrightarrow> owed_ok emp n s i j"
    "\<lbrakk>i < n; i' < n; owes_answer s i j; owes_answer s i' j\<rbrakk> \<Longrightarrow> i = i'"
    "\<lbrakk>j < n; waiting_pc (pw_pc s j); pw_answers s j = ANSWER_WAITING\<rbrakk> \<Longrightarrow> \<exists>i < n. owes_answer s i j"
    "j < n \<Longrightarrow> slot_ok emp n s j"
  using assms unfolding proto_def by blast+

lemma protoI:
  assumes "\<And>i. i < n \<Longrightarrow> worker_ok emp splittable n s i"
    "\<And>i j. \<lbrakk>i < n; owes_answer s i j\<rbrakk> \<Longrightarrow> owed_ok emp n s i j"
    "\<And>i i' j. \<lbrakk>i < n; i' < n; owes_answer s i j; owes_answer s i' j\<rbrakk> \<Longrightarrow> i = i'"
    "\<And>j. \<lbrakk>j < n; waiting_pc (pw_pc s j); pw_answers s j = ANSWER_WAITING\<rbrakk> \<Longrightarrow> \<exists>i < n. owes_answer s i j"
    "\<And>j. j < n \<Longrightarrow> slot_ok emp n s j"
  shows "proto emp splittable n s"
  using assms unfolding proto_def by blast

lemmas upd_defs = pgoto_def set_request_def set_answer_def owes_answer_def REQUEST_BLOCKED_def REQUEST_WAITING_def SIZE_SPLIT_def

lemma proto_start:
  assumes "emp (cl_new cl)" "leader < n"
  shows "proto emp splittable n (pw_start cl m input leader ans)"
proof (rule protoI, goal_cases)
  case (1 i)
  then show ?case using assms by (simp add: pw_start_def local_ok_def)
qed (use assms in \<open>auto simp: pw_start_def upd_defs slot_ok_def split: if_splits\<close>)

text \<open>A worker that is not waiting is owed nothing and nobody is about to transfer to it.\<close>

lemma not_owed:
  assumes p: "proto emp splittable n s" and i: "\<not> waiting_pc (pw_pc s i)" "pw_pc s i \<noteq> PReturn" and k: "k < n"
  shows "\<not> owes_answer s k i" "pw_pc s k \<noteq> PSend i"
proof -
  show no: "\<not> owes_answer s k i" using protoD(2)[OF p k, of i] i by (auto simp: owed_ok_def)
  show "pw_pc s k \<noteq> PSend i"
  proof
    assume "pw_pc s k = PSend i"
    then have "owes_answer s k i" using local_okD(3)[OF protoD(1)[OF p k], of i] by (simp add: owes_answer_def)
    then show False using no by simp
  qed
qed

lemma empty_slot:
  assumes p: "proto emp splittable n s" and i: "i < n" "\<not> waiting_pc (pw_pc s i)" "pw_pc s i \<noteq> PReturn"
    and a: "pw_answers s i \<noteq> ANSWER_TRANSFERRED \<or> pw_pc s i \<noteq> PAnswer \<and> pw_pc s i \<noteq> PSwap"
  shows "emp (pw_frontiers s i)"
  using protoD(5)[OF p i(1)] not_owed(2)[OF p i(2,3)] i a by (auto simp: slot_ok_def)

lemma local_mono:
  "\<lbrakk>local_ok emp splittable n d i pc mine req ans slot; d \<longrightarrow> d'\<rbrakk> \<Longrightarrow> local_ok emp splittable n d' i pc mine req ans slot"
  unfolding local_ok_def by (elim conjE, intro conjI) simp_all

lemma slot_keep:
  assumes "slot_ok emp n s j" "pw_frontiers t j = pw_frontiers s j" "\<And>k. pw_pc s k = PSend j \<Longrightarrow> pw_pc t k = PSend j"
    and "\<lbrakk>\<not> emp (pw_frontiers s j); pw_answers s j = ANSWER_TRANSFERRED; waiting_pc (pw_pc s j) \<or> pw_pc s j \<in> {PAnswer, PSwap, PReturn}\<rbrakk> \<Longrightarrow>
      pw_answers t j = ANSWER_TRANSFERRED \<and> (waiting_pc (pw_pc t j) \<or> pw_pc t j \<in> {PAnswer, PSwap, PReturn})"
  shows "slot_ok emp n t j"
proof (cases "\<exists>k < n. pw_pc s k = PSend j")
  case True
  then show ?thesis using assms(3) unfolding slot_ok_def by blast
next
  case False
  then show ?thesis using assms(1,2,4) unfolding slot_ok_def by metis
qed

text \<open>A step of worker \<open>i\<close> that leaves all debts as they are.\<close>

lemma proto_same_debts:
  assumes p: "proto emp splittable n s" and i: "i < n"
    and debts: "\<And>k j. owes_answer t k j = owes_answer s k j"
    and pcs: "pw_pc t = (pw_pc s)(i := pc)" "\<And>j. pw_pc s i \<noteq> PSend j" "\<And>j. pc \<noteq> PSend j"
    and own: "worker_ok emp splittable n t i"
    and others: "\<And>k. k \<noteq> i \<Longrightarrow> pw_mine t k = pw_mine s k" "\<And>k. k \<noteq> i \<Longrightarrow> pw_requests t k = pw_requests s k"
      "pw_answers t = pw_answers s" "\<And>k. k \<noteq> i \<Longrightarrow> pw_frontiers t k = pw_frontiers s k" "pw_is_done s \<longrightarrow> pw_is_done t"
    and wait: "waiting_pc pc \<or> pc = PReturn \<or> \<not> waiting_pc (pw_pc s i) \<and> pw_pc s i \<noteq> PReturn \<or> pw_answers s i \<noteq> ANSWER_WAITING"
      "waiting_pc pc \<Longrightarrow> waiting_pc (pw_pc s i)"
    and slot: "emp (pw_frontiers t i) \<or> pw_frontiers t i = pw_frontiers s i \<and> (waiting_pc pc \<or> pc \<in> {PAnswer, PSwap, PReturn})"
      "pw_frontiers t i = pw_frontiers s i \<or> \<not> waiting_pc (pw_pc s i) \<and> pw_pc s i \<noteq> PReturn"
  shows "proto emp splittable n t"
proof (rule protoI, goal_cases)
  case (1 k)
  show ?case
  proof (cases "k = i")
    case False
    then show ?thesis using local_mono[OF protoD(1)[OF p 1]] others pcs(1) by simp
  qed (use own in simp)
next
  case (2 k j)
  from protoD(2)[OF p 2(1) 2(2)[unfolded debts]] have o: "owed_ok emp n s k j" .
  then have ji: "j = i \<Longrightarrow> pw_frontiers t i = pw_frontiers s i \<and> (waiting_pc pc \<or> pc = PReturn)"
    using wait(1) slot(2) by (auto simp: owed_ok_def)
  have "(pw_pc t k = PSend j) = (pw_pc s k = PSend j)" using pcs by simp
  then show ?case using o ji others(3,4) pcs(1) by (cases "j = i") (auto simp: owed_ok_def)
next
  case (3 k k' j)
  then show ?case using protoD(3)[OF p 3(1,2)] by (simp add: debts)
next
  case (4 j)
  then have "waiting_pc (pw_pc s j)" "pw_answers s j = ANSWER_WAITING" using wait(2) others(3) pcs(1) by (auto split: if_splits)
  then show ?case using protoD(4)[OF p 4(1)] by (simp add: debts)
next
  case (5 j)
  show ?case
  proof (cases "j = i \<and> emp (pw_frontiers t i)")
    case True
    then show ?thesis by (simp add: slot_ok_def)
  next
    case False
    then have "pw_frontiers t j = pw_frontiers s j" using slot(1) others(4) by (cases "j = i") auto
    then show ?thesis
      by (rule slot_keep[OF protoD(5)[OF p 5]]) (use False slot(1) others(3) pcs in \<open>auto split: if_splits\<close>)
  qed
qed

lemma proto_move:
  assumes p: "proto emp splittable n s" and i: "i < n"
    and u: "pw_pc u = pw_pc s" "pw_requests u = pw_requests s" "pw_answers u = pw_answers s" "pw_frontiers u = pw_frontiers s"
      "\<And>k. k \<noteq> i \<Longrightarrow> pw_mine u k = pw_mine s k" "pw_is_done s \<longrightarrow> pw_is_done u"
    and own: "local_ok emp splittable n (pw_is_done u) i pc (pw_mine u i) (pw_requests u i) (pw_answers u i) (pw_frontiers u i)"
    and pcs: "\<And>j. pw_pc s i \<noteq> PSend j" "\<And>j. pc \<noteq> PSend j" "pw_pc s i \<noteq> PReopen" "pc \<noteq> PReopen"
      "\<And>j. pw_pc s i \<noteq> PRejectAns j" "\<And>j. pc \<noteq> PRejectAns j"
    and wait: "waiting_pc pc \<or> pc = PReturn \<or> \<not> waiting_pc (pw_pc s i) \<and> pw_pc s i \<noteq> PReturn \<or> pw_answers s i \<noteq> ANSWER_WAITING"
      "waiting_pc pc \<Longrightarrow> waiting_pc (pw_pc s i)"
    and slot: "emp (pw_frontiers s i) \<or> waiting_pc pc \<or> pc \<in> {PAnswer, PSwap, PReturn}"
  shows "proto emp splittable n (pgoto i pc u)"
proof (rule proto_same_debts[OF p i])
  show "owes_answer (pgoto i pc u) k j = owes_answer s k j" for k j
    using u(1,2) pcs by (auto simp: owes_answer_def pgoto_def)
qed (use u own pcs wait slot in \<open>auto simp: pgoto_def\<close>)


section \<open>Every step keeps the protocol\<close>

text \<open>The moves that change no shared cell.\<close>

lemma local_move:
  assumes w: "local_ok emp splittable n d i pc mine req ans slot"
    and "acquiring pc' \<Longrightarrow> emp mine" "blocked_pc pc' \<Longrightarrow> req = REQUEST_BLOCKED" "\<And>j. serving pc' = Some j \<Longrightarrow> req = int j"
      "pc' = PReopen \<Longrightarrow> 0 \<le> req" "pc' = PPick \<Longrightarrow> ans = ANSWER_WAITING"
      "\<And>k. pc' = PAsk k \<Longrightarrow> ans = ANSWER_WAITING \<and> k < n \<and> k \<noteq> i" "pc' = PAnswer \<Longrightarrow> ans \<noteq> ANSWER_WAITING"
      "\<lbrakk>ans = ANSWER_TRANSFERRED; waiting_pc pc' \<or> pc' = PAnswer\<rbrakk> \<Longrightarrow> \<not> emp slot"
      "pc' = PSwap \<Longrightarrow> \<not> emp slot \<or> d" "\<And>sz. pc' = PRespond sz \<Longrightarrow> 0 < sz \<and> (sz = SIZE_SPLIT \<longrightarrow> splittable mine)"
      "\<And>j. pc' = PFork j \<Longrightarrow> splittable mine"
  shows "local_ok emp splittable n d i pc' mine req ans slot"
  unfolding local_ok_def using assms(2-) local_okD(5)[OF w] by (intro conjI) simp_all

text \<open>What a worker knows at each program counter.\<close>

lemma proto_local:
  assumes p: "proto emp splittable n s" and i: "i < n"
  shows "local_ok emp splittable n (pw_is_done s) i (pw_pc s i) (pw_mine s i) (pw_requests s i) (pw_answers s i) (pw_frontiers s i)"
    "\<lbrakk>\<not> waiting_pc (pw_pc s i); pw_pc s i \<noteq> PReturn; pw_pc s i \<noteq> PAnswer; pw_pc s i \<noteq> PSwap\<rbrakk> \<Longrightarrow> emp (pw_frontiers s i)"
    "\<lbrakk>pw_pc s i = PAnswer; pw_answers s i \<noteq> ANSWER_TRANSFERRED\<rbrakk> \<Longrightarrow> emp (pw_frontiers s i)"
    "0 \<le> pw_requests s i \<Longrightarrow> pw_requests s i = int (nat (pw_requests s i)) \<and> nat (pw_requests s i) < n"
    "\<lbrakk>pw_requests s i \<noteq> REQUEST_BLOCKED; pw_requests s i \<noteq> REQUEST_WAITING\<rbrakk> \<Longrightarrow> 0 \<le> pw_requests s i"
proof -
  show w: "worker_ok emp splittable n s i" by (rule protoD(1)[OF p i])
  show "0 \<le> pw_requests s i \<Longrightarrow> pw_requests s i = int (nat (pw_requests s i)) \<and> nat (pw_requests s i) < n"
    "\<lbrakk>pw_requests s i \<noteq> REQUEST_BLOCKED; pw_requests s i \<noteq> REQUEST_WAITING\<rbrakk> \<Longrightarrow> 0 \<le> pw_requests s i"
    using local_okD(5)[OF w] by (auto simp: REQUEST_BLOCKED_def REQUEST_WAITING_def)
qed (use empty_slot[OF p i] in auto)

lemma proto_goto:
  assumes p: "proto emp splittable n s" and i: "i < n"
    and old: "\<And>j. pw_pc s i \<noteq> PSend j" "pw_pc s i \<noteq> PReopen" "\<And>j. pw_pc s i \<noteq> PRejectAns j"
    and new: "\<And>j. pc \<noteq> PSend j" "pc \<noteq> PReopen" "\<And>j. pc \<noteq> PRejectAns j"
    and wait: "waiting_pc pc \<or> pc = PReturn \<or> \<not> waiting_pc (pw_pc s i) \<and> pw_pc s i \<noteq> PReturn \<or> pw_answers s i \<noteq> ANSWER_WAITING"
      "waiting_pc pc \<Longrightarrow> waiting_pc (pw_pc s i)"
    and slot: "emp (pw_frontiers s i) \<or> waiting_pc pc \<or> pc \<in> {PAnswer, PSwap, PReturn}"
    and loc: "acquiring pc \<Longrightarrow> emp (pw_mine s i)" "blocked_pc pc \<Longrightarrow> pw_requests s i = REQUEST_BLOCKED"
      "\<And>j. serving pc = Some j \<Longrightarrow> pw_requests s i = int j" "pc = PPick \<Longrightarrow> pw_answers s i = ANSWER_WAITING"
      "\<And>k. pc = PAsk k \<Longrightarrow> pw_answers s i = ANSWER_WAITING \<and> k < n \<and> k \<noteq> i" "pc = PAnswer \<Longrightarrow> pw_answers s i \<noteq> ANSWER_WAITING"
      "\<lbrakk>pw_answers s i = ANSWER_TRANSFERRED; waiting_pc pc \<or> pc = PAnswer\<rbrakk> \<Longrightarrow> \<not> emp (pw_frontiers s i)"
      "pc = PSwap \<Longrightarrow> \<not> emp (pw_frontiers s i) \<or> pw_is_done s"
      "\<And>sz. pc = PRespond sz \<Longrightarrow> 0 < sz \<and> (sz = SIZE_SPLIT \<longrightarrow> splittable (pw_mine s i))" "\<And>j. pc = PFork j \<Longrightarrow> splittable (pw_mine s i)"
  shows "proto emp splittable n (pgoto i pc s)"
  by (rule proto_move[OF p i _ _ _ _ _ _ local_move[OF protoD(1)[OF p i]]]) (use old new wait slot loc in simp_all)

lemma random_other_ok: "\<lbrakk>random_other n i rnd = Inr j; i < n\<rbrakk> \<Longrightarrow> j < n \<and> j \<noteq> i"
proof -
  assume a: "random_other n i rnd = Inr j" "i < n"
  then have n: "1 < n" and j: "j = (if rnd mod (n - 1) \<ge> i then rnd mod (n - 1) + 1 else rnd mod (n - 1))"
    by (auto simp: random_other_def Let_def result_simps)
  have "rnd mod (n - 1) < n - 1" using n by simp
  then show ?thesis using j by (cases "rnd mod (n - 1) \<ge> i") auto
qed

lemma proto_idle_moves:
  assumes p: "proto emp splittable n s" and i: "i < n"
    and step: "pw_step cl n rnd i s = Inr t"
    and pc: "pw_pc s i \<in> {PLoop, PBlock, PAcquire, PPick, PWait, PWaitDone, PAnswer, PSetDone, PReturn} \<or> (\<exists>sz. pw_pc s i = PRespond sz)"
  shows "proto emp splittable n t"
proof -
  note w = proto_local[OF p i]
  note k = local_okD[OF w(1)]
  from pc consider "pw_pc s i = PLoop" | "pw_pc s i = PBlock" | "pw_pc s i = PAcquire" | "pw_pc s i = PPick" | "pw_pc s i = PWait"
    | "pw_pc s i = PWaitDone" | "pw_pc s i = PAnswer" | "pw_pc s i = PSetDone" | "pw_pc s i = PReturn" | (r) sz where "pw_pc s i = PRespond sz"
    by auto
  then show ?thesis
  proof cases
    case 1
    then have t: "t = pgoto i (if pw_is_done s then PReturn else PSize) s" using step by (simp add: pw_step_def)
    show ?thesis unfolding t by (cases "pw_is_done s"; simp; rule proto_goto[OF p i]; use w k 1 in simp)
  next
    case 2
    then have t: "t = pgoto i (if pw_requests s i = REQUEST_BLOCKED then PAcquire else if pw_requests s i = REQUEST_WAITING then PBlockCas
                       else PReject (nat (pw_requests s i))) s" using step by (simp add: pw_step_def Let_def)
    show ?thesis unfolding t by (cases "pw_requests s i = REQUEST_BLOCKED"; cases "pw_requests s i = REQUEST_WAITING"; simp; rule proto_goto[OF p i]; use w k 2 in simp)
  next
    case 3
    then have t: "t = pgoto i (if pw_is_done s then PSwap else PAskWait) s" using step by (simp add: pw_step_def)
    show ?thesis unfolding t by (cases "pw_is_done s"; simp; rule proto_goto[OF p i]; use w k 3 in simp)
  next
    case 4
    then obtain j where j: "random_other n i rnd = Inr j" "t = pgoto i (if pw_requests s j \<noteq> REQUEST_WAITING then PAcquire else PAsk j) s"
      using step by (auto simp: pw_step_def result_simps)
    note o = random_other_ok[OF j(1) i]
    show ?thesis unfolding j(2) by (cases "pw_requests s j = REQUEST_WAITING"; simp; rule proto_goto[OF p i]; use w k o 4 in simp)
  next
    case 5
    then have t: "t = pgoto i (if pw_answers s i = ANSWER_WAITING then PWaitDone else PAnswer) s" using step by (simp add: pw_step_def)
    show ?thesis unfolding t by (cases "pw_answers s i = ANSWER_WAITING"; simp; rule proto_goto[OF p i]; use w k 5 in simp)
  next
    case 6
    then have t: "t = pgoto i (if pw_is_done s then PReturn else PWait) s" using step by (simp add: pw_step_def)
    show ?thesis unfolding t by (cases "pw_is_done s"; simp; rule proto_goto[OF p i]; use w k 6 in simp)
  next
    case 7
    then have t: "t = pgoto i (if pw_answers s i = ANSWER_TRANSFERRED then PSwap else PAcquire) s" using step by (simp add: pw_step_def)
    show ?thesis unfolding t by (cases "pw_answers s i = ANSWER_TRANSFERRED"; simp; rule proto_goto[OF p i]; use w k 7 in simp)
  next
    case 8
    then have t: "t = pgoto i PReturn (s\<lparr>pw_is_done := True\<rparr>)" using step by (simp add: pw_step_def)
    have "local_ok emp splittable n True i PReturn (pw_mine s i) (pw_requests s i) (pw_answers s i) (pw_frontiers s i)"
      by (rule local_move[OF local_mono[OF w(1)]]) simp_all
    then show ?thesis unfolding t by (intro proto_move[OF p i]) (use 8 in simp_all)
  next
    case 9
    then show ?thesis using step p by (simp add: pw_step_def)
  next
    case (r sz)
    then have t: "t = pgoto i (if pw_requests s i = REQUEST_BLOCKED then PUnblock
                       else if pw_requests s i \<ge> 0 then (if sz = SIZE_SPLIT then PFork (nat (pw_requests s i)) else PRefuse (nat (pw_requests s i)))
                       else PBody (cl_start cl)) s" using step by (simp add: pw_step_def Let_def)
    show ?thesis unfolding t by (cases "pw_requests s i = REQUEST_BLOCKED"; cases "pw_requests s i \<ge> 0"; cases "sz = SIZE_SPLIT"; simp; rule proto_goto[OF p i]; use w k r in simp)
  qed
qed


lemma proto_mem [simp]: "proto emp splittable n (s\<lparr>pw_mem := m\<rparr>) = proto emp splittable n s"
  by (simp add: proto_def owes_answer_def owed_ok_def slot_ok_def)

text \<open>The stores to the worker's own request cell.\<close>

lemma proto_own_request:
  assumes p: "proto emp splittable n s" and i: "i < n" and step: "pw_step cl n rnd i s = Inr t"
    and pc: "pw_pc s i \<in> {PBlockCas, PUnblock, PReopen} \<or> (\<exists>j. pw_pc s i = PReject j)"
  shows "proto emp splittable n t"
proof -
  note w = proto_local[OF p i]
  note k = local_okD[OF w(1)]
  have blocked: "proto emp splittable n (pgoto i pc' (set_request i r s))"
    if new: "\<And>j. owes_answer (pgoto i pc' (set_request i r s)) i j = owes_answer s i j" "\<And>j. pc' \<noteq> PSend j" "\<not> waiting_pc pc'"
      and old: "\<not> waiting_pc (pw_pc s i)" "pw_pc s i \<noteq> PReturn" "\<And>j. pw_pc s i \<noteq> PSend j" "emp (pw_frontiers s i)"
      and loc: "local_ok emp splittable n (pw_is_done s) i pc' (pw_mine s i) r (pw_answers s i) (pw_frontiers s i)" for pc' r
  proof (rule proto_same_debts[OF p i])
    show "owes_answer (pgoto i pc' (set_request i r s)) k j = owes_answer s k j" for k j
      using new(1) by (cases "k = i") (simp_all add: owes_answer_def pgoto_def set_request_def)
  qed (use new old loc in \<open>auto simp: pgoto_def set_request_def\<close>)
  from pc consider "pw_pc s i = PBlockCas" | "pw_pc s i = PUnblock" | "pw_pc s i = PReopen" | (r) j where "pw_pc s i = PReject j"
    by auto
  then show ?thesis
  proof cases
    case 1
    show ?thesis
    proof (cases "pw_requests s i = REQUEST_WAITING")
      case True
      then have t: "t = pgoto i PAcquire (set_request i REQUEST_BLOCKED s)" using step 1 by (simp add: pw_step_def)
      show ?thesis unfolding t using True 1 w k by (intro blocked) (auto simp: upd_defs local_ok_def)
    next
      case False
      then have t: "t = pgoto i PBlock s" using step 1 by (simp add: pw_step_def)
      show ?thesis unfolding t by (rule proto_goto[OF p i]) (use w k 1 in simp_all)
    qed
  next
    case 2
    then have t: "t = pgoto i (PBody (cl_start cl)) (set_request i REQUEST_WAITING s)" using step by (simp add: pw_step_def)
    show ?thesis unfolding t using 2 w k by (intro blocked) (auto simp: upd_defs local_ok_def)
  next
    case 3
    then have t: "t = pgoto i (PBody (cl_start cl)) (set_request i REQUEST_WAITING s)" using step by (simp add: pw_step_def)
    show ?thesis unfolding t using 3 w k by (intro blocked) (auto simp: upd_defs local_ok_def)
  next
    case (r j)
    then have t: "t = pgoto i (PRejectAns j) (set_request i REQUEST_BLOCKED s)" using step by (simp add: pw_step_def)
    show ?thesis unfolding t using r w(2) k(1,3) by (intro blocked) (auto simp: upd_defs local_ok_def)
  qed
qed

text \<open>The stores to answer cells: the own cell before a request, and the cell of the creditor.\<close>

lemma proto_ask_wait:
  assumes p: "proto emp splittable n s" and i: "i < n" and pc: "pw_pc s i = PAskWait"
  shows "proto emp splittable n (pgoto i PPick (set_answer i ANSWER_WAITING s))"
    (is "proto _ _ _ ?t")
proof -
  note w = proto_local[OF p i]
  note no = not_owed[OF p, of i]
  have debts: "owes_answer ?t k j = owes_answer s k j" for k j
    using pc by (simp add: owes_answer_def pgoto_def set_answer_def)
  show ?thesis
  proof (rule protoI, goal_cases)
    case (1 k)
    show ?case
    proof (cases "k = i")
      case True
      have "local_ok emp splittable n (pw_is_done s) i PPick (pw_mine s i) (pw_requests s i) ANSWER_WAITING (pw_frontiers s i)"
        using local_okD[OF w(1)] pc by (auto simp: local_ok_def)
      then show ?thesis using True by (simp add: pgoto_def set_answer_def)
    qed (use protoD(1)[OF p 1] in \<open>simp add: pgoto_def set_answer_def\<close>)
  next
    case (2 k j)
    then have "owed_ok emp n s k j" using protoD(2)[OF p 2(1)] debts by blast
    then show ?case using pc by (auto simp: owed_ok_def pgoto_def set_answer_def)
  next
    case (3 k k' j)
    then show ?case using protoD(3)[OF p 3(1,2)] debts by blast
  next
    case (4 j)
    then have "j \<noteq> i" by (auto simp: pgoto_def)
    with 4 show ?case using protoD(4)[OF p 4(1)] unfolding debts by (simp add: pgoto_def set_answer_def)
  next
    case (5 j)
    show ?case
    proof (cases "j = i")
      case True
      then show ?thesis using w(2) pc by (simp add: slot_ok_def pgoto_def set_answer_def)
    next
      case False
      show ?thesis by (rule slot_keep[OF protoD(5)[OF p 5]]) (use pc False in \<open>auto simp: pgoto_def set_answer_def\<close>)
    qed
  qed
qed


text \<open>A successful request makes the asked worker a debtor.\<close>

lemma proto_ask:
  assumes p: "proto emp splittable n s" and i: "i < n" and pc: "pw_pc s i = PAsk j" and free: "pw_requests s j = REQUEST_WAITING"
  shows "proto emp splittable n (pgoto i PWait (set_request j (int i) s))" (is "proto _ _ _ ?t")
proof -
  note w = proto_local[OF p i]
  from local_okD(7)[OF w(1) pc] have j: "j < n" "j \<noteq> i" and a: "pw_answers s i = ANSWER_WAITING" by auto
  note wj = proto_local[OF p j(1)]
  note kj = local_okD[OF wj(1)]
  have "serving (pw_pc s j) = None" using kj(3) free by (cases "serving (pw_pc s j)") (simp_all add: upd_defs)
  then have pj: "pw_pc s j \<noteq> PReopen" "\<not> blocked_pc (pw_pc s j)" "serving (pw_pc s j) = None" "\<And>l. \<not> owes_answer s j l"
    using kj(2,4) free by (auto simp: upd_defs)
  have none: "\<not> owes_answer s k i" "pw_pc s k \<noteq> PSend i" if "k < n" for k using not_owed[OF p _ _ that] pc by simp_all
  have slot: "emp (pw_frontiers s i)" using w(2) pc by simp
  have debts: "owes_answer ?t k l \<longleftrightarrow> k = j \<and> l = i \<or> k \<noteq> j \<and> owes_answer s k l" if "k < n" for k l
    using pj j pc by (auto simp: owes_answer_def pgoto_def set_request_def)
  show ?thesis
  proof (rule protoI, goal_cases)
    case (1 k)
    consider "k = i" | "k = j" | "k \<noteq> i" "k \<noteq> j" by blast
    then show ?case
    proof cases
      case 1
      have "local_ok emp splittable n (pw_is_done s) i PWait (pw_mine s i) (pw_requests s i) (pw_answers s i) (pw_frontiers s i)"
        using local_okD[OF w(1)] pc a by (intro local_move[OF w(1)]) simp_all
      then show ?thesis using 1 j by (simp add: pgoto_def set_request_def)
    next
      case 2
      have "local_ok emp splittable n (pw_is_done s) j (pw_pc s j) (pw_mine s j) (int i) (pw_answers s j) (pw_frontiers s j)"
        using wj(1) pj(1-3) i j(2) unfolding local_ok_def by (elim conjE, intro conjI) auto
      then show ?thesis using 2 j by (simp add: pgoto_def set_request_def)
    qed (use protoD(1)[OF p 1] in \<open>simp add: pgoto_def set_request_def\<close>)
  next
    case (2 k l)
    show ?case
    proof (cases "k = j")
      case True
      then show ?thesis using 2 debts[OF 2(1)] i j a slot none(2)[OF j(1)] by (auto simp: owed_ok_def pgoto_def set_request_def)
    next
      case False
      then have o: "owes_answer s k l" using 2 debts[OF 2(1)] by simp
      then have "l \<noteq> i" using none(1)[OF 2(1)] by blast
      then show ?thesis using protoD(2)[OF p 2(1) o] pc by (auto simp: owed_ok_def pgoto_def set_request_def)
    qed
  next
    case (3 k k' l)
    then show ?case using protoD(3)[OF p 3(1,2)] none(1) by (auto simp: debts)
  next
    case (4 l)
    show ?case
    proof (cases "l = i")
      case True
      then show ?thesis using debts[OF j(1)] j(1) by blast
    next
      case False
      then obtain k where "k < n" "owes_answer s k l" using protoD(4)[OF p 4(1)] 4 by (auto simp: pgoto_def set_request_def)
      moreover from this have "k \<noteq> j" using pj(4) by blast
      ultimately show ?thesis using debts by blast
    qed
  next
    case (5 l)
    show ?case by (rule slot_keep[OF protoD(5)[OF p 5]]) (use pc in \<open>auto simp: pgoto_def set_request_def\<close>)
  qed
qed

text \<open>An answer settles the debt.\<close>

lemma local_answer:
  assumes w: "local_ok emp splittable n d j pc mine req ans slot" and pc: "waiting_pc pc \<or> pc = PReturn"
    and f: "ans' = ANSWER_TRANSFERRED \<longrightarrow> \<not> emp slot"
  shows "local_ok emp splittable n d j pc mine req ans' slot"
proof -
  from pc have "pc = PWait \<or> pc = PWaitDone \<or> pc = PReturn" by (cases pc) simp_all
  then show ?thesis using f local_okD(1,2,5)[OF w] by (elim disjE) (simp_all add: local_ok_def)
qed

lemma proto_answer:
  assumes p: "proto emp splittable n s" and i: "i < n" and a: "a \<noteq> ANSWER_WAITING"
    and debt: "\<And>l. owes_answer s i l \<longleftrightarrow> l = j"
    and new: "pc = PReopen \<and> serving (pw_pc s i) = Some j \<or> pc = PAcquire \<and> pw_pc s i = PRejectAns j"
    and send: "a = ANSWER_TRANSFERRED \<longleftrightarrow> pw_pc s i = PSend j" and old: "\<And>l. pw_pc s i = PSend l \<Longrightarrow> l = j"
      "\<not> waiting_pc (pw_pc s i)" "pw_pc s i \<notin> {PAnswer, PSwap, PReturn}"
  shows "proto emp splittable n (pgoto i pc (set_answer j a s))" (is "proto _ _ _ ?t")
proof -
  note w = proto_local[OF p i]
  have o: "owes_answer s i j" using debt by simp
  have oj: "owed_ok emp n s i j" by (rule protoD(2)[OF p i o])
  then have j: "j < n" "j \<noteq> i" "waiting_pc (pw_pc s j) \<or> pw_pc s j = PReturn" by (simp_all add: owed_ok_def)
  have debts: "owes_answer ?t k l \<longleftrightarrow> k \<noteq> i \<and> owes_answer s k l" for k l
    using new local_okD(2)[OF w(1)] by (auto simp: upd_defs)
  have filled: "a = ANSWER_TRANSFERRED \<longrightarrow> \<not> emp (pw_frontiers s j)" using oj send by (simp add: owed_ok_def)
  have uniq: "k = i" if "k < n" "owes_answer s k j" for k using protoD(3)[OF p that(1) i that(2) o] .
  show ?thesis
  proof (rule protoI, goal_cases)
    case (1 k)
    consider "k = i" | "k = j" | "k \<noteq> i" "k \<noteq> j" by blast
    then show ?case
    proof cases
      case 1
      have "local_ok emp splittable n (pw_is_done s) i pc (pw_mine s i) (pw_requests s i) (pw_answers s i) (pw_frontiers s i)"
        using local_okD[OF w(1)] new by (intro local_move[OF w(1)]) auto
      then show ?thesis using 1 j by (simp add: pgoto_def set_answer_def)
    next
      case 2
      have "local_ok emp splittable n (pw_is_done s) j (pw_pc s j) (pw_mine s j) (pw_requests s j) a (pw_frontiers s j)"
        by (rule local_answer[OF protoD(1)[OF p j(1)] j(3)]) (use filled in simp)
      then show ?thesis using 2 j by (simp add: pgoto_def set_answer_def)
    qed (use protoD(1)[OF p 1] in \<open>simp add: pgoto_def set_answer_def\<close>)
  next
    case (2 k l)
    then have k: "k \<noteq> i" "owes_answer s k l" by (simp_all add: debts)
    then have "l \<noteq> j" using uniq[OF 2(1)] by blast
    moreover have "l = i \<Longrightarrow> False" using protoD(2)[OF p 2(1) k(2)] old by (auto simp: owed_ok_def)
    ultimately show ?case using protoD(2)[OF p 2(1) k(2)] k(1) by (auto simp: owed_ok_def pgoto_def set_answer_def)
  next
    case (3 k k' l)
    then show ?case using protoD(3)[OF p 3(1,2)] debts by blast
  next
    case (4 l)
    then have "l \<noteq> j" "l \<noteq> i" using a new by (auto simp: pgoto_def set_answer_def)
    with 4 obtain k where k: "k < n" "owes_answer s k l" using protoD(4)[OF p 4(1)] by (auto simp: pgoto_def set_answer_def)
    then have "k \<noteq> i" using debt \<open>l \<noteq> j\<close> by blast
    then show ?case using k debts by blast
  next
    case (5 l)
    show ?case
    proof (cases "l = j")
      case True
      moreover have "emp (pw_frontiers s j) \<or> a = ANSWER_TRANSFERRED" using oj send by (simp add: owed_ok_def)
      ultimately show ?thesis using j by (cases "emp (pw_frontiers s j)") (auto simp: slot_ok_def pgoto_def set_answer_def)
    next
      case False
      then have "pw_pc s i \<noteq> PSend l" using old(1) by blast
      then show ?thesis by (intro slot_keep[OF protoD(5)[OF p 5]]) (use False old in \<open>auto simp: pgoto_def set_answer_def\<close>)
    qed
  qed
qed

lemma proto_answers:
  assumes p: "proto emp splittable n s" and i: "i < n" and step: "pw_step cl n rnd i s = Inr t"
    and pc: "pw_pc s i = PRejectAns j \<or> pw_pc s i = PSend j \<or> pw_pc s i = PRefuse j"
  shows "proto emp splittable n t"
proof -
  note k = local_okD[OF protoD(1)[OF p i]]
  have debt: "owes_answer s i l \<longleftrightarrow> l = j" for l using pc k(2) k(3)[of j] by (auto simp: upd_defs)
  from pc step have "t = pgoto i PAcquire (set_answer j ANSWER_REJECTED s) \<and> pw_pc s i = PRejectAns j \<or>
    t = pgoto i PReopen (set_answer j ANSWER_TRANSFERRED s) \<and> pw_pc s i = PSend j \<or>
    t = pgoto i PReopen (set_answer j ANSWER_REJECTED s) \<and> pw_pc s i = PRefuse j"
    by (auto simp: pw_step_def)
  then show ?thesis
    by (elim disjE conjE; hypsubst; intro proto_answer[OF p i _ debt]) simp_all
qed


text \<open>A transfer fills the slot of the creditor.\<close>

lemma proto_fork:
  assumes p: "proto emp splittable n s" and i: "i < n" and pc: "pw_pc s i = PFork j" and g: "\<not> emp g"
  shows "proto emp splittable n (pgoto i (PSend j) (s\<lparr>pw_mine := (pw_mine s)(i := f), pw_frontiers := (pw_frontiers s)(j := g)\<rparr>))"
    (is "proto _ _ _ ?t")
proof -
  note w = proto_local[OF p i]
  note k = local_okD[OF w(1)]
  have debts: "owes_answer ?t k l \<longleftrightarrow> owes_answer s k l" for k l using pc by (auto simp: owes_answer_def pgoto_def)
  have o: "owes_answer s i j" using pc k(3)[of j] by (simp add: owes_answer_def)
  have oj: "owed_ok emp n s i j" by (rule protoD(2)[OF p i o])
  then have j: "j < n" "j \<noteq> i" "waiting_pc (pw_pc s j) \<or> pw_pc s j = PReturn" by (simp_all add: owed_ok_def)
  show ?thesis
  proof (rule protoI, goal_cases)
    case (1 k')
    consider "k' = i" | "k' = j" | "k' \<noteq> i" "k' \<noteq> j" by blast
    then show ?case
    proof cases
      case 1
      have "local_ok emp splittable n (pw_is_done s) i (PSend j) f (pw_requests s i) (pw_answers s i) (pw_frontiers s i)"
        using k(3)[of j] k(5) pc by (simp add: local_ok_def)
      then show ?thesis using 1 j by (simp add: pgoto_def)
    next
      case 2
      from j(3) have "pw_pc s j = PWait \<or> pw_pc s j = PWaitDone \<or> pw_pc s j = PReturn" by (cases "pw_pc s j") simp_all
      then have "local_ok emp splittable n (pw_is_done s) j (pw_pc s j) (pw_mine s j) (pw_requests s j) (pw_answers s j) g"
        using local_okD(1,2,5)[OF protoD(1)[OF p j(1)]] g by (elim disjE) (simp_all add: local_ok_def)
      then show ?thesis using 2 j by (simp add: pgoto_def)
    qed (use protoD(1)[OF p 1] in \<open>simp add: pgoto_def\<close>)
  next
    case (2 k' l)
    then have o': "owes_answer s k' l" by (simp add: debts)
    show ?case
    proof (cases "k' = i")
      case True
      then have "l = j" using o' pc k(3)[of j] by (auto simp: owes_answer_def)
      then show ?thesis using oj True g by (simp add: owed_ok_def pgoto_def)
    next
      case False
      then have l: "l \<noteq> j" "l \<noteq> i" using protoD(3)[OF p 2(1) i o'] o not_owed(1)[OF p _ _ 2(1), of i] o' pc by auto
      then show ?thesis using protoD(2)[OF p 2(1) o'] False by (simp add: owed_ok_def pgoto_def)
    qed
  next
    case (3 k' k'' l)
    then show ?case using protoD(3)[OF p 3(1,2)] debts by blast
  next
    case (4 l)
    then show ?case using protoD(4)[OF p 4(1)] unfolding debts by (auto simp: pgoto_def split: if_splits)
  next
    case (5 l)
    show ?case
    proof (cases "l = j")
      case True
      then show ?thesis using i by (auto simp: slot_ok_def pgoto_def)
    next
      case False
      then show ?thesis by (intro slot_keep[OF protoD(5)[OF p 5]]) (use pc False in \<open>auto simp: pgoto_def\<close>)
    qed
  qed
qed

text \<open>Taking the transferred frontier out of the slot.\<close>

lemma proto_swap:
  assumes p: "proto emp splittable n s" and i: "i < n" and pc: "pw_pc s i = PSwap"
    and sz: "0 < sz" "sz = SIZE_SPLIT \<Longrightarrow> splittable (pw_frontiers s i)"
  shows "proto emp splittable n (pgoto i (PRespond sz)
    (s\<lparr>pw_frontiers := (pw_frontiers s)(i := pw_mine s i), pw_mine := (pw_mine s)(i := pw_frontiers s i)\<rparr>))"
proof -
  note k = local_okD[OF protoD(1)[OF p i]]
  have e: "emp (pw_mine s i)" using k(1) pc by simp
  have loc: "local_ok emp splittable n d i (PRespond sz) (pw_frontiers s i) (pw_requests s i) (pw_answers s i) (pw_mine s i)" for d
    using k(5) sz by (simp add: local_ok_def)
  show ?thesis
    by (rule proto_same_debts[OF p i]) (use pc e loc in \<open>auto simp: pgoto_def owes_answer_def\<close>)
qed

text \<open>A round of the body.\<close>

lemma proto_body:
  assumes p: "proto emp splittable n s" and i: "i < n" and pc: "pw_pc s i = PBody b"
    and pc': "pc' = PLoop \<or> pc' = PSetDone \<or> (\<exists>b'. pc' = PBody b')"
  shows "proto emp splittable n (pgoto i pc' (s\<lparr>pw_mine := (pw_mine s)(i := f)\<rparr>))"
proof -
  note w = proto_local[OF p i]
  have "local_ok emp splittable n (pw_is_done s) i pc' f (pw_requests s i) (pw_answers s i) (pw_frontiers s i)"
    using pc' local_okD(5)[OF w(1)] by (elim disjE exE) (simp_all add: local_ok_def)
  then show ?thesis by (intro proto_move[OF p i]) (use pc pc' w(2) in auto)
qed

lemma proto_size:
  assumes p: "proto emp splittable n s" and i: "i < n" and pc: "pw_pc s i = PSize"
    and sz: "sz = 0 \<longleftrightarrow> emp (pw_mine s i)" "sz = SIZE_SPLIT \<Longrightarrow> splittable (pw_mine s i)" "0 \<le> sz"
  shows "proto emp splittable n (pgoto i (if sz = 0 then PBlock else PRespond sz) s)"
  by (cases "sz = 0"; simp; rule proto_goto[OF p i]; use pc sz proto_local[OF p i] in simp)


section \<open>The contract of the client\<close>

text \<open>
  The client keeps an invariant over the shared memory, the frontiers of all workers (those in
  use and those in transfer slots) and the bodies that are running; the loop never duplicates or
  loses a frontier, so the invariant is stated over multisets. \<open>goal\<close> is what a body that returns
  \<open>true\<close> has established.
\<close>

fun body_of :: "'b pw_pc \<Rightarrow> 'b multiset" where
  "body_of (PBody b) = {#b#}"
| "body_of _ = {#}"

definition all_frontiers :: "nat \<Rightarrow> ('m, 'f, 'b) pw \<Rightarrow> 'f multiset" where
  "all_frontiers n s = (\<Sum>k<n. {#pw_mine s k#}) + (\<Sum>k<n. {#pw_frontiers s k#})"

definition all_bodies :: "nat \<Rightarrow> ('m, 'f, 'b) pw \<Rightarrow> 'b multiset" where
  "all_bodies n s = (\<Sum>k<n. body_of (pw_pc s k))"

lemma sum_worker:
  fixes f :: "nat \<Rightarrow> 'a :: comm_monoid_add"
  assumes "i < n"
  shows "(\<Sum>k<n. f k) = f i + (\<Sum>k \<in> {..<n} - {i}. f k)"
  using assms by (simp add: sum.remove)

lemma sum_others: "(\<And>k. k \<noteq> i \<Longrightarrow> f k = g k) \<Longrightarrow> (\<Sum>k \<in> {..<n} - {i}. f k) = (\<Sum>k \<in> {..<n} - {i}. g k)"
  by (rule sum.cong) auto

lemma sum_upd: "(i :: nat) < n \<Longrightarrow> (\<Sum>k<n. {#if k = i then f else h k#}) = add_mset f (\<Sum>k \<in> {..<n} - {i}. {#h k#})"
  using sum_worker[of i n "\<lambda>k. {#if k = i then f else h k#}"]
    sum_others[of i "\<lambda>k. {#if k = i then f else h k#}" "\<lambda>k. {#h k#}" n] by simp

lemma bodies_goto:
  assumes "i < n" "pw_pc u = pw_pc s"
  shows "all_bodies n (pgoto i pc u) + body_of (pw_pc s i) = all_bodies n s + body_of pc"
proof -
  have "(\<Sum>k \<in> {..<n} - {i}. body_of (pw_pc (pgoto i pc u) k)) = (\<Sum>k \<in> {..<n} - {i}. body_of (pw_pc s k))"
    using assms(2) by (intro sum_others) (simp add: pgoto_def)
  then show ?thesis using assms by (simp add: all_bodies_def sum_worker[of i] pgoto_def)
qed

lemma frontiers_own:
  assumes "i < n"
  shows "all_frontiers n s = add_mset (pw_mine s i) ((\<Sum>k \<in> {..<n} - {i}. {#pw_mine s k#}) + (\<Sum>k<n. {#pw_frontiers s k#}))"
  using assms by (simp add: all_frontiers_def sum_worker[of i n "\<lambda>k. {#pw_mine s k#}"])

lemma frontiers_swap:
  assumes "i < n"
  shows "all_frontiers n (s\<lparr>pw_frontiers := (pw_frontiers s)(i := pw_mine s i), pw_mine := (pw_mine s)(i := pw_frontiers s i)\<rparr>) = all_frontiers n s"
proof -
  have "all_frontiers n s = add_mset (pw_mine s i) (\<Sum>k \<in> {..<n} - {i}. {#pw_mine s k#}) + add_mset (pw_frontiers s i) (\<Sum>k \<in> {..<n} - {i}. {#pw_frontiers s k#})"
    using assms by (simp add: all_frontiers_def sum_worker[of i])
  then show ?thesis using assms by (simp add: all_frontiers_def[of n "s\<lparr>pw_frontiers := f, pw_mine := g\<rparr>" for f g] sum_upd)
qed

text \<open>The frontier of worker \<open>i\<close> and the slot of worker \<open>j\<close>, split off from all others.\<close>

definition other_frontiers :: "nat \<Rightarrow> nat \<Rightarrow> nat \<Rightarrow> ('m, 'f, 'b) pw \<Rightarrow> 'f multiset" where
  "other_frontiers n i j s = (\<Sum>k \<in> {..<n} - {i}. {#pw_mine s k#}) + (\<Sum>k \<in> {..<n} - {j}. {#pw_frontiers s k#})"

lemma frontiers_pair:
  assumes "i < n" "j < n"
  shows "all_frontiers n s = add_mset (pw_mine s i) (add_mset (pw_frontiers s j) (other_frontiers n i j s))"
    "all_frontiers n (s\<lparr>pw_mine := (pw_mine s)(i := f), pw_frontiers := (pw_frontiers s)(j := g)\<rparr>) =
      add_mset f (add_mset g (other_frontiers n i j s))"
proof -
  show "all_frontiers n s = add_mset (pw_mine s i) (add_mset (pw_frontiers s j) (other_frontiers n i j s))"
    using assms by (simp add: all_frontiers_def other_frontiers_def sum_worker[of i n "\<lambda>k. {#pw_mine s k#}"]
        sum_worker[of j n "\<lambda>k. {#pw_frontiers s k#}"])
  show "all_frontiers n (s\<lparr>pw_mine := (pw_mine s)(i := f), pw_frontiers := (pw_frontiers s)(j := g)\<rparr>) =
      add_mset f (add_mset g (other_frontiers n i j s))"
    using assms by (simp add: all_frontiers_def other_frontiers_def sum_upd)
qed

lemma frontiers_mem [simp]: "all_frontiers n (s\<lparr>pw_mem := m\<rparr>) = all_frontiers n s" "all_frontiers n (pgoto i pc s) = all_frontiers n s"
  "all_frontiers n (set_request i r s) = all_frontiers n s" "all_frontiers n (set_answer i a s) = all_frontiers n s"
  by (simp_all add: all_frontiers_def pgoto_def set_request_def set_answer_def)

lemma own_frontier: "i < n \<Longrightarrow> pw_mine s i \<in># all_frontiers n s" "i < n \<Longrightarrow> pw_frontiers s i \<in># all_frontiers n s"
  using frontiers_pair(1)[of i n i s] by simp_all

definition done_ok :: "('m \<Rightarrow> bool) \<Rightarrow> nat \<Rightarrow> ('m, 'f, 'b) pw \<Rightarrow> bool" where
  "done_ok goal n s \<longleftrightarrow> (\<forall>k<n. pw_pc s k = PReturn \<longrightarrow> pw_is_done s) \<and>
     (pw_is_done s \<or> (\<exists>k<n. pw_pc s k = PSetDone) \<longrightarrow> goal (pw_mem s))"

locale pw_work =
  fixes cl :: "('m, 'f, 'b) pw_client" and n :: nat and emp splittable :: "'f \<Rightarrow> bool"
    and J :: "'m \<Rightarrow> 'f multiset \<Rightarrow> 'b multiset \<Rightarrow> bool" and goal :: "'m \<Rightarrow> bool"
  assumes new_emp: "emp (cl_new cl)"
    and size_law: "\<lbrakk>i < n; J m F B; f \<in># F; cl_size cl i m f = (sz, m')\<rbrakk> \<Longrightarrow>
      J m' F B \<and> 0 \<le> sz \<and> (sz = 0 \<longleftrightarrow> emp f) \<and> (sz = SIZE_SPLIT \<longrightarrow> splittable f) \<and> (goal m \<longrightarrow> goal m')"
    and fork_law: "\<lbrakk>i < n; J m (add_mset f (add_mset g F)) B; emp g; splittable f\<rbrakk> \<Longrightarrow>
      \<exists>m' f' g'. cl_fork cl i m f g = Inr (m', f', g') \<and> \<not> emp g' \<and> J m' (add_mset f' (add_mset g' F)) B \<and> (goal m \<longrightarrow> goal m')"
    and start_law: "J m F B \<Longrightarrow> J m F (add_mset (cl_start cl) B)"
    and body_law: "\<lbrakk>i < n; J m (add_mset f F) (add_mset b B)\<rbrakk> \<Longrightarrow>
      \<exists>m' f' r. cl_body cl i m f b = Inr (m', f', r) \<and> (goal m \<longrightarrow> goal m') \<and>
        (case r of Inl b' \<Rightarrow> J m' (add_mset f' F) (add_mset b' B) | Inr found \<Rightarrow> J m' (add_mset f' F) B \<and> (found \<longrightarrow> goal m'))"
begin

definition pw_inv :: "('m, 'f, 'b) pw \<Rightarrow> bool" where
  "pw_inv s \<longleftrightarrow> proto emp splittable n s \<and> J (pw_mem s) (all_frontiers n s) (all_bodies n s) \<and> done_ok goal n s"

lemma pw_invD:
  assumes "pw_inv s"
  shows "proto emp splittable n s" "J (pw_mem s) (all_frontiers n s) (all_bodies n s)" "done_ok goal n s"
  using assms by (simp_all add: pw_inv_def)

lemma inv_start:
  assumes "leader < n" "J m (all_frontiers n (pw_start cl m input leader ans)) {#}"
  shows "pw_inv (pw_start cl m input leader ans)"
  unfolding pw_inv_def
  using proto_start[of emp cl leader n splittable m input ans] new_emp assms by (simp add: all_bodies_def pw_start_def done_ok_def)

text \<open>Moves that leave memory, frontiers and running bodies alone.\<close>

lemma inv_quiet:
  assumes inv: "pw_inv s" and p: "proto emp splittable n t" and t: "t = pgoto i pc u" "i < n"
    and u: "pw_mem u = pw_mem s" "pw_pc u = pw_pc s" "all_frontiers n u = all_frontiers n s" "pw_is_done u = pw_is_done s"
    and b: "body_of pc = body_of (pw_pc s i) \<or> pc = PBody (cl_start cl) \<and> body_of (pw_pc s i) = {#}"
    and pc: "pc \<noteq> PSetDone" "pc = PReturn \<Longrightarrow> pw_is_done s"
  shows "pw_inv t"
proof -
  have "all_bodies n t = all_bodies n s \<or> all_bodies n t = add_mset (cl_start cl) (all_bodies n s)"
    using bodies_goto[OF t(2) u(2), of pc] b t(1) by auto
  then have "J (pw_mem t) (all_frontiers n t) (all_bodies n t)"
    using pw_invD(2)[OF inv] start_law[OF pw_invD(2)[OF inv]] t(1) u by (auto simp: pgoto_def all_frontiers_def)
  moreover have "done_ok goal n t" using pw_invD(3)[OF inv] t u pc by (auto simp: done_ok_def pgoto_def)
  ultimately show ?thesis using p by (simp add: pw_inv_def)
qed

end


context pw_work
begin

lemma goal_mono: "\<lbrakk>done_ok goal n s; goal (pw_mem s) \<longrightarrow> goal m\<rbrakk> \<Longrightarrow> done_ok goal n (s\<lparr>pw_mem := m\<rparr>)"
  by (auto simp: done_ok_def)

text \<open>The steps that call the client.\<close>

lemma inv_size:
  assumes inv: "pw_inv s" and i: "i < n" and pc: "pw_pc s i = PSize"
  shows "\<exists>t. pw_step cl n rnd i s = Inr t \<and> pw_inv t"
proof -
  obtain sz m where m: "cl_size cl i (pw_mem s) (pw_mine s i) = (sz, m)" by fastforce
  note law = size_law[OF i pw_invD(2)[OF inv] own_frontier(1)[OF i] m]
  let ?t = "pgoto i (if sz = 0 then PBlock else PRespond sz) (s\<lparr>pw_mem := m\<rparr>)"
  have "pw_step cl n rnd i s = Inr ?t" using pc m law by (cases "sz = 0") (simp_all add: pw_step_def)
  moreover have "proto emp splittable n ?t"
    using law by (intro proto_size[where s = "s\<lparr>pw_mem := m\<rparr>"]) (use pw_invD(1)[OF inv] i pc in simp_all)
  moreover have "J (pw_mem ?t) (all_frontiers n ?t) (all_bodies n ?t)"
    using law bodies_goto[OF i, of "s\<lparr>pw_mem := m\<rparr>" s "if sz = 0 then PBlock else PRespond sz"] pc by (simp add: pgoto_def all_frontiers_def split: if_splits)
  moreover have "done_ok goal n ?t" using pw_invD(3)[OF inv] law by (auto simp: done_ok_def pgoto_def)
  ultimately show ?thesis by (auto simp: pw_inv_def)
qed

lemma inv_swap:
  assumes inv: "pw_inv s" and i: "i < n" and pc: "pw_pc s i = PSwap" and ne: "\<not> emp (pw_frontiers s i)"
  shows "\<exists>t. pw_step cl n rnd i s = Inr t \<and> pw_inv t"
proof -
  let ?u = "s\<lparr>pw_frontiers := (pw_frontiers s)(i := pw_mine s i), pw_mine := (pw_mine s)(i := pw_frontiers s i)\<rparr>"
  obtain sz m where m: "cl_size cl i (pw_mem s) (pw_frontiers s i) = (sz, m)" by fastforce
  note law = size_law[OF i pw_invD(2)[OF inv] own_frontier(2)[OF i] m]
  let ?t = "pgoto i (PRespond sz) (?u\<lparr>pw_mem := m\<rparr>)"
  have sz: "0 < sz" using law ne by auto
  have "pw_step cl n rnd i s = Inr ?t" using pc m sz by (simp add: pw_step_def Let_def)
  moreover have "?t = (pgoto i (PRespond sz) ?u)\<lparr>pw_mem := m\<rparr>" by (simp add: pgoto_def)
  then have "proto emp splittable n ?t"
    using proto_swap[OF pw_invD(1)[OF inv] i pc sz] law by (simp only: proto_mem)
  moreover have "all_frontiers n ?t = all_frontiers n s" using frontiers_swap[OF i, of s] by (simp add: all_frontiers_def pgoto_def)
  then have "J (pw_mem ?t) (all_frontiers n ?t) (all_bodies n ?t)"
    using law bodies_goto[OF i, of "?u\<lparr>pw_mem := m\<rparr>" s "PRespond sz"] pc by (simp add: pgoto_def)
  moreover have "done_ok goal n ?t" using pw_invD(3)[OF inv] law by (auto simp: done_ok_def pgoto_def)
  ultimately show ?thesis by (auto simp: pw_inv_def)
qed

lemma inv_fork:
  assumes inv: "pw_inv s" and i: "i < n" and pc: "pw_pc s i = PFork j"
  shows "\<exists>t. pw_step cl n rnd i s = Inr t \<and> pw_inv t"
proof -
  note p = pw_invD(1)[OF inv]
  have "owes_answer s i j" using pc local_okD(3)[OF protoD(1)[OF p i], of j] by (simp add: owes_answer_def)
  then have "owed_ok emp n s i j" by (rule protoD(2)[OF p i])
  then have j: "j < n" "emp (pw_frontiers s j)" using pc by (simp_all add: owed_ok_def)
  have sp: "splittable (pw_mine s i)" using local_okD(12)[OF protoD(1)[OF p i] pc] .
  obtain m f g where law: "cl_fork cl i (pw_mem s) (pw_mine s i) (pw_frontiers s j) = Inr (m, f, g)" "\<not> emp g"
    "J m (add_mset f (add_mset g (other_frontiers n i j s))) (all_bodies n s)" "goal (pw_mem s) \<longrightarrow> goal m"
    using fork_law[OF i pw_invD(2)[OF inv, unfolded frontiers_pair(1)[OF i j(1)]] j(2) sp] by (elim exE conjE)
  let ?u = "s\<lparr>pw_mine := (pw_mine s)(i := f), pw_frontiers := (pw_frontiers s)(j := g)\<rparr>"
  let ?t = "pgoto i (PSend j) (?u\<lparr>pw_mem := m\<rparr>)"
  have "pw_step cl n rnd i s = Inr ?t" using pc law(1) by (simp add: pw_step_def pgoto_def)
  moreover have "?t = (pgoto i (PSend j) ?u)\<lparr>pw_mem := m\<rparr>" by (simp add: pgoto_def)
  then have "proto emp splittable n ?t" using proto_fork[OF p i pc law(2)] by (simp only: proto_mem)
  moreover have "all_frontiers n ?t = add_mset f (add_mset g (other_frontiers n i j s))"
    by (simp only: frontiers_mem frontiers_pair(2)[OF i j(1)])
  then have "J (pw_mem ?t) (all_frontiers n ?t) (all_bodies n ?t)"
    using law(3) bodies_goto[OF i, of "?u\<lparr>pw_mem := m\<rparr>" s "PSend j"] pc by (simp add: pgoto_def)
  moreover have "done_ok goal n ?t" using pw_invD(3)[OF inv] law(4) by (auto simp: done_ok_def pgoto_def)
  ultimately show ?thesis by (auto simp: pw_inv_def)
qed

lemma inv_body:
  assumes inv: "pw_inv s" and i: "i < n" and pc: "pw_pc s i = PBody b"
  shows "\<exists>t. pw_step cl n rnd i s = Inr t \<and> pw_inv t"
proof -
  note p = pw_invD(1)[OF inv]
  let ?F = "(\<Sum>k \<in> {..<n} - {i}. {#pw_mine s k#}) + (\<Sum>k<n. {#pw_frontiers s k#})" and ?B = "\<Sum>k \<in> {..<n} - {i}. body_of (pw_pc s k)"
  have B: "all_bodies n s = add_mset b ?B" using i pc by (simp add: all_bodies_def sum_worker[of i])
  obtain m f r where law: "cl_body cl i (pw_mem s) (pw_mine s i) b = Inr (m, f, r)" "goal (pw_mem s) \<longrightarrow> goal m"
    "case r of Inl b' \<Rightarrow> J m (add_mset f ?F) (add_mset b' ?B) | Inr found \<Rightarrow> J m (add_mset f ?F) ?B \<and> (found \<longrightarrow> goal m)"
    using body_law[OF i pw_invD(2)[OF inv, unfolded frontiers_own[OF i] B]] by (elim exE conjE)
  let ?pc = "case r of Inl b \<Rightarrow> PBody b | Inr found_dst \<Rightarrow> if found_dst then PSetDone else PLoop"
  let ?u = "s\<lparr>pw_mine := (pw_mine s)(i := f)\<rparr>"
  let ?t = "pgoto i ?pc (s\<lparr>pw_mem := m, pw_mine := (pw_mine s)(i := f)\<rparr>)"
  have "pw_step cl n rnd i s = Inr ?t" using pc law(1) by (simp add: pw_step_def)
  moreover have t: "?t = (pgoto i ?pc ?u)\<lparr>pw_mem := m\<rparr>" by (simp add: pgoto_def)
  moreover have "?pc = PLoop \<or> ?pc = PSetDone \<or> (\<exists>b'. ?pc = PBody b')" by (cases r) auto
  then have "proto emp splittable n ?t" unfolding t proto_mem by (rule proto_body[OF p i pc])
  moreover have F: "all_frontiers n ?t = add_mset f ?F" using i by (simp add: all_frontiers_def sum_upd pgoto_def)
  moreover have "all_bodies n ?t = body_of ?pc + ?B"
    using bodies_goto[OF i, of "s\<lparr>pw_mem := m, pw_mine := (pw_mine s)(i := f)\<rparr>" s ?pc] pc B by simp
  then have "J (pw_mem ?t) (all_frontiers n ?t) (all_bodies n ?t)" using law(3) F by (cases r) (auto simp: pgoto_def)
  moreover have "done_ok goal n ?t" using pw_invD(3)[OF inv] law(2,3) by (cases r) (auto simp: done_ok_def pgoto_def split: if_splits)
  ultimately show ?thesis by (auto simp: pw_inv_def)
qed

end


text \<open>The steps that do not call the client.\<close>

fun calls_client :: "'b pw_pc \<Rightarrow> bool" where
  "calls_client PSize = True"
| "calls_client PSwap = True"
| "calls_client (PFork j) = True"
| "calls_client (PBody b) = True"
| "calls_client _ = False"

lemma proto_protocol_step:
  assumes p: "proto emp splittable n s" and i: "i < n"
    and step: "pw_step cl n rnd i s = Inr t" and pc: "\<not> calls_client (pw_pc s i)"
  shows "proto emp splittable n t"
proof (cases "pw_pc s i")
  case PAskWait
  then show ?thesis using proto_ask_wait[OF p i] step by (simp add: pw_step_def)
next
  case (PAsk j)
  note w = proto_local[OF p i]
  show ?thesis
  proof (cases "pw_requests s j = REQUEST_WAITING")
    case True
    then show ?thesis using proto_ask[OF p i PAsk] step PAsk by (simp add: pw_step_def)
  next
    case False
    then have t: "t = pgoto i PAcquire s" using step PAsk by (simp add: pw_step_def)
    show ?thesis unfolding t by (rule proto_goto[OF p i]) (use w local_okD[OF w(1)] PAsk in simp_all)
  qed
next
  case PBlockCas
  then show ?thesis using proto_own_request[OF p i step] by simp
next
  case PUnblock
  then show ?thesis using proto_own_request[OF p i step] by simp
next
  case PReopen
  then show ?thesis using proto_own_request[OF p i step] by simp
next
  case (PReject j)
  then show ?thesis using proto_own_request[OF p i step] by simp
next
  case (PRejectAns j)
  then show ?thesis using proto_answers[OF p i step] by simp
next
  case (PSend j)
  then show ?thesis using proto_answers[OF p i step] by simp
next
  case (PRefuse j)
  then show ?thesis using proto_answers[OF p i step] by simp
qed (use proto_idle_moves[OF p i step] pc in simp_all)

text \<open>What such a step does to the state: one cell and the program counter.\<close>

definition quiet_pc :: "('m, 'f, 'b) pw_client \<Rightarrow> bool \<Rightarrow> 'b pw_pc \<Rightarrow> bool" where
  "quiet_pc cl d pc \<longleftrightarrow> (body_of pc = {#} \<or> pc = PBody (cl_start cl)) \<and> pc \<noteq> PSetDone \<and> (pc = PReturn \<longrightarrow> d)"

definition quiet :: "('m, 'f, 'b) pw_client \<Rightarrow> nat \<Rightarrow> ('m, 'f, 'b) pw \<Rightarrow> ('m, 'f, 'b) pw result \<Rightarrow> bool" where
  "quiet cl i s r \<longleftrightarrow> (\<exists>pc u. r = Inr (pgoto i pc u) \<and> quiet_pc cl (pw_is_done s) pc \<and>
     (u = s \<or> (\<exists>j q. u = set_request j q s) \<or> (\<exists>j a. u = set_answer j a s)))"

lemma quietI:
  "quiet_pc cl (pw_is_done s) pc \<Longrightarrow> quiet cl i s (Inr (pgoto i pc s))"
  "quiet_pc cl (pw_is_done s) pc \<Longrightarrow> quiet cl i s (Inr (pgoto i pc (set_request j q s)))"
  "quiet_pc cl (pw_is_done s) pc \<Longrightarrow> quiet cl i s (Inr (pgoto i pc (set_answer j a s)))"
  unfolding quiet_def by blast+

lemma protocol_step_quiet:
  assumes "\<not> calls_client (pw_pc s i)" "pw_pc s i \<noteq> PSetDone" "pw_pc s i \<noteq> PReturn" "pw_pc s i = PPick \<longrightarrow> 1 < n"
  shows "quiet cl i s (pw_step cl n rnd i s)"
  using assms by (cases "pw_pc s i") (simp_all add: pw_step_def random_other_def Let_def quietI quiet_pc_def)

lemma calls_client_body: "\<not> calls_client pc \<Longrightarrow> body_of pc = {#}"
  by (cases pc) simp_all

context pw_work
begin

lemma inv_protocol_step:
  assumes inv: "pw_inv s" and i: "i < n" and pc: "\<not> calls_client (pw_pc s i)" and many: "pw_pc s i = PPick \<longrightarrow> 1 < n"
  shows "\<exists>t. pw_step cl n rnd i s = Inr t \<and> pw_inv t"
proof -
  note p = proto_protocol_step[OF pw_invD(1)[OF inv] i _ pc]
  consider "pw_pc s i = PSetDone" | "pw_pc s i = PReturn" | "pw_pc s i \<noteq> PSetDone" "pw_pc s i \<noteq> PReturn" by blast
  then show ?thesis
  proof cases
    case 1
    then have t: "pw_step cl n rnd i s = Inr (pgoto i PReturn (s\<lparr>pw_is_done := True\<rparr>))" by (simp add: pw_step_def)
    have "pw_inv (pgoto i PReturn (s\<lparr>pw_is_done := True\<rparr>))"
      using p[OF t] pw_invD[OF inv] bodies_goto[OF i, of "s\<lparr>pw_is_done := True\<rparr>" s PReturn] 1 i
      by (auto simp: pw_inv_def done_ok_def pgoto_def all_frontiers_def)
    then show ?thesis using t by blast
  next
    case 2
    then show ?thesis using inv by (simp add: pw_step_def)
  next
    case 3
    from protocol_step_quiet[OF pc 3 many, of cl rnd] obtain pc' u where u: "pw_step cl n rnd i s = Inr (pgoto i pc' u)" "quiet_pc cl (pw_is_done s) pc'"
      "u = s \<or> (\<exists>j q. u = set_request j q s) \<or> (\<exists>j a. u = set_answer j a s)"
      unfolding quiet_def by (elim exE conjE)
    have "pw_inv (pgoto i pc' u)"
      by (rule inv_quiet[OF inv p[OF u(1)] refl i])
        (use u(2,3) calls_client_body[OF pc] in \<open>auto simp: quiet_pc_def set_request_def set_answer_def all_frontiers_def\<close>)
    then show ?thesis using u(1) by blast
  qed
qed

text \<open>
  One step from any state of the invariant. The failures are the assertion \<open>sz > 0\<close> of a worker
  that left the acquire loop because the search is done, and that of \<open>random_other\<close> in a lone worker
  without work.
\<close>

lemma inv_step:
  assumes inv: "pw_inv s" and i: "i < n"
  shows "(\<exists>t. pw_step cl n rnd i s = Inr t \<and> pw_inv t) \<or>
    pw_step cl n rnd i s = Inl AssertFail \<and> (pw_pc s i = PSwap \<and> pw_is_done s \<and> emp (pw_frontiers s i) \<or> pw_pc s i = PPick \<and> n = 1 \<and> emp (pw_mine s i))"
proof (cases "calls_client (pw_pc s i)")
  case False
  show ?thesis
  proof (cases "pw_pc s i = PPick \<and> n \<le> 1")
    case True
    then have "pw_step cl n rnd i s = Inl AssertFail" "n = 1" using i by (simp_all add: pw_step_def random_other_def)
    moreover have "emp (pw_mine s i)" using local_okD(1)[OF protoD(1)[OF pw_invD(1)[OF inv] i]] True by simp
    ultimately show ?thesis using True by blast
  next
    case many: False
    then show ?thesis using inv_protocol_step[OF inv i False] by auto
  qed
next
  case True
  then consider "pw_pc s i = PSize" | "pw_pc s i = PSwap" | (f) j where "pw_pc s i = PFork j" | (b) b where "pw_pc s i = PBody b"
    by (cases "pw_pc s i") simp_all
  then show ?thesis
  proof cases
    case 2
    show ?thesis
    proof (cases "emp (pw_frontiers s i)")
      case True
      obtain sz m where m: "cl_size cl i (pw_mem s) (pw_frontiers s i) = (sz, m)" by fastforce
      have "sz = 0" using size_law[OF i pw_invD(2)[OF inv] own_frontier(2)[OF i] m] True by blast
      then have "pw_step cl n rnd i s = Inl AssertFail" using 2 m by (simp add: pw_step_def Let_def)
      then show ?thesis using True 2 local_okD(10)[OF protoD(1)[OF pw_invD(1)[OF inv] i] 2] by blast
    qed (use inv_swap[OF inv i 2] in blast)
  qed (use inv_size[OF inv i] inv_fork[OF inv i] inv_body[OF inv i] in blast)+
qed

lemma reach_inv:
  assumes "pw_reach cl n s0 s" "pw_inv s0"
  shows "pw_inv s"
  using assms
proof (induction rule: pw_reach.induct)
  case (pw_reach_step s i rnd t)
  then show ?case using inv_step[of s i rnd] by auto
qed

text \<open>When all workers have returned, some body has reached the goal.\<close>

lemma finished_goal: "\<lbrakk>pw_inv s; pw_finished n s; 0 < n\<rbrakk> \<Longrightarrow> goal (pw_mem s)"
  using pw_invD(3)[of s] by (auto simp: done_ok_def pw_finished_def)

lemma done_goal: "\<lbrakk>pw_inv s; pw_is_done s\<rbrakk> \<Longrightarrow> goal (pw_mem s)"
  using pw_invD(3)[of s] by (simp add: done_ok_def)

end

end
