(* ===== verification/Pwsa.thy ===== *)
theory Pwsa
  imports Parallel_While
begin

text \<open>
  The parallel weighted A* with work sharing, \<open>src/src/pwsa.hpp\<close>: \<open>pwsa_pc\<close>, its template version
  \<open>pwsa_pcT\<close> and the simple version \<open>pwsa\<close>, as clients of the work-sharing loop. A step of the body is one
  atomic action on the shared states (an atomic load, a compare-and-swap) together with the local
  work up to the next one. The weak compare-and-swap may fail spuriously: the memory carries a
  sequence of answers \<open>pm_weak\<close>, one for every attempt, and the theorems hold for every such sequence.
  Both template versions share their body; \<open>M\<close> is the maximum of the number type, \<open>check_neg\<close> the test
  of the distance that only \<open>pwsa_pcT\<close> makes.
\<close>

section \<open>The program\<close>

record vertpack =
  vp_distance :: int
  vp_pred :: int

record pwsa_state =
  st_is_expanded :: bool
  st_gpred :: vertpack
  st_h :: int

definition PWSAResult :: "pwsa_state list \<Rightarrow> int list option \<Rightarrow> SearchResult" where
  "PWSAResult states pebbles =
     \<lparr>res_is_expanded = (\<lambda>vertex. ebind (arr_get states vertex) (\<lambda>s. Inr (st_is_expanded s))),
      res_predecessor = (\<lambda>vertex. ebind (arr_get states vertex) (\<lambda>s. Inr (vp_pred (st_gpred s)))),
      res_g = (\<lambda>vertex. ebind (arr_get states vertex) (\<lambda>s. Inr (vp_distance (st_gpred s)))),
      res_pebble = pebble_of pebbles\<rparr>"

text \<open>The templates with the number type as parameter; all numbers are integers here.\<close>

type_synonym vertpackT = vertpack
type_synonym pwsa_stateT = pwsa_state

definition PWSAResultT :: "pwsa_stateT list \<Rightarrow> int list option \<Rightarrow> SearchResult" where
  "PWSAResultT = PWSAResult"

definition pwsa_init :: "int \<Rightarrow> int \<Rightarrow> pwsa_state list" where
  "pwsa_init M N = replicate (nat N) \<lparr>st_is_expanded = False, st_gpred = \<lparr>vp_distance = M, vp_pred = -1\<rparr>, st_h = -1\<rparr>"

definition pwsa_my_heur :: "(int \<Rightarrow> int) \<Rightarrow> pwsa_state list \<Rightarrow> int \<Rightarrow> (int \<times> pwsa_state list) result" where
  "pwsa_my_heur heuristic states v =
     ebind (arr_get states v) (\<lambda>s.
       if st_h s = -1
       then ebind (arr_set states v (s\<lparr>st_h := heuristic v\<rparr>)) (\<lambda>states. Inr (heuristic v, states))
       else Inr (st_h s, states))"

text \<open>The variables that the workers share.\<close>

record pwsa_mem =
  pm_states :: "pwsa_state list"
  pm_pebbles :: "int list option"
  pm_steps :: "nat \<Rightarrow> int"
  pm_weak :: "nat \<Rightarrow> bool"
  pm_weak_no :: nat

definition pwsa_size :: "(int, 'h) heap_ops \<Rightarrow> int \<Rightarrow> nat \<Rightarrow> pwsa_mem \<Rightarrow> 'h \<Rightarrow> int \<times> pwsa_mem" where
  "pwsa_size H split_cutoff i m frontier =
     (let sz = int (op_size H frontier) in
      if sz = 0 then (0, m\<lparr>pm_steps := (pm_steps m)(i := 0)\<rparr>)
      else if sz > split_cutoff \<or> pm_steps m i > split_cutoff \<and> sz > 1 then (2, m)
      else (1, m))"

definition pwsa_fork :: "(int, 'h) heap_ops \<Rightarrow> nat \<Rightarrow> pwsa_mem \<Rightarrow> 'h \<Rightarrow> 'h \<Rightarrow> (pwsa_mem \<times> 'h \<times> 'h) result" where
  "pwsa_fork H i m src dst =
     ebind (op_split H src dst) (\<lambda>(src, dst). Inr (m\<lparr>pm_steps := (pm_steps m)(i := 0)\<rparr>, src, dst))"

text \<open>Where a worker is in \<open>do_work\<close>; the number is \<open>steps_this_round\<close>.\<close>

datatype pwsa_body =
    DTop int \<comment> \<open>line 111\<close>
  | DLoad int int \<comment> \<open>line 116\<close>
  | DCas int int \<comment> \<open>line 117\<close>
  | DClaimed int int \<comment> \<open>lines 118 and 119\<close>
  | DRead int int \<comment> \<open>line 124\<close>
  | DNext int int "(int \<times> int) list" int \<comment> \<open>line 125, the next neighbour\<close>
  | DLoadN int int int int "(int \<times> int) list" int \<comment> \<open>line 132\<close>
  | DCasN int int int int "(int \<times> int) list" vertpack int \<comment> \<open>line 134\<close>
  | DTest int int int int "(int \<times> int) list" int \<comment> \<open>line 135\<close>
  | DInsert int int int int "(int \<times> int) list" int \<comment> \<open>line 136\<close>

type_synonym 'h pwsa_ret = "(pwsa_mem \<times> 'h \<times> (pwsa_body + bool)) result"

definition pwsa_store :: "pwsa_mem \<Rightarrow> int \<Rightarrow> pwsa_state \<Rightarrow> pwsa_mem result" where
  "pwsa_store m v s = ebind (arr_set (pm_states m) v s) (\<lambda>states. Inr (m\<lparr>pm_states := states\<rparr>))"

text \<open>\<open>compare_exchange_weak(expected, mine)\<close> on \<open>states[nbr].gpred\<close>.\<close>

definition gpred_cas_weak :: "pwsa_mem \<Rightarrow> int \<Rightarrow> vertpack \<Rightarrow> vertpack \<Rightarrow> (bool \<times> pwsa_mem) result" where
  "gpred_cas_weak m nbr expected mine =
     ebind (arr_get (pm_states m) nbr) (\<lambda>s.
       let fails = pm_weak m (pm_weak_no m); m = m\<lparr>pm_weak_no := pm_weak_no m + 1\<rparr> in
       if st_gpred s = expected \<and> \<not> fails
       then ebind (pwsa_store m nbr (s\<lparr>st_gpred := mine\<rparr>)) (\<lambda>m. Inr (True, m))
       else Inr (False, m))"

definition pwsa_do_work ::
  "(int, 'h) heap_ops \<Rightarrow> 'g graph_ops \<Rightarrow> int \<Rightarrow> bool \<Rightarrow> (int \<Rightarrow> int) \<Rightarrow> 'g \<Rightarrow> int \<Rightarrow> int \<Rightarrow>
   nat \<Rightarrow> pwsa_mem \<Rightarrow> 'h \<Rightarrow> pwsa_body \<Rightarrow> 'h pwsa_ret" where
  "pwsa_do_work H G M check_neg heuristic graph destination poll_cutoff i m frontier b = (case b of
       DTop k \<Rightarrow>
         if k < poll_cutoff \<and> op_size H frontier > 0
         then ebind (op_delete_min H frontier) (\<lambda>(v, frontier). Inr (m, frontier, Inl (DLoad v (k + 1))))
         else ebind (num_add INT_MAX (pm_steps m i) k) (\<lambda>steps.
              Inr (m\<lparr>pm_steps := (pm_steps m)(i := steps)\<rparr>, frontier, Inr False))
     | DLoad v k \<Rightarrow> ebind (arr_get (pm_states m) v) (\<lambda>s.
         Inr (m, frontier, Inl (if st_is_expanded s then DTop k else DCas v k)))
     | DCas v k \<Rightarrow> ebind (arr_get (pm_states m) v) (\<lambda>s.
         if st_is_expanded s then Inr (m, frontier, Inl (DTop k))
         else ebind (pwsa_store m v (s\<lparr>st_is_expanded := True\<rparr>)) (\<lambda>m. Inr (m, frontier, Inl (DClaimed v k))))
     | DClaimed v k \<Rightarrow> ebind (set_pebble (pm_pebbles m) v (int i)) (\<lambda>pebbles.
         Inr (m\<lparr>pm_pebbles := pebbles\<rparr>, frontier, if v = destination then Inr True else Inl (DRead v k)))
     | DRead v k \<Rightarrow> ebind (arr_get (pm_states m) v) (\<lambda>s.
         let vdistance = vp_distance (st_gpred s) in
         if check_neg \<and> vdistance < 0 then Inl ExitFailure
         else ebind (neighbor_list G graph v) (\<lambda>nbrs. Inr (m, frontier, Inl (DNext v vdistance nbrs k))))
     | DNext v vdistance es k \<Rightarrow> (case es of
           [] \<Rightarrow> Inr (m, frontier, Inl (DTop k))
         | (nbr, wgt) # es \<Rightarrow> ebind (num_add M vdistance wgt) (\<lambda>distance.
             Inr (m, frontier, Inl (DLoadN v vdistance nbr wgt es k))))
     | DLoadN v vdistance nbr wgt es k \<Rightarrow> ebind (arr_get (pm_states m) nbr) (\<lambda>s.
         let gpred_nbr = st_gpred s in
         Inr (m, frontier, Inl (if vdistance + wgt < vp_distance gpred_nbr then DCasN v vdistance nbr wgt es gpred_nbr k
                                else DNext v vdistance es k)))
     | DCasN v vdistance nbr wgt es gpred_nbr k \<Rightarrow>
         ebind (gpred_cas_weak m nbr gpred_nbr \<lparr>vp_distance = vdistance + wgt, vp_pred = v\<rparr>) (\<lambda>(ok, m).
           Inr (m, frontier, Inl (if ok then DTest v vdistance nbr wgt es k else DLoadN v vdistance nbr wgt es k)))
     | DTest v vdistance nbr wgt es k \<Rightarrow> ebind (arr_get (pm_states m) nbr) (\<lambda>s.
         Inr (m, frontier, Inl (if st_is_expanded s then DNext v vdistance es k else DInsert v vdistance nbr wgt es k)))
     | DInsert v vdistance nbr wgt es k \<Rightarrow>
         ebind (pwsa_my_heur heuristic (pm_states m) nbr) (\<lambda>(heur, states).
         ebind (num_add M (vdistance + wgt) heur) (\<lambda>prio.
         ebind (op_insert H prio nbr frontier) (\<lambda>frontier.
           Inr (m\<lparr>pm_states := states\<rparr>, frontier, Inl (DNext v vdistance es k))))))"

definition pwsa_client ::
  "(int, 'h) heap_ops \<Rightarrow> 'g graph_ops \<Rightarrow> int \<Rightarrow> bool \<Rightarrow> (int \<Rightarrow> int) \<Rightarrow> 'g \<Rightarrow> int \<Rightarrow> int \<Rightarrow> int \<Rightarrow>
   (pwsa_mem, 'h, pwsa_body) pw_client" where
  "pwsa_client H G M check_neg heuristic graph destination split_cutoff poll_cutoff =
     \<lparr>cl_new = op_new H, cl_size = pwsa_size H split_cutoff, cl_fork = pwsa_fork H, cl_start = DTop 0,
      cl_body = pwsa_do_work H G M check_neg heuristic graph destination poll_cutoff\<rparr>"

text \<open>The shared variables and the first frontier, up to the call of \<open>parallel_while_pwsa\<close>.\<close>

definition pwsa_setup ::
  "(int, 'h) heap_ops \<Rightarrow> 'g graph_ops \<Rightarrow> int \<Rightarrow> (int \<Rightarrow> int) \<Rightarrow> 'g \<Rightarrow> int \<Rightarrow> bool \<Rightarrow> (nat \<Rightarrow> bool) \<Rightarrow> (pwsa_mem \<times> 'h) result" where
  "pwsa_setup H G M heuristic graph source pebble weak =
     (let N = number_vertices G graph; states = pwsa_init M N in
      ebind (arr_get states source) (\<lambda>s.
      ebind (arr_set states source (s\<lparr>st_gpred := \<lparr>vp_distance = 0, vp_pred = source\<rparr>\<rparr>)) (\<lambda>states.
      ebind (pwsa_my_heur heuristic states source) (\<lambda>(heur, states).
      ebind (op_insert H heur source (op_new H)) (\<lambda>initF.
        Inr (\<lparr>pm_states = states, pm_pebbles = init_pebbles pebble N, pm_steps = (\<lambda>i. 0), pm_weak = weak, pm_weak_no = 0\<rparr>, initF))))))"

text \<open>The states of a run with \<open>workers\<close> workers, called by worker \<open>leader\<close>.\<close>

definition pwsa_reach ::
  "(int, 'h) heap_ops \<Rightarrow> 'g graph_ops \<Rightarrow> int \<Rightarrow> bool \<Rightarrow> (int \<Rightarrow> int) \<Rightarrow> 'g \<Rightarrow> int \<Rightarrow> int \<Rightarrow> int \<Rightarrow> int \<Rightarrow> bool \<Rightarrow>
   nat \<Rightarrow> (pwsa_mem, 'h, pwsa_body) pw \<Rightarrow> bool" where
  "pwsa_reach H G M check_neg heuristic graph source destination split_cutoff poll_cutoff pebble workers s \<longleftrightarrow>
     (\<exists>weak leader ans m initF. leader < workers \<and> pwsa_setup H G M heuristic graph source pebble weak = Inr (m, initF) \<and>
       pw_reach (pwsa_client H G M check_neg heuristic graph destination split_cutoff poll_cutoff) workers
         (pw_start (pwsa_client H G M check_neg heuristic graph destination split_cutoff poll_cutoff) m initF leader ans) s)"

definition pwsa_pc ::
  "(int, 'h) heap_ops \<Rightarrow> 'g graph_ops \<Rightarrow> (int \<Rightarrow> int) \<Rightarrow> 'g \<Rightarrow> int \<Rightarrow> int \<Rightarrow> int \<Rightarrow> int \<Rightarrow> bool \<Rightarrow>
   nat \<Rightarrow> (pwsa_mem, 'h, pwsa_body) pw \<Rightarrow> bool" where
  "pwsa_pc H G = pwsa_reach H G INT_MAX False"

definition pwsa_pcT ::
  "(int, 'h) heap_ops \<Rightarrow> 'g graph_ops \<Rightarrow> int \<Rightarrow> (int \<Rightarrow> int) \<Rightarrow> 'g \<Rightarrow> int \<Rightarrow> int \<Rightarrow> int \<Rightarrow> int \<Rightarrow> bool \<Rightarrow>
   nat \<Rightarrow> (pwsa_mem, 'h, pwsa_body) pw \<Rightarrow> bool" where
  "pwsa_pcT H G M = pwsa_reach H G M True"

definition pwsa_result :: "(pwsa_mem, 'h, 'b) pw \<Rightarrow> SearchResult" where
  "pwsa_result s = PWSAResult (pm_states (pw_mem s)) (pm_pebbles (pw_mem s))"


section \<open>Abstraction\<close>

definition st_dist :: "pwsa_state \<Rightarrow> int" where "st_dist s = vp_distance (st_gpred s)"
definition st_pred :: "pwsa_state \<Rightarrow> int" where "st_pred s = vp_pred (st_gpred s)"

lemma st_simps [simp]:
  "st_dist (s\<lparr>st_gpred := g\<rparr>) = vp_distance g" "st_pred (s\<lparr>st_gpred := g\<rparr>) = vp_pred g"
  "st_dist (s\<lparr>st_is_expanded := b\<rparr>) = st_dist s" "st_pred (s\<lparr>st_is_expanded := b\<rparr>) = st_pred s"
  "st_dist (s\<lparr>st_h := h\<rparr>) = st_dist s" "st_pred (s\<lparr>st_h := h\<rparr>) = st_pred s"
  by (simp_all add: st_dist_def st_pred_def)

abbreviation expd :: "pwsa_state list \<Rightarrow> int \<Rightarrow> bool" where
  "expd st \<equiv> fld st_is_expanded False st"

definition pmem :: "int \<Rightarrow> pwsa_state list \<Rightarrow> int multiset \<Rightarrow> act multiset \<Rightarrow> psearch" where
  "pmem M st Q A = \<lparr>ps_D = fld st_dist M st, ps_P = fld st_pred (-1) st, ps_X = {v. expd st v}, ps_Q = Q, ps_A = A\<rparr>"

lemma pmem_simps [simp]:
  "ps_D (pmem M st Q A) = fld st_dist M st" "ps_P (pmem M st Q A) = fld st_pred (-1) st"
  "ps_X (pmem M st Q A) = {v. expd st v}" "ps_Q (pmem M st Q A) = Q" "ps_A (pmem M st Q A) = A"
  by (simp_all add: pmem_def)

text \<open>
  The vertices a body holds, the expansion it has under way, and the pops it may still charge to
  \<open>steps_since_load_balancing\<close>; a body that found the destination leaves its claim behind.
\<close>

fun bqueue :: "pwsa_body + bool \<Rightarrow> int multiset" where
  "bqueue (Inl (DLoad v k)) = {#v#}"
| "bqueue (Inl (DCas v k)) = {#v#}"
| "bqueue (Inl (DTest v d x w es k)) = {#x#}"
| "bqueue (Inl (DInsert v d x w es k)) = {#x#}"
| "bqueue _ = {#}"

fun bacts :: "int \<Rightarrow> pwsa_body + bool \<Rightarrow> act multiset" where
  "bacts dst (Inl (DClaimed v k)) = {#Claimed v#}"
| "bacts dst (Inl (DRead v k)) = {#Claimed v#}"
| "bacts dst (Inl (DNext v d es k)) = {#Relaxing v d es#}"
| "bacts dst (Inl (DLoadN v d x w es k)) = {#Relaxing v d ((x, w) # es)#}"
| "bacts dst (Inl (DCasN v d x w es old k)) = {#Relaxing v d ((x, w) # es)#}"
| "bacts dst (Inl (DTest v d x w es k)) = {#Relaxing v d es#}"
| "bacts dst (Inl (DInsert v d x w es k)) = {#Relaxing v d es#}"
| "bacts dst (Inr True) = {#Claimed dst#}"
| "bacts dst _ = {#}"

fun bsteps :: "pwsa_body \<Rightarrow> int" where
  "bsteps (DTop k) = k" | "bsteps (DLoad v k) = k" | "bsteps (DCas v k) = k" | "bsteps (DClaimed v k) = k" | "bsteps (DRead v k) = k"
| "bsteps (DNext v d es k) = k" | "bsteps (DLoadN v d x w es k) = k" | "bsteps (DCasN v d x w es old k) = k"
| "bsteps (DTest v d x w es k) = k" | "bsteps (DInsert v d x w es k) = k"

fun bwork :: "(int \<Rightarrow> int) \<Rightarrow> pwsa_body \<Rightarrow> int" where
  "bwork deg (DClaimed v k) = deg v"
| "bwork deg (DRead v k) = deg v"
| "bwork deg (DNext v d es k) = int (length es)"
| "bwork deg (DLoadN v d x w es k) = 1 + int (length es)"
| "bwork deg (DCasN v d x w es old k) = 1 + int (length es)"
| "bwork deg (DTest v d x w es k) = 1 + int (length es)"
| "bwork deg (DInsert v d x w es k) = 1 + int (length es)"
| "bwork deg _ = 0"

definition bpot :: "(int \<Rightarrow> int) \<Rightarrow> pwsa_body + bool \<Rightarrow> int" where
  "bpot deg r = (case r of Inl b \<Rightarrow> bsteps b + bwork deg b | Inr _ \<Rightarrow> 0)"

fun body_ok :: "'g graph_ops \<Rightarrow> 'g \<Rightarrow> pwsa_body \<Rightarrow> bool" where
  "body_ok G gr (DCasN v d x w es old k) \<longleftrightarrow> 0 \<le> k \<and> d + w < vp_distance old"
| "body_ok G gr (DTest v d x w es k) \<longleftrightarrow> 0 \<le> k \<and> edge G gr v x w"
| "body_ok G gr (DInsert v d x w es k) \<longleftrightarrow> 0 \<le> k \<and> edge G gr v x w"
| "body_ok G gr b \<longleftrightarrow> 0 \<le> bsteps b"

definition degree_of :: "'g graph_ops \<Rightarrow> 'g \<Rightarrow> int \<Rightarrow> int" where
  "degree_of G gr v = int (length (nbrs_of G gr v))"

text \<open>The edges of the vertices that are not claimed yet, and of all vertices.\<close>

definition unclaimed :: "'g graph_ops \<Rightarrow> 'g \<Rightarrow> (int \<Rightarrow> bool) \<Rightarrow> int" where
  "unclaimed G gr X = (\<Sum>v \<in> {0..<number_vertices G gr}. if X v then 0 else degree_of G gr v)"

definition edge_total :: "'g graph_ops \<Rightarrow> 'g \<Rightarrow> int" where
  "edge_total G gr = (\<Sum>v \<in> {0..<number_vertices G gr}. degree_of G gr v)"

lemma unclaimed_claim:
  assumes "0 \<le> v" "v < number_vertices G gr" "\<not> X v"
  shows "unclaimed G gr (X(v := True)) = unclaimed G gr X - degree_of G gr v"
proof -
  have "(\<Sum>u \<in> {0..<number_vertices G gr} - {v}. if (X(v := True)) u then 0 else degree_of G gr u) =
    (\<Sum>u \<in> {0..<number_vertices G gr} - {v}. if X u then 0 else degree_of G gr u)"
    by (rule sum.cong) auto
  then show ?thesis using assms
    by (simp add: unclaimed_def sum.remove[of "{0..<number_vertices G gr}" v])
qed

lemma unclaimed_nonneg: "0 \<le> unclaimed G gr X"
  by (simp add: unclaimed_def degree_of_def sum_nonneg)

definition pmemo_ok :: "(int \<Rightarrow> int) \<Rightarrow> pwsa_state list \<Rightarrow> bool" where
  "pmemo_ok h st \<longleftrightarrow> (\<forall>v. 0 \<le> v \<and> v < int (length st) \<longrightarrow> fld st_h (-1) st v \<in> {-1, h v})"

lemma pwsa_my_heur_ok:
  assumes "pmemo_ok h st" "0 \<le> x" "x < int (length st)" "h x \<noteq> -1"
  shows "\<exists>st'. pwsa_my_heur h st x = Inr (h x, st') \<and> length st' = length st \<and> pmemo_ok h st' \<and>
    fld st_dist M st' = fld st_dist M st \<and> fld st_pred (-1) st' = fld st_pred (-1) st \<and> expd st' = expd st"
proof (cases "st_h (st ! nat x) = -1")
  case True
  then show ?thesis using assms by (auto simp: pwsa_my_heur_def pmemo_ok_def fld_update)
next
  case False
  then have "st_h (st ! nat x) = h x" using assms by (auto simp: pmemo_ok_def fld_def)
  then show ?thesis using assms False by (simp add: pwsa_my_heur_def)
qed


section \<open>One step of the body\<close>

context par_ctx
begin

abbreviation queued :: "'h \<Rightarrow> int multiset" where
  "queued f \<equiv> image_mset snd (entries f)"

definition pot :: "nat \<Rightarrow> 'g \<Rightarrow> pwsa_mem \<Rightarrow> 'h \<Rightarrow> pwsa_body + bool \<Rightarrow> int" where
  "pot n gr m f r = (\<Sum>k<n. pm_steps m k) + bpot (degree_of G gr) r + int (size (entries f)) + unclaimed G gr (expd (pm_states m))"

definition mem_ok :: "nat \<Rightarrow> (int \<Rightarrow> int) \<Rightarrow> 'g \<Rightarrow> pwsa_mem \<Rightarrow> bool" where
  "mem_ok n h gr m \<longleftrightarrow> int (length (pm_states m)) = number_vertices G gr \<and> pmemo_ok h (pm_states m) \<and>
     pebbles_ok (number_vertices G gr) (pm_pebbles m) \<and> (\<forall>k<n. 0 \<le> pm_steps m k)"

lemma mem_okD:
  assumes "mem_ok n h gr m"
  shows "int (length (pm_states m)) = number_vertices G gr" "pmemo_ok h (pm_states m)"
    "pebbles_ok (number_vertices G gr) (pm_pebbles m)" "k < n \<Longrightarrow> 0 \<le> pm_steps m k"
  using assms by (auto simp: mem_ok_def)

text \<open>
  A step of the body does not fail, keeps the data invariant, does not increase the potential, and
  is a sequence of zero or more steps of the abstract search, whatever else is queued (\<open>Q\<close>) and
  under way (\<open>A\<close>).
\<close>

definition bsim ::
  "nat \<Rightarrow> int \<Rightarrow> (int \<Rightarrow> int) \<Rightarrow> 'g \<Rightarrow> int \<Rightarrow> int multiset \<Rightarrow> act multiset \<Rightarrow> pwsa_mem \<Rightarrow> 'h \<Rightarrow> pwsa_body \<Rightarrow>
   'h pwsa_ret \<Rightarrow> bool" where
  "bsim n M h gr dst Q A m f b res \<longleftrightarrow> (\<exists>m' f' r. res = Inr (m', f', r) \<and> mem_ok n h gr m' \<and> invar f' \<and>
     (\<forall>b'. r = Inl b' \<longrightarrow> body_ok G gr b') \<and> (\<forall>v. expd (pm_states m) v \<longrightarrow> expd (pm_states m') v) \<and>
     (r = Inr True \<longrightarrow> expd (pm_states m') dst) \<and> pot n gr m' f' r \<le> pot n gr m f (Inl b) \<and>
     asteps G gr (pmem M (pm_states m) (queued f + (bqueue (Inl b) + Q)) (bacts dst (Inl b) + A))
       (pmem M (pm_states m') (queued f' + (bqueue r + Q)) (bacts dst r + A)))"

text \<open>The common case: the step only changes the program counter of the body.\<close>

lemma bsim_move:
  assumes "mem_ok n h gr m" "invar f" "body_ok G gr b'" "bpot (degree_of G gr) (Inl b') \<le> bpot (degree_of G gr) (Inl b)"
    "asteps G gr (pmem M (pm_states m) (queued f + (bqueue (Inl b) + Q)) (bacts dst (Inl b) + A))
       (pmem M (pm_states m) (queued f + (bqueue (Inl b') + Q)) (bacts dst (Inl b') + A))"
  shows "bsim n M h gr dst Q A m f b (Inr (m, f, Inl b'))"
  using assms by (simp add: bsim_def pot_def)

lemma bsim_quiet:
  assumes "mem_ok n h gr m" "invar f" "body_ok G gr b'" "bpot (degree_of G gr) (Inl b') \<le> bpot (degree_of G gr) (Inl b)"
    "bqueue (Inl b') = bqueue (Inl b)" "bacts dst (Inl b') = bacts dst (Inl b)"
  shows "bsim n M h gr dst Q A m f b (Inr (m, f, Inl b'))"
  using assms by (intro bsim_move) simp_all

lemma body_ranges:
  assumes inv: "ps_inv G (max_weight gr) M gr src (pmem M st (queued f + (bqueue r + Q)) (bacts dst r + A))"
    and len: "int (length st) = number_vertices G gr"
  shows "v \<in># bqueue r \<Longrightarrow> 0 \<le> v \<and> v < int (length st)"
    "a \<in># bacts dst r \<Longrightarrow> 0 \<le> act_vertex a \<and> act_vertex a < int (length st) \<and> expd st (act_vertex a)"
proof -
  note iv = ps_invD[OF inv]
  show "0 \<le> v \<and> v < int (length st)" if "v \<in># bqueue r"
    using iv(3)[OF iv(5)[of v]] that len by simp
  show "0 \<le> act_vertex a \<and> act_vertex a < int (length st) \<and> expd st (act_vertex a)" if "a \<in># bacts dst r"
  proof -
    have "act_ok G (max_weight gr) gr (fld st_dist M st) {v. expd st v} a" using iv(8)[of a] that by simp
    then have "expd st (act_vertex a)" by (cases a) auto
    then show ?thesis using iv(3)[OF iv(6)] len by simp
  qed
qed

lemma bstep_pop:
  assumes m: "mem_ok n h gr m" and f: "invar f" and b: "body_ok G gr (DTop k)" and i: "i < n"
    and small: "pot n gr m f (Inl (DTop k)) \<le> INT_MAX"
  shows "bsim n M h gr dst Q A m f (DTop k) (pwsa_do_work H G M neg h gr dst poll i m f (DTop k))"
proof (cases "k < poll \<and> op_size H f > 0")
  case True
  then have "entries f \<noteq> {#}" using size[OF f] by auto
  then obtain p v f' where pop: "op_delete_min H f = Inr (v, f')" "invar f'" "entries f = add_mset (p, v) (entries f')"
    using delete_min[OF f] by fast
  have "pwsa_do_work H G M neg h gr dst poll i m f (DTop k) = Inr (m, f', Inl (DLoad v (k + 1)))"
    using True pop(1) by (simp add: pwsa_do_work_def)
  then show ?thesis using m b pop(2,3) by (simp add: bsim_def pot_def bpot_def)
next
  case False
  have i0: "0 \<le> pm_steps m i" "0 \<le> k" using mem_okD(4)[OF m i] b by auto
  have sp: "(\<Sum>j<n. pm_steps m j) = pm_steps m i + (\<Sum>j \<in> {..<n} - {i}. pm_steps m j)" using i by (rule sum_worker)
  have "0 \<le> (\<Sum>j \<in> {..<n} - {i}. pm_steps m j)" using mem_okD(4)[OF m] by (intro sum_nonneg) auto
  then have "pm_steps m i + k \<le> INT_MAX" using small sp unclaimed_nonneg[of G gr "expd (pm_states m)"] by (simp add: pot_def bpot_def)
  then have add: "num_add INT_MAX (pm_steps m i) k = Inr (pm_steps m i + k)" using i0 by (intro num_add_ok) (auto simp: INT_MAX_def)
  let ?m = "m\<lparr>pm_steps := (pm_steps m)(i := pm_steps m i + k)\<rparr>"
  have "(\<Sum>j \<in> {..<n} - {i}. pm_steps ?m j) = (\<Sum>j \<in> {..<n} - {i}. pm_steps m j)" by (rule sum_others) simp
  then have "(\<Sum>j<n. pm_steps ?m j) = (\<Sum>j<n. pm_steps m j) + k" using sum_worker[OF i, of "pm_steps ?m"] sp by simp
  moreover have "mem_ok n h gr ?m" using m i0 by (auto simp: mem_ok_def)
  moreover have "pwsa_do_work H G M neg h gr dst poll i m f (DTop k) = Inr (?m, f, Inr False)"
    using False add by (auto simp: pwsa_do_work_def)
  ultimately show ?thesis using f by (simp add: bsim_def pot_def bpot_def)
qed

lemma bstep_drop:
  assumes m: "mem_ok n h gr m" and f: "invar f" and k: "0 \<le> k" and ex: "expd (pm_states m) v" and b: "b = DLoad v k \<or> b = DCas v k"
  shows "bsim n M h gr dst Q A m f b (Inr (m, f, Inl (DTop k)))"
proof (rule bsim_move[OF m f])
  have "astep G gr (pmem M (pm_states m) (queued f + (bqueue (Inl b) + Q)) (bacts dst (Inl b) + A))
       (pmem M (pm_states m) (queued f + (bqueue (Inl (DTop k)) + Q)) (bacts dst (Inl (DTop k)) + A))"
    using astep.drop[of v "pmem M (pm_states m) (queued f + (bqueue (Inl b) + Q)) (bacts dst (Inl b) + A)" G gr] b ex
    by (auto simp: pmem_def)
  then show "asteps G gr (pmem M (pm_states m) (queued f + (bqueue (Inl b) + Q)) (bacts dst (Inl b) + A))
       (pmem M (pm_states m) (queued f + (bqueue (Inl (DTop k)) + Q)) (bacts dst (Inl (DTop k)) + A))" by blast
qed (use b k in \<open>auto simp: bpot_def\<close>)

lemma bstep_claim:
  assumes m: "mem_ok n h gr m" and f: "invar f" and k: "0 \<le> k"
    and v: "0 \<le> v" "v < int (length (pm_states m))" "\<not> expd (pm_states m) v"
  shows "bsim n M h gr dst Q A m f (DCas v k) (pwsa_do_work H G M neg h gr dst poll i m f (DCas v k))"
proof -
  define st where "st = (pm_states m)[nat v := (pm_states m ! nat v)\<lparr>st_is_expanded := True\<rparr>]"
  have D: "fld st_dist M st = fld st_dist M (pm_states m)" "fld st_pred (-1) st = fld st_pred (-1) (pm_states m)"
    "fld st_h (-1) st = fld st_h (-1) (pm_states m)" "expd st = (expd (pm_states m))(v := True)" "length st = length (pm_states m)"
    using v by (simp_all add: st_def fld_update)
  have X: "{x. expd st x} = insert v {x. expd (pm_states m) x}" by (auto simp: D)
  have run: "pwsa_do_work H G M neg h gr dst poll i m f (DCas v k) = Inr (m\<lparr>pm_states := st\<rparr>, f, Inl (DClaimed v k))"
    using v by (simp add: pwsa_do_work_def pwsa_store_def st_def fld_def)
  have "astep G gr (pmem M (pm_states m) (queued f + (bqueue (Inl (DCas v k)) + Q)) (bacts dst (Inl (DCas v k)) + A))
    (pmem M st (queued f + (bqueue (Inl (DClaimed v k)) + Q)) (bacts dst (Inl (DClaimed v k)) + A))"
    using astep.claim[of v "pmem M (pm_states m) (queued f + (bqueue (Inl (DCas v k)) + Q)) (bacts dst (Inl (DCas v k)) + A)" G gr] v(3)
    by (simp add: pmem_def X D(1,2))
  moreover have "mem_ok n h gr (m\<lparr>pm_states := st\<rparr>)" using m by (simp add: mem_ok_def pmemo_ok_def D)
  moreover have "unclaimed G gr (expd st) = unclaimed G gr (expd (pm_states m)) - degree_of G gr v"
    unfolding D(4) by (rule unclaimed_claim) (use v mem_okD(1)[OF m] in auto)
  ultimately show ?thesis using run f k D(4) by (auto simp: bsim_def pot_def bpot_def)
qed

lemma bstep_claimed:
  assumes m: "mem_ok n h gr m" and f: "invar f" and k: "0 \<le> k"
    and v: "0 \<le> v" "v < int (length (pm_states m))" "expd (pm_states m) v"
  shows "bsim n M h gr dst Q A m f (DClaimed v k) (pwsa_do_work H G M neg h gr dst poll i m f (DClaimed v k))"
proof -
  obtain pb where pb: "set_pebble (pm_pebbles m) v (int i) = Inr pb" "pebbles_ok (number_vertices G gr) pb"
    using set_pebble_ok[of "number_vertices G gr" "pm_pebbles m" v "int i"] mem_okD(1,3)[OF m] v by auto
  have "mem_ok n h gr (m\<lparr>pm_pebbles := pb\<rparr>)" using m pb(2) by (simp add: mem_ok_def)
  then show ?thesis using pb(1) f k v by (cases "v = dst") (simp_all add: pwsa_do_work_def bsim_def pot_def bpot_def degree_of_def)
qed

lemma bstep_read:
  assumes gok: "ok gr" and m: "mem_ok n h gr m" and f: "invar f" and k: "0 \<le> k"
    and inv: "ps_inv G (max_weight gr) M gr src (pmem M (pm_states m) (queued f + (bqueue (Inl (DRead v k)) + Q)) (bacts dst (Inl (DRead v k)) + A))"
    and v: "0 \<le> v" "v < int (length (pm_states m))" "expd (pm_states m) v"
  shows "bsim n M h gr dst Q A m f (DRead v k) (pwsa_do_work H G M neg h gr dst poll i m f (DRead v k))"
proof -
  let ?d = "fld st_dist M (pm_states m) v"
  obtain l where l: "neighbor_list G gr v = Inr l" using neighbors_ok[OF gok, of v] v mem_okD(1)[OF m] by auto
  have "?d < M" using ps_invD(6)[OF inv, of v] v by simp
  then have d: "0 \<le> ?d" using pred_treeD(2)[OF ps_invD(1)[OF inv]] by simp
  have dv: "vp_distance (st_gpred (pm_states m ! nat v)) = ?d" using v by (simp add: fld_def st_dist_def)
  have run: "pwsa_do_work H G M neg h gr dst poll i m f (DRead v k) = Inr (m, f, Inl (DNext v ?d l k))"
    using v l d by (simp add: pwsa_do_work_def dv)
  have "astep G gr (pmem M (pm_states m) (queued f + (bqueue (Inl (DRead v k)) + Q)) (bacts dst (Inl (DRead v k)) + A))
    (pmem M (pm_states m) (queued f + (bqueue (Inl (DNext v ?d l k)) + Q)) (bacts dst (Inl (DNext v ?d l k)) + A))"
    using astep.read[of "pmem M (pm_states m) (queued f + (bqueue (Inl (DRead v k)) + Q)) (bacts dst (Inl (DRead v k)) + A)" v A G gr l] l
    by (simp add: pmem_def)
  then show ?thesis unfolding run by (intro bsim_move[OF m f]) (use k l in \<open>auto simp: bpot_def degree_of_def nbrs_of_def\<close>)
qed

end


context par_ctx
begin

lemma bstep_next:
  assumes gok: "ok gr" and pre: "search_pre G max_weight M h Hmax gr src"
    and m: "mem_ok n h gr m" and f: "invar f" and k: "0 \<le> k"
    and inv: "ps_inv G (max_weight gr) M gr src (pmem M (pm_states m) (queued f + (bqueue (Inl (DNext v d es k)) + Q)) (bacts dst (Inl (DNext v d es k)) + A))"
  shows "bsim n M h gr dst Q A m f (DNext v d es k) (pwsa_do_work H G M neg h gr dst poll i m f (DNext v d es k))"
proof (cases es)
  case Nil
  have "astep G gr (pmem M (pm_states m) (queued f + (bqueue (Inl (DNext v d [] k)) + Q)) (bacts dst (Inl (DNext v d [] k)) + A))
    (pmem M (pm_states m) (queued f + (bqueue (Inl (DTop k)) + Q)) (bacts dst (Inl (DTop k)) + A))"
    using astep.close[of "pmem M (pm_states m) (queued f + (bqueue (Inl (DNext v d [] k)) + Q)) (bacts dst (Inl (DNext v d [] k)) + A)" v d A G gr]
    by (simp add: pmem_def)
  then have "bsim n M h gr dst Q A m f (DNext v d [] k) (Inr (m, f, Inl (DTop k)))"
    by (intro bsim_move[OF m f]) (use k in \<open>auto simp: bpot_def\<close>)
  then show ?thesis using Nil by (simp add: pwsa_do_work_def)
next
  case (Cons e es')
  obtain x w where e: "e = (x, w)" by (cases e)
  have "Relaxing v d ((x, w) # es') \<in># ps_A (pmem M (pm_states m) (queued f + (bqueue (Inl (DNext v d es k)) + Q)) (bacts dst (Inl (DNext v d es k)) + A))"
    using Cons e by simp
  note pb = prio_bounds[OF gok pre inv this]
  have "num_add M d w = Inr (d + w)" using pb by (intro num_add_ok) auto
  moreover have "bsim n M h gr dst Q A m f (DNext v d es k) (Inr (m, f, Inl (DLoadN v d x w es' k)))"
    by (rule bsim_quiet[OF m f]) (use k Cons e in \<open>auto simp: bpot_def\<close>)
  ultimately show ?thesis using Cons e by (simp add: pwsa_do_work_def)
qed

lemma bstep_loadn:
  assumes m: "mem_ok n h gr m" and f: "invar f" and k: "0 \<le> k" and x: "0 \<le> x" "x < int (length (pm_states m))"
  shows "bsim n M h gr dst Q A m f (DLoadN v d x w es k) (pwsa_do_work H G M neg h gr dst poll i m f (DLoadN v d x w es k))"
proof -
  have dx: "vp_distance (st_gpred (pm_states m ! nat x)) = fld st_dist M (pm_states m) x" using x by (simp add: fld_def st_dist_def)
  show ?thesis
  proof (cases "d + w < fld st_dist M (pm_states m) x")
    case True
    then have "bsim n M h gr dst Q A m f (DLoadN v d x w es k) (Inr (m, f, Inl (DCasN v d x w es (st_gpred (pm_states m ! nat x)) k)))"
      by (intro bsim_quiet[OF m f]) (use k dx in \<open>auto simp: bpot_def\<close>)
    then show ?thesis using x True by (simp add: pwsa_do_work_def dx)
  next
    case False
    have "astep G gr (pmem M (pm_states m) (queued f + (bqueue (Inl (DLoadN v d x w es k)) + Q)) (bacts dst (Inl (DLoadN v d x w es k)) + A))
      (pmem M (pm_states m) (queued f + (bqueue (Inl (DNext v d es k)) + Q)) (bacts dst (Inl (DNext v d es k)) + A))"
      using astep.keep[of "pmem M (pm_states m) (queued f + (bqueue (Inl (DLoadN v d x w es k)) + Q)) (bacts dst (Inl (DLoadN v d x w es k)) + A)" v d x w es A G gr] False
      by (simp add: pmem_def)
    then have "bsim n M h gr dst Q A m f (DLoadN v d x w es k) (Inr (m, f, Inl (DNext v d es k)))"
      by (intro bsim_move[OF m f]) (use k in \<open>auto simp: bpot_def\<close>)
    then show ?thesis using x False by (simp add: pwsa_do_work_def dx)
  qed
qed

lemma bstep_casn:
  assumes m: "mem_ok n h gr m" and f: "invar f" and b: "body_ok G gr (DCasN v d x w es old k)"
    and x: "0 \<le> x" "x < int (length (pm_states m))" and e: "edge G gr v x w"
  shows "bsim n M h gr dst Q A m f (DCasN v d x w es old k) (pwsa_do_work H G M neg h gr dst poll i m f (DCasN v d x w es old k))"
proof -
  let ?m = "m\<lparr>pm_weak_no := pm_weak_no m + 1\<rparr>"
  have m': "mem_ok n h gr ?m" using m by (simp add: mem_ok_def)
  show ?thesis
  proof (cases "st_gpred (pm_states m ! nat x) = old \<and> \<not> pm_weak m (pm_weak_no m)")
    case False
    then have run: "pwsa_do_work H G M neg h gr dst poll i m f (DCasN v d x w es old k) = Inr (?m, f, Inl (DLoadN v d x w es k))"
      using x by (auto simp: pwsa_do_work_def gpred_cas_weak_def Let_def)
    show ?thesis unfolding run using m' f b by (simp add: bsim_def pot_def bpot_def)
  next
    case True
    define st where "st = (pm_states m)[nat x := (pm_states m ! nat x)\<lparr>st_gpred := \<lparr>vp_distance = d + w, vp_pred = v\<rparr>\<rparr>]"
    have D: "fld st_dist M st = (fld st_dist M (pm_states m))(x := d + w)" "fld st_pred (-1) st = (fld st_pred (-1) (pm_states m))(x := v)"
      "fld st_h (-1) st = fld st_h (-1) (pm_states m)" "expd st = expd (pm_states m)" "length st = length (pm_states m)"
      using x by (simp_all add: st_def fld_update)
    have run: "pwsa_do_work H G M neg h gr dst poll i m f (DCasN v d x w es old k) = Inr (?m\<lparr>pm_states := st\<rparr>, f, Inl (DTest v d x w es k))"
      using x True by (simp add: pwsa_do_work_def gpred_cas_weak_def pwsa_store_def Let_def st_def)
    have lt: "d + w < fld st_dist M (pm_states m) x" using True b x by (simp add: fld_def st_dist_def)
    have "astep G gr (pmem M (pm_states m) (queued f + (bqueue (Inl (DCasN v d x w es old k)) + Q)) (bacts dst (Inl (DCasN v d x w es old k)) + A))
      (pmem M st (queued f + (bqueue (Inl (DTest v d x w es k)) + Q)) (bacts dst (Inl (DTest v d x w es k)) + A))"
      using astep.improve[of "pmem M (pm_states m) (queued f + (bqueue (Inl (DCasN v d x w es old k)) + Q)) (bacts dst (Inl (DCasN v d x w es old k)) + A)" v d x w es A G gr] lt
      by (simp add: pmem_def D)
    moreover have "mem_ok n h gr (?m\<lparr>pm_states := st\<rparr>)" using m by (simp add: mem_ok_def pmemo_ok_def D)
    ultimately show ?thesis unfolding run using f b e by (auto simp: bsim_def pot_def bpot_def D(4))
  qed
qed

lemma bstep_test:
  assumes m: "mem_ok n h gr m" and f: "invar f" and b: "body_ok G gr (DTest v d x w es k)" and x: "0 \<le> x" "x < int (length (pm_states m))"
  shows "bsim n M h gr dst Q A m f (DTest v d x w es k) (pwsa_do_work H G M neg h gr dst poll i m f (DTest v d x w es k))"
proof (cases "expd (pm_states m) x")
  case True
  have "astep G gr (pmem M (pm_states m) (queued f + (bqueue (Inl (DTest v d x w es k)) + Q)) (bacts dst (Inl (DTest v d x w es k)) + A))
    (pmem M (pm_states m) (queued f + (bqueue (Inl (DNext v d es k)) + Q)) (bacts dst (Inl (DNext v d es k)) + A))"
    using astep.drop[of x "pmem M (pm_states m) (queued f + (bqueue (Inl (DTest v d x w es k)) + Q)) (bacts dst (Inl (DTest v d x w es k)) + A)" G gr] True
    by (simp add: pmem_def)
  then have "bsim n M h gr dst Q A m f (DTest v d x w es k) (Inr (m, f, Inl (DNext v d es k)))"
    by (intro bsim_move[OF m f]) (use b in \<open>auto simp: bpot_def\<close>)
  then show ?thesis using x True by (simp add: pwsa_do_work_def fld_def)
next
  case False
  have "bsim n M h gr dst Q A m f (DTest v d x w es k) (Inr (m, f, Inl (DInsert v d x w es k)))"
    by (rule bsim_quiet[OF m f]) (use b in \<open>auto simp: bpot_def\<close>)
  then show ?thesis using x False by (simp add: pwsa_do_work_def fld_def)
qed

lemma bstep_insert:
  assumes gok: "ok gr" and pre: "search_pre G max_weight M h Hmax gr src" and M: "M \<le> LONG_MAX"
    and m: "mem_ok n h gr m" and f: "invar f" and b: "body_ok G gr (DInsert v d x w es k)"
    and inv: "ps_inv G (max_weight gr) M gr src (pmem M (pm_states m) (queued f + (bqueue (Inl (DInsert v d x w es k)) + Q)) (bacts dst (Inl (DInsert v d x w es k)) + A))"
  shows "bsim n M h gr dst Q A m f (DInsert v d x w es k) (pwsa_do_work H G M neg h gr dst poll i m f (DInsert v d x w es k))"
proof -
  let ?s = "pmem M (pm_states m) (queued f + (bqueue (Inl (DInsert v d x w es k)) + Q)) (add_mset (Relaxing v d ((x, w) # es)) A)"
  have e: "edge G gr v x w" using b by simp
  have "ps_inv G (max_weight gr) M gr src ?s"
  proof (rule ps_invI, goal_cases)
    case (7 a)
    then show ?case using ps_invD(8)[OF inv, of a] ps_invD(8)[OF inv, of "Relaxing v d es"] e by auto
  next
    case (8 y)
    then show ?case using ps_invD(9)[OF inv, of y] by simp
  next
    case (9 u y c)
    then show ?case using ps_invD(10)[OF inv, of u y c] by auto
  qed (use ps_invD(1-7)[OF inv] in auto)
  from prio_bounds[OF gok pre this, of v d x w es] have pb: "0 \<le> d + w" "d + w < M" "0 \<le> h x" "d + w + h x \<le> M" "0 \<le> x" "x < number_vertices G gr"
    by simp_all
  have x: "0 \<le> x" "x < int (length (pm_states m))" using pb mem_okD(1)[OF m] by auto
  obtain st where st: "pwsa_my_heur h (pm_states m) x = Inr (h x, st)" "length st = length (pm_states m)" "pmemo_ok h st"
    "fld st_dist M st = fld st_dist M (pm_states m)" "fld st_pred (-1) st = fld st_pred (-1) (pm_states m)" "expd st = expd (pm_states m)"
    using pwsa_my_heur_ok[OF mem_okD(2)[OF m] x, of M] pb(3) by auto
  obtain f' where f': "op_insert H (d + w + h x) x f = Inr f'" "invar f'" "entries f' = add_mset (d + w + h x, x) (entries f)"
    using insert[OF f, of "d + w + h x" x] pb(4) M by auto
  have add: "num_add M (d + w) (h x) = Inr (d + w + h x)" using pb by (intro num_add_ok) auto
  have run: "pwsa_do_work H G M neg h gr dst poll i m f (DInsert v d x w es k) = Inr (m\<lparr>pm_states := st\<rparr>, f', Inl (DNext v d es k))"
    using st(1) f'(1) add by (simp add: pwsa_do_work_def)
  have "mem_ok n h gr (m\<lparr>pm_states := st\<rparr>)" using m st(2,3) by (simp add: mem_ok_def)
  then show ?thesis unfolding run using f'(2,3) b by (auto simp: bsim_def pot_def bpot_def pmem_def st(4-6))
qed

text \<open>All steps of \<open>do_work\<close>.\<close>

lemma bstep_ok:
  assumes gok: "ok gr" and pre: "search_pre G max_weight M h Hmax gr src" and M: "M \<le> LONG_MAX"
    and m: "mem_ok n h gr m" and f: "invar f" and b: "body_ok G gr b" and i: "i < n" and small: "pot n gr m f (Inl b) \<le> INT_MAX"
    and inv: "ps_inv G (max_weight gr) M gr src (pmem M (pm_states m) (queued f + (bqueue (Inl b) + Q)) (bacts dst (Inl b) + A))"
  shows "bsim n M h gr dst Q A m f b (pwsa_do_work H G M neg h gr dst poll i m f b)"
proof -
  note r = body_ranges[OF inv mem_okD(1)[OF m]]
  have rel: "edge G gr v x w \<and> 0 \<le> x \<and> x < int (length (pm_states m))" if "Relaxing v d ((x, w) # es) \<in># bacts dst (Inl b)" for v d x w es
  proof -
    have "edge G gr v x w" using ps_invD(8)[OF inv, of "Relaxing v d ((x, w) # es)"] that by simp
    then show ?thesis using edge_ok[OF gok] mem_okD(1)[OF m] by auto
  qed
  show ?thesis
  proof (cases b)
    case (DTop k)
    then show ?thesis using bstep_pop[OF m f _ i] b small by simp
  next
    case (DLoad v k)
    then show ?thesis
      using r(1)[of v] b bstep_drop[OF m f, of k v b M dst Q A] bsim_quiet[OF m f, of "DCas v k" b dst M Q A]
      by (auto simp: pwsa_do_work_def fld_def bpot_def)
  next
    case (DCas v k)
    then show ?thesis
      using r(1)[of v] b bstep_drop[OF m f, of k v b M dst Q A] bstep_claim[OF m f, of k v M dst Q A neg poll i]
      by (cases "expd (pm_states m) v") (auto simp: pwsa_do_work_def fld_def)
  next
    case (DClaimed v k)
    then show ?thesis using r(2)[of "Claimed v"] b by (simp add: bstep_claimed[OF m f])
  next
    case (DRead v k)
    then show ?thesis using r(2)[of "Claimed v"] b inv by (simp add: bstep_read[OF gok m f])
  next
    case (DNext v d es k)
    then show ?thesis using b inv by (simp add: bstep_next[OF gok pre m f])
  next
    case (DLoadN v d x w es k)
    then show ?thesis using b rel[of v d x w es] by (simp add: bstep_loadn[OF m f])
  next
    case (DCasN v d x w es old k)
    then show ?thesis using b rel[of v d x w es] by (simp add: bstep_casn[OF m f])
  next
    case (DTest v d x w es k)
    then show ?thesis using b r(1)[of x] by (simp add: bstep_test[OF m f])
  next
    case (DInsert v d x w es k)
    then show ?thesis using b inv by (simp add: bstep_insert[OF gok pre M m f])
  qed
qed

end


section \<open>The contract of the work-sharing loop\<close>

lemma sum_mset_nonneg_int: "(\<And>x. x \<in># A \<Longrightarrow> 0 \<le> (f x :: int)) \<Longrightarrow> 0 \<le> (\<Sum>x \<in># A. f x)"
  by (induction A) auto

context par_ctx
begin

definition held :: "'h multiset \<Rightarrow> pwsa_body multiset \<Rightarrow> int multiset" where
  "held F B = \<Sum>\<^sub># (image_mset queued F) + \<Sum>\<^sub># (image_mset (\<lambda>b. bqueue (Inl b)) B)"

definition under_way :: "int \<Rightarrow> pwsa_body multiset \<Rightarrow> act multiset" where
  "under_way dst B = \<Sum>\<^sub># (image_mset (\<lambda>b. bacts dst (Inl b)) B)"

definition total_pot :: "nat \<Rightarrow> 'g \<Rightarrow> pwsa_mem \<Rightarrow> 'h multiset \<Rightarrow> pwsa_body multiset \<Rightarrow> int" where
  "total_pot n gr m F B = (\<Sum>k<n. pm_steps m k) + (\<Sum>f \<in># F. int (size (entries f))) +
     (\<Sum>b \<in># B. bpot (degree_of G gr) (Inl b)) + unclaimed G gr (expd (pm_states m))"

definition pwsa_pre :: "int \<Rightarrow> (int \<Rightarrow> int) \<Rightarrow> int \<Rightarrow> 'g \<Rightarrow> int \<Rightarrow> int \<Rightarrow> bool" where
  "pwsa_pre M h Hmax gr src split_cutoff \<longleftrightarrow> ok gr \<and> search_pre G max_weight M h Hmax gr src \<and> M \<le> LONG_MAX \<and>
     1 \<le> split_cutoff \<and> edge_total G gr < INT_MAX"

definition pwsa_J ::
  "nat \<Rightarrow> int \<Rightarrow> (int \<Rightarrow> int) \<Rightarrow> int \<Rightarrow> 'g \<Rightarrow> int \<Rightarrow> int \<Rightarrow> int \<Rightarrow> pwsa_mem \<Rightarrow> 'h multiset \<Rightarrow> pwsa_body multiset \<Rightarrow> bool" where
  "pwsa_J n M h Hmax gr src dst split_cutoff m F B \<longleftrightarrow> pwsa_pre M h Hmax gr src split_cutoff \<and> mem_ok n h gr m \<and>
     (\<forall>f. f \<in># F \<longrightarrow> invar f) \<and> (\<forall>b. b \<in># B \<longrightarrow> body_ok G gr b) \<and> total_pot n gr m F B \<le> 1 + edge_total G gr \<and>
     (\<exists>A0. (\<forall>a. a \<in># A0 \<longrightarrow> a = Claimed dst) \<and>
       ps_inv G (max_weight gr) M gr src (pmem M (pm_states m) (held F B) (under_way dst B + A0)))"

lemma pwsa_JD:
  assumes "pwsa_J n M h Hmax gr src dst sc m F B"
  shows "pwsa_pre M h Hmax gr src sc" "mem_ok n h gr m" "f \<in># F \<Longrightarrow> invar f" "b \<in># B \<Longrightarrow> body_ok G gr b"
    "total_pot n gr m F B \<le> 1 + edge_total G gr"
    "\<exists>A0. (\<forall>a. a \<in># A0 \<longrightarrow> a = Claimed dst) \<and>
       ps_inv G (max_weight gr) M gr src (pmem M (pm_states m) (held F B) (under_way dst B + A0))"
  using assms unfolding pwsa_J_def by blast+

lemma pwsa_preD:
  assumes "pwsa_pre M h Hmax gr src sc"
  shows "ok gr" "search_pre G max_weight M h Hmax gr src" "M \<le> LONG_MAX" "1 \<le> sc" "edge_total G gr < INT_MAX" "par_pre G max_weight M gr src"
  using assms pre_par by (auto simp: pwsa_pre_def)

lemma bpot_nonneg: "body_ok G gr b \<Longrightarrow> 0 \<le> bpot (degree_of G gr) (Inl b)"
  by (cases b) (auto simp: bpot_def degree_of_def)

text \<open>Resetting the step counter of a worker.\<close>

lemma reset_steps:
  assumes "mem_ok n h gr m"
  shows "mem_ok n h gr (m\<lparr>pm_steps := (pm_steps m)(i := 0)\<rparr>)" "(\<Sum>k<n. ((pm_steps m)(i := 0)) k) \<le> (\<Sum>k<n. pm_steps m k)"
  using assms by (auto simp: mem_ok_def intro!: sum_mono)

lemma pwsa_size_law:
  assumes J: "pwsa_J n M h Hmax gr src dst sc m F B" and f: "f \<in># F" and sz: "pwsa_size H sc i m f = (sz, m')"
  shows "pwsa_J n M h Hmax gr src dst sc m' F B \<and> 0 \<le> sz \<and> (sz = 0 \<longleftrightarrow> entries f = {#}) \<and>
    (sz = SIZE_SPLIT \<longrightarrow> 2 \<le> size (entries f)) \<and> (expd (pm_states m) dst \<longrightarrow> expd (pm_states m') dst)"
proof -
  note d = pwsa_JD[OF J]
  have c: "op_size H f = size (entries f)" by (rule size[OF d(3)[OF f]])
  have "m' = m \<or> m' = m\<lparr>pm_steps := (pm_steps m)(i := 0)\<rparr>" using sz by (auto simp: pwsa_size_def Let_def split: if_splits)
  then have "pwsa_J n M h Hmax gr src dst sc m' F B"
    using J d reset_steps[OF d(2), of i] by (auto simp: pwsa_J_def total_pot_def)
  moreover have "pm_states m' = pm_states m" using sz by (auto simp: pwsa_size_def Let_def split: if_splits)
  ultimately show ?thesis using sz c pwsa_preD(4)[OF d(1)] by (auto simp: pwsa_size_def Let_def SIZE_SPLIT_def split: if_splits)
qed

lemma pwsa_fork_law:
  assumes J: "pwsa_J n M h Hmax gr src dst sc m (add_mset f (add_mset g F)) B" and g: "entries g = {#}" and f: "2 \<le> size (entries f)"
  shows "\<exists>m' f' g'. pwsa_fork H i m f g = Inr (m', f', g') \<and> \<not> entries g' = {#} \<and>
    pwsa_J n M h Hmax gr src dst sc m' (add_mset f' (add_mset g' F)) B \<and> (expd (pm_states m) dst \<longrightarrow> expd (pm_states m') dst)"
proof -
  note d = pwsa_JD[OF J]
  obtain f' g' where s: "op_split H f g = Inr (f', g')" "invar f'" "invar g'" "entries f = entries f' + entries g'" "entries g' \<noteq> {#}"
    using split[of f g] d(3)[of f] d(3)[of g] f g by auto
  have "held (add_mset f' (add_mset g' F)) B = held (add_mset f (add_mset g F)) B" using s(4) g by (simp add: held_def)
  moreover have "total_pot n gr (m\<lparr>pm_steps := (pm_steps m)(i := 0)\<rparr>) (add_mset f' (add_mset g' F)) B \<le> total_pot n gr m (add_mset f (add_mset g F)) B"
    using reset_steps(2)[OF d(2), of i] s(4) g by (simp add: total_pot_def)
  ultimately have "pwsa_J n M h Hmax gr src dst sc (m\<lparr>pm_steps := (pm_steps m)(i := 0)\<rparr>) (add_mset f' (add_mset g' F)) B"
    using J reset_steps(1)[OF d(2), of i] s(2,3) by (auto simp: pwsa_J_def)
  then show ?thesis using s(1,5) by (simp add: pwsa_fork_def)
qed

lemma pwsa_start_law:
  "pwsa_J n M h Hmax gr src dst sc m F B \<Longrightarrow> pwsa_J n M h Hmax gr src dst sc m F (add_mset (DTop 0) B)"
  by (auto simp: pwsa_J_def held_def under_way_def total_pot_def bpot_def)

lemma pwsa_body_law:
  assumes i: "i < n" and J: "pwsa_J n M h Hmax gr src dst sc m (add_mset f F) (add_mset b B)"
  shows "\<exists>m' f' r. pwsa_do_work H G M neg h gr dst poll i m f b = Inr (m', f', r) \<and> (expd (pm_states m) dst \<longrightarrow> expd (pm_states m') dst) \<and>
    (case r of Inl b' \<Rightarrow> pwsa_J n M h Hmax gr src dst sc m' (add_mset f' F) (add_mset b' B)
     | Inr found \<Rightarrow> pwsa_J n M h Hmax gr src dst sc m' (add_mset f' F) B \<and> (found \<longrightarrow> expd (pm_states m') dst))"
proof -
  note d = pwsa_JD[OF J]
  note p = pwsa_preD[OF d(1)]
  obtain A0 where A0: "\<forall>a. a \<in># A0 \<longrightarrow> a = Claimed dst"
    "ps_inv G (max_weight gr) M gr src (pmem M (pm_states m) (held (add_mset f F) (add_mset b B)) (under_way dst (add_mset b B) + A0))"
    using d(6) by blast
  let ?Q = "held F B" and ?A = "under_way dst B + A0" and ?R = "(\<Sum>f \<in># F. int (size (entries f))) + (\<Sum>b \<in># B. bpot (degree_of G gr) (Inl b))"
  have inv: "ps_inv G (max_weight gr) M gr src (pmem M (pm_states m) (queued f + (bqueue (Inl b) + ?Q)) (bacts dst (Inl b) + ?A))"
    using A0(2) by (simp add: held_def under_way_def ac_simps)
  have tot: "total_pot n gr m (add_mset f F) (add_mset b B) = pot n gr m f (Inl b) + ?R" by (simp add: total_pot_def pot_def)
  have R: "0 \<le> ?R" using d(4) by (auto intro!: add_nonneg_nonneg sum_mset_nonneg_int bpot_nonneg)
  have small: "pot n gr m f (Inl b) \<le> INT_MAX" using d(5) tot R p(5) by linarith
  have "bsim n M h gr dst ?Q ?A m f b (pwsa_do_work H G M neg h gr dst poll i m f b)"
    by (rule bstep_ok[OF p(1,2,3) d(2) d(3) d(4) i small inv]) simp_all
  then obtain m' f' r where run: "pwsa_do_work H G M neg h gr dst poll i m f b = Inr (m', f', r)" and r: "mem_ok n h gr m'" "invar f'"
     "\<forall>b'. r = Inl b' \<longrightarrow> body_ok G gr b'" "\<forall>v. expd (pm_states m) v \<longrightarrow> expd (pm_states m') v"
     "r = Inr True \<longrightarrow> expd (pm_states m') dst" "pot n gr m' f' r \<le> pot n gr m f (Inl b)"
     "asteps G gr (pmem M (pm_states m) (queued f + (bqueue (Inl b) + ?Q)) (bacts dst (Inl b) + ?A))
       (pmem M (pm_states m') (queued f' + (bqueue r + ?Q)) (bacts dst r + ?A))"
    unfolding bsim_def by (elim exE conjE)
  have inv': "ps_inv G (max_weight gr) M gr src (pmem M (pm_states m') (queued f' + (bqueue r + ?Q)) (bacts dst r + ?A))"
    by (rule asteps_inv[OF p(1,6) inv r(7)])
  have le: "pot n gr m' f' r + ?R \<le> 1 + edge_total G gr" using d(5) tot r(6) by linarith
  have "case r of Inl b' \<Rightarrow> pwsa_J n M h Hmax gr src dst sc m' (add_mset f' F) (add_mset b' B)
     | Inr found \<Rightarrow> pwsa_J n M h Hmax gr src dst sc m' (add_mset f' F) B \<and> (found \<longrightarrow> expd (pm_states m') dst)"
  proof (cases r)
    case (Inl b')
    have "total_pot n gr m' (add_mset f' F) (add_mset b' B) = pot n gr m' f' (Inl b') + ?R" by (simp add: total_pot_def pot_def)
    moreover have "\<exists>A0. (\<forall>a. a \<in># A0 \<longrightarrow> a = Claimed dst) \<and> ps_inv G (max_weight gr) M gr src
       (pmem M (pm_states m') (held (add_mset f' F) (add_mset b' B)) (under_way dst (add_mset b' B) + A0))"
      using A0(1) inv' Inl by (intro exI[of _ A0]) (simp add: held_def under_way_def ac_simps)
    ultimately show ?thesis using d r le Inl by (auto simp: pwsa_J_def)
  next
    case (Inr found)
    have "total_pot n gr m' (add_mset f' F) B = pot n gr m' f' r + ?R" using Inr by (simp add: total_pot_def pot_def bpot_def)
    moreover have "\<exists>A0. (\<forall>a. a \<in># A0 \<longrightarrow> a = Claimed dst) \<and> ps_inv G (max_weight gr) M gr src
       (pmem M (pm_states m') (held (add_mset f' F) B) (under_way dst B + A0))"
      using A0(1) inv' Inr by (intro exI[of _ "bacts dst r + A0"]) (cases found; simp add: held_def ac_simps)
    ultimately show ?thesis using d r le Inr by (auto simp: pwsa_J_def)
  qed
  then show ?thesis using run r(4) by blast
qed

end

sublocale par_ctx \<subseteq> pwsa: pw_work "pwsa_client H G M neg h gr dst sc poll" n "\<lambda>f. entries f = {#}" "\<lambda>f. 2 \<le> size (entries f)"
  "pwsa_J n M h Hmax gr src dst sc" "\<lambda>m. expd (pm_states m) dst"
  for M neg h gr dst sc poll n Hmax src
proof (unfold_locales, goal_cases)
  case 1
  then show ?case by (simp add: pwsa_client_def new(2))
next
  case (2 i m F B f sz m')
  then show ?case using pwsa_size_law[OF 2(2,3), of i sz m'] by (simp add: pwsa_client_def)
next
  case (3 i m f g F B)
  then show ?case using pwsa_fork_law[OF 3(2-4), of i] by (simp add: pwsa_client_def)
next
  case (4 m F B)
  then show ?case using pwsa_start_law by (simp add: pwsa_client_def)
next
  case (5 i m f F b B)
  then show ?case using pwsa_body_law[OF 5(1,2), of neg poll] by (simp add: pwsa_client_def)
qed


section \<open>Reachable states\<close>

lemma sum_start_frontiers:
  assumes "leader < n" "\<phi> (cl_new cl) = (0 :: 'c :: comm_monoid_add)"
  shows "(\<Sum>f \<in># all_frontiers n (pw_start cl m input leader ans). \<phi> f) = \<phi> input"
proof -
  have z: "(\<Sum>f \<in># (\<Sum>k \<in> S. {#cl_new cl#}). \<phi> f) = 0" if "finite S" for S :: "nat set"
    using that by (induction rule: finite_induct) (simp_all add: assms(2))
  have "(\<Sum>k<n. {#if k = leader then input else cl_new cl#}) = add_mset input (\<Sum>k \<in> {..<n} - {leader}. {#cl_new cl#})"
    by (rule sum_upd[OF assms(1)])
  then show ?thesis using z by (simp add: all_frontiers_def pw_start_def)
qed

lemma in_sum_singletons: "(f \<in># (\<Sum>k \<in> S. {#g k#})) \<longleftrightarrow> finite S \<and> f \<in> g ` S"
  by (cases "finite S") (auto simp: sum.infinite set_mset_sum)

lemma start_frontiers_cases:
  "f \<in># all_frontiers n (pw_start cl m input leader ans) \<Longrightarrow> f = input \<or> f = cl_new cl"
proof (induction n)
  case (Suc n)
  then show ?case by (auto simp: all_frontiers_def pw_start_def split: if_splits)
qed (simp add: all_frontiers_def)

context par_ctx
begin

lemma pwsa_setup_ok:
  assumes pre: "pwsa_pre M h Hmax gr src sc" and l: "leader < n"
  shows "\<exists>m f. pwsa_setup H G M h gr src pebble weak = Inr (m, f) \<and>
    pwsa_J n M h Hmax gr src dst sc m (all_frontiers n (pw_start (pwsa_client H G M neg h gr dst sc poll) m f leader ans)) {#}"
proof -
  note p = pwsa_preD[OF pre]
  let ?N = "number_vertices G gr"
  have N: "0 \<le> ?N" by (rule nonneg_size[OF p(1)])
  have src: "0 \<le> src" "src < ?N" "0 \<le> h src" and hM: "h src \<le> LONG_MAX"
  proof -
    have "0 \<le> ?N * max_weight gr" "?N * max_weight gr + Hmax < M" using p(2) N by (auto simp: search_pre_def)
    moreover have "h src \<le> Hmax" using p(2) by (simp add: search_pre_def)
    ultimately show "h src \<le> LONG_MAX" using p(3) by linarith
  qed (use p(2) in \<open>auto simp: search_pre_def\<close>)
  let ?z = "\<lparr>st_is_expanded = False, st_gpred = \<lparr>vp_distance = M, vp_pred = -1\<rparr>, st_h = -1\<rparr>"
  define st where "st = (pwsa_init M ?N)[nat src := ?z\<lparr>st_gpred := \<lparr>vp_distance = 0, vp_pred = src\<rparr>, st_h := h src\<rparr>]"
  have len: "int (length st) = ?N" using N by (simp add: st_def pwsa_init_def)
  obtain f where f: "op_insert H (h src) src (op_new H) = Inr f" "invar f" "entries f = {#(h src, src)#}"
    using insert[OF new(1) hM, of src] by (auto simp: new(2))
  define m where "m = \<lparr>pm_states = st, pm_pebbles = init_pebbles pebble ?N, pm_steps = (\<lambda>i. 0), pm_weak = weak, pm_weak_no = 0\<rparr>"
  have run: "pwsa_setup H G M h gr src pebble weak = Inr (m, f)"
    using src f(1) by (simp add: pwsa_setup_def pwsa_init_def pwsa_my_heur_def Let_def st_def m_def)
  have D: "fld st_dist M st = (\<lambda>v. if v = src then 0 else M)" "fld st_pred (-1) st = (\<lambda>v. if v = src then src else -1)"
    "expd st = (\<lambda>_. False)" "fld st_h (-1) st = (\<lambda>v. if v = src then h src else -1)"
    using src by (auto simp: fun_eq_iff st_def fld_update pwsa_init_def fld_replicate st_dist_def st_pred_def)
  let ?F = "all_frontiers n (pw_start (pwsa_client H G M neg h gr dst sc poll) m f leader ans)"
  have new': "cl_new (pwsa_client H G M neg h gr dst sc poll) = op_new H" by (simp add: pwsa_client_def)
  have "held ?F {#} = {#src#}" using sum_start_frontiers[OF l, of queued "pwsa_client H G M neg h gr dst sc poll" m f ans] f(3)
    by (simp add: held_def new' new(2))
  then have "pmem M (pm_states m) (held ?F {#}) (under_way dst {#} + {#}) = ps_init M src (\<lambda>v. if v = src then src else -1)"
    by (simp add: pmem_def ps_init_def under_way_def m_def D)
  moreover have "ps_inv G (max_weight gr) M gr src (ps_init M src (\<lambda>v. if v = src then src else -1))"
    by (rule ps_inv_init[OF p(6,1)])
  ultimately have inv: "\<exists>A0. (\<forall>a. a \<in># A0 \<longrightarrow> a = Claimed dst) \<and>
       ps_inv G (max_weight gr) M gr src (pmem M (pm_states m) (held ?F {#}) (under_way dst {#} + A0))"
    by (intro exI[of _ "{#}"]) simp
  have "(\<Sum>g \<in># ?F. int (size (entries g))) = 1"
    using sum_start_frontiers[OF l, of "\<lambda>g. int (size (entries g))" "pwsa_client H G M neg h gr dst sc poll" m f ans] f(3) by (simp add: new' new(2))
  then have "total_pot n gr m ?F {#} \<le> 1 + edge_total G gr" by (simp add: total_pot_def m_def D unclaimed_def edge_total_def)
  moreover have "mem_ok n h gr m" using len N src by (auto simp: mem_ok_def m_def pmemo_ok_def D)
  moreover have "invar g" if "g \<in># ?F" for g using start_frontiers_cases[OF that] f(2) new(1) by (auto simp: new')
  ultimately show ?thesis using run inv pre by (auto simp: pwsa_J_def)
qed

lemma pwsa_reach_inv:
  assumes pre: "pwsa_pre M h Hmax gr src sc" and r: "pwsa_reach H G M neg h gr src dst sc poll pebble n s"
  shows "pwsa.pw_inv n M h Hmax gr src dst sc s" "0 < n"
proof -
  obtain weak leader ans m f where l: "leader < n" and s: "pwsa_setup H G M h gr src pebble weak = Inr (m, f)"
    "pw_reach (pwsa_client H G M neg h gr dst sc poll) n (pw_start (pwsa_client H G M neg h gr dst sc poll) m f leader ans) s"
    using r unfolding pwsa_reach_def by (elim exE conjE)
  have "pwsa_J n M h Hmax gr src dst sc m (all_frontiers n (pw_start (pwsa_client H G M neg h gr dst sc poll) m f leader ans)) {#}"
    using pwsa_setup_ok[OF pre l, of pebble weak dst neg poll ans] s(1) by auto
  from pwsa.reach_inv[OF s(2) pwsa.inv_start[OF l this]]
  show "pwsa.pw_inv n M h Hmax gr src dst sc s" .
  show "0 < n" using l by simp
qed

lemma pwsa_tree:
  assumes pre: "pwsa_pre M h Hmax gr src sc" and r: "pwsa_reach H G M neg h gr src dst sc poll pebble n s"
    and d: "expd (pm_states (pw_mem s)) dst"
  shows "\<exists>D P. result_tree G M gr src dst (pwsa_result s) D P"
proof -
  let ?m = "pw_mem s"
  have J: "pwsa_J n M h Hmax gr src dst sc ?m (all_frontiers n s) (all_bodies n s)"
    by (rule pwsa.pw_invD(2)[OF pwsa_reach_inv(1)[OF pre r]])
  obtain Q A where inv: "ps_inv G (max_weight gr) M gr src (pmem M (pm_states ?m) Q A)" using pwsa_JD(6)[OF J] by blast
  have "res_g (pwsa_result s) v = Inr (ps_D (pmem M (pm_states ?m) Q A) v) \<and>
    res_predecessor (pwsa_result s) v = Inr (ps_P (pmem M (pm_states ?m) Q A) v)" if "0 \<le> v" "v < number_vertices G gr" for v
    using mem_okD(1)[OF pwsa_JD(2)[OF J]] that by (simp add: pwsa_result_def PWSAResult_def fld_def st_dist_def st_pred_def)
  then have "result_tree G M gr src dst (pwsa_result s) (ps_D (pmem M (pm_states ?m) Q A)) (ps_P (pmem M (pm_states ?m) Q A))"
    by (intro claimed_result[OF inv]) (use d in auto)
  then show ?thesis by blast
qed

lemma pwsa_finished_result:
  assumes pre: "pwsa_pre M h Hmax gr src sc" and r: "pwsa_reach H G M neg h gr src dst sc poll pebble n s"
    and d: "pw_is_done s \<or> pw_finished n s"
  shows "\<exists>D P. result_tree G M gr src dst (pwsa_result s) D P"
proof (rule pwsa_tree[OF pre r])
  note i = pwsa_reach_inv[OF pre r]
  show "expd (pm_states (pw_mem s)) dst" using d pwsa.finished_goal[OF i(1) _ i(2)] pwsa.done_goal[OF i(1)] by blast
qed

lemma pwsa_reach_pebbles:
  assumes pre: "pwsa_pre M h Hmax gr src sc" and r: "pwsa_reach H G M neg h gr src dst sc poll pebble n s"
  shows "pebbles_ok (number_vertices G gr) (pm_pebbles (pw_mem s))"
  using pwsa_JD(2)[OF pwsa.pw_invD(2)[OF pwsa_reach_inv(1)[OF pre r]]] by (rule mem_okD(3))

text \<open>No frontier holds a vertex and no worker is inside the body.\<close>

definition pwsa_idle :: "nat \<Rightarrow> (pwsa_mem, 'h, pwsa_body) pw \<Rightarrow> bool" where
  "pwsa_idle n s \<longleftrightarrow> (\<forall>k<n. entries (pw_mine s k) = {#} \<and> entries (pw_frontiers s k) = {#} \<and> body_of (pw_pc s k) = {#})"

lemma pwsa_idle_complete:
  assumes pre: "pwsa_pre M h Hmax gr src sc" and r: "pwsa_reach H G M neg h gr src dst sc poll pebble n s"
    and idle: "pwsa_idle n s" and p: "path G gr src v c" and nd: "\<not> expd (pm_states (pw_mem s)) dst"
  shows "expd (pm_states (pw_mem s)) v"
proof -
  have J: "pwsa_J n M h Hmax gr src dst sc (pw_mem s) (all_frontiers n s) (all_bodies n s)"
    by (rule pwsa.pw_invD(2)[OF pwsa_reach_inv(1)[OF pre r]])
  obtain A0 where A0: "\<forall>a. a \<in># A0 \<longrightarrow> a = Claimed dst" "ps_inv G (max_weight gr) M gr src
      (pmem M (pm_states (pw_mem s)) (held (all_frontiers n s) (all_bodies n s)) (under_way dst (all_bodies n s) + A0))"
    using pwsa_JD(6)[OF J] by blast
  have b: "all_bodies n s = {#}" using idle by (simp add: all_bodies_def pwsa_idle_def)
  have "entries f = {#}" if "f \<in># all_frontiers n s" for f
    using that idle by (auto simp: all_frontiers_def pwsa_idle_def in_sum_singletons)
  then have q: "held (all_frontiers n s) (all_bodies n s) = {#}" by (simp add: held_def b)
  have "A0 = {#}"
  proof (rule ccontr)
    assume "A0 \<noteq> {#}"
    then have "Claimed dst \<in># A0" using A0(1) by (metis multiset_nonemptyE)
    then show False using ps_invD(8)[OF A0(2), of "Claimed dst"] nd by simp
  qed
  then have inv: "ps_inv G (max_weight gr) M gr src (pmem M (pm_states (pw_mem s)) {#} {#})" using A0(2) q b by (simp add: under_way_def)
  have "0 < M"
  proof -
    have "0 \<le> number_vertices G gr * max_weight gr" "number_vertices G gr * max_weight gr < M"
      using pwsa_preD(6)[OF pre] nonneg_size[OF pwsa_preD(1)[OF pre]] by (auto simp: par_pre_def)
    then show ?thesis by linarith
  qed
  from quiescent_complete[OF inv this _ _ p] show ?thesis by simp
qed

end

end
