(* ===== verification/Text_IO.thy ===== *)
theory Text_IO
  imports PWSA_Prelude
begin

text \<open>
  The part of C formatted input and output that the graph loader and the path dump use: \<open>fscanf\<close>
  with white space, literal and \<open>%d\<close> directives, and \<open>fprintf\<close> of a decimal number. A file is the
  list of its characters; reading consumes a prefix.
\<close>

abbreviation newline :: char where
  "newline \<equiv> CHR 0x0A"

definition isspace :: "char \<Rightarrow> bool" where
  "isspace c \<longleftrightarrow> c \<in> {CHR 0x20, CHR 0x09, CHR 0x0A, CHR 0x0B, CHR 0x0C, CHR 0x0D}"

definition isdigit :: "char \<Rightarrow> bool" where
  "isdigit c \<longleftrightarrow> 48 \<le> (of_char c :: nat) \<and> (of_char c :: nat) \<le> 57"

definition digit_val :: "char \<Rightarrow> int" where
  "digit_val c = int (of_char c) - 48"

section \<open>Reading\<close>

fun skip_ws :: "string \<Rightarrow> string" where
  "skip_ws [] = []"
| "skip_ws (c # s) = (if isspace c then skip_ws s else c # s)"

fun scan_digits :: "int \<Rightarrow> string \<Rightarrow> int \<times> string" where
  "scan_digits acc [] = (acc, [])"
| "scan_digits acc (c # s) = (if isdigit c then scan_digits (10 * acc + digit_val c) s else (acc, c # s))"

definition scan_unsigned :: "string \<Rightarrow> (int \<times> string) option" where
  "scan_unsigned s = (case s of [] \<Rightarrow> None | c # _ \<Rightarrow> if isdigit c then Some (scan_digits 0 s) else None)"

definition scan_int :: "string \<Rightarrow> (int \<times> string) option" where
  "scan_int s = (case s of
       [] \<Rightarrow> None
     | c # r \<Rightarrow> if c = CHR ''-'' then map_option (\<lambda>(n, r). (- n, r)) (scan_unsigned r)
               else if c = CHR ''+'' then scan_unsigned r else scan_unsigned s)"

datatype directive = Ws | Lit char | Dec

fun parse_format :: "string \<Rightarrow> directive list" where
  "parse_format [] = []"
| "parse_format [c] = [if isspace c then Ws else Lit c]"
| "parse_format (c # d # s) =
     (if c = CHR ''%'' \<and> d = CHR ''d'' then Dec # parse_format s
      else (if isspace c then Ws else Lit c) # parse_format (d # s))"

text \<open>
  \<open>fscanf\<close>: the converted values and the rest of the input. A directive that does not match ends
  the call; a number outside \<open>int\<close> is undefined.
\<close>

fun scan_with :: "directive list \<Rightarrow> string \<Rightarrow> (int list \<times> string) result" where
  "scan_with [] s = Inr ([], s)"
| "scan_with (Ws # ds) s = scan_with ds (skip_ws s)"
| "scan_with (Lit c # ds) s =
     (case s of [] \<Rightarrow> Inr ([], []) | x # xs \<Rightarrow> if x = c then scan_with ds xs else Inr ([], s))"
| "scan_with (Dec # ds) s =
     (case scan_int (skip_ws s) of
        None \<Rightarrow> Inr ([], skip_ws s)
      | Some (n, r) \<Rightarrow>
          if - INT_MAX - 1 \<le> n \<and> n \<le> INT_MAX
          then ebind (scan_with ds r) (\<lambda>(ns, r). Inr (n # ns, r)) else Inl SignedOverflow)"

definition fscanf :: "string \<Rightarrow> string \<Rightarrow> (int list \<times> string) result" where
  "fscanf fmt s = scan_with (parse_format fmt) s"

section \<open>Printing\<close>

definition digit_char :: "nat \<Rightarrow> char" where
  "digit_char n = char_of (48 + n)"

fun show_nat :: "nat \<Rightarrow> string" where
  "show_nat n = (if n < 10 then [digit_char n] else show_nat (n div 10) @ [digit_char (n mod 10)])"

declare show_nat.simps [simp del]

definition show_int :: "int \<Rightarrow> string" where
  "show_int n = (if n < 0 then CHR ''-'' # show_nat (nat (- n)) else show_nat (nat n))"

section \<open>Reading back a printed number\<close>

lemma digit_char [simp]:
  "n < 10 \<Longrightarrow> isdigit (digit_char n)" "n < 10 \<Longrightarrow> digit_val (digit_char n) = int n"
proof -
  assume n: "n < 10"
  have "(of_char (digit_char n) :: nat) = 48 + n" using n by (simp add: digit_char_def)
  then show "isdigit (digit_char n)" "digit_val (digit_char n) = int n"
    using n by (simp_all add: isdigit_def digit_val_def)
qed

lemma isdigit_props [simp]:
  assumes "isdigit c"
  shows "\<not> isspace c" "c \<noteq> CHR ''-''" "c \<noteq> CHR ''+''"
  using assms by (auto simp: isspace_def isdigit_def)

lemma show_nat_digits: "\<forall>c \<in> set (show_nat n). isdigit c"
proof (induction n rule: show_nat.induct)
  case (1 n)
  then show ?case by (subst show_nat.simps) auto
qed

lemma show_nat_ne: "\<exists>c r. show_nat n = c # r \<and> isdigit c"
proof -
  have "show_nat n \<noteq> []" by (subst show_nat.simps) auto
  then show ?thesis using show_nat_digits[of n] by (cases "show_nat n") auto
qed

lemma scan_digits_show:
  "scan_digits acc (show_nat n @ r) = scan_digits (acc * 10 ^ length (show_nat n) + int n) r"
proof (induction n arbitrary: acc r rule: show_nat.induct)
  case (1 n)
  show ?case
  proof (cases "n < 10")
    case True
    then show ?thesis by (subst (1 2) show_nat.simps) (simp add: mult.commute)
  next
    case False
    then show ?thesis using 1[OF False, of acc "digit_char (n mod 10) # r"]
      by (subst (1 2) show_nat.simps) (simp add: algebra_simps zdiv_int zmod_int)
  qed
qed

lemma scan_int_show:
  assumes "r = [] \<or> \<not> isdigit (hd r)"
  shows "scan_int (show_nat n @ r) = Some (int n, r)"
proof -
  obtain c s where c: "show_nat n = c # s" "isdigit c" using show_nat_ne by blast
  have "scan_digits 0 (show_nat n @ r) = (int n, r)"
    using assms scan_digits_show[of 0 n r] by (cases r) auto
  then show ?thesis using c by (simp add: scan_int_def scan_unsigned_def)
qed

end
