(* ===== verification/Weighted_Graph.thy ===== *)
theory Weighted_Graph
  imports AStar Text_IO
begin

text \<open>
  The grid graphs of \<open>src/src/shared/weighted_graph.hpp\<close>: class \<open>Graph\<close> with the octile costs
  10000 and 14142, its loader, its neighbour arrays, the Euclidean heuristic, the length of a
  reported path and the dump of a search. Class \<open>LifeGraph\<close> repeats this code with arc weights
  that depend on the row; what both share is written once here over the function \<open>wt\<close> from the
  row of the neighbour and the index of the direction to the weight.
\<close>

section \<open>Data\<close>

record coords =
  row :: int
  col :: int

record neighbor =
  vertex :: int
  weight :: int

record Graph =
  grid :: "int list list"
  vertices :: "coords list"
  height :: int
  width :: int
  neighbor_offsets :: "int list"
  neighbors :: "neighbor list"

definition OBSTACLE :: int where
  "OBSTACLE = -1"

definition drow :: "int list" where
  "drow = [-1, -1, -1, 0, 0, 1, 1, 1]"

definition dcol :: "int list" where
  "dcol = [-1, 0, 1, -1, 1, -1, 0, 1]"

definition dist :: "int list" where
  "dist = [14142, 10000, 14142, 10000, 10000, 14142, 10000, 14142]"

definition cell :: "Graph \<Rightarrow> int \<Rightarrow> int \<Rightarrow> int result" where
  "cell g r c = ebind (arr_get (grid g) r) (\<lambda>cs. arr_get cs c)"

definition grid_set :: "int list list \<Rightarrow> int \<Rightarrow> int \<Rightarrow> int \<Rightarrow> int list list result" where
  "grid_set gr r c x = ebind (arr_get gr r) (\<lambda>cs. ebind (arr_set cs c x) (arr_set gr r))"

text \<open>The weight rule of class \<open>Graph\<close>: \<open>dist[i]\<close>.\<close>

definition octile_weight :: "int \<Rightarrow> nat \<Rightarrow> int" where
  "octile_weight nghrow i = dist ! i"

section \<open>The neighbour arrays\<close>

text \<open>The test of one direction that \<open>populate_neighbors\<close> and \<open>check_neighbors\<close> share.\<close>

definition ngh_at :: "(int \<Rightarrow> nat \<Rightarrow> int) \<Rightarrow> Graph \<Rightarrow> coords \<Rightarrow> nat \<Rightarrow> neighbor option result" where
  "ngh_at wt g p i =
     (let nghrow = row p + drow ! i; nghcol = col p + dcol ! i in
      if 0 \<le> nghrow \<and> nghrow < height g \<and> 0 \<le> nghcol \<and> nghcol < width g
      then ebind (cell g nghrow nghcol) (\<lambda>x.
           Inr (if x \<noteq> OBSTACLE then Some \<lparr>vertex = x, weight = wt nghrow i\<rparr> else None))
      else Inr None)"

definition add_ngh ::
  "(int \<Rightarrow> nat \<Rightarrow> int) \<Rightarrow> Graph \<Rightarrow> coords \<Rightarrow> nat \<Rightarrow> int \<times> neighbor list \<Rightarrow> (int \<times> neighbor list) result" where
  "add_ngh wt g p i s = (case s of (curr_offset, nghs) \<Rightarrow>
     ebind (ngh_at wt g p i) (\<lambda>u. case u of
         None \<Rightarrow> Inr (curr_offset, nghs)
       | Some u \<Rightarrow> ebind (num_add INT_MAX curr_offset 1) (\<lambda>curr_offset. Inr (curr_offset, nghs @ [u]))))"

definition populate_vertex ::
  "(int \<Rightarrow> nat \<Rightarrow> int) \<Rightarrow> Graph \<Rightarrow> int \<Rightarrow> int \<times> int list \<times> neighbor list \<Rightarrow> (int \<times> int list \<times> neighbor list) result" where
  "populate_vertex wt g v s = (case s of (curr_offset, offsets, nghs) \<Rightarrow>
     ebind (arr_set offsets v curr_offset) (\<lambda>offsets.
     ebind (arr_get (vertices g) v) (\<lambda>p.
     ebind (efold (add_ngh wt g p) [0..<8] (curr_offset, nghs)) (\<lambda>(curr_offset, nghs).
       Inr (curr_offset, offsets, nghs)))))"

definition resize :: "nat \<Rightarrow> 'a \<Rightarrow> 'a list \<Rightarrow> 'a list" where
  "resize n x xs = take n xs @ replicate (n - length xs) x"

definition populate_with :: "(int \<Rightarrow> nat \<Rightarrow> int) \<Rightarrow> Graph \<Rightarrow> Graph result" where
  "populate_with wt g =
     (let n = length (vertices g) in
      ebind (efold (populate_vertex wt g) (map int [0..<n]) (0, resize (n + 1) 0 (neighbor_offsets g), neighbors g))
        (\<lambda>(curr_offset, offsets, nghs).
      ebind (arr_set offsets (int n) curr_offset) (\<lambda>offsets.
        Inr (g\<lparr>neighbor_offsets := offsets, neighbors := nghs\<rparr>))))"

definition populate_neighbors :: "Graph \<Rightarrow> Graph result" where
  "populate_neighbors = populate_with octile_weight"

definition degree :: "Graph \<Rightarrow> int \<Rightarrow> int result" where
  "degree g v =
     ebind (arr_get (neighbor_offsets g) (v + 1)) (\<lambda>a. ebind (arr_get (neighbor_offsets g) v) (\<lambda>b. Inr (a - b)))"

text \<open>\<open>None\<close>: the check has returned \<open>false\<close>.\<close>

definition check_dir ::
  "(int \<Rightarrow> nat \<Rightarrow> int) \<Rightarrow> Graph \<Rightarrow> int \<Rightarrow> coords \<Rightarrow> nat \<Rightarrow> int option \<Rightarrow> int option result" where
  "check_dir wt g v p i s = (case s of None \<Rightarrow> Inr None | Some deg \<Rightarrow>
     ebind (ngh_at wt g p i) (\<lambda>u. case u of
         None \<Rightarrow> Inr (Some deg)
       | Some u \<Rightarrow> ebind (arr_get (neighbor_offsets g) v) (\<lambda>off.
           ebind (arr_get (neighbors g) (off + deg)) (\<lambda>x.
             if vertex x \<noteq> vertex u then Inr None
             else if weight x \<noteq> weight u then Inr None
             else Inr (Some (deg + 1))))))"

definition check_vertex :: "(int \<Rightarrow> nat \<Rightarrow> int) \<Rightarrow> Graph \<Rightarrow> int \<Rightarrow> bool \<Rightarrow> bool result" where
  "check_vertex wt g v b = (if \<not> b then Inr False else
     ebind (arr_get (vertices g) v) (\<lambda>p.
     ebind (efold (check_dir wt g v p) [0..<8] (Some 0)) (\<lambda>d. case d of
         None \<Rightarrow> Inr False
       | Some deg \<Rightarrow> ebind (degree g v) (\<lambda>dv. Inr (deg = dv)))))"

definition check_with :: "(int \<Rightarrow> nat \<Rightarrow> int) \<Rightarrow> Graph \<Rightarrow> bool result" where
  "check_with wt g = efold (check_vertex wt g) (map int [0..<length (vertices g)]) True"

definition check_neighbors :: "Graph \<Rightarrow> bool result" where
  "check_neighbors = check_with octile_weight"

section \<open>Loading a map\<close>

definition Graph_empty :: Graph where
  "Graph_empty = \<lparr>grid = [], vertices = [], height = 0, width = 0, neighbor_offsets = [], neighbors = []\<rparr>"

text \<open>\<open>fscanf(fin,"%c",&c)\<close> until the character is no line break.\<close>

fun read_char :: "string \<Rightarrow> (char \<times> string) result" where
  "read_char [] = Inl UninitRead"
| "read_char (c # s) = (if c = newline then read_char s else Inr (c, s))"

type_synonym load_state = "int list list \<times> coords list \<times> int \<times> string"

definition load_cell :: "int \<Rightarrow> int \<Rightarrow> load_state \<Rightarrow> load_state result" where
  "load_cell i j s = (case s of (gr, vs, next_id, input) \<Rightarrow>
     ebind (read_char input) (\<lambda>(c, input).
       if c = CHR ''.'' \<or> c = CHR ''G''
       then ebind (arr_set vs next_id \<lparr>row = i, col = j\<rparr>) (\<lambda>vs.
            ebind (grid_set gr i j next_id) (\<lambda>gr. Inr (gr, vs, next_id + 1, input)))
       else if c = CHR ''@'' \<or> c = CHR ''O'' \<or> c = CHR ''T'' \<or> c = CHR ''S'' \<or> c = CHR ''W''
       then ebind (grid_set gr i j OBSTACLE) (\<lambda>gr. Inr (gr, vs, next_id, input))
       else Inr (gr, vs, next_id, input)))"

definition load_row :: "int \<Rightarrow> int \<Rightarrow> load_state \<Rightarrow> load_state result" where
  "load_row w i s = efold (load_cell i) (map int [0..<nat w]) s"

definition header_height :: string where
  "header_height = ''type octile'' @ [newline] @ ''height %d'' @ [newline]"

definition header_width :: string where
  "header_width = ''width %d'' @ [newline] @ '' map'' @ [newline]"

definition load_grid :: "string \<Rightarrow> Graph result" where
  "load_grid fin =
     ebind (fscanf header_height fin) (\<lambda>(hs, fin).
     ebind (fscanf header_width fin) (\<lambda>(ws, fin).
       case (hs, ws) of
         ([h], [w]) \<Rightarrow>
           if h < 0 then Inl LengthError else
           ebind (num_mul INT_MAX w h) (\<lambda>n.
           if n < 0 then Inl LengthError else
           ebind (efold (load_row w) (map int [0..<nat h])
                    (replicate (nat h) (replicate (nat w) 0), replicate (nat n) \<lparr>row = 0, col = 0\<rparr>, 0, fin))
             (\<lambda>(gr, vs, next_id, fin).
                Inr (Graph_empty\<lparr>grid := gr, vertices := take (nat next_id) vs, height := h, width := w\<rparr>)))
       | _ \<Rightarrow> Inl UninitRead))"

definition load_with :: "(int \<Rightarrow> nat \<Rightarrow> int) \<Rightarrow> string \<Rightarrow> Graph result" where
  "load_with wt fin =
     ebind (load_grid fin) (\<lambda>g.
     ebind (populate_with wt g) (\<lambda>g.
     ebind (check_with wt g) (\<lambda>b.
     ebind (eassert b) (\<lambda>_. Inr g))))"

definition Graph_load :: "string \<Rightarrow> Graph result" where
  "Graph_load = load_with octile_weight"

section \<open>Queries\<close>

definition coords_of :: "Graph \<Rightarrow> int \<Rightarrow> (int \<times> int) result" where
  "coords_of g v = ebind (arr_get (vertices g) v) (\<lambda>p. Inr (row p, col p))"

definition vertex_at :: "Graph \<Rightarrow> int \<Rightarrow> int \<Rightarrow> int result" where
  "vertex_at g r c = cell g r c"

definition visit_neighbor :: "Graph \<Rightarrow> int \<Rightarrow> (int \<Rightarrow> int \<Rightarrow> 's \<Rightarrow> 's result) \<Rightarrow> int \<Rightarrow> 's \<Rightarrow> 's result" where
  "visit_neighbor g v f i s =
     ebind (arr_get (neighbor_offsets g) v) (\<lambda>off.
     ebind (arr_get (neighbors g) (off + i)) (\<lambda>u. f (vertex u) (weight u) s))"

definition for_each_neighbor_in_range ::
  "Graph \<Rightarrow> int \<Rightarrow> int \<Rightarrow> int \<Rightarrow> (int \<Rightarrow> int \<Rightarrow> 's \<Rightarrow> 's result) \<Rightarrow> 's \<Rightarrow> 's result" where
  "for_each_neighbor_in_range g v start end f s =
     ebind (degree g v) (\<lambda>d.
     ebind (eassert (0 \<le> start \<and> start \<le> end \<and> end \<le> d)) (\<lambda>_.
       efold (visit_neighbor g v f) [start..end - 1] s))"

definition for_each_neighbor_of ::
  "Graph \<Rightarrow> int \<Rightarrow> (int \<Rightarrow> int \<Rightarrow> 's \<Rightarrow> 's result) \<Rightarrow> 's \<Rightarrow> 's result" where
  "for_each_neighbor_of g v f s = ebind (degree g v) (\<lambda>degv. efold (visit_neighbor g v f) [0..degv - 1] s)"

text \<open>The operations of the template parameter \<open>GRAPH\<close>: the pairs the loop above visits, in order.\<close>

definition collect_neighbors :: "Graph \<Rightarrow> int \<Rightarrow> (int \<times> int) list result" where
  "collect_neighbors g v = for_each_neighbor_of g v (\<lambda>nbr w acc. Inr (acc @ [(nbr, w)])) []"

definition grid_ops :: "Graph graph_ops" where
  "grid_ops = \<lparr>number_vertices = (\<lambda>g. int (length (vertices g))), neighbor_list = collect_neighbors\<rparr>"

definition weight_with :: "(int \<Rightarrow> int) \<Rightarrow> Graph \<Rightarrow> int \<Rightarrow> int \<Rightarrow> int result" where
  "weight_with scale g u v =
     ebind (arr_get (vertices g) u) (\<lambda>pu.
     ebind (arr_get (vertices g) v) (\<lambda>pv.
       let diff = \<bar>row pu - row pv\<bar> + \<bar>col pu - col pv\<bar> in
       if diff = 0 then Inr 0
       else if diff = 1 then Inr (scale (row pu) * 10000)
       else if diff = 2 then Inr (scale (row pu) * 14142)
       else Inl ExitFailure))"

definition weight_between :: "Graph \<Rightarrow> int \<Rightarrow> int \<Rightarrow> int result" where
  "weight_between = weight_with (\<lambda>u_row. 1)"

text \<open>One turn of the loop of \<open>pathlen\<close>, over the successor function of the loop.\<close>

definition pathlen_iter ::
  "int \<Rightarrow> (int \<Rightarrow> int \<Rightarrow> int result) \<Rightarrow> (int \<Rightarrow> int result) \<Rightarrow> int \<Rightarrow> int \<times> int \<Rightarrow> (int \<times> int) loop result" where
  "pathlen_iter M wgt predecessor src s = (case s of (cur, len) \<Rightarrow>
     if cur = src then Inr (Break (cur, len))
     else ebind (predecessor cur) (\<lambda>p.
          ebind (wgt cur p) (\<lambda>w.
          ebind (num_add M len w) (\<lambda>len. Inr (Continue (p, len))))))"

definition pathlen :: "Graph \<Rightarrow> SearchResult \<Rightarrow> int \<Rightarrow> int \<Rightarrow> int result option" where
  "pathlen g res src dst = map_option (\<lambda>r. ebind r (\<lambda>(cur, len). Inr len))
     (run_loop (pathlen_iter INT_MAX (weight_between g) (res_predecessor res) src) (dst, 0))"

definition pathlen_arr :: "Graph \<Rightarrow> int list \<Rightarrow> int \<Rightarrow> int \<Rightarrow> int result option" where
  "pathlen_arr g predecessors src dst = map_option (\<lambda>r. ebind r (\<lambda>(cur, len). Inr len))
     (run_loop (pathlen_iter INT_MAX (weight_between g) (arr_get predecessors) src) (dst, 0))"

text \<open>
  The heuristic, with the floating-point expression read over the real numbers; the conversion
  to \<open>int\<close> truncates.
\<close>

definition truncate_real :: "real \<Rightarrow> int" where
  "truncate_real x = (if 0 \<le> x then \<lfloor>x\<rfloor> else \<lceil>x\<rceil>)"

text \<open>The conversion to \<open>long\<close>, which is undefined out of range.\<close>

definition to_long :: "real \<Rightarrow> int result" where
  "to_long x = (let t = truncate_real x in if - LONG_MAX - 1 \<le> t \<and> t \<le> LONG_MAX then Inr t else Inl SignedOverflow)"

definition weighted_euclidean :: "Graph \<Rightarrow> real \<Rightarrow> int \<Rightarrow> int \<Rightarrow> int result" where
  "weighted_euclidean g w u v =
     ebind (arr_get (vertices g) u) (\<lambda>pu.
     ebind (arr_get (vertices g) v) (\<lambda>pv.
       let x = truncate_real (10000 * w * sqrt ((real_of_int (row pu - row pv))\<^sup>2 + (real_of_int (col pu - col pv))\<^sup>2)) in
       if - INT_MAX - 1 \<le> x \<and> x \<le> INT_MAX then Inr x else Inl SignedOverflow))"

section \<open>The dump of a search\<close>

definition dump_cell :: "Graph \<Rightarrow> int list \<Rightarrow> int \<Rightarrow> int \<Rightarrow> int \<Rightarrow> int \<Rightarrow> string \<Rightarrow> string result" where
  "dump_cell g pebbles src dst r c out =
     ebind (cell g r c) (\<lambda>x.
     ebind (if x = OBSTACLE then Inr ''@''
            else if x = src then Inr ''s''
            else if x = dst then Inr ''t''
            else ebind (arr_get pebbles x) (\<lambda>p. Inr (if p = -1 then ''.'' else show_int p))) (\<lambda>txt.
       Inr (out @ txt @ (if c \<noteq> width g - 1 then '' '' else []))))"

definition dump_row :: "Graph \<Rightarrow> int list \<Rightarrow> int \<Rightarrow> int \<Rightarrow> int \<Rightarrow> string \<Rightarrow> string result" where
  "dump_row g pebbles src dst r out =
     ebind (efold (dump_cell g pebbles src dst r) (map int [0..<nat (width g)]) out) (\<lambda>out. Inr (out @ [newline]))"

definition dump_path_iter ::
  "Graph \<Rightarrow> int list \<Rightarrow> int \<Rightarrow> int \<times> coords list \<Rightarrow> (int \<times> coords list) loop result" where
  "dump_path_iter g predecessors src s = (case s of (cur_vtx, route) \<Rightarrow>
     if cur_vtx = src then Inr (Break (cur_vtx, route))
     else ebind (arr_get (vertices g) cur_vtx) (\<lambda>p.
          ebind (arr_get predecessors cur_vtx) (\<lambda>nxt. Inr (Continue (nxt, route @ [p])))))"

definition dump_coord :: "coords \<Rightarrow> string" where
  "dump_coord p = show_int (row p) @ '' '' @ show_int (col p) @ [newline]"

definition pebble_dump_arr ::
  "Graph \<Rightarrow> int list \<Rightarrow> int list \<Rightarrow> int \<Rightarrow> int \<Rightarrow> string result option" where
  "pebble_dump_arr g pebbles predecessors src dst =
     (case efold (dump_row g pebbles src dst) (map int [0..<nat (height g)])
             (''width '' @ show_int (width g) @ [newline] @ ''height '' @ show_int (height g) @ [newline]) of
        Inl e \<Rightarrow> Some (Inl e)
      | Inr out \<Rightarrow> map_option (\<lambda>r. ebind r (\<lambda>(cur_vtx, route).
          ebind (arr_get (vertices g) cur_vtx) (\<lambda>p.
            Inr (out @ concat (map dump_coord (rev (route @ [p])))))))
          (run_loop (dump_path_iter g predecessors src) (dst, [])))"

definition copy_result :: "(int \<Rightarrow> int result) \<Rightarrow> int list \<Rightarrow> int list result" where
  "copy_result f is = efold (\<lambda>i acc. ebind (f i) (\<lambda>x. Inr (acc @ [x]))) is []"

definition pebble_dump :: "Graph \<Rightarrow> SearchResult \<Rightarrow> int \<Rightarrow> int \<Rightarrow> string result option" where
  "pebble_dump g result src dst =
     (let is = map int [0..<length (vertices g)] in
      case ebind (copy_result (res_pebble result) is) (\<lambda>pebbles.
           ebind (copy_result (res_predecessor result) is) (\<lambda>predecessors. Inr (pebbles, predecessors))) of
        Inl e \<Rightarrow> Some (Inl e)
      | Inr (pebbles, predecessors) \<Rightarrow> pebble_dump_arr g pebbles predecessors src dst)"

section \<open>Well-formed grids\<close>

definition cell_at :: "Graph \<Rightarrow> int \<Rightarrow> int \<Rightarrow> int" where
  "cell_at g r c = grid g ! nat r ! nat c"

definition grid_ok :: "Graph \<Rightarrow> bool" where
  "grid_ok g \<longleftrightarrow> int (length (grid g)) = height g \<and> (\<forall>cs \<in> set (grid g). int (length cs) = width g) \<and>
     8 * int (length (vertices g)) \<le> INT_MAX \<and>
     (\<forall>v < length (vertices g). let p = vertices g ! v in
        0 \<le> row p \<and> row p < height g \<and> 0 \<le> col p \<and> col p < width g \<and> cell_at g (row p) (col p) = int v) \<and>
     (\<forall>r c. 0 \<le> r \<and> r < height g \<and> 0 \<le> c \<and> c < width g \<longrightarrow> cell_at g r c = OBSTACLE \<or>
        0 \<le> cell_at g r c \<and> cell_at g r c < int (length (vertices g)) \<and> vertices g ! nat (cell_at g r c) = \<lparr>row = r, col = c\<rparr>)"

definition ngh_opt :: "(int \<Rightarrow> nat \<Rightarrow> int) \<Rightarrow> Graph \<Rightarrow> coords \<Rightarrow> nat \<Rightarrow> neighbor option" where
  "ngh_opt wt g p i =
     (let r = row p + drow ! i; c = col p + dcol ! i in
      if 0 \<le> r \<and> r < height g \<and> 0 \<le> c \<and> c < width g \<and> cell_at g r c \<noteq> OBSTACLE
      then Some \<lparr>vertex = cell_at g r c, weight = wt r i\<rparr> else None)"

definition nghs :: "(int \<Rightarrow> nat \<Rightarrow> int) \<Rightarrow> Graph \<Rightarrow> nat \<Rightarrow> neighbor list" where
  "nghs wt g v = List.map_filter (ngh_opt wt g (vertices g ! v)) [0..<8]"

definition blocks :: "(int \<Rightarrow> nat \<Rightarrow> int) \<Rightarrow> Graph \<Rightarrow> nat \<Rightarrow> neighbor list" where
  "blocks wt g k = concat (map (nghs wt g) [0..<k])"

definition graph_ok :: "(int \<Rightarrow> nat \<Rightarrow> int) \<Rightarrow> Graph \<Rightarrow> bool" where
  "graph_ok wt g \<longleftrightarrow> grid_ok g \<and> length (neighbor_offsets g) = length (vertices g) + 1 \<and>
     neighbors g = blocks wt g (length (vertices g)) \<and>
     (\<forall>v \<le> length (vertices g). neighbor_offsets g ! v = int (length (blocks wt g v)))"

lemma grid_okD:
  assumes "grid_ok g"
  shows "int (length (grid g)) = height g" "r < length (grid g) \<Longrightarrow> int (length (grid g ! r)) = width g"
    "8 * int (length (vertices g)) \<le> INT_MAX"
    "v < length (vertices g) \<Longrightarrow> 0 \<le> row (vertices g ! v) \<and> row (vertices g ! v) < height g \<and>
      0 \<le> col (vertices g ! v) \<and> col (vertices g ! v) < width g \<and>
      cell_at g (row (vertices g ! v)) (col (vertices g ! v)) = int v"
    "\<lbrakk>0 \<le> i; i < height g; 0 \<le> c; c < width g; cell_at g i c \<noteq> OBSTACLE\<rbrakk> \<Longrightarrow>
      0 \<le> cell_at g i c \<and> cell_at g i c < int (length (vertices g)) \<and> vertices g ! nat (cell_at g i c) = \<lparr>row = i, col = c\<rparr>"
  using assms by (simp_all add: grid_ok_def Let_def) blast

lemma cell_ok:
  assumes "grid_ok g" "0 \<le> r" "r < height g" "0 \<le> c" "c < width g"
  shows "cell g r c = Inr (cell_at g r c)"
proof -
  note g = grid_okD(1,2)[OF assms(1)]
  have "nat r < length (grid g)" using assms(2,3) g(1) by linarith
  then show ?thesis using assms g by (simp add: cell_def cell_at_def)
qed

lemma ngh_at_ok: "grid_ok g \<Longrightarrow> ngh_at wt g p i = Inr (ngh_opt wt g p i)"
  by (simp add: ngh_at_def ngh_opt_def Let_def cell_ok)

lemma map_filter_length: "length (List.map_filter f xs) \<le> length xs"
  by (induction xs) (auto simp: List.map_filter_simps split: option.splits)

lemma nghs_length: "length (nghs wt g v) \<le> 8"
  using map_filter_length[of "ngh_opt wt g (vertices g ! v)" "[0..<8]"] by (simp add: nghs_def)

lemma blocks_Suc: "blocks wt g (Suc k) = blocks wt g k @ nghs wt g k"
  by (simp add: blocks_def)

lemma blocks_length: "length (blocks wt g k) \<le> 8 * k"
proof (induction k)
  case (Suc k)
  then show ?case using nghs_length[of wt g k] by (simp add: blocks_Suc)
qed (simp add: blocks_def)

lemma blocks_split: "v < n \<Longrightarrow> \<exists>rest. blocks wt g n = blocks wt g v @ nghs wt g v @ rest"
proof (induction n)
  case (Suc n)
  then show ?case by (cases "v = n") (auto simp: blocks_Suc)
qed simp

lemma add_ngh_all:
  assumes "grid_ok g" "0 \<le> off" "off + int (length is) \<le> INT_MAX"
  shows "efold (add_ngh wt g p) is (off, ns) =
    Inr (off + int (length (List.map_filter (ngh_opt wt g p) is)), ns @ List.map_filter (ngh_opt wt g p) is)"
  using assms(2,3)
proof (induction "is" arbitrary: off ns)
  case (Cons i "is")
  show ?case
  proof (cases "ngh_opt wt g p i")
    case None
    then show ?thesis using Cons by (simp add: add_ngh_def ngh_at_ok[OF assms(1)] List.map_filter_simps)
  next
    case (Some u)
    have "num_add INT_MAX off 1 = Inr (off + 1)" using Cons.prems by (intro num_add_ok) (auto simp: INT_MAX_def)
    then show ?thesis using Some Cons.IH[of "off + 1"] Cons.prems
      by (simp add: add_ngh_def ngh_at_ok[OF assms(1)] List.map_filter_simps)
  qed
qed (simp add: List.map_filter_simps)

text \<open>The rule for a counting loop.\<close>

lemma efold_upt:
  assumes "I 0 s" "\<And>k s. \<lbrakk>k < n; I k s\<rbrakk> \<Longrightarrow> \<exists>s'. f (int k) s = Inr s' \<and> I (Suc k) s'"
  shows "\<exists>s'. efold f (map int [0..<n]) s = Inr s' \<and> I n s'"
  using assms
proof (induction n)
  case (Suc n)
  then obtain s1 where "efold f (map int [0..<n]) s = Inr s1" "I n s1" by (meson less_Suc_eq)
  moreover from this obtain s2 where "f (int n) s1 = Inr s2" "I (Suc n) s2" using Suc.prems(2) by blast
  ultimately show ?case by (simp add: efold_append)
qed simp

lemma populate_correct:
  assumes ok: "grid_ok g" and emp: "neighbors g = []"
  shows "\<exists>offs. populate_with wt g = Inr (g\<lparr>neighbor_offsets := offs, neighbors := blocks wt g (length (vertices g))\<rparr>) \<and>
    length offs = length (vertices g) + 1 \<and>
    (\<forall>v \<le> length (vertices g). offs ! v = int (length (blocks wt g v)))"
proof -
  let ?n = "length (vertices g)"
  define I where "I = (\<lambda>k (off, offs, ns). length offs = ?n + 1 \<and> ns = blocks wt g k \<and>
     off = int (length ns) \<and> (\<forall>v < k. offs ! v = int (length (blocks wt g v))))"
  have "\<exists>s. efold (populate_vertex wt g) (map int [0..<?n]) (0, resize (?n + 1) 0 (neighbor_offsets g), neighbors g)
      = Inr s \<and> I ?n s"
  proof (rule efold_upt)
    show "I 0 (0, resize (?n + 1) 0 (neighbor_offsets g), neighbors g)"
      by (simp add: I_def emp blocks_def resize_def)
    fix k s assume k: "k < ?n" and Is: "I k s"
    obtain off offs ns where s: "s = (off, offs, ns)" by (cases s) auto
    note i = Is[unfolded I_def s prod.case]
    have b: "off + 8 \<le> INT_MAX" using i k blocks_length[of wt g k] grid_okD(3)[OF ok] by auto
    have off0: "0 \<le> off" using i by auto
    have "efold (add_ngh wt g (vertices g ! k)) [0..<8] (off, ns) =
      Inr (off + int (length (nghs wt g k)), ns @ nghs wt g k)"
      using add_ngh_all[OF ok off0, of "[0..<8]"] b by (simp add: nghs_def del: upt_rec_numeral)
    then show "\<exists>s'. populate_vertex wt g (int k) s = Inr s' \<and> I (Suc k) s'"
      using i k by (auto simp: populate_vertex_def s I_def blocks_Suc nth_list_update less_Suc_eq simp del: upt_rec_numeral)
  qed
  then obtain off offs where *: "efold (populate_vertex wt g) (map int [0..<?n])
      (0, resize (?n + 1) 0 (neighbor_offsets g), neighbors g) = Inr (off, offs, blocks wt g ?n)"
    "length offs = ?n + 1" "off = int (length (blocks wt g ?n))" "\<forall>v < ?n. offs ! v = int (length (blocks wt g v))"
    by (auto simp: I_def)
  then show ?thesis
    by (intro exI[of _ "offs[?n := off]"]) (auto simp: populate_with_def Let_def nth_list_update)
qed

lemma grid_ok_upd [simp]: "grid_ok (g\<lparr>neighbor_offsets := a, neighbors := b\<rparr>) = grid_ok g"
  by (simp add: grid_ok_def cell_at_def)

lemma nghs_upd [simp]: "nghs wt (g\<lparr>neighbor_offsets := a, neighbors := b\<rparr>) = nghs wt g"
proof -
  have "cell_at (g\<lparr>neighbor_offsets := a, neighbors := b\<rparr>) = cell_at g" by (simp add: cell_at_def fun_eq_iff)
  then have "ngh_opt wt (g\<lparr>neighbor_offsets := a, neighbors := b\<rparr>) = ngh_opt wt g"
    by (intro ext) (simp add: ngh_opt_def Let_def)
  then show ?thesis by (intro ext) (simp add: nghs_def)
qed

lemma blocks_upd [simp]: "blocks wt (g\<lparr>neighbor_offsets := a, neighbors := b\<rparr>) = blocks wt g"
  by (simp add: blocks_def fun_eq_iff)

lemma populate_graph_ok:
  assumes "grid_ok g" "neighbors g = []"
  shows "\<exists>g'. populate_with wt g = Inr g' \<and> graph_ok wt g' \<and> grid g' = grid g \<and> vertices g' = vertices g
    \<and> height g' = height g \<and> width g' = width g"
  using populate_correct[OF assms, of wt] assms(1) by (fastforce simp: graph_ok_def)

section \<open>Visiting neighbours\<close>

lemma neighbor_slot:
  assumes "graph_ok wt g" "v < length (vertices g)" "i < length (nghs wt g v)"
  shows "arr_get (neighbor_offsets g) (int v) = Inr (int (length (blocks wt g v)))"
    "arr_get (neighbors g) (int (length (blocks wt g v)) + int i) = Inr (nghs wt g v ! i)"
proof -
  obtain rest where r: "neighbors g = blocks wt g v @ nghs wt g v @ rest"
    using assms(1,2) blocks_split[of v "length (vertices g)" wt g] by (auto simp: graph_ok_def)
  show "arr_get (neighbor_offsets g) (int v) = Inr (int (length (blocks wt g v)))"
    using assms by (simp add: graph_ok_def)
  have "nat (int (length (blocks wt g v)) + int i) = length (blocks wt g v) + i" by simp
  then show "arr_get (neighbors g) (int (length (blocks wt g v)) + int i) = Inr (nghs wt g v ! i)"
    using assms(3) r by (simp add: arr_get_def nth_append)
qed

lemma degree_ok:
  assumes "graph_ok wt g" "v < length (vertices g)"
  shows "degree g (int v) = Inr (int (length (nghs wt g v)))"
proof -
  have "arr_get (neighbor_offsets g) (int v + 1) = Inr (int (length (blocks wt g (Suc v))))"
    using assms by (simp add: graph_ok_def arr_get_def nat_add_distrib)
  then show ?thesis using assms by (simp add: degree_def graph_ok_def arr_get_def blocks_Suc)
qed

lemma visit_range:
  assumes g: "graph_ok wt g" "v < length (vertices g)"
  shows "a + n \<le> length (nghs wt g v) \<Longrightarrow>
    efold (visit_neighbor g (int v) f) [int a..int (a + n) - 1] s =
    efold (\<lambda>u. f (vertex u) (weight u)) (take n (drop a (nghs wt g v))) s"
proof (induction n arbitrary: a s)
  case (Suc n)
  have up: "[int a..int (a + Suc n) - 1] = int a # [int (Suc a)..int (Suc a + n) - 1]"
    by (subst upto.simps) (simp add: algebra_simps)
  have dr: "take (Suc n) (drop a (nghs wt g v)) = nghs wt g v ! a # take n (drop (Suc a) (nghs wt g v))"
    using Suc.prems by (metis Cons_nth_drop_Suc add_Suc_right add_lessD1 le_simps(3) less_add_Suc1 order_less_le_trans take_Suc_Cons)
  have step: "visit_neighbor g (int v) f (int a) s = f (vertex (nghs wt g v ! a)) (weight (nghs wt g v ! a)) s"
    using neighbor_slot[OF g, of a] Suc.prems by (simp add: visit_neighbor_def)
  have "efold (visit_neighbor g (int v) f) [int (Suc a)..int (Suc a + n) - 1] =
    efold (\<lambda>u. f (vertex u) (weight u)) (take n (drop (Suc a) (nghs wt g v)))"
    using Suc.IH[of "Suc a"] Suc.prems by (intro ext) simp
  then show ?case unfolding up dr efold.simps step by simp
qed simp

lemma for_each_ok:
  assumes "graph_ok wt g" "v < length (vertices g)"
  shows "for_each_neighbor_of g (int v) f s = efold (\<lambda>u. f (vertex u) (weight u)) (nghs wt g v) s"
  using visit_range[OF assms, of 0 "length (nghs wt g v)" f s] degree_ok[OF assms]
  by (simp add: for_each_neighbor_of_def)

lemma efold_collect: "efold (\<lambda>u acc. Inr (acc @ [h u])) us acc = Inr (acc @ map h us)"
  by (induction us arbitrary: acc) auto

lemma collect_ok:
  assumes "graph_ok wt g" "v < length (vertices g)"
  shows "collect_neighbors g (int v) = Inr (map (\<lambda>u. (vertex u, weight u)) (nghs wt g v))"
  by (simp add: collect_neighbors_def for_each_ok[OF assms] efold_collect[of "\<lambda>u. (vertex u, weight u)", simplified])

section \<open>The consistency check\<close>

lemma check_dirs:
  assumes g: "graph_ok wt g" "v < length (vertices g)"
    and eq: "nghs wt g v = pre @ List.map_filter (ngh_opt wt g (vertices g ! v)) is"
  shows "efold (check_dir wt g (int v) (vertices g ! v)) is (Some (int (length pre))) =
    Inr (Some (int (length (nghs wt g v))))"
  using eq
proof (induction "is" arbitrary: pre)
  case (Cons i "is")
  have gr: "grid_ok g" using g(1) by (simp add: graph_ok_def)
  show ?case
  proof (cases "ngh_opt wt g (vertices g ! v) i")
    case None
    then have "check_dir wt g (int v) (vertices g ! v) i (Some (int (length pre))) = Inr (Some (int (length pre)))"
      by (simp add: check_dir_def ngh_at_ok[OF gr])
    then show ?thesis using None Cons by (simp add: List.map_filter_simps)
  next
    case (Some u)
    then have eq: "nghs wt g v = (pre @ [u]) @ List.map_filter (ngh_opt wt g (vertices g ! v)) is"
      using Cons.prems by (simp add: List.map_filter_simps)
    then have "length pre < length (nghs wt g v)" "nghs wt g v ! length pre = u" by (simp_all add: nth_append)
    then have "check_dir wt g (int v) (vertices g ! v) i (Some (int (length pre))) = Inr (Some (int (length (pre @ [u]))))"
      using neighbor_slot[OF g, of "length pre"] Some by (simp add: check_dir_def ngh_at_ok[OF gr])
    then show ?thesis using Cons.IH[OF eq] by simp
  qed
qed (simp add: List.map_filter_simps)

lemma check_ok:
  assumes g: "graph_ok wt g"
  shows "check_with wt g = Inr True"
proof -
  have "\<exists>b. efold (check_vertex wt g) (map int [0..<length (vertices g)]) True = Inr b \<and> b"
  proof (rule efold_upt[where I = "\<lambda>_ b. b"])
    fix k b assume k: "k < length (vertices g)" "b"
    have "efold (check_dir wt g (int k) (vertices g ! k)) [0..<8] (Some 0) = Inr (Some (int (length (nghs wt g k))))"
      using check_dirs[OF g k(1), of "[]" "[0..<8]"] by (simp add: nghs_def del: upt_rec_numeral)
    then show "\<exists>b'. check_vertex wt g (int k) b = Inr b' \<and> b'"
      using k degree_ok[OF g k(1)] by (intro exI[of _ True]) (simp add: check_vertex_def del: upt_rec_numeral)
  qed simp
  then show ?thesis by (auto simp: check_with_def)
qed

section \<open>Edges\<close>

lemma map_filter_set: "set (List.map_filter f xs) = {y. \<exists>x \<in> set xs. f x = Some y}"
  by (induction xs) (auto simp: List.map_filter_simps split: option.splits)

text \<open>An edge leads to a vertex one step away in one of the eight directions.\<close>

lemma grid_edge:
  assumes g: "graph_ok wt g" and e: "edge grid_ops g u v w"
  shows "\<exists>i < 8. 0 \<le> u \<and> u < int (length (vertices g)) \<and> 0 \<le> v \<and> v < int (length (vertices g)) \<and>
    row (vertices g ! nat v) = row (vertices g ! nat u) + drow ! i \<and>
    col (vertices g ! nat v) = col (vertices g ! nat u) + dcol ! i \<and> w = wt (row (vertices g ! nat v)) i"
proof -
  have u: "0 \<le> u" "u < int (length (vertices g))" using e by (auto simp: edge_def grid_ops_def)
  then have n: "nat u < length (vertices g)" by simp
  have "\<exists>i < 8. ngh_opt wt g (vertices g ! nat u) i = Some \<lparr>vertex = v, weight = w\<rparr>"
    using e u collect_ok[OF g n] by (auto simp: edge_def grid_ops_def nghs_def map_filter_set)
  then obtain i where i: "i < 8" "ngh_opt wt g (vertices g ! nat u) i = Some \<lparr>vertex = v, weight = w\<rparr>" by blast
  have gr: "grid_ok g" using g by (simp add: graph_ok_def)
  show ?thesis
    using i u grid_okD(5)[OF gr, of "row (vertices g ! nat u) + drow ! i" "col (vertices g ! nat u) + dcol ! i"]
    by (intro exI[of _ i]) (auto simp: ngh_opt_def Let_def split: if_splits)
qed

lemma grid_edgeI:
  assumes g: "graph_ok wt g" and uv: "u < length (vertices g)" "v < length (vertices g)"
    and i: "i < 8" "row (vertices g ! v) = row (vertices g ! u) + drow ! i"
      "col (vertices g ! v) = col (vertices g ! u) + dcol ! i"
  shows "edge grid_ops g (int u) (int v) (wt (row (vertices g ! v)) i)"
proof -
  have gr: "grid_ok g" using g by (simp add: graph_ok_def)
  have "ngh_opt wt g (vertices g ! u) i = Some \<lparr>vertex = int v, weight = wt (row (vertices g ! v)) i\<rparr>"
    using grid_okD(4)[OF gr uv(2)] by (simp add: ngh_opt_def Let_def i(2,3)[symmetric] OBSTACLE_def)
  then have "\<lparr>vertex = int v, weight = wt (row (vertices g ! v)) i\<rparr> \<in> set (nghs wt g u)"
    using i(1) by (auto simp: nghs_def map_filter_set)
  then show ?thesis using uv collect_ok[OF g uv(1)] by (force simp: edge_def grid_ops_def)
qed

lemma less_8E:
  fixes i :: nat
  assumes "i < 8"
  obtains "i = 0" | "i = 1" | "i = 2" | "i = 3" | "i = 4" | "i = 5" | "i = 6" | "i = 7"
  using assms by linarith

lemma dir_props:
  assumes "i < 8"
  shows "\<bar>drow ! i\<bar> + \<bar>dcol ! i\<bar> = 1 \<and> dist ! i = 10000 \<or> \<bar>drow ! i\<bar> = 1 \<and> \<bar>dcol ! i\<bar> = 1 \<and> dist ! i = 14142"
  using assms by (elim less_8E) (simp_all add: drow_def dcol_def dist_def)

interpretation og: search_graph grid_ops "graph_ok octile_weight" "\<lambda>g. 14142"
proof (unfold_locales, goal_cases)
  case (2 g u)
  then show ?case using collect_ok[of octile_weight g "nat u"] by (auto simp: grid_ops_def)
next
  case (3 g u v w)
  then show ?case using grid_edge[OF 3] dir_props by (fastforce simp: octile_weight_def grid_ops_def)
qed (simp add: grid_ops_def)

section \<open>The heuristic\<close>

definition euclid :: "coords \<Rightarrow> coords \<Rightarrow> real" where
  "euclid p q = sqrt ((real_of_int (row p - row q))\<^sup>2 + (real_of_int (col p - col q))\<^sup>2)"

lemma euclid_triangle: "euclid p r \<le> euclid p q + euclid q r"
  using real_sqrt_sum_squares_triangle_ineq[of "real_of_int (row p - row q)" "real_of_int (row q - row r)"
      "real_of_int (col p - col q)" "real_of_int (col q - col r)"]
  by (simp add: euclid_def)

lemma euclid_nonneg: "0 \<le> euclid p q"
  by (simp add: euclid_def)

lemma sqrt2_bound: "10000 * sqrt 2 \<le> (1.00001 :: real) * 14142"
proof -
  have "sqrt 2 \<le> (1.414214142 :: real)" by (rule real_le_lsqrt) (simp_all add: power2_eq_square)
  then show ?thesis by simp
qed

text \<open>A step costs at least the Euclidean distance, up to the rounding of 14142 for \<open>10000 \<surd>2\<close>.\<close>

lemma step_euclid:
  assumes "graph_ok octile_weight g" "edge grid_ops g u v w"
  shows "10000 * euclid (vertices g ! nat u) (vertices g ! nat v) \<le> 1.00001 * real_of_int w" "10000 \<le> w"
proof -
  obtain i where i: "i < 8" "row (vertices g ! nat v) = row (vertices g ! nat u) + drow ! i"
    "col (vertices g ! nat v) = col (vertices g ! nat u) + dcol ! i" "w = dist ! i"
    using grid_edge[OF assms] by (auto simp: octile_weight_def)
  have e: "euclid (vertices g ! nat u) (vertices g ! nat v) = sqrt ((real_of_int (drow ! i))\<^sup>2 + (real_of_int (dcol ! i))\<^sup>2)"
    by (simp add: euclid_def i)
  show "10000 * euclid (vertices g ! nat u) (vertices g ! nat v) \<le> 1.00001 * real_of_int w" "10000 \<le> w"
    unfolding e i(4) using i(1) sqrt2_bound
    by (elim less_8E; simp add: drow_def dcol_def dist_def)+
qed

definition euclid_heuristic :: "Graph \<Rightarrow> real \<Rightarrow> int \<Rightarrow> int \<Rightarrow> int" where
  "euclid_heuristic g w dst v = (case weighted_euclidean g w v dst of Inl e \<Rightarrow> 0 | Inr x \<Rightarrow> x)"

text \<open>On a grid whose diagonal, scaled, fits an \<open>int\<close>, the heuristic is defined on every vertex.\<close>

definition euclid_fits :: "Graph \<Rightarrow> real \<Rightarrow> int \<Rightarrow> bool" where
  "euclid_fits g w Hmax \<longleftrightarrow> 0 \<le> w \<and> Hmax \<le> INT_MAX \<and> 10000 * w * real_of_int (height g + width g) \<le> real_of_int Hmax"

lemma euclid_le:
  assumes "grid_ok g" "u < length (vertices g)" "v < length (vertices g)"
  shows "euclid (vertices g ! u) (vertices g ! v) \<le> real_of_int (height g + width g)"
proof -
  have "\<bar>row (vertices g ! u) - row (vertices g ! v)\<bar> \<le> height g" "\<bar>col (vertices g ! u) - col (vertices g ! v)\<bar> \<le> width g"
    using grid_okD(4)[OF assms(1,2)] grid_okD(4)[OF assms(1,3)] by linarith+
  then have "\<bar>real_of_int (row (vertices g ! u) - row (vertices g ! v))\<bar> + \<bar>real_of_int (col (vertices g ! u) - col (vertices g ! v))\<bar>
    \<le> real_of_int (height g + width g)" by linarith
  moreover have "euclid (vertices g ! u) (vertices g ! v) \<le>
    \<bar>real_of_int (row (vertices g ! u) - row (vertices g ! v))\<bar> + \<bar>real_of_int (col (vertices g ! u) - col (vertices g ! v))\<bar>"
    unfolding euclid_def by (rule sqrt_sum_squares_le_sum_abs)
  ultimately show ?thesis by linarith
qed

lemma weighted_euclidean_value:
  assumes g: "grid_ok g" "euclid_fits g w Hmax" and v: "u < length (vertices g)" "v < length (vertices g)"
  shows "weighted_euclidean g w (int u) (int v) = Inr \<lfloor>10000 * w * euclid (vertices g ! u) (vertices g ! v)\<rfloor>"
    "0 \<le> \<lfloor>10000 * w * euclid (vertices g ! u) (vertices g ! v)\<rfloor>"
    "\<lfloor>10000 * w * euclid (vertices g ! u) (vertices g ! v)\<rfloor> \<le> Hmax"
proof -
  let ?x = "10000 * w * euclid (vertices g ! u) (vertices g ! v)"
  have w: "0 \<le> 10000 * w" "Hmax \<le> INT_MAX" using g(2) by (simp_all add: euclid_fits_def)
  have "?x \<le> 10000 * w * real_of_int (height g + width g)"
    by (rule mult_left_mono[OF euclid_le[OF g(1) v] w(1)])
  then have "?x \<le> real_of_int Hmax" using g(2) by (simp add: euclid_fits_def)
  then show le: "\<lfloor>?x\<rfloor> \<le> Hmax" by (simp add: floor_le_iff)
  have x0: "0 \<le> ?x" using w(1) euclid_nonneg by (rule mult_nonneg_nonneg)
  then show f0: "0 \<le> \<lfloor>?x\<rfloor>" by simp
  have "truncate_real ?x = \<lfloor>?x\<rfloor>" using x0 by (simp add: truncate_real_def)
  moreover have "weighted_euclidean g w (int u) (int v) =
    (let x = truncate_real ?x in if - INT_MAX - 1 \<le> x \<and> x \<le> INT_MAX then Inr x else Inl SignedOverflow)"
    using v by (simp add: weighted_euclidean_def euclid_def)
  moreover have "- INT_MAX - 1 \<le> \<lfloor>?x\<rfloor>" "\<lfloor>?x\<rfloor> \<le> INT_MAX" using f0 le w(2) unfolding INT_MAX_def by linarith+
  ultimately show "weighted_euclidean g w (int u) (int v) = Inr \<lfloor>?x\<rfloor>" by (simp only: Let_def simp_thms if_True)
qed

text \<open>The heuristic changes along an edge by at most the weighted cost of the edge.\<close>

lemma euclid_consistent:
  assumes g: "graph_ok octile_weight g" "euclid_fits g w Hmax" "dst < length (vertices g)"
  shows "eps_consistent grid_ops (1.00001 * w + 0.0001) (euclid_heuristic g w (int dst)) g"
  unfolding eps_consistent_def
proof (intro allI impI)
  fix u v c assume e: "edge grid_ops g u v c"
  have gr: "grid_ok g" and w: "0 \<le> w" using g by (simp_all add: graph_ok_def euclid_fits_def)
  have uv: "nat u < length (vertices g)" "int (nat u) = u" "nat v < length (vertices g)" "int (nat v) = v"
    using grid_edge[OF g(1) e] by auto
  let ?d = "\<lambda>x. 10000 * w * euclid (vertices g ! nat x) (vertices g ! dst)"
  let ?s = "euclid (vertices g ! nat u) (vertices g ! nat v)"
  have h: "euclid_heuristic g w (int dst) u = \<lfloor>?d u\<rfloor>" "euclid_heuristic g w (int dst) v = \<lfloor>?d v\<rfloor>"
    using weighted_euclidean_value(1)[OF gr g(2) uv(1) g(3), unfolded uv(2)]
      weighted_euclidean_value(1)[OF gr g(2) uv(3) g(3), unfolded uv(4)]
    by (simp_all add: euclid_heuristic_def)
  have "?d u \<le> 10000 * w * (?s + euclid (vertices g ! nat v) (vertices g ! dst))"
    using w by (intro mult_left_mono euclid_triangle) simp
  also have "\<dots> = w * (10000 * ?s) + ?d v" by (simp add: algebra_simps)
  also have "\<dots> \<le> w * (1.00001 * real_of_int c) + ?d v"
    using mult_left_mono[OF step_euclid(1)[OF g(1) e] w] by simp
  finally have "?d u \<le> 1.00001 * w * real_of_int c + ?d v" by (simp add: algebra_simps)
  moreover have "1 \<le> 0.0001 * real_of_int c" using step_euclid(2)[OF g(1) e] by simp
  ultimately have "real_of_int \<lfloor>?d u\<rfloor> \<le> (1.00001 * w + 0.0001) * real_of_int c + real_of_int \<lfloor>?d v\<rfloor>"
    using of_int_floor_le[of "?d u"] floor_correct[of "?d v"] unfolding distrib_right by linarith
  then show "real_of_int (euclid_heuristic g w (int dst) u) \<le>
    (1.00001 * w + 0.0001) * real_of_int c + real_of_int (euclid_heuristic g w (int dst) v)"
    by (simp add: h)
qed

text \<open>The eight directions are the steps of at most one row and one column, straight or diagonal.\<close>

lemma direction_iff:
  "(\<exists>i < 8. dr = drow ! i \<and> dc = dcol ! i \<and> w = dist ! i) \<longleftrightarrow>
     \<bar>dr\<bar> \<le> 1 \<and> \<bar>dc\<bar> \<le> 1 \<and> (dr, dc) \<noteq> (0, 0) \<and> w = (if dr = 0 \<or> dc = 0 then 10000 else 14142)" (is "?L \<longleftrightarrow> ?R")
proof
  assume ?R
  then have "dr \<in> {-1, 0, 1}" "dc \<in> {-1, 0, 1}" "(dr, dc) \<noteq> (0, 0)" and w: "w = (if dr = 0 \<or> dc = 0 then 10000 else 14142)" by auto
  then have "(dr, dc) \<in> {(drow ! i, dcol ! i) | i. i < 8}"
    by (auto simp: drow_def dcol_def numeral_eq_Suc less_Suc_eq ex_disj_distrib conj_disj_distribL conj_disj_distribR)
  then obtain i where i: "i < 8" "dr = drow ! i" "dc = dcol ! i" by blast
  then have "w = dist ! i" unfolding w by (elim less_8E) (simp_all add: drow_def dcol_def dist_def)
  then show ?L using i by blast
qed (auto elim!: less_8E simp: drow_def dcol_def dist_def)

lemma direction_inj: "\<lbrakk>i < 8; j < 8; drow ! i = drow ! j; dcol ! i = dcol ! j\<rbrakk> \<Longrightarrow> i = j"
  by (elim less_8E) (simp_all add: drow_def dcol_def)

lemma distinct_map_partial:
  assumes "distinct xs" "\<And>x y a b. \<lbrakk>x \<in> set xs; y \<in> set xs; f x = Some a; f y = Some b; k a = k b\<rbrakk> \<Longrightarrow> x = y"
  shows "distinct (map k (List.map_filter f xs))"
  using assms
proof (induction xs)
  case (Cons x xs)
  have IH: "distinct (map k (List.map_filter f xs))" using Cons.prems by (intro Cons.IH) auto
  show ?case
  proof (cases "f x")
    case (Some a)
    have "k a \<noteq> k b" if "b \<in> set (List.map_filter f xs)" for b
      using that Cons.prems(1) Cons.prems(2)[of x _ a b] Some by (auto simp: map_filter_set)
    then show ?thesis using Some IH by (auto simp: List.map_filter_simps)
  qed (use IH in \<open>simp add: List.map_filter_simps\<close>)
qed (simp add: List.map_filter_simps)

lemma nghs_distinct:
  assumes g: "graph_ok wt g"
  shows "distinct (map vertex (nghs wt g u))"
  unfolding nghs_def
proof (rule distinct_map_partial)
  fix i j a b
  let ?at = "\<lambda>i. \<lparr>row = row (vertices g ! u) + drow ! i, col = col (vertices g ! u) + dcol ! i\<rparr>"
  have at: "vertices g ! nat (vertex a) = ?at i" if "ngh_opt wt g (vertices g ! u) i = Some a" for i a
    using that grid_okD(5)[of g] g by (auto simp: ngh_opt_def Let_def graph_ok_def split: if_splits)
  assume a: "i \<in> set [0..<8]" "j \<in> set [0..<8]" "ngh_opt wt g (vertices g ! u) i = Some a" "ngh_opt wt g (vertices g ! u) j = Some b" "vertex a = vertex b"
  then show "i = j" using at[OF a(3)] at[OF a(4)] direction_inj[of i j] by simp
qed simp

section \<open>Properties\<close>

text \<open>
  C37. The neighbour arrays are right: on a well-formed graph \<open>for_each_neighbor_of\<close> visits from
  vertex \<open>u\<close> every other vertex at most one row and one column away, each once, and no other vertex, with the
  weight 10000 for a straight step and 14142 for a diagonal one.
\<close>

theorem neighbors_are_octile_moves:
  assumes "graph_ok octile_weight g" "u < length (vertices g)"
  shows "\<exists>l. for_each_neighbor_of g (int u) (\<lambda>nbr w acc. Inr (acc @ [(nbr, w)])) [] = Inr l \<and> distinct (map fst l) \<and>
    (\<forall>v w. (v, w) \<in> set l \<longleftrightarrow> 0 \<le> v \<and> v < int (length (vertices g)) \<and> v \<noteq> int u \<and>
       (let dr = row (vertices g ! nat v) - row (vertices g ! u); dc = col (vertices g ! nat v) - col (vertices g ! u) in
        \<bar>dr\<bar> \<le> 1 \<and> \<bar>dc\<bar> \<le> 1 \<and> w = (if dr = 0 \<or> dc = 0 then 10000 else 14142)))"
proof -
  have gr: "grid_ok g" using assms(1) by (simp add: graph_ok_def)
  obtain l where l: "collect_neighbors g (int u) = Inr l" "l = map (\<lambda>n. (vertex n, weight n)) (nghs octile_weight g u)"
    using collect_ok[OF assms] by blast
  have "(v, w) \<in> set l \<longleftrightarrow> 0 \<le> v \<and> v < int (length (vertices g)) \<and> v \<noteq> int u \<and>
       (let dr = row (vertices g ! nat v) - row (vertices g ! u); dc = col (vertices g ! nat v) - col (vertices g ! u) in
        \<bar>dr\<bar> \<le> 1 \<and> \<bar>dc\<bar> \<le> 1 \<and> w = (if dr = 0 \<or> dc = 0 then 10000 else 14142))" (is "_ \<longleftrightarrow> ?step v w") for v w
  proof -
    let ?dr = "row (vertices g ! nat v) - row (vertices g ! u)" and ?dc = "col (vertices g ! nat v) - col (vertices g ! u)"
    have same: "v = int u" if v: "0 \<le> v" "v < int (length (vertices g))" "?dr = 0" "?dc = 0"
    proof -
      have "nat v < length (vertices g)" using v by linarith
      from grid_okD(4)[OF gr this] grid_okD(4)[OF gr assms(2)] show ?thesis using v by simp
    qed
    have "(v, w) \<in> set l \<longleftrightarrow> edge grid_ops g (int u) v w" using l assms(2) by (simp add: edge_def grid_ops_def)
    also have "\<dots> \<longleftrightarrow> 0 \<le> v \<and> v < int (length (vertices g)) \<and> (\<exists>i < 8. ?dr = drow ! i \<and> ?dc = dcol ! i \<and> w = dist ! i)"
      using grid_edge[OF assms(1), of "int u" v w] grid_edgeI[OF assms, of "nat v"] by (fastforce simp: octile_weight_def)
    also have "\<dots> \<longleftrightarrow> 0 \<le> v \<and> v < int (length (vertices g)) \<and> (?dr, ?dc) \<noteq> (0, 0) \<and>
        \<bar>?dr\<bar> \<le> 1 \<and> \<bar>?dc\<bar> \<le> 1 \<and> w = (if ?dr = 0 \<or> ?dc = 0 then 10000 else 14142)"
      unfolding direction_iff by blast
    also have "\<dots> \<longleftrightarrow> ?step v w"
      using same by (auto simp: Let_def)
    finally show ?thesis .
  qed
  moreover have "distinct (map fst l)" using nghs_distinct[OF assms(1)] by (simp add: l(2) comp_def)
  ultimately show ?thesis using l(1) by (auto simp: collect_neighbors_def)
qed

definition line3 :: Graph where
  "line3 = \<lparr>grid = [[0, 1, 2]], vertices = [\<lparr>row = 0, col = 0\<rparr>, \<lparr>row = 0, col = 1\<rparr>, \<lparr>row = 0, col = 2\<rparr>],
     height = 1, width = 3, neighbor_offsets = [0, 1, 3, 4],
     neighbors = [\<lparr>vertex = 1, weight = 10000\<rparr>, \<lparr>vertex = 0, weight = 10000\<rparr>, \<lparr>vertex = 2, weight = 10000\<rparr>,
       \<lparr>vertex = 1, weight = 10000\<rparr>]\<rparr>"

lemma line3_grid_ok: "grid_ok line3"
proof -
  have "cell_at line3 r c = OBSTACLE \<or> 0 \<le> cell_at line3 r c \<and> cell_at line3 r c < int (length (vertices line3)) \<and>
    vertices line3 ! nat (cell_at line3 r c) = \<lparr>row = r, col = c\<rparr>" if "0 \<le> r" "r < 1" "0 \<le> c" "c < 3" for r c
  proof -
    have "r = 0" "c = 0 \<or> c = 1 \<or> c = 2" using that by linarith+
    then show ?thesis by (auto simp: cell_at_def line3_def)
  qed
  moreover have "\<forall>v < length (vertices line3). let p = vertices line3 ! v in 0 \<le> row p \<and> row p < height line3 \<and>
    0 \<le> col p \<and> col p < width line3 \<and> cell_at line3 (row p) (col p) = int v"
    by (auto simp: line3_def cell_at_def less_Suc_eq numeral_3_eq_3 Let_def)
  moreover have "height line3 = 1" "width line3 = 3" by (simp_all add: line3_def)
  ultimately show ?thesis unfolding grid_ok_def by (auto simp: line3_def INT_MAX_def)
qed

lemma line3_ok: "graph_ok octile_weight line3"
proof -
  have "blocks octile_weight line3 0 = []" "blocks octile_weight line3 1 = take 1 (neighbors line3)"
    "blocks octile_weight line3 2 = take 3 (neighbors line3)" "blocks octile_weight line3 3 = neighbors line3"
    by code_simp+
  then show ?thesis using line3_grid_ok
    by (auto simp: graph_ok_def line3_def le_Suc_eq numeral_3_eq_3 numeral_2_eq_2)
qed

theorem neighbors_are_octile_moves_witness:
  "\<exists>l. for_each_neighbor_of line3 1 (\<lambda>nbr w acc. Inr (acc @ [(nbr, w)])) [] = Inr l \<and> (2, 10000) \<in> set l \<and> (1, 10000) \<notin> set l"
proof -
  obtain l where l: "for_each_neighbor_of line3 1 (\<lambda>nbr w acc. Inr (acc @ [(nbr, w)])) [] = Inr l"
    "\<forall>v w. (v, w) \<in> set l \<longleftrightarrow> 0 \<le> v \<and> v < int (length (vertices line3)) \<and> v \<noteq> 1 \<and>
       (let dr = row (vertices line3 ! nat v) - row (vertices line3 ! 1); dc = col (vertices line3 ! nat v) - col (vertices line3 ! 1) in
        \<bar>dr\<bar> \<le> 1 \<and> \<bar>dc\<bar> \<le> 1 \<and> w = (if dr = 0 \<or> dc = 0 then 10000 else 14142))"
    using neighbors_are_octile_moves[OF line3_ok, of 1] by (auto simp: line3_def)
  then show ?thesis by (simp add: line3_def)
qed

text \<open>
  \<open>for_each_neighbor_in_range(v, start, end)\<close> visits the neighbours \<open>start .. end - 1\<close> of the
  sequence that \<open>for_each_neighbor_of(v)\<close> visits, in the same order and with the same effect, and
  its assertion fails exactly when the range is not within the degree.
\<close>

theorem range_is_slice:
  assumes "graph_ok wt g" "v < length (vertices g)"
  shows "\<exists>us :: neighbor list. (\<forall>f s. for_each_neighbor_of g (int v) f s = efold (\<lambda>u. f (vertex u) (weight u)) us s) \<and>
    (\<forall>a b f s. for_each_neighbor_in_range g (int v) a b f s =
       (if 0 \<le> a \<and> a \<le> b \<and> b \<le> int (length us)
        then efold (\<lambda>u. f (vertex u) (weight u)) (take (nat (b - a)) (drop (nat a) us)) s else Inl AssertFail))"
proof (intro exI[of _ "nghs wt g v"] conjI allI)
  show "for_each_neighbor_of g (int v) f s = efold (\<lambda>u. f (vertex u) (weight u)) (nghs wt g v) s" for f s
    by (rule for_each_ok[OF assms])
  show "for_each_neighbor_in_range g (int v) a b f s =
       (if 0 \<le> a \<and> a \<le> b \<and> b \<le> int (length (nghs wt g v))
        then efold (\<lambda>u. f (vertex u) (weight u)) (take (nat (b - a)) (drop (nat a) (nghs wt g v))) s else Inl AssertFail)"
    for a b f s
  proof (cases "0 \<le> a \<and> a \<le> b \<and> b \<le> int (length (nghs wt g v))")
    case True
    then have "nat a + nat (b - a) \<le> length (nghs wt g v)" "int (nat a) = a" "int (nat a + nat (b - a)) = b" by linarith+
    then have "efold (visit_neighbor g (int v) f) [a..b - 1] s =
      efold (\<lambda>u. f (vertex u) (weight u)) (take (nat (b - a)) (drop (nat a) (nghs wt g v))) s"
      using visit_range[OF assms, of "nat a" "nat (b - a)" f s] by metis
    then show ?thesis using True degree_ok[OF assms] by (simp add: for_each_neighbor_in_range_def)
  next
    case False
    then show ?thesis using degree_ok[OF assms] by (auto simp: for_each_neighbor_in_range_def)
  qed
qed

theorem range_is_slice_witness:
  "\<exists>us :: neighbor list. (\<forall>f s. for_each_neighbor_of line3 1 f (s :: int) = efold (\<lambda>u. f (vertex u) (weight u)) us s) \<and>
     for_each_neighbor_in_range line3 1 0 (-1) (\<lambda>n w s. Inr s) (0 :: int) = Inl AssertFail"
proof -
  obtain us :: "neighbor list" where us: "\<forall>f s. for_each_neighbor_of line3 1 f (s :: int) = efold (\<lambda>u. f (vertex u) (weight u)) us s"
    "\<And>a b f s. for_each_neighbor_in_range line3 1 a b f (s :: int) =
       (if 0 \<le> a \<and> a \<le> b \<and> b \<le> int (length us)
        then efold (\<lambda>u. f (vertex u) (weight u)) (take (nat (b - a)) (drop (nat a) us)) s else Inl AssertFail)"
    using range_is_slice[OF line3_ok, of 1] by (auto simp: line3_def)
  then show ?thesis by (intro exI[of _ us]) simp
qed

text \<open>
  C39. \<open>weighted_euclidean\<close> is defined on all vertices, never negative, and consistent up to the
  factor \<open>1.00001 w + 0.0001\<close>: along every edge it drops by at most that factor times the weight.
\<close>

theorem euclidean_consistent:
  assumes "graph_ok octile_weight g" "euclid_fits g w Hmax" "dst < length (vertices g)" "edge grid_ops g u v c"
  shows "\<exists>hu hv. weighted_euclidean g w u (int dst) = Inr hu \<and> weighted_euclidean g w v (int dst) = Inr hv \<and>
    0 \<le> hu \<and> hu \<le> Hmax \<and> real_of_int hu \<le> (1.00001 * w + 0.0001) * real_of_int c + real_of_int hv"
proof -
  have gr: "grid_ok g" using assms(1) by (simp add: graph_ok_def)
  have uv: "nat u < length (vertices g)" "int (nat u) = u" "nat v < length (vertices g)" "int (nat v) = v"
    using grid_edge[OF assms(1,4)] by auto
  note eu = weighted_euclidean_value[OF gr assms(2) uv(1) assms(3), unfolded uv(2)]
  note ev = weighted_euclidean_value[OF gr assms(2) uv(3) assms(3), unfolded uv(4)]
  have "real_of_int (euclid_heuristic g w (int dst) u) \<le>
    (1.00001 * w + 0.0001) * real_of_int c + real_of_int (euclid_heuristic g w (int dst) v)"
    using euclid_consistent[OF assms(1-3)] assms(4) unfolding eps_consistent_def by blast
  then show ?thesis using eu ev by (simp add: euclid_heuristic_def)
qed

theorem euclidean_consistent_witness:
  "\<exists>hu hv. weighted_euclidean line3 1 0 2 = Inr hu \<and> weighted_euclidean line3 1 1 2 = Inr hv \<and>
     real_of_int hu \<le> 1.00011 * 10000 + real_of_int hv"
proof -
  have e: "edge grid_ops line3 0 1 10000" unfolding edge_def by code_simp
  have f: "euclid_fits line3 1 40000" by (simp add: euclid_fits_def line3_def INT_MAX_def)
  show ?thesis using euclidean_consistent[OF line3_ok f, of 2, OF _ e] by (force simp: line3_def)
qed

end
