(* ===== verification/Graph_Paths.thy ===== *)
theory Graph_Paths
  imports Weighted_Graph
begin

text \<open>
  What \<open>Graph::pathlen\<close> and \<open>Graph::pebble_dump\<close> (\<open>src/src/shared/weighted_graph.hpp\<close>) do with
  the predecessor pointers of a search result: their loops over the pointers end at the source,
  the length is the cost of a real path and is at most the distance the search reports, and the
  dump ends with the vertices of that path.
\<close>

section \<open>The walk along the pointers\<close>

inductive walk :: "(int \<Rightarrow> int \<Rightarrow> int \<Rightarrow> bool) \<Rightarrow> (int \<Rightarrow> int) \<Rightarrow> int \<Rightarrow> int \<Rightarrow> int list \<Rightarrow> bool"
  for E P src where
  walk_root: "walk E P src src [src]"
| walk_step: "\<lbrakk>v \<noteq> src; walk E P src (P v) vs; E (P v) v w\<rbrakk> \<Longrightarrow> walk E P src v (vs @ [v])"

lemma tree_path_walk: "tree_path E P src v c \<Longrightarrow> \<exists>vs. walk E P src v vs"
  by (induction rule: tree_path.induct) (auto intro: walk.intros)

lemma walk_props:
  assumes "walk E P src v vs"
  shows "vs \<noteq> [] \<and> hd vs = src \<and> last vs = v \<and> successively (\<lambda>a b. \<exists>w. E a b w) vs"
  using assms by (induction rule: walk.induct) (auto simp: successively_append_iff)

text \<open>The walk to a vertex is unique, so it has no repetition.\<close>

lemma walk_unique: "\<lbrakk>walk E P src v as; walk E P src v bs\<rbrakk> \<Longrightarrow> as = bs"
proof (induction arbitrary: bs rule: walk.induct)
  case walk_root
  then show ?case by (cases rule: walk.cases) auto
next
  case (walk_step v vs w)
  from walk_step.prems walk_step.hyps(1) obtain vs' where "bs = vs' @ [v]" "walk E P src (P v) vs'"
    by (cases rule: walk.cases) auto
  then show ?case using walk_step.IH by simp
qed

lemma walk_prefix: "\<lbrakk>walk E P src v vs; x \<in> set vs\<rbrakk> \<Longrightarrow> \<exists>ys. walk E P src x ys \<and> length ys \<le> length vs"
proof (induction rule: walk.induct)
  case walk_root
  then show ?case using walk.walk_root[of E P src] by auto
next
  case (walk_step v vs w)
  show ?case
  proof (cases "x = v")
    case True
    then show ?thesis using walk.walk_step[OF walk_step.hyps] by blast
  next
    case False
    then have "x \<in> set vs" using walk_step.prems by simp
    from walk_step.IH[OF this] show ?thesis by force
  qed
qed

lemma walk_distinct: "walk E P src v vs \<Longrightarrow> distinct vs"
proof (induction rule: walk.induct)
  case (walk_step v vs w)
  have "v \<notin> set vs"
  proof
    assume "v \<in> set vs"
    then obtain ys where "walk E P src v ys" "length ys \<le> length vs" using walk_prefix[OF walk_step.hyps(2)] by blast
    then show False using walk_unique[OF walk.walk_step[OF walk_step.hyps]] by fastforce
  qed
  then show ?case using walk_step.IH by simp
qed simp

section \<open>Length of a path\<close>

lemma pathlen_loop:
  assumes "tree_path E P src v c"
    and step: "\<And>v w. \<lbrakk>v \<noteq> src; E (P v) v w\<rbrakk> \<Longrightarrow> pr v = Inr (P v) \<and> wgt v (P v) = Inr w \<and> 0 \<le> w"
    and "0 \<le> len" "len + c \<le> M"
  shows "run_loop (pathlen_iter M wgt pr src) (v, len) = Some (Inr (src, len + c))"
  using assms(1,3,4)
proof (induction arbitrary: len rule: tree_path.induct)
  case tree_root
  then show ?case by (subst run_loop.simps) (simp add: pathlen_iter_def)
next
  case (tree_step v c w)
  have s: "pr v = Inr (P v)" "wgt v (P v) = Inr w" "0 \<le> w" using step[OF tree_step.hyps(1,3)] by auto
  have "0 \<le> c" using tree_step.hyps(2) step by (induction rule: tree_path.induct) fastforce+
  then have "num_add M len w = Inr (len + w)" using s tree_step.prems by (intro num_add_ok) auto
  then have "pathlen_iter M wgt pr src (v, len) = Inr (Continue (P v, len + w))"
    using s tree_step.hyps(1) by (simp add: pathlen_iter_def)
  then show ?case
    using tree_step.IH[of "len + w"] tree_step.prems s(3) by (simp add: run_loop_unfold(3) add.assoc add.commute)
qed

lemma weight_between_edge:
  assumes "graph_ok octile_weight g" "edge grid_ops g u v w"
  shows "weight_between g v u = Inr w"
proof -
  obtain i where i: "i < 8" "0 \<le> u" "u < int (length (vertices g))" "0 \<le> v" "v < int (length (vertices g))"
    "row (vertices g ! nat v) = row (vertices g ! nat u) + drow ! i"
    "col (vertices g ! nat v) = col (vertices g ! nat u) + dcol ! i" "w = dist ! i"
    using grid_edge[OF assms] by (auto simp: octile_weight_def)
  then show ?thesis using dir_props[OF i(1)] by (auto simp: weight_between_def weight_with_def Let_def)
qed

lemma pathlen_tree:
  assumes g: "graph_ok octile_weight g" and r: "result_tree grid_ops INT_MAX g src dst res D P"
  shows "\<exists>len. pathlen g res src dst = Some (Inr len) \<and> path grid_ops g src dst len \<and> len \<le> D dst"
proof -
  obtain c where c: "tree_path (edge grid_ops g) P src dst c" "path grid_ops g src dst c" "0 \<le> c" "c \<le> D dst"
    using og.result_found[OF r g] by blast
  have "D dst < INT_MAX" using r by (simp add: result_tree_def)
  then have "run_loop (pathlen_iter INT_MAX (weight_between g) (res_predecessor res) src) (dst, 0) = Some (Inr (src, 0 + c))"
  proof (intro pathlen_loop[OF c(1)])
    fix v w assume e: "edge grid_ops g (P v) v w"
    then have "0 \<le> v \<and> v < number_vertices grid_ops g" "0 \<le> w" using og.edge_ok[OF g e] by auto
    then show "res_predecessor res v = Inr (P v) \<and> weight_between g v (P v) = Inr w \<and> 0 \<le> w"
      using r weight_between_edge[OF g e] by (simp add: result_tree_def)
  qed (use c in auto)
  then show ?thesis using c by (simp add: pathlen_def)
qed

section \<open>The dump\<close>

lemma dump_path_loop:
  assumes "walk E P src v vs"
    and step: "\<And>v w. \<lbrakk>v \<noteq> src; E (P v) v w\<rbrakk> \<Longrightarrow>
      arr_get preds v = Inr (P v) \<and> arr_get (vertices g) v = Inr (vertices g ! nat v)"
  shows "run_loop (dump_path_iter g preds src) (v, acc) =
    Some (Inr (src, acc @ map (\<lambda>v. vertices g ! nat v) (rev (tl vs))))"
  using assms(1)
proof (induction arbitrary: acc rule: walk.induct)
  case walk_root
  then show ?case by (subst run_loop.simps) (simp add: dump_path_iter_def)
next
  case (walk_step v vs w)
  have "vs \<noteq> []" using walk_props[OF walk_step.hyps(2)] by simp
  moreover have "dump_path_iter g preds src (v, acc) = Inr (Continue (P v, acc @ [vertices g ! nat v]))"
    using step[OF walk_step.hyps(1,3)] walk_step.hyps(1) by (simp add: dump_path_iter_def)
  ultimately show ?case using walk_step.IH by (simp add: run_loop_unfold(3))
qed

lemma copy_result_ok:
  assumes "\<And>v. v < n \<Longrightarrow> f (int v) = Inr (F v)"
  shows "copy_result f (map int [0..<n]) = Inr (map F [0..<n])"
  using assms
proof (induction n)
  case (Suc n)
  then show ?case by (simp add: copy_result_def efold_append)
qed (simp add: copy_result_def)

lemma dump_grid_ok:
  assumes g: "grid_ok g" and ps: "length pebbles = length (vertices g)"
  shows "\<exists>out'. efold (dump_row g pebbles src dst) (map int [0..<nat (height g)]) out = Inr out'"
proof -
  have cellok: "\<exists>out'. dump_cell g pebbles src dst r c out = Inr out'"
    if "0 \<le> r" "r < height g" "0 \<le> c" "c < width g" for r c out
    using cell_ok[OF g that] grid_okD(5)[OF g that] ps by (auto simp: dump_cell_def)
  have rowok: "\<exists>out'. dump_row g pebbles src dst r out = Inr out'" if r: "0 \<le> r" "r < height g" for r out
  proof -
    have "\<exists>out'. efold (dump_cell g pebbles src dst r) (map int [0..<nat (width g)]) out = Inr out' \<and> True"
      by (rule efold_upt) (use cellok[OF r] in auto)
    then show ?thesis by (auto simp: dump_row_def)
  qed
  have "\<exists>out'. efold (dump_row g pebbles src dst) (map int [0..<nat (height g)]) out = Inr out' \<and> True"
    by (rule efold_upt) (use rowok in auto)
  then show ?thesis by simp
qed

lemma pebble_dump_tree:
  assumes g: "graph_ok wt g" "search_graph grid_ops (graph_ok wt) W"
    and r: "result_tree grid_ops M g src dst res D P" and src: "0 \<le> src" "src < int (length (vertices g))"
    and peb: "\<And>v. v < length (vertices g) \<Longrightarrow> \<exists>x. res_pebble res (int v) = Inr x"
  shows "\<exists>out vs. pebble_dump g res src dst = Some (Inr (out @ concat (map (\<lambda>v. dump_coord (vertices g ! nat v)) vs))) \<and>
    vs \<noteq> [] \<and> hd vs = src \<and> last vs = dst \<and> successively (\<lambda>a b. \<exists>w. edge grid_ops g a b w) vs"
proof -
  let ?n = "length (vertices g)"
  have gr: "grid_ok g" using g(1) by (simp add: graph_ok_def)
  obtain c where "tree_path (edge grid_ops g) P src dst c"
    using search_graph.result_found[OF g(2) r g(1)] by blast
  then obtain vs where vs: "walk (edge grid_ops g) P src dst vs" using tree_path_walk by blast
  obtain F where "\<And>v. v < ?n \<Longrightarrow> res_pebble res (int v) = Inr (F v)" using peb by metis
  then have F: "copy_result (res_pebble res) (map int [0..<?n]) = Inr (map F [0..<?n])" by (rule copy_result_ok)
  define preds where "preds = map (\<lambda>v. P (int v)) [0..<?n]"
  have "res_predecessor res (int v) = Inr (P (int v))" if "v < ?n" for v
    using r that by (simp add: result_tree_def grid_ops_def)
  then have Pr: "copy_result (res_predecessor res) (map int [0..<?n]) = Inr preds"
    unfolding preds_def by (rule copy_result_ok)
  have run: "run_loop (dump_path_iter g preds src) (dst, []) =
    Some (Inr (src, [] @ map (\<lambda>v. vertices g ! nat v) (rev (tl vs))))"
  proof (rule dump_path_loop[OF vs])
    fix v w assume e: "edge grid_ops g (P v) v w"
    have "0 \<le> v \<and> v < int ?n" using search_graph.edge_ok[OF g(2,1) e] by (simp add: grid_ops_def)
    then have "arr_get preds v = Inr (preds ! nat v)" "preds ! nat v = P v" "arr_get (vertices g) v = Inr (vertices g ! nat v)"
      by (simp_all add: preds_def nat_less_iff)
    then show "arr_get preds v = Inr (P v) \<and> arr_get (vertices g) v = Inr (vertices g ! nat v)" by simp
  qed
  obtain out where out: "efold (dump_row g (map F [0..<?n]) src dst) (map int [0..<nat (height g)])
      (''width '' @ show_int (width g) @ [newline] @ ''height '' @ show_int (height g) @ [newline]) = Inr out"
    using dump_grid_ok[OF gr, of "map F [0..<?n]" src dst] by fastforce
  note wp = walk_props[OF vs]
  then have rv: "rev (map (\<lambda>v. vertices g ! nat v) (rev (tl vs)) @ [vertices g ! nat src]) =
    map (\<lambda>v. vertices g ! nat v) vs" by (cases vs) (auto simp: rev_map)
  have "pebble_dump g res src dst = Some (Inr (out @ concat (map dump_coord (map (\<lambda>v. vertices g ! nat v) vs))))"
    unfolding pebble_dump_def Let_def F Pr
    using out run src rv by (simp add: pebble_dump_arr_def del: rev_append)
  then show ?thesis using wp by (auto simp: comp_def)
qed

section \<open>Properties\<close>

text \<open>
  C38. \<open>pathlen\<close> of a search result: for every result whose distances and predecessors form a search
  tree that contains the destination, the loop ends without error and returns the cost of a path
  from the source to the destination, at most the reported distance.
\<close>

theorem pathlen_is_path_cost:
  assumes "graph_ok octile_weight g" "result_tree grid_ops INT_MAX g src dst res D P"
  shows "\<exists>len. pathlen g res src dst = Some (Inr len) \<and> path grid_ops g src dst len \<and> len \<le> D dst"
  by (rule pathlen_tree[OF assms])

definition line3_result :: SearchResult where
  "line3_result = \<lparr>res_is_expanded = (\<lambda>v. Inr (v < 2)), res_predecessor = (\<lambda>v. Inr (v - 1)),
     res_g = (\<lambda>v. Inr (10000 * v)), res_pebble = (\<lambda>v. Inr (-1))\<rparr>"

lemma line3_edges: "edge grid_ops line3 0 1 10000" "edge grid_ops line3 1 2 10000"
  unfolding edge_def by code_simp+

lemma line3_result_tree:
  "result_tree grid_ops INT_MAX line3 0 2 line3_result
     (\<lambda>v. if v \<in> {0, 1, 2} then 10000 * v else INT_MAX) (\<lambda>v. v - 1)"
proof -
  let ?D = "\<lambda>v. if v \<in> {0, 1, 2} then 10000 * v else INT_MAX" and ?P = "\<lambda>v :: int. v - 1"
  have c0: "chain ?P 0 0" by (rule chain_root)
  have c1: "chain ?P 0 1" by (rule chain_step) (simp_all add: c0)
  have "chain ?P 0 2" by (rule chain_step) (simp_all add: c1)
  note c = c0 c1 this
  have "0 \<le> ?D v \<and> chain ?P 0 v \<and> (v \<noteq> 0 \<longrightarrow> (\<exists>w. edge grid_ops line3 (?P v) v w \<and> ?D (?P v) + w \<le> ?D v))"
    if "?D v < INT_MAX" for v
  proof -
    have "v = 0 \<or> v = 1 \<or> v = 2" using that by (auto split: if_splits)
    then show ?thesis using c line3_edges by (elim disjE) (auto intro!: exI[of _ 10000])
  qed
  then have "pred_tree (edge grid_ops line3) 0 INT_MAX ?D ?P" unfolding pred_tree_def by (intro conjI allI impI) auto
  moreover have "v = 0 \<or> v = 1 \<or> v = 2" if "0 \<le> v" "v < number_vertices grid_ops line3" for v :: int
    using that by (simp add: grid_ops_def line3_def) linarith
  ultimately show ?thesis unfolding result_tree_def by (auto simp: line3_result_def INT_MAX_def)
qed

theorem pathlen_is_path_cost_witness:
  "\<exists>len. pathlen line3 line3_result 0 2 = Some (Inr len) \<and> path grid_ops line3 0 2 len \<and> len \<le> 20000"
  using pathlen_is_path_cost[OF line3_ok line3_result_tree] by simp

text \<open>
  \<open>pebble_dump\<close> of such a result ends, and the file ends with the coordinates, one line per
  vertex, of a sequence of adjacent vertices from the source to the destination.
\<close>

theorem pebble_dump_ends_with_path:
  assumes "graph_ok octile_weight g" "result_tree grid_ops INT_MAX g src dst res D P"
    "0 \<le> src" "src < int (length (vertices g))"
    "\<And>v. v < length (vertices g) \<Longrightarrow> \<exists>x. res_pebble res (int v) = Inr x"
  shows "\<exists>out vs. pebble_dump g res src dst = Some (Inr (out @ concat (map (\<lambda>v. dump_coord (vertices g ! nat v)) vs))) \<and>
    vs \<noteq> [] \<and> hd vs = src \<and> last vs = dst \<and> successively (\<lambda>a b. \<exists>w. edge grid_ops g a b w) vs"
  by (rule pebble_dump_tree[OF assms(1) og.search_graph_axioms assms(2-5)])

theorem pebble_dump_ends_with_path_witness:
  "\<exists>out vs. pebble_dump line3 line3_result 0 2 =
     Some (Inr (out @ concat (map (\<lambda>v. dump_coord (vertices line3 ! nat v)) vs))) \<and> hd vs = 0 \<and> last vs = 2"
proof -
  have "\<exists>x. res_pebble line3_result (int v) = Inr x" for v by (simp add: line3_result_def)
  then show ?thesis
    using pebble_dump_ends_with_path[OF line3_ok line3_result_tree] by (force simp: line3_def)
qed

end
