(* ===== verification/Graph_Load.thy ===== *)
theory Graph_Load
  imports Weighted_Graph
begin

text \<open>
  Correctness of the map loader of \<open>src/src/shared/weighted_graph.hpp\<close>: reading the text of a map
  gives a graph with exactly the passable cells as vertices, numbered in reading order, and with
  consistent neighbour arrays.
\<close>

section \<open>The text of a map\<close>

definition passable :: "char \<Rightarrow> bool" where
  "passable c \<longleftrightarrow> c \<in> {CHR ''.'', CHR ''G''}"

definition blocked :: "char \<Rightarrow> bool" where
  "blocked c \<longleftrightarrow> c \<in> {CHR ''@'', CHR ''O'', CHR ''T'', CHR ''S'', CHR ''W''}"

definition map_ok :: "string list \<Rightarrow> nat \<Rightarrow> bool" where
  "map_ok rows W \<longleftrightarrow> rows \<noteq> [] \<and> 0 < W \<and> 8 * int (length rows * W) \<le> INT_MAX \<and>
     (\<forall>r \<in> set rows. length r = W \<and> (\<forall>c \<in> set r. passable c \<or> blocked c))"

definition rows_text :: "string list \<Rightarrow> string" where
  "rows_text rows = concat (map (\<lambda>r. r @ [newline]) rows)"

definition map_text :: "string list \<Rightarrow> nat \<Rightarrow> string" where
  "map_text rows W = ''type octile'' @ newline # ''height '' @ show_nat (length rows) @ newline #
     ''width '' @ show_nat W @ newline # ''map'' @ newline # rows_text rows"

section \<open>The header\<close>

lemma skip_ws_show [simp]: "skip_ws (show_nat n @ r) = show_nat n @ r"
  using show_nat_ne[of n] by auto

lemma parse_header_height: "parse_format header_height = map Lit ''type'' @ Ws # map Lit ''octile'' @ Ws #
  map Lit ''height'' @ [Ws, Dec, Ws]"
  by (simp add: header_height_def isspace_def)

lemma parse_header_width: "parse_format header_width = map Lit ''width'' @ [Ws, Dec, Ws, Ws] @ map Lit ''map'' @ [Ws]"
  by (simp add: header_width_def isspace_def)

lemma scan_number:
  assumes "int n \<le> INT_MAX"
  shows "scan_with (Dec # ds) (show_nat n @ newline # r) = ebind (scan_with ds (newline # r)) (\<lambda>(ns, r). Inr (int n # ns, r))"
  using assms scan_int_show[of "newline # r" n] by (simp add: isdigit_def INT_MAX_def)

lemma scan_height:
  assumes "int n \<le> INT_MAX" "\<not> isspace c"
  shows "fscanf header_height (''type octile'' @ newline # ''height '' @ show_nat n @ newline # c # r) = Inr ([int n], c # r)"
  unfolding fscanf_def parse_header_height using assms scan_number[OF assms(1)]
  by (simp add: isspace_def del: scan_with.simps(4))

lemma scan_width:
  assumes "int n \<le> INT_MAX" "\<not> isspace c"
  shows "fscanf header_width (''width '' @ show_nat n @ newline # ''map'' @ newline # c # r) = Inr ([int n], c # r)"
  unfolding fscanf_def parse_header_width using assms scan_number[OF assms(1)]
  by (simp add: isspace_def del: scan_with.simps(4))

section \<open>Cells\<close>

definition visited :: "nat \<Rightarrow> nat \<Rightarrow> nat \<Rightarrow> nat \<Rightarrow> bool" where
  "visited i j r c \<longleftrightarrow> r < i \<or> r = i \<and> c < j"

definition cell_loaded :: "char \<Rightarrow> int list list \<Rightarrow> coords list \<Rightarrow> int \<Rightarrow> nat \<Rightarrow> nat \<Rightarrow> bool" where
  "cell_loaded ch gr vs nid r c \<longleftrightarrow>
     (if passable ch then 0 \<le> gr ! r ! c \<and> gr ! r ! c < nid \<and> vs ! nat (gr ! r ! c) = \<lparr>row = int r, col = int c\<rparr>
      else gr ! r ! c = OBSTACLE)"

definition load_inv :: "string list \<Rightarrow> nat \<Rightarrow> nat \<Rightarrow> nat \<Rightarrow> int list list \<Rightarrow> coords list \<Rightarrow> int \<Rightarrow> bool" where
  "load_inv rows W i j gr vs nid \<longleftrightarrow>
     length gr = length rows \<and> (\<forall>r < length rows. length (gr ! r) = W) \<and> length vs = length rows * W \<and>
     0 \<le> nid \<and> nid \<le> int (i * W + j) \<and>
     (\<forall>r < length rows. \<forall>c < W. visited i j r c \<longrightarrow> cell_loaded (rows ! r ! c) gr vs nid r c) \<and>
     (\<forall>v < nat nid. \<exists>r < length rows. \<exists>c < W. visited i j r c \<and> vs ! v = \<lparr>row = int r, col = int c\<rparr> \<and> gr ! r ! c = int v)"

lemma load_invD:
  assumes "load_inv rows W i j gr vs nid"
  shows "length gr = length rows" "r < length rows \<Longrightarrow> length (gr ! r) = W" "length vs = length rows * W"
    "0 \<le> nid" "nid \<le> int (i * W + j)"
    "\<lbrakk>r < length rows; c < W; visited i j r c\<rbrakk> \<Longrightarrow> cell_loaded (rows ! r ! c) gr vs nid r c"
    "v < nat nid \<Longrightarrow> \<exists>r < length rows. \<exists>c < W. visited i j r c \<and> vs ! v = \<lparr>row = int r, col = int c\<rparr> \<and> gr ! r ! c = int v"
  using assms by (simp_all add: load_inv_def)

lemma visited_Suc: "visited i (Suc j) r c \<longleftrightarrow> visited i j r c \<or> r = i \<and> c = j"
  by (auto simp: visited_def)

lemma not_visited [simp]: "\<not> visited i j i j"
  by (simp add: visited_def)

lemma cell_update:
  assumes "i < length gr" "j < length (gr ! i)"
  shows "gr[i := (gr ! i)[j := x]] ! r ! c = (if r = i \<and> c = j then x else gr ! r ! c)"
  using assms by (cases "r = i"; cases "c = j") (auto simp: nth_list_update)

lemma row_length_update [simp]: "length (gr[i := (gr ! i)[j := x]] ! r) = length (gr ! r)"
  by (cases "i < length gr") (auto simp: nth_list_update list_update_beyond)

lemma grid_set_ok:
  "\<lbrakk>i < length gr; j < length (gr ! i)\<rbrakk> \<Longrightarrow> grid_set gr (int i) (int j) x = Inr (gr[i := (gr ! i)[j := x]])"
  by (simp add: grid_set_def)

lemma load_inv_obstacle:
  assumes inv: "load_inv rows W i j gr vs nid" and ij: "i < length rows" "j < W" and ch: "\<not> passable (rows ! i ! j)"
  shows "load_inv rows W i (Suc j) (gr[i := (gr ! i)[j := OBSTACLE]]) vs nid"
proof -
  note d = load_invD[OF inv]
  have upd: "gr[i := (gr ! i)[j := OBSTACLE]] ! r ! c = (if r = i \<and> c = j then OBSTACLE else gr ! r ! c)" for r c
    using ij d(1) d(2)[OF ij(1)] by (intro cell_update) auto
  have "\<exists>r < length rows. \<exists>c < W. visited i (Suc j) r c \<and> vs ! v = \<lparr>row = int r, col = int c\<rparr> \<and>
    gr[i := (gr ! i)[j := OBSTACLE]] ! r ! c = int v" if "v < nat nid" for v
    using d(7)[OF that] unfolding upd visited_Suc by fastforce
  moreover have "cell_loaded (rows ! r ! c) (gr[i := (gr ! i)[j := OBSTACLE]]) vs nid r c"
    if "r < length rows" "c < W" "visited i (Suc j) r c" for r c
    using d(6)[OF that(1,2)] that(3) ch by (auto simp: cell_loaded_def upd visited_Suc)
  ultimately show ?thesis using d(1-5) by (auto simp: load_inv_def)
qed

lemma load_inv_vertex:
  assumes inv: "load_inv rows W i j gr vs nid" and ij: "i < length rows" "j < W" and ch: "passable (rows ! i ! j)"
  shows "nid < int (length vs)"
    "load_inv rows W i (Suc j) (gr[i := (gr ! i)[j := nid]]) (vs[nat nid := \<lparr>row = int i, col = int j\<rparr>]) (nid + 1)"
proof -
  note d = load_invD[OF inv]
  have "i * W + j < length rows * W"
  proof -
    have "Suc i * W \<le> length rows * W" using ij(1) by (intro mult_le_mono1) simp
    then show ?thesis using ij(2) by simp
  qed
  then show len: "nid < int (length vs)" using d(3,5) by linarith
  let ?gr = "gr[i := (gr ! i)[j := nid]]" and ?vs = "vs[nat nid := \<lparr>row = int i, col = int j\<rparr>]"
  have upd: "?gr ! r ! c = (if r = i \<and> c = j then nid else gr ! r ! c)" for r c
    using ij d(1) d(2)[OF ij(1)] by (intro cell_update) auto
  have "\<exists>r < length rows. \<exists>c < W. visited i (Suc j) r c \<and> ?vs ! v = \<lparr>row = int r, col = int c\<rparr> \<and> ?gr ! r ! c = int v"
    if v: "v < nat (nid + 1)" for v
  proof (cases "v = nat nid")
    case True
    then show ?thesis using ij len d(4) unfolding upd visited_Suc by auto
  next
    case False
    then have "v < nat nid" using v d(4) by linarith
    from d(7)[OF this] False show ?thesis unfolding upd visited_Suc by fastforce
  qed
  moreover have "cell_loaded (rows ! r ! c) ?gr ?vs (nid + 1) r c"
    if rc: "r < length rows" "c < W" "visited i (Suc j) r c" for r c
  proof (cases "r = i \<and> c = j")
    case True
    then show ?thesis using ch len d(4) by (simp add: cell_loaded_def upd)
  next
    case False
    then have "cell_loaded (rows ! r ! c) gr vs nid r c" using rc d(6) by (auto simp: visited_Suc)
    moreover have "nat (gr ! r ! c) \<noteq> nat nid" if "0 \<le> gr ! r ! c" "gr ! r ! c < nid" using that by simp
    ultimately show ?thesis using False by (auto simp: cell_loaded_def upd)
  qed
  ultimately show "load_inv rows W i (Suc j) ?gr ?vs (nid + 1)"
    using d(1-5) by (auto simp: load_inv_def)
qed

lemma read_char_skip:
  "\<lbrakk>set ws \<subseteq> {newline}; c \<noteq> newline\<rbrakk> \<Longrightarrow> read_char (ws @ c # s) = Inr (c, s)"
  by (induction ws) auto

lemma load_cell_step:
  assumes inv: "load_inv rows W i j gr vs nid" and ij: "i < length rows" "j < W"
    and ch: "passable (rows ! i ! j) \<or> blocked (rows ! i ! j)" and ws: "set ws \<subseteq> {newline}"
  shows "\<exists>gr' vs' nid'. load_cell (int i) (int j) (gr, vs, nid, ws @ rows ! i ! j # s) = Inr (gr', vs', nid', s) \<and>
    load_inv rows W i (Suc j) gr' vs' nid'"
proof -
  note d = load_invD[OF inv]
  have "rows ! i ! j \<noteq> newline" using ch by (auto simp: passable_def blocked_def)
  note rd = read_char_skip[OF ws this]
  have gs: "grid_set gr (int i) (int j) x = Inr (gr[i := (gr ! i)[j := x]])" for x
    using ij d(1) d(2)[OF ij(1)] by (intro grid_set_ok) auto
  show ?thesis
  proof (cases "passable (rows ! i ! j)")
    case True
    then show ?thesis
      using load_inv_vertex[OF inv ij True] d(4) by (auto simp: load_cell_def rd gs passable_def)
  next
    case False
    then show ?thesis
      using load_inv_obstacle[OF inv ij False] ch by (auto simp: load_cell_def rd gs passable_def blocked_def)
  qed
qed

section \<open>Rows\<close>

lemma rows_text_drop: "i < length rows \<Longrightarrow> rows_text (drop i rows) = rows ! i @ newline # rows_text (drop (Suc i) rows)"
  by (simp add: rows_text_def Cons_nth_drop_Suc[symmetric])

lemma load_row_step:
  assumes ok: "map_ok rows W" and inv: "load_inv rows W i 0 gr vs nid" and i: "i < length rows" and ws: "set ws \<subseteq> {newline}"
  shows "\<exists>gr' vs' nid' ws'. load_row (int W) (int i) (gr, vs, nid, ws @ rows_text (drop i rows)) =
      Inr (gr', vs', nid', ws' @ rows_text (drop (Suc i) rows)) \<and> set ws' \<subseteq> {newline} \<and> load_inv rows W (Suc i) 0 gr' vs' nid'"
proof -
  have row: "length (rows ! i) = W" "\<And>j. j < W \<Longrightarrow> passable (rows ! i ! j) \<or> blocked (rows ! i ! j)"
    using ok i by (auto simp: map_ok_def) (metis nth_mem)
  define I where "I = (\<lambda>j (gr, vs, nid, input). load_inv rows W i j gr vs nid \<and>
    (\<exists>ws. set ws \<subseteq> {newline} \<and> input = ws @ drop j (rows ! i) @ newline # rows_text (drop (Suc i) rows)))"
  have "\<exists>s'. efold (load_cell (int i)) (map int [0..<W]) (gr, vs, nid, ws @ rows_text (drop i rows)) = Inr s' \<and> I W s'"
  proof (rule efold_upt)
    show "I 0 (gr, vs, nid, ws @ rows_text (drop i rows))" using inv ws i by (auto simp: I_def rows_text_drop)
    fix j s assume j: "j < W" and Is: "I j s"
    obtain gr1 vs1 nid1 ws1 where s: "load_inv rows W i j gr1 vs1 nid1" "set ws1 \<subseteq> {newline}"
      "s = (gr1, vs1, nid1, ws1 @ rows ! i ! j # drop (Suc j) (rows ! i) @ newline # rows_text (drop (Suc i) rows))"
      using Is j row(1) by (cases s) (auto simp: I_def Cons_nth_drop_Suc[symmetric])
    show "\<exists>s'. load_cell (int i) (int j) s = Inr s' \<and> I (Suc j) s'"
      using load_cell_step[OF s(1) i j row(2)[OF j] s(2)] unfolding s(3) I_def
      by (fastforce intro: exI[of _ "[]"])
  qed
  then obtain gr' vs' nid' ws' where *: "load_row (int W) (int i) (gr, vs, nid, ws @ rows_text (drop i rows)) =
      Inr (gr', vs', nid', ws' @ newline # rows_text (drop (Suc i) rows))" "set ws' \<subseteq> {newline}" "load_inv rows W i W gr' vs' nid'"
    using row(1) by (auto simp: I_def load_row_def)
  have "visited (Suc i) 0 r c = visited i W r c" if "c < W" for r c using that by (auto simp: visited_def)
  then have "load_inv rows W (Suc i) 0 gr' vs' nid'" using *(3) unfolding load_inv_def by (auto simp: algebra_simps)
  then show ?thesis using * by (intro exI[of _ gr'] exI[of _ vs'] exI[of _ nid'] exI[of _ "ws' @ [newline]"]) auto
qed

lemma load_rows:
  assumes ok: "map_ok rows W"
  shows "\<exists>gr vs nid fin. efold (load_row (int W)) (map int [0..<length rows])
      (replicate (length rows) (replicate W 0), replicate (length rows * W) \<lparr>row = 0, col = 0\<rparr>, 0, rows_text rows) =
      Inr (gr, vs, nid, fin) \<and> load_inv rows W (length rows) 0 gr vs nid"
proof -
  define I where "I = (\<lambda>i (gr, vs, nid, input). load_inv rows W i 0 gr vs nid \<and>
    (\<exists>ws. set ws \<subseteq> {newline} \<and> input = ws @ rows_text (drop i rows)))"
  have "\<exists>s'. efold (load_row (int W)) (map int [0..<length rows])
      (replicate (length rows) (replicate W 0), replicate (length rows * W) \<lparr>row = 0, col = 0\<rparr>, 0, rows_text rows) = Inr s' \<and>
      I (length rows) s'"
  proof (rule efold_upt)
    show "I 0 (replicate (length rows) (replicate W 0), replicate (length rows * W) \<lparr>row = 0, col = 0\<rparr>, 0, rows_text rows)"
      by (auto simp: I_def load_inv_def visited_def)
    fix i s assume i: "i < length rows" and Is: "I i s"
    then show "\<exists>s'. load_row (int W) (int i) s = Inr s' \<and> I (Suc i) s'"
      using load_row_step[OF ok _ i] by (cases s) (fastforce simp: I_def)
  qed
  then show ?thesis by (auto simp: I_def)
qed

lemma loaded_grid_ok:
  assumes ok: "map_ok rows W" and inv: "load_inv rows W (length rows) 0 gr vs nid"
    and g: "grid g = gr" "vertices g = take (nat nid) vs" "height g = int (length rows)" "width g = int W"
  shows "grid_ok g" "\<lbrakk>r < length rows; c < W\<rbrakk> \<Longrightarrow> cell_at g (int r) (int c) = OBSTACLE \<longleftrightarrow> \<not> passable (rows ! r ! c)"
proof -
  note d = load_invD[OF inv]
  have vis: "visited (length rows) 0 r c" if "r < length rows" for r c using that by (simp add: visited_def)
  have nid: "nat nid \<le> length vs" using d(3,5) by (simp only: nat_le_iff)
  then have len: "length (vertices g) = nat nid" by (simp add: g)
  have rng: "cell_at g (int r) (int c) = OBSTACLE \<and> \<not> passable (rows ! r ! c) \<or> passable (rows ! r ! c) \<and>
    0 \<le> cell_at g (int r) (int c) \<and> cell_at g (int r) (int c) < nid \<and> vertices g ! nat (cell_at g (int r) (int c)) = \<lparr>row = int r, col = int c\<rparr>"
    if "r < length rows" "c < W" for r c
    using d(6)[OF that vis[OF that(1)]] by (auto simp: cell_loaded_def cell_at_def g split: if_splits)
  show "cell_at g (int r) (int c) = OBSTACLE \<longleftrightarrow> \<not> passable (rows ! r ! c)" if "r < length rows" "c < W" for r c
    using rng[OF that] by (auto simp: OBSTACLE_def)
  have vert: "let p = vertices g ! v in 0 \<le> row p \<and> row p < height g \<and> 0 \<le> col p \<and> col p < width g \<and>
    cell_at g (row p) (col p) = int v" if "v < nat nid" for v
    using d(7)[OF that] that by (auto simp: g cell_at_def)
  have "cell_at g r c = OBSTACLE \<or> 0 \<le> cell_at g r c \<and> cell_at g r c < int (length (vertices g)) \<and>
    vertices g ! nat (cell_at g r c) = \<lparr>row = r, col = c\<rparr>"
    if "0 \<le> r" "r < height g" "0 \<le> c" "c < width g" for r c
    using rng[of "nat r" "nat c"] that d(4) by (auto simp: g(3,4) len nat_less_iff)
  moreover have "8 * int (length (vertices g)) \<le> INT_MAX"
    using ok nid d(3) unfolding len map_ok_def by linarith
  moreover have "\<forall>cs \<in> set (grid g). int (length cs) = width g" using d(1,2) by (auto simp: g in_set_conv_nth)
  ultimately show "grid_ok g" using vert d(1) by (simp add: grid_ok_def len g(1,3))
qed

lemma rows_text_head:
  assumes "map_ok rows W"
  shows "\<exists>c r. rows_text rows = c # r \<and> \<not> isspace c"
proof -
  obtain x xs where r: "rows = x # xs" using assms by (cases rows) (auto simp: map_ok_def)
  then obtain c cs where x: "x = c # cs" using assms by (cases x) (auto simp: map_ok_def)
  then have "passable c \<or> blocked c" using assms r by (auto simp: map_ok_def)
  then show ?thesis using r x by (auto simp: rows_text_def passable_def blocked_def isspace_def)
qed

lemma load_grid_map:
  assumes ok: "map_ok rows W"
  shows "\<exists>g. load_grid (map_text rows W) = Inr g \<and> grid_ok g \<and> neighbors g = [] \<and>
    height g = int (length rows) \<and> width g = int W \<and>
    (\<forall>r < length rows. \<forall>c < W. cell_at g (int r) (int c) = OBSTACLE \<longleftrightarrow> \<not> passable (rows ! r ! c))"
proof -
  let ?H = "length rows"
  have pos: "0 < ?H" "0 < W" and fit: "8 * int (?H * W) \<le> INT_MAX" using ok by (auto simp: map_ok_def)
  have "?H * 1 \<le> ?H * W" "1 * W \<le> ?H * W" using pos by (intro mult_le_mono; linarith)+
  then have b': "int ?H \<le> INT_MAX" "int W \<le> INT_MAX" "int (?H * W) \<le> INT_MAX"
    using fit by linarith+
  then have b: "int ?H \<le> INT_MAX" "int W \<le> INT_MAX" "int W * int ?H \<le> INT_MAX" by (simp_all add: mult.commute)
  obtain c r where t: "rows_text rows = c # r" "\<not> isspace c" using rows_text_head[OF ok] by blast
  obtain gr vs nid fin where l: "efold (load_row (int W)) (map int [0..<?H])
      (replicate ?H (replicate W 0), replicate (?H * W) \<lparr>row = 0, col = 0\<rparr>, 0, rows_text rows) = Inr (gr, vs, nid, fin)"
    "load_inv rows W ?H 0 gr vs nid" using load_rows[OF ok] by blast
  have h1: "fscanf header_height (map_text rows W) =
      Inr ([int ?H], ''width '' @ show_nat W @ newline # ''map'' @ newline # c # r)"
    using scan_height[OF b(1), of "CHR ''w''" "''idth '' @ show_nat W @ newline # ''map'' @ newline # c # r"]
    by (simp add: map_text_def t isspace_def)
  note h2 = scan_width[OF b(2) t(2), of r]
  have "num_mul INT_MAX (int W) (int ?H) = Inr (int W * int ?H)"
  proof (rule num_mul_ok)
    have "0 \<le> int W * int ?H" by simp
    then show "- INT_MAX - 1 \<le> int W * int ?H" unfolding INT_MAX_def by linarith
  qed (rule b(3))
  moreover have "nat (int W * int ?H) = ?H * W" "\<not> int W * int ?H < 0"
    by (simp_all add: nat_mult_distrib mult.commute not_less)
  ultimately have run: "load_grid (map_text rows W) =
      Inr (Graph_empty\<lparr>grid := gr, vertices := take (nat nid) vs, height := int ?H, width := int W\<rparr>)" (is "_ = Inr ?g")
    using l(1) by (simp add: load_grid_def h1 h2[simplified] t(1))
  show ?thesis
    using run loaded_grid_ok[OF ok l(2), of ?g] by (intro exI[of _ ?g]) (simp add: Graph_empty_def)
qed

text \<open>Loading the text of a map, with either weight rule.\<close>

lemma load_map:
  assumes ok: "map_ok rows W"
  shows "\<exists>g. load_with wt (map_text rows W) = Inr g \<and> graph_ok wt g \<and>
    height g = int (length rows) \<and> width g = int W \<and>
    (\<forall>r < length rows. \<forall>c < W. cell_at g (int r) (int c) = OBSTACLE \<longleftrightarrow> \<not> passable (rows ! r ! c))"
proof -
  obtain g where g: "load_grid (map_text rows W) = Inr g" "grid_ok g" "neighbors g = []"
    "height g = int (length rows)" "width g = int W"
    "\<forall>r < length rows. \<forall>c < W. cell_at g (int r) (int c) = OBSTACLE \<longleftrightarrow> \<not> passable (rows ! r ! c)"
    using load_grid_map[OF ok] by blast
  obtain g' where g': "populate_with wt g = Inr g'" "graph_ok wt g'" "grid g' = grid g" "height g' = height g" "width g' = width g"
    using populate_graph_ok[OF g(2,3)] by blast
  have "load_with wt (map_text rows W) = Inr g'" using g(1) g'(1) check_ok[OF g'(2)] by (simp add: load_with_def)
  then show ?thesis using g g' by (auto simp: cell_at_def)
qed

section \<open>Properties\<close>

text \<open>
  C36. Reading the text of a map back: the loader accepts it (its assertion on the neighbour arrays
  holds), the graph has the printed height and width, exactly the passable cells are vertices, and
  the graph is well formed.
\<close>

theorem load_printed_map:
  assumes "map_ok rows W"
  shows "\<exists>g. Graph_load (map_text rows W) = Inr g \<and> graph_ok octile_weight g \<and>
    height g = int (length rows) \<and> width g = int W \<and>
    (\<forall>r < length rows. \<forall>c < W. vertex_at g (int r) (int c) = Inr OBSTACLE \<longleftrightarrow> \<not> passable (rows ! r ! c))"
proof -
  obtain g where g: "Graph_load (map_text rows W) = Inr g" "graph_ok octile_weight g"
    "height g = int (length rows)" "width g = int W"
    "\<forall>r < length rows. \<forall>c < W. cell_at g (int r) (int c) = OBSTACLE \<longleftrightarrow> \<not> passable (rows ! r ! c)"
    using load_map[OF assms, of octile_weight] by (auto simp: Graph_load_def)
  have "grid_ok g" using g(2) by (simp add: graph_ok_def)
  then show ?thesis using g cell_ok[of g] by (auto simp: vertex_at_def)
qed

theorem load_printed_map_witness:
  "map_ok [''.@.'', ''G.T''] 3 \<and> (\<exists>g. Graph_load (map_text [''.@.'', ''G.T''] 3) = Inr g \<and>
     height g = 2 \<and> width g = 3 \<and> vertex_at g 0 1 = Inr OBSTACLE \<and> vertex_at g 1 0 \<noteq> Inr OBSTACLE)"
proof -
  have m: "map_ok [''.@.'', ''G.T''] 3" by code_simp
  obtain g where g: "Graph_load (map_text [''.@.'', ''G.T''] 3) = Inr g" "height g = 2" "width g = 3"
    "\<forall>r < 2. \<forall>c < 3. vertex_at g (int r) (int c) = Inr OBSTACLE \<longleftrightarrow> \<not> passable ([''.@.'', ''G.T''] ! r ! c)"
    using load_printed_map[OF m] by (auto simp: numeral_2_eq_2)
  have "vertex_at g 0 1 = Inr OBSTACLE" using g(4)[rule_format, of 0 1] by (simp add: passable_def)
  moreover have "vertex_at g 1 0 \<noteq> Inr OBSTACLE" using g(4)[rule_format, of 1 0] by (simp add: passable_def)
  ultimately show ?thesis using m g(1-3) by blast
qed

end
