(* ===== verification/Grid_Search.thy ===== *)
theory Grid_Search
  imports Graph_Paths Graph_Load
begin

text \<open>
  The sequential search (\<open>src/src/astar.hpp\<close>) put together with the binary heap
  (\<open>src/src/shared/bin_heap.hpp\<close>) and the octile grid (\<open>src/src/shared/weighted_graph.hpp\<close>), the
  combination the driver \<open>src/test/grid/src/grid_main.cpp\<close> runs: the contracts of heap and graph
  are discharged, and the theorems of the search hold for the real components.
\<close>

interpretation ga: astar_ctx bin_heap_ops heap_invar contents grid_ops "graph_ok octile_weight" "\<lambda>g. 14142" INT_MAX
  by unfold_locales (simp add: INT_MAX_def LONG_MAX_def)

lemma euclid_search_pre:
  assumes g: "graph_ok octile_weight g" and fit: "euclid_fits g w Hmax"
    and v: "0 \<le> src" "src < int (length (vertices g))" "0 \<le> dst" "dst < int (length (vertices g))"
    and fits: "int (length (vertices g)) * 14142 + Hmax < INT_MAX"
  shows "search_pre grid_ops (\<lambda>g. 14142) INT_MAX (euclid_heuristic g w dst) Hmax g src"
proof -
  have gr: "grid_ok g" using g by (simp add: graph_ok_def)
  have "0 \<le> euclid_heuristic g w dst x \<and> euclid_heuristic g w dst x \<le> Hmax"
    if "0 \<le> x" "x < int (length (vertices g))" for x
    using weighted_euclidean_value[OF gr fit, of "nat x" "nat dst"] that v by (simp add: euclid_heuristic_def)
  then show ?thesis using v fits by (simp add: search_pre_def grid_ops_def)
qed

lemma astar_euclid:
  assumes g: "graph_ok octile_weight g" and fit: "euclid_fits g w Hmax" and w: "1 \<le> w"
    and v: "0 \<le> src" "src < int (length (vertices g))" "0 \<le> dst" "dst < int (length (vertices g))"
    and fits: "int (length (vertices g)) * 14142 + Hmax < INT_MAX"
  shows "\<exists>r. astar bin_heap_ops grid_ops (euclid_heuristic g w dst) g src dst pebble = Some r \<and>
    (case r of
       Inl e \<Rightarrow> e = AssertFail \<and> (\<forall>c. \<not> path grid_ops g src dst c)
     | Inr res \<Rightarrow> (\<exists>d len. res_g res dst = Inr d \<and> pathlen g res src dst = Some (Inr len) \<and>
         path grid_ops g src dst len \<and> len \<le> d \<and>
         (\<forall>c. path grid_ops g src dst c \<longrightarrow> real_of_int d \<le> (1.00001 * w + 0.0001) * real_of_int c)))"
proof -
  let ?h = "euclid_heuristic g w dst" and ?eps = "1.00001 * w + 0.0001"
  obtain r where r: "astar bin_heap_ops grid_ops ?h g src dst pebble = Some r"
    "case r of Inl e \<Rightarrow> e = AssertFail \<and> (\<forall>c. \<not> path grid_ops g src dst c)
     | Inr res \<Rightarrow> \<exists>D P. result_tree grid_ops INT_MAX g src dst res D P \<and> within_eps grid_ops ?eps ?h g src dst (D dst)"
    using ga.astar_outcome[OF g euclid_search_pre[OF g fit v fits] refl, of dst pebble ?eps] by blast
  show ?thesis
  proof (cases r)
    case (Inl e)
    then show ?thesis using r by simp
  next
    case (Inr res)
    then obtain D P where t: "result_tree grid_ops INT_MAX g src dst res D P"
      and b: "within_eps grid_ops ?eps ?h g src dst (D dst)" using r(2) by auto
    have "nat dst < length (vertices g)" "int (nat dst) = dst" using v by auto
    with euclid_consistent[OF g fit, of "nat dst"] have c: "eps_consistent grid_ops ?eps ?h g" by metis
    have "1 \<le> ?eps" using w by simp
    with b c have eps: "\<forall>c. path grid_ops g src dst c \<longrightarrow> real_of_int (D dst) \<le> ?eps * real_of_int c"
      by (simp add: within_eps_def)
    have gd: "res_g res dst = Inr (D dst)" using t v by (simp add: result_tree_def grid_ops_def)
    obtain len where "pathlen g res src dst = Some (Inr len)" "path grid_ops g src dst len" "len \<le> D dst"
      using pathlen_tree[OF g t] by blast
    then show ?thesis using r(1) Inr gd eps by auto
  qed
qed

section \<open>Properties\<close>

text \<open>
  C1. Weighted A* on a loaded map with the weighted Euclidean heuristic, weight \<open>w\<close> at least 1:
  the search always returns, without overflow and without an access outside its arrays. If the
  destination is reachable, \<open>pathlen\<close> of the result ends and is the cost of a real path, it is at
  most the distance reported for the destination, and that distance is within the factor
  \<open>1.00001 w + 0.0001\<close> of the cost of every path (the two small constants pay for \<open>14142 < 10000 \<surd>2\<close>
  and for the truncation of the heuristic). The only failure is the assertion of \<open>delete_min\<close> on
  the empty frontier, and it happens only if the destination cannot be reached.
\<close>

theorem astar_on_map:
  assumes "map_ok rows W" "Graph_load (map_text rows W) = Inr g" "euclid_fits g w Hmax" "1 \<le> w"
    "0 \<le> src" "src < int (length (vertices g))" "0 \<le> dst" "dst < int (length (vertices g))"
    "int (length (vertices g)) * 14142 + Hmax < INT_MAX"
  shows "\<exists>r. astar bin_heap_ops grid_ops (euclid_heuristic g w dst) g src dst pebble = Some r \<and>
    (case r of
       Inl e \<Rightarrow> e = AssertFail \<and> (\<forall>c. \<not> path grid_ops g src dst c)
     | Inr res \<Rightarrow> (\<exists>d len. res_g res dst = Inr d \<and> pathlen g res src dst = Some (Inr len) \<and>
         path grid_ops g src dst len \<and> len \<le> d \<and>
         (\<forall>c. path grid_ops g src dst c \<longrightarrow> real_of_int d \<le> (1.00001 * w + 0.0001) * real_of_int c)))"
proof -
  have "graph_ok octile_weight g" using load_map[OF assms(1), of octile_weight] assms(2) by (auto simp: Graph_load_def)
  then show ?thesis using astar_euclid assms(3-) by blast
qed

definition two_cells :: Graph where
  "two_cells = \<lparr>grid = [[0, 1]], vertices = [\<lparr>row = 0, col = 0\<rparr>, \<lparr>row = 0, col = 1\<rparr>], height = 1, width = 2,
     neighbor_offsets = [0, 1, 2], neighbors = [\<lparr>vertex = 1, weight = 10000\<rparr>, \<lparr>vertex = 0, weight = 10000\<rparr>]\<rparr>"

lemma two_cells_load: "Graph_load (map_text [''..''] 2) = Inr two_cells"
  by code_simp

lemma two_cells_edge: "edge grid_ops two_cells 0 1 10000"
  unfolding edge_def by code_simp

theorem astar_on_map_witness:
  "\<exists>res d len. Graph_load (map_text [''..''] 2) = Inr two_cells \<and>
     astar bin_heap_ops grid_ops (euclid_heuristic two_cells 1 1) two_cells 0 1 False = Some (Inr res) \<and>
     res_g res 1 = Inr d \<and> pathlen two_cells res 0 1 = Some (Inr len) \<and> len \<le> d \<and>
     real_of_int d \<le> 1.00011 * 10000"
proof -
  have p: "path grid_ops two_cells 0 1 10000" by (rule path_edge[OF two_cells_edge])
  have m: "map_ok [''..''] 2" by code_simp
  have f: "euclid_fits two_cells 1 30000" by (simp add: euclid_fits_def two_cells_def INT_MAX_def)
  show ?thesis
    using astar_on_map[OF m two_cells_load f, of 0 1 False] p two_cells_load
    by (fastforce simp: two_cells_def INT_MAX_def split: sum.splits)
qed

end
