(* ===== verification/Par_Grid.thy ===== *)
theory Par_Grid
  imports Pwsa Grid_Search
begin

text \<open>
  The contracts of the parallel searches discharged for the binary heap and the octile grid, and
  the two-cell grid as a concrete input for them.
\<close>

interpretation pg: par_ctx bin_heap_ops heap_invar contents grid_ops "graph_ok octile_weight" "\<lambda>g. 14142"
  by unfold_locales

lemma two_cells_ok: "graph_ok octile_weight two_cells"
proof -
  have "map_ok [''..''] 2" by code_simp
  from load_map[OF this, of octile_weight] show ?thesis using two_cells_load by (auto simp: Graph_load_def)
qed

lemma two_cells_pre: "search_pre grid_ops (\<lambda>g. 14142) INT_MAX (\<lambda>v. 0) 0 two_cells 0"
  by (simp add: search_pre_def grid_ops_def two_cells_def INT_MAX_def)

end
