(* ===== verification/Wpanre.thy ===== *)
theory Wpanre
  imports Par_Grid
begin

text \<open>
  The parallel weighted A* without re-expansions and with one shared queue,
  \<open>src/src/wpanre.hpp\<close>. A step of the model is one atomic action of one worker: an atomic load or
  compare-and-swap, a read of a shared field, or one critical section of the lock
  (\<open>Locked::action\<close> of \<open>src/src/shared/search_utils.hpp\<close>). The program counter of a worker says
  where in the body it is; the scheduler \<open>parallel_while\<close> of PASL runs the body on every worker, in
  any interleaving.
\<close>

section \<open>The program\<close>

record wpanre_state =
  wp_is_expanded :: bool
  wp_pred :: int
  wp_g :: int
  wp_h :: int

definition WPANREResult :: "wpanre_state list \<Rightarrow> int list option \<Rightarrow> SearchResult" where
  "WPANREResult states pebbles =
     \<lparr>res_is_expanded = (\<lambda>vertex. ebind (arr_get states vertex) (\<lambda>s. Inr (wp_is_expanded s))),
      res_predecessor = (\<lambda>vertex. ebind (arr_get states vertex) (\<lambda>s. Inr (wp_pred s))),
      res_g = (\<lambda>vertex. ebind (arr_get states vertex) (\<lambda>s. Inr (wp_g s))),
      res_pebble = pebble_of pebbles\<rparr>"

definition wpanre_init :: "int \<Rightarrow> wpanre_state list" where
  "wpanre_init N = replicate (nat N) \<lparr>wp_is_expanded = False, wp_pred = -1, wp_g = INT_MAX, wp_h = -1\<rparr>"

definition wpanre_my_heur :: "(int \<Rightarrow> int) \<Rightarrow> wpanre_state list \<Rightarrow> int \<Rightarrow> (int \<times> wpanre_state list) result" where
  "wpanre_my_heur heuristic states v =
     ebind (arr_get states v) (\<lambda>s.
       if wp_h s = -1
       then ebind (arr_set states v (s\<lparr>wp_h := heuristic v\<rparr>)) (\<lambda>states. Inr (heuristic v, states))
       else Inr (wp_h s, states))"

text \<open>The lambda of \<open>for_each_neighbor_of\<close>, run inside the lock.\<close>

definition wpanre_relax ::
  "(int, 'h) heap_ops \<Rightarrow> (int \<Rightarrow> int) \<Rightarrow> int \<Rightarrow> int \<Rightarrow> int \<times> int \<Rightarrow> wpanre_state list \<times> 'h \<Rightarrow> (wpanre_state list \<times> 'h) result" where
  "wpanre_relax H heuristic v vdist nw sf =
     (case nw of (nbr, wgt) \<Rightarrow> case sf of (states, frontier) \<Rightarrow>
      ebind (num_add INT_MAX vdist wgt) (\<lambda>nbrdist.
      ebind (arr_get states nbr) (\<lambda>sn.
        if nbrdist < wp_g sn
        then ebind (wpanre_my_heur heuristic states nbr) (\<lambda>(heur, states).
             ebind (num_add INT_MAX nbrdist heur) (\<lambda>prio.
             ebind (op_insert H prio nbr frontier) (\<lambda>frontier.
             ebind (arr_get states nbr) (\<lambda>sn.
             ebind (arr_set states nbr (sn\<lparr>wp_g := nbrdist, wp_pred := v\<rparr>)) (\<lambda>states.
               Inr (states, frontier))))))
        else Inr (states, frontier))))"

datatype wpanre_pc =
    WLoop \<comment> \<open>at \<open>while (!is_done.load())\<close>\<close>
  | WPop \<comment> \<open>at the critical section that takes a vertex\<close>
  | WLoad int \<comment> \<open>at the load of \<open>is_expanded\<close>\<close>
  | WCas int \<comment> \<open>at the compare-and-swap of \<open>is_expanded\<close>\<close>
  | WClaimed int \<comment> \<open>after a successful swap\<close>
  | WRead int \<comment> \<open>at \<open>vdist = states[v].g\<close>\<close>
  | WRelax int int \<comment> \<open>at the critical section over the neighbours\<close>
  | WFound int \<comment> \<open>returned after finding the destination\<close>
  | WExit \<comment> \<open>returned because the search was done\<close>

record 'h wpanre =
  ws_states :: "wpanre_state list"
  ws_frontier :: 'h
  ws_is_done :: bool
  ws_pebbles :: "int list option"
  ws_pcs :: "wpanre_pc list"

definition wgoto :: "nat \<Rightarrow> wpanre_pc \<Rightarrow> 'h wpanre \<Rightarrow> 'h wpanre" where
  "wgoto i pc s = s\<lparr>ws_pcs := (ws_pcs s)[i := pc]\<rparr>"

definition wpanre_step ::
  "(int, 'h) heap_ops \<Rightarrow> 'g graph_ops \<Rightarrow> (int \<Rightarrow> int) \<Rightarrow> 'g \<Rightarrow> int \<Rightarrow> nat \<Rightarrow> 'h wpanre \<Rightarrow> 'h wpanre result" where
  "wpanre_step H G heuristic graph destination i s = (case ws_pcs s ! i of
       WLoop \<Rightarrow> Inr (wgoto i (if ws_is_done s then WExit else WPop) s)
     | WPop \<Rightarrow>
         if op_size H (ws_frontier s) = 0 then Inr (wgoto i WLoop s)
         else ebind (op_delete_min H (ws_frontier s)) (\<lambda>(v, frontier). Inr (wgoto i (WLoad v) (s\<lparr>ws_frontier := frontier\<rparr>)))
     | WLoad v \<Rightarrow> ebind (arr_get (ws_states s) v) (\<lambda>st. Inr (wgoto i (if wp_is_expanded st then WLoop else WCas v) s))
     | WCas v \<Rightarrow> ebind (arr_get (ws_states s) v) (\<lambda>st.
         if wp_is_expanded st then Inr (wgoto i WLoop s)
         else ebind (arr_set (ws_states s) v (st\<lparr>wp_is_expanded := True\<rparr>)) (\<lambda>states.
              Inr (wgoto i (WClaimed v) (s\<lparr>ws_states := states\<rparr>))))
     | WClaimed v \<Rightarrow> ebind (set_pebble (ws_pebbles s) v (int i)) (\<lambda>pebbles.
         if v = destination then Inr (wgoto i (WFound v) (s\<lparr>ws_pebbles := pebbles, ws_is_done := True\<rparr>))
         else Inr (wgoto i (WRead v) (s\<lparr>ws_pebbles := pebbles\<rparr>)))
     | WRead v \<Rightarrow> ebind (arr_get (ws_states s) v) (\<lambda>st. Inr (wgoto i (WRelax v (wp_g st)) s))
     | WRelax v vdist \<Rightarrow> ebind (neighbor_list G graph v) (\<lambda>nbrs.
         ebind (efold (wpanre_relax H heuristic v vdist) nbrs (ws_states s, ws_frontier s)) (\<lambda>(states, frontier).
           Inr (wgoto i WLoop (s\<lparr>ws_states := states, ws_frontier := frontier\<rparr>))))
     | WFound v \<Rightarrow> Inr s
     | WExit \<Rightarrow> Inr s)"

definition wpanre_start ::
  "(int, 'h) heap_ops \<Rightarrow> 'g graph_ops \<Rightarrow> (int \<Rightarrow> int) \<Rightarrow> 'g \<Rightarrow> int \<Rightarrow> bool \<Rightarrow> nat \<Rightarrow> 'h wpanre result" where
  "wpanre_start H G heuristic graph source pebble workers =
     (let N = number_vertices G graph; states = wpanre_init N in
      ebind (arr_get states source) (\<lambda>s.
      ebind (arr_set states source (s\<lparr>wp_g := 0\<rparr>)) (\<lambda>states.
      ebind (wpanre_my_heur heuristic states source) (\<lambda>(heur, states).
      ebind (op_insert H heur source (op_new H)) (\<lambda>frontier.
        Inr \<lparr>ws_states = states, ws_frontier = frontier, ws_is_done = False,
             ws_pebbles = init_pebbles pebble N, ws_pcs = replicate workers WLoop\<rparr>)))))"

text \<open>All interleavings: a reachable state is one that some schedule of worker steps leads to.\<close>

inductive wpanre_reach ::
  "(int, 'h) heap_ops \<Rightarrow> 'g graph_ops \<Rightarrow> (int \<Rightarrow> int) \<Rightarrow> 'g \<Rightarrow> int \<Rightarrow> int \<Rightarrow> bool \<Rightarrow> nat \<Rightarrow> 'h wpanre \<Rightarrow> bool"
  for H G heuristic graph source destination pebble workers where
  wreach_start: "wpanre_start H G heuristic graph source pebble workers = Inr s \<Longrightarrow>
    wpanre_reach H G heuristic graph source destination pebble workers s"
| wreach_step: "\<lbrakk>wpanre_reach H G heuristic graph source destination pebble workers s; i < workers;
    wpanre_step H G heuristic graph destination i s = Inr t\<rbrakk> \<Longrightarrow>
    wpanre_reach H G heuristic graph source destination pebble workers t"

text \<open>\<open>parallel_while\<close> returns when every worker has left the body.\<close>

definition wpanre_finished :: "'h wpanre \<Rightarrow> bool" where
  "wpanre_finished s \<longleftrightarrow> (\<forall>pc \<in> set (ws_pcs s). case pc of WFound v \<Rightarrow> True | WExit \<Rightarrow> True | _ \<Rightarrow> False)"

section \<open>Abstraction\<close>

fun wqueue :: "wpanre_pc \<Rightarrow> int multiset" where
  "wqueue (WLoad v) = {#v#}"
| "wqueue (WCas v) = {#v#}"
| "wqueue _ = {#}"

fun wacts :: "(int \<Rightarrow> (int \<times> int) list) \<Rightarrow> wpanre_pc \<Rightarrow> act multiset" where
  "wacts nb (WClaimed v) = {#Claimed v#}"
| "wacts nb (WRead v) = {#Claimed v#}"
| "wacts nb (WFound v) = {#Claimed v#}"
| "wacts nb (WRelax v d) = {#Relaxing v d (nb v)#}"
| "wacts nb _ = {#}"

definition wmem :: "wpanre_state list \<Rightarrow> int multiset \<Rightarrow> act multiset \<Rightarrow> psearch" where
  "wmem st Q A = \<lparr>ps_D = fld wp_g INT_MAX st, ps_P = fld wp_pred (-1) st, ps_X = {v. fld wp_is_expanded False st v},
     ps_Q = Q, ps_A = A\<rparr>"

lemma wmem_simps [simp]:
  "ps_D (wmem st Q A) = fld wp_g INT_MAX st" "ps_P (wmem st Q A) = fld wp_pred (-1) st"
  "ps_X (wmem st Q A) = {v. fld wp_is_expanded False st v}" "ps_Q (wmem st Q A) = Q" "ps_A (wmem st Q A) = A"
  by (simp_all add: wmem_def)

definition memo_ok :: "(int \<Rightarrow> int) \<Rightarrow> wpanre_state list \<Rightarrow> bool" where
  "memo_ok h st \<longleftrightarrow> (\<forall>v. 0 \<le> v \<and> v < int (length st) \<longrightarrow> fld wp_h (-1) st v \<in> {-1, h v})"

section \<open>Correctness over the contracts\<close>

context par_ctx
begin

definition wabs :: "'g \<Rightarrow> 'h wpanre \<Rightarrow> psearch" where
  "wabs gr s = wmem (ws_states s) (image_mset snd (entries (ws_frontier s)) + sum_list (map wqueue (ws_pcs s)))
     (sum_list (map (wacts (nbrs_of G gr)) (ws_pcs s)))"

definition w_core :: "(int \<Rightarrow> int) \<Rightarrow> 'g \<Rightarrow> int \<Rightarrow> 'h wpanre \<Rightarrow> bool" where
  "w_core h gr dst s \<longleftrightarrow> int (length (ws_states s)) = number_vertices G gr \<and> invar (ws_frontier s) \<and>
     memo_ok h (ws_states s) \<and> pebbles_ok (number_vertices G gr) (ws_pebbles s) \<and>
     (\<forall>v. WFound v \<in> set (ws_pcs s) \<longrightarrow> v = dst) \<and> (WExit \<in> set (ws_pcs s) \<longrightarrow> ws_is_done s) \<and>
     (ws_is_done s \<longrightarrow> fld wp_is_expanded False (ws_states s) dst)"

lemma my_heur_ok:
  assumes "memo_ok h st" "0 \<le> x" "x < int (length st)" "h x \<noteq> -1"
  shows "\<exists>st'. wpanre_my_heur h st x = Inr (h x, st') \<and> length st' = length st \<and> memo_ok h st' \<and>
    fld wp_g INT_MAX st' = fld wp_g INT_MAX st \<and> fld wp_pred (-1) st' = fld wp_pred (-1) st \<and>
    fld wp_is_expanded False st' = fld wp_is_expanded False st"
proof (cases "wp_h (st ! nat x) = -1")
  case True
  then show ?thesis
    using assms by (auto simp: wpanre_my_heur_def memo_ok_def fld_update)
next
  case False
  then have "wp_h (st ! nat x) = h x" using assms by (auto simp: memo_ok_def fld_def)
  then show ?thesis using assms False by (simp add: wpanre_my_heur_def)
qed

lemma wrelax_one:
  assumes gok: "ok gr" and pre: "search_pre G max_weight INT_MAX h Hmax gr src"
    and inv: "ps_inv G (max_weight gr) INT_MAX gr src
      (wmem st (image_mset snd (entries fr) + Q) (add_mset (Relaxing v d ((x, w) # es)) A))"
    and st: "int (length st) = number_vertices G gr" "invar fr" "memo_ok h st"
  shows "\<exists>st' fr'. wpanre_relax H h v d (x, w) (st, fr) = Inr (st', fr') \<and>
    astep G gr (wmem st (image_mset snd (entries fr) + Q) (add_mset (Relaxing v d ((x, w) # es)) A))
      (wmem st' (image_mset snd (entries fr') + Q) (add_mset (Relaxing v d es) A)) \<and>
    length st' = length st \<and> invar fr' \<and> memo_ok h st' \<and> fld wp_is_expanded False st' = fld wp_is_expanded False st"
proof -
  note b = prio_bounds[OF gok pre inv, of v d x w es, simplified]
  have x: "0 \<le> x" "x < int (length st)" using b(5,6) st(1) by auto
  have add: "num_add INT_MAX d w = Inr (d + w)" using b by (intro num_add_ok) auto
  have gx: "wp_g (st ! nat x) = fld wp_g INT_MAX st x" using x by (simp add: fld_def)
  show ?thesis
  proof (cases "d + w < fld wp_g INT_MAX st x")
    case False
    then have "wpanre_relax H h v d (x, w) (st, fr) = Inr (st, fr)" using x by (simp add: wpanre_relax_def add gx)
    moreover have "astep G gr (wmem st (image_mset snd (entries fr) + Q) (add_mset (Relaxing v d ((x, w) # es)) A))
      (wmem st (image_mset snd (entries fr) + Q) (add_mset (Relaxing v d es) A))"
      using astep.keep[of "wmem st (image_mset snd (entries fr) + Q) (add_mset (Relaxing v d ((x, w) # es)) A)" v d x w es A G gr] False
      by (simp add: wmem_def)
    ultimately show ?thesis using st by blast
  next
    case True
    obtain st1 where st1: "wpanre_my_heur h st x = Inr (h x, st1)" "length st1 = length st" "memo_ok h st1"
      "fld wp_g INT_MAX st1 = fld wp_g INT_MAX st" "fld wp_pred (-1) st1 = fld wp_pred (-1) st"
      "fld wp_is_expanded False st1 = fld wp_is_expanded False st"
      using my_heur_ok[OF st(3) x] b(3) by auto
    have p: "num_add INT_MAX (d + w) (h x) = Inr (d + w + h x)" using b by (intro num_add_ok) auto
    obtain fr' where fr': "op_insert H (d + w + h x) x fr = Inr fr'" "invar fr'"
      "entries fr' = add_mset (d + w + h x, x) (entries fr)"
      using insert[OF st(2), of "d + w + h x" x] b(4) by (auto simp: INT_MAX_def LONG_MAX_def)
    define st2 where "st2 = st1[nat x := (st1 ! nat x)\<lparr>wp_g := d + w, wp_pred := v\<rparr>]"
    have x1: "x < int (length st1)" using x st1(2) by simp
    have run: "wpanre_relax H h v d (x, w) (st, fr) = Inr (st2, fr')"
      using x x1 True st1(1) fr'(1) by (simp add: wpanre_relax_def add gx p st2_def)
    have D: "fld wp_g INT_MAX st2 = (fld wp_g INT_MAX st)(x := d + w)" "fld wp_pred (-1) st2 = (fld wp_pred (-1) st)(x := v)"
      "fld wp_is_expanded False st2 = fld wp_is_expanded False st" "fld wp_h (-1) st2 = fld wp_h (-1) st1"
      using x(1) x1 fld_upd_id[of x st1 wp_is_expanded False] by (simp_all add: st2_def fld_update st1 del: fld_upd_id)
        (simp_all add: st1)
    have "astep G gr (wmem st (image_mset snd (entries fr) + Q) (add_mset (Relaxing v d ((x, w) # es)) A))
      (wmem st2 (image_mset snd (entries fr') + Q) (add_mset (Relaxing v d es) A))"
      using astep.improve[of "wmem st (image_mset snd (entries fr) + Q) (add_mset (Relaxing v d ((x, w) # es)) A)" v d x w es A G gr] True
      by (simp add: wmem_def D fr'(3))
    moreover have "memo_ok h st2" using st1(3) D(4) by (simp add: memo_ok_def st2_def)
    ultimately show ?thesis using run fr'(2) D(3) st1(2) by (auto simp: st2_def)
  qed
qed

lemma wrelax_all:
  assumes gok: "ok gr" and pre: "search_pre G max_weight INT_MAX h Hmax gr src"
    and "ps_inv G (max_weight gr) INT_MAX gr src (wmem st (image_mset snd (entries fr) + Q) (add_mset (Relaxing v d l) A))"
    and "int (length st) = number_vertices G gr" "invar fr" "memo_ok h st"
  shows "\<exists>st' fr'. efold (wpanre_relax H h v d) l (st, fr) = Inr (st', fr') \<and>
    asteps G gr (wmem st (image_mset snd (entries fr) + Q) (add_mset (Relaxing v d l) A))
      (wmem st' (image_mset snd (entries fr') + Q) A) \<and>
    length st' = length st \<and> invar fr' \<and> memo_ok h st' \<and> fld wp_is_expanded False st' = fld wp_is_expanded False st"
  using assms(3-)
proof (induction l arbitrary: st fr)
  case Nil
  have "astep G gr (wmem st (image_mset snd (entries fr) + Q) (add_mset (Relaxing v d []) A))
      (wmem st (image_mset snd (entries fr) + Q) A)"
    using astep.close[of "wmem st (image_mset snd (entries fr) + Q) (add_mset (Relaxing v d []) A)" v d A G gr]
    by (simp add: wmem_def)
  then show ?case using Nil by auto
next
  case (Cons e l)
  obtain x w where e: "e = (x, w)" by (cases e)
  from wrelax_one[OF gok pre Cons.prems[unfolded e]] obtain st1 fr1 where
    1: "wpanre_relax H h v d (x, w) (st, fr) = Inr (st1, fr1)"
      "astep G gr (wmem st (image_mset snd (entries fr) + Q) (add_mset (Relaxing v d ((x, w) # l)) A))
        (wmem st1 (image_mset snd (entries fr1) + Q) (add_mset (Relaxing v d l) A))"
      "length st1 = length st" "invar fr1" "memo_ok h st1" "fld wp_is_expanded False st1 = fld wp_is_expanded False st"
    by (elim exE conjE)
  have inv1: "ps_inv G (max_weight gr) INT_MAX gr src (wmem st1 (image_mset snd (entries fr1) + Q) (add_mset (Relaxing v d l) A))"
    by (rule astep_inv[OF gok pre_par[OF gok pre] Cons.prems(1)[unfolded e] 1(2)])
  from Cons.IH[OF inv1 _ 1(4,5)] Cons.prems(2) 1(3) obtain st2 fr2 where
    2: "efold (wpanre_relax H h v d) l (st1, fr1) = Inr (st2, fr2)"
      "asteps G gr (wmem st1 (image_mset snd (entries fr1) + Q) (add_mset (Relaxing v d l) A))
        (wmem st2 (image_mset snd (entries fr2) + Q) A)"
      "length st2 = length st1" "invar fr2" "memo_ok h st2" "fld wp_is_expanded False st2 = fld wp_is_expanded False st1"
    by auto
  show ?case using 1 2 by (auto simp: e intro: converse_rtranclp_into_rtranclp)
qed

lemma wabs_frame:
  assumes "i < length (ws_pcs s)"
  obtains RQ RA where
    "wabs gr s = wmem (ws_states s) (image_mset snd (entries (ws_frontier s)) + (wqueue (ws_pcs s ! i) + RQ))
      (wacts (nbrs_of G gr) (ws_pcs s ! i) + RA)"
    "\<And>pc t. ws_pcs t = ws_pcs s \<Longrightarrow> wabs gr (wgoto i pc t) =
      wmem (ws_states t) (image_mset snd (entries (ws_frontier t)) + (wqueue pc + RQ)) (wacts (nbrs_of G gr) pc + RA)"
proof -
  obtain RQ where "sum_list (map wqueue (ws_pcs s)) = wqueue (ws_pcs s ! i) + RQ"
    "\<And>pc. sum_list (map wqueue ((ws_pcs s)[i := pc])) = wqueue pc + RQ"
    using sum_list_frame[OF assms, of wqueue] by blast
  moreover obtain RA where "sum_list (map (wacts (nbrs_of G gr)) (ws_pcs s)) = wacts (nbrs_of G gr) (ws_pcs s ! i) + RA"
    "\<And>pc. sum_list (map (wacts (nbrs_of G gr)) ((ws_pcs s)[i := pc])) = wacts (nbrs_of G gr) pc + RA"
    using sum_list_frame[OF assms, of "wacts (nbrs_of G gr)"] by blast
  ultimately show ?thesis by (intro that[of RQ RA]) (simp_all add: wabs_def wgoto_def)
qed

text \<open>
  A step from \<open>s\<close> does not fail, keeps the data invariant, and is a sequence of zero or more steps
  of the abstract search.
\<close>

definition wsim :: "(int \<Rightarrow> int) \<Rightarrow> 'g \<Rightarrow> int \<Rightarrow> 'h wpanre \<Rightarrow> 'h wpanre result \<Rightarrow> bool" where
  "wsim h gr dst s r \<longleftrightarrow> (\<exists>t. r = Inr t \<and> w_core h gr dst t \<and> length (ws_pcs t) = length (ws_pcs s) \<and>
     asteps G gr (wabs gr s) (wabs gr t))"

lemma wsim_goto:
  assumes "w_core h gr dst t" "ws_pcs t = ws_pcs s" "\<And>v. pc = WFound v \<Longrightarrow> v = dst" "pc = WExit \<Longrightarrow> ws_is_done t"
    "asteps G gr (wabs gr s) (wabs gr (wgoto i pc t))"
  shows "wsim h gr dst s (Inr (wgoto i pc t))"
proof -
  have "w_core h gr dst (wgoto i pc t)"
    using assms(1,3,4) by (auto simp: w_core_def wgoto_def dest!: set_update_subset_insert[THEN subsetD])
  then show ?thesis using assms(2,5) by (simp add: wsim_def) (simp add: wgoto_def)
qed

lemma w_ranges:
  assumes "w_core h gr dst s" "ps_inv G (max_weight gr) INT_MAX gr src (wabs gr s)" "i < length (ws_pcs s)"
  shows "v \<in># wqueue (ws_pcs s ! i) \<Longrightarrow> 0 \<le> v \<and> v < int (length (ws_states s))"
    "a \<in># wacts (nbrs_of G gr) (ws_pcs s ! i) \<Longrightarrow> 0 \<le> act_vertex a \<and> act_vertex a < int (length (ws_states s)) \<and>
      fld wp_is_expanded False (ws_states s) (act_vertex a)"
proof -
  note iv = ps_invD[OF assms(2)]
  have len: "int (length (ws_states s)) = number_vertices G gr" using assms(1) by (simp add: w_core_def)
  obtain RQ RA where abs: "wabs gr s = wmem (ws_states s)
    (image_mset snd (entries (ws_frontier s)) + (wqueue (ws_pcs s ! i) + RQ)) (wacts (nbrs_of G gr) (ws_pcs s ! i) + RA)"
    by (rule wabs_frame[OF assms(3)])
  show "0 \<le> v \<and> v < int (length (ws_states s))" if "v \<in># wqueue (ws_pcs s ! i)"
    using iv(3)[OF iv(5)[of v]] that len by (simp add: abs)
  show "0 \<le> act_vertex a \<and> act_vertex a < int (length (ws_states s)) \<and> fld wp_is_expanded False (ws_states s) (act_vertex a)"
    if "a \<in># wacts (nbrs_of G gr) (ws_pcs s ! i)"
  proof -
    have "act_ok G (max_weight gr) gr (ps_D (wabs gr s)) (ps_X (wabs gr s)) a" using iv(8)[of a] that by (simp add: abs)
    then have "act_vertex a \<in> ps_X (wabs gr s)" by (cases a) auto
    then show ?thesis using iv(3)[OF iv(6)] len by (simp add: abs)
  qed
qed

lemma wstep_pop:
  assumes core: "w_core h gr dst s" and i: "i < length (ws_pcs s)" and pc: "ws_pcs s ! i = WPop"
  shows "wsim h gr dst s (wpanre_step H G h gr dst i s)"
proof -
  have fr: "invar (ws_frontier s)" using core by (simp add: w_core_def)
  obtain RQ RA where abs: "wabs gr s = wmem (ws_states s) (image_mset snd (entries (ws_frontier s)) + RQ) RA"
    and upd: "\<And>pc t. ws_pcs t = ws_pcs s \<Longrightarrow> wabs gr (wgoto i pc t) =
      wmem (ws_states t) (image_mset snd (entries (ws_frontier t)) + (wqueue pc + RQ)) (wacts (nbrs_of G gr) pc + RA)"
    using wabs_frame[OF i] pc by (metis wacts.simps(6) wqueue.simps(4) add_0)
  show ?thesis
  proof (cases "entries (ws_frontier s) = {#}")
    case True
    then have "op_size H (ws_frontier s) = 0" using size[OF fr] by simp
    then show ?thesis using wsim_goto[OF core, of s WLoop i] abs upd[of s WLoop] pc by (simp add: wpanre_step_def)
  next
    case False
    then have sz: "op_size H (ws_frontier s) \<noteq> 0" using size[OF fr] by simp
    obtain p v fr' where pop: "op_delete_min H (ws_frontier s) = Inr (v, fr')" "invar fr'"
      "entries (ws_frontier s) = add_mset (p, v) (entries fr')" using delete_min[OF fr False] by fast
    have "w_core h gr dst (s\<lparr>ws_frontier := fr'\<rparr>)" using core pop(2) by (simp add: w_core_def)
    moreover have "wabs gr (wgoto i (WLoad v) (s\<lparr>ws_frontier := fr'\<rparr>)) = wabs gr s"
      using abs upd[of "s\<lparr>ws_frontier := fr'\<rparr>" "WLoad v"] pop(3) by simp
    ultimately show ?thesis
      using wsim_goto[of h gr dst "s\<lparr>ws_frontier := fr'\<rparr>" s "WLoad v" i] sz pop(1) pc by (simp add: wpanre_step_def)
  qed
qed

lemma wstep_drop:
  assumes core: "w_core h gr dst s" and i: "i < length (ws_pcs s)"
    and pc: "ws_pcs s ! i = WLoad v \<or> ws_pcs s ! i = WCas v" and ex: "fld wp_is_expanded False (ws_states s) v"
  shows "wsim h gr dst s (Inr (wgoto i WLoop s))"
proof -
  obtain RQ RA where abs: "wabs gr s = wmem (ws_states s)
      (image_mset snd (entries (ws_frontier s)) + (wqueue (ws_pcs s ! i) + RQ)) (wacts (nbrs_of G gr) (ws_pcs s ! i) + RA)"
    and upd: "\<And>pc t. ws_pcs t = ws_pcs s \<Longrightarrow> wabs gr (wgoto i pc t) =
      wmem (ws_states t) (image_mset snd (entries (ws_frontier t)) + (wqueue pc + RQ)) (wacts (nbrs_of G gr) pc + RA)"
    using wabs_frame[OF i] by metis
  have "astep G gr (wabs gr s) (wabs gr (wgoto i WLoop s))"
    using astep.drop[of v "wabs gr s" G gr] ex abs upd[of s WLoop] pc by (auto simp: wmem_def)
  then show ?thesis by (intro wsim_goto[OF core]) auto
qed

lemma wstep_claim:
  assumes core: "w_core h gr dst s" and i: "i < length (ws_pcs s)" and pc: "ws_pcs s ! i = WCas v"
    and v: "0 \<le> v" "v < int (length (ws_states s))" and ex: "\<not> fld wp_is_expanded False (ws_states s) v"
  shows "wsim h gr dst s (wpanre_step H G h gr dst i s)"
proof -
  obtain RQ RA where abs: "wabs gr s = wmem (ws_states s)
      (image_mset snd (entries (ws_frontier s)) + (wqueue (ws_pcs s ! i) + RQ)) (wacts (nbrs_of G gr) (ws_pcs s ! i) + RA)"
    and upd: "\<And>pc t. ws_pcs t = ws_pcs s \<Longrightarrow> wabs gr (wgoto i pc t) =
      wmem (ws_states t) (image_mset snd (entries (ws_frontier t)) + (wqueue pc + RQ)) (wacts (nbrs_of G gr) pc + RA)"
    using wabs_frame[OF i] by metis
  define st where "st = (ws_states s)[nat v := (ws_states s ! nat v)\<lparr>wp_is_expanded := True\<rparr>]"
  have D: "fld wp_g INT_MAX st = fld wp_g INT_MAX (ws_states s)" "fld wp_pred (-1) st = fld wp_pred (-1) (ws_states s)"
    "fld wp_h (-1) st = fld wp_h (-1) (ws_states s)"
    "fld wp_is_expanded False st = (fld wp_is_expanded False (ws_states s))(v := True)" "length st = length (ws_states s)"
    using v by (simp_all add: st_def fld_update)
  have X: "{x. fld wp_is_expanded False st x} = insert v {x. fld wp_is_expanded False (ws_states s) x}"
    by (auto simp: D)
  have "astep G gr (wabs gr s) (wabs gr (wgoto i (WClaimed v) (s\<lparr>ws_states := st\<rparr>)))"
    using astep.claim[of v "wabs gr s" G gr] ex abs upd[of "s\<lparr>ws_states := st\<rparr>" "WClaimed v"] pc by (simp add: wmem_def X D(1,2))
  moreover have "w_core h gr dst (s\<lparr>ws_states := st\<rparr>)" using core by (simp add: w_core_def memo_ok_def D)
  ultimately have "wsim h gr dst s (Inr (wgoto i (WClaimed v) (s\<lparr>ws_states := st\<rparr>)))" by (intro wsim_goto) auto
  moreover have "\<not> wp_is_expanded (ws_states s ! nat v)" using v ex by (simp add: fld_def)
  ultimately show ?thesis using v pc by (simp add: wpanre_step_def st_def[symmetric])
qed

lemma wstep_claimed:
  assumes core: "w_core h gr dst s" and i: "i < length (ws_pcs s)" and pc: "ws_pcs s ! i = WClaimed v"
    and v: "0 \<le> v" "v < int (length (ws_states s))" "fld wp_is_expanded False (ws_states s) v"
  shows "wsim h gr dst s (wpanre_step H G h gr dst i s)"
proof -
  obtain RQ RA where abs: "wabs gr s = wmem (ws_states s)
      (image_mset snd (entries (ws_frontier s)) + (wqueue (ws_pcs s ! i) + RQ)) (wacts (nbrs_of G gr) (ws_pcs s ! i) + RA)"
    and upd: "\<And>pc t. ws_pcs t = ws_pcs s \<Longrightarrow> wabs gr (wgoto i pc t) =
      wmem (ws_states t) (image_mset snd (entries (ws_frontier t)) + (wqueue pc + RQ)) (wacts (nbrs_of G gr) pc + RA)"
    using wabs_frame[OF i] by metis
  obtain pb where pb: "set_pebble (ws_pebbles s) v (int i) = Inr pb" "pebbles_ok (number_vertices G gr) pb"
    using set_pebble_ok[of "number_vertices G gr" "ws_pebbles s" v "int i"] core v by (auto simp: w_core_def)
  let ?s = "if v = dst then s\<lparr>ws_pebbles := pb, ws_is_done := True\<rparr> else s\<lparr>ws_pebbles := pb\<rparr>"
  let ?pc = "if v = dst then WFound v else WRead v"
  have "w_core h gr dst ?s" using core pb(2) v(3) by (auto simp: w_core_def)
  moreover have "wabs gr (wgoto i ?pc ?s) = wabs gr s" using abs upd[of ?s ?pc] pc by simp
  ultimately have "wsim h gr dst s (Inr (wgoto i ?pc ?s))" by (intro wsim_goto) (auto split: if_splits)
  then show ?thesis using pb(1) pc by (simp add: wpanre_step_def split: if_splits)
qed

lemma wstep_read:
  assumes gok: "ok gr" and core: "w_core h gr dst s" and i: "i < length (ws_pcs s)" and pc: "ws_pcs s ! i = WRead v"
    and v: "0 \<le> v" "v < int (length (ws_states s))"
  shows "wsim h gr dst s (wpanre_step H G h gr dst i s)"
proof -
  obtain RQ RA where abs: "wabs gr s = wmem (ws_states s)
      (image_mset snd (entries (ws_frontier s)) + (wqueue (ws_pcs s ! i) + RQ)) (wacts (nbrs_of G gr) (ws_pcs s ! i) + RA)"
    and upd: "\<And>pc t. ws_pcs t = ws_pcs s \<Longrightarrow> wabs gr (wgoto i pc t) =
      wmem (ws_states t) (image_mset snd (entries (ws_frontier t)) + (wqueue pc + RQ)) (wacts (nbrs_of G gr) pc + RA)"
    using wabs_frame[OF i] by metis
  let ?d = "fld wp_g INT_MAX (ws_states s) v"
  obtain l where l: "neighbor_list G gr v = Inr l" using neighbors_ok[OF gok, of v] v core by (auto simp: w_core_def)
  have "astep G gr (wabs gr s) (wabs gr (wgoto i (WRelax v ?d) s))"
    using astep.read[of "wabs gr s" v RA G gr l] l abs upd[of s "WRelax v ?d"] pc by (simp add: wmem_def nbrs_of_def)
  then have "wsim h gr dst s (Inr (wgoto i (WRelax v ?d) s))" by (intro wsim_goto[OF core]) auto
  moreover have "wp_g (ws_states s ! nat v) = ?d" using v by (simp add: fld_def)
  ultimately show ?thesis using v pc by (simp add: wpanre_step_def)
qed

lemma wstep_relax:
  assumes gok: "ok gr" and pre: "search_pre G max_weight INT_MAX h Hmax gr src"
    and core: "w_core h gr dst s" and inv: "ps_inv G (max_weight gr) INT_MAX gr src (wabs gr s)"
    and i: "i < length (ws_pcs s)" and pc: "ws_pcs s ! i = WRelax v d" and v: "0 \<le> v" "v < int (length (ws_states s))"
  shows "wsim h gr dst s (wpanre_step H G h gr dst i s)"
proof -
  obtain RQ RA where abs: "wabs gr s = wmem (ws_states s)
      (image_mset snd (entries (ws_frontier s)) + (wqueue (ws_pcs s ! i) + RQ)) (wacts (nbrs_of G gr) (ws_pcs s ! i) + RA)"
    and upd: "\<And>pc t. ws_pcs t = ws_pcs s \<Longrightarrow> wabs gr (wgoto i pc t) =
      wmem (ws_states t) (image_mset snd (entries (ws_frontier t)) + (wqueue pc + RQ)) (wacts (nbrs_of G gr) pc + RA)"
    using wabs_frame[OF i] by metis
  obtain l where l: "neighbor_list G gr v = Inr l" using neighbors_ok[OF gok, of v] v core by (auto simp: w_core_def)
  have a: "wabs gr s = wmem (ws_states s) (image_mset snd (entries (ws_frontier s)) + RQ) (add_mset (Relaxing v d l) RA)"
    using abs pc l by (simp add: nbrs_of_def)
  have c: "int (length (ws_states s)) = number_vertices G gr" "invar (ws_frontier s)" "memo_ok h (ws_states s)"
    using core by (auto simp: w_core_def)
  obtain st' fr' where r: "efold (wpanre_relax H h v d) l (ws_states s, ws_frontier s) = Inr (st', fr')"
    "asteps G gr (wabs gr s) (wmem st' (image_mset snd (entries fr') + RQ) RA)"
    "length st' = length (ws_states s)" "invar fr'" "memo_ok h st'"
    "fld wp_is_expanded False st' = fld wp_is_expanded False (ws_states s)"
    using wrelax_all[OF gok pre inv[unfolded a] c] unfolding a by (elim exE conjE)
  let ?s = "s\<lparr>ws_states := st', ws_frontier := fr'\<rparr>"
  have "w_core h gr dst ?s" using core r(3-6) by (simp add: w_core_def)
  moreover have "asteps G gr (wabs gr s) (wabs gr (wgoto i WLoop ?s))" using r(2) upd[of ?s WLoop] by simp
  ultimately have "wsim h gr dst s (Inr (wgoto i WLoop ?s))" by (intro wsim_goto) auto
  then show ?thesis using l r(1) pc by (simp add: wpanre_step_def)
qed

lemma wstep_refines:
  assumes gok: "ok gr" and pre: "search_pre G max_weight INT_MAX h Hmax gr src"
    and core: "w_core h gr dst s" and inv: "ps_inv G (max_weight gr) INT_MAX gr src (wabs gr s)"
    and i: "i < length (ws_pcs s)"
  shows "wsim h gr dst s (wpanre_step H G h gr dst i s)"
proof -
  note r = w_ranges[OF core inv i]
  have same: "wabs gr (wgoto i pc s) = wabs gr s"
    if "wqueue pc = wqueue (ws_pcs s ! i)" "\<And>nb. wacts nb pc = wacts nb (ws_pcs s ! i)" for pc
    using wabs_frame[OF i] that by metis
  show ?thesis
  proof (cases "ws_pcs s ! i")
    case WLoop
    then show ?thesis using wsim_goto[OF core, of s "if ws_is_done s then WExit else WPop" i] same[of WExit] same[of WPop]
      by (auto simp: wpanre_step_def)
  next
    case WPop
    then show ?thesis by (rule wstep_pop[OF core i])
  next
    case (WLoad v)
    then show ?thesis
      using r(1)[of v] wstep_drop[OF core i, of v] wsim_goto[OF core, of s "WCas v" i] same[of "WCas v"]
      by (auto simp: wpanre_step_def fld_def)
  next
    case (WCas v)
    then show ?thesis
      using r(1)[of v] wstep_drop[OF core i, of v] wstep_claim[OF core i, of v]
      by (cases "fld wp_is_expanded False (ws_states s) v") (auto simp: wpanre_step_def fld_def)
  next
    case (WClaimed v)
    then show ?thesis using r(2)[of "Claimed v"] by (intro wstep_claimed[OF core i]) auto
  next
    case (WRead v)
    then show ?thesis using r(2)[of "Claimed v"] by (intro wstep_read[OF gok core i]) auto
  next
    case (WRelax v d)
    then show ?thesis using r(2)[of "Relaxing v d (nbrs_of G gr v)"] by (intro wstep_relax[OF gok pre core inv i]) auto
  qed (use core in \<open>auto simp: wpanre_step_def wsim_def\<close>)
qed

end

section \<open>Reachable states\<close>

context par_ctx
begin

lemma wstart_refines:
  assumes gok: "ok gr" and pre: "search_pre G max_weight INT_MAX h Hmax gr src"
  shows "\<exists>s. wpanre_start H G h gr src pebble n = Inr s \<and> w_core h gr dst s \<and> length (ws_pcs s) = n \<and>
    wabs gr s = ps_init INT_MAX src (\<lambda>_. -1)"
proof -
  let ?N = "number_vertices G gr"
  have src: "0 \<le> src" "src < ?N" and hs: "0 \<le> h src" "h src \<le> Hmax" "Hmax < INT_MAX"
  proof -
    have "0 \<le> ?N * max_weight gr" using pre nonneg_size[OF gok] by (simp add: search_pre_def)
    moreover have "?N * max_weight gr + Hmax < INT_MAX" using pre by (simp add: search_pre_def)
    ultimately show "Hmax < INT_MAX" by linarith
  qed (use pre in \<open>auto simp: search_pre_def\<close>)
  let ?z = "\<lparr>wp_is_expanded = False, wp_pred = -1, wp_g = INT_MAX, wp_h = -1\<rparr>"
  define st where "st = (wpanre_init ?N)[nat src := ?z\<lparr>wp_g := 0, wp_h := h src\<rparr>]"
  have len: "int (length st) = ?N" using src by (simp add: st_def wpanre_init_def)
  obtain fr where fr: "op_insert H (h src) src (op_new H) = Inr fr" "invar fr" "entries fr = {#(h src, src)#}"
    using insert[OF new(1), of "h src" src] hs by (auto simp: new(2) INT_MAX_def LONG_MAX_def)
  have run: "wpanre_start H G h gr src pebble n = Inr \<lparr>ws_states = st, ws_frontier = fr, ws_is_done = False,
      ws_pebbles = init_pebbles pebble ?N, ws_pcs = replicate n WLoop\<rparr>" (is "_ = Inr ?s")
    using src fr(1) by (simp add: wpanre_start_def wpanre_init_def wpanre_my_heur_def Let_def st_def)
  have D: "fld wp_g INT_MAX st = (\<lambda>v. if v = src then 0 else INT_MAX)" "fld wp_pred (-1) st = (\<lambda>_. -1)"
    "fld wp_is_expanded False st = (\<lambda>_. False)" "fld wp_h (-1) st = (\<lambda>v. if v = src then h src else -1)"
    using src by (auto simp: fun_eq_iff st_def fld_update wpanre_init_def fld_replicate)
  have "sum_list (map wqueue (replicate n WLoop)) = {#}" "sum_list (map (wacts (nbrs_of G gr)) (replicate n WLoop)) = {#}"
    by (simp_all add: sum_list_empty_mset)
  then have "wabs gr ?s = ps_init INT_MAX src (\<lambda>_. -1)" by (simp add: wabs_def wmem_def ps_init_def D fr(3))
  moreover have "w_core h gr dst ?s" using len fr(2) src by (auto simp: w_core_def memo_ok_def D)
  ultimately show ?thesis using run by simp
qed

lemma wreach_refines:
  assumes gok: "ok gr" and pre: "search_pre G max_weight INT_MAX h Hmax gr src"
    and r: "wpanre_reach H G h gr src dst pebble n s"
  shows "w_core h gr dst s \<and> length (ws_pcs s) = n \<and> asteps G gr (ps_init INT_MAX src (\<lambda>_. -1)) (wabs gr s) \<and>
    ps_inv G (max_weight gr) INT_MAX gr src (wabs gr s)"
  using r
proof (induction rule: wpanre_reach.induct)
  case (wreach_start s)
  then show ?case
    using wstart_refines[OF gok pre, of pebble n dst] ps_inv_init[OF pre_par[OF gok pre] gok] by auto
next
  case (wreach_step s i t)
  then have inv: "ps_inv G (max_weight gr) INT_MAX gr src (wabs gr s)" and core: "w_core h gr dst s"
    and i: "i < length (ws_pcs s)" by auto
  have "wsim h gr dst s (Inr t)" using wstep_refines[OF gok pre core inv i] wreach_step.hyps(3) by simp
  then have t: "w_core h gr dst t" "length (ws_pcs t) = length (ws_pcs s)" "asteps G gr (wabs gr s) (wabs gr t)"
    by (auto simp: wsim_def)
  then show ?case using wreach_step.IH asteps_inv[OF gok pre_par[OF gok pre] inv t(3)] by (auto intro: rtranclp_trans)
qed

lemma wreach_step_ok:
  assumes gok: "ok gr" and pre: "search_pre G max_weight INT_MAX h Hmax gr src"
    and r: "wpanre_reach H G h gr src dst pebble n s" and i: "i < n"
  shows "\<exists>t. wpanre_step H G h gr dst i s = Inr t \<and> (wabs gr t = wabs gr s \<or> (wabs gr t, wabs gr s) \<in> ps_less G gr)"
proof -
  have c: "w_core h gr dst s" "i < length (ws_pcs s)" "ps_inv G (max_weight gr) INT_MAX gr src (wabs gr s)"
    using wreach_refines[OF gok pre r] i by auto
  from wstep_refines[OF gok pre c(1,3,2)] obtain t where "wpanre_step H G h gr dst i s = Inr t" "asteps G gr (wabs gr s) (wabs gr t)"
    by (auto simp: wsim_def)
  then show ?thesis using asteps_decrease[OF gok pre_par[OF gok pre] c(3)] by blast
qed

lemma wfinished_result:
  assumes gok: "ok gr" and pre: "search_pre G max_weight INT_MAX h Hmax gr src"
    and r: "wpanre_reach H G h gr src dst pebble n s" and n: "0 < n" and f: "wpanre_finished s"
  shows "\<exists>D P. result_tree G INT_MAX gr src dst (WPANREResult (ws_states s) (ws_pebbles s)) D P"
proof -
  note w = wreach_refines[OF gok pre r]
  have c: "w_core h gr dst s" and inv: "ps_inv G (max_weight gr) INT_MAX gr src (wabs gr s)" using w by auto
  have "ws_pcs s \<noteq> []" using w n by auto
  then obtain pc where pc: "pc \<in> set (ws_pcs s)" by (meson last_in_set)
  have "dst \<in> ps_X (wabs gr s)"
  proof (cases pc)
    case (WFound v)
    obtain i where i: "i < length (ws_pcs s)" "ws_pcs s ! i = WFound v" using pc WFound by (auto simp: in_set_conv_nth)
    have "v = dst" using c pc WFound by (auto simp: w_core_def)
    then show ?thesis using w_ranges(2)[OF c inv i(1), of "Claimed v"] i(2) by (simp add: wabs_def)
  next
    case WExit
    then show ?thesis using c pc by (auto simp: w_core_def wabs_def)
  qed (use f pc in \<open>auto simp: wpanre_finished_def\<close>)
  moreover have "res_g (WPANREResult (ws_states s) (ws_pebbles s)) v = Inr (ps_D (wabs gr s) v) \<and>
    res_predecessor (WPANREResult (ws_states s) (ws_pebbles s)) v = Inr (ps_P (wabs gr s) v)"
    if "0 \<le> v" "v < number_vertices G gr" for v
    using c that by (simp add: w_core_def WPANREResult_def wabs_def fld_def)
  ultimately have "result_tree G INT_MAX gr src dst (WPANREResult (ws_states s) (ws_pebbles s)) (ps_D (wabs gr s)) (ps_P (wabs gr s))"
    by (intro claimed_result[OF inv])
  then show ?thesis by blast
qed

text \<open>Until the destination is claimed, a queued vertex or an expansion under way is left.\<close>

definition wpanre_idle :: "'h wpanre \<Rightarrow> bool" where
  "wpanre_idle s \<longleftrightarrow> entries (ws_frontier s) = {#} \<and> (\<forall>pc \<in> set (ws_pcs s). pc \<in> {WLoop, WPop, WExit})"

lemma widle_claimed:
  assumes gok: "ok gr" and pre: "search_pre G max_weight INT_MAX h Hmax gr src"
    and r: "wpanre_reach H G h gr src dst pebble n s" and idle: "wpanre_idle s" and p: "path G gr src v c"
  shows "fld wp_is_expanded False (ws_states s) v"
proof -
  have inv: "ps_inv G (max_weight gr) INT_MAX gr src (wabs gr s)" using wreach_refines[OF gok pre r] by blast
  have "ps_Q (wabs gr s) = {#}" "ps_A (wabs gr s) = {#}"
    using idle by (auto simp: wabs_def wpanre_idle_def sum_list_empty_mset)
  from quiescent_complete[OF inv _ this p] show ?thesis by (simp add: wabs_def INT_MAX_def)
qed

end

section \<open>Properties\<close>

text \<open>
  C17. No interleaving of the workers of \<open>wpanre\<close> fails: in every reachable state, whatever worker
  moves next, its step has no overflow, no access outside an array and no failed assertion. The
  steps that do more than read refine the abstract search and strictly decrease its measure, so
  every schedule has only finitely many of them.
\<close>

theorem wpanre_safe:
  assumes "graph_ok octile_weight gr" "search_pre grid_ops (\<lambda>g. 14142) INT_MAX h Hmax gr src"
    "wpanre_reach bin_heap_ops grid_ops h gr src dst pebble n s" "i < n"
  shows "\<exists>t. wpanre_step bin_heap_ops grid_ops h gr dst i s = Inr t \<and>
    (pg.wabs gr t = pg.wabs gr s \<or> (pg.wabs gr t, pg.wabs gr s) \<in> ps_less grid_ops gr) \<and> wf (ps_less grid_ops gr)"
  using pg.wreach_step_ok[OF assms] by (elim exE conjE) (intro exI conjI wf_ps_less)

definition wpanre_run :: "int \<Rightarrow> nat list \<Rightarrow> int Heap wpanre result" where
  "wpanre_run dst schedule = ebind (wpanre_start bin_heap_ops grid_ops (\<lambda>v. 0) two_cells 0 False 2)
     (efold (wpanre_step bin_heap_ops grid_ops (\<lambda>v. 0) two_cells dst) schedule)"

lemma wpanre_reach_efold:
  assumes "wpanre_reach H G h gr src dst pebble n s" "efold (wpanre_step H G h gr dst) is s = Inr t" "\<forall>i \<in> set is. i < n"
  shows "wpanre_reach H G h gr src dst pebble n t"
  using assms
proof (induction "is" arbitrary: s)
  case (Cons i "is")
  then obtain s1 where "wpanre_step H G h gr dst i s = Inr s1" "efold (wpanre_step H G h gr dst) is s1 = Inr t"
    by (auto simp: result_simps)
  moreover from this have "wpanre_reach H G h gr src dst pebble n s1"
    by (intro wreach_step[OF Cons.prems(1), of i]) (use Cons.prems(3) in auto)
  ultimately show ?case using Cons.IH[of s1] Cons.prems(3) by simp
qed simp

lemma wpanre_run_reach:
  assumes "wpanre_run dst schedule = Inr s" "\<forall>i \<in> set schedule. i < 2"
  shows "wpanre_reach bin_heap_ops grid_ops (\<lambda>v. 0) two_cells 0 dst False 2 s"
  using assms wpanre_reach_efold wreach_start unfolding wpanre_run_def by (fastforce simp: result_simps)

theorem wpanre_safe_witness:
  "\<exists>s t. wpanre_reach bin_heap_ops grid_ops (\<lambda>v. 0) two_cells 0 1 False 2 s \<and>
     wpanre_step bin_heap_ops grid_ops (\<lambda>v. 0) two_cells 1 1 s = Inr t"
proof -
  obtain s where s: "wpanre_start bin_heap_ops grid_ops (\<lambda>v. 0) two_cells 0 False 2 = Inr s"
    using pg.wstart_refines[OF two_cells_ok two_cells_pre] by blast
  have r: "wpanre_reach bin_heap_ops grid_ops (\<lambda>v. 0) two_cells 0 1 False 2 s" by (rule wreach_start[OF s])
  show ?thesis using wpanre_safe[OF two_cells_ok two_cells_pre r, of 1] r by auto
qed

text \<open>
  C16. When all workers of \<open>wpanre\<close> have returned, whatever the schedule was, the result is a search
  tree that contains the destination: \<open>pathlen\<close> of it ends, is the cost of a real path and at most
  the distance reported for the destination.
\<close>

theorem wpanre_finds_path:
  assumes "graph_ok octile_weight gr" "search_pre grid_ops (\<lambda>g. 14142) INT_MAX h Hmax gr src"
    "wpanre_reach bin_heap_ops grid_ops h gr src dst pebble n s" "0 < n" "wpanre_finished s" "0 \<le> dst" "dst < int (length (vertices gr))"
  shows "\<exists>d len. res_g (WPANREResult (ws_states s) (ws_pebbles s)) dst = Inr d \<and>
    pathlen gr (WPANREResult (ws_states s) (ws_pebbles s)) src dst = Some (Inr len) \<and> path grid_ops gr src dst len \<and> len \<le> d"
proof -
  obtain D P where r: "result_tree grid_ops INT_MAX gr src dst (WPANREResult (ws_states s) (ws_pebbles s)) D P"
    using pg.wfinished_result[OF assms(1-5)] by blast
  then have "res_g (WPANREResult (ws_states s) (ws_pebbles s)) dst = Inr (D dst)"
    using assms(6,7) by (simp add: result_tree_def grid_ops_def)
  then show ?thesis using pathlen_tree[OF assms(1) r] by auto
qed

definition wpanre_example :: "nat list" where
  "wpanre_example = [0, 0, 1, 0, 0, 0, 0, 0, 1, 1, 1, 1, 1, 0, 0]"

lemma wpanre_example_finished: "case wpanre_run 1 wpanre_example of Inl e \<Rightarrow> False | Inr s \<Rightarrow> wpanre_finished s"
  by code_simp

theorem wpanre_finds_path_witness:
  "\<exists>s d len. wpanre_run 1 wpanre_example = Inr s \<and> wpanre_finished s \<and>
     res_g (WPANREResult (ws_states s) (ws_pebbles s)) 1 = Inr d \<and>
     pathlen two_cells (WPANREResult (ws_states s) (ws_pebbles s)) 0 1 = Some (Inr len) \<and> len \<le> d"
proof -
  obtain s where s: "wpanre_run 1 wpanre_example = Inr s" "wpanre_finished s"
    using wpanre_example_finished by (auto split: sum.splits)
  have r: "wpanre_reach bin_heap_ops grid_ops (\<lambda>v. 0) two_cells 0 1 False 2 s"
    by (rule wpanre_run_reach[OF s(1)]) (simp add: wpanre_example_def)
  show ?thesis using wpanre_finds_path[OF two_cells_ok two_cells_pre r _ s(2)] s by (auto simp: two_cells_def)
qed

text \<open>
  C18. No work is lost: in a reachable state of \<open>wpanre\<close> in which the queue is empty and no worker
  holds a vertex, every vertex reachable from the source has been expanded.
\<close>

theorem wpanre_no_lost_work:
  assumes "graph_ok octile_weight gr" "search_pre grid_ops (\<lambda>g. 14142) INT_MAX h Hmax gr src"
    "wpanre_reach bin_heap_ops grid_ops h gr src dst pebble n s" "pg.wpanre_idle s" "path grid_ops gr src v c"
  shows "fld wp_is_expanded False (ws_states s) v"
  by (rule pg.widle_claimed[OF assms])

lemma wpanre_drained:
  "case wpanre_run 7 (replicate 14 0) of Inl e \<Rightarrow> False | Inr s \<Rightarrow> heap_size (ws_frontier s) = 0 \<and> ws_pcs s = [WLoop, WLoop]"
  by code_simp

theorem wpanre_no_lost_work_witness:
  "\<exists>s. wpanre_run 7 (replicate 14 0) = Inr s \<and> fld wp_is_expanded False (ws_states s) 1"
proof -
  obtain s where s: "wpanre_run 7 (replicate 14 0) = Inr s" "heap_size (ws_frontier s) = 0" "ws_pcs s = [WLoop, WLoop]"
    using wpanre_drained by (auto split: sum.splits)
  have r: "wpanre_reach bin_heap_ops grid_ops (\<lambda>v. 0) two_cells 0 7 False 2 s"
    by (rule wpanre_run_reach[OF s(1)]) simp
  have "pg.wpanre_idle s" using s(2,3) by (simp add: pg.wpanre_idle_def contents_empty_iff heap_size_def)
  from wpanre_no_lost_work[OF two_cells_ok two_cells_pre r this path_edge[OF two_cells_edge]] show ?thesis using s(1) by blast
qed

end
