(* ===== verification/Life_Graph.thy ===== *)
theory Life_Graph
  imports Grid_Search
begin

text \<open>
  Class \<open>LifeGraph\<close> of \<open>src/src/shared/weighted_graph.hpp\<close>: the grid with "life" costs, where the
  weight of an arc is the octile cost times the row of its target, with \<open>long\<close> distances. The
  class repeats the code of \<open>Graph\<close> and uses the same arrays, so it shares the record.
\<close>

type_synonym LifeGraph = Graph

definition life_weight :: "int \<Rightarrow> nat \<Rightarrow> int" where
  "life_weight nghrow i = nghrow * dist ! i"

definition life_populate_neighbors :: "LifeGraph \<Rightarrow> LifeGraph result" where
  "life_populate_neighbors = populate_with life_weight"

definition life_check_neighbors :: "LifeGraph \<Rightarrow> bool result" where
  "life_check_neighbors = check_with life_weight"

definition LifeGraph_empty :: LifeGraph where
  "LifeGraph_empty = Graph_empty"

definition LifeGraph_load :: "string \<Rightarrow> LifeGraph result" where
  "LifeGraph_load = load_with life_weight"

definition life_pebble_dump_arr :: "LifeGraph \<Rightarrow> int list \<Rightarrow> int list \<Rightarrow> int \<Rightarrow> int \<Rightarrow> string result option" where
  "life_pebble_dump_arr = pebble_dump_arr"

definition life_pebble_dump :: "LifeGraph \<Rightarrow> SearchResult \<Rightarrow> int \<Rightarrow> int \<Rightarrow> string result option" where
  "life_pebble_dump = pebble_dump"

definition life_coords_of :: "LifeGraph \<Rightarrow> int \<Rightarrow> (int \<times> int) result" where
  "life_coords_of = coords_of"

definition life_vertex_at :: "LifeGraph \<Rightarrow> int \<Rightarrow> int \<Rightarrow> int result" where
  "life_vertex_at = vertex_at"

definition life_degree :: "LifeGraph \<Rightarrow> int \<Rightarrow> int result" where
  "life_degree = degree"

definition life_for_each_neighbor_in_range ::
  "LifeGraph \<Rightarrow> int \<Rightarrow> int \<Rightarrow> int \<Rightarrow> (int \<Rightarrow> int \<Rightarrow> 's \<Rightarrow> 's result) \<Rightarrow> 's \<Rightarrow> 's result" where
  "life_for_each_neighbor_in_range = for_each_neighbor_in_range"

definition life_for_each_neighbor_of ::
  "LifeGraph \<Rightarrow> int \<Rightarrow> (int \<Rightarrow> int \<Rightarrow> 's \<Rightarrow> 's result) \<Rightarrow> 's \<Rightarrow> 's result" where
  "life_for_each_neighbor_of = for_each_neighbor_of"

definition life_weight_between :: "LifeGraph \<Rightarrow> int \<Rightarrow> int \<Rightarrow> int result" where
  "life_weight_between = weight_with (\<lambda>u_row. u_row)"

definition life_pathlen :: "LifeGraph \<Rightarrow> SearchResult \<Rightarrow> int \<Rightarrow> int \<Rightarrow> int result option" where
  "life_pathlen g res src dst = map_option (\<lambda>r. ebind r (\<lambda>(cur, len). Inr len))
     (run_loop (pathlen_iter LONG_MAX (\<lambda>cur p. life_weight_between g p cur) (res_predecessor res) src) (dst, 0))"

text \<open>The triangular sum of \<open>cost_from\<close>, in \<open>int\<close> arithmetic.\<close>

definition cost_from :: "int \<Rightarrow> int \<Rightarrow> int result" where
  "cost_from a b =
     (let last = (if a > b then b + 1 else if a < b then b - 1 else b) in
      ebind (num_add INT_MAX a last) (\<lambda>s.
      ebind (num_mul INT_MAX s \<bar>a - b\<bar>) (\<lambda>p. Inr (cdiv p 2))))"

definition weighted_manhattan :: "LifeGraph \<Rightarrow> real \<Rightarrow> int \<Rightarrow> int \<Rightarrow> int result" where
  "weighted_manhattan g w u v =
     ebind (arr_get (vertices g) u) (\<lambda>pu.
       let x = col pu; y = row pu; gx = col pu; gy = row pu; dx = \<bar>gx - x\<bar>; dy = \<bar>gy - y\<bar>;
           times_factor = (\<lambda>s. ebind (to_long (10000 * w)) (num_mul LONG_MAX s)) in
       if dx > dy
       then let max_up = (if y < gy then y else gy);
                extra = dx - dy;
                up = (if max_up < cdiv extra 2 then max_up else cdiv extra 2);
                high_y = (if y < gy then y else gy) - up;
                across = extra - 2 * up in
            ebind (cost_from y high_y) (\<lambda>a.
            ebind (num_mul INT_MAX across high_y) (\<lambda>b.
            ebind (num_add INT_MAX a b) (\<lambda>ab.
            ebind (cost_from high_y gy) (\<lambda>c.
            ebind (num_add INT_MAX ab c) times_factor))))
       else ebind (cost_from y gy) times_factor)"

section \<open>The contract\<close>

interpretation lg: search_graph grid_ops "graph_ok life_weight" "\<lambda>g. height g * 14142"
proof (unfold_locales, goal_cases)
  case (2 g u)
  then show ?case using collect_ok[of life_weight g "nat u"] by (auto simp: grid_ops_def)
next
  case (3 g u v w)
  obtain i where i: "i < 8" "0 \<le> v" "v < int (length (vertices g))" "w = row (vertices g ! nat v) * dist ! i"
    using grid_edge[OF 3] by (auto simp: life_weight_def)
  have "grid_ok g" using 3(1) by (simp add: graph_ok_def)
  then have r: "0 \<le> row (vertices g ! nat v)" "row (vertices g ! nat v) \<le> height g"
    using grid_okD(4)[of g "nat v"] i(2,3) by (simp_all add: nat_less_iff)
  have d: "0 \<le> dist ! i" "dist ! i \<le> 14142" using dir_props[OF i(1)] by auto
  have "row (vertices g ! nat v) * dist ! i \<le> height g * 14142" using r d by (intro mult_mono) auto
  moreover have "0 \<le> row (vertices g ! nat v) * dist ! i" using r d by simp
  ultimately show ?case using i by (simp add: grid_ops_def)
qed (simp add: grid_ops_def)

interpretation la: astar_ctx bin_heap_ops heap_invar contents grid_ops "graph_ok life_weight" "\<lambda>g. height g * 14142" LONG_MAX
  by unfold_locales simp

section \<open>The heuristic\<close>

text \<open>Both end points are read from the first argument, so the estimate is zero whenever the weight can be converted.\<close>

lemma weighted_manhattan_zero:
  assumes "0 \<le> u" "u < int (length (vertices g))" "0 \<le> row (vertices g ! nat u)" "2 * row (vertices g ! nat u) \<le> INT_MAX"
  shows "weighted_manhattan g w u v = ebind (to_long (10000 * w)) (\<lambda>_. Inr 0)"
proof -
  have "cost_from (row (vertices g ! nat u)) (row (vertices g ! nat u)) = Inr 0"
    using assms by (simp add: cost_from_def Let_def num_mul_def INT_MAX_def cdiv_def)
  then show ?thesis using assms by (cases "to_long (10000 * w)") (simp_all add: weighted_manhattan_def Let_def num_mul_def LONG_MAX_def)
qed

text \<open>The heuristic of the search, with the value 0 where the conversion is undefined.\<close>

definition manhattan_heuristic :: "LifeGraph \<Rightarrow> real \<Rightarrow> int \<Rightarrow> int \<Rightarrow> int" where
  "manhattan_heuristic g w dst v = (case weighted_manhattan g w v dst of Inl e \<Rightarrow> 0 | Inr x \<Rightarrow> x)"

lemma vertex_manhattan:
  assumes "grid_ok g" "2 * height g \<le> INT_MAX" "0 \<le> u" "u < int (length (vertices g))"
  shows "weighted_manhattan g w u v = ebind (to_long (10000 * w)) (\<lambda>_. Inr 0)"
  using weighted_manhattan_zero[of u g w v] grid_okD(4)[OF assms(1), of "nat u"] assms(2-4) by (simp add: nat_less_iff)

lemma manhattan_heuristic_zero:
  assumes "grid_ok g" "2 * height g \<le> INT_MAX" "0 \<le> v" "v < int (length (vertices g))"
  shows "manhattan_heuristic g w dst v = 0"
proof -
  have "0 \<le> row (vertices g ! nat v)" "row (vertices g ! nat v) < height g"
    using grid_okD(4)[OF assms(1), of "nat v"] assms(3,4) by (simp_all add: nat_less_iff)
  then show ?thesis
    using weighted_manhattan_zero[OF assms(3,4)] assms(2) by (cases "to_long (10000 * w)") (simp_all add: manhattan_heuristic_def)
qed

lemma astarT_life:
  assumes g: "graph_ok life_weight g" and hb: "2 * height g \<le> INT_MAX"
    and v: "0 \<le> src" "src < int (length (vertices g))" "0 \<le> dst" "dst < int (length (vertices g))"
    and fits: "int (length (vertices g)) * (height g * 14142) < LONG_MAX"
  shows "\<exists>r. astarT bin_heap_ops grid_ops LONG_MAX (manhattan_heuristic g w dst) g src dst pebble = Some r \<and>
    (case r of
       Inl e \<Rightarrow> e = AssertFail \<and> (\<forall>c. \<not> path grid_ops g src dst c)
     | Inr res \<Rightarrow> (\<exists>d. res_g res dst = Inr d \<and> path grid_ops g src dst d \<and> (\<forall>c. path grid_ops g src dst c \<longrightarrow> d \<le> c)))"
proof -
  let ?h = "manhattan_heuristic g w dst"
  have gr: "grid_ok g" using g by (simp add: graph_ok_def)
  have h0: "?h x = 0" if "0 \<le> x" "x < int (length (vertices g))" for x
    by (rule manhattan_heuristic_zero[OF gr hb that])
  have "0 \<le> height g" using grid_okD(1)[OF gr] by linarith
  then have pre: "search_pre grid_ops (\<lambda>g. height g * 14142) LONG_MAX ?h 0 g src"
    using v fits h0 by (simp add: search_pre_def grid_ops_def)
  have cons: "eps_consistent grid_ops 1 ?h g"
    unfolding eps_consistent_def
  proof (intro allI impI)
    fix a b c assume e: "edge grid_ops g a b c"
    then have "?h a = 0" "?h b = 0" "0 \<le> c" using lg.edge_ok[OF g e] h0 by (auto simp: edge_def grid_ops_def)
    then show "real_of_int (?h a) \<le> 1 * real_of_int c + real_of_int (?h b)" by simp
  qed
  obtain r where r: "astarT bin_heap_ops grid_ops LONG_MAX ?h g src dst pebble = Some r"
    "case r of Inl e \<Rightarrow> e = AssertFail \<and> (\<forall>c. \<not> path grid_ops g src dst c)
     | Inr res \<Rightarrow> \<exists>D P. result_tree grid_ops LONG_MAX g src dst res D P \<and> within_eps grid_ops 1 ?h g src dst (D dst)"
    using la.astarT_outcome[OF g pre, of dst pebble 1] by blast
  show ?thesis
  proof (cases r)
    case (Inl e)
    then show ?thesis using r by simp
  next
    case (Inr res)
    then obtain D P where t: "result_tree grid_ops LONG_MAX g src dst res D P"
      and b: "within_eps grid_ops 1 ?h g src dst (D dst)" using r(2) by auto
    have le: "D dst \<le> c" if "path grid_ops g src dst c" for c
      using b cons that by (simp add: within_eps_def)
    obtain c where c: "path grid_ops g src dst c" "c \<le> D dst" using lg.result_found[OF t g] by blast
    then have "c = D dst" using le by force
    moreover have "res_g res dst = Inr (D dst)" using t v by (simp add: result_tree_def grid_ops_def)
    ultimately show ?thesis using r(1) Inr c(1) le by auto
  qed
qed

section \<open>The length of a path\<close>

text \<open>\<open>weight_between(u, v)\<close> multiplies by the row of \<open>u\<close>: it is the weight of the arc from \<open>v\<close> to \<open>u\<close>.\<close>

lemma life_weight_between_edge:
  assumes "graph_ok life_weight g" "edge grid_ops g u v w"
  shows "life_weight_between g v u = Inr w"
proof -
  obtain i where i: "i < 8" "0 \<le> u" "u < int (length (vertices g))" "0 \<le> v" "v < int (length (vertices g))"
    "row (vertices g ! nat v) = row (vertices g ! nat u) + drow ! i"
    "col (vertices g ! nat v) = col (vertices g ! nat u) + dcol ! i" "w = row (vertices g ! nat v) * dist ! i"
    using grid_edge[OF assms] by (auto simp: life_weight_def)
  then show ?thesis using dir_props[OF i(1)] by (auto simp: life_weight_between_def weight_with_def Let_def)
qed

text \<open>The arcs of a grid come in pairs: the direction \<open>7 - i\<close> leads back.\<close>

lemma opposite_dir:
  assumes "i < 8"
  shows "drow ! (7 - i) = - drow ! i" "dcol ! (7 - i) = - dcol ! i"
  using assms by (elim less_8E; simp add: drow_def dcol_def)+

lemma edge_back:
  assumes g: "graph_ok wt g" and e: "edge grid_ops g u v w"
  shows "\<exists>w'. edge grid_ops g v u w'"
proof -
  obtain i where i: "i < 8" "0 \<le> u" "u < int (length (vertices g))" "0 \<le> v" "v < int (length (vertices g))"
    "row (vertices g ! nat v) = row (vertices g ! nat u) + drow ! i"
    "col (vertices g ! nat v) = col (vertices g ! nat u) + dcol ! i"
    using grid_edge[OF g e] by auto
  have "edge grid_ops g (int (nat v)) (int (nat u)) (wt (row (vertices g ! nat u)) (7 - i))"
    by (rule grid_edgeI[OF g]) (use i opposite_dir[OF i(1)] in auto)
  then show ?thesis using i by auto
qed

lemma tree_path_back:
  assumes g: "graph_ok wt g" and "tree_path (edge grid_ops g) P src v c"
  shows "\<exists>c'. tree_path (\<lambda>u v w. edge grid_ops g v u w) P src v c' \<and> path grid_ops g v src c'"
  using assms(2)
proof (induction rule: tree_path.induct)
  case tree_root
  show ?case by (intro exI[of _ 0] conjI tree_path.tree_root path.path_refl)
next
  case (tree_step v c w)
  from tree_step.IH obtain c' where
    c': "tree_path (\<lambda>u v w. edge grid_ops g v u w) P src (P v) c'" "path grid_ops g (P v) src c'" by (elim exE conjE)
  from edge_back[OF g tree_step.hyps(3)] obtain w' where w': "edge grid_ops g v (P v) w'" ..
  have "path grid_ops g v src (w' + c')" by (rule path_trans[OF c'(2) path_edge[OF w']])
  moreover have "tree_path (\<lambda>u v w. edge grid_ops g v u w) P src v (c' + w')"
    by (rule tree_path.tree_step[OF tree_step.hyps(1) c'(1) w'])
  ultimately show ?case by (metis add.commute)
qed

text \<open>A tree path visits no vertex twice, so its cost is bounded by the number of vertices.\<close>

lemma tree_path_bound:
  assumes "tree_path E P src v c" and E: "\<And>u v w. E u v w \<Longrightarrow> w \<le> W" "0 \<le> W"
    and rng: "0 \<le> src \<and> src < N" "\<And>u v w. E u v w \<Longrightarrow> 0 \<le> v \<and> v < N"
  shows "c \<le> N * W"
proof -
  have "\<exists>vs. walk E P src v vs \<and> c \<le> int (length vs) * W \<and> set vs \<subseteq> {0..<N}"
    using assms(1)
  proof (induction rule: tree_path.induct)
    case tree_root
    then show ?case using walk_root[of E P src] E(2) rng(1) by (intro exI[of _ "[src]"]) auto
  next
    case (tree_step v c w)
    then obtain vs where vs: "walk E P src (P v) vs" "c \<le> int (length vs) * W" "set vs \<subseteq> {0..<N}" by blast
    have "c + w \<le> int (length (vs @ [v])) * W" using vs(2) E(1)[OF tree_step.hyps(3)] by (simp add: algebra_simps)
    then show ?case using walk_step[OF tree_step.hyps(1) vs(1) tree_step.hyps(3)] vs(3) rng(2)[OF tree_step.hyps(3)]
      by (intro exI[of _ "vs @ [v]"]) auto
  qed
  then obtain vs where vs: "walk E P src v vs" "c \<le> int (length vs) * W" "set vs \<subseteq> {0..<N}" by blast
  have "length vs = card (set vs)" using walk_distinct[OF vs(1)] by (simp add: distinct_card)
  also have "\<dots> \<le> card {0..<N}" using vs(3) by (intro card_mono) auto
  finally have "int (length vs) \<le> N" using rng(1) by (simp only: card_atLeastLessThan_int) linarith
  then have "int (length vs) * W \<le> N * W" using E(2) by (rule mult_right_mono)
  then show ?thesis using vs(2) by linarith
qed

lemma life_pathlen_tree:
  assumes g: "graph_ok life_weight g" and r: "result_tree grid_ops LONG_MAX g src dst res D P"
    and src: "0 \<le> src" "src < int (length (vertices g))"
    and fits: "int (length (vertices g)) * (height g * 14142) \<le> LONG_MAX"
  shows "\<exists>len. life_pathlen g res src dst = Some (Inr len) \<and> path grid_ops g dst src len"
proof -
  let ?E = "\<lambda>u v w. edge grid_ops g v u w"
  obtain c where "tree_path (edge grid_ops g) P src dst c" using lg.result_found[OF r g] by blast
  then obtain c' where c': "tree_path ?E P src dst c'" "path grid_ops g dst src c'" using tree_path_back[OF g] by blast
  have ok: "0 \<le> v \<and> v < int (length (vertices g)) \<and> 0 \<le> w \<and> w \<le> height g * 14142" if "edge grid_ops g v u w" for u v w
    using lg.edge_ok[OF g that] that by (simp add: edge_def grid_ops_def)
  have "0 \<le> height g" using grid_okD(1)[of g] g by (simp add: graph_ok_def)
  then have "c' \<le> int (length (vertices g)) * (height g * 14142)"
    by (intro tree_path_bound[OF c'(1)]) (use ok src in auto)
  moreover have "res_predecessor res v = Inr (P v) \<and> life_weight_between g (P v) v = Inr w \<and> 0 \<le> w"
    if "edge grid_ops g v (P v) w" for v w
    using ok[OF that] life_weight_between_edge[OF g that] r by (simp add: result_tree_def grid_ops_def)
  ultimately have "run_loop (pathlen_iter LONG_MAX (\<lambda>cur p. life_weight_between g p cur) (res_predecessor res) src) (dst, 0)
      = Some (Inr (src, 0 + c'))"
    using fits by (intro pathlen_loop[OF c'(1)]) auto
  then show ?thesis using c'(2) by (simp add: life_pathlen_def)
qed

section \<open>Properties\<close>

text \<open>
  C6. The templated search \<open>astarT\<close> with \<open>long\<close> distances on a life grid and \<open>weighted_manhattan\<close>
  as its heuristic: it always returns; if the destination is reachable, the
  distance reported for it is exactly the least cost of a path, without overflow; the only failure
  is the assertion on the empty frontier, for an unreachable destination. The heuristic is defined on every
  vertex for every weight that \<open>(long) (10000.0 * w)\<close> can convert; for the others this conversion is the undefined step of the code.
\<close>

theorem life_search_optimal:
  assumes "graph_ok life_weight g" "2 * height g \<le> INT_MAX"
    "0 \<le> src" "src < int (length (vertices g))" "0 \<le> dst" "dst < int (length (vertices g))"
    "int (length (vertices g)) * (height g * 14142) < LONG_MAX"
  shows "\<exists>r. astarT bin_heap_ops grid_ops LONG_MAX (manhattan_heuristic g w dst) g src dst pebble = Some r \<and>
    (case r of
       Inl e \<Rightarrow> e = AssertFail \<and> (\<forall>c. \<not> path grid_ops g src dst c)
     | Inr res \<Rightarrow> (\<exists>d. res_g res dst = Inr d \<and> path grid_ops g src dst d \<and> (\<forall>c. path grid_ops g src dst c \<longrightarrow> d \<le> c))) \<and>
    (\<forall>v \<in> {0..<int (length (vertices g))}.
       weighted_manhattan g w v dst = ebind (to_long (10000 * w)) (\<lambda>_. Inr (manhattan_heuristic g w dst v)))"
  using astarT_life[OF assms] manhattan_heuristic_zero[OF _ assms(2)] vertex_manhattan[OF _ assms(2)] assms(1) by (auto simp: graph_ok_def)

definition column2 :: Graph where
  "column2 = \<lparr>grid = [[0], [1]], vertices = [\<lparr>row = 0, col = 0\<rparr>, \<lparr>row = 1, col = 0\<rparr>], height = 2, width = 1,
     neighbor_offsets = [0, 1, 2], neighbors = [\<lparr>vertex = 1, weight = 10000\<rparr>, \<lparr>vertex = 0, weight = 0\<rparr>]\<rparr>"

lemma column2_load: "LifeGraph_load (map_text [''.'', ''.''] 1) = Inr column2"
  by code_simp

lemma column2_ok: "graph_ok life_weight column2"
proof -
  have "map_ok [''.'', ''.''] 1" by code_simp
  from load_map[OF this, of life_weight] show ?thesis using column2_load by (auto simp: LifeGraph_load_def)
qed

lemma column2_edge: "edge grid_ops column2 0 1 10000" "edge grid_ops column2 1 0 0"
  unfolding edge_def by code_simp+

theorem life_search_optimal_witness:
  "\<exists>res d. astarT bin_heap_ops grid_ops LONG_MAX (manhattan_heuristic column2 2 1) column2 0 1 False = Some (Inr res) \<and>
     res_g res 1 = Inr d \<and> path grid_ops column2 0 1 d \<and> d \<le> 10000"
proof -
  have p: "path grid_ops column2 0 1 10000" by (rule path_edge[OF column2_edge(1)])
  show ?thesis
    using life_search_optimal[OF column2_ok, of 0 1 2 False] p
    by (fastforce simp: column2_def INT_MAX_def LONG_MAX_def split: sum.splits)
qed

text \<open>
  \<open>weighted_manhattan\<close> reads the coordinates of its first argument for both end points: on
  every vertex, for every weight in range and every destination, the estimate is zero.
\<close>

theorem manhattan_is_zero:
  assumes "grid_ok g" "2 * height g \<le> INT_MAX" "u < length (vertices g)" "to_long (10000 * w) = Inr f"
  shows "weighted_manhattan g w (int u) v = Inr 0"
  using vertex_manhattan[OF assms(1,2), of "int u" w v] assms(3,4) by simp

theorem manhattan_is_zero_witness: "weighted_manhattan column2 2 0 1 = Inr 0"
  using manhattan_is_zero[of column2 0 2 20000 1] column2_ok by (simp add: graph_ok_def column2_def INT_MAX_def LONG_MAX_def to_long_def truncate_real_def)

text \<open>
  \<open>LifeGraph::pathlen\<close> of a search result ends without error, but it adds up, for every arc of
  the path, the weight of the opposite arc: its value is the cost of the path walked backwards,
  from the destination to the source.
\<close>

theorem life_pathlen_is_backward_cost:
  assumes "graph_ok life_weight g" "result_tree grid_ops LONG_MAX g src dst res D P"
    "0 \<le> src" "src < int (length (vertices g))" "int (length (vertices g)) * (height g * 14142) \<le> LONG_MAX"
  shows "\<exists>len. life_pathlen g res src dst = Some (Inr len) \<and> path grid_ops g dst src len"
  by (rule life_pathlen_tree[OF assms])

definition column2_result :: SearchResult where
  "column2_result = \<lparr>res_is_expanded = (\<lambda>v. Inr True), res_predecessor = (\<lambda>v. Inr (v - 1)),
     res_g = (\<lambda>v. Inr (10000 * v)), res_pebble = (\<lambda>v. Inr (-1))\<rparr>"

lemma column2_result_tree:
  "result_tree grid_ops LONG_MAX column2 0 1 column2_result (\<lambda>v. if v \<in> {0, 1} then 10000 * v else LONG_MAX) (\<lambda>v. v - 1)"
proof -
  let ?D = "\<lambda>v. if v \<in> {0, 1} then 10000 * v else LONG_MAX" and ?P = "\<lambda>v :: int. v - 1"
  have c0: "chain ?P 0 0" by (rule chain_root)
  have c1: "chain ?P 0 1" by (rule chain_step) (simp_all add: c0)
  have "0 \<le> ?D v \<and> chain ?P 0 v \<and> (v \<noteq> 0 \<longrightarrow> (\<exists>w. edge grid_ops column2 (?P v) v w \<and> ?D (?P v) + w \<le> ?D v))"
    if "?D v < LONG_MAX" for v
  proof -
    have "v = 0 \<or> v = 1" using that by (auto split: if_splits)
    then show ?thesis using c0 c1 column2_edge(1) by (elim disjE) (auto intro!: exI[of _ 10000])
  qed
  then have "pred_tree (edge grid_ops column2) 0 LONG_MAX ?D ?P" unfolding pred_tree_def by (intro conjI allI impI) auto
  moreover have "v = 0 \<or> v = 1" if "0 \<le> v" "v < number_vertices grid_ops column2" for v :: int
    using that by (simp add: grid_ops_def column2_def) linarith
  ultimately show ?thesis unfolding result_tree_def by (auto simp: column2_result_def LONG_MAX_def)
qed

theorem life_pathlen_is_backward_cost_witness:
  "\<exists>len. life_pathlen column2 column2_result 0 1 = Some (Inr len) \<and> path grid_ops column2 1 0 len"
  using life_pathlen_is_backward_cost[OF column2_ok column2_result_tree] by (simp add: column2_def LONG_MAX_def)

text \<open>
  The length \<open>LifeGraph::pathlen\<close> reports can therefore differ from the distance of the search:
  on a column of two cells the search reports 10000 for the lower cell, the least cost there, and
  \<open>pathlen\<close> of the same result reports 0.
\<close>

theorem life_pathlen_differs:
  "res_g column2_result 1 = Inr 10000 \<and> life_pathlen column2 column2_result 0 1 = Some (Inr 0)"
proof -
  have "life_weight_between column2 0 1 = Inr 0" by (rule life_weight_between_edge[OF column2_ok column2_edge(2)])
  then have "pathlen_iter LONG_MAX (\<lambda>cur p. life_weight_between column2 p cur) (res_predecessor column2_result) 0 (1, 0)
    = Inr (Continue (0, 0))" by (simp add: pathlen_iter_def column2_result_def LONG_MAX_def)
  moreover have "pathlen_iter LONG_MAX (\<lambda>cur p. life_weight_between column2 p cur) (res_predecessor column2_result) 0 (0, 0)
    = Inr (Break (0, 0))" by (simp add: pathlen_iter_def)
  ultimately show ?thesis by (simp add: life_pathlen_def run_loop_unfold column2_result_def)
qed

end
