(* ===== verification/Pwsa_Grid.thy ===== *)
theory Pwsa_Grid
  imports Par_Grid Life_Graph
begin

text \<open>
  \<open>pwsa_pc\<close> on octile grids and \<open>pwsa_pcT\<close> on life grids: the results of the work-sharing search
  for the graphs and the heap of the repository, in every schedule of the workers.
\<close>

section \<open>The instances\<close>

interpretation pl: par_ctx bin_heap_ops heap_invar contents grid_ops "graph_ok life_weight" "\<lambda>g. height g * 14142"
  by unfold_locales

lemma grid_edge_total:
  assumes g: "graph_ok wt g"
  shows "edge_total grid_ops g < INT_MAX"
proof -
  have "degree_of grid_ops g v \<le> 8" if "v \<in> {0..<number_vertices grid_ops g}" for v
  proof -
    have "nat v < length (vertices g)" "int (nat v) = v" using that by (auto simp: grid_ops_def)
    then show ?thesis using collect_ok[OF g, of "nat v"] nghs_length[of wt g "nat v"] by (simp add: degree_of_def nbrs_of_def grid_ops_def)
  qed
  then have "edge_total grid_ops g \<le> (\<Sum>v \<in> {0..<number_vertices grid_ops g}. 8)" unfolding edge_total_def by (rule sum_mono)
  also have "\<dots> = 8 * int (length (vertices g))" by (simp add: grid_ops_def)
  finally have "edge_total grid_ops g \<le> 8 * int (length (vertices g))" .
  moreover have "8 * int (length (vertices g)) \<le> INT_MAX" using g grid_okD(3)[of g] by (simp add: graph_ok_def)
  then have "8 * int (length (vertices g)) < INT_MAX" unfolding INT_MAX_def by presburger
  ultimately show ?thesis by linarith
qed

lemma grid_pwsa_pre:
  assumes "graph_ok octile_weight gr" "search_pre grid_ops (\<lambda>g. 14142) INT_MAX h Hmax gr src" "1 \<le> sc"
  shows "pg.pwsa_pre INT_MAX h Hmax gr src sc"
  using assms grid_edge_total[OF assms(1)] by (simp add: pg.pwsa_pre_def INT_MAX_def LONG_MAX_def)

lemma life_pwsa_pre:
  assumes "graph_ok life_weight gr" "search_pre grid_ops (\<lambda>g. height g * 14142) LONG_MAX h Hmax gr src" "1 \<le> sc"
  shows "pl.pwsa_pre LONG_MAX h Hmax gr src sc"
  using assms grid_edge_total[OF assms(1)] by (simp add: pl.pwsa_pre_def)

section \<open>Running a schedule\<close>

text \<open>A schedule is a list of workers with random numbers; the number of workers is \<open>n\<close>.\<close>

definition pw_run :: "('m, 'f, 'b) pw_client \<Rightarrow> nat \<Rightarrow> (nat \<times> nat) list \<Rightarrow> ('m, 'f, 'b) pw \<Rightarrow> ('m, 'f, 'b) pw result" where
  "pw_run cl n = efold (\<lambda>(i, rnd). pw_step cl n rnd i)"

lemma pw_run_reach:
  assumes "pw_reach cl n s0 s" "pw_run cl n sched s = Inr t" "\<forall>(i, rnd) \<in> set sched. i < n"
  shows "pw_reach cl n s0 t"
  using assms
proof (induction sched arbitrary: s)
  case (Cons p sched)
  obtain i rnd where p: "p = (i, rnd)" by (cases p)
  then obtain s1 where "pw_step cl n rnd i s = Inr s1" "pw_run cl n sched s1 = Inr t"
    using Cons.prems(2) by (auto simp: pw_run_def result_simps)
  moreover from this have "pw_reach cl n s0 s1" using Cons.prems(1,3) p by (auto intro: pw_reach_step)
  ultimately show ?case using Cons.IH[of s1] Cons.prems(3) by simp
qed (simp add: pw_run_def)

text \<open>Runs on a grid, with the heuristic zero; no swap fails spuriously.\<close>

definition pwsa_demo_client :: "Graph \<Rightarrow> int \<Rightarrow> (pwsa_mem, int Heap, pwsa_body) pw_client" where
  "pwsa_demo_client g dst = pwsa_client bin_heap_ops grid_ops INT_MAX False (\<lambda>v. 0) g dst 8 1"

definition pwsa_demo :: "nat \<Rightarrow> Graph \<Rightarrow> int \<Rightarrow> (nat \<times> nat) list \<Rightarrow> (pwsa_mem, int Heap, pwsa_body) pw result" where
  "pwsa_demo n g dst sched = ebind (pwsa_setup bin_heap_ops grid_ops INT_MAX (\<lambda>v. 0) g 0 False (\<lambda>k. False)) (\<lambda>(m, f).
     pw_run (pwsa_demo_client g dst) n sched (pw_start (pwsa_demo_client g dst) m f 0 (\<lambda>i. ANSWER_WAITING)))"

lemma pwsa_demo_reach:
  assumes "pwsa_demo n g dst sched = Inr s" "\<forall>(i, rnd) \<in> set sched. i < n" "0 < n"
  shows "pwsa_pc bin_heap_ops grid_ops (\<lambda>v. 0) g 0 dst 8 1 False n s"
proof -
  obtain m f where m: "pwsa_setup bin_heap_ops grid_ops INT_MAX (\<lambda>v. 0) g 0 False (\<lambda>k. False) = Inr (m, f)"
    "pw_run (pwsa_demo_client g dst) n sched (pw_start (pwsa_demo_client g dst) m f 0 (\<lambda>i. ANSWER_WAITING)) = Inr s"
    using assms(1) by (auto simp: pwsa_demo_def result_simps)
  have "pw_reach (pwsa_demo_client g dst) n (pw_start (pwsa_demo_client g dst) m f 0 (\<lambda>i. ANSWER_WAITING)) s"
    by (rule pw_run_reach[OF pw_reach_start m(2) assms(2)])
  then show ?thesis using m(1) assms(3) unfolding pwsa_pc_def pwsa_reach_def pwsa_demo_client_def
    by (intro exI[of _ "\<lambda>k. False"] exI[of _ 0] exI[of _ "\<lambda>i. ANSWER_WAITING"] exI[of _ m] exI[of _ f]) simp
qed


section \<open>Properties\<close>

text \<open>
  C8. In every schedule of the workers of \<open>pwsa_pc\<close> on a grid, with every outcome of the weak swaps,
  a step of a worker fails in two situations only: by \<open>assert(sz > 0)\<close> in a worker that left the acquire
  loop because \<open>is_done\<close> is set, and by the assertion \<open>nb_workers > 1\<close> of \<open>random_other\<close> in a worker that is alone (the
  default of PASL) and whose frontier is empty. There is no overflow, no access outside an array and no other
  failed assertion.
\<close>

theorem pwsa_pc_safe:
  assumes "graph_ok octile_weight gr" "search_pre grid_ops (\<lambda>g. 14142) INT_MAX h Hmax gr src" "1 \<le> sc"
    "pwsa_pc bin_heap_ops grid_ops h gr src dst sc poll pebble n s" "i < n"
    "pw_step (pwsa_client bin_heap_ops grid_ops INT_MAX False h gr dst sc poll) n rnd i s = Inl e"
  shows "e = AssertFail \<and> (pw_pc s i = PSwap \<and> pw_is_done s \<or> pw_pc s i = PPick \<and> n = 1 \<and> contents (pw_mine s i) = {#})"
proof -
  have r: "pwsa_reach bin_heap_ops grid_ops INT_MAX False h gr src dst sc poll pebble n s" using assms(4) by (simp add: pwsa_pc_def)
  from pg.pwsa.inv_step[OF pg.pwsa_reach_inv(1)[OF grid_pwsa_pre[OF assms(1-3)] r] assms(5), of False poll rnd] assms(6)
  show ?thesis by auto
qed

definition assert_schedule :: "(nat \<times> nat) list" where
  "assert_schedule = replicate 3 (1, 0) @ replicate 9 (0, 1) @ [(1, 0)]"

lemma assert_schedule_run:
  "case pwsa_demo 2 two_cells 0 assert_schedule of Inl e \<Rightarrow> False
   | Inr s \<Rightarrow> (case pw_step (pwsa_demo_client two_cells 0) 2 0 1 s of Inl e \<Rightarrow> e = AssertFail | Inr t \<Rightarrow> False)"
  by code_simp

theorem pwsa_pc_safe_witness:
  "\<exists>s. pwsa_demo 2 two_cells 0 assert_schedule = Inr s \<and>
     pw_step (pwsa_demo_client two_cells 0) 2 0 1 s = Inl AssertFail \<and> pw_pc s 1 = PSwap \<and> pw_is_done s"
proof -
  obtain s where s: "pwsa_demo 2 two_cells 0 assert_schedule = Inr s" "pw_step (pwsa_demo_client two_cells 0) 2 0 1 s = Inl AssertFail"
    using assert_schedule_run by (auto split: sum.splits)
  have r: "pwsa_pc bin_heap_ops grid_ops (\<lambda>v. 0) two_cells 0 0 8 1 False 2 s"
    by (rule pwsa_demo_reach[OF s(1)]) (simp_all add: assert_schedule_def)
  show ?thesis using pwsa_pc_safe[OF two_cells_ok two_cells_pre _ r, of 1 0 AssertFail] s by (auto simp: pwsa_demo_client_def)
qed

definition one_cell :: Graph where
  "one_cell = \<lparr>grid = [[0]], vertices = [\<lparr>row = 0, col = 0\<rparr>], height = 1, width = 1, neighbor_offsets = [0, 0], neighbors = []\<rparr>"

text \<open>A lone worker on a grid where the destination cannot be reached comes to \<open>random_other\<close> and fails there.\<close>

lemma lone_worker_run:
  "case pwsa_demo 1 one_cell 7 (replicate 16 (0, 0)) of Inl e \<Rightarrow> False
   | Inr s \<Rightarrow> pw_pc s 0 = PPick \<and> \<not> pw_is_done s \<and> (case pw_step (pwsa_demo_client one_cell 7) 1 0 0 s of Inl e \<Rightarrow> e = AssertFail | Inr t \<Rightarrow> False)"
  by code_simp

text \<open>
  C7. When \<open>pwsa_pc\<close> on a grid is done, whatever the schedule was, its result is a search tree that
  contains the destination: \<open>pathlen\<close> of it ends, is the cost of a real path and at most the distance
  reported for the destination.
\<close>

theorem pwsa_pc_finds_path:
  assumes "graph_ok octile_weight gr" "search_pre grid_ops (\<lambda>g. 14142) INT_MAX h Hmax gr src" "1 \<le> sc"
    "pwsa_pc bin_heap_ops grid_ops h gr src dst sc poll pebble n s" "pw_is_done s \<or> pw_finished n s"
    "0 \<le> dst" "dst < int (length (vertices gr))"
  shows "\<exists>d len. res_g (pwsa_result s) dst = Inr d \<and> pathlen gr (pwsa_result s) src dst = Some (Inr len) \<and>
    path grid_ops gr src dst len \<and> len \<le> d"
proof -
  obtain D P where r: "result_tree grid_ops INT_MAX gr src dst (pwsa_result s) D P"
    using pg.pwsa_finished_result[OF grid_pwsa_pre[OF assms(1-3)] _ assms(5)] assms(4) unfolding pwsa_pc_def by blast
  then have "res_g (pwsa_result s) dst = Inr (D dst)" using assms(6,7) by (simp add: result_tree_def grid_ops_def)
  then show ?thesis using pathlen_tree[OF assms(1) r] by auto
qed

definition finish_schedule :: "(nat \<times> nat) list" where
  "finish_schedule = replicate 23 (0, 1) @ [(1, 0)]"

lemma finish_schedule_run:
  "case pwsa_demo 2 two_cells 1 finish_schedule of Inl e \<Rightarrow> False | Inr s \<Rightarrow> pw_pc s 0 = PReturn \<and> pw_pc s 1 = PReturn"
  by code_simp

theorem pwsa_pc_finds_path_witness:
  "\<exists>s d len. pwsa_demo 2 two_cells 1 finish_schedule = Inr s \<and> pw_finished 2 s \<and> res_g (pwsa_result s) 1 = Inr d \<and>
     pathlen two_cells (pwsa_result s) 0 1 = Some (Inr len) \<and> len \<le> d"
proof -
  obtain s where s: "pwsa_demo 2 two_cells 1 finish_schedule = Inr s" "pw_pc s 0 = PReturn" "pw_pc s 1 = PReturn"
    using finish_schedule_run by (auto split: sum.splits)
  have f: "pw_finished 2 s" using s(2,3) by (auto simp: pw_finished_def less_2_cases_iff)
  have r: "pwsa_pc bin_heap_ops grid_ops (\<lambda>v. 0) two_cells 0 1 8 1 False 2 s"
    by (rule pwsa_demo_reach[OF s(1)]) (simp_all add: finish_schedule_def)
  show ?thesis using pwsa_pc_finds_path[OF two_cells_ok two_cells_pre _ r] f s(1) by (auto simp: two_cells_def)
qed

text \<open>
  C9. The work-sharing protocol loses no work: in a reachable state of \<open>pwsa_pc\<close> on a grid in which
  every frontier and every transfer slot is empty and no worker is inside the body, the destination
  has been expanded or every vertex reachable from the source has.
\<close>

theorem pwsa_pc_no_lost_work:
  assumes "graph_ok octile_weight gr" "search_pre grid_ops (\<lambda>g. 14142) INT_MAX h Hmax gr src" "1 \<le> sc"
    "pwsa_pc bin_heap_ops grid_ops h gr src dst sc poll pebble n s" "pg.pwsa_idle n s" "path grid_ops gr src v c"
  shows "res_is_expanded (pwsa_result s) dst = Inr True \<or> res_is_expanded (pwsa_result s) v = Inr True"
proof -
  have "fld st_is_expanded False (pm_states (pw_mem s)) dst \<or> fld st_is_expanded False (pm_states (pw_mem s)) v"
    using pg.pwsa_idle_complete[OF grid_pwsa_pre[OF assms(1-3)] _ assms(5,6)] assms(4) unfolding pwsa_pc_def by blast
  then show ?thesis by (auto simp: pwsa_result_def PWSAResult_def fld_def split: if_splits)
qed

lemma one_cell_ok: "graph_ok octile_weight one_cell"
proof -
  have "map_ok [''.''] 1" "Graph_load (map_text [''.''] 1) = Inr one_cell" by code_simp+
  with load_map[of "[''.'']" 1 octile_weight] show ?thesis by (auto simp: Graph_load_def)
qed

lemma one_cell_pre: "search_pre grid_ops (\<lambda>g. 14142) INT_MAX (\<lambda>v. 0) 0 one_cell 0"
  by (simp add: search_pre_def grid_ops_def one_cell_def INT_MAX_def)

lemma drained_run:
  "case pwsa_demo 2 one_cell 7 (replicate 12 (0, 1)) of Inl e \<Rightarrow> False
   | Inr s \<Rightarrow> heap_size (pw_mine s 0) = 0 \<and> heap_size (pw_mine s 1) = 0 \<and> heap_size (pw_frontiers s 0) = 0 \<and>
       heap_size (pw_frontiers s 1) = 0 \<and> pw_pc s 0 = PBlock \<and> pw_pc s 1 = PLoop"
  by code_simp

theorem pwsa_pc_no_lost_work_witness:
  "\<exists>s. pwsa_demo 2 one_cell 7 (replicate 12 (0, 1)) = Inr s \<and> pg.pwsa_idle 2 s \<and>
     (res_is_expanded (pwsa_result s) 7 = Inr True \<or> res_is_expanded (pwsa_result s) 0 = Inr True)"
proof -
  obtain s where s: "pwsa_demo 2 one_cell 7 (replicate 12 (0, 1)) = Inr s" "heap_size (pw_mine s 0) = 0" "heap_size (pw_mine s 1) = 0"
      "heap_size (pw_frontiers s 0) = 0" "heap_size (pw_frontiers s 1) = 0" "pw_pc s 0 = PBlock" "pw_pc s 1 = PLoop"
    using drained_run by (auto split: sum.splits)
  have i: "pg.pwsa_idle 2 s" using s(2-7) by (auto simp: pg.pwsa_idle_def less_2_cases_iff contents_empty_iff heap_size_def)
  have r: "pwsa_pc bin_heap_ops grid_ops (\<lambda>v. 0) one_cell 0 7 8 1 False 2 s" by (rule pwsa_demo_reach[OF s(1)]) simp_all
  show ?thesis using pwsa_pc_no_lost_work[OF one_cell_ok one_cell_pre _ r i path_refl] s(1) i by auto
qed

text \<open>
  C10. A worker of \<open>pwsa_pc\<close> that waits for an answer does not wait for nobody: as long as its answer
  cell is open, exactly one other worker owes it an answer, and that worker has returned only when
  \<open>is_done\<close> is set, which ends the wait.
\<close>

theorem pwsa_pc_wait_is_served:
  assumes "graph_ok octile_weight gr" "search_pre grid_ops (\<lambda>g. 14142) INT_MAX h Hmax gr src" "1 \<le> sc"
    "pwsa_pc bin_heap_ops grid_ops h gr src dst sc poll pebble n s" "i < n" "waiting_pc (pw_pc s i)" "pw_answers s i = ANSWER_WAITING"
  shows "\<exists>j < n. j \<noteq> i \<and> owes_answer s j i \<and> (\<forall>k < n. owes_answer s k i \<longrightarrow> k = j) \<and> (pw_pc s j = PReturn \<longrightarrow> pw_is_done s)"
proof -
  have inv: "pg.pwsa.pw_inv n INT_MAX h Hmax gr src dst sc s"
    using pg.pwsa_reach_inv(1)[OF grid_pwsa_pre[OF assms(1-3)]] assms(4) unfolding pwsa_pc_def by blast
  note p = pg.pwsa.pw_invD[OF inv]
  obtain j where j: "j < n" "owes_answer s j i" using protoD(4)[OF p(1) assms(5-7)] by blast
  have "j \<noteq> i" using protoD(2)[OF p(1) j] by (auto simp: owed_ok_def)
  moreover have "\<forall>k < n. owes_answer s k i \<longrightarrow> k = j" using protoD(3)[OF p(1) _ j(1) _ j(2)] by blast
  moreover have "pw_pc s j = PReturn \<longrightarrow> pw_is_done s" using p(3) j(1) by (auto simp: done_ok_def)
  ultimately show ?thesis using j by blast
qed

lemma asked_run:
  "case pwsa_demo 2 two_cells 1 (replicate 7 (1, 0)) of Inl e \<Rightarrow> False | Inr s \<Rightarrow> pw_pc s 1 = PWait \<and> pw_answers s 1 = ANSWER_WAITING"
  by code_simp

theorem pwsa_pc_wait_is_served_witness:
  "\<exists>s. pwsa_demo 2 two_cells 1 (replicate 7 (1, 0)) = Inr s \<and> pw_pc s 1 = PWait \<and> (\<exists>j < 2. j \<noteq> 1 \<and> owes_answer s j 1)"
proof -
  obtain s where s: "pwsa_demo 2 two_cells 1 (replicate 7 (1, 0)) = Inr s" "pw_pc s 1 = PWait" "pw_answers s 1 = ANSWER_WAITING"
    using asked_run by (auto split: sum.splits)
  have r: "pwsa_pc bin_heap_ops grid_ops (\<lambda>v. 0) two_cells 0 1 8 1 False 2 s" by (rule pwsa_demo_reach[OF s(1)]) simp_all
  have "\<exists>j < 2. j \<noteq> 1 \<and> owes_answer s j 1"
    using pwsa_pc_wait_is_served[OF two_cells_ok two_cells_pre _ r, of 1] s(2,3) by auto
  then show ?thesis using s(1,2) by blast
qed


text \<open>
  C11. \<open>pwsa_pcT\<close> over \<open>long\<close> on a life grid, in every schedule: a step of a worker fails by \<open>assert(sz > 0)\<close> once
  the search is done and by the assertion of \<open>random_other\<close> in a lone worker with an empty frontier, and by nothing
  else, in particular the test for a negative distance never ends the program; when the search is
  done, the predecessors in the result lead from the destination to the source along a real path
  whose cost is at most the reported distance.
\<close>

theorem pwsa_pcT_on_life:
  assumes "graph_ok life_weight gr" "search_pre grid_ops (\<lambda>g. height g * 14142) LONG_MAX h Hmax gr src" "1 \<le> sc"
    "pwsa_pcT bin_heap_ops grid_ops LONG_MAX h gr src dst sc poll pebble n s"
  shows "(\<forall>i rnd e. i < n \<and> pw_step (pwsa_client bin_heap_ops grid_ops LONG_MAX True h gr dst sc poll) n rnd i s = Inl e \<longrightarrow>
      e = AssertFail \<and> (pw_pc s i = PSwap \<and> pw_is_done s \<or> pw_pc s i = PPick \<and> n = 1 \<and> contents (pw_mine s i) = {#})) \<and>
    (pw_is_done s \<or> pw_finished n s \<longrightarrow> (\<exists>D P c. result_tree grid_ops LONG_MAX gr src dst (pwsa_result s) D P \<and>
      tree_path (edge grid_ops gr) P src dst c \<and> path grid_ops gr src dst c \<and> c \<le> D dst))"
proof -
  have pre: "pl.pwsa_pre LONG_MAX h Hmax gr src sc" by (rule life_pwsa_pre[OF assms(1-3)])
  have r: "pwsa_reach bin_heap_ops grid_ops LONG_MAX True h gr src dst sc poll pebble n s" using assms(4) by (simp add: pwsa_pcT_def)
  have "e = AssertFail \<and> (pw_pc s i = PSwap \<and> pw_is_done s \<or> pw_pc s i = PPick \<and> n = 1 \<and> contents (pw_mine s i) = {#})"
    if "i < n" "pw_step (pwsa_client bin_heap_ops grid_ops LONG_MAX True h gr dst sc poll) n rnd i s = Inl e" for i rnd e
    using pl.pwsa.inv_step[OF pl.pwsa_reach_inv(1)[OF pre r] that(1), of True poll rnd] that(2) by auto
  moreover have "\<exists>D P c. result_tree grid_ops LONG_MAX gr src dst (pwsa_result s) D P \<and>
      tree_path (edge grid_ops gr) P src dst c \<and> path grid_ops gr src dst c \<and> c \<le> D dst" if "pw_is_done s \<or> pw_finished n s"
    using pl.pwsa_finished_result[OF pre r that] lg.result_found[OF _ assms(1)] by blast
  ultimately show ?thesis by blast
qed

definition life_demo :: "nat \<Rightarrow> (nat \<times> nat) list \<Rightarrow> (pwsa_mem, int Heap, pwsa_body) pw result" where
  "life_demo n sched = ebind (pwsa_setup bin_heap_ops grid_ops LONG_MAX (\<lambda>v. 0) column2 0 False (\<lambda>k. False)) (\<lambda>(m, f).
     pw_run (pwsa_client bin_heap_ops grid_ops LONG_MAX True (\<lambda>v. 0) column2 0 8 1) n sched
       (pw_start (pwsa_client bin_heap_ops grid_ops LONG_MAX True (\<lambda>v. 0) column2 0 8 1) m f 0 (\<lambda>i. ANSWER_WAITING)))"

lemma life_demo_run: "case life_demo 2 (replicate 9 (0, 1)) of Inl e \<Rightarrow> False | Inr s \<Rightarrow> pw_is_done s"
  by code_simp

theorem pwsa_pcT_on_life_witness:
  "\<exists>s D P c. life_demo 2 (replicate 9 (0, 1)) = Inr s \<and> pw_is_done s \<and>
     result_tree grid_ops LONG_MAX column2 0 0 (pwsa_result s) D P \<and> path grid_ops column2 0 0 c \<and> c \<le> D 0"
proof -
  obtain s where s: "life_demo 2 (replicate 9 (0, 1)) = Inr s" "pw_is_done s" using life_demo_run by (auto split: sum.splits)
  let ?cl = "pwsa_client bin_heap_ops grid_ops LONG_MAX True (\<lambda>v. 0) column2 0 8 1"
  obtain m f where m: "pwsa_setup bin_heap_ops grid_ops LONG_MAX (\<lambda>v. 0) column2 0 False (\<lambda>k. False) = Inr (m, f)"
    "pw_run ?cl 2 (replicate 9 (0, 1)) (pw_start ?cl m f 0 (\<lambda>i. ANSWER_WAITING)) = Inr s"
    using s(1) by (auto simp: life_demo_def result_simps)
  have "pw_reach ?cl 2 (pw_start ?cl m f 0 (\<lambda>i. ANSWER_WAITING)) s" by (rule pw_run_reach[OF pw_reach_start m(2)]) simp
  then have r: "pwsa_pcT bin_heap_ops grid_ops LONG_MAX (\<lambda>v. 0) column2 0 0 8 1 False 2 s" using m(1) unfolding pwsa_pcT_def pwsa_reach_def
    by (intro exI[of _ "\<lambda>k. False"] exI[of _ 0] exI[of _ "\<lambda>i. ANSWER_WAITING"] exI[of _ m] exI[of _ f]) simp
  have pre: "search_pre grid_ops (\<lambda>g. height g * 14142) LONG_MAX (\<lambda>v. 0) 0 column2 0"
    by (simp add: search_pre_def grid_ops_def column2_def LONG_MAX_def)
  show ?thesis using pwsa_pcT_on_life[OF column2_ok pre _ r] s by auto
qed

end
