(* ===== verification/Pwsa_Simple.thy ===== *)
theory Pwsa_Simple
  imports Pwsa_Grid
begin

text \<open>
  The function \<open>pwsa\<close> of \<open>src/src/pwsa.hpp\<close>, the simple version of the work-sharing search
  (\<open>simple_wPWSA*\<close> of the driver). It differs from \<open>pwsa_pc\<close> in the loop over the neighbours: the new
  distance is never compared with the old one. The theory shows what that leads to.
\<close>

section \<open>The program\<close>

datatype simple_body =
    STop int \<comment> \<open>line 375\<close>
  | SLoad int int \<comment> \<open>line 379\<close>
  | SCas int int \<comment> \<open>line 380\<close>
  | SClaimed int int \<comment> \<open>lines 381 and 382\<close>
  | SRead int int \<comment> \<open>line 387\<close>
  | SNext int int "(int \<times> int) list" int \<comment> \<open>line 388, the next neighbour\<close>
  | SLoad1 int int int int "(int \<times> int) list" int \<comment> \<open>line 394\<close>
  | SLoad2 int int int int "(int \<times> int) list" int \<comment> \<open>line 397\<close>
  | SCasN int int int int "(int \<times> int) list" vertpack int \<comment> \<open>line 398\<close>
  | STest int int int int "(int \<times> int) list" int \<comment> \<open>line 399\<close>
  | SInsert int int int int "(int \<times> int) list" int \<comment> \<open>line 400\<close>

type_synonym 'h simple_ret = "(pwsa_mem \<times> 'h \<times> (simple_body + bool)) result"

text \<open>
  The test \<open>nbr_prev.distance == prev_distance\<close> of the loop compares a value with itself the first
  time, and both branches of the body leave the loop.
\<close>

definition simple_do_work ::
  "(int, 'h) heap_ops \<Rightarrow> 'g graph_ops \<Rightarrow> (int \<Rightarrow> int) \<Rightarrow> 'g \<Rightarrow> int \<Rightarrow> int \<Rightarrow>
   nat \<Rightarrow> pwsa_mem \<Rightarrow> 'h \<Rightarrow> simple_body \<Rightarrow> 'h simple_ret" where
  "simple_do_work H G heuristic graph destination poll_cutoff i m frontier b = (case b of
       STop k \<Rightarrow>
         if k < poll_cutoff \<and> op_size H frontier > 0
         then ebind (op_delete_min H frontier) (\<lambda>(v, frontier). Inr (m, frontier, Inl (SLoad v (k + 1))))
         else ebind (num_add INT_MAX (pm_steps m i) k) (\<lambda>steps.
              Inr (m\<lparr>pm_steps := (pm_steps m)(i := steps)\<rparr>, frontier, Inr False))
     | SLoad v k \<Rightarrow> ebind (arr_get (pm_states m) v) (\<lambda>s.
         Inr (m, frontier, Inl (if st_is_expanded s then STop k else SCas v k)))
     | SCas v k \<Rightarrow> ebind (arr_get (pm_states m) v) (\<lambda>s.
         if st_is_expanded s then Inr (m, frontier, Inl (STop k))
         else ebind (pwsa_store m v (s\<lparr>st_is_expanded := True\<rparr>)) (\<lambda>m. Inr (m, frontier, Inl (SClaimed v k))))
     | SClaimed v k \<Rightarrow> ebind (set_pebble (pm_pebbles m) v (int i)) (\<lambda>pebbles.
         Inr (m\<lparr>pm_pebbles := pebbles\<rparr>, frontier, if v = destination then Inr True else Inl (SRead v k)))
     | SRead v k \<Rightarrow> ebind (arr_get (pm_states m) v) (\<lambda>s.
         ebind (neighbor_list G graph v) (\<lambda>nbrs. Inr (m, frontier, Inl (SNext v (vp_distance (st_gpred s)) nbrs k))))
     | SNext v vdistance es k \<Rightarrow> (case es of
           [] \<Rightarrow> Inr (m, frontier, Inl (STop k))
         | (nbr, wgt) # es \<Rightarrow> ebind (num_add INT_MAX vdistance wgt) (\<lambda>distance.
             Inr (m, frontier, Inl (SLoad1 v vdistance nbr wgt es k))))
     | SLoad1 v vdistance nbr wgt es k \<Rightarrow> ebind (arr_get (pm_states m) nbr) (\<lambda>s.
         Inr (m, frontier, Inl (SLoad2 v vdistance nbr wgt es k)))
     | SLoad2 v vdistance nbr wgt es k \<Rightarrow> ebind (arr_get (pm_states m) nbr) (\<lambda>s.
         Inr (m, frontier, Inl (SCasN v vdistance nbr wgt es (st_gpred s) k)))
     | SCasN v vdistance nbr wgt es nbr_prev k \<Rightarrow>
         ebind (gpred_cas_weak m nbr nbr_prev \<lparr>vp_distance = vdistance + wgt, vp_pred = v\<rparr>) (\<lambda>(ok, m).
           Inr (m, frontier, Inl (if ok then STest v vdistance nbr wgt es k else SNext v vdistance es k)))
     | STest v vdistance nbr wgt es k \<Rightarrow> ebind (arr_get (pm_states m) nbr) (\<lambda>s.
         Inr (m, frontier, Inl (if st_is_expanded s then SNext v vdistance es k else SInsert v vdistance nbr wgt es k)))
     | SInsert v vdistance nbr wgt es k \<Rightarrow>
         ebind (pwsa_my_heur heuristic (pm_states m) nbr) (\<lambda>(heur, states).
         ebind (num_add INT_MAX (vdistance + wgt) heur) (\<lambda>prio.
         ebind (op_insert H prio nbr frontier) (\<lambda>frontier.
           Inr (m\<lparr>pm_states := states\<rparr>, frontier, Inl (SNext v vdistance es k))))))"

definition simple_client ::
  "(int, 'h) heap_ops \<Rightarrow> 'g graph_ops \<Rightarrow> (int \<Rightarrow> int) \<Rightarrow> 'g \<Rightarrow> int \<Rightarrow> int \<Rightarrow> int \<Rightarrow> (pwsa_mem, 'h, simple_body) pw_client" where
  "simple_client H G heuristic graph destination split_cutoff poll_cutoff =
     \<lparr>cl_new = op_new H, cl_size = pwsa_size H split_cutoff, cl_fork = pwsa_fork H, cl_start = STop 0,
      cl_body = simple_do_work H G heuristic graph destination poll_cutoff\<rparr>"

definition pwsa ::
  "(int, 'h) heap_ops \<Rightarrow> 'g graph_ops \<Rightarrow> (int \<Rightarrow> int) \<Rightarrow> 'g \<Rightarrow> int \<Rightarrow> int \<Rightarrow> int \<Rightarrow> int \<Rightarrow> bool \<Rightarrow>
   nat \<Rightarrow> (pwsa_mem, 'h, simple_body) pw \<Rightarrow> bool" where
  "pwsa H G heuristic graph source destination split_cutoff poll_cutoff pebble workers s \<longleftrightarrow>
     (\<exists>weak leader ans m initF. leader < workers \<and> pwsa_setup H G INT_MAX heuristic graph source pebble weak = Inr (m, initF) \<and>
       pw_reach (simple_client H G heuristic graph destination split_cutoff poll_cutoff) workers
         (pw_start (simple_client H G heuristic graph destination split_cutoff poll_cutoff) m initF leader ans) s)"

section \<open>Running one body\<close>

text \<open>At most \<open>k\<close> steps of the body of worker \<open>i\<close>, without interference.\<close>

fun body_run ::
  "('m, 'f, 'b) pw_client \<Rightarrow> nat \<Rightarrow> nat \<Rightarrow> 'm \<Rightarrow> 'f \<Rightarrow> 'b \<Rightarrow> ('m \<times> 'f \<times> ('b + bool)) result" where
  "body_run cl i 0 m f b = Inr (m, f, Inl b)"
| "body_run cl i (Suc k) m f b = ebind (cl_body cl i m f b) (\<lambda>(m, f, r).
     case r of Inl b \<Rightarrow> body_run cl i k m f b | Inr d \<Rightarrow> Inr (m, f, Inr d))"

lemma body_run_reach:
  assumes "pw_reach cl n s0 s" "i < n" "pw_pc s i = PBody b"
    "body_run cl i k (pw_mem s) (pw_mine s i) b = Inr (m, f, Inr True)"
  shows "\<exists>t. pw_reach cl n s0 t \<and> pw_mem t = m \<and> pw_pc t = (pw_pc s)(i := PSetDone) \<and> pw_is_done t = pw_is_done s"
  using assms(1,3,4)
proof (induction k arbitrary: s b)
  case (Suc k)
  obtain m1 f1 r where step: "cl_body cl i (pw_mem s) (pw_mine s i) b = Inr (m1, f1, r)"
    "(case r of Inl b \<Rightarrow> body_run cl i k m1 f1 b | Inr d \<Rightarrow> Inr (m1, f1, Inr d)) = Inr (m, f, Inr True)"
    using Suc.prems(3) by (auto simp: result_simps)
  define t where "t = pgoto i (case r of Inl b \<Rightarrow> PBody b | Inr found_dst \<Rightarrow> if found_dst then PSetDone else PLoop)
    (s\<lparr>pw_mem := m1, pw_mine := (pw_mine s)(i := f1)\<rparr>)"
  have "pw_step cl n 0 i s = Inr t" using step(1) Suc.prems(2) by (simp add: pw_step_def t_def)
  then have t: "pw_reach cl n s0 t" by (rule pw_reach_step[OF Suc.prems(1) assms(2)])
  show ?case
  proof (cases r)
    case (Inl b1)
    have "\<exists>u. pw_reach cl n s0 u \<and> pw_mem u = m \<and> pw_pc u = (pw_pc t)(i := PSetDone) \<and> pw_is_done u = pw_is_done t"
      by (rule Suc.IH[OF t]) (use step(2) Inl in \<open>simp_all add: t_def pgoto_def\<close>)
    moreover have "(pw_pc t)(i := PSetDone) = (pw_pc s)(i := PSetDone)" "pw_is_done t = pw_is_done s" by (auto simp: t_def pgoto_def fun_eq_iff)
    ultimately show ?thesis by (simp only:)
  next
    case (Inr d)
    then show ?thesis using step(2) t by (intro exI[of _ t]) (simp add: t_def pgoto_def)
  qed
qed simp

section \<open>The result can lose its path\<close>

text \<open>Four cells in a row, searched from the first to the last by one of two workers.\<close>

definition line4 :: Graph where
  "line4 = \<lparr>grid = [[0, 1, 2, 3]], vertices = [\<lparr>row = 0, col = 0\<rparr>, \<lparr>row = 0, col = 1\<rparr>, \<lparr>row = 0, col = 2\<rparr>, \<lparr>row = 0, col = 3\<rparr>],
     height = 1, width = 4, neighbor_offsets = [0, 1, 3, 5, 6],
     neighbors = [\<lparr>vertex = 1, weight = 10000\<rparr>, \<lparr>vertex = 0, weight = 10000\<rparr>, \<lparr>vertex = 2, weight = 10000\<rparr>,
       \<lparr>vertex = 1, weight = 10000\<rparr>, \<lparr>vertex = 3, weight = 10000\<rparr>, \<lparr>vertex = 2, weight = 10000\<rparr>]\<rparr>"

lemma line4_load: "Graph_load (map_text [''....''] 4) = Inr line4"
  by code_simp

definition simple4 :: "(pwsa_mem, int Heap, simple_body) pw_client" where
  "simple4 = simple_client bin_heap_ops grid_ops (\<lambda>v. 0) line4 3 8 100"

definition simple4_setup :: "(pwsa_mem \<times> int Heap) result" where
  "simple4_setup = pwsa_setup bin_heap_ops grid_ops INT_MAX (\<lambda>v. 0) line4 0 False (\<lambda>k. False)"

text \<open>The distances, predecessors and claims when the body has found the destination.\<close>

lemma simple4_body:
  "case simple4_setup of Inl e \<Rightarrow> False | Inr (m, f) \<Rightarrow> (case body_run simple4 0 60 m f (STop 0) of Inl e \<Rightarrow> False
     | Inr (m, f, r) \<Rightarrow> r = Inr True \<and> map (\<lambda>s. (vp_distance (st_gpred s), vp_pred (st_gpred s))) (pm_states m) =
         [(20000, 1), (30000, 2), (20000, 1), (30000, 2)])"
  by code_simp


lemma simple4_size: "case simple4_setup of Inl e \<Rightarrow> False | Inr (m, f) \<Rightarrow> heap_size f = 1"
  by code_simp

lemma pwsa_setup_steps: "pwsa_setup H G M h gr src pebble weak = Inr (m, f) \<Longrightarrow> pm_steps m i = 0"
  by (auto simp: pwsa_setup_def Let_def result_simps)

lemma simple4_finished:
  "\<exists>s. pwsa bin_heap_ops grid_ops (\<lambda>v. 0) line4 0 3 8 100 False 2 s \<and> pw_finished 2 s \<and>
     map (\<lambda>s. (vp_distance (st_gpred s), vp_pred (st_gpred s))) (pm_states (pw_mem s)) = [(20000, 1), (30000, 2), (20000, 1), (30000, 2)]"
proof -
  obtain m f where st0: "simple4_setup = Inr (m, f)" using simple4_size by (auto split: sum.splits)
  obtain m' f' where run: "body_run simple4 0 60 m f (STop 0) = Inr (m', f', Inr True)"
    and fin: "map (\<lambda>s. (vp_distance (st_gpred s), vp_pred (st_gpred s))) (pm_states m') = [(20000, 1), (30000, 2), (20000, 1), (30000, 2)]"
    using simple4_body[unfolded st0 sum.case prod.case] by (cases "body_run simple4 0 60 m f (STop 0)") auto
  have "heap_size f = 1" using simple4_size[unfolded st0 sum.case prod.case] .
  then have sz: "cl_size simple4 0 m f = (1, m)" using pwsa_setup_steps[of bin_heap_ops grid_ops INT_MAX "\<lambda>v. 0" line4 0 False "\<lambda>k. False" m f] st0
    by (simp add: simple4_def simple_client_def pwsa_size_def bin_heap_ops_def simple4_setup_def)
  define s0 where "s0 = pw_start simple4 m f 0 (\<lambda>i. ANSWER_WAITING)"
  define s1 where "s1 = pgoto 0 (PBody (STop 0)) (pgoto 0 (PRespond 1) (pgoto 0 PSize s0))"
  have "pw_reach simple4 2 s0 (pgoto 0 PSize s0)"
    by (rule pw_reach_step[OF pw_reach_start, of 0 2 _ 0]) (simp_all add: s0_def pw_start_def pw_step_def)
  then have "pw_reach simple4 2 s0 (pgoto 0 (PRespond 1) (pgoto 0 PSize s0))"
    by (rule pw_reach_step[of _ _ _ _ 0 0]) (simp_all add: s0_def pw_start_def pw_step_def pgoto_def sz)
  then have r1: "pw_reach simple4 2 s0 s1" unfolding s1_def
    by (rule pw_reach_step[of _ _ _ _ 0 0])
      (simp_all add: s0_def pw_start_def pw_step_def pgoto_def REQUEST_BLOCKED_def REQUEST_WAITING_def, simp add: simple4_def simple_client_def)
  obtain s2 where s2: "pw_reach simple4 2 s0 s2" "pw_mem s2 = m'" "pw_pc s2 = (pw_pc s1)(0 := PSetDone)" "pw_is_done s2 = pw_is_done s1"
    using body_run_reach[OF r1, of 0 "STop 0" 60 m' f'] run by (auto simp: s1_def s0_def pgoto_def pw_start_def)
  define s3 where "s3 = pgoto 0 PReturn (s2\<lparr>pw_is_done := True\<rparr>)"
  have r3: "pw_reach simple4 2 s0 s3" by (rule pw_reach_step[OF s2(1), of 0 0]) (simp_all add: s3_def pw_step_def s2(3))
  have pc1: "pw_pc s3 1 = PLoop" "pw_is_done s3" by (simp_all add: s3_def pgoto_def s2(3) s1_def s0_def pw_start_def)
  have r4: "pw_reach simple4 2 s0 (pgoto 1 PReturn s3)" by (rule pw_reach_step[OF r3, of 1 0]) (simp_all add: pw_step_def pc1 del: One_nat_def)
  have "pw_finished 2 (pgoto 1 PReturn s3)" by (auto simp: pw_finished_def less_2_cases_iff pgoto_def s3_def)
  moreover have "pm_states (pw_mem (pgoto 1 PReturn s3)) = pm_states m'" by (simp add: pgoto_def s3_def s2(2))
  moreover have "pwsa bin_heap_ops grid_ops (\<lambda>v. 0) line4 0 3 8 100 False 2 (pgoto 1 PReturn s3)"
    using r4 st0 unfolding pwsa_def simple4_setup_def s0_def simple4_def
    by (intro exI[of _ "\<lambda>k. False"] exI[of _ 0] exI[of _ "\<lambda>i. ANSWER_WAITING"] exI[of _ m] exI[of _ f]) simp
  ultimately show ?thesis using fin by (intro exI[of _ "pgoto 1 PReturn s3"]) simp
qed

text \<open>
  C12. The simple version \<open>pwsa\<close> overwrites the distance and the predecessor of a neighbour without
  comparing distances. On four cells in a row a run of two workers that returns leaves the
  predecessors of the two middle cells pointing at each other: \<open>pathlen\<close> of the result, which
  follows the predecessors from the destination, never returns a length.
\<close>

theorem simple_pwsa_loses_path:
  "\<exists>s. pwsa bin_heap_ops grid_ops (\<lambda>v. 0) line4 0 3 8 100 False 2 s \<and> pw_finished 2 s \<and>
     res_predecessor (pwsa_result s) 1 = Inr 2 \<and> res_predecessor (pwsa_result s) 2 = Inr 1 \<and>
     (\<forall>len. pathlen line4 (pwsa_result s) 0 3 \<noteq> Some (Inr len))"
proof -
  obtain s where s: "pwsa bin_heap_ops grid_ops (\<lambda>v. 0) line4 0 3 8 100 False 2 s" "pw_finished 2 s"
    "map (\<lambda>s. (vp_distance (st_gpred s), vp_pred (st_gpred s))) (pm_states (pw_mem s)) = [(20000, 1), (30000, 2), (20000, 1), (30000, 2)]"
    using simple4_finished by (elim exE conjE)
  let ?st = "pm_states (pw_mem s)"
  have len: "length ?st = 4" using arg_cong[OF s(3), of length] by simp
  have nth: "vp_pred (st_gpred (?st ! k)) = snd ([(20000 :: int, 1 :: int), (30000, 2), (20000, 1), (30000, 2)] ! k)" if "k < 4" for k
    unfolding s(3)[symmetric] using that len by simp
  from nth[of 1] nth[of 2] nth[of 3]
  have p: "res_predecessor (pwsa_result s) 1 = Inr 2" "res_predecessor (pwsa_result s) 2 = Inr 1" "res_predecessor (pwsa_result s) 3 = Inr 2"
    using len by (simp_all add: pwsa_result_def PWSAResult_def)
  have "pathlen line4 (pwsa_result s) 0 3 \<noteq> Some (Inr len)" for len
  proof
    assume "pathlen line4 (pwsa_result s) 0 3 = Some (Inr len)"
    then obtain r where r: "run_loop (pathlen_iter INT_MAX (weight_between line4) (res_predecessor (pwsa_result s)) 0) (3, 0) = Some r"
      "ebind r (\<lambda>(cur, len). Inr len) = Inr len" by (auto simp: pathlen_def)
    have "\<exists>e. r = Inl e"
      by (rule run_loop_never[OF r(1), where I = "\<lambda>(cur, len). cur = 1 \<or> cur = 2 \<or> cur = 3"])
        (auto simp: pathlen_iter_def p result_simps)
    then show False using r(2) by auto
  qed
  then show ?thesis using s(1,2) p by blast
qed

end
