(* ===== verification/Pase.thy ===== *)
theory Pase
  imports Par_Grid
begin

text \<open>
  The parallel A* for slow expansions, \<open>src/src/pase.hpp\<close>. All workers share one ordered multimap of
  priorities and vertices. A worker takes a vertex that is independent of all vertices before it,
  marks it, expands it and removes its entry afterwards, so that entries stay visible to the
  independence check of the other workers while their vertex is being expanded. A step of the model
  is one atomic action of one worker: a turn of the scan of \<open>find_independent\<close> under the lock, a read,
  or the critical section over the neighbours. The multimap is a list of entries in the order of
  iteration; an iterator is the number of the entry it points to.
\<close>

section \<open>The program\<close>

record pase_state =
  pa_is_expanded :: bool
  pa_being_expanded :: bool
  pa_g :: int
  pa_pred :: int

definition PASEResult :: "pase_state list \<Rightarrow> int list option \<Rightarrow> SearchResult" where
  "PASEResult states pebbles =
     \<lparr>res_is_expanded = (\<lambda>vertex. ebind (arr_get states vertex) (\<lambda>s. Inr (pa_is_expanded s))),
      res_predecessor = (\<lambda>vertex. ebind (arr_get states vertex) (\<lambda>s. Inr (pa_pred s))),
      res_g = (\<lambda>vertex. ebind (arr_get states vertex) (\<lambda>s. Inr (pa_g s))),
      res_pebble = pebble_of pebbles\<rparr>"

definition pase_init :: "int \<Rightarrow> pase_state list" where
  "pase_init N = replicate (nat N) \<lparr>pa_is_expanded = False, pa_being_expanded = False, pa_g = INT_MAX, pa_pred = -1\<rparr>"

text \<open>The multimap: \<open>insert\<close> puts a new entry behind all entries with keys up to its own; \<open>erase\<close>
  needs an iterator to an entry that is there.\<close>

record mm_entry =
  mm_key :: int
  mm_vertex :: int
  mm_id :: nat

definition mm_insert :: "mm_entry \<Rightarrow> mm_entry list \<Rightarrow> mm_entry list" where
  "mm_insert e M = takeWhile (\<lambda>x. mm_key x \<le> mm_key e) M @ e # dropWhile (\<lambda>x. mm_key x \<le> mm_key e) M"

definition mm_erase :: "nat \<Rightarrow> mm_entry list \<Rightarrow> mm_entry list result" where
  "mm_erase i M = (if \<exists>e \<in> set M. mm_id e = i then Inr (filter (\<lambda>x. mm_id x \<noteq> i) M) else Inl OutOfBounds)"

datatype pase_pc =
    ALoop \<comment> \<open>line 135\<close>
  | AFind \<comment> \<open>line 101, waiting for the lock\<close>
  | AScan nat \<comment> \<open>line 103, with the lock and the position of \<open>itv\<close>\<close>
  | AGot int nat \<comment> \<open>lines 140 to 146, vertex and iterator\<close>
  | ARead int nat \<comment> \<open>line 150\<close>
  | ARelax int int nat \<comment> \<open>line 151\<close>
  | AFound int nat \<comment> \<open>returned after finding the destination\<close>
  | AExit \<comment> \<open>returned because the search was done\<close>

record pase =
  pa_states :: "pase_state list"
  pa_M :: "mm_entry list"
  pa_next :: nat
  pa_is_done :: bool
  pa_lock :: "nat option"
  pa_pebbles :: "int list option"
  pa_pcs :: "pase_pc list"

definition agoto :: "nat \<Rightarrow> pase_pc \<Rightarrow> pase \<Rightarrow> pase" where
  "agoto i pc s = s\<lparr>pa_pcs := (pa_pcs s)[i := pc]\<rparr>"

definition insert_locked :: "int \<Rightarrow> int \<Rightarrow> mm_entry list \<times> nat \<Rightarrow> mm_entry list \<times> nat" where
  "insert_locked fv v Mn = (case Mn of (M, n) \<Rightarrow> (mm_insert \<lparr>mm_key = fv, mm_vertex = v, mm_id = n\<rparr> M, n + 1))"

text \<open>The inner loop of \<open>find_independent\<close>, over the entries before \<open>itv\<close>.\<close>

fun pase_valid :: "(int \<Rightarrow> int \<Rightarrow> int) \<Rightarrow> pase_state list \<Rightarrow> int \<Rightarrow> mm_entry list \<Rightarrow> bool \<Rightarrow> bool result" where
  "pase_valid heuristic states v [] valid = Inr valid"
| "pase_valid heuristic states v (e # es) valid =
     (if \<not> valid then Inr False
      else let u = mm_vertex e in
        ebind (arr_get states u) (\<lambda>su.
        ebind (arr_get states v) (\<lambda>sv.
        ebind (num_add INT_MAX (pa_g su) (heuristic u v)) (\<lambda>x.
          pase_valid heuristic states v es (x \<ge> pa_g sv)))))"

text \<open>One turn of the outer loop; the lock is released when the loop ends.\<close>

definition find_independent :: "(int \<Rightarrow> int \<Rightarrow> int) \<Rightarrow> nat \<Rightarrow> nat \<Rightarrow> pase \<Rightarrow> pase result" where
  "find_independent heuristic k i s =
     (if pa_is_done s \<or> k \<ge> length (pa_M s) then Inr (agoto i ALoop (s\<lparr>pa_lock := None\<rparr>))
      else let e = pa_M s ! k; v = mm_vertex e in
        ebind (arr_get (pa_states s) v) (\<lambda>sv.
          if pa_is_expanded sv then ebind (mm_erase (mm_id e) (pa_M s)) (\<lambda>M. Inr (s\<lparr>pa_M := M\<rparr>))
          else ebind (pase_valid heuristic (pa_states s) v (take k (pa_M s)) (\<not> pa_being_expanded sv)) (\<lambda>valid.
            if valid
            then ebind (arr_set (pa_states s) v (sv\<lparr>pa_being_expanded := True\<rparr>)) (\<lambda>states.
                 Inr (agoto i (AGot v (mm_id e)) (s\<lparr>pa_states := states, pa_lock := None\<rparr>)))
            else Inr (agoto i (AScan (k + 1)) s))))"

text \<open>The lambda of \<open>for_each_neighbor_of\<close>.\<close>

definition pase_relax ::
  "(int \<Rightarrow> int \<Rightarrow> int) \<Rightarrow> int \<Rightarrow> int \<Rightarrow> int \<Rightarrow> int \<times> int \<Rightarrow> pase_state list \<times> mm_entry list \<times> nat \<Rightarrow>
   (pase_state list \<times> mm_entry list \<times> nat) result" where
  "pase_relax heuristic destination v vdist nw sM =
     (case nw of (nbr, wgt) \<Rightarrow> case sM of (states, Mn) \<Rightarrow>
      ebind (num_add INT_MAX vdist wgt) (\<lambda>nbrdist.
      ebind (arr_get states nbr) (\<lambda>sn.
        if nbrdist < pa_g sn
        then ebind (arr_set states nbr (sn\<lparr>pa_g := nbrdist, pa_pred := v\<rparr>)) (\<lambda>states.
             ebind (num_add INT_MAX nbrdist (heuristic nbr destination)) (\<lambda>fv.
               Inr (states, insert_locked fv nbr Mn)))
        else Inr (states, Mn))))"

definition pase_step ::
  "'g graph_ops \<Rightarrow> (int \<Rightarrow> int \<Rightarrow> int) \<Rightarrow> 'g \<Rightarrow> int \<Rightarrow> nat \<Rightarrow> pase \<Rightarrow> pase result" where
  "pase_step G heuristic graph destination i s = (case pa_pcs s ! i of
       ALoop \<Rightarrow> Inr (agoto i (if pa_is_done s then AExit else AFind) s)
     | AFind \<Rightarrow> if pa_lock s = None then Inr (agoto i (AScan 0) (s\<lparr>pa_lock := Some i\<rparr>)) else Inr s
     | AScan k \<Rightarrow> find_independent heuristic k i s
     | AGot v itv \<Rightarrow> ebind (set_pebble (pa_pebbles s) v (int i)) (\<lambda>pebbles.
         if v = destination then Inr (agoto i (AFound v itv) (s\<lparr>pa_pebbles := pebbles, pa_is_done := True\<rparr>))
         else Inr (agoto i (ARead v itv) (s\<lparr>pa_pebbles := pebbles\<rparr>)))
     | ARead v itv \<Rightarrow> ebind (arr_get (pa_states s) v) (\<lambda>sv. Inr (agoto i (ARelax v (pa_g sv) itv) s))
     | ARelax v vdist itv \<Rightarrow>
         if pa_lock s \<noteq> None then Inr s
         else ebind (neighbor_list G graph v) (\<lambda>nbrs.
           ebind (efold (pase_relax heuristic destination v vdist) nbrs (pa_states s, pa_M s, pa_next s)) (\<lambda>(states, M, next).
           ebind (arr_get states v) (\<lambda>sv.
           ebind (arr_set states v (sv\<lparr>pa_is_expanded := True\<rparr>)) (\<lambda>states.
           ebind (mm_erase itv M) (\<lambda>M.
             Inr (agoto i ALoop (s\<lparr>pa_states := states, pa_M := M, pa_next := next\<rparr>)))))))
     | AFound v itv \<Rightarrow> Inr s
     | AExit \<Rightarrow> Inr s)"

definition pase_start ::
  "'g graph_ops \<Rightarrow> (int \<Rightarrow> int \<Rightarrow> int) \<Rightarrow> 'g \<Rightarrow> int \<Rightarrow> int \<Rightarrow> bool \<Rightarrow> nat \<Rightarrow> pase result" where
  "pase_start G heuristic graph source destination pebble workers =
     (let N = number_vertices G graph; states = pase_init N in
      ebind (arr_get states source) (\<lambda>s.
      ebind (arr_set states source (s\<lparr>pa_g := 0\<rparr>)) (\<lambda>states.
        case insert_locked (heuristic source destination) source ([], 0) of (M, n) \<Rightarrow>
        Inr \<lparr>pa_states = states, pa_M = M, pa_next = n, pa_is_done = False, pa_lock = None,
             pa_pebbles = init_pebbles pebble N, pa_pcs = replicate workers ALoop\<rparr>)))"

inductive pase_reach ::
  "'g graph_ops \<Rightarrow> (int \<Rightarrow> int \<Rightarrow> int) \<Rightarrow> 'g \<Rightarrow> int \<Rightarrow> int \<Rightarrow> bool \<Rightarrow> nat \<Rightarrow> pase \<Rightarrow> bool"
  for G heuristic graph source destination pebble workers where
  areach_start: "pase_start G heuristic graph source destination pebble workers = Inr s \<Longrightarrow>
    pase_reach G heuristic graph source destination pebble workers s"
| areach_step: "\<lbrakk>pase_reach G heuristic graph source destination pebble workers s; i < workers;
    pase_step G heuristic graph destination i s = Inr t\<rbrakk> \<Longrightarrow>
    pase_reach G heuristic graph source destination pebble workers t"

definition pase_finished :: "pase \<Rightarrow> bool" where
  "pase_finished s \<longleftrightarrow> (\<forall>pc \<in> set (pa_pcs s). case pc of AFound v itv \<Rightarrow> True | AExit \<Rightarrow> True | _ \<Rightarrow> False)"


section \<open>The multimap\<close>

definition mm_ok :: "mm_entry list \<Rightarrow> nat \<Rightarrow> bool" where
  "mm_ok M n \<longleftrightarrow> sorted (map mm_key M) \<and> distinct (map mm_id M) \<and> (\<forall>e \<in> set M. mm_id e < n)"

lemma mset_mm_insert [simp]: "mset (mm_insert e M) = add_mset e (mset M)"
proof -
  have "mset (takeWhile P M) + mset (dropWhile P M) = mset M" for P
    by (metis mset_append takeWhile_dropWhile_id)
  then show ?thesis by (simp add: mm_insert_def)
qed

lemma set_mm_insert [simp]: "set (mm_insert e M) = insert e (set M)"
  by (metis mset_mm_insert set_mset_mset set_mset_add_mset_insert)

lemma mm_insert_ok:
  assumes M: "mm_ok M n" and e: "mm_id e = n"
  shows "mm_ok (mm_insert e M) (n + 1)"
proof -
  let ?P = "\<lambda>x. mm_key x \<le> mm_key e"
  obtain xs ys where xy: "takeWhile ?P M = xs" "dropWhile ?P M = ys" by simp
  have "sorted (map mm_key (xs @ ys))" using M by (simp add: mm_ok_def xy[symmetric])
  then have s: "sorted (map mm_key xs)" "sorted (map mm_key ys)" "\<forall>x \<in> set xs. \<forall>y \<in> set ys. mm_key x \<le> mm_key y"
    by (auto simp: sorted_append)
  have le: "\<forall>x \<in> set xs. mm_key x \<le> mm_key e" using xy(1) by (auto dest: set_takeWhileD)
  have ge: "mm_key e \<le> mm_key y" if "y \<in> set ys" for y
  proof (cases ys)
    case (Cons z zs)
    then have "\<not> ?P z" using hd_dropWhile[of ?P M] xy(2) by simp
    then show ?thesis using that s(2) Cons by auto
  qed (use that in simp)
  have "sorted (map mm_key (mm_insert e M))" using s le ge by (auto simp: mm_insert_def xy sorted_append)
  moreover have "mset (map mm_id (mm_insert e M)) = mset (n # map mm_id M)" using e by simp
  then have "distinct (map mm_id (mm_insert e M)) \<longleftrightarrow> distinct (n # map mm_id M)" by (rule mset_eq_imp_distinct_iff)
  moreover have "n \<notin> mm_id ` set M" using M by (auto simp: mm_ok_def)
  ultimately show ?thesis using M e by (auto simp: mm_ok_def less_Suc_eq)
qed

lemma mm_unique: "\<lbrakk>mm_ok M n; e \<in> set M; e' \<in> set M; mm_id e = mm_id e'\<rbrakk> \<Longrightarrow> e = e'"
  by (auto simp: mm_ok_def distinct_map inj_on_def)

lemma mm_erase_ok:
  assumes M: "mm_ok M n" and e: "e \<in> set M"
  obtains M' where "mm_erase (mm_id e) M = Inr M'" "mm_ok M' n" "set M' = set M - {e}" "mset M = add_mset e (mset M')"
proof
  let ?M = "filter (\<lambda>x. mm_id x \<noteq> mm_id e) M"
  show "mm_erase (mm_id e) M = Inr ?M" using e by (auto simp: mm_erase_def)
  show "mm_ok ?M n" using M by (auto simp: mm_ok_def sorted_filter distinct_map_filter)
  show "set ?M = set M - {e}" using mm_unique[OF M _ e] by auto
  obtain xs ys where xy: "M = xs @ e # ys" using split_list[OF e] by blast
  then have "mm_id x \<noteq> mm_id e" if "x \<in> set xs \<union> set ys" for x using M that by (auto simp: mm_ok_def image_iff)
  then have "filter (\<lambda>x. mm_id x \<noteq> mm_id e) xs = xs" "filter (\<lambda>x. mm_id x \<noteq> mm_id e) ys = ys"
    by (simp_all add: filter_id_conv)
  then show "mset M = add_mset e (mset ?M)" by (simp add: xy)
qed

text \<open>What the loop over the neighbours does to distances and entries.\<close>

definition grown ::
  "(int \<Rightarrow> int) \<Rightarrow> (int \<Rightarrow> int) \<Rightarrow> mm_entry list \<Rightarrow> nat \<Rightarrow> (int \<Rightarrow> int) \<Rightarrow> mm_entry list \<Rightarrow> nat \<Rightarrow> mm_entry multiset \<Rightarrow> bool" where
  "grown h D M n D' M' n' new \<longleftrightarrow> n \<le> n' \<and> mm_ok M' n' \<and> mset M' = mset M + new \<and> (\<forall>e. e \<in># new \<longrightarrow> n \<le> mm_id e) \<and>
     (\<forall>x. D' x \<le> D x) \<and> (\<forall>e. e \<in># new \<longrightarrow> D' (mm_vertex e) + h (mm_vertex e) \<le> mm_key e) \<and>
     (\<forall>x. D' x = D x \<or> (\<exists>e. e \<in># new \<and> mm_vertex e = x \<and> mm_key e = D' x + h x))"

lemma grownD:
  assumes "grown h D M n D' M' n' new"
  shows "n \<le> n'" "mm_ok M' n'" "mset M' = mset M + new" "e \<in># new \<Longrightarrow> n \<le> mm_id e" "D' x \<le> D x"
    "e \<in># new \<Longrightarrow> D' (mm_vertex e) + h (mm_vertex e) \<le> mm_key e"
    "D' x = D x \<or> (\<exists>e. e \<in># new \<and> mm_vertex e = x \<and> mm_key e = D' x + h x)"
  using assms unfolding grown_def by blast+

lemma grown_set: "grown h D M n D' M' n' new \<Longrightarrow> set M' = set M \<union> set_mset new"
  by (metis grownD(3) set_mset_mset set_mset_union)

lemma grown_refl: "mm_ok M n \<Longrightarrow> grown h D M n D M n {#}"
  by (simp add: grown_def)

lemma grown_insert:
  assumes "mm_ok M n" "d < D x"
  shows "grown h D M n (D(x := d)) (mm_insert \<lparr>mm_key = d + h x, mm_vertex = x, mm_id = n\<rparr> M) (n + 1)
    {#\<lparr>mm_key = d + h x, mm_vertex = x, mm_id = n\<rparr>#}"
  using assms mm_insert_ok[OF assms(1), of "\<lparr>mm_key = d + h x, mm_vertex = x, mm_id = n\<rparr>"] by (simp add: grown_def)

lemma grown_trans:
  assumes a: "grown h D M n D1 M1 n1 new1" and b: "grown h D1 M1 n1 D2 M2 n2 new2"
  shows "grown h D M n D2 M2 n2 (new1 + new2)"
  unfolding grown_def
proof (intro conjI allI impI, goal_cases)
  case (4 e)
  then show ?case using grownD(4)[OF a, of e] grownD(4)[OF b, of e] grownD(1)[OF a] by auto
next
  case (5 x)
  then show ?case using grownD(5)[OF a, of x] grownD(5)[OF b, of x] by simp
next
  case (6 e)
  then show ?case using grownD(6)[OF a, of e] grownD(6)[OF b, of e] grownD(5)[OF b, of "mm_vertex e"] by auto
next
  case (7 x)
  then show ?case using grownD(7)[OF a, of x] grownD(7)[OF b, of x] by auto
qed (use grownD(1-3)[OF a] grownD(1-3)[OF b] in auto)

section \<open>Abstraction\<close>

abbreviation claimd :: "pase_state list \<Rightarrow> int \<Rightarrow> bool" where
  "claimd st \<equiv> fld pa_being_expanded False st"

abbreviation closd :: "pase_state list \<Rightarrow> int \<Rightarrow> bool" where
  "closd st \<equiv> fld pa_is_expanded False st"

abbreviation adist :: "pase_state list \<Rightarrow> int \<Rightarrow> int" where
  "adist st \<equiv> fld pa_g INT_MAX st"

definition amem :: "pase_state list \<Rightarrow> int multiset \<Rightarrow> act multiset \<Rightarrow> psearch" where
  "amem st Q A = \<lparr>ps_D = adist st, ps_P = fld pa_pred (-1) st, ps_X = {v. claimd st v}, ps_Q = Q, ps_A = A\<rparr>"

lemma amem_simps [simp]:
  "ps_D (amem st Q A) = adist st" "ps_P (amem st Q A) = fld pa_pred (-1) st"
  "ps_X (amem st Q A) = {v. claimd st v}" "ps_Q (amem st Q A) = Q" "ps_A (amem st Q A) = A"
  by (simp_all add: amem_def)

text \<open>The vertex and the entry a worker holds, and its expansion.\<close>

fun ahold :: "pase_pc \<Rightarrow> (int \<times> nat) option" where
  "ahold (AGot v i) = Some (v, i)"
| "ahold (ARead v i) = Some (v, i)"
| "ahold (ARelax v d i) = Some (v, i)"
| "ahold (AFound v i) = Some (v, i)"
| "ahold _ = None"

fun aacts :: "(int \<Rightarrow> (int \<times> int) list) \<Rightarrow> pase_pc \<Rightarrow> act multiset" where
  "aacts nb (AGot v i) = {#Claimed v#}"
| "aacts nb (ARead v i) = {#Claimed v#}"
| "aacts nb (AFound v i) = {#Claimed v#}"
| "aacts nb (ARelax v d i) = {#Relaxing v d (nb v)#}"
| "aacts nb _ = {#}"

definition held :: "pase_pc \<Rightarrow> nat multiset" where
  "held pc = (case ahold pc of None \<Rightarrow> {#} | Some (v, i) \<Rightarrow> {#i#})"

lemma held_None: "ahold pc = None \<Longrightarrow> held pc = {#}" "ahold pc = None \<Longrightarrow> aacts nb pc = {#}"
  by (cases pc; simp add: held_def)+

lemma held_Some: "ahold pc = Some (v, i) \<Longrightarrow> held pc = {#i#}" "ahold pc = Some (v, i) \<Longrightarrow> \<exists>a. aacts nb pc = {#a#} \<and> act_vertex a = v"
  by (cases pc; simp add: held_def)+

definition open_entries :: "nat multiset \<Rightarrow> mm_entry multiset \<Rightarrow> int multiset" where
  "open_entries I E = image_mset mm_vertex (filter_mset (\<lambda>e. mm_id e \<notin># I) E)"

lemma open_entries_union: "open_entries I (E + F) = open_entries I E + open_entries I F"
  by (simp add: open_entries_def)

lemma open_entries_add:
  "open_entries I (add_mset e E) = (if mm_id e \<in># I then open_entries I E else add_mset (mm_vertex e) (open_entries I E))"
  by (simp add: open_entries_def)

lemma open_entries_fresh: "\<lbrakk>\<And>i. i \<in># I \<Longrightarrow> i < n; \<And>e. e \<in># F \<Longrightarrow> n \<le> mm_id e\<rbrakk> \<Longrightarrow> open_entries I F = image_mset mm_vertex F"
  unfolding open_entries_def by (rule arg_cong[where f = "image_mset mm_vertex"]) (fastforce simp: filter_mset_eq_conv)

lemma open_entries_hold:
  assumes "\<And>e. e \<in># E \<Longrightarrow> mm_id e \<noteq> i"
  shows "open_entries (add_mset i I) E = open_entries I E"
  unfolding open_entries_def by (rule arg_cong[where f = "image_mset mm_vertex"]) (rule filter_mset_cong, use assms in auto)


section \<open>The critical section over the neighbours\<close>

context search_graph
begin

lemma arelax_one:
  assumes gok: "ok gr" and pre: "search_pre G max_weight INT_MAX (\<lambda>u. h2 u dst) Hmax gr src"
    and inv: "ps_inv G (max_weight gr) INT_MAX gr src (amem st Q (add_mset (Relaxing v d ((x, w) # es)) A))"
    and st: "int (length st) = number_vertices G gr" "mm_ok M n"
  shows "\<exists>st' M' n' new. pase_relax h2 dst v d (x, w) (st, M, n) = Inr (st', M', n') \<and>
    astep G gr (amem st Q (add_mset (Relaxing v d ((x, w) # es)) A))
      (amem st' (Q + image_mset mm_vertex new) (add_mset (Relaxing v d es) A)) \<and>
    length st' = length st \<and> claimd st' = claimd st \<and> closd st' = closd st \<and>
    grown (\<lambda>u. h2 u dst) (adist st) M n (adist st') M' n' new \<and> adist st' x \<le> d + w \<and> d + w < INT_MAX"
proof -
  let ?h = "\<lambda>u. h2 u dst"
  let ?s = "amem st Q (add_mset (Relaxing v d ((x, w) # es)) A)"
  note b = prio_bounds[OF gok pre inv, of v d x w es, simplified]
  have x: "0 \<le> x" "x < int (length st)" using b(5,6) st(1) by auto
  have add: "num_add INT_MAX d w = Inr (d + w)" using b by (intro num_add_ok) auto
  have gx: "pa_g (st ! nat x) = adist st x" using x by (simp add: fld_def)
  show ?thesis
  proof (cases "d + w < adist st x")
    case False
    then have run: "pase_relax h2 dst v d (x, w) (st, M, n) = Inr (st, M, n)" using x by (simp add: pase_relax_def add gx)
    have "astep G gr ?s (amem st (Q + image_mset mm_vertex {#}) (add_mset (Relaxing v d es) A))"
      using astep.keep[of ?s v d x w es A G gr] False by (simp add: amem_def)
    then show ?thesis using run False b(2) grown_refl[OF st(2), of ?h "adist st"] by (intro exI conjI) auto
  next
    case True
    have p: "num_add INT_MAX (d + w) (h2 x dst) = Inr (d + w + h2 x dst)" using b by (intro num_add_ok) auto
    define st' where "st' = st[nat x := (st ! nat x)\<lparr>pa_g := d + w, pa_pred := v\<rparr>]"
    let ?e = "\<lparr>mm_key = d + w + h2 x dst, mm_vertex = x, mm_id = n\<rparr>"
    have run: "pase_relax h2 dst v d (x, w) (st, M, n) = Inr (st', mm_insert ?e M, n + 1)"
      using x True by (simp add: pase_relax_def insert_locked_def add gx p st'_def)
    have D: "adist st' = (adist st)(x := d + w)" "fld pa_pred (-1) st' = (fld pa_pred (-1) st)(x := v)"
      "claimd st' = claimd st" "closd st' = closd st" "length st' = length st"
      using x by (simp_all add: st'_def fld_update)
    have "astep G gr ?s (amem st' (Q + image_mset mm_vertex {#?e#}) (add_mset (Relaxing v d es) A))"
      using astep.improve[of ?s v d x w es A G gr] True by (simp add: amem_def D)
    moreover have "grown ?h (adist st) M n (adist st') (mm_insert ?e M) (n + 1) {#?e#}"
      using grown_insert[where D = "adist st" and x = x and d = "d + w" and h = ?h, OF st(2) True] by (simp add: D(1))
    ultimately show ?thesis using run D b(2)
      by (intro exI[of _ st'] exI[of _ "mm_insert ?e M"] exI[of _ "n + 1"] exI[of _ "{#?e#}"] conjI) auto
  qed
qed

lemma arelax_all:
  assumes gok: "ok gr" and pre: "search_pre G max_weight INT_MAX (\<lambda>u. h2 u dst) Hmax gr src"
    and "ps_inv G (max_weight gr) INT_MAX gr src (amem st Q (add_mset (Relaxing v d l) A))"
    and "int (length st) = number_vertices G gr" "mm_ok M n"
  shows "\<exists>st' M' n' new. efold (pase_relax h2 dst v d) l (st, M, n) = Inr (st', M', n') \<and>
    asteps G gr (amem st Q (add_mset (Relaxing v d l) A)) (amem st' (Q + image_mset mm_vertex new) A) \<and>
    length st' = length st \<and> claimd st' = claimd st \<and> closd st' = closd st \<and>
    grown (\<lambda>u. h2 u dst) (adist st) M n (adist st') M' n' new \<and>
    (\<forall>(x, w) \<in> set l. adist st' x \<le> d + w \<and> d + w < INT_MAX)"
  using assms(3-)
proof (induction l arbitrary: st Q M n)
  case Nil
  have "astep G gr (amem st Q (add_mset (Relaxing v d []) A)) (amem st (Q + image_mset mm_vertex {#}) A)"
    using astep.close[of "amem st Q (add_mset (Relaxing v d []) A)" v d A G gr] by (simp add: amem_def)
  then show ?case using grown_refl[OF Nil.prems(3)] by (intro exI conjI) (auto intro: r_into_rtranclp)
next
  case (Cons e l)
  obtain x w where e: "e = (x, w)" by (cases e)
  from arelax_one[where ?h2.0 = h2 and dst = dst, OF gok pre Cons.prems[unfolded e]] obtain st1 M1 n1 new1 where
    1: "pase_relax h2 dst v d (x, w) (st, M, n) = Inr (st1, M1, n1)"
      "astep G gr (amem st Q (add_mset (Relaxing v d ((x, w) # l)) A))
        (amem st1 (Q + image_mset mm_vertex new1) (add_mset (Relaxing v d l) A))"
      "length st1 = length st" "claimd st1 = claimd st" "closd st1 = closd st"
      "grown (\<lambda>u. h2 u dst) (adist st) M n (adist st1) M1 n1 new1" "adist st1 x \<le> d + w" "d + w < INT_MAX"
    by (elim exE conjE)
  have inv1: "ps_inv G (max_weight gr) INT_MAX gr src (amem st1 (Q + image_mset mm_vertex new1) (add_mset (Relaxing v d l) A))"
    by (rule astep_inv[OF gok pre_par[OF gok pre] Cons.prems(1)[unfolded e] 1(2)])
  have "int (length st1) = number_vertices G gr" using Cons.prems(2) 1(3) by simp
  from Cons.IH[OF inv1 this grownD(2)[OF 1(6)]] obtain st2 M2 n2 new2 where
    2: "efold (pase_relax h2 dst v d) l (st1, M1, n1) = Inr (st2, M2, n2)"
      "asteps G gr (amem st1 (Q + image_mset mm_vertex new1) (add_mset (Relaxing v d l) A))
        (amem st2 (Q + image_mset mm_vertex new1 + image_mset mm_vertex new2) A)"
      "length st2 = length st1" "claimd st2 = claimd st1" "closd st2 = closd st1"
      "grown (\<lambda>u. h2 u dst) (adist st1) M1 n1 (adist st2) M2 n2 new2"
      "\<forall>(x, w) \<in> set l. adist st2 x \<le> d + w \<and> d + w < INT_MAX"
    by (elim exE conjE)
  have run: "efold (pase_relax h2 dst v d) (e # l) (st, M, n) = Inr (st2, M2, n2)" using 1(1) 2(1) by (simp add: e)
  have steps: "asteps G gr (amem st Q (add_mset (Relaxing v d (e # l)) A)) (amem st2 (Q + image_mset mm_vertex (new1 + new2)) A)"
    using converse_rtranclp_into_rtranclp[of "astep G gr", OF 1(2) 2(2)] by (simp add: e add.assoc)
  have "adist st2 x \<le> d + w" using grownD(5)[OF 2(6), of x] 1(7) by simp
  then have "\<forall>(x, w) \<in> set (e # l). adist st2 x \<le> d + w \<and> d + w < INT_MAX" using 2(7) 1(8) by (simp add: e)
  then show ?case using run steps grown_trans[OF 1(6) 2(6)] 1(3-5) 2(3-5) by (intro exI conjI) auto
qed

end

section \<open>The invariant\<close>

definition a_core :: "'g graph_ops \<Rightarrow> 'g \<Rightarrow> int \<Rightarrow> pase \<Rightarrow> bool" where
  "a_core G gr dst s \<longleftrightarrow> int (length (pa_states s)) = number_vertices G gr \<and>
     pebbles_ok (number_vertices G gr) (pa_pebbles s) \<and> mm_ok (pa_M s) (pa_next s) \<and>
     (\<forall>pc \<in> set (pa_pcs s). \<forall>v i. ahold pc = Some (v, i) \<longrightarrow>
       \<not> closd (pa_states s) v \<and> (\<exists>e \<in> set (pa_M s). mm_id e = i \<and> mm_vertex e = v)) \<and>
     (\<forall>v. closd (pa_states s) v \<longrightarrow> claimd (pa_states s) v) \<and>
     (\<forall>v i. AFound v i \<in> set (pa_pcs s) \<longrightarrow> v = dst) \<and> (AExit \<in> set (pa_pcs s) \<longrightarrow> pa_is_done s) \<and>
     (pa_is_done s \<longrightarrow> claimd (pa_states s) dst)"

lemma a_coreD:
  assumes "a_core G gr dst s"
  shows "int (length (pa_states s)) = number_vertices G gr" "pebbles_ok (number_vertices G gr) (pa_pebbles s)"
    "mm_ok (pa_M s) (pa_next s)"
    "\<lbrakk>pc \<in> set (pa_pcs s); ahold pc = Some (v, i)\<rbrakk> \<Longrightarrow> \<not> closd (pa_states s) v"
    "\<lbrakk>pc \<in> set (pa_pcs s); ahold pc = Some (v, i)\<rbrakk> \<Longrightarrow> \<exists>e \<in> set (pa_M s). mm_id e = i \<and> mm_vertex e = v"
    "closd (pa_states s) v \<Longrightarrow> claimd (pa_states s) v" "AFound v i \<in> set (pa_pcs s) \<Longrightarrow> v = dst"
    "AExit \<in> set (pa_pcs s) \<Longrightarrow> pa_is_done s" "pa_is_done s \<Longrightarrow> claimd (pa_states s) dst"
  using assms unfolding a_core_def by blast+

lemma a_coreI:
  assumes "int (length (pa_states s)) = number_vertices G gr" "pebbles_ok (number_vertices G gr) (pa_pebbles s)"
    "mm_ok (pa_M s) (pa_next s)"
    "\<And>pc v i. \<lbrakk>pc \<in> set (pa_pcs s); ahold pc = Some (v, i)\<rbrakk> \<Longrightarrow>
      \<not> closd (pa_states s) v \<and> (\<exists>e \<in> set (pa_M s). mm_id e = i \<and> mm_vertex e = v)"
    "\<And>v. closd (pa_states s) v \<Longrightarrow> claimd (pa_states s) v" "\<And>v i. AFound v i \<in> set (pa_pcs s) \<Longrightarrow> v = dst"
    "AExit \<in> set (pa_pcs s) \<Longrightarrow> pa_is_done s" "pa_is_done s \<Longrightarrow> claimd (pa_states s) dst"
  shows "a_core G gr dst s"
  unfolding a_core_def using assms by (intro conjI allI ballI impI) blast+

text \<open>The lock is held exactly by the worker that scans.\<close>

definition a_lock :: "pase \<Rightarrow> bool" where
  "a_lock s \<longleftrightarrow> (\<forall>j < length (pa_pcs s). pa_lock s = Some j \<longleftrightarrow> (\<exists>k. pa_pcs s ! j = AScan k)) \<and>
     (\<forall>j. pa_lock s = Some j \<longrightarrow> j < length (pa_pcs s))"

text \<open>
  The bound on distances: what has been claimed has its final quality; what has been closed has
  passed its distance on; every entry has a key that is no smaller than the current priority of its
  vertex, and every open vertex has an entry with its current priority.
\<close>

definition a_bound ::
  "'g graph_ops \<Rightarrow> real \<Rightarrow> (int \<Rightarrow> int) \<Rightarrow> 'g \<Rightarrow> int \<Rightarrow> pase_state list \<Rightarrow> mm_entry set \<Rightarrow> pase_pc set \<Rightarrow> bool" where
  "a_bound G eps h gr src st M pcs \<longleftrightarrow>
     (\<forall>v c. claimd st v \<and> path G gr src v c \<longrightarrow> real_of_int (adist st v) \<le> eps * real_of_int c) \<and>
     (\<forall>v d i c. ARelax v d i \<in> pcs \<and> path G gr src v c \<longrightarrow> real_of_int d \<le> eps * real_of_int c) \<and>
     (\<forall>x y w c. closd st x \<and> edge G gr x y w \<and> path G gr src x c \<longrightarrow>
       adist st y < INT_MAX \<and> real_of_int (adist st y) \<le> eps * real_of_int c + real_of_int w) \<and>
     (\<forall>e \<in> M. adist st (mm_vertex e) + h (mm_vertex e) \<le> mm_key e) \<and>
     (\<forall>v. adist st v < INT_MAX \<and> \<not> closd st v \<longrightarrow> (\<exists>e \<in> M. mm_vertex e = v \<and> mm_key e = adist st v + h v))"

lemma a_boundD:
  assumes "a_bound G eps h gr src st M pcs"
  shows "\<lbrakk>claimd st v; path G gr src v c\<rbrakk> \<Longrightarrow> real_of_int (adist st v) \<le> eps * real_of_int c"
    "\<lbrakk>ARelax v d i \<in> pcs; path G gr src v c\<rbrakk> \<Longrightarrow> real_of_int d \<le> eps * real_of_int c"
    "\<lbrakk>closd st x; edge G gr x y w; path G gr src x c\<rbrakk> \<Longrightarrow> adist st y < INT_MAX \<and> real_of_int (adist st y) \<le> eps * real_of_int c + real_of_int w"
    "e \<in> M \<Longrightarrow> adist st (mm_vertex e) + h (mm_vertex e) \<le> mm_key e"
    "\<lbrakk>adist st v < INT_MAX; \<not> closd st v\<rbrakk> \<Longrightarrow> \<exists>e \<in> M. mm_vertex e = v \<and> mm_key e = adist st v + h v"
  using assms unfolding a_bound_def by blast+

lemma a_boundI:
  assumes "\<And>v c. \<lbrakk>claimd st v; path G gr src v c\<rbrakk> \<Longrightarrow> real_of_int (adist st v) \<le> eps * real_of_int c"
    "\<And>v d i c. \<lbrakk>ARelax v d i \<in> pcs; path G gr src v c\<rbrakk> \<Longrightarrow> real_of_int d \<le> eps * real_of_int c"
    "\<And>x y w c. \<lbrakk>closd st x; edge G gr x y w; path G gr src x c\<rbrakk> \<Longrightarrow> adist st y < INT_MAX \<and> real_of_int (adist st y) \<le> eps * real_of_int c + real_of_int w"
    "\<And>e. e \<in> M \<Longrightarrow> adist st (mm_vertex e) + h (mm_vertex e) \<le> mm_key e"
    "\<And>v. \<lbrakk>adist st v < INT_MAX; \<not> closd st v\<rbrakk> \<Longrightarrow> \<exists>e \<in> M. mm_vertex e = v \<and> mm_key e = adist st v + h v"
  shows "a_bound G eps h gr src st M pcs"
  unfolding a_bound_def using assms by (intro conjI allI impI ballI) blast+

text \<open>What the heuristic promises for every pair of vertices.\<close>

definition pair_consistent :: "'g graph_ops \<Rightarrow> real \<Rightarrow> (int \<Rightarrow> int \<Rightarrow> int) \<Rightarrow> 'g \<Rightarrow> bool" where
  "pair_consistent G eps h2 gr \<longleftrightarrow> 1 \<le> eps \<and>
     (\<forall>v. 0 \<le> v \<and> v < number_vertices G gr \<longrightarrow> eps_consistent G eps (\<lambda>u. h2 u v) gr \<and> h2 v v = 0)"

definition pase_pre :: "'g graph_ops \<Rightarrow> ('g \<Rightarrow> int) \<Rightarrow> (int \<Rightarrow> int \<Rightarrow> int) \<Rightarrow> int \<Rightarrow> 'g \<Rightarrow> int \<Rightarrow> int \<Rightarrow> bool" where
  "pase_pre G W h2 Hmax gr src dst \<longleftrightarrow> 0 \<le> dst \<and> dst < number_vertices G gr \<and>
     (\<forall>v. 0 \<le> v \<and> v < number_vertices G gr \<longrightarrow> search_pre G W INT_MAX (\<lambda>u. h2 u v) Hmax gr src)"


lemma sum_frame:
  assumes "i < length xs" "f z = (0 :: 'b :: comm_monoid_add)"
  shows "sum_list (map f (xs[i := x])) = f x + sum_list (map f (xs[i := z]))"
    "sum_list (map f xs) = f (xs ! i) + sum_list (map f (xs[i := z]))"
  using sum_list_frame[OF assms(1), of f] assms(2) by auto

abbreviation others :: "nat \<Rightarrow> pase \<Rightarrow> pase_pc list" where
  "others i s \<equiv> (pa_pcs s)[i := ALoop]"

lemma agoto_simps [simp]:
  "pa_states (agoto i pc s) = pa_states s" "pa_M (agoto i pc s) = pa_M s" "pa_next (agoto i pc s) = pa_next s"
  "pa_is_done (agoto i pc s) = pa_is_done s" "pa_lock (agoto i pc s) = pa_lock s" "pa_pebbles (agoto i pc s) = pa_pebbles s"
  "pa_pcs (agoto i pc s) = (pa_pcs s)[i := pc]"
  by (simp_all add: agoto_def)

lemma in_goto: "x \<in> set (pcs[i := pc]) \<Longrightarrow> x = pc \<or> x \<in> set (pcs[i := z])"
  by (metis in_set_conv_nth length_list_update nth_list_update nth_list_update_neq)

lemma in_others: "x \<in> set (others i s) \<Longrightarrow> x = ALoop \<or> x \<in> set (pa_pcs s)"
  by (meson insertE set_update_subset_insert subsetD)

lemma a_core_others: "a_core G gr dst s \<Longrightarrow> a_core G gr dst (agoto i ALoop s)"
  by (rule a_coreI) (use a_coreD[of G gr dst s] in_others[of _ s i] in fastforce)+

lemma a_core_goto:
  assumes "a_core G gr dst (agoto i ALoop t)"
    "\<And>v j. ahold pc = Some (v, j) \<Longrightarrow> \<not> closd (pa_states t) v \<and> (\<exists>e \<in> set (pa_M t). mm_id e = j \<and> mm_vertex e = v)"
    "\<And>v j. pc = AFound v j \<Longrightarrow> v = dst" "pc = AExit \<Longrightarrow> pa_is_done t"
  shows "a_core G gr dst (agoto i pc t)"
proof -
  note c = a_coreD[OF assms(1), unfolded agoto_simps]
  have or: "x = pc \<or> x \<in> set (others i t)" if "x \<in> set ((pa_pcs t)[i := pc])" for x using in_goto[OF that] by blast
  show ?thesis
  proof (rule a_coreI, goal_cases)
    case (4 p v j)
    then show ?case using or[of p] c(4,5)[of p v j] assms(2)[of v j] by auto
  next
    case (6 v j)
    then show ?case using or[of "AFound v j"] c(7)[of v j] assms(3)[of v j] by auto
  next
    case 7
    then show ?case using or[of AExit] c(8) assms(4) by auto
  qed (use c(1-3,6,9) in simp_all)
qed

fun scanning :: "pase_pc \<Rightarrow> bool" where
  "scanning (AScan k) = True"
| "scanning _ = False"

lemma scanning_iff: "scanning pc \<longleftrightarrow> (\<exists>k. pc = AScan k)"
  by (cases pc) auto

lemma a_lock_goto:
  assumes "a_lock s" "i < length (pa_pcs s)" "pa_pcs t = pa_pcs s"
    "if scanning pc then pa_lock t = Some i \<and> (pa_lock s = None \<or> pa_lock s = Some i)
     else if scanning (pa_pcs s ! i) then pa_lock t = None else pa_lock t = pa_lock s"
  shows "a_lock (agoto i pc t)"
proof -
  have u: "j = i" if "scanning (pa_pcs s ! j)" "scanning (pa_pcs s ! i)" "j < length (pa_pcs s)" for j
  proof -
    have "pa_lock s = Some j" "pa_lock s = Some i" using assms(1,2) that by (auto simp: a_lock_def scanning_iff)
    then show ?thesis by simp
  qed
  have l: "(pa_lock s = Some j) = scanning (pa_pcs s ! j)" if "j < length (pa_pcs s)" for j
    using assms(1) that by (simp add: a_lock_def scanning_iff)
  have "(pa_lock t = Some j) = scanning ((pa_pcs s)[i := pc] ! j)" if "j < length (pa_pcs s)" for j
    using l[OF that] l[OF assms(2)] u[of j] assms(2,4) that by (cases "j = i") (auto split: if_splits)
  moreover have "j < length (pa_pcs s)" if "pa_lock t = Some j" for j
    using that assms(1,2,4) by (auto simp: a_lock_def split: if_splits)
  ultimately show ?thesis using assms(3) by (simp add: a_lock_def scanning_iff)
qed

lemma a_bound_goto:
  assumes "a_bound G eps h gr src st M P" "\<And>x. x \<in> P' \<Longrightarrow> x = pc \<or> x \<in> P"
    "\<And>v d i c. \<lbrakk>pc = ARelax v d i; path G gr src v c\<rbrakk> \<Longrightarrow> real_of_int d \<le> eps * real_of_int c"
  shows "a_bound G eps h gr src st M P'"
proof (rule a_boundI)
  show "real_of_int d \<le> eps * real_of_int c" if "ARelax v d i \<in> P'" "path G gr src v c" for v d i c
    using assms(2)[OF that(1)] assms(3)[of v d i c] a_boundD(2)[OF assms(1), of v d i c] that(2) by auto
qed (use a_boundD(1,3-5)[OF assms(1)] in auto)

section \<open>Refinement and preservation\<close>

context search_graph
begin

definition aabs :: "'g \<Rightarrow> pase \<Rightarrow> psearch" where
  "aabs gr s = amem (pa_states s) (open_entries (sum_list (map held (pa_pcs s))) (mset (pa_M s)))
     (sum_list (map (aacts (nbrs_of G gr)) (pa_pcs s)))"

lemma aabs_frame:
  assumes "i < length (pa_pcs s)"
  shows "aabs gr s = amem (pa_states s) (open_entries (held (pa_pcs s ! i) + sum_list (map held (others i s))) (mset (pa_M s)))
      (aacts (nbrs_of G gr) (pa_pcs s ! i) + sum_list (map (aacts (nbrs_of G gr)) (others i s)))"
    "pa_pcs t = pa_pcs s \<Longrightarrow> aabs gr (agoto i pc t) =
      amem (pa_states t) (open_entries (held pc + sum_list (map held (others i s))) (mset (pa_M t)))
      (aacts (nbrs_of G gr) pc + sum_list (map (aacts (nbrs_of G gr)) (others i s)))"
proof -
  have h: "held ALoop = {#}" "aacts (nbrs_of G gr) ALoop = {#}" by (simp_all add: held_def)
  note f = sum_frame[OF assms, of held ALoop, unfolded h, OF refl] sum_frame[OF assms, of "aacts (nbrs_of G gr)" ALoop, unfolded h, OF refl]
  show "aabs gr s = amem (pa_states s) (open_entries (held (pa_pcs s ! i) + sum_list (map held (others i s))) (mset (pa_M s)))
      (aacts (nbrs_of G gr) (pa_pcs s ! i) + sum_list (map (aacts (nbrs_of G gr)) (others i s)))"
    unfolding aabs_def f(2,4) ..
  show "aabs gr (agoto i pc t) =
      amem (pa_states t) (open_entries (held pc + sum_list (map held (others i s))) (mset (pa_M t)))
      (aacts (nbrs_of G gr) pc + sum_list (map (aacts (nbrs_of G gr)) (others i s)))" if "pa_pcs t = pa_pcs s"
    unfolding aabs_def agoto_simps that f(1)[of pc] f(3)[of pc] ..
qed

definition asim :: "real \<Rightarrow> (int \<Rightarrow> int \<Rightarrow> int) \<Rightarrow> 'g \<Rightarrow> int \<Rightarrow> int \<Rightarrow> pase \<Rightarrow> pase result \<Rightarrow> bool" where
  "asim eps h2 gr src dst s r \<longleftrightarrow> (\<exists>t. r = Inr t \<and> a_core G gr dst t \<and> length (pa_pcs t) = length (pa_pcs s) \<and>
     (a_lock s \<longrightarrow> a_lock t) \<and> asteps G gr (aabs gr s) (aabs gr t) \<and>
     (pair_consistent G eps h2 gr \<and> a_bound G eps (\<lambda>u. h2 u dst) gr src (pa_states s) (set (pa_M s)) (set (pa_pcs s)) \<longrightarrow>
      a_bound G eps (\<lambda>u. h2 u dst) gr src (pa_states t) (set (pa_M t)) (set (pa_pcs t))))"

lemma asim_refl: "a_core G gr dst s \<Longrightarrow> asim eps h2 gr src dst s (Inr s)"
  by (simp add: asim_def)

lemma asim_goto:
  assumes core: "a_core G gr dst (agoto i ALoop t)" and i: "i < length (pa_pcs s)" and t: "pa_pcs t = pa_pcs s"
    and pc: "\<And>v j. ahold pc = Some (v, j) \<Longrightarrow> \<not> closd (pa_states t) v \<and> (\<exists>e \<in> set (pa_M t). mm_id e = j \<and> mm_vertex e = v)"
      "\<And>v j. pc = AFound v j \<Longrightarrow> v = dst" "pc = AExit \<Longrightarrow> pa_is_done t"
    and lock: "if scanning pc then pa_lock t = Some i \<and> (pa_lock s = None \<or> pa_lock s = Some i)
      else if scanning (pa_pcs s ! i) then pa_lock t = None else pa_lock t = pa_lock s"
    and steps: "asteps G gr (aabs gr s) (aabs gr (agoto i pc t))"
    and bound: "\<lbrakk>pair_consistent G eps h2 gr; a_bound G eps (\<lambda>u. h2 u dst) gr src (pa_states s) (set (pa_M s)) (set (pa_pcs s))\<rbrakk> \<Longrightarrow>
      a_bound G eps (\<lambda>u. h2 u dst) gr src (pa_states t) (set (pa_M t)) (set ((pa_pcs t)[i := pc]))"
  shows "asim eps h2 gr src dst s (Inr (agoto i pc t))"
  unfolding asim_def using a_core_goto[OF core pc] a_lock_goto[OF _ i t lock] steps bound t
  by (intro exI[of _ "agoto i pc t"] conjI) auto

text \<open>A step that changes neither the states nor the entries, and neither takes nor gives back a vertex.\<close>

lemma asim_move:
  assumes core: "a_core G gr dst s" and i: "i < length (pa_pcs s)"
    and t: "pa_pcs t = pa_pcs s" "pa_states t = pa_states s" "pa_M t = pa_M s" "a_core G gr dst t"
    and pc: "ahold pc = ahold (pa_pcs s ! i)" "\<And>v j. pc = AFound v j \<Longrightarrow> v = dst" "pc = AExit \<Longrightarrow> pa_is_done t"
      "\<And>v d j. pc \<noteq> ARelax v d j" "\<And>v d j. pa_pcs s ! i \<noteq> ARelax v d j"
    and lock: "if scanning pc then pa_lock t = Some i \<and> (pa_lock s = None \<or> pa_lock s = Some i)
      else if scanning (pa_pcs s ! i) then pa_lock t = None else pa_lock t = pa_lock s"
  shows "asim eps h2 gr src dst s (Inr (agoto i pc t))"
proof (rule asim_goto[OF a_core_others[OF t(4)] i t(1) _ pc(2,3) lock])
  show "\<not> closd (pa_states t) v \<and> (\<exists>e \<in> set (pa_M t). mm_id e = j \<and> mm_vertex e = v)" if "ahold pc = Some (v, j)" for v j
    using a_coreD(4,5)[OF core, of "pa_pcs s ! i" v j] pc(1) that i t by auto
  have "held pc = held (pa_pcs s ! i)" "aacts (nbrs_of G gr) pc = aacts (nbrs_of G gr) (pa_pcs s ! i)"
    using pc(1,4,5) by (cases pc; cases "pa_pcs s ! i"; simp add: held_def)+
  then have "aabs gr (agoto i pc t) = aabs gr s" using aabs_frame(1)[OF i] aabs_frame(2)[OF i t(1)] t by simp
  then show "asteps G gr (aabs gr s) (aabs gr (agoto i pc t))" by simp
  show "a_bound G eps (\<lambda>u. h2 u dst) gr src (pa_states t) (set (pa_M t)) (set ((pa_pcs t)[i := pc]))"
    if "a_bound G eps (\<lambda>u. h2 u dst) gr src (pa_states s) (set (pa_M s)) (set (pa_pcs s))"
    unfolding t by (rule a_bound_goto[OF that, of _ pc]) (use set_update_subset_insert pc(4) in fastforce)+
qed

end


context search_graph
begin

text \<open>The expansions under way are of vertices in range that are claimed, and no two are of the same vertex.\<close>

lemma a_hold:
  assumes core: "a_core G gr dst s" and inv: "ps_inv G (max_weight gr) INT_MAX gr src (aabs gr s)"
    and i: "i < length (pa_pcs s)" and h: "ahold (pa_pcs s ! i) = Some (v, j)"
  shows "0 \<le> v" "v < int (length (pa_states s))" "claimd (pa_states s) v"
    "\<lbrakk>pc \<in> set (others i s); ahold pc = Some (u, k)\<rbrakk> \<Longrightarrow> u \<noteq> v"
proof -
  note d = ps_invD[OF inv] and abs = aabs_frame(1)[OF i, of gr]
  obtain a where a: "aacts (nbrs_of G gr) (pa_pcs s ! i) = {#a#}" "act_vertex a = v" using held_Some(2)[OF h] by blast
  have "act_ok G (max_weight gr) gr (ps_D (aabs gr s)) (ps_X (aabs gr s)) a" using d(8)[of a] a(1) by (simp add: abs)
  then have "v \<in> ps_X (aabs gr s)" using a(2) by (cases a) auto
  then show "0 \<le> v" "v < int (length (pa_states s))" "claimd (pa_states s) v"
    using d(3)[OF d(6), of v] a_coreD(1)[OF core] by (auto simp: abs)
  show "u \<noteq> v" if pc: "pc \<in> set (others i s)" "ahold pc = Some (u, k)"
  proof
    assume "u = v"
    obtain b where b: "aacts (nbrs_of G gr) pc = {#b#}" "act_vertex b = u" using held_Some(2)[OF pc(2)] by blast
    obtain xs ys where "others i s = xs @ pc # ys" using split_list[OF pc(1)] by blast
    then have "b \<in># sum_list (map (aacts (nbrs_of G gr)) (others i s))" using b(1) by simp
    then have "v \<in># image_mset act_vertex (sum_list (map (aacts (nbrs_of G gr)) (others i s)))" using b(2) \<open>u = v\<close> by force
    then obtain m where "count (image_mset act_vertex (sum_list (map (aacts (nbrs_of G gr)) (others i s)))) v = Suc m"
      by (metis not_in_iff not0_implies_Suc)
    then show False using d(9)[of v] a by (simp add: abs)
  qed
qed

text \<open>Every entry is of a labelled vertex; adding a heuristic value to its distance does not overflow.\<close>

lemma a_entry:
  assumes gok: "ok gr" and pre: "pase_pre G max_weight h2 Hmax gr src dst" and core: "a_core G gr dst s"
    and inv: "ps_inv G (max_weight gr) INT_MAX gr src (aabs gr s)" and e: "e \<in> set (pa_M s)"
  shows "adist (pa_states s) (mm_vertex e) < INT_MAX" "0 \<le> mm_vertex e" "mm_vertex e < int (length (pa_states s))"
    "\<lbrakk>0 \<le> v; v < int (length (pa_states s))\<rbrakk> \<Longrightarrow>
      num_add INT_MAX (adist (pa_states s) (mm_vertex e)) (h2 (mm_vertex e) v) = Inr (adist (pa_states s) (mm_vertex e) + h2 (mm_vertex e) v)"
proof -
  note d = ps_invD[OF inv] and len = a_coreD(1)[OF core]
  let ?u = "mm_vertex e" and ?N = "number_vertices G gr"
  show lt: "adist (pa_states s) ?u < INT_MAX"
  proof (cases "mm_id e \<in># sum_list (map held (pa_pcs s))")
    case True
    then obtain pc where pc: "pc \<in> set (pa_pcs s)" "mm_id e \<in># held pc" by auto
    then obtain v where v: "ahold pc = Some (v, mm_id e)" by (auto simp: held_def split: option.splits prod.splits if_splits)
    then obtain f where "f \<in> set (pa_M s)" "mm_id f = mm_id e" "mm_vertex f = v" using a_coreD(5)[OF core pc(1)] by blast
    then have "?u = v" using mm_unique[OF a_coreD(3)[OF core] e] by metis
    moreover obtain i where "i < length (pa_pcs s)" "pa_pcs s ! i = pc" using pc(1) by (auto simp: in_set_conv_nth)
    ultimately have "claimd (pa_states s) ?u" using a_hold(3)[OF core inv] v by blast
    then show ?thesis using d(6)[of ?u] by (simp add: aabs_def)
  next
    case False
    then have "?u \<in># ps_Q (aabs gr s)" using e by (simp add: aabs_def open_entries_def)
    then show ?thesis using d(5)[of ?u] by (simp add: aabs_def)
  qed
  then show r: "0 \<le> ?u" "?u < int (length (pa_states s))" using d(3)[of ?u] len by (auto simp: aabs_def)
  show "num_add INT_MAX (adist (pa_states s) ?u) (h2 ?u v) = Inr (adist (pa_states s) ?u + h2 ?u v)"
    if v: "0 \<le> v" "v < int (length (pa_states s))"
  proof -
    have sp: "search_pre G max_weight INT_MAX (\<lambda>u. h2 u v) Hmax gr src" using pre v len by (simp add: pase_pre_def)
    have "adist (pa_states s) ?u \<le> max_weight gr * int (card (ps_X (aabs gr s)))" using d(4)[of ?u] lt by (simp add: aabs_def)
    also have "\<dots> \<le> max_weight gr * ?N"
      using X_bounds(2)[OF inv pre_par[OF gok sp]] sp by (intro mult_left_mono) (auto simp: search_pre_def)
    finally have "adist (pa_states s) ?u + Hmax < INT_MAX" using sp by (simp add: search_pre_def mult.commute)
    moreover have "0 \<le> h2 ?u v" "h2 ?u v \<le> Hmax" using sp r len by (auto simp: search_pre_def)
    moreover have "0 \<le> adist (pa_states s) ?u" using pred_treeD(2)[OF d(1), of ?u] lt by (simp add: aabs_def)
    ultimately show ?thesis by (intro num_add_ok) auto
  qed
qed

lemma pase_valid_eq:
  assumes "0 \<le> v" "v < int (length st)"
    "\<And>e. e \<in> set es \<Longrightarrow> 0 \<le> mm_vertex e \<and> mm_vertex e < int (length st) \<and>
      num_add INT_MAX (adist st (mm_vertex e)) (h2 (mm_vertex e) v) = Inr (adist st (mm_vertex e) + h2 (mm_vertex e) v)"
  shows "pase_valid h2 st v es b = Inr (b \<and> (\<forall>e \<in> set es. adist st v \<le> adist st (mm_vertex e) + h2 (mm_vertex e) v))"
  using assms(3)
proof (induction es arbitrary: b)
  case (Cons e es)
  have e: "0 \<le> mm_vertex e" "mm_vertex e < int (length st)"
    "num_add INT_MAX (adist st (mm_vertex e)) (h2 (mm_vertex e) v) = Inr (adist st (mm_vertex e) + h2 (mm_vertex e) v)"
    using Cons.prems[of e] by auto
  have "pa_g (st ! nat (mm_vertex e)) = adist st (mm_vertex e)" "pa_g (st ! nat v) = adist st v"
    using e assms(1,2) by (simp_all add: fld_def)
  then show ?case using e assms(1,2) Cons.IH Cons.prems by (simp add: Let_def)
qed simp

text \<open>The independence check makes the distance of the chosen vertex good enough.\<close>

lemma pase_select:
  assumes gok: "ok gr" and cons: "pair_consistent G eps h2 gr" and bnd: "a_bound G eps (\<lambda>u. h2 u dst) gr src st (set M) P"
    and D0: "adist st src = 0" and M: "sorted (map mm_key M)" "M = xs @ e # ys"
    and v: "0 \<le> mm_vertex e" "mm_vertex e < number_vertices G gr" "\<not> closd st (mm_vertex e)"
    and dst: "0 \<le> dst" "dst < number_vertices G gr"
    and valid: "\<forall>f \<in> set xs. adist st (mm_vertex e) \<le> adist st (mm_vertex f) + h2 (mm_vertex f) (mm_vertex e)"
    and p: "path G gr src (mm_vertex e) c"
  shows "real_of_int (adist st (mm_vertex e)) \<le> eps * real_of_int c"
proof -
  let ?v = "mm_vertex e"
  have eps: "1 \<le> eps" and hv: "eps_consistent G eps (\<lambda>u. h2 u ?v) gr" "h2 ?v ?v = 0" and hd: "eps_consistent G eps (\<lambda>u. h2 u dst) gr"
    using cons v dst by (auto simp: pair_consistent_def)
  have "\<exists>y c1 c2. adist st y < INT_MAX \<and> \<not> closd st y \<and> real_of_int (adist st y) \<le> eps * real_of_int c1 \<and>
      path G gr y ?v c2 \<and> c = c1 + c2"
  proof (cases "closd st src")
    case False
    then show ?thesis using D0 p by (intro exI[of _ src] exI[of _ 0] exI[of _ c]) (simp add: INT_MAX_def)
  next
    case True
    from path_leaves[OF p, of "Collect (closd st)"] True v(3) obtain x y w c1 c2 where
      y: "path G gr src x c1" "closd st x" "edge G gr x y w" "\<not> closd st y" "path G gr y ?v c2" "c = c1 + w + c2"
      by auto
    have b: "adist st y < INT_MAX" "real_of_int (adist st y) \<le> eps * real_of_int c1 + real_of_int w"
      using a_boundD(3)[OF bnd y(2,3,1)] by auto
    have "0 \<le> w" using edge_ok[OF gok y(3)] by simp
    then have "real_of_int w \<le> eps * real_of_int w" using eps mult_right_mono[of 1 eps "real_of_int w"] by simp
    then have "real_of_int (adist st y) \<le> eps * real_of_int (c1 + w)" using b(2) by (simp add: algebra_simps)
    then show ?thesis using b(1) y by blast
  qed
  then obtain y c1 c2 where y: "adist st y < INT_MAX" "\<not> closd st y" "real_of_int (adist st y) \<le> eps * real_of_int c1"
    "path G gr y ?v c2" "c = c1 + c2" by (elim exE conjE)
  obtain f where f: "f \<in> set M" "mm_vertex f = y" "mm_key f = adist st y + h2 y dst" using a_boundD(5)[OF bnd y(1,2)] by blast
  have "real_of_int (adist st ?v) \<le> real_of_int (adist st y) + eps * real_of_int c2"
  proof (cases "f \<in> set xs")
    case True
    then have "adist st ?v \<le> adist st y + h2 y ?v" using valid f(2) by auto
    moreover have "real_of_int (h2 y ?v) \<le> eps * real_of_int c2" using eps_consistent_path[OF hv(1) y(4)] hv(2) by simp
    ultimately show ?thesis by linarith
  next
    case False
    then have "mm_key e \<le> mm_key f" using f(1) M by (auto simp: sorted_append)
    moreover have "adist st ?v + h2 ?v dst \<le> mm_key e" using a_boundD(4)[OF bnd, of e] M(2) by simp
    moreover have "real_of_int (h2 y dst) \<le> eps * real_of_int c2 + real_of_int (h2 ?v dst)" using eps_consistent_path[OF hd y(4)] .
    ultimately show ?thesis using f(3) by linarith
  qed
  then show ?thesis using y(3,5) by (simp add: algebra_simps)
qed

end


context search_graph
begin

lemma astep_prune:
  assumes core: "a_core G gr dst s" and i: "i < length (pa_pcs s)" and pc: "pa_pcs s ! i = AScan k"
    and lock: "pa_lock s = Some i" and e: "e \<in> set (pa_M s)" "closd (pa_states s) (mm_vertex e)"
  shows "asim eps h2 gr src dst s (ebind (mm_erase (mm_id e) (pa_M s)) (\<lambda>M. Inr (s\<lparr>pa_M := M\<rparr>)))"
proof -
  note c = a_coreD[OF core]
  obtain M' where M': "mm_erase (mm_id e) (pa_M s) = Inr M'" "mm_ok M' (pa_next s)" "set M' = set (pa_M s) - {e}"
    "mset (pa_M s) = add_mset e (mset M')" by (rule mm_erase_ok[OF c(3) e(1)])
  let ?t = "s\<lparr>pa_M := M'\<rparr>"
  have keep: "\<exists>f \<in> set M'. mm_id f = j \<and> mm_vertex f = v" if "p \<in> set (pa_pcs s)" "ahold p = Some (v, j)" for p v j
    using c(4,5)[OF that] e(2) M'(3) by auto
  have core': "a_core G gr dst ?t" by (rule a_coreI) (use c M'(2) keep in auto)
  have free: "mm_id e \<notin># sum_list (map held (pa_pcs s))"
  proof
    assume "mm_id e \<in># sum_list (map held (pa_pcs s))"
    then obtain p v where p: "p \<in> set (pa_pcs s)" "ahold p = Some (v, mm_id e)"
      by (auto simp: held_def split: option.splits prod.splits if_splits)
    then obtain f where "f \<in> set (pa_M s)" "mm_id f = mm_id e" "mm_vertex f = v" using c(5) by blast
    then have "v = mm_vertex e" using mm_unique[OF c(3) e(1)] by metis
    then show False using c(4)[OF p] e(2) by simp
  qed
  have "astep G gr (aabs gr s) (aabs gr ?t)"
    using astep.drop[of "mm_vertex e" "aabs gr s" G gr] c(6)[OF e(2)] free
    by (simp add: aabs_def M'(4) open_entries_add) (simp add: amem_def)
  then have steps: "asteps G gr (aabs gr s) (aabs gr (agoto i (AScan k) ?t))"
    using list_update_id[of "pa_pcs s" i] by (simp add: agoto_def pc)
  have "asim eps h2 gr src dst s (Inr (agoto i (AScan k) ?t))"
  proof (rule asim_goto[OF a_core_others[OF core'] i _ _ _ _ _ steps], goal_cases)
    case 6
    show ?case
    proof (rule a_boundI, goal_cases)
      case (5 v)
      then show ?case using a_boundD(5)[OF 6(2), of v] e(2) M'(3) by auto
    qed (use a_boundD[OF 6(2)] M'(3) list_update_id[of "pa_pcs s" i] pc in auto)
  qed (use lock pc in auto)
  then show ?thesis using M'(1) list_update_id[of "pa_pcs s" i] by (simp add: agoto_def pc)
qed

lemma astep_claim:
  assumes gok: "ok gr" and pre: "pase_pre G max_weight h2 Hmax gr src dst"
    and core: "a_core G gr dst s" and inv: "ps_inv G (max_weight gr) INT_MAX gr src (aabs gr s)"
    and i: "i < length (pa_pcs s)" and pc: "pa_pcs s ! i = AScan k" and k: "k < length (pa_M s)" and v: "mm_vertex (pa_M s ! k) = v"
    and new: "\<not> claimd (pa_states s) v"
    and valid: "\<forall>f \<in> set (take k (pa_M s)). adist (pa_states s) v \<le> adist (pa_states s) (mm_vertex f) + h2 (mm_vertex f) v"
    and st: "st = (pa_states s)[nat v := (pa_states s ! nat v)\<lparr>pa_being_expanded := True\<rparr>]"
  shows "asim eps h2 gr src dst s (Inr (agoto i (AGot v (mm_id (pa_M s ! k))) (s\<lparr>pa_states := st, pa_lock := None\<rparr>)))"
    (is "asim _ _ _ _ _ _ (Inr (agoto i ?pc ?t))")
proof -
  note c = a_coreD[OF core]
  let ?e = "pa_M s ! k"
  have e: "?e \<in> set (pa_M s)" using k by simp
  note en = a_entry[OF gok pre core inv e, unfolded v]
  have D: "adist st = adist (pa_states s)" "fld pa_pred (-1) st = fld pa_pred (-1) (pa_states s)" "closd st = closd (pa_states s)"
    "claimd st = (claimd (pa_states s))(v := True)" "length st = length (pa_states s)"
    using en(2,3) by (simp_all add: st fld_update)
  have X: "{x. claimd st x} = insert v {x. claimd (pa_states s) x}" by (auto simp: D)
  have nc: "\<not> closd (pa_states s) v" using c(6) new by blast
  have core': "a_core G gr dst ?t" by (rule a_coreI) (use c in \<open>auto simp: D\<close>)
  have free: "mm_id ?e \<notin># sum_list (map held (others i s))"
  proof
    assume "mm_id ?e \<in># sum_list (map held (others i s))"
    then obtain p u where p: "p \<in> set (others i s)" "ahold p = Some (u, mm_id ?e)"
      by (auto simp: held_def split: option.splits prod.splits if_splits)
    then have p': "p \<in> set (pa_pcs s)" using in_others[OF p(1)] by auto
    then obtain f where "f \<in> set (pa_M s)" "mm_id f = mm_id ?e" "mm_vertex f = u" using c(5) p(2) by blast
    then have "u = v" using mm_unique[OF c(3) e] v by metis
    moreover obtain j where "j < length (pa_pcs s)" "pa_pcs s ! j = p" using p' by (auto simp: in_set_conv_nth)
    ultimately show False using a_hold(3)[OF core inv] p(2) new by blast
  qed
  obtain M' where M': "set M' = set (pa_M s) - {?e}" "mset (pa_M s) = add_mset ?e (mset M')"
    by (rule mm_erase_ok[OF c(3) e])
  have o: "open_entries (add_mset (mm_id ?e) I) (mset M') = open_entries I (mset M')" for I
    by (rule open_entries_hold) (use M'(1) mm_unique[OF c(3) _ e] in auto)
  have "astep G gr (aabs gr s) (aabs gr (agoto i ?pc ?t))"
    using astep.claim[of v "aabs gr s" G gr] new free aabs_frame(1)[OF i, of gr] aabs_frame(2)[OF i, of ?t gr ?pc] pc v
    by (simp add: held_def M'(2) open_entries_add o) (simp add: amem_def X D(1,2))
  then have steps: "asteps G gr (aabs gr s) (aabs gr (agoto i ?pc ?t))" by simp
  show ?thesis
  proof (rule asim_goto[OF a_core_others[OF core'] i _ _ _ _ _ steps], goal_cases)
    case (6)
    have sel: "real_of_int (adist (pa_states s) v) \<le> eps * real_of_int c" if "path G gr src v c" for c
    proof -
      have "M = take k M @ M ! k # drop (Suc k) M" if "k < length M" for M :: "mm_entry list" using id_take_nth_drop[OF that] .
      moreover have "adist (pa_states s) src = 0" using pred_treeD(1)[OF ps_invD(1)[OF inv]] by (simp add: aabs_def)
      moreover have "sorted (map mm_key (pa_M s))" using c(3) by (simp add: mm_ok_def)
      ultimately show ?thesis
        using pase_select[OF gok 6(1,2), of "take k (pa_M s)" ?e "drop (Suc k) (pa_M s)" c] k en nc v valid that c(1) pre
        by (auto simp: pase_pre_def)
    qed
    show ?case
    proof (rule a_boundI, goal_cases)
      case (1 u c)
      then show ?case using a_boundD(1)[OF 6(2), of u c] sel[of c] by (auto simp: D split: if_splits)
    next
      case (2 u d j c)
      then show ?case using a_boundD(2)[OF 6(2), of u d j c] in_goto[of "ARelax u d j" "pa_pcs s" i ?pc "pa_pcs s ! i"] by auto
    qed (use a_boundD(3-5)[OF 6(2)] in \<open>auto simp: D\<close>)
  qed (use pc v e nc D in auto)
qed

end


context search_graph
begin

lemma astep_scan:
  assumes gok: "ok gr" and pre: "pase_pre G max_weight h2 Hmax gr src dst"
    and core: "a_core G gr dst s" and inv: "ps_inv G (max_weight gr) INT_MAX gr src (aabs gr s)" and al: "a_lock s"
    and i: "i < length (pa_pcs s)" and pc: "pa_pcs s ! i = AScan k"
  shows "asim eps h2 gr src dst s (find_independent h2 k i s)"
proof -
  have lock: "pa_lock s = Some i" using al i pc by (auto simp: a_lock_def)
  show ?thesis
  proof (cases "pa_is_done s \<or> length (pa_M s) \<le> k")
    case True
    have "asim eps h2 gr src dst s (Inr (agoto i ALoop (s\<lparr>pa_lock := None\<rparr>)))"
      by (rule asim_move[OF core i]) (use core pc in \<open>auto simp: a_core_def\<close>)
    then show ?thesis using True by (simp add: find_independent_def)
  next
    case False
    let ?e = "pa_M s ! k" let ?v = "mm_vertex ?e"
    have k: "k < length (pa_M s)" and e: "?e \<in> set (pa_M s)" using False by auto
    note en = a_entry[OF gok pre core inv]
    note v = en(2,3)[OF e]
    have val: "pase_valid h2 (pa_states s) ?v (take k (pa_M s)) b =
      Inr (b \<and> (\<forall>f \<in> set (take k (pa_M s)). adist (pa_states s) ?v \<le> adist (pa_states s) (mm_vertex f) + h2 (mm_vertex f) ?v))" for b
      by (rule pase_valid_eq[OF v]) (use en v in_set_takeD in fast)
    have f: "pa_is_expanded (pa_states s ! nat ?v) = closd (pa_states s) ?v"
      "pa_being_expanded (pa_states s ! nat ?v) = claimd (pa_states s) ?v" using v by (simp_all add: fld_def)
    have next_k: "asim eps h2 gr src dst s (Inr (agoto i (AScan (k + 1)) s))"
      by (rule asim_move[OF core i]) (use core pc lock in auto)
    show ?thesis
      using False v f val next_k astep_prune[OF core i pc lock e] astep_claim[OF gok pre core inv i pc k refl _ _ refl]
      by (auto simp: find_independent_def Let_def)
  qed
qed

lemma astep_relax:
  assumes gok: "ok gr" and pre: "pase_pre G max_weight h2 Hmax gr src dst"
    and core: "a_core G gr dst s" and inv: "ps_inv G (max_weight gr) INT_MAX gr src (aabs gr s)"
    and i: "i < length (pa_pcs s)" and pc: "pa_pcs s ! i = ARelax v d j" and lock: "pa_lock s = None"
  shows "asim eps h2 gr src dst s (pase_step G h2 gr dst i s)"
proof -
  note c = a_coreD[OF core]
  let ?h = "\<lambda>u. h2 u dst" and ?I = "sum_list (map held (others i s))" and ?A = "sum_list (map (aacts (nbrs_of G gr)) (others i s))"
  have hold: "ahold (pa_pcs s ! i) = Some (v, j)" using pc by simp
  have here: "pa_pcs s ! i \<in> set (pa_pcs s)" using i by (rule nth_mem)
  note v = a_hold[OF core inv i hold]
  obtain e where e: "e \<in> set (pa_M s)" "mm_id e = j" "mm_vertex e = v" using c(5)[OF here hold] by blast
  obtain l where l: "neighbor_list G gr v = Inr l" using neighbors_ok[OF gok, of v] v c(1) by auto
  have sp: "search_pre G max_weight INT_MAX ?h Hmax gr src" using pre by (simp add: pase_pre_def)
  have a: "aabs gr s = amem (pa_states s) (open_entries (add_mset j ?I) (mset (pa_M s))) (add_mset (Relaxing v d l) ?A)"
    using aabs_frame(1)[OF i, of gr] pc l by (simp add: held_def nbrs_of_def)
  obtain st M n new where r: "efold (pase_relax h2 dst v d) l (pa_states s, pa_M s, pa_next s) = Inr (st, M, n)"
    "asteps G gr (aabs gr s) (amem st (open_entries (add_mset j ?I) (mset (pa_M s)) + image_mset mm_vertex new) ?A)"
    "length st = length (pa_states s)" "claimd st = claimd (pa_states s)" "closd st = closd (pa_states s)"
    "grown ?h (adist (pa_states s)) (pa_M s) (pa_next s) (adist st) M n new"
    "\<forall>(x, w) \<in> set l. adist st x \<le> d + w \<and> d + w < INT_MAX"
    using arelax_all[where ?h2.0 = h2 and dst = dst, OF gok sp inv[unfolded a] c(1,3)] unfolding a by (elim exE conjE)
  note gr' = grownD[OF r(6)] and gs = grown_set[OF r(6)]
  obtain M' where M': "mm_erase j M = Inr M'" "mm_ok M' n" "set M' = set M - {e}" "mset M = add_mset e (mset M')"
    by (rule mm_erase_ok[OF gr'(2), of e]) (use gs e in auto)
  define st' where "st' = st[nat v := (st ! nat v)\<lparr>pa_is_expanded := True\<rparr>]"
  have v1: "v < int (length st)" using v(2) r(3) by simp
  have D: "adist st' = adist st" "fld pa_pred (-1) st' = fld pa_pred (-1) st" "claimd st' = claimd (pa_states s)"
    "closd st' = (closd (pa_states s))(v := True)" "length st' = length (pa_states s)"
    using v(1) v1 r(3-5) fld_upd_id[of v st pa_being_expanded False] by (simp_all add: st'_def fld_update)
  let ?t = "s\<lparr>pa_states := st', pa_M := M', pa_next := n\<rparr>"
  have run: "pase_step G h2 gr dst i s = Inr (agoto i ALoop ?t)"
    using pc lock l r(1) v(1) v1 M'(1) by (simp add: pase_step_def st'_def)
  have old: "f \<in> set M'" if "f \<in> set (pa_M s) \<or> f \<in># new" "mm_vertex f \<noteq> v" for f using that gs M'(3) e(3) by auto
  have core': "a_core G gr dst (agoto i ALoop ?t)"
  proof (rule a_coreI, goal_cases)
    case (4 p u k)
    then have p: "p \<in> set (others i s)" "ahold p = Some (u, k)" by simp_all
    then have p': "p \<in> set (pa_pcs s)" using in_others[OF p(1)] by auto
    have "u \<noteq> v" by (rule v(4)[OF p])
    then show ?case using c(4,5)[OF p' p(2)] old by (fastforce simp: D)
  next
    case (6 u k)
    then show ?case using c(7)[of u k] in_others[of "AFound u k" s i] by simp
  next
    case 7
    then show ?case using c(8) in_others[of AExit s i] by simp
  qed (use c M'(2) v(3) in \<open>auto simp: D split: if_splits\<close>)
  have ids: "k < pa_next s" if k: "k \<in># add_mset j ?I" for k
  proof -
    have "\<exists>p \<in> set (pa_pcs s). \<exists>u. ahold p = Some (u, k)"
    proof (cases "k = j")
      case True
      then show ?thesis using here hold by blast
    next
      case False
      then obtain p u where p: "p \<in> set (others i s)" "ahold p = Some (u, k)"
        using k by (auto simp: held_def split: option.splits prod.splits if_splits)
      then show ?thesis using in_others[OF p(1)] by auto
    qed
    then obtain f where "f \<in> set (pa_M s)" "mm_id f = k" using c(5) by blast
    then show ?thesis using c(3) by (auto simp: mm_ok_def)
  qed
  have "open_entries ?I (mset M') = open_entries (add_mset j ?I) (mset M')"
    by (rule open_entries_hold[symmetric]) (use M'(3) mm_unique[OF gr'(2) _ _, of _ e] gs e in fastforce)
  also have "\<dots> = open_entries (add_mset j ?I) (mset M)" by (simp add: M'(4) open_entries_add e(2))
  also have "\<dots> = open_entries (add_mset j ?I) (mset (pa_M s)) + image_mset mm_vertex new"
    unfolding gr'(3) open_entries_union by (rule arg_cong[OF open_entries_fresh, OF ids gr'(4)])
  finally have "aabs gr (agoto i ALoop ?t) = amem st (open_entries (add_mset j ?I) (mset (pa_M s)) + image_mset mm_vertex new) ?A"
    using aabs_frame(2)[OF i, of ?t gr ALoop] D by (simp add: held_def amem_def r(4))
  then have steps: "asteps G gr (aabs gr s) (aabs gr (agoto i ALoop ?t))" using r(2) by simp
  have "asim eps h2 gr src dst s (Inr (agoto i ALoop ?t))"
  proof (rule asim_goto[OF core' i _ _ _ _ _ steps], goal_cases)
    case 6
    note b = a_boundD[OF 6(2)]
    have le: "real_of_int (adist st x) \<le> real_of_int (adist (pa_states s) x)" for x using gr'(5)[of x] by simp
    show ?case
    proof (rule a_boundI, goal_cases)
      case (1 u c)
      then show ?case using b(1)[of u c] le[of u] by (auto simp: D)
    next
      case (2 u d' k c)
      then show ?case using b(2)[of u d' k c] in_others[of "ARelax u d' k" s i] by auto
    next
      case (3 x y w c)
      show ?case
      proof (cases "x = v")
        case True
        then have "(y, w) \<in> set l" using 3(2) l by (simp add: edge_def)
        then have "adist st y \<le> d + w" "d + w < INT_MAX" using r(7) by auto
        moreover have "real_of_int d \<le> eps * real_of_int c" using b(2)[of v d j c] here pc 3(3) True by simp
        ultimately show ?thesis by (simp add: D)
      next
        case False
        then show ?thesis using b(3)[of x y w c] 3 le[of y] gr'(5)[of y] by (simp add: D)
      qed
    next
      case (4 f)
      then have "f \<in> set (pa_M s) \<or> f \<in># new" using M'(3) gs by auto
      then show ?case using b(4)[of f] gr'(5)[of "mm_vertex f"] gr'(6)[of f] by (auto simp: D)
    next
      case (5 x)
      then have x: "adist st x < INT_MAX" "\<not> closd (pa_states s) x" "x \<noteq> v" by (auto simp: D split: if_splits)
      have "\<exists>f. (f \<in> set (pa_M s) \<or> f \<in># new) \<and> mm_vertex f = x \<and> mm_key f = adist st x + ?h x"
        using gr'(7)[of x] b(5)[of x] x by auto
      then show ?case using old x(3) by (auto simp: D)
    qed
  qed (use pc in auto)
  then show ?thesis by (simp add: run)
qed

end


context search_graph
begin

lemma astep_refines:
  assumes gok: "ok gr" and pre: "pase_pre G max_weight h2 Hmax gr src dst"
    and core: "a_core G gr dst s" and inv: "ps_inv G (max_weight gr) INT_MAX gr src (aabs gr s)" and al: "a_lock s"
    and i: "i < length (pa_pcs s)"
  shows "asim eps h2 gr src dst s (pase_step G h2 gr dst i s)"
proof (cases "pa_pcs s ! i")
  case ALoop
  have "asim eps h2 gr src dst s (Inr (agoto i (if pa_is_done s then AExit else AFind) s))"
    by (rule asim_move[OF core i]) (use core ALoop in \<open>auto split: if_splits\<close>)
  then show ?thesis using ALoop by (simp add: pase_step_def)
next
  case AFind
  have "asim eps h2 gr src dst s (Inr (agoto i (AScan 0) (s\<lparr>pa_lock := Some i\<rparr>)))" if "pa_lock s = None"
    by (rule asim_move[OF core i]) (use core AFind that in \<open>auto simp: a_core_def\<close>)
  then show ?thesis using AFind asim_refl[OF core] by (simp add: pase_step_def)
next
  case (AScan k)
  then show ?thesis using astep_scan[OF gok pre core inv al i AScan] by (simp add: pase_step_def)
next
  case (AGot v j)
  have v: "0 \<le> v" "v < number_vertices G gr" "claimd (pa_states s) v"
    using a_hold[OF core inv i, of v j] AGot a_coreD(1)[OF core] by auto
  obtain pb where pb: "set_pebble (pa_pebbles s) v (int i) = Inr pb" "pebbles_ok (number_vertices G gr) pb"
    using set_pebble_ok[OF a_coreD(2)[OF core] v(1,2)] by blast
  let ?t = "if v = dst then s\<lparr>pa_pebbles := pb, pa_is_done := True\<rparr> else s\<lparr>pa_pebbles := pb\<rparr>"
  have "a_core G gr dst ?t" using core pb(2) v(3) by (auto simp: a_core_def)
  then have "asim eps h2 gr src dst s (Inr (agoto i (if v = dst then AFound v j else ARead v j) ?t))"
    by (intro asim_move[OF core i]) (use AGot in \<open>auto split: if_splits\<close>)
  then show ?thesis using AGot pb(1) by (simp add: pase_step_def split: if_splits)
next
  case (ARead v j)
  have hold: "ahold (pa_pcs s ! i) = Some (v, j)" using ARead by simp
  note v = a_hold[OF core inv i hold] and c = a_coreD[OF core]
  let ?d = "adist (pa_states s) v"
  obtain l where l: "neighbor_list G gr v = Inr l" using neighbors_ok[OF gok, of v] v c(1) by auto
  have "astep G gr (aabs gr s) (aabs gr (agoto i (ARelax v ?d j) s))"
    using astep.read[of "aabs gr s" v "sum_list (map (aacts (nbrs_of G gr)) (others i s))" G gr l] l aabs_frame(1)[OF i, of gr]
      aabs_frame(2)[OF i, of s gr "ARelax v ?d j"] ARead by (simp add: held_def nbrs_of_def) (simp add: amem_def)
  then have steps: "asteps G gr (aabs gr s) (aabs gr (agoto i (ARelax v ?d j) s))" by simp
  have "asim eps h2 gr src dst s (Inr (agoto i (ARelax v ?d j) s))"
  proof (rule asim_goto[OF a_core_others[OF core] i _ _ _ _ _ steps], goal_cases)
    case 6
    show ?case
      by (rule a_bound_goto[OF 6(2), of _ "ARelax v ?d j"])
        (use set_update_subset_insert a_boundD(1)[OF 6(2), of v] v(3) in fastforce)+
  qed (use ARead c(4,5)[OF nth_mem[OF i] hold] in auto)
  moreover have "pa_g (pa_states s ! nat v) = ?d" using v by (simp add: fld_def)
  ultimately show ?thesis using ARead v by (simp add: pase_step_def)
next
  case (ARelax v d j)
  then show ?thesis
    using astep_relax[OF gok pre core inv i ARelax] asim_refl[OF core] by (cases "pa_lock s = None") (auto simp: pase_step_def)
qed (use asim_refl[OF core] in \<open>auto simp: pase_step_def\<close>)

lemma astart_refines:
  assumes gok: "ok gr" and pre: "pase_pre G max_weight h2 Hmax gr src dst"
  shows "\<exists>s. pase_start G h2 gr src dst pebble n = Inr s \<and> a_core G gr dst s \<and> a_lock s \<and> length (pa_pcs s) = n \<and>
    aabs gr s = ps_init INT_MAX src (\<lambda>_. -1) \<and>
    (pair_consistent G eps h2 gr \<longrightarrow> a_bound G eps (\<lambda>u. h2 u dst) gr src (pa_states s) (set (pa_M s)) (set (pa_pcs s)))"
proof -
  let ?N = "number_vertices G gr"
  have src: "0 \<le> src" "src < ?N" using pre by (auto simp: pase_pre_def search_pre_def)
  let ?z = "\<lparr>pa_is_expanded = False, pa_being_expanded = False, pa_g = INT_MAX, pa_pred = -1\<rparr>"
  define st where "st = (pase_init ?N)[nat src := ?z\<lparr>pa_g := 0\<rparr>]"
  have len: "int (length st) = ?N" using src by (simp add: st_def pase_init_def)
  let ?e = "\<lparr>mm_key = h2 src dst, mm_vertex = src, mm_id = 0\<rparr>"
  let ?s = "\<lparr>pa_states = st, pa_M = [?e], pa_next = 1, pa_is_done = False, pa_lock = None,
    pa_pebbles = init_pebbles pebble ?N, pa_pcs = replicate n ALoop\<rparr>"
  have run: "pase_start G h2 gr src dst pebble n = Inr ?s"
    using src by (simp add: pase_start_def pase_init_def Let_def st_def insert_locked_def mm_insert_def)
  have D: "adist st = (\<lambda>v. if v = src then 0 else INT_MAX)" "fld pa_pred (-1) st = (\<lambda>_. -1)" "claimd st = (\<lambda>_. False)" "closd st = (\<lambda>_. False)"
    using src by (auto simp: fun_eq_iff st_def fld_update pase_init_def fld_replicate)
  have "sum_list (map held (replicate n ALoop)) = {#}" "sum_list (map (aacts (nbrs_of G gr)) (replicate n ALoop)) = {#}"
    by (simp_all add: sum_list_empty_mset held_def)
  then have "aabs gr ?s = ps_init INT_MAX src (\<lambda>_. -1)" by (simp add: aabs_def amem_def ps_init_def D open_entries_def)
  moreover have "a_core G gr dst ?s" using len src by (auto simp: a_core_def D mm_ok_def)
  moreover have "a_lock ?s" by (simp add: a_lock_def)
  moreover have "a_bound G eps (\<lambda>u. h2 u dst) gr src st {?e} (set (replicate n ALoop))"
    by (rule a_boundI) (auto simp: D split: if_splits)
  ultimately show ?thesis using run by simp
qed

lemma areach_refines:
  assumes gok: "ok gr" and pre: "pase_pre G max_weight h2 Hmax gr src dst"
    and r: "pase_reach G h2 gr src dst pebble n s"
  shows "a_core G gr dst s \<and> a_lock s \<and> length (pa_pcs s) = n \<and> asteps G gr (ps_init INT_MAX src (\<lambda>_. -1)) (aabs gr s) \<and>
    ps_inv G (max_weight gr) INT_MAX gr src (aabs gr s) \<and>
    (pair_consistent G eps h2 gr \<longrightarrow> a_bound G eps (\<lambda>u. h2 u dst) gr src (pa_states s) (set (pa_M s)) (set (pa_pcs s)))"
proof -
  have "search_pre G max_weight INT_MAX (\<lambda>u. h2 u dst) Hmax gr src" using pre by (simp add: pase_pre_def)
  note pp = pre_par[OF gok this]
  show ?thesis
    using r
  proof (induction rule: pase_reach.induct)
    case (areach_start s)
    then show ?case using astart_refines[OF gok pre, of pebble n eps] ps_inv_init[OF pp gok] by auto
  next
    case (areach_step s i t)
    then have inv: "ps_inv G (max_weight gr) INT_MAX gr src (aabs gr s)" and core: "a_core G gr dst s" and al: "a_lock s"
      and i: "i < length (pa_pcs s)" by auto
    have "asim eps h2 gr src dst s (Inr t)" using astep_refines[OF gok pre core inv al i] areach_step.hyps(3) by simp
    then have t: "a_core G gr dst t" "length (pa_pcs t) = length (pa_pcs s)" "a_lock t" "asteps G gr (aabs gr s) (aabs gr t)"
      "pair_consistent G eps h2 gr \<and> a_bound G eps (\<lambda>u. h2 u dst) gr src (pa_states s) (set (pa_M s)) (set (pa_pcs s)) \<longrightarrow>
        a_bound G eps (\<lambda>u. h2 u dst) gr src (pa_states t) (set (pa_M t)) (set (pa_pcs t))"
      using al by (auto simp: asim_def)
    have "asteps G gr (ps_init INT_MAX src (\<lambda>_. -1)) (aabs gr t)" using areach_step.IH t(4) by (elim conjE) (rule rtranclp_trans)
    then show ?case using areach_step.IH asteps_inv[OF gok pp inv t(4)] t by blast
  qed
qed

lemma areach_step_ok:
  assumes gok: "ok gr" and pre: "pase_pre G max_weight h2 Hmax gr src dst"
    and r: "pase_reach G h2 gr src dst pebble n s" and i: "i < n"
  shows "\<exists>t. pase_step G h2 gr dst i s = Inr t \<and> (aabs gr t = aabs gr s \<or> (aabs gr t, aabs gr s) \<in> ps_less G gr)"
proof -
  have "search_pre G max_weight INT_MAX (\<lambda>u. h2 u dst) Hmax gr src" using pre by (simp add: pase_pre_def)
  note pp = pre_par[OF gok this]
  have c: "a_core G gr dst s" "a_lock s" "i < length (pa_pcs s)" "ps_inv G (max_weight gr) INT_MAX gr src (aabs gr s)"
    using areach_refines[OF gok pre r] i by auto
  from astep_refines[OF gok pre c(1,4,2,3), of 1] obtain t where "pase_step G h2 gr dst i s = Inr t" "asteps G gr (aabs gr s) (aabs gr t)"
    by (auto simp: asim_def)
  then show ?thesis using asteps_decrease[OF gok pp c(4)] by blast
qed

lemma adst_claimed:
  assumes gok: "ok gr" and pre: "pase_pre G max_weight h2 Hmax gr src dst"
    and r: "pase_reach G h2 gr src dst pebble n s" and n: "0 < n" and f: "pase_finished s"
  shows "claimd (pa_states s) dst"
proof -
  have c: "a_core G gr dst s" "length (pa_pcs s) = n" "ps_inv G (max_weight gr) INT_MAX gr src (aabs gr s)"
    using areach_refines[OF gok pre r] by auto
  have p: "pa_pcs s ! 0 \<in> set (pa_pcs s)" using c(2) n by (intro nth_mem) simp
  show ?thesis
  proof (cases "pa_pcs s ! 0")
    case (AFound v j)
    then have "v = dst" using a_coreD(7)[OF c(1)] p by simp
    then show ?thesis using a_hold(3)[OF c(1,3), of 0 v j] AFound c(2) n by simp
  next
    case AExit
    then show ?thesis using a_coreD(8,9)[OF c(1)] p by simp
  qed (use f p in \<open>auto simp: pase_finished_def\<close>)
qed

lemma afinished_result:
  assumes gok: "ok gr" and pre: "pase_pre G max_weight h2 Hmax gr src dst"
    and r: "pase_reach G h2 gr src dst pebble n s" and n: "0 < n" and f: "pase_finished s"
  shows "\<exists>D P. result_tree G INT_MAX gr src dst (PASEResult (pa_states s) (pa_pebbles s)) D P \<and>
    (pair_consistent G eps h2 gr \<longrightarrow> (\<forall>c. path G gr src dst c \<longrightarrow> real_of_int (D dst) \<le> eps * real_of_int c))"
proof -
  let ?D = "ps_D (aabs gr s)" and ?P = "ps_P (aabs gr s)"
  note w = areach_refines[OF gok pre r, of eps]
  have c: "a_core G gr dst s" and inv: "ps_inv G (max_weight gr) INT_MAX gr src (aabs gr s)" using w by auto
  have cl: "claimd (pa_states s) dst" by (rule adst_claimed[OF gok pre r n f])
  then have "dst \<in> ps_X (aabs gr s)" by (simp add: aabs_def)
  moreover have "res_g (PASEResult (pa_states s) (pa_pebbles s)) v = Inr (?D v) \<and>
    res_predecessor (PASEResult (pa_states s) (pa_pebbles s)) v = Inr (?P v)"
    if "0 \<le> v" "v < number_vertices G gr" for v
    using a_coreD(1)[OF c] that by (simp add: PASEResult_def aabs_def fld_def)
  ultimately have "result_tree G INT_MAX gr src dst (PASEResult (pa_states s) (pa_pebbles s)) ?D ?P"
    by (intro claimed_result[OF inv])
  moreover have "real_of_int (?D dst) \<le> eps * real_of_int c" if "pair_consistent G eps h2 gr" "path G gr src dst c" for c
    using a_boundD(1)[of G eps "\<lambda>u. h2 u dst" gr src "pa_states s" _ _ dst c] w that cl by (auto simp: aabs_def)
  ultimately show ?thesis by blast
qed

lemma aidle_claimed:
  assumes gok: "ok gr" and pre: "pase_pre G max_weight h2 Hmax gr src dst"
    and r: "pase_reach G h2 gr src dst pebble n s" and idle: "pa_M s = []" and p: "path G gr src v c"
  shows "claimd (pa_states s) v"
proof -
  have c: "a_core G gr dst s" and inv: "ps_inv G (max_weight gr) INT_MAX gr src (aabs gr s)"
    using areach_refines[OF gok pre r] by auto
  have none: "ahold pc = None" if "pc \<in> set (pa_pcs s)" for pc
    using a_coreD(5)[OF c that] idle by (cases "ahold pc") auto
  have "ps_Q (aabs gr s) = {#}" "ps_A (aabs gr s) = {#}"
    using idle none held_None by (auto simp: aabs_def sum_list_empty_mset open_entries_def)
  from quiescent_complete[OF inv _ this p] show ?thesis by (simp add: aabs_def INT_MAX_def)
qed

end

end
