(* ===== verification/Pase_Grid.thy ===== *)
theory Pase_Grid
  imports Pase
begin

text \<open>
  The parallel A* for slow expansions (\<open>src/src/pase.hpp\<close>) on the octile grid with the weighted
  Euclidean heuristic between two vertices, as \<open>src/test/grid/src/grid_main.cpp\<close> runs it.
\<close>

abbreviation pase_euclid :: "Graph \<Rightarrow> real \<Rightarrow> int \<Rightarrow> int \<Rightarrow> int" where
  "pase_euclid g w \<equiv> \<lambda>u v. euclid_heuristic g w v u"

lemma euclid_pase_pre:
  assumes g: "graph_ok octile_weight g" and fit: "euclid_fits g w Hmax"
    and v: "0 \<le> src" "src < int (length (vertices g))" "0 \<le> dst" "dst < int (length (vertices g))"
    and fits: "int (length (vertices g)) * 14142 + Hmax < INT_MAX"
  shows "pase_pre grid_ops (\<lambda>g. 14142) (pase_euclid g w) Hmax g src dst"
  using euclid_search_pre[OF g fit v(1,2) _ _ fits] v by (simp add: pase_pre_def grid_ops_def)

lemma euclid_pair_consistent:
  assumes g: "graph_ok octile_weight g" and fit: "euclid_fits g w Hmax" and w: "1 \<le> w"
  shows "pair_consistent grid_ops (1.00001 * w + 0.0001) (pase_euclid g w) g"
proof -
  have gr: "grid_ok g" using g by (simp add: graph_ok_def)
  have "eps_consistent grid_ops (1.00001 * w + 0.0001) (\<lambda>u. euclid_heuristic g w v u) g \<and> euclid_heuristic g w v v = 0"
    if v: "0 \<le> v" "v < int (length (vertices g))" for v
  proof
    have nv: "nat v < length (vertices g)" "int (nat v) = v" using v by auto
    show "eps_consistent grid_ops (1.00001 * w + 0.0001) (\<lambda>u. euclid_heuristic g w v u) g"
      using euclid_consistent[OF g fit nv(1)] unfolding nv(2) .
    show "euclid_heuristic g w v v = 0"
      using weighted_euclidean_value(1)[OF gr fit nv(1) nv(1), unfolded nv(2)] by (simp add: euclid_heuristic_def euclid_def)
  qed
  then show ?thesis using w by (simp add: pair_consistent_def grid_ops_def)
qed

lemma pase_reach_efold:
  assumes "pase_reach G h gr src dst pebble n s" "efold (pase_step G h gr dst) is s = Inr t" "\<forall>i \<in> set is. i < n"
  shows "pase_reach G h gr src dst pebble n t"
  using assms
proof (induction "is" arbitrary: s)
  case (Cons i "is")
  then obtain s1 where "pase_step G h gr dst i s = Inr s1" "efold (pase_step G h gr dst) is s1 = Inr t"
    by (auto simp: result_simps)
  moreover from this have "pase_reach G h gr src dst pebble n s1"
    by (intro areach_step[OF Cons.prems(1), of i]) (use Cons.prems(3) in auto)
  ultimately show ?case using Cons.IH[of s1] Cons.prems(3) by simp
qed simp

section \<open>Properties\<close>

text \<open>
  C14. No interleaving of the workers of \<open>pase\<close> on a grid fails: in every reachable state, whatever
  worker moves next, its step has no overflow (the independence check \<open>g(u) + h(u,v)\<close> included), no
  access outside an array and no \<open>erase\<close> through an iterator whose entry is gone, although iterators
  are kept over the critical sections of other workers. At most one worker is in the scan at a
  time. A step is a sequence of steps of the abstract search; those that change it decrease a
  well-founded measure.
\<close>

theorem pase_safe:
  assumes "graph_ok octile_weight gr" "pase_pre grid_ops (\<lambda>g. 14142) h2 Hmax gr src dst"
    "pase_reach grid_ops h2 gr src dst pebble n s" "i < n"
  shows "\<exists>t. pase_step grid_ops h2 gr dst i s = Inr t \<and> a_lock t \<and>
    (og.aabs gr t = og.aabs gr s \<or> (og.aabs gr t, og.aabs gr s) \<in> ps_less grid_ops gr) \<and> wf (ps_less grid_ops gr)"
proof -
  obtain t where t: "pase_step grid_ops h2 gr dst i s = Inr t"
    "og.aabs gr t = og.aabs gr s \<or> (og.aabs gr t, og.aabs gr s) \<in> ps_less grid_ops gr"
    using og.areach_step_ok[OF assms] by blast
  have "a_lock t" using og.areach_refines[OF assms(1,2) areach_step[OF assms(3,4) t(1)]] by (rule conjunct2[THEN conjunct1])
  then show ?thesis using t by (intro exI conjI wf_ps_less)
qed

definition pase_run :: "(int \<Rightarrow> int \<Rightarrow> int) \<Rightarrow> int \<Rightarrow> nat list \<Rightarrow> pase result" where
  "pase_run h2 dst schedule = ebind (pase_start grid_ops h2 two_cells 0 dst True 2)
     (efold (pase_step grid_ops h2 two_cells dst) schedule)"

lemma pase_run_reach:
  assumes "pase_run h2 dst schedule = Inr s" "\<forall>i \<in> set schedule. i < 2"
  shows "pase_reach grid_ops h2 two_cells 0 dst True 2 s"
proof -
  obtain s0 where "pase_start grid_ops h2 two_cells 0 dst True 2 = Inr s0" "efold (pase_step grid_ops h2 two_cells dst) schedule s0 = Inr s"
    using assms(1) by (auto simp: pase_run_def result_simps)
  then show ?thesis using assms(2) by (intro pase_reach_efold[OF areach_start])
qed

lemma two_cells_pase_pre: "\<lbrakk>0 \<le> dst; dst < 2\<rbrakk> \<Longrightarrow> pase_pre grid_ops (\<lambda>g. 14142) (\<lambda>u v. 0) 0 two_cells 0 dst"
  using two_cells_pre by (simp add: pase_pre_def grid_ops_def two_cells_def)

lemma pase_scan_example:
  "case pase_run (\<lambda>u v. 0) 1 [0, 0, 0, 1, 1] of Inl e \<Rightarrow> False | Inr s \<Rightarrow> pa_pcs s = [AGot 0 0, AScan 0]"
  by code_simp

theorem pase_safe_witness:
  "\<exists>s t. pase_run (\<lambda>u v. 0) 1 [0, 0, 0, 1, 1] = Inr s \<and> pase_step grid_ops (\<lambda>u v. 0) two_cells 1 1 s = Inr t \<and> a_lock t"
proof -
  obtain s where s: "pase_run (\<lambda>u v. 0) 1 [0, 0, 0, 1, 1] = Inr s" using pase_scan_example by (auto split: sum.splits)
  have r: "pase_reach grid_ops (\<lambda>u v. 0) two_cells 0 1 True 2 s" by (rule pase_run_reach[OF s]) simp
  have "\<exists>t. pase_step grid_ops (\<lambda>u v. 0) two_cells 1 1 s = Inr t \<and> a_lock t"
    using pase_safe[OF two_cells_ok two_cells_pase_pre r, of 1] by auto
  then show ?thesis using s by blast
qed

text \<open>
  C13. Bounded suboptimality of \<open>pase\<close>: when all workers have returned, whatever the schedule was,
  the result holds a real path to the destination, and the reported distance is within the factor
  \<open>1.00001 w + 0.0001\<close> of the cost of every path, the same factor as for the sequential search: the
  independence check makes expansions out of order harmless.
\<close>

theorem pase_within_factor:
  assumes "graph_ok octile_weight g" "euclid_fits g w Hmax" "1 \<le> w"
    "0 \<le> src" "src < int (length (vertices g))" "0 \<le> dst" "dst < int (length (vertices g))"
    "int (length (vertices g)) * 14142 + Hmax < INT_MAX"
    "pase_reach grid_ops (pase_euclid g w) g src dst pebble n s" "0 < n" "pase_finished s"
  shows "\<exists>d len. res_g (PASEResult (pa_states s) (pa_pebbles s)) dst = Inr d \<and>
    pathlen g (PASEResult (pa_states s) (pa_pebbles s)) src dst = Some (Inr len) \<and> path grid_ops g src dst len \<and> len \<le> d \<and>
    (\<forall>c. path grid_ops g src dst c \<longrightarrow> real_of_int d \<le> (1.00001 * w + 0.0001) * real_of_int c)"
proof -
  let ?r = "PASEResult (pa_states s) (pa_pebbles s)"
  note pre = euclid_pase_pre[OF assms(1,2,4-8)]
  obtain D P where r: "result_tree grid_ops INT_MAX g src dst ?r D P"
    "\<forall>c. path grid_ops g src dst c \<longrightarrow> real_of_int (D dst) \<le> (1.00001 * w + 0.0001) * real_of_int c"
    using og.afinished_result[OF assms(1) pre assms(9-11)] euclid_pair_consistent[OF assms(1-3)] by blast
  have "res_g ?r dst = Inr (D dst)" using r(1) assms(6,7) by (simp add: result_tree_def grid_ops_def)
  then show ?thesis using pathlen_tree[OF assms(1) r(1)] r(2) by auto
qed


text \<open>The heuristic on the two-cell grid, written out.\<close>

definition two_heuristic :: "int \<Rightarrow> int \<Rightarrow> int" where
  "two_heuristic u v = (if {u, v} = {0, 1} then 10000 else 0)"

lemma two_cells_euclid: "pase_euclid two_cells 1 = two_heuristic"
proof (intro ext)
  fix u v :: int
  have g: "grid_ok two_cells" using two_cells_ok by (simp add: graph_ok_def)
  have f: "euclid_fits two_cells 1 30000" by (simp add: euclid_fits_def two_cells_def INT_MAX_def)
  show "pase_euclid two_cells 1 u v = two_heuristic u v"
  proof (cases "u \<in> {0, 1} \<and> v \<in> {0, 1}")
    case True
    have "weighted_euclidean two_cells 1 (int i) (int j) = Inr \<lfloor>10000 * euclid (vertices two_cells ! i) (vertices two_cells ! j)\<rfloor>"
      if "i < 2" "j < 2" for i j
      using weighted_euclidean_value(1)[OF g f, of i j] that by (simp add: two_cells_def)
    from this[of "nat u" "nat v"] True show ?thesis
      by (auto simp: euclid_heuristic_def two_heuristic_def two_cells_def euclid_def)
  next
    case False
    then have "\<exists>e. weighted_euclidean two_cells 1 u v = Inl e"
      by (auto simp: weighted_euclidean_def coords_of_def arr_get_def two_cells_def)
    then show ?thesis using False by (auto simp: euclid_heuristic_def two_heuristic_def)
  qed
qed

definition pase_example :: "nat list" where
  "pase_example = [0, 0, 0, 1, 1, 0, 0, 1, 1, 0, 1, 1, 1, 1, 0]"

lemma pase_example_finished: "case pase_run two_heuristic 1 pase_example of Inl e \<Rightarrow> False | Inr s \<Rightarrow> pase_finished s"
  by code_simp

theorem pase_within_factor_witness:
  "\<exists>s d len. pase_run two_heuristic 1 pase_example = Inr s \<and> pase_finished s \<and>
     res_g (PASEResult (pa_states s) (pa_pebbles s)) 1 = Inr d \<and>
     pathlen two_cells (PASEResult (pa_states s) (pa_pebbles s)) 0 1 = Some (Inr len) \<and> len \<le> d \<and>
     real_of_int d \<le> 1.00011 * 10000"
proof -
  obtain s where s: "pase_run two_heuristic 1 pase_example = Inr s" "pase_finished s"
    using pase_example_finished by (auto split: sum.splits)
  have r: "pase_reach grid_ops (pase_euclid two_cells 1) two_cells 0 1 True 2 s"
    unfolding two_cells_euclid by (rule pase_run_reach[OF s(1)]) (simp add: pase_example_def)
  have f: "euclid_fits two_cells 1 30000" by (simp add: euclid_fits_def two_cells_def INT_MAX_def)
  have p: "path grid_ops two_cells 0 1 10000" by (rule path_edge[OF two_cells_edge])
  show ?thesis using pase_within_factor[OF two_cells_ok f _ _ _ _ _ _ r _ s(2)] s p
    by (fastforce simp: two_cells_def INT_MAX_def)
qed

text \<open>
  C15. No work is lost: a reachable state of \<open>pase\<close> whose multimap is empty has taken every vertex
  that can be reached from the source for expansion.
\<close>

theorem pase_no_lost_work:
  assumes "graph_ok octile_weight gr" "pase_pre grid_ops (\<lambda>g. 14142) h2 Hmax gr src dst"
    "pase_reach grid_ops h2 gr src dst pebble n s" "pa_M s = []" "path grid_ops gr src v c"
  shows "fld pa_being_expanded False (pa_states s) v"
  by (rule og.aidle_claimed[OF assms])

text \<open>Two cells with an obstacle between them: the destination cannot be reached, and the queue drains.\<close>

definition apart_cells :: Graph where
  "apart_cells = \<lparr>grid = [[0, OBSTACLE, 1]], vertices = [\<lparr>row = 0, col = 0\<rparr>, \<lparr>row = 0, col = 2\<rparr>], height = 1, width = 3,
     neighbor_offsets = [0, 0, 0], neighbors = []\<rparr>"

lemma apart_cells_load: "map_ok [''.@.''] 3" "Graph_load (map_text [''.@.''] 3) = Inr apart_cells"
  by code_simp+

lemma apart_cells_ok: "graph_ok octile_weight apart_cells"
  using load_map[OF apart_cells_load(1), of octile_weight] apart_cells_load(2) by (auto simp: Graph_load_def)

lemma pase_drained:
  "case ebind (pase_start grid_ops (\<lambda>u v. 0) apart_cells 0 1 False 1) (efold (pase_step grid_ops (\<lambda>u v. 0) apart_cells 1) (replicate 6 0)) of
     Inl e \<Rightarrow> False | Inr s \<Rightarrow> pa_M s = []"
  by code_simp

theorem pase_no_lost_work_witness:
  "\<exists>s. pase_reach grid_ops (\<lambda>u v. 0) apart_cells 0 1 False 1 s \<and> pa_M s = [] \<and> fld pa_being_expanded False (pa_states s) 0"
proof -
  obtain s0 s where s: "pase_start grid_ops (\<lambda>u v. 0) apart_cells 0 1 False 1 = Inr s0"
    "efold (pase_step grid_ops (\<lambda>u v. 0) apart_cells 1) (replicate 6 0) s0 = Inr s" "pa_M s = []"
    using pase_drained by (auto simp: result_simps split: sum.splits)
  have r: "pase_reach grid_ops (\<lambda>u v. 0) apart_cells 0 1 False 1 s" by (rule pase_reach_efold[OF areach_start[OF s(1)] s(2)]) simp
  have pre: "pase_pre grid_ops (\<lambda>g. 14142) (\<lambda>u v. 0) 0 apart_cells 0 1"
    by (simp add: pase_pre_def search_pre_def grid_ops_def apart_cells_def INT_MAX_def)
  show ?thesis using pase_no_lost_work[OF apart_cells_ok pre r s(3) path_refl] r s(3) by blast
qed

end
