(* ===== verification/Grid_Main.thy ===== *)
theory Grid_Main
  imports Wpanre Pwsa_Simple Pase_Grid
begin

text \<open>
  The driver \<open>src/test/grid/src/grid_main.cpp\<close>: it loads a map, looks up source and destination, runs the
  search the command line names and prints the number of expanded vertices and the length of the path.
  The values of the command line, which a library parses, are a record, with the contents of the map
  file in place of its name. A parallel search may have many results: running it is a relation. The
  search with 0.0 seconds per expansion (\<open>exptime\<close>) is the one modelled everywhere.
\<close>

section \<open>The program\<close>

record options =
  opt_K :: int
  opt_D :: int
  opt_map :: string
  opt_cost :: string
  opt_sr :: int
  opt_sc :: int
  opt_dr :: int
  opt_dc :: int
  opt_w :: real
  opt_opt :: real
  opt_visualize :: string
  opt_algo :: string

definition opt_pebble :: "options \<Rightarrow> bool" where
  "opt_pebble opts \<longleftrightarrow> opt_visualize opts \<noteq> []"

text \<open>The default values; the default map is a file.\<close>

definition default_options :: "string \<Rightarrow> string \<Rightarrow> options" where
  "default_options map_file algo = \<lparr>opt_K = 8, opt_D = 1, opt_map = map_file, opt_cost = ''unit'', opt_sr = 1, opt_sc = 1,
     opt_dr = 1, opt_dc = 1, opt_w = 1, opt_opt = 1, opt_visualize = [], opt_algo = algo\<rparr>"

definition endpoints :: "options \<Rightarrow> Graph \<Rightarrow> (Graph \<times> int \<times> int) result" where
  "endpoints opts G =
     ebind (vertex_at G (opt_sr opts) (opt_sc opts)) (\<lambda>src. ebind (vertex_at G (opt_dr opts) (opt_dc opts)) (\<lambda>dst.
       if src = -1 \<or> dst = -1 then Inl ExitFailure else Inr (G, src, dst)))"

definition unit_init :: "options \<Rightarrow> (Graph \<times> int \<times> int) result" where
  "unit_init opts = ebind (Graph_load (opt_map opts)) (endpoints opts)"

definition life_init :: "options \<Rightarrow> (LifeGraph \<times> int \<times> int) result" where
  "life_init opts = ebind (LifeGraph_load (opt_map opts)) (endpoints opts)"

definition main_init :: "options \<Rightarrow> (Graph \<times> int \<times> int) result" where
  "main_init opts = (if opt_cost opts = ''unit'' then unit_init opts
     else if opt_cost opts = ''life'' then life_init opts else Inl ExitFailure)"

text \<open>What a search on \<open>n\<close> workers may give: its result when all workers have returned, or the error of a step.\<close>

inductive unit_search :: "options \<Rightarrow> nat \<Rightarrow> Graph \<Rightarrow> int \<Rightarrow> int \<Rightarrow> SearchResult result \<Rightarrow> bool"
  for opts :: options and n :: nat and G :: Graph and src dst :: int where
  us_astar: "\<lbrakk>opt_algo opts = ''wA*''; astar bin_heap_ops grid_ops (euclid_heuristic G (opt_w opts) dst) G src dst (opt_pebble opts) = Some r\<rbrakk> \<Longrightarrow>
    unit_search opts n G src dst r"
| us_wpanre: "\<lbrakk>opt_algo opts = ''wPA*NRE'';
    wpanre_reach bin_heap_ops grid_ops (euclid_heuristic G (opt_w opts) dst) G src dst (opt_pebble opts) n s; wpanre_finished s\<rbrakk> \<Longrightarrow>
    unit_search opts n G src dst (Inr (WPANREResult (ws_states s) (ws_pebbles s)))"
| us_wpanre_error: "\<lbrakk>opt_algo opts = ''wPA*NRE'';
    wpanre_reach bin_heap_ops grid_ops (euclid_heuristic G (opt_w opts) dst) G src dst (opt_pebble opts) n s; i < n;
    wpanre_step bin_heap_ops grid_ops (euclid_heuristic G (opt_w opts) dst) G dst i s = Inl e\<rbrakk> \<Longrightarrow>
    unit_search opts n G src dst (Inl e)"
| us_pase: "\<lbrakk>opt_algo opts = ''wPA*SE''; pase_reach grid_ops (pase_euclid G (opt_w opts)) G src dst (opt_pebble opts) n t; pase_finished t\<rbrakk> \<Longrightarrow>
    unit_search opts n G src dst (Inr (PASEResult (pa_states t) (pa_pebbles t)))"
| us_pase_error: "\<lbrakk>opt_algo opts = ''wPA*SE''; pase_reach grid_ops (pase_euclid G (opt_w opts)) G src dst (opt_pebble opts) n t; i < n;
    pase_step grid_ops (pase_euclid G (opt_w opts)) G dst i t = Inl e\<rbrakk> \<Longrightarrow> unit_search opts n G src dst (Inl e)"
| us_pwsa: "\<lbrakk>opt_algo opts = ''wPWSA*'';
    pwsa_pc bin_heap_ops grid_ops (euclid_heuristic G (opt_w opts) dst) G src dst (opt_K opts) (opt_D opts) (opt_pebble opts) n u; pw_finished n u\<rbrakk> \<Longrightarrow>
    unit_search opts n G src dst (Inr (pwsa_result u))"
| us_pwsa_error: "\<lbrakk>opt_algo opts = ''wPWSA*'';
    pwsa_pc bin_heap_ops grid_ops (euclid_heuristic G (opt_w opts) dst) G src dst (opt_K opts) (opt_D opts) (opt_pebble opts) n u; i < n;
    pw_step (pwsa_client bin_heap_ops grid_ops INT_MAX False (euclid_heuristic G (opt_w opts) dst) G dst (opt_K opts) (opt_D opts)) n rnd i u = Inl e\<rbrakk> \<Longrightarrow>
    unit_search opts n G src dst (Inl e)"
| us_simple: "\<lbrakk>opt_algo opts = ''simple_wPWSA*'';
    pwsa bin_heap_ops grid_ops (euclid_heuristic G (opt_w opts) dst) G src dst (opt_K opts) (opt_D opts) (opt_pebble opts) n v; pw_finished n v\<rbrakk> \<Longrightarrow>
    unit_search opts n G src dst (Inr (pwsa_result v))"
| us_simple_error: "\<lbrakk>opt_algo opts = ''simple_wPWSA*'';
    pwsa bin_heap_ops grid_ops (euclid_heuristic G (opt_w opts) dst) G src dst (opt_K opts) (opt_D opts) (opt_pebble opts) n v; i < n;
    pw_step (simple_client bin_heap_ops grid_ops (euclid_heuristic G (opt_w opts) dst) G dst (opt_K opts) (opt_D opts)) n rnd i v = Inl e\<rbrakk> \<Longrightarrow>
    unit_search opts n G src dst (Inl e)"

inductive life_search :: "options \<Rightarrow> nat \<Rightarrow> LifeGraph \<Rightarrow> int \<Rightarrow> int \<Rightarrow> SearchResult result \<Rightarrow> bool"
  for opts :: options and n :: nat and LG :: LifeGraph and src dst :: int where
  ls_astar: "\<lbrakk>opt_algo opts = ''wA*''; astarT bin_heap_ops grid_ops LONG_MAX (manhattan_heuristic LG (opt_w opts) dst) LG src dst (opt_pebble opts) = Some r\<rbrakk> \<Longrightarrow>
    life_search opts n LG src dst r"
| ls_pwsa: "\<lbrakk>opt_algo opts = ''wPWSA*'';
    pwsa_pcT bin_heap_ops grid_ops LONG_MAX (manhattan_heuristic LG (opt_w opts) dst) LG src dst (opt_K opts) (opt_D opts) (opt_pebble opts) n u; pw_finished n u\<rbrakk> \<Longrightarrow>
    life_search opts n LG src dst (Inr (pwsa_result u))"
| ls_pwsa_error: "\<lbrakk>opt_algo opts = ''wPWSA*'';
    pwsa_pcT bin_heap_ops grid_ops LONG_MAX (manhattan_heuristic LG (opt_w opts) dst) LG src dst (opt_K opts) (opt_D opts) (opt_pebble opts) n u; i < n;
    pw_step (pwsa_client bin_heap_ops grid_ops LONG_MAX True (manhattan_heuristic LG (opt_w opts) dst) LG dst (opt_K opts) (opt_D opts)) n rnd i u = Inl e\<rbrakk> \<Longrightarrow>
    life_search opts n LG src dst (Inl e)"

definition main_run :: "options \<Rightarrow> nat \<Rightarrow> Graph \<Rightarrow> int \<Rightarrow> int \<Rightarrow> SearchResult result \<Rightarrow> bool" where
  "main_run opts n G src dst r \<longleftrightarrow>
     (if opt_cost opts = ''unit'' then unit_search opts n G src dst r
      else if opt_cost opts = ''life'' then life_search opts n G src dst r else r = Inl ExitFailure)"

text \<open>The report: the counter, the length of the path and its ratio to the known optimum, and the dump file if asked for.\<close>

record report =
  num_expanded :: int
  rep_pathlen :: real
  deviation :: real
  dump :: "string option"

definition count_expanded :: "Graph \<Rightarrow> SearchResult \<Rightarrow> int result" where
  "count_expanded G result = efold (\<lambda>i k. ebind (res_is_expanded result (int i)) (\<lambda>b. Inr (if b then k + 1 else k)))
     [0..<nat (number_vertices grid_ops G)] 0"

definition output_with :: "(Graph \<Rightarrow> SearchResult \<Rightarrow> int \<Rightarrow> int \<Rightarrow> int result option) \<Rightarrow>
    (Graph \<Rightarrow> SearchResult \<Rightarrow> int \<Rightarrow> int \<Rightarrow> string result option) \<Rightarrow> options \<Rightarrow> Graph \<Rightarrow> int \<Rightarrow> int \<Rightarrow> SearchResult \<Rightarrow> report result option" where
  "output_with len_of dump_of opts G src dst result =
     (case count_expanded G result of Inl e \<Rightarrow> Some (Inl e)
      | Inr k \<Rightarrow> (case len_of G result src dst of None \<Rightarrow> None | Some (Inl e) \<Rightarrow> Some (Inl e)
        | Some (Inr len) \<Rightarrow> (let p = real_of_int len / 10000; rep = \<lparr>num_expanded = k, rep_pathlen = p, deviation = p / opt_opt opts, dump = None\<rparr> in
            if opt_pebble opts then map_option (\<lambda>d. ebind d (\<lambda>t. Inr (rep\<lparr>dump := Some t\<rparr>))) (dump_of G result src dst)
            else Some (Inr rep))))"

definition main_output :: "options \<Rightarrow> Graph \<Rightarrow> int \<Rightarrow> int \<Rightarrow> SearchResult \<Rightarrow> report result option" where
  "main_output opts = (if opt_cost opts = ''unit'' then output_with pathlen pebble_dump opts
     else output_with life_pathlen life_pebble_dump opts)"

section \<open>The report of a search\<close>

lemma endpoint_range:
  assumes g: "grid_ok G" and v: "vertex_at G r c = Inr v" "v \<noteq> -1"
  shows "0 \<le> v \<and> v < int (length (vertices G))"
proof -
  obtain cs where cs: "arr_get (grid G) r = Inr cs" "arr_get cs c = Inr v" using v(1) by (auto simp: vertex_at_def cell_def result_simps)
  then have r: "0 \<le> r" "r < height G" "cs \<in> set (grid G)" using g by (auto simp: grid_ok_def result_simps)
  then have c: "0 \<le> c" "c < width G" using g cs(2) by (auto simp: grid_ok_def result_simps)
  have "v = cell_at G r c" using cell_ok[OF g r(1,2) c] v(1) by (simp add: vertex_at_def)
  then show ?thesis using g r c v(2) unfolding grid_ok_def OBSTACLE_def by auto
qed

text \<open>In the results of all searches the flags are there wherever the distances are, and the pebbles for every vertex.\<close>

definition flags_ok :: "Graph \<Rightarrow> SearchResult \<Rightarrow> bool" where
  "flags_ok G res \<longleftrightarrow> (\<forall>v x. res_g res v = Inr x \<longrightarrow> (\<exists>b. res_is_expanded res v = Inr b)) \<and>
     (\<forall>v. 0 \<le> v \<and> v < int (length (vertices G)) \<longrightarrow> (\<exists>x. res_pebble res v = Inr x))"

lemma flags_defined:
  assumes "pebbles_ok (int (length (vertices G))) p"
  shows "flags_ok G (AStarResult a p)" "flags_ok G (WPANREResult wp p)" "flags_ok G (PASEResult pa p)" "flags_ok G (PWSAResult pw p)"
  using pebble_of_ok[OF assms]
  by (auto simp: flags_ok_def AStarResult_def WPANREResult_def PASEResult_def PWSAResult_def result_simps)

lemma count_expanded_ok:
  assumes "\<And>v. \<lbrakk>0 \<le> v; v < int (length (vertices G))\<rbrakk> \<Longrightarrow> \<exists>b. res_is_expanded res v = Inr b"
  shows "\<exists>k. count_expanded G res = Inr k \<and> 0 \<le> k \<and> k \<le> int (length (vertices G))"
proof -
  let ?f = "\<lambda>i k. ebind (res_is_expanded res (int i)) (\<lambda>b. Inr (if b then k + 1 else k))"
  have "\<exists>k. efold ?f [0..<length (vertices G)] 0 = Inr k \<and> 0 \<le> k \<and> k \<le> int (length [0..<length (vertices G)])"
  proof (rule efold_invariant[where I = "\<lambda>xs k. 0 \<le> k \<and> k \<le> int (length xs)"])
    fix pre i k assume "\<exists>post. [0..<length (vertices G)] = pre @ i # post" and k: "0 \<le> k \<and> k \<le> int (length pre)"
    then have "i \<in> set [0..<length (vertices G)]" by (metis in_set_conv_decomp)
    then obtain b where "res_is_expanded res (int i) = Inr b" using assms[of "int i"] by auto
    then show "\<exists>k'. ?f i k = Inr k' \<and> 0 \<le> k' \<and> k' \<le> int (length (pre @ [i]))" using k by auto
  qed simp
  then show ?thesis by (simp add: count_expanded_def grid_ops_def)
qed

text \<open>Every result of the four searches with guarantees is a search tree, bounded for two of them.\<close>

definition tree_algos :: "string set" where
  "tree_algos = {''wA*'', ''wPA*NRE'', ''wPA*SE'', ''wPWSA*''}"

definition bounded_algos :: "string set" where
  "bounded_algos = {''wA*'', ''wPA*SE''}"

definition good_result :: "options \<Rightarrow> Graph \<Rightarrow> int \<Rightarrow> int \<Rightarrow> SearchResult \<Rightarrow> bool" where
  "good_result opts G src dst res \<longleftrightarrow> (\<exists>D P. result_tree grid_ops INT_MAX G src dst res D P \<and>
     (opt_algo opts \<in> bounded_algos \<longrightarrow> (\<forall>c. path grid_ops G src dst c \<longrightarrow> real_of_int (D dst) \<le> (1.00001 * opt_w opts + 0.0001) * real_of_int c))) \<and>
     flags_ok G res"

lemma unit_search_good:
  assumes g: "graph_ok octile_weight G" and fit: "euclid_fits G (opt_w opts) Hmax" and w: "1 \<le> opt_w opts"
    and v: "0 \<le> src" "src < int (length (vertices G))" "0 \<le> dst" "dst < int (length (vertices G))"
    and fits: "int (length (vertices G)) * 14142 + Hmax < INT_MAX" and K: "1 \<le> opt_K opts" and n: "0 < n"
    and algo: "opt_algo opts \<in> tree_algos" and r: "unit_search opts n G src dst r"
  shows "case r of Inl e \<Rightarrow> e = AssertFail \<and> opt_algo opts \<in> {''wA*'', ''wPWSA*''} | Inr res \<Rightarrow> good_result opts G src dst res"
proof -
  let ?h = "euclid_heuristic G (opt_w opts) dst" and ?eps = "1.00001 * opt_w opts + 0.0001"
  note pre = euclid_search_pre[OF g fit v fits] and ppre = euclid_pase_pre[OF g fit v fits]
  note wpre = grid_pwsa_pre[OF g pre K]
  have N: "number_vertices grid_ops G = int (length (vertices G))" by (simp add: grid_ops_def)
  from r show ?thesis
  proof cases
    case us_astar
    obtain r' where r': "astar bin_heap_ops grid_ops ?h G src dst (opt_pebble opts) = Some r'"
      "case r' of Inl e \<Rightarrow> e = AssertFail \<and> (\<forall>c. \<not> path grid_ops G src dst c)
       | Inr res \<Rightarrow> \<exists>D P. result_tree grid_ops INT_MAX G src dst res D P \<and> within_eps grid_ops ?eps ?h G src dst (D dst)"
      using ga.astar_outcome[OF g pre refl, of dst "opt_pebble opts" ?eps] by blast
    have "nat dst < length (vertices G)" "int (nat dst) = dst" using v by auto
    with euclid_consistent[OF g fit, of "nat dst"] have c: "eps_consistent grid_ops ?eps ?h G" by metis
    have e: "1 \<le> ?eps" using w by simp
    show ?thesis
    proof (cases r)
      case (Inl x)
      then show ?thesis using us_astar r' by simp
    next
      case (Inr res)
      then obtain D P where t: "result_tree grid_ops INT_MAX G src dst res D P" "within_eps grid_ops ?eps ?h G src dst (D dst)"
        using us_astar r' by auto
      have "flags_ok G res" using ga.astar_pebbles[OF g pre refl us_astar(2)[unfolded Inr]] flags_defined(1) unfolding N by blast
      then show ?thesis using Inr t c e unfolding good_result_def within_eps_def by auto
    qed
  next
    case (us_wpanre s)
    have "pebbles_ok (int (length (vertices G))) (ws_pebbles s)"
      using pg.wreach_refines[OF g pre us_wpanre(3)] unfolding pg.w_core_def N by blast
    then show ?thesis using us_wpanre pg.wfinished_result[OF g pre us_wpanre(3) n us_wpanre(4)] flags_defined(2)
      by (auto simp: good_result_def bounded_algos_def)
  next
    case (us_wpanre_error s i e)
    then show ?thesis using pg.wreach_step_ok[OF g pre us_wpanre_error(3,4)] by auto
  next
    case (us_pase t)
    have "pebbles_ok (int (length (vertices G))) (pa_pebbles t)"
      using og.areach_refines[OF g ppre us_pase(3)] a_coreD(2)[of grid_ops G dst t] unfolding N by blast
    then show ?thesis using us_pase og.afinished_result[OF g ppre us_pase(3) n us_pase(4), of ?eps] euclid_pair_consistent[OF g fit w] flags_defined(3)
      by (auto simp: good_result_def)
  next
    case (us_pase_error t i e)
    then show ?thesis using og.areach_step_ok[OF g ppre us_pase_error(3,4)] by auto
  next
    case (us_pwsa u)
    have "\<exists>D P. result_tree grid_ops INT_MAX G src dst (pwsa_result u) D P"
      using pg.pwsa_finished_result[OF wpre us_pwsa(3)[unfolded pwsa_pc_def]] us_pwsa(4) by blast
    moreover have "flags_ok G (pwsa_result u)" unfolding pwsa_result_def
      using pg.pwsa_reach_pebbles[OF wpre us_pwsa(3)[unfolded pwsa_pc_def]] unfolding N by (rule flags_defined(4))
    ultimately show ?thesis using us_pwsa by (auto simp: good_result_def bounded_algos_def)
  next
    case (us_pwsa_error u i rnd e)
    from pg.pwsa.inv_step[OF pg.pwsa_reach_inv(1)[OF wpre us_pwsa_error(3)[unfolded pwsa_pc_def]] us_pwsa_error(4), of False "opt_D opts" rnd]
    show ?thesis using us_pwsa_error by auto
  next
    case us_simple
    then show ?thesis using algo by (simp add: tree_algos_def)
  next
    case us_simple_error
    then show ?thesis using algo by (simp add: tree_algos_def)
  qed
qed

text \<open>What the dump file of a report holds in the end: a path from \<open>src\<close> to \<open>dst\<close>, one vertex per line.\<close>

definition dump_shows_path :: "Graph \<Rightarrow> int \<Rightarrow> int \<Rightarrow> string option \<Rightarrow> bool" where
  "dump_shows_path G src dst d \<longleftrightarrow> (\<exists>out vs. d = Some (out @ concat (map (\<lambda>v. dump_coord (vertices G ! nat v)) vs)) \<and>
     vs \<noteq> [] \<and> hd vs = src \<and> last vs = dst \<and> successively (\<lambda>a b. \<exists>w. edge grid_ops G a b w) vs)"

lemma good_report:
  assumes g: "graph_ok octile_weight G" and res: "good_result opts G src dst res"
    and s: "0 \<le> src" "src < int (length (vertices G))" and u: "opt_cost opts = ''unit''"
  shows "\<exists>rep len. main_output opts G src dst res = Some (Inr rep) \<and> rep_pathlen rep = real_of_int len / 10000 \<and>
    path grid_ops G src dst len \<and> 0 \<le> num_expanded rep \<and> num_expanded rep \<le> int (length (vertices G)) \<and>
    (if opt_pebble opts then dump_shows_path G src dst (dump rep) else dump rep = None) \<and>
    (opt_algo opts \<in> bounded_algos \<longrightarrow> (\<forall>c. path grid_ops G src dst c \<longrightarrow> real_of_int len \<le> (1.00001 * opt_w opts + 0.0001) * real_of_int c))"
proof -
  obtain D P where t: "result_tree grid_ops INT_MAX G src dst res D P"
    and b: "opt_algo opts \<in> bounded_algos \<longrightarrow> (\<forall>c. path grid_ops G src dst c \<longrightarrow> real_of_int (D dst) \<le> (1.00001 * opt_w opts + 0.0001) * real_of_int c)"
    and f: "\<forall>v x. res_g res v = Inr x \<longrightarrow> (\<exists>b. res_is_expanded res v = Inr b)"
    and pb: "\<And>v. v < length (vertices G) \<Longrightarrow> \<exists>x. res_pebble res (int v) = Inr x" using res unfolding good_result_def flags_ok_def by auto
  have "\<exists>b. res_is_expanded res v = Inr b" if "0 \<le> v" "v < int (length (vertices G))" for v
    using t f that by (auto simp: result_tree_def grid_ops_def)
  then obtain k where k: "count_expanded G res = Inr k" "0 \<le> k" "k \<le> int (length (vertices G))" using count_expanded_ok by blast
  obtain len where len: "pathlen G res src dst = Some (Inr len)" "path grid_ops G src dst len" "len \<le> D dst" using pathlen_tree[OF g t] by blast
  have "real_of_int len \<le> (1.00001 * opt_w opts + 0.0001) * real_of_int c" if "opt_algo opts \<in> bounded_algos" "path grid_ops G src dst c" for c
    using b that len(3) by (meson of_int_le_iff order_trans)
  moreover obtain d where "pebble_dump G res src dst = Some (Inr d)" "dump_shows_path G src dst (Some d)"
    using pebble_dump_tree[OF g og.search_graph_axioms t s pb] unfolding dump_shows_path_def by auto
  ultimately show ?thesis using k len(1,2) u
    by (cases "opt_pebble opts") (auto simp: main_output_def output_with_def Let_def)
qed

section \<open>Properties\<close>

text \<open>
  C2. The driver, from the map file to the printed report, for unit costs and each of wA*, wPA*NRE, wPA*SE and
  wPWSA* on any number of workers, one included: when the map is a printed grid, both end points are passable cells, the weight
  is at least 1, the split cutoff at least 1, and the vertex count times 14142 plus the greatest heuristic value fits an \<open>int\<close>,
  every result of the search that was chosen, in every schedule, gives a report. The printed length is the cost of a real path from
  source to destination in units of 10000, the counter is at most the number of vertices, and for wA* and wPA*SE the
  length is within the factor 1.00001 w + 0.0001 of the cost of every path. With a file name in \<open>visualize\<close> the dump ends
  with the coordinates of a sequence of adjacent vertices from source to destination; without, there is no dump. The only errors are failed
  assertions, in wA* and wPWSA*. For the costs \<open>life\<close> nothing is stated here.
\<close>

theorem driver_reports_path:
  assumes "map_ok rows W" "opt_map opts = map_text rows W" "opt_cost opts = ''unit''" "opt_algo opts \<in> tree_algos"
    "main_init opts = Inr (G, src, dst)" "euclid_fits G (opt_w opts) Hmax" "1 \<le> opt_w opts" "1 \<le> opt_K opts" "0 < n"
    "int (length (vertices G)) * 14142 + Hmax < INT_MAX" "main_run opts n G src dst r"
  shows "case r of Inl e \<Rightarrow> e = AssertFail \<and> opt_algo opts \<in> {''wA*'', ''wPWSA*''}
    | Inr res \<Rightarrow> \<exists>rep len. main_output opts G src dst res = Some (Inr rep) \<and> rep_pathlen rep = real_of_int len / 10000 \<and>
        path grid_ops G src dst len \<and> 0 \<le> num_expanded rep \<and> num_expanded rep \<le> int (length (vertices G)) \<and>
        (if opt_pebble opts then dump_shows_path G src dst (dump rep) else dump rep = None) \<and>
        (opt_algo opts \<in> bounded_algos \<longrightarrow> (\<forall>c. path grid_ops G src dst c \<longrightarrow> real_of_int len \<le> (1.00001 * opt_w opts + 0.0001) * real_of_int c))"
proof -
  have init: "Graph_load (map_text rows W) = Inr G" "vertex_at G (opt_sr opts) (opt_sc opts) = Inr src" "src \<noteq> -1"
    "vertex_at G (opt_dr opts) (opt_dc opts) = Inr dst" "dst \<noteq> -1"
    using assms(2,3,5) by (auto simp: main_init_def unit_init_def endpoints_def result_simps split: if_splits)
  have g: "graph_ok octile_weight G" using load_map[OF assms(1), of octile_weight] init(1) by (auto simp: Graph_load_def)
  then have gr: "grid_ok G" by (simp add: graph_ok_def)
  note s = endpoint_range[OF gr init(2,3)] and d = endpoint_range[OF gr init(4,5)]
  have run: "unit_search opts n G src dst r" using assms(3,11) by (simp add: main_run_def)
  from unit_search_good[OF g assms(6,7) s[THEN conjunct1] s[THEN conjunct2] d[THEN conjunct1] d[THEN conjunct2] assms(10,8,9,4) run]
  show ?thesis using good_report[OF g _ s[THEN conjunct1] s[THEN conjunct2] assms(3)] by (cases r) auto
qed

definition demo_options :: options where
  "demo_options = (default_options (map_text [''..''] 2) ''wA*'')\<lparr>opt_sr := 0, opt_sc := 0, opt_dr := 0, opt_dc := 1\<rparr>"

lemma demo_init: "main_init demo_options = Inr (two_cells, 0, 1)"
proof -
  have "endpoints demo_options two_cells = Inr (two_cells, 0, 1)"
    by (simp add: endpoints_def demo_options_def default_options_def vertex_at_def cell_def two_cells_def)
  then show ?thesis using two_cells_load by (simp add: main_init_def unit_init_def demo_options_def default_options_def)
qed

theorem driver_reports_path_witness:
  "\<exists>res rep len. main_init demo_options = Inr (two_cells, 0, 1) \<and> main_run demo_options 1 two_cells 0 1 (Inr res) \<and>
     main_output demo_options two_cells 0 1 res = Some (Inr rep) \<and> rep_pathlen rep = real_of_int len / 10000 \<and>
     path grid_ops two_cells 0 1 len \<and> real_of_int len \<le> 1.00011 * 10000"
proof -
  let ?o = demo_options
  have o: "opt_map ?o = map_text [''..''] 2" "opt_cost ?o = ''unit''" "opt_algo ?o = ''wA*''" "opt_w ?o = 1" "1 \<le> opt_K ?o"
    by (simp_all add: demo_options_def default_options_def)
  have p: "path grid_ops two_cells 0 1 10000" by (rule path_edge[OF two_cells_edge])
  have f: "euclid_fits two_cells (opt_w ?o) 30000" by (simp add: o euclid_fits_def two_cells_def INT_MAX_def)
  obtain r where r: "astar bin_heap_ops grid_ops (euclid_heuristic two_cells 1 1) two_cells 0 1 (opt_pebble ?o) = Some r"
    "case r of Inl e \<Rightarrow> \<forall>c. \<not> path grid_ops two_cells 0 1 c | Inr res \<Rightarrow> True"
    using astar_euclid[OF two_cells_ok f, of 0 1 "opt_pebble ?o"] o(4) by (fastforce simp: two_cells_def INT_MAX_def split: sum.splits)
  then obtain res where res: "r = Inr res" using p by (cases r) auto
  have run: "main_run ?o 1 two_cells 0 1 (Inr res)" using r(1) res o by (simp add: main_run_def us_astar)
  have m: "map_ok [''..''] 2" by code_simp
  have "opt_algo ?o \<in> tree_algos" "opt_algo ?o \<in> bounded_algos" using o(3) by (simp_all add: tree_algos_def bounded_algos_def)
  with driver_reports_path[OF m o(1,2) _ demo_init f _ o(5) _ _ run] run demo_init p o(4)
  show ?thesis by (fastforce simp: two_cells_def INT_MAX_def)
qed

end
