(* ===== verification/Min_Queue.thy ===== *)
theory Min_Queue
  imports PWSA_Prelude
begin

text \<open>
  The contract of a queue from which the least entry is removed, shared by the heaps of the
  repository: entries are pairs of a key and a value, and the contents are a multiset. Its client
  lemma is that filling a queue and emptying it sorts.
\<close>

section \<open>Filling and emptying\<close>

definition fill_queue :: "(int \<Rightarrow> 'v \<Rightarrow> 'q \<Rightarrow> 'q result) \<Rightarrow> (int \<times> 'v) list \<Rightarrow> 'q \<Rightarrow> 'q result" where
  "fill_queue ins = efold (\<lambda>(k, v). ins k v)"

fun drain_queue :: "('q \<Rightarrow> ((int \<times> 'v) \<times> 'q) result) \<Rightarrow> nat \<Rightarrow> 'q \<Rightarrow> ((int \<times> 'v) list \<times> 'q) result" where
  "drain_queue del 0 q = Inr ([], q)"
| "drain_queue del (Suc n) q = ebind (del q) (\<lambda>(e, q). ebind (drain_queue del n q) (\<lambda>(es, q). Inr (e # es, q)))"

section \<open>The contract\<close>

locale min_queue =
  fixes empty_q :: 'q
    and ins :: "int \<Rightarrow> 'v \<Rightarrow> 'q \<Rightarrow> 'q result"
    and del :: "'q \<Rightarrow> ((int \<times> 'v) \<times> 'q) result"
    and inv :: "'q \<Rightarrow> bool"
    and ents :: "'q \<Rightarrow> (int \<times> 'v) multiset"
    and top_key :: int
  assumes empty: "inv empty_q" "ents empty_q = {#}"
    and ins_ok: "\<lbrakk>inv q; k \<le> top_key\<rbrakk> \<Longrightarrow> \<exists>q'. ins k v q = Inr q' \<and> inv q' \<and> ents q' = add_mset (k, v) (ents q)"
    and del_ok: "\<lbrakk>inv q; ents q \<noteq> {#}\<rbrakk> \<Longrightarrow>
      \<exists>k v q'. del q = Inr ((k, v), q') \<and> inv q' \<and> ents q = add_mset (k, v) (ents q') \<and> (\<forall>(k', v') \<in># ents q. k \<le> k')"
begin

lemma fill_ok:
  assumes "inv q" "\<forall>(k, v) \<in> set es. k \<le> top_key"
  shows "\<exists>q'. fill_queue ins es q = Inr q' \<and> inv q' \<and> ents q' = ents q + mset es"
  using assms
proof (induction es arbitrary: q)
  case (Cons e es)
  obtain k v where e: "e = (k, v)" by (cases e)
  obtain q1 where q1: "ins k v q = Inr q1" "inv q1" "ents q1 = add_mset (k, v) (ents q)"
    using ins_ok[OF Cons.prems(1), of k v] Cons.prems(2) by (auto simp: e)
  then show ?case using Cons.IH[OF q1(2)] Cons.prems(2) by (auto simp: fill_queue_def e)
qed (simp add: fill_queue_def)

lemma drain_ok:
  assumes "inv q"
  shows "\<exists>es q'. drain_queue del (size (ents q)) q = Inr (es, q') \<and> inv q' \<and> ents q' = {#} \<and> mset es = ents q \<and> sorted (map fst es)"
  using assms
proof (induction "size (ents q)" arbitrary: q)
  case 0
  then show ?case by simp
next
  case (Suc n)
  then have "ents q \<noteq> {#}" by auto
  from del_ok[OF Suc.prems this] obtain k v q1 where
    d: "del q = Inr ((k, v), q1)" "inv q1" "ents q = add_mset (k, v) (ents q1)" "\<forall>(k', v') \<in># ents q. k \<le> k'" by (elim exE conjE)
  have n: "n = size (ents q1)" using Suc.hyps(2) d(3) by simp
  from Suc.hyps(1)[OF n d(2)] obtain es q' where
    r: "drain_queue del n q1 = Inr (es, q')" "inv q'" "ents q' = {#}" "mset es = ents q1" "sorted (map fst es)" unfolding n by (elim exE conjE)
  have "k \<le> fst e" if "e \<in> set es" for e
  proof -
    have "e \<in># ents q" using that r(4) d(3) by (metis insert_iff set_mset_add_mset_insert set_mset_mset)
    then show ?thesis using d(4) by (cases e) auto
  qed
  then have "sorted (map fst ((k, v) # es))" using r(5) by auto
  then show ?case using d(1,3) r Suc.hyps(2)[symmetric] by (intro exI[of _ "(k, v) # es"] exI[of _ q']) simp
qed

lemma fill_drain_sorts:
  assumes "\<forall>(k, v) \<in> set xs. k \<le> top_key"
  shows "\<exists>q ys q'. fill_queue ins xs empty_q = Inr q \<and> drain_queue del (length xs) q = Inr (ys, q') \<and>
    mset ys = mset xs \<and> sorted (map fst ys) \<and> ents q' = {#}"
proof -
  obtain q where q: "fill_queue ins xs empty_q = Inr q" "inv q" "ents q = mset xs"
    using fill_ok[OF empty(1) assms] by (auto simp: empty(2))
  then show ?thesis using drain_ok[OF q(2)] by auto
qed

end

end
