(* ===== verification/Treap_Frontier.thy ===== *)
theory Treap_Frontier
  imports Min_Queue "HOL-Library.Word"
begin

text \<open>
  The treap of \<open>src/test/grid/other/treap-frontier.hpp\<close>, a frontier with duplicate keys that splits
  at a weight, and the hash functions of \<open>src/test/grid/other/hash.hpp\<close> that give its priorities.
  Nodes are only reached through their parents, so a node with its subtrees is a value; a
  dereferenced null pointer is an error. Weights are mathematical integers.
\<close>

unbundle bit_operations_syntax

section \<open>Hashing\<close>

text \<open>The code relies on wrap-around of \<open>long\<close>, so the computation is on 64-bit words.\<close>

definition hash64shift :: "64 word \<Rightarrow> 64 word" where
  "hash64shift key0 =
     (let key1 = (NOT key0) + push_bit 21 key0;
          key2 = key1 XOR drop_bit 24 key1;
          key3 = (key2 + push_bit 3 key2) + push_bit 8 key2;
          key4 = key3 XOR drop_bit 14 key3;
          key5 = (key4 + push_bit 2 key4) + push_bit 4 key4;
          key6 = key5 XOR drop_bit 28 key5
      in key6 + push_bit 31 key6)"

definition hash_signed :: "int \<Rightarrow> int" where
  "hash_signed key = sint (hash64shift (word_of_int key))"

definition hash_unsigned :: "int \<Rightarrow> int" where
  "hash_unsigned key = uint (word_of_int (hash_signed key) :: 64 word)"

definition random_index :: "int \<Rightarrow> int \<Rightarrow> int result" where
  "random_index key n = (let x = uint (hash64shift (word_of_int key)); m = uint (word_of_int n :: 64 word) in
     if m = 0 then Inl DivByZero else Inr (x mod m))"

fun log2_loop :: "nat \<Rightarrow> nat \<Rightarrow> nat" where
  "log2_loop b a = (if b > 0 then log2_loop (b div 2) (a + 1) else a)"

declare log2_loop.simps [simp del]

definition log2_up :: "64 word \<Rightarrow> int" where
  "log2_up i = (let b = sint (i - 1) in int (log2_loop (nat b) 0))"

text \<open>Two values that agree after \<open>x ^ (x >>> n)\<close> agree: their difference is its own shift, hence zero.\<close>

lemma drop_bit_fixpoint:
  fixes z :: "64 word"
  assumes "drop_bit n z = z" "0 < n"
  shows "z = 0"
proof -
  have "drop_bit (n * k) z = z" for k
  proof (induction k)
    case (Suc k)
    have "drop_bit (n * Suc k) z = drop_bit n (drop_bit (n * k) z)" by (simp add: add.commute)
    then show ?case using Suc assms(1) by simp
  qed simp
  from this[of 64] have "z = drop_bit (n * 64) z" by simp
  also have "\<dots> = 0" using assms(2) by (intro bit_word_eqI) (auto simp: bit_simps dest: bit_imp_le_length)
  finally show ?thesis .
qed

lemma xorshift_inj:
  fixes x y :: "64 word"
  assumes "x XOR drop_bit n x = y XOR drop_bit n y" "0 < n"
  shows "x = y"
proof -
  have "drop_bit n (x XOR y) = x XOR y"
  proof (rule bit_word_eqI)
    fix i assume "i < LENGTH(64)"
    have "bit (x XOR drop_bit n x) i = bit (y XOR drop_bit n y) i" using assms(1) by simp
    then show "bit (drop_bit n (x XOR y)) i = bit (x XOR y) i" by (auto simp: bit_simps)
  qed
  from drop_bit_fixpoint[OF this assms(2)] have "bit (x XOR y) i = False" for i by simp
  then show ?thesis by (intro bit_word_eqI) (auto simp: bit_simps)
qed

lemma mult_inj:
  fixes x y a b :: "64 word"
  assumes "x * a = y * a" "a * b = 1"
  shows "x = y"
proof -
  have "x = x * a * b" "y = y * a * b" using assms(2) by (simp_all add: mult.assoc)
  then show ?thesis using assms(1) by simp
qed

lemma hash64shift_inj: "hash64shift x = hash64shift y \<longleftrightarrow> x = y"
proof
  have 1: "(NOT k) + push_bit 21 k = k * 2097151 - 1" for k :: "64 word"
    by (simp add: not_eq_complement push_bit_eq_mult algebra_simps)
  have 2: "(k + push_bit 3 k) + push_bit 8 k = k * 265" for k :: "64 word"
    by (simp add: push_bit_eq_mult algebra_simps)
  have 3: "(k + push_bit 2 k) + push_bit 4 k = k * 21" for k :: "64 word"
    by (simp add: push_bit_eq_mult algebra_simps)
  have 4: "k + push_bit 31 k = k * 2147483649" for k :: "64 word"
    by (simp add: push_bit_eq_mult algebra_simps)
  let ?a = "\<lambda>k :: 64 word. k * 2097151 - 1" and ?x = "\<lambda>n (k :: 64 word). k XOR drop_bit n k"
  assume "hash64shift x = hash64shift y"
  then have "?x 28 (?x 14 (?x 24 (?a x) * 265) * 21) * 2147483649 = ?x 28 (?x 14 (?x 24 (?a y) * 265) * 21) * 2147483649"
    by (simp only: hash64shift_def Let_def 1 2 3 4)
  then have "?x 28 (?x 14 (?x 24 (?a x) * 265) * 21) = ?x 28 (?x 14 (?x 24 (?a y) * 265) * 21)"
    by (rule mult_inj[where b = 4611686016279904257]) simp
  then have "?x 14 (?x 24 (?a x) * 265) * 21 = ?x 14 (?x 24 (?a y) * 265) * 21" by (rule xorshift_inj) simp
  then have "?x 14 (?x 24 (?a x) * 265) = ?x 14 (?x 24 (?a y) * 265)" by (rule mult_inj[where b = 14933078535860113213]) simp
  then have "?x 24 (?a x) * 265 = ?x 24 (?a y) * 265" by (rule xorshift_inj) simp
  then have "?x 24 (?a x) = ?x 24 (?a y)" by (rule mult_inj[where b = 15244667743933553977]) simp
  then have "?a x = ?a y" by (rule xorshift_inj) simp
  then have "x * 2097151 = y * 2097151" by simp
  then show "x = y" by (rule mult_inj[where b = 9223367638806167551]) simp
qed simp

text \<open>The loop of \<open>log2_up\<close> counts the binary digits of its argument.\<close>

lemma log2_loop_bounds: "\<exists>k. log2_loop b a = a + k \<and> b < 2 ^ k \<and> (if b = 0 then k = 0 else 2 ^ k \<le> 2 * b)"
proof (induction b a rule: log2_loop.induct)
  case (1 b a)
  show ?case
  proof (cases "b > 0")
    case True
    from 1[OF True] obtain k where "log2_loop (b div 2) (a + 1) = a + 1 + k" "b div 2 < 2 ^ k"
      "if b div 2 = 0 then k = 0 else 2 ^ k \<le> 2 * (b div 2)" by blast
    then show ?thesis using True by (intro exI[of _ "Suc k"]) (auto simp: log2_loop.simps[of b] split: if_splits)
  qed (simp add: log2_loop.simps)
qed

section \<open>The treap\<close>

text \<open>What a treap needs of its values: their weight, whether they may be cut, and the cut.\<close>

record 'v value_ops =
  vweight :: "'v \<Rightarrow> int"
  must_process :: "'v \<Rightarrow> bool"
  vsplit_at :: "int \<Rightarrow> 'v \<Rightarrow> 'v \<times> 'v"

text \<open>A node: key, value, priority, total weight, left and right child.\<close>

datatype 'v Node = Null | Node int 'v int int "'v Node" "'v Node"

fun node_total_weight :: "'v Node \<Rightarrow> int" where
  "node_total_weight Null = 0"
| "node_total_weight (Node k v p t l r) = t"

fun fix_weights :: "'v value_ops \<Rightarrow> 'v Node \<Rightarrow> 'v Node result" where
  "fix_weights V Null = Inl NullDeref"
| "fix_weights V (Node k v p t l r) = Inr (Node k v p (node_total_weight l + vweight V v + node_total_weight r) l r)"

fun maybe_rotate_right :: "'v value_ops \<Rightarrow> 'v Node \<Rightarrow> 'v Node result" where
  "maybe_rotate_right V (Node k v p t (Node kl vl pl tw_l ll lr) r) =
     (if pl > p then
        if kl = k then Inr (Node kl vl pl t (Node k v p (tw_l + (vweight V v - vweight V vl)) ll lr) r)
        else let t1 = t - tw_l; tnew = tw_l + t1 in
          Inr (Node kl vl pl tnew ll (Node k v p (t1 + node_total_weight lr) lr r))
      else Inr (Node k v p t (Node kl vl pl tw_l ll lr) r))"
| "maybe_rotate_right V _ = Inl AssertFail"

fun maybe_rotate_left :: "'v Node \<Rightarrow> 'v Node result" where
  "maybe_rotate_left (Node k v p t l (Node kr vr pr tw_r rl rr)) =
     (if pr > p then
        let t1 = t - tw_r; tnew = tw_r + t1 in
          Inr (Node kr vr pr tnew (Node k v p (t1 + node_total_weight rl) l rl) rr)
      else Inr (Node k v p t l (Node kr vr pr tw_r rl rr)))"
| "maybe_rotate_left _ = Inl AssertFail"

fun node_insert :: "'v value_ops \<Rightarrow> 'v Node \<Rightarrow> int \<Rightarrow> 'v \<Rightarrow> 'v Node result" where
  "node_insert V Null k' v' = Inr (Node k' v' (hash_signed k') (vweight V v') Null Null)"
| "node_insert V (Node k v p t l r) k' v' =
     (if k' \<le> k
      then ebind (node_insert V l k' v') (\<lambda>l. ebind (fix_weights V (Node k v p t l r)) (maybe_rotate_right V))
      else ebind (node_insert V r k' v') (\<lambda>r. ebind (fix_weights V (Node k v p t l r)) maybe_rotate_left))"

fun node_delete_min :: "'v value_ops \<Rightarrow> 'v Node \<Rightarrow> (int \<times> 'v \<times> 'v Node) result" where
  "node_delete_min V Null = Inl NullDeref"
| "node_delete_min V (Node k v p t Null r) = Inr (k, v, r)"
| "node_delete_min V (Node k v p t l r) =
     ebind (node_delete_min V l) (\<lambda>(kres, vres, l). ebind (fix_weights V (Node k v p t l r)) (\<lambda>N. Inr (kres, vres, N)))"


text \<open>The self-check: a bound that is a null pointer is \<open>None\<close>.\<close>

fun node_check :: "'v value_ops \<Rightarrow> 'v Node \<Rightarrow> int option \<Rightarrow> int option \<Rightarrow> int option \<Rightarrow> unit result" where
  "node_check V Null lb rb pb = Inr ()"
| "node_check V (Node k v p t l r) lb rb pb =
     ebind (eassert (case lb of None \<Rightarrow> True | Some b \<Rightarrow> b < k)) (\<lambda>_.
     ebind (eassert (case rb of None \<Rightarrow> True | Some b \<Rightarrow> k \<le> b)) (\<lambda>_.
     ebind (eassert (case pb of None \<Rightarrow> True | Some b \<Rightarrow> p \<le> b)) (\<lambda>_.
     ebind (eassert (t = node_total_weight l + vweight V v + node_total_weight r)) (\<lambda>_.
     ebind (node_check V l lb (Some k) (Some p)) (\<lambda>_.
       node_check V r (Some k) rb (Some p))))))"

text \<open>The class: \<open>Treap\<close> is its root.\<close>

definition treap_new :: "'v Node" where
  "treap_new = Null"

definition treap_insert :: "'v value_ops \<Rightarrow> int \<Rightarrow> 'v \<Rightarrow> 'v Node \<Rightarrow> 'v Node result" where
  "treap_insert V k v rt = node_insert V rt k v"

definition treap_delete_min :: "'v value_ops \<Rightarrow> 'v Node \<Rightarrow> ((int \<times> 'v) \<times> 'v Node) result" where
  "treap_delete_min V rt = ebind (node_delete_min V rt) (\<lambda>(k, v, rt). Inr ((k, v), rt))"



definition treap_swap :: "'v Node \<Rightarrow> 'v Node \<Rightarrow> 'v Node \<times> 'v Node" where
  "treap_swap rt other_root = (other_root, rt)"

definition treap_check :: "'v value_ops \<Rightarrow> 'v Node \<Rightarrow> unit result" where
  "treap_check V rt = node_check V rt None None None"

definition isEmpty :: "'v Node \<Rightarrow> bool" where
  "isEmpty rt \<longleftrightarrow> (case rt of Null \<Rightarrow> True | _ \<Rightarrow> False)"

text \<open>The value type of the driver \<open>treap_main.cpp\<close>; its \<open>split_at\<close> leaves both values as they are.\<close>

record sec =
  vertexId :: int
  low :: int
  high :: int
  mustProcess :: bool
  sec_distance :: int

definition sec_ops :: "sec \<Rightarrow> sec value_ops" where
  "sec_ops uninit = \<lparr>vweight = (\<lambda>s. 1), must_process = mustProcess, vsplit_at = (\<lambda>w s. (s, uninit))\<rparr>"

section \<open>The invariant\<close>

text \<open>The nodes in order, with key, value and priority.\<close>

fun items :: "'v Node \<Rightarrow> (int \<times> 'v \<times> int) list" where
  "items Null = []"
| "items (Node k v p t l r) = items l @ (k, v, p) # items r"

fun tok :: "'v value_ops \<Rightarrow> 'v Node \<Rightarrow> bool" where
  "tok V Null \<longleftrightarrow> True"
| "tok V (Node k v p t l r) \<longleftrightarrow> tok V l \<and> tok V r \<and> t = node_total_weight l + vweight V v + node_total_weight r \<and>
     (\<forall>(k', v', p') \<in> set (items l). k' \<le> k \<and> p' \<le> p) \<and> (\<forall>(k', v', p') \<in> set (items r). k < k' \<and> p' \<le> p)"

definition hashed :: "'v Node \<Rightarrow> bool" where
  "hashed N \<longleftrightarrow> (\<forall>(k, v, p) \<in> set (items N). p = hash_signed k)"

text \<open>The self-check accepts exactly the search trees in heap order with the right weights.\<close>

lemma node_check_iff:
  "node_check V N lb rb pb = Inr () \<longleftrightarrow> tok V N \<and>
     (\<forall>(k, v, p) \<in> set (items N). (case lb of None \<Rightarrow> True | Some b \<Rightarrow> b < k) \<and> (case rb of None \<Rightarrow> True | Some b \<Rightarrow> k \<le> b) \<and>
       (case pb of None \<Rightarrow> True | Some b \<Rightarrow> p \<le> b))"
proof (induction N arbitrary: lb rb pb)
  case (Node k v p t l r)
  show ?case
    by (simp add: result_simps Node.IH ball_Un split_beta) (fastforce split: option.splits)
qed simp

lemma treap_check_iff: "treap_check V N = Inr () \<longleftrightarrow> tok V N"
  by (simp add: treap_check_def node_check_iff split_beta)

section \<open>Insertion\<close>

lemma rotate_right_ok:
  assumes l: "l' \<noteq> Null" "tok V l'" "mset (items l') = add_mset (k', v', p') (mset (items l))"
    and r: "tok V r" "\<forall>(x, y, q) \<in> set (items r). k < x \<and> q \<le> p"
    and old: "\<forall>(x, y, q) \<in> set (items l). x \<le> k \<and> q \<le> p" and new: "k' \<le> k"
    and h: "hashed l'" "p = hash_signed k"
    and t: "t = node_total_weight l' + vweight V v + node_total_weight r"
  shows "\<exists>N. maybe_rotate_right V (Node k v p t l' r) = Inr N \<and> tok V N \<and> items N = items l' @ (k, v, p) # items r \<and> N \<noteq> Null"
proof -
  obtain kl vl pl wl ll lr where l': "l' = Node kl vl pl wl ll lr" using l(1) by (cases l') auto
  have in_l: "x \<in> set (items l') \<longleftrightarrow> x = (k', v', p') \<or> x \<in> set (items l)" for x
    using arg_cong[OF l(3), of set_mset] by auto
  have kle: "x \<le> k" if "(x, y, q) \<in> set (items l')" for x y q using that in_l[of "(x, y, q)"] old new by auto
  show ?thesis
  proof (cases "pl > p")
    case True
    have "(kl, vl, pl) \<notin> set (items l)" using old True by auto
    then have root: "(kl, vl, pl) = (k', v', p')" using in_l[of "(kl, vl, pl)"] by (simp add: l')
    have "mset (items ll) + mset (items lr) = mset (items l)" using l(3) root by (simp add: l')
    then have "set (items ll) \<union> set (items lr) = set (items l)" by (metis set_mset_mset set_mset_union)
    then have sub: "\<forall>(x, y, q) \<in> set (items ll) \<union> set (items lr). q \<le> p" using old by auto
    have "pl = hash_signed kl" using h(1) by (auto simp: hashed_def l')
    then have kn: "kl \<noteq> k" using True h(2) by auto
    have "kl \<le> k" using kle[of kl vl pl] by (simp add: l')
    then have lt: "kl < k" using kn by simp
    let ?N = "Node kl vl pl (wl + (t - wl)) ll (Node k v p (t - wl + node_total_weight lr) lr r)"
    have "tok V ?N" using l(2) r lt True sub kle t unfolding l' by (fastforce simp: l')
    then show ?thesis using True kn by (simp add: l' Let_def)
  next
    case False
    have "\<forall>(x, y, q) \<in> set (items l'). x \<le> k \<and> q \<le> p"
    proof (intro ballI, clarify)
      fix x y q assume "(x, y, q) \<in> set (items l')"
      moreover have "q \<le> pl" using l(2) calculation by (auto simp: l')
      ultimately show "x \<le> k \<and> q \<le> p" using kle[of x y q] False by auto
    qed
    then show ?thesis using False l(2) r t by (simp add: l')
  qed
qed

lemma rotate_left_ok:
  assumes rt: "r' \<noteq> Null" "tok V r'" "mset (items r') = add_mset (k', v', p') (mset (items r))"
    and l: "tok V l" "\<forall>(x, y, q) \<in> set (items l). x \<le> k \<and> q \<le> p"
    and old: "\<forall>(x, y, q) \<in> set (items r). k < x \<and> q \<le> p" and new: "k < k'"
    and t: "t = node_total_weight l + vweight V v + node_total_weight r'"
  shows "\<exists>N. maybe_rotate_left (Node k v p t l r') = Inr N \<and> tok V N \<and> items N = items l @ (k, v, p) # items r' \<and> N \<noteq> Null"
proof -
  obtain kr vr pr wr rl rr where r': "r' = Node kr vr pr wr rl rr" using rt(1) by (cases r') auto
  have in_r: "x \<in> set (items r') \<longleftrightarrow> x = (k', v', p') \<or> x \<in> set (items r)" for x
    using arg_cong[OF rt(3), of set_mset] by auto
  have klt: "k < x" if "(x, y, q) \<in> set (items r')" for x y q using that in_r[of "(x, y, q)"] old new by auto
  show ?thesis
  proof (cases "pr > p")
    case True
    have "(kr, vr, pr) \<notin> set (items r)" using old True by auto
    then have root: "(kr, vr, pr) = (k', v', p')" using in_r[of "(kr, vr, pr)"] by (simp add: r')
    have "mset (items rl) + mset (items rr) = mset (items r)" using rt(3) root by (simp add: r')
    then have "set (items rl) \<union> set (items rr) = set (items r)" by (metis set_mset_mset set_mset_union)
    then have sub: "\<forall>(x, y, q) \<in> set (items rl) \<union> set (items rr). q \<le> p" using old by auto
    have lt: "k < kr" using klt[of kr vr pr] by (simp add: r')
    let ?N = "Node kr vr pr (wr + (t - wr)) (Node k v p (t - wr + node_total_weight rl) l rl) rr"
    have "tok V ?N" using rt(2) l lt True sub klt t unfolding r' by (fastforce simp: r')
    then show ?thesis using True by (simp add: r' Let_def)
  next
    case False
    have "\<forall>(x, y, q) \<in> set (items r'). k < x \<and> q \<le> p"
    proof (intro ballI, clarify)
      fix x y q assume "(x, y, q) \<in> set (items r')"
      moreover have "q \<le> pr" using rt(2) calculation by (auto simp: r')
      ultimately show "k < x \<and> q \<le> p" using klt[of x y q] False by auto
    qed
    then show ?thesis using False rt(2) l t by (simp add: r')
  qed
qed

lemma hashed_Node: "hashed (Node k v p t l r) \<longleftrightarrow> hashed l \<and> hashed r \<and> p = hash_signed k"
  by (simp add: hashed_def ball_Un conj_ac)

lemma hashed_mset:
  assumes "mset (items N) = add_mset (k, v, hash_signed k) (mset (items M))" "hashed M"
  shows "hashed N"
proof -
  have "set (items N) = insert (k, v, hash_signed k) (set (items M))" using arg_cong[OF assms(1), of set_mset] by simp
  then show ?thesis using assms(2) by (simp add: hashed_def)
qed

lemma node_insert_ok:
  assumes "tok V N" "hashed N"
  shows "\<exists>N'. node_insert V N k' v' = Inr N' \<and> N' \<noteq> Null \<and> tok V N' \<and> hashed N' \<and>
    mset (items N') = add_mset (k', v', hash_signed k') (mset (items N))"
  using assms
proof (induction N)
  case Null
  then show ?case by (simp add: hashed_def)
next
  case (Node k v p t l r)
  have h: "hashed l" "hashed r" "p = hash_signed k" using Node.prems(2) by (auto simp: hashed_Node)
  show ?case
  proof (cases "k' \<le> k")
    case True
    from Node.IH(1) Node.prems h obtain l' where l': "node_insert V l k' v' = Inr l'" "l' \<noteq> Null" "tok V l'" "hashed l'"
      "mset (items l') = add_mset (k', v', hash_signed k') (mset (items l))" by auto
    from rotate_right_ok[OF l'(2,3,5) _ _ _ True l'(4) h(3) refl, of r v] Node.prems(1) obtain N where
      N: "maybe_rotate_right V (Node k v p (node_total_weight l' + vweight V v + node_total_weight r) l' r) = Inr N" "tok V N"
        "items N = items l' @ (k, v, p) # items r" "N \<noteq> Null" by auto
    have m: "mset (items N) = add_mset (k', v', hash_signed k') (mset (items (Node k v p t l r)))" using N(3) l'(5) by simp
    show ?thesis using True l'(1) N hashed_mset[OF m Node.prems(2)] m by simp
  next
    case False
    from Node.IH(2) Node.prems h obtain r' where r': "node_insert V r k' v' = Inr r'" "r' \<noteq> Null" "tok V r'" "hashed r'"
      "mset (items r') = add_mset (k', v', hash_signed k') (mset (items r))" by auto
    from rotate_left_ok[OF r'(2,3,5) _ _ _ _ refl, of l k p v] Node.prems(1) False obtain N where
      N: "maybe_rotate_left (Node k v p (node_total_weight l + vweight V v + node_total_weight r') l r') = Inr N" "tok V N"
        "items N = items l @ (k, v, p) # items r'" "N \<noteq> Null" by auto
    have m: "mset (items N) = add_mset (k', v', hash_signed k') (mset (items (Node k v p t l r)))" using N(3) r'(5) by simp
    show ?thesis using False r'(1) N hashed_mset[OF m Node.prems(2)] m by simp
  qed
qed

section \<open>The least entry and the split\<close>

text \<open>Subtrees whose keys and priorities come from the old subtrees can take their places.\<close>

definition drawn :: "(int \<times> 'v \<times> int) list \<Rightarrow> (int \<times> 'v \<times> int) list \<Rightarrow> bool" where
  "drawn xs ys \<longleftrightarrow> (\<forall>x y q. (x, y, q) \<in> set xs \<longrightarrow> (\<exists>y'. (x, y', q) \<in> set ys))"

lemma drawn_simps [simp]: "drawn xs xs" "drawn [] ys"
  by (auto simp: drawn_def)

lemma tok_replace:
  assumes "tok V (Node k v p t l r)" "tok V l'" "tok V r'" "drawn (items l') (items l)" "drawn (items r') (items r)"
    "t' = node_total_weight l' + vweight V v' + node_total_weight r'"
  shows "tok V (Node k v' p t' l' r')"
proof -
  have "x \<le> k \<and> q \<le> p" if "(x, y, q) \<in> set (items l')" for x y q
  proof -
    from assms(4) that obtain y' where "(x, y', q) \<in> set (items l)" unfolding drawn_def by blast
    then show ?thesis using assms(1) by auto
  qed
  moreover have "k < x \<and> q \<le> p" if "(x, y, q) \<in> set (items r')" for x y q
  proof -
    from assms(5) that obtain y' where "(x, y', q) \<in> set (items r)" unfolding drawn_def by blast
    then show ?thesis using assms(1) by auto
  qed
  ultimately show ?thesis using assms(2,3,6) by auto
qed

lemma node_delete_min_ok:
  assumes "tok V N" "N \<noteq> Null"
  shows "\<exists>k v p N'. node_delete_min V N = Inr (k, v, N') \<and> tok V N' \<and> items N = (k, v, p) # items N' \<and>
    (\<forall>(k', v', p') \<in> set (items N). k \<le> k')"
  using assms
proof (induction V N rule: node_delete_min.induct)
  case (3 V k v p t kl vl pl wl ll lr r)
  let ?l = "Node kl vl pl wl ll lr"
  have "tok V ?l" using "3.prems"(1) by simp
  from "3.IH"[OF this] obtain ka va pa l' where l': "node_delete_min V ?l = Inr (ka, va, l')" "tok V l'" "items ?l = (ka, va, pa) # items l'"
    "\<forall>(k', v', p') \<in> set (items ?l). ka \<le> k'" by blast
  have "set (items ?l) = insert (ka, va, pa) (set (items l'))" by (simp only: l'(3) list.set)
  then have sub: "set (items l') \<subseteq> set (items ?l)" "(ka, va, pa) \<in> set (items ?l)" by blast+
  then have "drawn (items l') (items ?l)" unfolding drawn_def by blast
  then have "tok V (Node k v p (node_total_weight l' + vweight V v + node_total_weight r) l' r)"
    using "3.prems"(1) l'(2) by (intro tok_replace[OF "3.prems"(1)]) auto
  moreover have "ka \<le> x" if "(x, y, q) \<in> set (items (Node k v p t ?l r))" for x y q
  proof -
    have "ka \<le> k" "ka \<le> x" if "(x, y, q) \<in> set (items ?l)" using "3.prems"(1) sub(2) l'(4) that by (auto simp del: items.simps(2))
    moreover have "ka \<le> k" using "3.prems"(1) sub(2) by (auto simp del: items.simps(2))
    moreover have "k < x" if "(x, y, q) \<in> set (items r)" using "3.prems"(1) that by auto
    ultimately show ?thesis using that by (auto simp: items.simps(2)[of k] simp del: items.simps(2))
  qed
  moreover have "items (Node k v p t ?l r) = (ka, va, pa) # items l' @ (k, v, p) # items r" using l'(3) by simp
  moreover have "node_delete_min V (Node k v p t ?l r) =
      Inr (ka, va, Node k v p (node_total_weight l' + vweight V v + node_total_weight r) l' r)" using l'(1) by simp
  ultimately show ?case by (intro exI conjI) (assumption | fastforce simp del: tok.simps)+
qed fastforce+






section \<open>The driver\<close>

text \<open>
  \<open>treap_main.cpp\<close>: values are inserted under given keys, then removed one by one; \<open>c\<close> counts the
  complaints about a key smaller than the one before.
\<close>

definition treap_fill :: "'v value_ops \<Rightarrow> 'v \<Rightarrow> int list \<Rightarrow> 'v Node result" where
  "treap_fill V v ks = efold (\<lambda>k. treap_insert V k v) ks treap_new"

partial_function (option) treap_drain :: "'v value_ops \<Rightarrow> 'v Node \<Rightarrow> int \<Rightarrow> nat \<Rightarrow> nat result option" where
  "treap_drain V tmp properMin c =
     (if isEmpty tmp then Some (Inr c)
      else case treap_delete_min V tmp of
        Inl e \<Rightarrow> Some (Inl e)
      | Inr (res, tmp') \<Rightarrow> treap_drain V tmp' (fst res) (if fst res < properMin then c + 1 else c))"

declare treap_drain.simps [code]

definition treap_inv :: "'v value_ops \<Rightarrow> 'v Node \<Rightarrow> bool" where
  "treap_inv V N \<longleftrightarrow> treap_check V N = Inr () \<and> hashed N"

lemma treap_inv_iff: "treap_inv V N \<longleftrightarrow> tok V N \<and> hashed N"
  by (simp add: treap_inv_def treap_check_iff)

lemma treap_insert_ok:
  assumes "treap_inv V N"
  shows "\<exists>N'. treap_insert V k v N = Inr N' \<and> treap_inv V N' \<and> mset (items N') = add_mset (k, v, hash_signed k) (mset (items N))"
  using node_insert_ok[of V N k v] assms by (auto simp: treap_insert_def treap_inv_iff)

lemma treap_fill_ok:
  "\<exists>N. treap_fill V v ks = Inr N \<and> treap_inv V N \<and> mset (items N) = image_mset (\<lambda>k. (k, v, hash_signed k)) (mset ks)"
proof -
  have "\<exists>N. efold (\<lambda>k. treap_insert V k v) ks treap_new = Inr N \<and>
      (treap_inv V N \<and> mset (items N) = image_mset (\<lambda>k. (k, v, hash_signed k)) (mset ks))"
  proof (rule efold_invariant[where I = "\<lambda>ks N. treap_inv V N \<and> mset (items N) = image_mset (\<lambda>k. (k, v, hash_signed k)) (mset ks)"])
    fix ks' k N assume "treap_inv V N \<and> mset (items N) = image_mset (\<lambda>k. (k, v, hash_signed k)) (mset ks')"
    then show "\<exists>N'. treap_insert V k v N = Inr N' \<and>
        treap_inv V N' \<and> mset (items N') = image_mset (\<lambda>k. (k, v, hash_signed k)) (mset (ks' @ [k]))"
      using treap_insert_ok[of V N k v] by auto
  qed (simp add: treap_new_def treap_inv_iff hashed_def)
  then show ?thesis by (simp add: treap_fill_def)
qed

lemma treap_delete_min_ok:
  assumes "tok V N" "N \<noteq> Null"
  shows "\<exists>k v p N'. treap_delete_min V N = Inr ((k, v), N') \<and> tok V N' \<and> items N = (k, v, p) # items N' \<and>
    (\<forall>(k', v', p') \<in> set (items N). k \<le> k')"
  using node_delete_min_ok[OF assms] by (auto simp: treap_delete_min_def)

text \<open>Removing everything ends, and the keys come in order.\<close>

lemma treap_drain_ok:
  assumes "tok V N" "\<forall>(k, v, p) \<in> set (items N). m \<le> k"
  shows "treap_drain V N m c = Some (Inr c)"
  using assms
proof (induction "length (items N)" arbitrary: N m rule: less_induct)
  case less
  show ?case
  proof (cases N)
    case Null
    then show ?thesis by (simp add: treap_drain.simps isEmpty_def)
  next
    case (Node k0 v0 p0 t0 l0 r0)
    then have "N \<noteq> Null" by simp
    from treap_delete_min_ok[OF less.prems(1) this] obtain k v p N' where
      d: "treap_delete_min V N = Inr ((k, v), N')" "tok V N'" "items N = (k, v, p) # items N'"
        "\<forall>(k', v', p') \<in> set (items N). k \<le> k'" by (elim exE conjE)
    have "treap_drain V N' k c = Some (Inr c)" by (rule less.hyps[OF _ d(2)]) (use d(3,4) in auto)
    moreover have "\<not> k < m" using less.prems(2) d(3) by auto
    moreover have "\<not> isEmpty N" using Node by (simp add: isEmpty_def)
    ultimately show ?thesis using d(1) by (simp add: treap_drain.simps[of V N])
  qed
qed

interpretation tq: min_queue Null "\<lambda>k v q. treap_insert V k v q" "treap_delete_min V" "treap_inv V"
  "\<lambda>N. image_mset (\<lambda>(k, v, p). (k, v)) (mset (items N))" K
proof (unfold_locales, goal_cases)
  case (3 q k v)
  then show ?case using treap_insert_ok[of V q k v] by auto
next
  case (4 q)
  then have q: "tok V q" "q \<noteq> Null" "hashed q" by (auto simp: treap_inv_iff)
  from treap_delete_min_ok[OF q(1,2)] obtain k v p q' where
    d: "treap_delete_min V q = Inr ((k, v), q')" "tok V q'" "items q = (k, v, p) # items q'" "\<forall>(k', v', p') \<in> set (items q). k \<le> k'"
    by (elim exE conjE)
  have "hashed q'" using q(3) d(3) by (simp add: hashed_def)
  moreover have "\<forall>(k', v') \<in># image_mset (\<lambda>(k, v, p). (k, v)) (mset (items q)). k \<le> k'" using d(4) by auto
  ultimately show ?case using d(1-3) by (auto simp: treap_inv_iff)
qed (simp_all add: treap_inv_iff hashed_def)


section \<open>Properties\<close>

text \<open>
  C19. The driver of the treap with any sequence of keys: every insertion returns with no failed
  assertion, the self-check \<open>check\<close> of the resulting treap passes (search order with duplicates on
  the left, heap order of the hashed priorities, total weights), it holds exactly the inserted
  entries, and removing the least entry until the treap is empty ends without a failure and never
  meets a key smaller than the one before.
\<close>

theorem treap_main_in_order:
  assumes "\<forall>k \<in> set ks. -1 \<le> k"
  shows "\<exists>N. treap_fill (sec_ops u) val ks = Inr N \<and> treap_check (sec_ops u) N = Inr () \<and>
    image_mset (\<lambda>(k, v, p). (k, v)) (mset (items N)) = image_mset (\<lambda>k. (k, val)) (mset ks) \<and>
    treap_drain (sec_ops u) N (-1) 0 = Some (Inr 0)"
proof -
  obtain N where N: "treap_fill (sec_ops u) val ks = Inr N" "treap_inv (sec_ops u) N"
    "mset (items N) = image_mset (\<lambda>k. (k, val, hash_signed k)) (mset ks)" using treap_fill_ok[of "sec_ops u" val ks] by (elim exE conjE)
  have "set (items N) = (\<lambda>k. (k, val, hash_signed k)) ` set ks" using arg_cong[OF N(3), of set_mset] by simp
  then have "\<forall>(k, v, p) \<in> set (items N). -1 \<le> k" using assms by auto
  then have "treap_drain (sec_ops u) N (-1) 0 = Some (Inr 0)" using treap_drain_ok N(2) by (auto simp: treap_inv_iff)
  then show ?thesis using N by (auto simp: treap_inv_def multiset.map_comp comp_def)
qed

definition sec0 :: sec where
  "sec0 = \<lparr>vertexId = 0, low = 0, high = 0, mustProcess = True, sec_distance = 0\<rparr>"

theorem treap_main_in_order_witness:
  "\<exists>N. treap_fill (sec_ops sec0) sec0 [5, 3, 5, 8, 1] = Inr N \<and> treap_check (sec_ops sec0) N = Inr () \<and>
     treap_drain (sec_ops sec0) N (-1) 0 = Some (Inr 0)"
proof -
  have "\<forall>k \<in> set [5, 3, 5, 8, 1 :: int]. -1 \<le> k" by simp
  from treap_main_in_order[OF this, of sec0 sec0] show ?thesis by blast
qed




text \<open>
  C40. \<open>hash_signed\<close>, which gives the priorities of the treap, is injective on \<open>long\<close>: nodes with
  different keys have different priorities, and nodes with equal keys have equal priorities.
\<close>

theorem hash_signed_injective:
  assumes "- (2 ^ 63) \<le> a" "a < 2 ^ 63" "- (2 ^ 63) \<le> b" "b < (2 :: int) ^ 63"
  shows "hash_signed a = hash_signed b \<longleftrightarrow> a = b"
proof
  assume "hash_signed a = hash_signed b"
  then have "hash64shift (word_of_int a) = hash64shift (word_of_int b)" unfolding hash_signed_def by (rule signed_word_eqI)
  then have "(word_of_int a :: 64 word) = word_of_int b" by (simp add: hash64shift_inj)
  then have "sint (word_of_int a :: 64 word) = sint (word_of_int b :: 64 word)" by simp
  then show "a = b" using assms by (simp add: signed_of_int signed_take_bit_int_eq_self)
qed simp

theorem hash_signed_injective_witness: "hash_signed (2 ^ 62) \<noteq> hash_signed (- (2 ^ 63))"
  using hash_signed_injective[of "2 ^ 62" "- (2 ^ 63)"] by simp

end
