(* ===== verification/Pairing_Heap.thy ===== *)
theory Pairing_Heap
  imports Min_Queue
begin

text \<open>
  The pairing heap of \<open>src/test/grid/other/pairing-heap.hpp\<close>. A node has its first child and its next
  sibling; nodes are not shared, so a node with what it points to is a value.
\<close>

section \<open>The program\<close>

text \<open>Key, value, sibling and child.\<close>

datatype 'v PNode = PNull | PNode int 'v "'v PNode" "'v PNode"

fun no_sibling :: "'v PNode \<Rightarrow> bool" where
  "no_sibling PNull = True"
| "no_sibling (PNode k v PNull c) = True"
| "no_sibling _ = False"

definition merge_node :: "'v PNode \<Rightarrow> 'v PNode \<Rightarrow> 'v PNode result" where
  "merge_node X Y =
     ebind (eassert (no_sibling X)) (\<lambda>_. ebind (eassert (no_sibling Y)) (\<lambda>_.
       case X of PNull \<Rightarrow> Inr Y
       | PNode kx vx sx cx \<Rightarrow> (case Y of PNull \<Rightarrow> Inr X
         | PNode ky vy sy cy \<Rightarrow>
             if kx \<le> ky then Inr (PNode kx vx sx (PNode ky vy cx cy))
             else Inr (PNode ky vy sy (PNode kx vx cy cx)))))"

fun merge_pairs_node :: "'v PNode \<Rightarrow> 'v PNode result" where
  "merge_pairs_node PNull = Inr PNull"
| "merge_pairs_node (PNode kx vx PNull cx) = Inr (PNode kx vx PNull cx)"
| "merge_pairs_node (PNode kx vx (PNode ky vy rest cy) cx) =
     ebind (merge_node (PNode kx vx PNull cx) (PNode ky vy PNull cy)) (\<lambda>XY.
     ebind (merge_pairs_node rest) (\<lambda>R. merge_node XY R))"

text \<open>The self-check and the size; the second function of each is the loop over the children.\<close>

function (sequential) check_node :: "'v PNode \<Rightarrow> int option \<Rightarrow> unit result"
  and check_children :: "'v PNode \<Rightarrow> int \<Rightarrow> unit result" where
  "check_node PNull upper_bound = Inr ()"
| "check_node (PNode k v s c) upper_bound =
     ebind (eassert (case upper_bound of None \<Rightarrow> True | Some b \<Rightarrow> b \<le> k)) (\<lambda>_. check_children c k)"
| "check_children PNull k = Inr ()"
| "check_children (PNode k' v' s' c') k =
     ebind (check_node (PNode k' v' s' c') (Some k)) (\<lambda>_. check_children s' k)"
  by pat_completeness auto
termination
  by (relation "measure (case_sum (\<lambda>(X, b). 2 * size X) (\<lambda>(X, k). 2 * size X + 1))") auto

function (sequential) size_node :: "'v PNode \<Rightarrow> int" and size_children :: "'v PNode \<Rightarrow> int" where
  "size_node PNull = 0"
| "size_node (PNode k v s c) = 1 + size_children c"
| "size_children PNull = 0"
| "size_children (PNode k' v' s' c') = size_node (PNode k' v' s' c') + size_children s'"
  by pat_completeness auto
termination
  by (relation "measure (case_sum (\<lambda>X. 2 * size X) (\<lambda>X. 2 * size X + 1))") auto

text \<open>The class: \<open>Heap\<close> is its root.\<close>

definition pheap_new :: "'v PNode" where
  "pheap_new = PNull"

definition pheap_single :: "int \<Rightarrow> 'v \<Rightarrow> 'v PNode" where
  "pheap_single k v = PNode k v PNull PNull"

definition pheap_insert :: "int \<Rightarrow> 'v \<Rightarrow> 'v PNode \<Rightarrow> 'v PNode result" where
  "pheap_insert k v root_node = merge_node root_node (PNode k v PNull PNull)"

definition pheap_merge_with :: "'v PNode \<Rightarrow> 'v PNode \<Rightarrow> ('v PNode \<times> 'v PNode) result" where
  "pheap_merge_with root_node other = ebind (merge_node root_node other) (\<lambda>r. Inr (r, PNull))"

definition pheap_delete_min :: "'v PNode \<Rightarrow> ((int \<times> 'v) \<times> 'v PNode) result" where
  "pheap_delete_min oldroot = (case oldroot of
     PNull \<Rightarrow> Inl AssertFail
   | PNode k v s c \<Rightarrow> ebind (merge_pairs_node c) (\<lambda>r. Inr ((k, v), r)))"

definition pheap_check :: "'v PNode \<Rightarrow> unit result" where
  "pheap_check root_node = check_node root_node None"

definition pheap_size :: "'v PNode \<Rightarrow> int" where
  "pheap_size root_node = size_node root_node"

section \<open>The invariant\<close>

text \<open>The entries below a node, its siblings included, and heap order under a bound.\<close>

fun pents :: "'v PNode \<Rightarrow> (int \<times> 'v) multiset" where
  "pents PNull = {#}"
| "pents (PNode k v s c) = add_mset (k, v) (pents c + pents s)"

fun pord :: "'v PNode \<Rightarrow> bool" where
  "pord PNull = True"
| "pord (PNode k v s c) \<longleftrightarrow> pord s \<and> pord c \<and> (\<forall>(k', v') \<in># pents c. k \<le> k')"

definition pheap_inv :: "'v PNode \<Rightarrow> bool" where
  "pheap_inv X \<longleftrightarrow> no_sibling X \<and> pord X"

lemma check_ord:
  "check_node X ub = Inr () \<longleftrightarrow> (case X of PNull \<Rightarrow> True | PNode k v s c \<Rightarrow> pord c \<and> (\<forall>(k', v') \<in># pents c. k \<le> k') \<and>
     (case ub of None \<Rightarrow> True | Some b \<Rightarrow> b \<le> k))"
  "check_children X b = Inr () \<longleftrightarrow> pord X \<and> (\<forall>(k', v') \<in># pents X. b \<le> k')"
proof (induction X ub and X b rule: check_node_check_children.induct)
  case (2 k v s c ub)
  then show ?case by (auto simp: result_simps)
next
  case (4 k' v' s' c' k)
  then show ?case by (auto simp: result_simps)
qed simp_all

lemma size_ents: "int (size (pents X)) = size_children X"
  by (induction X) simp_all

lemma no_sibling_cases: "no_sibling X \<longleftrightarrow> X = PNull \<or> (\<exists>k v c. X = PNode k v PNull c)"
  by (cases X rule: no_sibling.cases) auto

lemma merge_ok:
  assumes "pheap_inv X" "pheap_inv Y"
  shows "\<exists>Z. merge_node X Y = Inr Z \<and> pheap_inv Z \<and> pents Z = pents X + pents Y"
proof (cases "X = PNull \<or> Y = PNull")
  case True
  then show ?thesis using assms by (auto simp: merge_node_def pheap_inv_def split: PNode.splits)
next
  case False
  then obtain kx vx cx ky vy cy where xy: "X = PNode kx vx PNull cx" "Y = PNode ky vy PNull cy"
    using assms by (auto simp: pheap_inv_def no_sibling_cases)
  have o: "pord cx" "pord cy" "\<forall>(k, v) \<in># pents cx. kx \<le> k" "\<forall>(k, v) \<in># pents cy. ky \<le> k"
    using assms by (simp_all add: pheap_inv_def xy)
  show ?thesis
  proof (cases "kx \<le> ky")
    case True
    then have "\<forall>(k, v) \<in># pents cy. kx \<le> k" using o(4) by fastforce
    then show ?thesis using True o by (simp add: merge_node_def xy pheap_inv_def ball_Un add.commute)
  next
    case False
    then have "\<forall>(k, v) \<in># pents cx. ky \<le> k" using o(3) by fastforce
    then show ?thesis using False o by (simp add: merge_node_def xy pheap_inv_def ball_Un add.commute)
  qed
qed

lemma merge_pairs_ok:
  assumes "pord X"
  shows "\<exists>Z. merge_pairs_node X = Inr Z \<and> pheap_inv Z \<and> pents Z = pents X"
  using assms
proof (induction X rule: merge_pairs_node.induct)
  case (3 kx vx ky vy rest cy cx)
  obtain A where A: "merge_node (PNode kx vx PNull cx) (PNode ky vy PNull cy) = Inr A" "pheap_inv A"
    "pents A = pents (PNode kx vx PNull cx) + pents (PNode ky vy PNull cy)"
    using merge_ok[of "PNode kx vx PNull cx" "PNode ky vy PNull cy"] 3(2) by (auto simp: pheap_inv_def)
  then obtain R where R: "merge_pairs_node rest = Inr R" "pheap_inv R" "pents R = pents rest" using 3 by auto
  obtain Z where "merge_node A R = Inr Z" "pheap_inv Z" "pents Z = pents A + pents R" using merge_ok[OF A(2) R(2)] by blast
  then show ?case using A(1,3) R(1,3) by (simp add: add.assoc add.left_commute)
qed (auto simp: pheap_inv_def)

interpretation ph: min_queue PNull pheap_insert pheap_delete_min pheap_inv pents K
proof (unfold_locales, goal_cases)
  case (3 q k v)
  then show ?case using merge_ok[of q "PNode k v PNull PNull"] by (auto simp: pheap_insert_def pheap_inv_def)
next
  case (4 q)
  then obtain k v c where q: "q = PNode k v PNull c" by (auto simp: pheap_inv_def no_sibling_cases)
  then obtain r where r: "merge_pairs_node c = Inr r" "pheap_inv r" "pents r = pents c"
    using merge_pairs_ok[of c] 4(1) by (auto simp: pheap_inv_def)
  have "\<forall>(k', v') \<in># pents q. k \<le> k'" using 4(1) q by (auto simp: pheap_inv_def)
  then show ?case using q r by (auto simp: pheap_delete_min_def)
qed (simp_all add: pheap_inv_def)

section \<open>Properties\<close>

text \<open>
  C21. Inserting any entries into an empty pairing heap and removing the least as often returns
  exactly these entries in the order of their keys; no assertion fails on the way (\<open>merge_node\<close>
  never meets a node with siblings), and the heap is empty at the end.
\<close>

theorem pairing_heap_sorts:
  "\<exists>q ys q'. fill_queue pheap_insert xs pheap_new = Inr q \<and> drain_queue pheap_delete_min (length xs) q = Inr (ys, q') \<and>
    mset ys = mset xs \<and> sorted (map fst ys) \<and> pheap_size q = int (length xs) \<and> pheap_check q = Inr () \<and> q' = PNull"
proof -
  define K where "K = Max (insert 0 (fst ` set xs))"
  have K: "\<forall>(k, v) \<in> set xs. k \<le> K" unfolding K_def by (auto intro!: Max_ge image_eqI)
  obtain q where q: "fill_queue pheap_insert xs PNull = Inr q" "pheap_inv q" "pents q = mset xs"
    using ph.fill_ok[of PNull xs K] K by (auto simp: pheap_inv_def)
  obtain ys q' where d: "drain_queue pheap_delete_min (size (pents q)) q = Inr (ys, q')" "pents q' = {#}" "mset ys = pents q" "sorted (map fst ys)"
    using ph.drain_ok[OF q(2)] by blast
  have "q' = PNull" using d(2) by (cases q') auto
  moreover have "pheap_size q = int (length xs)"
    using q(2) arg_cong[OF q(3), of size] size_ents[of q] by (auto simp: pheap_size_def pheap_inv_def no_sibling_cases)
  moreover have "pheap_check q = Inr ()"
    using q(2) by (auto simp: pheap_check_def check_ord pheap_inv_def no_sibling_cases split: PNode.splits)
  ultimately show ?thesis using q d by (auto simp: pheap_new_def)
qed

end
