(* ===== verification/Array_Util.thy ===== *)
theory Array_Util
  imports PWSA_Prelude
begin

text \<open>
  The parallel array operations of \<open>src/src/old/array_util.hpp\<close>: prefix sums by an up-sweep and a
  down-sweep over a tree in an array, filtering by prefix sums, append, quickselect, reduce and all.
  A freshly allocated cell is \<open>None\<close>. The two branches of \<open>fork2\<close> write disjoint cells, so they are
  run one after the other; the iterations of a \<open>parallel_for\<close> run in any given order; the choice
  of the granularity controller between the parallel and the sequential body is a parameter, and so
  are the values of \<open>rand\<close>. Sums are mathematical integers.
\<close>

section \<open>The program\<close>

definition my_malloc :: "int \<Rightarrow> 'a option list result" where
  "my_malloc n = (if n < 0 then Inl AssertFail else Inr (replicate (nat n) None))"

definition cell_get :: "'a option list \<Rightarrow> nat \<Rightarrow> 'a result" where
  "cell_get xs i = ebind (arr_get xs (int i)) (\<lambda>c. case c of None \<Rightarrow> Inl UninitRead | Some x \<Rightarrow> Inr x)"

definition cell_set :: "'a option list \<Rightarrow> nat \<Rightarrow> 'a \<Rightarrow> 'a option list result" where
  "cell_set xs i x = arr_set xs (int i) (Some x)"

function plus_up_sweep ::
  "(nat \<Rightarrow> 'a \<Rightarrow> int) \<Rightarrow> 'a list \<Rightarrow> nat \<Rightarrow> nat \<Rightarrow> int option list \<Rightarrow> nat \<Rightarrow> int option list result" where
  "plus_up_sweep lift xs lo hi tree tree_idx =
     (let n = hi - lo in
      if n = 0 then Inr tree
      else if n = 1 then ebind (arr_get xs (int lo)) (\<lambda>x. cell_set tree tree_idx (lift lo x))
      else let half = n div 2; left_idx = tree_idx + 1; right_idx = tree_idx + 2 * half in
        ebind (plus_up_sweep lift xs lo (lo + half) tree left_idx) (\<lambda>tree.
        ebind (plus_up_sweep lift xs (lo + half) hi tree right_idx) (\<lambda>tree.
        ebind (cell_get tree left_idx) (\<lambda>a.
        ebind (cell_get tree right_idx) (\<lambda>b. cell_set tree tree_idx (a + b))))))"
  by pat_completeness auto
termination
  by (relation "measure (\<lambda>(lift, xs, lo, hi, tree, tree_idx). hi - lo)") auto

function plus_down_sweep ::
  "int \<Rightarrow> int option list \<Rightarrow> nat \<Rightarrow> int option list \<Rightarrow> nat \<Rightarrow> nat \<Rightarrow> int option list result" where
  "plus_down_sweep left_val tree tree_idx out lo hi =
     (let n = hi - lo in
      if n = 0 then Inr out
      else if n = 1 then ebind (cell_get tree tree_idx) (\<lambda>a. cell_set out (lo + 1) (left_val + a))
      else let half = n div 2; left_idx = tree_idx + 1; right_idx = tree_idx + 2 * half in
        ebind (cell_get tree left_idx) (\<lambda>a.
          let right_left_val = left_val + a in
          ebind (plus_down_sweep left_val tree left_idx out lo (lo + half)) (\<lambda>out.
            plus_down_sweep right_left_val tree right_idx out (lo + half) hi)))"
  by pat_completeness auto
termination
  by (relation "measure (\<lambda>(left_val, tree, tree_idx, out, lo, hi). hi - lo)") auto

declare plus_up_sweep.simps [simp del] plus_down_sweep.simps [simp del]

definition plus_scan :: "(nat \<Rightarrow> 'a \<Rightarrow> int) \<Rightarrow> 'a list \<Rightarrow> nat \<Rightarrow> int option list result" where
  "plus_scan lift xs n =
     ebind (my_malloc (2 * int n - 1)) (\<lambda>tree.
     ebind (plus_up_sweep lift xs 0 n tree 0) (\<lambda>tree.
     ebind (my_malloc (int n + 1)) (\<lambda>out.
     ebind (plus_down_sweep 0 tree 0 out 0 n) (\<lambda>out. cell_set out 0 0))))"

definition filter_body :: "'a list \<Rightarrow> int option list \<Rightarrow> nat \<Rightarrow> 'a option list \<Rightarrow> 'a option list result" where
  "filter_body xs offsets i out =
     ebind (cell_get offsets i) (\<lambda>a. ebind (cell_get offsets (i + 1)) (\<lambda>b.
       if a + 1 = b then ebind (arr_get xs (int i)) (\<lambda>x. arr_set out a (Some x)) else Inr out))"

definition filter_arr :: "(nat \<Rightarrow> 'a \<Rightarrow> bool) \<Rightarrow> nat list \<Rightarrow> 'a list \<Rightarrow> nat \<Rightarrow> ('a option list \<times> int) result" where
  "filter_arr pred order xs n =
     ebind (plus_scan (\<lambda>i x. of_bool (pred i x)) xs n) (\<lambda>offsets.
     ebind (cell_get offsets n) (\<lambda>final_len.
     ebind (my_malloc final_len) (\<lambda>out.
     ebind (efold (filter_body xs offsets) order out) (\<lambda>out. Inr (out, final_len)))))"

definition append_body :: "'a list \<Rightarrow> nat \<Rightarrow> 'a list \<Rightarrow> nat \<Rightarrow> 'a option list \<Rightarrow> 'a option list result" where
  "append_body xs n ys i out =
     (if i < n then ebind (arr_get xs (int i)) (\<lambda>x. cell_set out i x)
      else ebind (arr_get ys (int i - int n)) (\<lambda>y. cell_set out i y))"

definition append_arr :: "nat list \<Rightarrow> 'a list \<Rightarrow> nat \<Rightarrow> 'a list \<Rightarrow> nat \<Rightarrow> 'a option list result" where
  "append_arr order xs n ys m =
     ebind (my_malloc (int n + int m)) (\<lambda>out. efold (append_body xs n ys) order out)"

text \<open>The cells of an array that is known to be filled.\<close>

definition filled :: "'a option list \<Rightarrow> 'a list result" where
  "filled xs = (if None \<in> set xs then Inl UninitRead else Inr (map the xs))"

text \<open>The numbers \<open>rnd t\<close> are the results of the calls of \<open>rand\<close>.\<close>

partial_function (option) quickselect ::
  "('a \<Rightarrow> 'a \<Rightarrow> int) \<Rightarrow> (nat \<Rightarrow> nat) \<Rightarrow> nat \<Rightarrow> int \<Rightarrow> 'a list \<Rightarrow> 'a result option" where
  "quickselect cmp rnd t k xs =
     (let n = length xs in
      if \<not> (0 \<le> k \<and> k < int n) then Some (Inl AssertFail)
      else if n = 1 then Some (Inr (xs ! 0))
      else let pivot = xs ! (rnd t mod n) in
        case filter_arr (\<lambda>i other. cmp other pivot < 0) [0..<n] xs n of
          Inl e \<Rightarrow> Some (Inl e)
        | Inr (L, Ln) \<Rightarrow> (case filter_arr (\<lambda>i other. cmp other pivot > 0) [0..<n] xs n of
            Inl e \<Rightarrow> Some (Inl e)
          | Inr (R, Rn) \<Rightarrow>
              if k < Ln then (case filled L of Inl e \<Rightarrow> Some (Inl e) | Inr l \<Rightarrow> quickselect cmp rnd (t + 1) k l)
              else if k < int n - Rn then Some (Inr pivot)
              else (case filled R of Inl e \<Rightarrow> Some (Inl e) | Inr r \<Rightarrow> quickselect cmp rnd (t + 1) (k - (int n - Rn)) r)))"

declare quickselect.simps [code]

fun seq_loop :: "('b \<Rightarrow> 'b \<Rightarrow> 'b) \<Rightarrow> ('a \<Rightarrow> 'b) \<Rightarrow> 'a list \<Rightarrow> nat \<Rightarrow> nat \<Rightarrow> 'b \<Rightarrow> 'b result" where
  "seq_loop binop lift xs i 0 r = Inr r"
| "seq_loop binop lift xs i (Suc m) r = ebind (arr_get xs (int i)) (\<lambda>x. seq_loop binop lift xs (i + 1) m (binop r (lift x)))"

function reduce :: "(nat \<Rightarrow> nat \<Rightarrow> bool) \<Rightarrow> ('a \<Rightarrow> 'b) \<Rightarrow> ('b \<Rightarrow> 'b \<Rightarrow> 'b) \<Rightarrow> 'b \<Rightarrow> 'a list \<Rightarrow> nat \<Rightarrow> nat \<Rightarrow> 'b result" where
  "reduce par lift binop ident xs lo hi =
     (if \<not> par lo hi \<or> hi \<le> lo + 2 then seq_loop binop lift xs lo (hi - lo) ident
      else let m = lo + (hi - lo) div 2 in
        ebind (reduce par lift binop ident xs lo m) (\<lambda>v1.
        ebind (reduce par lift binop ident xs m hi) (\<lambda>v2. Inr (binop v1 v2))))"
  by pat_completeness auto
termination
  by (relation "measure (\<lambda>(par, lift, binop, ident, xs, lo, hi). hi - lo)") auto

declare reduce.simps [simp del]

fun seq_all :: "('a \<Rightarrow> bool) \<Rightarrow> 'a list \<Rightarrow> nat \<Rightarrow> nat \<Rightarrow> bool \<Rightarrow> bool result" where
  "seq_all lift xs i 0 r = Inr r"
| "seq_all lift xs i (Suc m) r =
     (if r then ebind (arr_get xs (int i)) (\<lambda>x. seq_all lift xs (i + 1) m (lift x)) else seq_all lift xs (i + 1) m False)"

function all_arr :: "(nat \<Rightarrow> nat \<Rightarrow> bool) \<Rightarrow> ('a \<Rightarrow> bool) \<Rightarrow> 'a list \<Rightarrow> nat \<Rightarrow> nat \<Rightarrow> bool result" where
  "all_arr par lift xs lo hi =
     (if \<not> par lo hi \<or> hi \<le> lo + 2 then seq_all lift xs lo (hi - lo) True
      else let m = lo + (hi - lo) div 2 in
        ebind (all_arr par lift xs lo m) (\<lambda>v1. ebind (all_arr par lift xs m hi) (\<lambda>v2. Inr (v1 \<and> v2))))"
  by pat_completeness auto
termination
  by (relation "measure (\<lambda>(par, lift, xs, lo, hi). hi - lo)") auto

declare all_arr.simps [simp del]

section \<open>Prefix sums\<close>

lemma cell_get_iff: "cell_get xs i = Inr x \<longleftrightarrow> i < length xs \<and> xs ! i = Some x"
  by (auto simp: cell_get_def result_simps split: option.splits)

lemma cell_set_ok [simp]: "i < length xs \<Longrightarrow> cell_set xs i x = Inr (xs[i := Some x])"
  by (simp add: cell_set_def)

text \<open>
  The tree below \<open>idx\<close> holds the sums of the \<open>n\<close> values from \<open>lo\<close> on; it takes the \<open>2n - 1\<close> cells from
  \<open>idx\<close> on.
\<close>

function tree_sums :: "(nat \<Rightarrow> int) \<Rightarrow> nat \<Rightarrow> nat \<Rightarrow> int option list \<Rightarrow> nat \<Rightarrow> bool" where
  "tree_sums f lo n tree idx \<longleftrightarrow> (if n = 0 then True else idx + 2 * n - 1 \<le> length tree \<and> tree ! idx = Some (sum f {lo..<lo + n}) \<and>
     (if n = 1 then True
      else tree_sums f lo (n div 2) tree (idx + 1) \<and> tree_sums f (lo + n div 2) (n - n div 2) tree (idx + 2 * (n div 2))))"
  by pat_completeness auto
termination
  by (relation "measure (\<lambda>(f, lo, n, tree, idx). n)") auto

declare tree_sums.simps [simp del]

lemma tree_sums_root:
  assumes "tree_sums f lo n tree idx" "0 < n"
  shows "cell_get tree idx = Inr (sum f {lo..<lo + n})"
  using assms by (subst (asm) tree_sums.simps) (auto simp: cell_get_iff)

lemma tree_sums_cong:
  assumes "tree_sums f lo n tree idx" "length tree' = length tree"
    "\<And>i. \<lbrakk>idx \<le> i; i < idx + 2 * n - 1\<rbrakk> \<Longrightarrow> tree' ! i = tree ! i"
  shows "tree_sums f lo n tree' idx"
  using assms
proof (induction n arbitrary: lo idx rule: less_induct)
  case (less n)
  note t = less.prems(1)[unfolded tree_sums.simps[of f lo n tree idx]]
  show ?case
  proof (cases "n \<le> 1")
    case True
    then have "n = 0 \<or> n = 1" by auto
    then show ?thesis using t less.prems(2,3) by (auto simp: tree_sums.simps[of f lo n tree'])
  next
    case False
    have "tree_sums f lo (n div 2) tree' (idx + 1)" using t False less.prems(2,3) by (intro less.IH) auto
    moreover have "tree_sums f (lo + n div 2) (n - n div 2) tree' (idx + 2 * (n div 2))"
      using t False less.prems(2,3) by (intro less.IH) auto
    ultimately show ?thesis using t False less.prems(2,3) by (simp add: tree_sums.simps[of f lo n tree'])
  qed
qed

lemma sum_halves: "h \<le> n \<Longrightarrow> sum f {lo..<lo + h} + sum f {lo + h..<lo + n} = sum f {lo..<lo + n :: nat}"
  by (rule sum.atLeastLessThan_concat) auto

lemma up_sweep_ok:
  fixes xs :: "'a list"
  assumes "lo + n \<le> length xs" "n = 0 \<or> idx + 2 * n - 1 \<le> length tree"
  shows "\<exists>tree'. plus_up_sweep lift xs lo (lo + n) tree idx = Inr tree' \<and> length tree' = length tree \<and>
    tree_sums (\<lambda>i. lift i (xs ! i)) lo n tree' idx \<and> (\<forall>i. i < idx \<or> idx + 2 * n - 1 \<le> i \<longrightarrow> tree' ! i = tree ! i)"
  using assms
proof (induction n arbitrary: lo tree idx rule: less_induct)
  case (less n)
  let ?f = "\<lambda>i. lift i (xs ! i)"
  consider "n = 0" | "n = 1" | "2 \<le> n" by linarith
  then show ?case
  proof cases
    case 1
    then show ?thesis by (subst plus_up_sweep.simps) (auto simp: tree_sums.simps)
  next
    case 2
    then show ?thesis using less.prems by (subst plus_up_sweep.simps) (auto simp: tree_sums.simps)
  next
    case 3
    define h where "h = n div 2"
    have n: "0 < h" "h < n" "n \<noteq> 0" "n \<noteq> 1" and len: "idx + 2 * n - 1 \<le> length tree" using 3 less.prems(2) by (auto simp: h_def)
    have p1: "lo + h \<le> length xs" "h = 0 \<or> idx + 1 + 2 * h - 1 \<le> length tree" using less.prems(1) n len by auto
    from less.IH[OF n(2) p1] obtain t1 where
      t1: "plus_up_sweep lift xs lo (lo + h) tree (idx + 1) = Inr t1" "length t1 = length tree" "tree_sums ?f lo h t1 (idx + 1)"
        "\<forall>i. i < idx + 1 \<or> idx + 1 + 2 * h - 1 \<le> i \<longrightarrow> t1 ! i = tree ! i" by (elim exE conjE)
    have p2: "n - h < n" "lo + h + (n - h) \<le> length xs" "n - h = 0 \<or> idx + 2 * h + 2 * (n - h) - 1 \<le> length t1"
      and hi: "lo + h + (n - h) = lo + n" using less.prems(1) n len t1(2) by auto
    from less.IH[OF p2] obtain t2 where
      t2: "plus_up_sweep lift xs (lo + h) (lo + n) t1 (idx + 2 * h) = Inr t2" "length t2 = length tree"
        "tree_sums ?f (lo + h) (n - h) t2 (idx + 2 * h)"
        "\<forall>i. i < idx + 2 * h \<or> idx + 2 * h + 2 * (n - h) - 1 \<le> i \<longrightarrow> t2 ! i = t1 ! i" unfolding hi t1(2) by (elim exE conjE)
    have l2: "tree_sums ?f lo h t2 (idx + 1)" by (rule tree_sums_cong[OF t1(3)]) (use t1(2) t2(2,4) in auto)
    have a: "cell_get t2 (idx + 1) = Inr (sum ?f {lo..<lo + h})" using tree_sums_root[OF l2 n(1)] .
    have b: "cell_get t2 (idx + 2 * h) = Inr (sum ?f {lo + h..<lo + n})" using tree_sums_root[OF t2(3)] n(2) hi by simp
    define t3 where "t3 = t2[idx := Some (sum ?f {lo..<lo + n})]"
    have s: "sum ?f {lo..<lo + h} + sum ?f {lo + h..<lo + n} = sum ?f {lo..<lo + n}" using n(2) by (intro sum_halves) simp
    have run: "plus_up_sweep lift xs lo (lo + n) tree idx = Inr t3"
      using n len t1(1) t2(1,2) a b s by (subst plus_up_sweep.simps) (simp add: Let_def t3_def h_def)
    have "tree_sums ?f lo h t3 (idx + 1)" by (rule tree_sums_cong[OF l2]) (auto simp: t3_def)
    moreover have "tree_sums ?f (lo + h) (n - h) t3 (idx + 2 * h)" by (rule tree_sums_cong[OF t2(3)]) (use n in \<open>auto simp: t3_def\<close>)
    ultimately have "tree_sums ?f lo n t3 idx"
      using len t2(2) n by (simp add: tree_sums.simps[of ?f lo n] h_def[symmetric]) (simp add: t3_def)
    moreover have "t3 ! i = tree ! i" if "i < idx \<or> idx + 2 * n - 1 \<le> i" for i
    proof -
      have "i \<noteq> idx" "i < idx + 2 * h \<or> idx + 2 * h + 2 * (n - h) - 1 \<le> i" "i < idx + 1 \<or> idx + 1 + 2 * h - 1 \<le> i"
        using that n by auto
      then show ?thesis using t1(4) t2(4) by (auto simp: t3_def)
    qed
    ultimately show ?thesis using run t2(2) by (intro exI[of _ t3]) (simp add: t3_def)
  qed
qed

lemma down_sweep_ok:
  assumes "lo + n < length out" "tree_sums f lo n tree idx"
  shows "\<exists>out'. plus_down_sweep lv tree idx out lo (lo + n) = Inr out' \<and> length out' = length out \<and>
    (\<forall>i. lo < i \<and> i \<le> lo + n \<longrightarrow> out' ! i = Some (lv + sum f {lo..<i})) \<and> (\<forall>i. i \<le> lo \<or> lo + n < i \<longrightarrow> out' ! i = out ! i)"
  using assms
proof (induction n arbitrary: lo idx lv out rule: less_induct)
  case (less n)
  consider "n = 0" | "n = 1" | "2 \<le> n" by linarith
  then show ?case
  proof cases
    case 1
    then show ?thesis by (subst plus_down_sweep.simps) auto
  next
    case 2
    have c: "cell_get tree idx = Inr (f lo)" using tree_sums_root[OF less.prems(2)] 2 by simp
    have run: "plus_down_sweep lv tree idx out lo (lo + n) = Inr (out[Suc lo := Some (lv + f lo)])"
      using less.prems(1) c 2 by (subst plus_down_sweep.simps) simp
    show ?thesis unfolding run using less.prems(1) 2 by (auto simp: nth_list_update le_Suc_eq)
  next
    case 3
    define h where "h = n div 2"
    have n: "0 < h" "h < n" "n \<noteq> 0" "n \<noteq> 1" using 3 by (auto simp: h_def)
    have t: "tree_sums f lo h tree (idx + 1)" "tree_sums f (lo + h) (n - h) tree (idx + 2 * h)"
      using less.prems(2) n by (auto simp: tree_sums.simps[of f lo n] h_def)
    have c: "cell_get tree (idx + 1) = Inr (sum f {lo..<lo + h})" using tree_sums_root[OF t(1) n(1)] .
    have "lo + h < length out" using less.prems(1) n by simp
    from less.IH[OF n(2) this t(1), of lv] obtain o1 where
      o1: "plus_down_sweep lv tree (idx + 1) out lo (lo + h) = Inr o1" "length o1 = length out"
        "\<forall>i. lo < i \<and> i \<le> lo + h \<longrightarrow> o1 ! i = Some (lv + sum f {lo..<i})" "\<forall>i. i \<le> lo \<or> lo + h < i \<longrightarrow> o1 ! i = out ! i"
      by (elim exE conjE)
    have p2: "n - h < n" "lo + h + (n - h) < length o1" and hi: "lo + h + (n - h) = lo + n" using less.prems(1) n o1(2) by auto
    from less.IH[OF p2 t(2), of "lv + sum f {lo..<lo + h}"] obtain o2 where
      o2: "plus_down_sweep (lv + sum f {lo..<lo + h}) tree (idx + 2 * h) o1 (lo + h) (lo + n) = Inr o2" "length o2 = length out"
        "\<forall>i. lo + h < i \<and> i \<le> lo + n \<longrightarrow> o2 ! i = Some (lv + sum f {lo..<lo + h} + sum f {lo + h..<i})"
        "\<forall>i. i \<le> lo + h \<or> lo + n < i \<longrightarrow> o2 ! i = o1 ! i" unfolding hi o1(2) by (elim exE conjE)
    have run: "plus_down_sweep lv tree idx out lo (lo + n) = Inr o2"
      using n c o1(1) o2(1) by (subst plus_down_sweep.simps) (simp add: Let_def h_def)
    have "o2 ! i = Some (lv + sum f {lo..<i})" if "lo < i" "i \<le> lo + n" for i
    proof (cases "i \<le> lo + h")
      case True
      then show ?thesis using o2(4) o1(3) that by simp
    next
      case False
      have "sum f {lo..<lo + h} + sum f {lo + h..<i} = sum f {lo..<i}"
        using False by (intro sum.atLeastLessThan_concat) auto
      then show ?thesis using o2(3) that False by (simp add: add.assoc)
    qed
    moreover have "o2 ! i = out ! i" if "i \<le> lo \<or> lo + n < i" for i using that o1(4) o2(4) n by auto
    ultimately show ?thesis using run o2(2) by auto
  qed
qed

lemma plus_scan_ok:
  assumes "n \<le> length xs" "0 < n"
  shows "plus_scan lift xs n = Inr (map (\<lambda>i. Some (\<Sum>j<i. lift j (xs ! j))) [0..<n + 1])"
proof -
  let ?f = "\<lambda>i. lift i (xs ! i)"
  let ?t = "replicate (2 * n - 1) None :: int option list" and ?o = "replicate (n + 1) None :: int option list"
  have m: "my_malloc (2 * int n - 1) = Inr ?t" "my_malloc (int n + 1) = Inr ?o"
    using assms by (auto simp: my_malloc_def nat_diff_distrib nat_add_distrib nat_mult_distrib)
  obtain t where t: "plus_up_sweep lift xs 0 n ?t 0 = Inr t" "tree_sums ?f 0 n t 0"
    using up_sweep_ok[of 0 n xs 0 ?t lift] assms by auto
  obtain o1 where o1: "plus_down_sweep 0 t 0 ?o 0 n = Inr o1" "length o1 = n + 1"
    "\<forall>i. 0 < i \<and> i \<le> n \<longrightarrow> o1 ! i = Some (0 + sum ?f {0..<i})"
    using down_sweep_ok[of 0 n ?o ?f t 0 0] t(2) by auto
  have "o1[0 := Some 0] = map (\<lambda>i. Some (\<Sum>j<i. ?f j)) [0..<n + 1]"
  proof (rule nth_equalityI)
    fix i assume "i < length (o1[0 := Some 0])"
    then have "i \<le> n" using o1(2) by simp
    then show "o1[0 := Some 0] ! i = map (\<lambda>i. Some (\<Sum>j<i. ?f j)) [0..<n + 1] ! i"
      using o1(2,3) by (cases "i = 0") (auto simp: lessThan_atLeast0 simp del: upt_Suc)
  qed (use o1(2) in simp)
  then show ?thesis using m t(1) o1(1,2) by (simp add: plus_scan_def)
qed

section \<open>Filtering\<close>

definition selected :: "(nat \<Rightarrow> bool) \<Rightarrow> nat \<Rightarrow> nat list" where
  "selected P n = filter P [0..<n]"

lemma selected_count: "(\<Sum>j<i. of_bool (P j)) = int (length (selected P i))"
  by (induction i) (auto simp: selected_def)

lemma selected_position:
  assumes "i < n" "P i"
  shows "length (selected P i) < length (selected P n)" "selected P n ! length (selected P i) = i"
proof -
  have "[0..<n] = [0..<i] @ i # [Suc i..<n]" using assms(1) by (metis le_add_same_cancel1 less_imp_add_positive upt_add_eq_append upt_conv_Cons zero_le)
  then have "selected P n = selected P i @ i # filter P [Suc i..<n]" using assms(2) by (simp add: selected_def)
  then show "length (selected P i) < length (selected P n)" "selected P n ! length (selected P i) = i" by simp_all
qed

lemma filter_arr_ok:
  assumes n: "n = length xs" "0 < n" and order: "mset order = mset [0..<n]"
  shows "filter_arr pred order xs n =
    Inr (map (\<lambda>i. Some (xs ! i)) (selected (\<lambda>i. pred i (xs ! i)) n), int (length (selected (\<lambda>i. pred i (xs ! i)) n)))"
proof -
  let ?P = "\<lambda>i. pred i (xs ! i)"
  let ?s = "selected ?P n"
  define off where "off = map (\<lambda>i. Some (int (length (selected ?P i)))) [0..<n + 1]"
  have scan: "plus_scan (\<lambda>i x. of_bool (pred i x)) xs n = Inr off"
    using plus_scan_ok[of n xs "\<lambda>i x. of_bool (pred i x)"] n by (simp add: off_def selected_count[of ?P] del: upt_Suc)
  have get: "cell_get off i = Inr (int (length (selected ?P i)))" if "i \<le> n" for i
    using that by (auto simp: cell_get_iff off_def simp del: upt_Suc)
  have set: "set order = {0..<n}" using order by (metis atLeast_upt mset_eq_setD atLeast0LessThan)
  have "\<exists>out. efold (filter_body xs off) order (replicate (length ?s) None) = Inr out \<and>
      (length out = length ?s \<and> (\<forall>i \<in> set order. ?P i \<longrightarrow> out ! length (selected ?P i) = Some (xs ! i)))"
  proof (rule efold_invariant[where I = "\<lambda>is out. length out = length ?s \<and> (\<forall>i \<in> set is. ?P i \<longrightarrow> out ! length (selected ?P i) = Some (xs ! i))"])
    fix pre i out
    assume i: "\<exists>post. order = pre @ i # post"
      and out: "length out = length ?s \<and> (\<forall>i \<in> set pre. ?P i \<longrightarrow> out ! length (selected ?P i) = Some (xs ! i))"
    have "i < n" and pre: "\<And>j. j \<in> set pre \<Longrightarrow> j < n" using i set by auto
    have step: "length (selected ?P (i + 1)) = length (selected ?P i) + of_bool (?P i)" by (simp add: selected_def)
    show "\<exists>out'. filter_body xs off i out = Inr out' \<and>
        (length out' = length ?s \<and> (\<forall>j \<in> set (pre @ [i]). ?P j \<longrightarrow> out' ! length (selected ?P j) = Some (xs ! j)))"
    proof (cases "?P i")
      case True
      let ?out = "out[length (selected ?P i) := Some (xs ! i)]"
      note pos = selected_position[OF \<open>i < n\<close>, of ?P, OF True]
      have "filter_body xs off i out = Inr ?out"
        using \<open>i < n\<close> get[of i] get[of "i + 1"] step True pos(1) out n(1) by (simp add: filter_body_def)
      moreover have "?out ! length (selected ?P j) = Some (xs ! j)" if "j \<in> set (pre @ [i])" "?P j" for j
      proof (cases "length (selected ?P j) = length (selected ?P i)")
        case eq: True
        have "j < n" using that(1) pre \<open>i < n\<close> by auto
        from selected_position(2)[OF this, of ?P, OF that(2)] have "j = i" unfolding eq pos(2) by simp
        then show ?thesis using pos(1) out by simp
      next
        case False
        then show ?thesis using that out by auto
      qed
      ultimately show ?thesis using out by (intro exI[of _ ?out]) simp
    next
      case False
      then have "filter_body xs off i out = Inr out" using \<open>i < n\<close> get[of i] get[of "i + 1"] step by (simp add: filter_body_def)
      then show ?thesis using out False by auto
    qed
  qed simp
  then obtain out where out: "efold (filter_body xs off) order (replicate (length ?s) None) = Inr out" "length out = length ?s"
    "\<forall>i \<in> set order. ?P i \<longrightarrow> out ! length (selected ?P i) = Some (xs ! i)" by blast
  have "out = map (\<lambda>i. Some (xs ! i)) ?s"
  proof (rule nth_equalityI)
    fix q assume q: "q < length out"
    then have mem: "?s ! q \<in> set ?s" using out(2) by simp
    then have i: "?s ! q < n" "?P (?s ! q)" by (auto simp: selected_def)
    have "distinct ?s" by (simp add: selected_def)
    then have "length (selected ?P (?s ! q)) = q"
      using selected_position[OF i(1), of ?P, OF i(2)] q out(2) by (simp add: nth_eq_iff_index_eq)
    then show "out ! q = map (\<lambda>i. Some (xs ! i)) ?s ! q" using out(2,3) i q set by (auto dest: bspec[of _ _ "?s ! q"])
  qed (use out(2) in simp)
  then show ?thesis using scan get[of n] out(1) by (simp add: filter_arr_def my_malloc_def)
qed

lemma selected_filter: "map (\<lambda>i. xs ! i) (selected (\<lambda>i. P (xs ! i)) (length xs)) = filter P xs"
proof -
  have "filter P xs = filter P (map (\<lambda>i. xs ! i) [0..<length xs])" by (simp add: map_nth)
  also have "\<dots> = map (\<lambda>i. xs ! i) (filter (\<lambda>i. P (xs ! i)) [0..<length xs])" by (simp add: filter_map comp_def)
  finally show ?thesis by (simp add: selected_def)
qed

lemma filter_arr_list:
  assumes "xs \<noteq> []" "mset order = mset [0..<length xs]"
  shows "filter_arr (\<lambda>i. P) order xs (length xs) = Inr (map Some (filter P xs), int (length (filter P xs)))"
proof -
  have "map (\<lambda>i. Some (xs ! i)) (selected (\<lambda>i. P (xs ! i)) (length xs)) = map Some (filter P xs)"
    by (simp flip: selected_filter)
  moreover have "length (selected (\<lambda>i. P (xs ! i)) (length xs)) = length (filter P xs)"
    by (metis length_map selected_filter)
  ultimately show ?thesis using filter_arr_ok[OF refl _ assms(2), of "\<lambda>i. P"] assms(1) by simp
qed

section \<open>Append and quickselect\<close>

lemma append_arr_ok:
  assumes order: "mset order = mset [0..<length xs + length ys]"
  shows "append_arr order xs (length xs) ys (length ys) = Inr (map Some (xs @ ys))"
proof -
  let ?n = "length xs + length ys"
  have set: "set order = {0..<?n}" using order by (metis atLeast_upt mset_eq_setD atLeast0LessThan)
  have "\<exists>out. efold (append_body xs (length xs) ys) order (replicate ?n None) = Inr out \<and>
      (length out = ?n \<and> (\<forall>i \<in> set order. out ! i = Some ((xs @ ys) ! i)))"
  proof (rule efold_invariant[where I = "\<lambda>is out. length out = ?n \<and> (\<forall>i \<in> set is. out ! i = Some ((xs @ ys) ! i))"])
    fix pre i out
    assume i: "\<exists>post. order = pre @ i # post" and out: "length out = ?n \<and> (\<forall>i \<in> set pre. out ! i = Some ((xs @ ys) ! i))"
    have "i < ?n" using i set by auto
    then have "append_body xs (length xs) ys i out = Inr (out[i := Some ((xs @ ys) ! i)])"
      using out by (auto simp: append_body_def nth_append nat_diff_distrib)
    then show "\<exists>out'. append_body xs (length xs) ys i out = Inr out' \<and>
        (length out' = ?n \<and> (\<forall>j \<in> set (pre @ [i]). out' ! j = Some ((xs @ ys) ! j)))"
      using out \<open>i < ?n\<close> by (auto simp: nth_list_update)
  qed simp
  then obtain out where out: "efold (append_body xs (length xs) ys) order (replicate ?n None) = Inr out" "length out = ?n"
    "\<forall>i \<in> set order. out ! i = Some ((xs @ ys) ! i)" by blast
  have "out = map Some (xs @ ys)" by (rule nth_equalityI) (use out(2,3) set in \<open>auto simp: nth_append\<close>)
  then show ?thesis using out(1) by (simp add: append_arr_def my_malloc_def nat_add_distrib)
qed

lemma sort_three:
  "sort (ys :: int list) = sort (filter (\<lambda>y. y < v) ys) @ filter (\<lambda>y. y = v) ys @ sort (filter (\<lambda>y. v < y) ys)"
proof (rule properties_for_sort)
  show "mset (sort (filter (\<lambda>y. y < v) ys) @ filter (\<lambda>y. y = v) ys @ sort (filter (\<lambda>y. v < y) ys)) = mset ys"
    by (induction ys) auto
  have "sorted (filter (\<lambda>y. y = v) ys)" by (induction ys) auto
  then show "sorted (sort (filter (\<lambda>y. y < v) ys) @ filter (\<lambda>y. y = v) ys @ sort (filter (\<lambda>y. v < y) ys))"
    by (auto simp: sorted_append)
qed

lemma filled_Some [simp]: "filled (map Some xs) = Inr xs"
  by (auto simp: filled_def comp_def)

lemma length_three: "length ys = length (filter (\<lambda>y. y < v) ys) + length (filter (\<lambda>y. y = v) ys) + length (filter (\<lambda>y. v < y) (ys :: int list))"
  by (induction ys) auto

lemma quickselect_ok:
  fixes key :: "'a \<Rightarrow> int"
  assumes cmp: "\<And>a b. cmp a b < 0 \<longleftrightarrow> key a < key b" "\<And>a b. cmp a b > 0 \<longleftrightarrow> key b < key a"
    and "0 \<le> k" "k < int (length xs)"
  shows "\<exists>r. quickselect cmp rnd t k xs = Some (Inr r) \<and> r \<in> set xs \<and> key r = sort (map key xs) ! nat k"
  using assms(3,4)
proof (induction "length xs" arbitrary: xs k t rule: less_induct)
  case less
  show ?case
  proof (cases "length xs = 1")
    case True
    then obtain x where "xs = [x]" by (auto simp: length_Suc_conv)
    then show ?thesis using less.prems by (subst quickselect.simps) (simp add: Let_def)
  next
    case False
    let ?n = "length xs"
    define p where "p = xs ! (rnd t mod ?n)"
    define L where "L = filter (\<lambda>x. key x < key p) xs"
    define R where "R = filter (\<lambda>x. key p < key x) xs"
    let ?ks = "map key xs"
    have ne: "xs \<noteq> []" using less.prems by auto
    then have p: "p \<in> set xs" unfolding p_def by (intro nth_mem mod_less_divisor) simp
    have fl: "filter_arr (\<lambda>i other. cmp other p < 0) [0..<?n] xs ?n = Inr (map Some L, int (length L))"
      "filter_arr (\<lambda>i other. cmp other p > 0) [0..<?n] xs ?n = Inr (map Some R, int (length R))"
      using filter_arr_list[OF ne refl, of "\<lambda>x. cmp x p < 0"] filter_arr_list[OF ne refl, of "\<lambda>x. cmp x p > 0"]
      by (simp_all add: cmp L_def R_def)
    have keys: "map key L = filter (\<lambda>y. y < key p) ?ks" "map key R = filter (\<lambda>y. key p < y) ?ks"
      by (simp_all add: L_def R_def filter_map comp_def)
    have lens: "length L = length (filter (\<lambda>y. y < key p) ?ks)" "length R = length (filter (\<lambda>y. key p < y) ?ks)"
      using arg_cong[OF keys(1), of length] arg_cong[OF keys(2), of length] by (simp_all only: length_map)
    have three: "sort ?ks = sort (map key L) @ filter (\<lambda>y. y = key p) ?ks @ sort (map key R)"
      unfolding keys by (rule sort_three)
    have len: "?n = length L + length (filter (\<lambda>y. y = key p) ?ks) + length R"
      using length_three[of ?ks "key p"] lens by simp
    have "key p \<in> set (filter (\<lambda>y. y = key p) ?ks)" using p by auto
    then have "0 < length (filter (\<lambda>y. y = key p) ?ks)" by (rule length_pos_if_in_set)
    then have short: "length L < ?n" "length R < ?n" using len by linarith+
    have unfold: "quickselect cmp rnd t k xs =
      (if k < int (length L) then quickselect cmp rnd (t + 1) k L
       else if k < int ?n - int (length R) then Some (Inr p)
       else quickselect cmp rnd (t + 1) (k - (int ?n - int (length R))) R)"
      using less.prems False fl by (subst quickselect.simps) (simp add: Let_def p_def[symmetric])
    show ?thesis
    proof (cases "k < int (length L)")
      case True
      from less.hyps[OF short(1) less.prems(1) True, of "t + 1"] show ?thesis
        using True less.prems(1) unfolding unfold three by (auto simp: nth_append L_def nat_less_iff)
    next
      case nl: False
      show ?thesis
      proof (cases "k < int ?n - int (length R)")
        case True
        let ?E = "filter (\<lambda>y. y = key p) ?ks"
        have "nat k - length L < length ?E" using True nl len by linarith
        then have "?E ! (nat k - length L) \<in> set ?E" by (rule nth_mem)
        then have "sort ?ks ! nat k = key p"
          unfolding three using nl \<open>nat k - length L < length ?E\<close> by (auto simp: nth_append)
        then show ?thesis using unfold nl True p by simp
      next
        case False
        let ?k = "k - (int ?n - int (length R))"
        have k: "0 \<le> ?k" "?k < int (length R)" using False less.prems by auto
        have "\<not> nat k < length L" "\<not> nat k - length L < length (filter (\<lambda>y. y = key p) ?ks)"
          "nat k - length L - length (filter (\<lambda>y. y = key p) ?ks) = nat ?k" using False nl len by linarith+
        then have "sort ?ks ! nat k = sort (map key R) ! nat ?k" unfolding three by (simp add: nth_append)
        with less.hyps[OF short(2) k, of "t + 1"] show ?thesis using unfold nl False by (auto simp: R_def)
      qed
    qed
  qed
qed

section \<open>Reduce and all\<close>

lemma seq_loop_ok:
  "lo + m \<le> length xs \<Longrightarrow> seq_loop binop lift xs lo m r = Inr (foldl binop r (map (\<lambda>i. lift (xs ! i)) [lo..<lo + m]))"
proof (induction m arbitrary: lo r)
  case (Suc m)
  have "[lo..<lo + Suc m] = lo # [Suc lo..<Suc lo + m]" by (simp add: upt_rec)
  then show ?case using Suc.IH[of "Suc lo"] Suc.prems by simp
qed simp

lemma foldl_monoid:
  assumes "\<And>a b c. binop (binop a b) c = binop a (binop b c)" "\<And>a. binop ident a = a" "\<And>a. binop a ident = a"
  shows "foldl binop a xs = binop a (foldl binop ident xs)"
proof (induction xs arbitrary: a)
  case (Cons x xs)
  show ?case using Cons[of "binop a x"] Cons[of x] assms by simp
qed (simp add: assms)

lemma reduce_ok:
  assumes monoid: "\<And>a b c. binop (binop a b) c = binop a (binop b c)" "\<And>a. binop ident a = a" "\<And>a. binop a ident = a"
    and "lo \<le> hi" "hi \<le> length xs"
  shows "reduce par lift binop ident xs lo hi = Inr (foldl binop ident (map (\<lambda>i. lift (xs ! i)) [lo..<hi]))"
  using assms(4,5)
proof (induction "hi - lo" arbitrary: lo hi rule: less_induct)
  case less
  show ?case
  proof (cases "\<not> par lo hi \<or> hi \<le> lo + 2")
    case True
    then show ?thesis using seq_loop_ok[of lo "hi - lo" xs binop lift ident] less.prems by (subst reduce.simps) simp
  next
    case False
    define m where "m = lo + (hi - lo) div 2"
    have m: "lo < m" "m < hi" using False by (auto simp: m_def)
    have "[lo..<hi] = [lo..<m] @ [m..<hi]" using m upt_add_eq_append[of lo m "hi - m"] by simp
    then have "foldl binop ident (map (\<lambda>i. lift (xs ! i)) [lo..<hi]) =
      binop (foldl binop ident (map (\<lambda>i. lift (xs ! i)) [lo..<m])) (foldl binop ident (map (\<lambda>i. lift (xs ! i)) [m..<hi]))"
      by (simp add: foldl_monoid[OF monoid, of "foldl binop ident _"])
    then show ?thesis using False less.hyps[of m lo] less.hyps[of hi m] m less.prems
      by (subst reduce.simps) (simp add: m_def[symmetric] Let_def)
  qed
qed

lemma seq_all_ok: "lo + m \<le> length xs \<Longrightarrow> seq_all lift xs lo m r = Inr (r \<and> (\<forall>i \<in> {lo..<lo + m}. lift (xs ! i)))"
proof (induction m arbitrary: lo r)
  case (Suc m)
  have "{lo..<lo + Suc m} = insert lo {Suc lo..<Suc lo + m}" by auto
  then show ?case using Suc.IH[of "Suc lo"] Suc.prems by simp
qed simp

lemma all_arr_ok:
  assumes "lo \<le> hi" "hi \<le> length xs"
  shows "all_arr par lift xs lo hi = Inr (\<forall>i \<in> {lo..<hi}. lift (xs ! i))"
  using assms
proof (induction "hi - lo" arbitrary: lo hi rule: less_induct)
  case less
  show ?case
  proof (cases "\<not> par lo hi \<or> hi \<le> lo + 2")
    case True
    then show ?thesis using seq_all_ok[of lo "hi - lo" xs lift True] less.prems by (subst all_arr.simps) simp
  next
    case False
    define m where "m = lo + (hi - lo) div 2"
    have m: "lo < m" "m < hi" using False by (auto simp: m_def)
    then have "{lo..<hi} = {lo..<m} \<union> {m..<hi}" by auto
    then show ?thesis using False less.hyps[of m lo] less.hyps[of hi m] m less.prems
      by (subst all_arr.simps) (simp add: m_def[symmetric] Let_def ball_Un)
  qed
qed

section \<open>Properties\<close>

text \<open>
  C22. \<open>filter\<close> by prefix sums keeps exactly the accepted elements in their order, whatever the order
  in which the iterations of its \<open>parallel_for\<close> run: no two iterations write the same cell, every
  cell of the result is written, and all accesses of the sweeps stay inside the tree of \<open>2n - 1\<close> cells.
  On an empty array the allocation of the tree fails, since it asks for \<open>-1\<close> cells.
\<close>

theorem filter_by_scan:
  assumes "mset order = mset [0..<length xs]"
  shows "filter_arr (\<lambda>i. P) order xs (length xs) =
    (if xs = [] then Inl AssertFail else Inr (map Some (filter P xs), int (length (filter P xs))))"
proof (cases "xs = []")
  case True
  then show ?thesis by (simp add: filter_arr_def plus_scan_def my_malloc_def)
next
  case False
  then show ?thesis using filter_arr_list[OF False assms] by simp
qed

theorem filter_by_scan_witness:
  "filter_arr (\<lambda>i x. 2 < x) [3, 0, 4, 2, 1] [5, 1, 4, 2, 7 :: int] 5 = Inr ([Some 5, Some 4, Some 7], 3)"
proof -
  have o: "mset [3, 0, 4, 2, 1] = mset [0..<length [5, 1, 4, 2, 7 :: int]]" by code_simp
  show ?thesis using filter_by_scan[OF o, of "\<lambda>x. 2 < x"] by (simp add: numeral_eq_Suc)
qed

text \<open>
  C23. \<open>quickselect\<close> ends for every sequence of random pivots and returns an element of the array whose
  key is the one at position \<open>k\<close> of the sorted keys.
\<close>

theorem quickselect_is_nth_smallest:
  fixes key :: "'a \<Rightarrow> int"
  assumes "\<And>a b. cmp a b < 0 \<longleftrightarrow> key a < key b" "\<And>a b. cmp a b > 0 \<longleftrightarrow> key b < key a" "0 \<le> k" "k < int (length xs)"
  shows "\<exists>r. quickselect cmp rnd t k xs = Some (Inr r) \<and> r \<in> set xs \<and> key r = sort (map key xs) ! nat k"
  by (rule quickselect_ok[OF assms])

theorem quickselect_is_nth_smallest_witness:
  "\<exists>r. quickselect (\<lambda>a b. a - b) (\<lambda>t. 7 * t + 3) 0 2 [5, 1, 4, 2, 7 :: int] = Some (Inr r) \<and> r = sort [5, 1, 4, 2, 7] ! 2"
  using quickselect_is_nth_smallest[of "\<lambda>a b. a - b" "\<lambda>x :: int. x" 2 "[5, 1, 4, 2, 7]" "\<lambda>t. 7 * t + 3" 0] by auto

text \<open>
  \<open>reduce\<close> with an associative operation and its identity is the sum of the lifted elements from
  left to right, whatever the granularity controller decides at each level.
\<close>

theorem reduce_is_fold:
  assumes "\<And>a b c. binop (binop a b) c = binop a (binop b c)" "\<And>a. binop ident a = a" "\<And>a. binop a ident = a"
    "lo \<le> hi" "hi \<le> length xs"
  shows "reduce par lift binop ident xs lo hi = Inr (foldl binop ident (map (\<lambda>i. lift (xs ! i)) [lo..<hi]))"
  by (rule reduce_ok[OF assms])

theorem reduce_is_fold_witness:
  "reduce (\<lambda>lo hi. hi - lo < 5) (\<lambda>x. 2 * x) (+) 0 [1, 2, 3, 4, 5, 6 :: int] 1 6 = Inr (foldl (+) 0 [4, 6, 8, 10, 12])"
  using reduce_is_fold[of "(+)" "0 :: int" 1 6 "[1, 2, 3, 4, 5, 6 :: int]" "\<lambda>lo hi. hi - lo < 5" "\<lambda>x. 2 * x"]
  by (simp add: upt_rec)

end
