(* ===== verification/Op_Refinement.thy ===== *)
theory Op_Refinement
  imports PWSA_Prelude
begin

text \<open>
  Sequences of operations on a container: an operation has an output and may fail. A container
  implements an abstract one when every sequence has the same outputs, or the same failure. The
  relation between the states carries a budget, the number of operations that may still follow, so
  that bounds on machine integers can be part of it.
\<close>

fun run_ops :: "('op \<Rightarrow> 's \<Rightarrow> ('out \<times> 's) result) \<Rightarrow> 'op list \<Rightarrow> 's \<Rightarrow> 'out list result" where
  "run_ops step [] s = Inr []"
| "run_ops step (x # xs) s = ebind (step x s) (\<lambda>(y, s). ebind (run_ops step xs s) (\<lambda>ys. Inr (y # ys)))"

locale op_simulation =
  fixes cstep :: "'op \<Rightarrow> 'c \<Rightarrow> ('out \<times> 'c) result" and astep :: "'op \<Rightarrow> 'a \<Rightarrow> ('out \<times> 'a) result"
    and R :: "nat \<Rightarrow> 'a \<Rightarrow> 'c \<Rightarrow> bool" and ok :: "'op \<Rightarrow> bool"
  assumes step_sim: "\<lbrakk>R (Suc n) a c; ok x\<rbrakk> \<Longrightarrow>
    case astep x a of Inl e \<Rightarrow> cstep x c = Inl e | Inr (y, a') \<Rightarrow> \<exists>c'. cstep x c = Inr (y, c') \<and> R n a' c'"
begin

theorem run_sim: "\<lbrakk>R (length xs) a c; \<forall>x \<in> set xs. ok x\<rbrakk> \<Longrightarrow> run_ops cstep xs c = run_ops astep xs a"
proof (induction xs arbitrary: a c)
  case (Cons x xs)
  then have "case astep x a of Inl e \<Rightarrow> cstep x c = Inl e
    | Inr (y, a') \<Rightarrow> \<exists>c'. cstep x c = Inr (y, c') \<and> R (length xs) a' c'" using step_sim[of "length xs" a c x] by simp
  then show ?case using Cons.IH Cons.prems(2) by (fastforce split: sum.splits)
qed simp

end

text \<open>
  A contract: \<open>None\<close> when the operation may not be called in the state (anything may happen from there on),
  otherwise the results it may have. \<open>allowed\<close>: the runs that keep to the contract as long as the caller does.
\<close>

type_synonym ('op, 'a, 'out) contract = "'op \<Rightarrow> 'a \<Rightarrow> (('out \<times> 'a) result \<Rightarrow> bool) option"

fun allowed :: "('op, 'a, 'out) contract \<Rightarrow> 'op list \<Rightarrow> 'a \<Rightarrow> 'out list result \<Rightarrow> bool" where
  "allowed spec [] a r \<longleftrightarrow> r = Inr []"
| "allowed spec (x # xs) a r \<longleftrightarrow> (case spec x a of None \<Rightarrow> True
    | Some P \<Rightarrow> (\<exists>e. P (Inl e) \<and> r = Inl e) \<or>
        (\<exists>y a' r'. P (Inr (y, a')) \<and> allowed spec xs a' r' \<and> r = ebind r' (\<lambda>ys. Inr (y # ys))))"

locale op_refinement =
  fixes cstep :: "'op \<Rightarrow> 'c \<Rightarrow> ('out \<times> 'c) result" and spec :: "('op, 'a, 'out) contract"
    and R :: "nat \<Rightarrow> 'a \<Rightarrow> 'c \<Rightarrow> bool" and ok :: "'op \<Rightarrow> bool"
  assumes step_ref: "\<lbrakk>R (Suc n) a c; ok x; spec x a = Some P\<rbrakk> \<Longrightarrow>
    case cstep x c of Inl e \<Rightarrow> P (Inl e) | Inr (y, c') \<Rightarrow> \<exists>a'. P (Inr (y, a')) \<and> R n a' c'"
begin

theorem run_ref: "\<lbrakk>R (length xs) a c; \<forall>x \<in> set xs. ok x\<rbrakk> \<Longrightarrow> allowed spec xs a (run_ops cstep xs c)"
proof (induction xs arbitrary: a c)
  case (Cons x xs)
  show ?case
  proof (cases "spec x a")
    case (Some P)
    have step: "case cstep x c of Inl e \<Rightarrow> P (Inl e) | Inr (y, c') \<Rightarrow> \<exists>a'. P (Inr (y, a')) \<and> R (length xs) a' c'"
      using step_ref[of "length xs" a c x P] Cons.prems Some by simp
    show ?thesis
    proof (cases "cstep x c")
      case (Inl e)
      then show ?thesis using step Some by simp
    next
      case (Inr r)
      obtain y c' where r: "r = (y, c')" by (cases r)
      then obtain a' where a': "P (Inr (y, a'))" "R (length xs) a' c'" using step Inr by auto
      have "allowed spec xs a' (run_ops cstep xs c')" by (rule Cons.IH[OF a'(2)]) (use Cons.prems in simp)
      then show ?thesis using Some Inr r a'(1) by auto
    qed
  qed simp
qed simp

end

text \<open>A container that follows a functional one keeps to the contract that names its only result.\<close>

sublocale op_simulation \<subseteq> op_refinement cstep "\<lambda>x a. Some (\<lambda>r. r = astep x a)" R ok
proof
  fix n a c x P assume "R (Suc n) a c" "ok x" and P: "Some (\<lambda>r. r = astep x a) = Some P"
  then show "case cstep x c of Inl e \<Rightarrow> P (Inl e) | Inr (y, c') \<Rightarrow> \<exists>a'. P (Inr (y, a')) \<and> R n a' c'"
    using step_sim[of n a c x] by (auto split: sum.splits prod.splits)
qed

end
