(* ===== verification/Hash_Table.thy ===== *)
theory Hash_Table
  imports Op_Refinement
begin

text \<open>
  The hash table of \<open>src/pbnf/src/util/hash_table.h\<close>: chained buckets in the order of the hash values,
  with one entry per hash value. Elements are pointers to objects with a method \<open>hash\<close>, so the
  hash function is a parameter. Chains are not shared. \<open>unsigned long\<close> wraps at 64 bits, \<open>unsigned int\<close>
  at 32.
\<close>

section \<open>The program\<close>

text \<open>A bucket: data, next and size.\<close>

datatype 'e Bucket = BNull | Bucket 'e "'e Bucket" nat

fun bucket_size :: "'e Bucket \<Rightarrow> nat" where
  "bucket_size BNull = 0"
| "bucket_size (Bucket d n s) = s"

definition new_bucket :: "'e \<Rightarrow> 'e Bucket \<Rightarrow> 'e Bucket" where
  "new_bucket d n = Bucket d n (if n = BNull then 0 else (bucket_size n + 1) mod 2 ^ 32)"

fun bucket_lookup :: "('e \<Rightarrow> int) \<Rightarrow> 'e Bucket \<Rightarrow> 'e \<Rightarrow> 'e option result" where
  "bucket_lookup hash BNull s = Inl NullDeref"
| "bucket_lookup hash (Bucket d n z) s =
     (if hash s = hash d then Inr (Some d)
      else if hash d > hash s then Inr None
      else if n = BNull then Inr None
      else bucket_lookup hash n s)"

fun bucket_add :: "('e \<Rightarrow> int) \<Rightarrow> 'e Bucket \<Rightarrow> 'e \<Rightarrow> 'e Bucket result" where
  "bucket_add hash BNull s = Inl NullDeref"
| "bucket_add hash (Bucket d n z) s =
     (if hash s < hash d then Inr (new_bucket s (Bucket d n z))
      else if hash s = hash d then Inr (Bucket s n z)
      else if n = BNull then Inr (Bucket d (new_bucket s BNull) z)
      else ebind (bucket_add hash n s) (\<lambda>n. Inr (Bucket d n ((z + 1) mod 2 ^ 32))))"

record 'e HashTable =
  ht_table :: "'e Bucket list option"
  ht_size :: int
  ht_fill :: int

definition ht_init :: "int \<Rightarrow> 'e HashTable" where
  "ht_init s = \<lparr>ht_table = None, ht_size = s, ht_fill = 0\<rparr>"

definition HashTable_default :: "'e HashTable" where
  "HashTable_default = ht_init 1000000"

definition new_table :: "'e HashTable \<Rightarrow> 'e HashTable" where
  "new_table h = (if ht_table h = None then h\<lparr>ht_table := Some (replicate (nat (ht_size h)) BNull)\<rparr> else h)"

definition get_ind :: "('e \<Rightarrow> int) \<Rightarrow> 'e HashTable \<Rightarrow> 'e \<Rightarrow> int result" where
  "get_ind hash h s = (if ht_size h = 0 then Inl DivByZero else Inr (hash s mod ht_size h))"

definition the_table :: "'e HashTable \<Rightarrow> 'e Bucket list result" where
  "the_table h = (case ht_table h of None \<Rightarrow> Inl NullDeref | Some t \<Rightarrow> Inr t)"

definition do_add :: "('e \<Rightarrow> int) \<Rightarrow> 'e \<Rightarrow> 'e HashTable \<Rightarrow> 'e HashTable result" where
  "do_add hash s h =
     ebind (get_ind hash h s) (\<lambda>i. ebind (the_table h) (\<lambda>t. ebind (arr_get t i) (\<lambda>old.
     ebind (if old = BNull then Inr (new_bucket s BNull) else bucket_add hash old s) (\<lambda>b.
     ebind (arr_set t i b) (\<lambda>t. Inr (h\<lparr>ht_table := Some t\<rparr>))))))"

text \<open>The loop over one chain, and \<open>resize\<close>; \<open>old_size\<close> is an \<open>unsigned int\<close>.\<close>

fun rehash_chain :: "('e \<Rightarrow> int) \<Rightarrow> 'e Bucket \<Rightarrow> 'e HashTable \<Rightarrow> 'e HashTable result" where
  "rehash_chain hash BNull h = Inr h"
| "rehash_chain hash (Bucket d n z) h = ebind (do_add hash d h) (rehash_chain hash n)"

definition ht_resize :: "('e \<Rightarrow> int) \<Rightarrow> 'e HashTable \<Rightarrow> 'e HashTable result" where
  "ht_resize hash h =
     ebind (the_table h) (\<lambda>old_table.
       let old_size = ht_size h mod 2 ^ 32;
           h1 = new_table (h\<lparr>ht_size := ht_size h * 10 mod 2 ^ 64, ht_table := None\<rparr>) in
       efold (\<lambda>i h. ebind (arr_get old_table (int i)) (\<lambda>b. rehash_chain hash b h)) [0..<nat old_size] h1)"

definition ht_add :: "('e \<Rightarrow> int) \<Rightarrow> 'e \<Rightarrow> 'e HashTable \<Rightarrow> 'e HashTable result" where
  "ht_add hash s h0 =
     (let h = new_table h0 in
      ebind (if (ht_fill h + 1) mod 2 ^ 64 \<ge> ht_size h div 3 then ht_resize hash h else Inr h) (\<lambda>h.
      ebind (do_add hash s h) (\<lambda>h. Inr (h\<lparr>ht_fill := (ht_fill h + 1) mod 2 ^ 64\<rparr>))))"

definition ht_lookup :: "('e \<Rightarrow> int) \<Rightarrow> 'e HashTable \<Rightarrow> 'e \<Rightarrow> 'e option result" where
  "ht_lookup hash h c = (case ht_table h of
     None \<Rightarrow> Inr None
   | Some t \<Rightarrow> ebind (get_ind hash h c) (\<lambda>i. ebind (arr_get t i) (\<lambda>b.
       if b \<noteq> BNull then bucket_lookup hash b c else Inr None)))"

text \<open>The search for the bucket to remove and its unlinking; \<open>None\<close> if there is none.\<close>

fun unlink :: "('e \<Rightarrow> int) \<Rightarrow> int \<Rightarrow> 'e Bucket \<Rightarrow> 'e Bucket option" where
  "unlink hash k BNull = None"
| "unlink hash k (Bucket d n z) =
     (if hash d = k then Some n
      else case unlink hash k n of None \<Rightarrow> None | Some n \<Rightarrow> Some (Bucket d n z))"

definition ht_remove :: "('e \<Rightarrow> int) \<Rightarrow> 'e \<Rightarrow> 'e HashTable \<Rightarrow> 'e HashTable result" where
  "ht_remove hash s h =
     ebind (get_ind hash h s) (\<lambda>i. ebind (the_table h) (\<lambda>t. ebind (arr_get t i) (\<lambda>b.
       if b = BNull then Inr h
       else ebind (case unlink hash (hash s) b of
             None \<Rightarrow> Inr h
           | Some b \<Rightarrow> ebind (arr_set t i b) (\<lambda>t. Inr (h\<lparr>ht_table := Some t, ht_fill := (ht_fill h - 1) mod 2 ^ 64\<rparr>))) (\<lambda>h.
         ebind (ht_lookup hash h s) (\<lambda>r. ebind (eassert (r = None)) (\<lambda>_. Inr h))))))"

fun chain_data :: "'e Bucket \<Rightarrow> 'e list" where
  "chain_data BNull = []"
| "chain_data (Bucket d n z) = d # chain_data n"

text \<open>
  \<open>delete_all\<close> frees the elements and the chains, \<open>prune\<close> the chains and the table. The index of these loops,
  and of the one in \<open>for_each\<close>, is an \<open>unsigned int\<close> that never reaches a size of \<open>2 ^ 32\<close> or more:
  \<open>None\<close> is a loop that does not end.
\<close>

definition ht_delete_all :: "'e HashTable \<Rightarrow> 'e HashTable option" where
  "ht_delete_all h = (case ht_table h of
     None \<Rightarrow> Some h
   | Some t \<Rightarrow> if ht_size h < 2 ^ 32 then Some (h\<lparr>ht_table := Some (map (\<lambda>b. BNull) t)\<rparr>) else None)"

definition ht_prune :: "'e HashTable \<Rightarrow> 'e HashTable option" where
  "ht_prune h = (if ht_table h = None then Some h
     else if ht_size h < 2 ^ 32 then Some (h\<lparr>ht_table := None, ht_fill := 0\<rparr>) else None)"

definition ht_empty :: "'e HashTable \<Rightarrow> bool" where
  "ht_empty h \<longleftrightarrow> ht_fill h = 0"

definition ht_for_each :: "('e \<Rightarrow> 'a \<Rightarrow> 'a) \<Rightarrow> 'e HashTable \<Rightarrow> 'a \<Rightarrow> 'a option" where
  "ht_for_each f h aux = (case ht_table h of
     None \<Rightarrow> Some aux
   | Some t \<Rightarrow> if ht_size h < 2 ^ 32 then Some (fold f (concat (map chain_data t)) aux) else None)"

definition get_fill :: "'e HashTable \<Rightarrow> int" where
  "get_fill h = ht_fill h"

section \<open>Chains\<close>

text \<open>A chain as a map from hash values; strictly ordered chains have one entry per hash value.\<close>

definition chain_map :: "('e \<Rightarrow> int) \<Rightarrow> 'e Bucket \<Rightarrow> int \<Rightarrow> 'e option" where
  "chain_map hash b = map_of (map (\<lambda>e. (hash e, e)) (chain_data b))"

definition chain_ok :: "('e \<Rightarrow> int) \<Rightarrow> 'e Bucket \<Rightarrow> bool" where
  "chain_ok hash b \<longleftrightarrow> sorted_wrt (<) (map hash (chain_data b))"

lemma chain_map_simps [simp]:
  "chain_map hash BNull = Map.empty" "chain_map hash (Bucket d n z) = (chain_map hash n)(hash d \<mapsto> d)"
  by (auto simp: chain_map_def)

lemma chain_ok_simps [simp]:
  "chain_ok hash BNull" "chain_ok hash (Bucket d n z) \<longleftrightarrow> chain_ok hash n \<and> (\<forall>e \<in> set (chain_data n). hash d < hash e)"
  by (auto simp: chain_ok_def)

lemma chain_map_Some: "chain_map hash b k = Some e \<Longrightarrow> e \<in> set (chain_data b) \<and> hash e = k"
  by (induction b) (auto split: if_splits)

lemma chain_map_iff: "chain_ok hash b \<Longrightarrow> chain_map hash b k = Some e \<longleftrightarrow> e \<in> set (chain_data b) \<and> hash e = k"
  by (induction b) (auto split: if_splits)

lemma bucket_lookup_ok: "\<lbrakk>chain_ok hash b; b \<noteq> BNull\<rbrakk> \<Longrightarrow> bucket_lookup hash b s = Inr (chain_map hash b (hash s))"
proof (induction b)
  case (Bucket d n z)
  have "chain_map hash n (hash s) = None" if "hash s < hash d"
  proof (rule ccontr)
    assume "chain_map hash n (hash s) \<noteq> None"
    then obtain e where "e \<in> set (chain_data n)" "hash e = hash s" using chain_map_Some by fastforce
    then show False using Bucket.prems(1) that by auto
  qed
  then show ?case using Bucket by (cases n) auto
qed simp

lemma bucket_add_ok:
  "\<lbrakk>chain_ok hash b; b \<noteq> BNull\<rbrakk> \<Longrightarrow> \<exists>b'. bucket_add hash b s = Inr b' \<and> chain_ok hash b' \<and> b' \<noteq> BNull \<and>
     chain_map hash b' = (chain_map hash b)(hash s \<mapsto> s) \<and> set (chain_data b') \<subseteq> insert s (set (chain_data b))"
proof (induction b)
  case (Bucket d n z)
  show ?case
  proof (cases "hash s \<le> hash d")
    case True
    then show ?thesis using Bucket.prems by (fastforce simp: new_bucket_def)
  next
    case False
    show ?thesis
    proof (cases "n = BNull")
      case True
      then show ?thesis using False by (auto simp: new_bucket_def fun_upd_twist)
    next
      case n: False
      then obtain n' where n': "bucket_add hash n s = Inr n'" "chain_ok hash n'"
        "chain_map hash n' = (chain_map hash n)(hash s \<mapsto> s)" "set (chain_data n') \<subseteq> insert s (set (chain_data n))"
      proof -
        have "chain_ok hash n" using Bucket.prems by simp
        from Bucket.IH[OF this n] that show ?thesis by blast
      qed
      have "\<forall>e \<in> set (chain_data n'). hash d < hash e" using n'(4) Bucket.prems(1) False by auto
      then show ?thesis using n n' False Bucket.prems by (auto simp: fun_upd_twist)
    qed
  qed
qed simp

lemma unlink_ok:
  assumes "chain_ok hash b"
  shows "case unlink hash k b of None \<Rightarrow> chain_map hash b k = None
    | Some b' \<Rightarrow> chain_ok hash b' \<and> chain_map hash b' = (chain_map hash b)(k := None) \<and> set (chain_data b') \<subseteq> set (chain_data b) \<and>
        chain_map hash b k \<noteq> None"
  using assms
proof (induction b)
  case (Bucket d n z)
  have no: "chain_map hash n (hash d) = None"
  proof (rule ccontr)
    assume "chain_map hash n (hash d) \<noteq> None"
    then obtain e where "e \<in> set (chain_data n)" "hash e = hash d" using chain_map_Some by fastforce
    then show False using Bucket.prems by auto
  qed
  show ?case
  proof (cases "hash d = k")
    case True
    then show ?thesis using Bucket.prems no by auto
  next
    case False
    then show ?thesis using Bucket.IH Bucket.prems by (auto split: option.splits simp: fun_upd_twist)
  qed
qed simp

section \<open>Tables\<close>

definition table_ok :: "('e \<Rightarrow> int) \<Rightarrow> int \<Rightarrow> 'e Bucket list \<Rightarrow> bool" where
  "table_ok hash n t \<longleftrightarrow> 0 < n \<and> int (length t) = n \<and>
     (\<forall>i < length t. chain_ok hash (t ! i) \<and> (\<forall>e \<in> set (chain_data (t ! i)). hash e mod n = int i))"

definition table_map :: "('e \<Rightarrow> int) \<Rightarrow> int \<Rightarrow> 'e Bucket list \<Rightarrow> int \<Rightarrow> 'e option" where
  "table_map hash n t k = chain_map hash (t ! nat (k mod n)) k"

lemma table_index: "table_ok hash n t \<Longrightarrow> nat (k mod n) < length t \<and> 0 \<le> k mod n \<and> k mod n < int (length t)"
  by (auto simp: table_ok_def nat_less_iff)

lemma table_chain: "\<lbrakk>table_ok hash n t; i < length t\<rbrakk> \<Longrightarrow> chain_ok hash (t ! i)"
  by (simp add: table_ok_def)

text \<open>Replacing the chain of one index by one that differs at one hash value.\<close>

lemma table_update:
  assumes t: "table_ok hash n t" and b: "chain_ok hash b" "chain_map hash b = (chain_map hash (t ! nat (k mod n)))(k := v)"
    and data: "\<forall>e \<in> set (chain_data b). hash e mod n = k mod n"
  shows "table_ok hash n (t[nat (k mod n) := b])" "table_map hash n (t[nat (k mod n) := b]) = (table_map hash n t)(k := v)"
proof -
  note i = table_index[OF t, of k]
  show "table_ok hash n (t[nat (k mod n) := b])"
    using t b(1) data i by (auto simp: table_ok_def nth_list_update)
  show "table_map hash n (t[nat (k mod n) := b]) = (table_map hash n t)(k := v)"
  proof
    fix x
    note j = table_index[OF t, of x]
    show "table_map hash n (t[nat (k mod n) := b]) x = ((table_map hash n t)(k := v)) x"
    proof (cases "x mod n = k mod n")
      case True
      then show ?thesis using i b(2) by (simp add: table_map_def)
    next
      case False
      then have "nat (k mod n) \<noteq> nat (x mod n)" "x \<noteq> k" using i j by auto
      then show ?thesis by (simp add: table_map_def)
    qed
  qed
qed

lemma do_add_ok:
  assumes h: "ht_table h = Some t" "table_ok hash (ht_size h) t"
  shows "\<exists>t'. do_add hash s h = Inr (h\<lparr>ht_table := Some t'\<rparr>) \<and> table_ok hash (ht_size h) t' \<and>
    table_map hash (ht_size h) t' = (table_map hash (ht_size h) t)(hash s \<mapsto> s)"
proof -
  let ?n = "ht_size h" let ?i = "nat (hash s mod ?n)"
  note i = table_index[OF h(2), of "hash s"]
  have n: "?n \<noteq> 0" using h(2) by (simp add: table_ok_def)
  have "\<forall>e \<in> set (chain_data (t ! ?i)). hash e mod ?n = int ?i"
    using h(2) i[THEN conjunct1] unfolding table_ok_def by blast
  moreover have "int ?i = hash s mod ?n" by (rule nat_0_le) (use i in blast)
  ultimately have data: "\<forall>e \<in> set (chain_data (t ! ?i)). hash e mod ?n = hash s mod ?n" by (simp only:)
  obtain b where b: "(if t ! ?i = BNull then Inr (new_bucket s BNull) else bucket_add hash (t ! ?i) s) = Inr b" "chain_ok hash b"
    "chain_map hash b = (chain_map hash (t ! ?i))(hash s \<mapsto> s)" "set (chain_data b) \<subseteq> insert s (set (chain_data (t ! ?i)))"
  proof (cases "t ! ?i = BNull")
    case True
    then show ?thesis using that[of "new_bucket s BNull"] by (simp add: new_bucket_def)
  next
    case False
    then show ?thesis using that bucket_add_ok[OF table_chain[OF h(2)], of ?i s] i by auto
  qed
  have "\<forall>e \<in> set (chain_data b). hash e mod ?n = hash s mod ?n" using b(4) data by blast
  note u = table_update[OF h(2) b(2,3) this]
  have "do_add hash s h = Inr (h\<lparr>ht_table := Some (t[?i := b])\<rparr>)"
    using h(1) n i b(1) by (simp add: do_add_def get_ind_def the_table_def)
  then show ?thesis using u by blast
qed

text \<open>Adding elements with different hash values one after the other.\<close>

lemma rehash_chain_efold: "rehash_chain hash b h = efold (do_add hash) (chain_data b) h"
  by (induction b arbitrary: h) (simp_all add: ebind_def split: sum.splits)

lemma add_all_ok:
  assumes uniq: "\<And>e e'. \<lbrakk>e \<in> set es; e' \<in> set es; hash e = hash e'\<rbrakk> \<Longrightarrow> e = e'"
    and h: "ht_table h = Some t" "table_ok hash (ht_size h) t" "table_map hash (ht_size h) t = Map.empty"
  shows "\<exists>t'. efold (do_add hash) es h = Inr (h\<lparr>ht_table := Some t'\<rparr>) \<and> table_ok hash (ht_size h) t' \<and>
    (\<forall>k e. table_map hash (ht_size h) t' k = Some e \<longleftrightarrow> e \<in> set es \<and> hash e = k)"
proof -
  let ?I = "\<lambda>es h'. \<exists>t'. h' = h\<lparr>ht_table := Some t'\<rparr> \<and> table_ok hash (ht_size h) t' \<and>
    (\<forall>k e. table_map hash (ht_size h) t' k = Some e \<longleftrightarrow> e \<in> set es \<and> hash e = k)"
  have "\<exists>h'. efold (do_add hash) es h = Inr h' \<and> ?I es h'"
  proof (rule efold_invariant[where I = ?I])
    show "?I [] h" using h by (intro exI[of _ t]) simp
  next
    fix pre s h' assume s: "\<exists>post. es = pre @ s # post" and "?I pre h'"
    then obtain t' where t': "h' = h\<lparr>ht_table := Some t'\<rparr>" "table_ok hash (ht_size h) t'"
      "\<forall>k e. table_map hash (ht_size h) t' k = Some e \<longleftrightarrow> e \<in> set pre \<and> hash e = k" by blast
    have us: "e = s" if "e \<in> set pre" "hash e = hash s" for e using uniq[of e s] that s by auto
    obtain t2 where t2: "do_add hash s h' = Inr (h'\<lparr>ht_table := Some t2\<rparr>)" "table_ok hash (ht_size h) t2"
      "table_map hash (ht_size h) t2 = (table_map hash (ht_size h) t')(hash s \<mapsto> s)"
      using do_add_ok[of h' t' hash s] t'(1,2) by auto
    have "h'\<lparr>ht_table := Some t2\<rparr> = h\<lparr>ht_table := Some t2\<rparr>" using t'(1) by simp
    moreover have "\<forall>k e. table_map hash (ht_size h) t2 k = Some e \<longleftrightarrow> e \<in> set (pre @ [s]) \<and> hash e = k"
      using t'(3) us unfolding t2(3) by auto
    ultimately show "\<exists>h''. do_add hash s h' = Inr h'' \<and> ?I (pre @ [s]) h''" using t2(1,2) by metis
  qed
  then show ?thesis by blast
qed

lemma efold_concat: "efold (\<lambda>i. efold f (g i)) is s = efold f (concat (map g is)) s"
  by (induction "is" arbitrary: s) (simp_all add: efold_append ebind_def split: sum.splits)

lemma efold_cong: "\<lbrakk>\<And>x s. x \<in> set xs \<Longrightarrow> f x s = g x s\<rbrakk> \<Longrightarrow> efold f xs s = efold g xs s"
  by (induction xs arbitrary: s) (auto simp: ebind_def split: sum.splits)

lemma table_entries:
  assumes t: "table_ok hash n t"
  shows "table_map hash n t k = Some e \<longleftrightarrow> e \<in> set (concat (map chain_data t)) \<and> hash e = k"
    "\<lbrakk>e \<in> set (concat (map chain_data t)); e' \<in> set (concat (map chain_data t)); hash e = hash e'\<rbrakk> \<Longrightarrow> e = e'"
proof -
  have in_t: "e \<in> set (concat (map chain_data t)) \<longleftrightarrow> e \<in> set (chain_data (t ! nat (hash e mod n)))" for e
  proof
    assume "e \<in> set (concat (map chain_data t))"
    then obtain b where "b \<in> set t" "e \<in> set (chain_data b)" by auto
    then obtain i where "i < length t" "e \<in> set (chain_data (t ! i))" by (metis in_set_conv_nth)
    moreover from this have "hash e mod n = int i" using t by (simp add: table_ok_def)
    ultimately show "e \<in> set (chain_data (t ! nat (hash e mod n)))" by simp
  qed (use table_index[OF t, of "hash e"] in auto)
  have iff: "chain_map hash (t ! nat (k mod n)) k = Some e \<longleftrightarrow> e \<in> set (chain_data (t ! nat (k mod n))) \<and> hash e = k" for k e
    by (rule chain_map_iff) (use table_chain[OF t] table_index[OF t] in blast)
  show "table_map hash n t k = Some e \<longleftrightarrow> e \<in> set (concat (map chain_data t)) \<and> hash e = k"
    using iff[of k e] in_t[of e] by (auto simp: table_map_def)
  show "e = e'" if "e \<in> set (concat (map chain_data t))" "e' \<in> set (concat (map chain_data t))" "hash e = hash e'"
  proof -
    have "chain_map hash (t ! nat (hash e mod n)) (hash e) = Some e" "chain_map hash (t ! nat (hash e mod n)) (hash e) = Some e'"
      using iff[of "hash e" e] iff[of "hash e" e'] in_t[of e] in_t[of e'] that by auto
    then show ?thesis by simp
  qed
qed

lemma map_chain_nth: "map (\<lambda>i. f (t ! i)) [0..<length t] = map f t"
  by (rule nth_equalityI) simp_all

lemma resize_ok:
  assumes h: "ht_table h = Some t" "table_ok hash (ht_size h) t" and small: "ht_size h * 10 < 2 ^ 32"
  shows "\<exists>t'. ht_resize hash h = Inr (h\<lparr>ht_size := ht_size h * 10, ht_table := Some t'\<rparr>) \<and> table_ok hash (ht_size h * 10) t' \<and>
    table_map hash (ht_size h * 10) t' = table_map hash (ht_size h) t"
proof -
  let ?n = "ht_size h" let ?es = "concat (map chain_data t)"
  let ?h = "h\<lparr>ht_size := ?n * 10, ht_table := Some (replicate (nat (?n * 10)) BNull)\<rparr>"
  have n: "0 < ?n" "int (length t) = ?n" using h(2) by (auto simp: table_ok_def)
  have m: "?n mod 2 ^ 32 = ?n" "?n * 10 mod 2 ^ 64 = ?n * 10" using n small by (simp_all add: mod_pos_pos_trivial)
  have "efold (\<lambda>i h. ebind (arr_get t (int i)) (\<lambda>b. rehash_chain hash b h)) [0..<length t] ?h =
      efold (\<lambda>i. efold (do_add hash) (chain_data (t ! i))) [0..<length t] ?h"
    by (rule efold_cong) (auto simp: rehash_chain_efold)
  also have "\<dots> = efold (do_add hash) ?es ?h"
    unfolding efold_concat map_chain_nth ..
  finally have run: "ht_resize hash h = efold (do_add hash) ?es ?h"
    using h(1) m n(2)[symmetric] by (simp add: ht_resize_def the_table_def new_table_def Let_def)
  have "table_ok hash (?n * 10) (replicate (nat (?n * 10)) BNull)" "table_map hash (?n * 10) (replicate (nat (?n * 10)) BNull) = Map.empty"
    using n by (auto simp: table_ok_def table_map_def nat_less_iff)
  then obtain t' where t': "efold (do_add hash) ?es ?h = Inr (?h\<lparr>ht_table := Some t'\<rparr>)" "table_ok hash (?n * 10) t'"
    "\<forall>k e. table_map hash (?n * 10) t' k = Some e \<longleftrightarrow> e \<in> set ?es \<and> hash e = k"
    using add_all_ok[of ?es hash ?h] table_entries(2)[OF h(2)] by auto
  have "table_map hash (?n * 10) t' k = table_map hash ?n t k" for k
    using t'(3) table_entries(1)[OF h(2), of k] by (metis option.exhaust)
  then show ?thesis using run t'(1,2) by auto
qed

section \<open>The operations on a map\<close>

text \<open>
  The relation to a map from hash values, with a flag for the allocated table. \<open>fill\<close> also counts
  additions that replace an entry, and \<open>delete_all\<close> does not reset it: it is a bound on the entries.
\<close>

definition table_rel :: "('e \<Rightarrow> int) \<Rightarrow> bool \<times> (int \<Rightarrow> 'e option) \<Rightarrow> 'e HashTable \<Rightarrow> bool" where
  "table_rel hash a h \<longleftrightarrow> (case ht_table h of
     None \<Rightarrow> a = (False, Map.empty)
   | Some t \<Rightarrow> fst a \<and> table_ok hash (ht_size h) t \<and> table_map hash (ht_size h) t = snd a)"

definition ht_rel :: "('e \<Rightarrow> int) \<Rightarrow> nat \<Rightarrow> bool \<times> (int \<Rightarrow> 'e option) \<Rightarrow> 'e HashTable \<Rightarrow> bool" where
  "ht_rel hash n a h \<longleftrightarrow> table_rel hash a h \<and> 0 < ht_size h \<and> ht_size h < 2 ^ 32 \<and> finite (dom (snd a)) \<and>
     int (card (dom (snd a))) \<le> ht_fill h \<and> 30 * (ht_fill h + int n) + 50 < 2 ^ 32"

lemma table_relD: "\<lbrakk>table_rel hash a h; ht_table h = Some t\<rbrakk> \<Longrightarrow>
    fst a \<and> table_ok hash (ht_size h) t \<and> table_map hash (ht_size h) t = snd a"
  by (simp add: table_rel_def)

lemma table_at: "fst a \<and> table_ok hash n t \<and> table_map hash n t = snd a \<Longrightarrow> snd a k = chain_map hash (t ! nat (k mod n)) k"
  by (metis table_map_def)

lemma new_table_ok:
  assumes "table_rel hash a h" "0 < ht_size h"
  shows "\<exists>t. new_table h = h\<lparr>ht_table := Some t\<rparr> \<and> table_ok hash (ht_size h) t \<and> table_map hash (ht_size h) t = snd a"
proof (cases "ht_table h")
  case None
  have "table_ok hash (ht_size h) (replicate (nat (ht_size h)) BNull)" "table_map hash (ht_size h) (replicate (nat (ht_size h)) BNull) = Map.empty"
    using assms(2) by (auto simp: table_ok_def table_map_def nat_less_iff)
  then show ?thesis using None assms(1) by (auto simp: new_table_def table_rel_def)
next
  case (Some t)
  then have "h\<lparr>ht_table := Some t\<rparr> = h" by simp
  then show ?thesis using Some table_relD[OF assms(1) Some] by (intro exI[of _ t]) (simp add: new_table_def)
qed

lemma card_dom_upd: "finite (dom m) \<Longrightarrow> card (dom (m(k \<mapsto> v))) \<le> card (dom m) + 1"
  by (simp add: card_insert_if)

lemma ht_add_ok:
  assumes rel: "ht_rel hash (Suc n) a h"
  shows "\<exists>h'. ht_add hash s h = Inr h' \<and> ht_rel hash n (True, (snd a)(hash s \<mapsto> s)) h'"
proof -
  from rel have a: "table_rel hash a h" "0 < ht_size h" "ht_size h < 2 ^ 32" "finite (dom (snd a))" "int (card (dom (snd a))) \<le> ht_fill h"
    "30 * (ht_fill h + int (Suc n)) + 50 < 2 ^ 32" by (auto simp: ht_rel_def)
  obtain t where t: "new_table h = h\<lparr>ht_table := Some t\<rparr>" "table_ok hash (ht_size h) t" "table_map hash (ht_size h) t = snd a"
    using new_table_ok[OF a(1,2)] by auto
  let ?h = "h\<lparr>ht_table := Some t\<rparr>"
  have f: "0 \<le> ht_fill h" using a(5) by linarith
  have fm: "(ht_fill h + 1) mod 2 ^ 64 = ht_fill h + 1" by (rule mod_pos_pos_trivial) (use f a(6) in simp_all)
  obtain n1 t1 where h1: "(if (ht_fill h + 1) mod 2 ^ 64 \<ge> ht_size h div 3 then ht_resize hash ?h else Inr ?h) =
      Inr (h\<lparr>ht_size := n1, ht_table := Some t1\<rparr>)" "0 < n1" "n1 < 2 ^ 32" "table_ok hash n1 t1" "table_map hash n1 t1 = snd a"
  proof (cases "(ht_fill h + 1) mod 2 ^ 64 \<ge> ht_size h div 3")
    case True
    then have "ht_size h div 3 \<le> ht_fill h + 1" using fm by simp
    then have small: "ht_size h * 10 < 2 ^ 32" using a(6) by simp
    then obtain t' where "ht_resize hash ?h = Inr (?h\<lparr>ht_size := ht_size h * 10, ht_table := Some t'\<rparr>)" "table_ok hash (ht_size h * 10) t'"
      "table_map hash (ht_size h * 10) t' = table_map hash (ht_size h) t" using resize_ok[of ?h t hash] t(2) by auto
    then show ?thesis using True small a(2) t(3) by (intro that[of t' "ht_size h * 10"]) simp_all
  next
    case False
    have "h\<lparr>ht_table := Some t\<rparr> = h\<lparr>ht_size := ht_size h, ht_table := Some t\<rparr>" by simp
    then show ?thesis using False a t by (intro that[of t "ht_size h"]) simp_all
  qed
  let ?h1 = "h\<lparr>ht_size := n1, ht_table := Some t1\<rparr>"
  obtain t2 where t2: "do_add hash s ?h1 = Inr (?h1\<lparr>ht_table := Some t2\<rparr>)" "table_ok hash n1 t2" "table_map hash n1 t2 = (snd a)(hash s \<mapsto> s)"
    using do_add_ok[of ?h1 t1 hash s] h1(4,5) by auto
  let ?h2 = "h\<lparr>ht_size := n1, ht_table := Some t2, ht_fill := ht_fill h + 1\<rparr>"
  have "ht_add hash s h = Inr ?h2"
    unfolding ht_add_def Let_def t(1) using h1(1) t2(1) fm by simp
  moreover have "int (card (dom ((snd a)(hash s \<mapsto> s)))) \<le> ht_fill h + 1"
    using card_dom_upd[OF a(4), of "hash s" s] a(5) by linarith
  moreover have "30 * (ht_fill h + 1 + int n) + 50 < 2 ^ 32" using a(6) by simp
  ultimately show ?thesis using h1(2,3) t2(2,3) a(4) by (intro exI[of _ ?h2]) (simp add: ht_rel_def table_rel_def)
qed

lemma ht_lookup_ok: "\<lbrakk>table_rel hash a h; 0 < ht_size h\<rbrakk> \<Longrightarrow> ht_lookup hash h s = Inr (snd a (hash s))"
proof -
  assume a: "table_rel hash a h" "0 < ht_size h"
  show ?thesis
  proof (cases "ht_table h")
    case None
    then show ?thesis using a by (simp add: ht_lookup_def table_rel_def)
  next
    case (Some t)
    note t = table_relD[OF a(1) Some]
    let ?b = "t ! nat (hash s mod ht_size h)"
    have i: "nat (hash s mod ht_size h) < length t" "0 \<le> hash s mod ht_size h" "hash s mod ht_size h < int (length t)"
      using table_index t by blast+
    have "bucket_lookup hash ?b s = Inr (chain_map hash ?b (hash s))" if "?b \<noteq> BNull"
      by (rule bucket_lookup_ok[OF table_chain[OF _ i(1)] that, of hash "ht_size h"]) (use t in blast)
    moreover have "snd a (hash s) = chain_map hash ?b (hash s)" by (rule table_at[OF t])
    moreover have "ht_lookup hash h s = (if ?b \<noteq> BNull then bucket_lookup hash ?b s else Inr None)"
      using Some i a(2) by (simp add: ht_lookup_def get_ind_def)
    ultimately show ?thesis by (cases "?b = BNull") simp_all
  qed
qed

lemma ht_remove_ok:
  assumes rel: "ht_rel hash (Suc n) a h" and alloc: "fst a"
  shows "\<exists>h'. ht_remove hash s h = Inr h' \<and> ht_rel hash n (True, (snd a)(hash s := None)) h'"
proof -
  from rel have a: "table_rel hash a h" "0 < ht_size h" "ht_size h < 2 ^ 32" "finite (dom (snd a))" "int (card (dom (snd a))) \<le> ht_fill h"
    "30 * (ht_fill h + int (Suc n)) + 50 < 2 ^ 32" by (auto simp: ht_rel_def)
  obtain t where t: "ht_table h = Some t" using a(1) alloc by (auto simp: table_rel_def split: option.splits)
  note tr = table_relD[OF a(1) t]
  let ?b = "t ! nat (hash s mod ht_size h)"
  have i: "nat (hash s mod ht_size h) < length t" "0 \<le> hash s mod ht_size h" "hash s mod ht_size h < int (length t)"
    using table_index tr by blast+
  have bmap: "snd a (hash s) = chain_map hash ?b (hash s)" by (rule table_at[OF tr])
  have start: "ht_remove hash s h = (if ?b = BNull then Inr h
       else ebind (case unlink hash (hash s) ?b of
             None \<Rightarrow> Inr h
           | Some b \<Rightarrow> Inr (h\<lparr>ht_table := Some (t[nat (hash s mod ht_size h) := b]), ht_fill := (ht_fill h - 1) mod 2 ^ 64\<rparr>)) (\<lambda>h.
         ebind (ht_lookup hash h s) (\<lambda>r. ebind (eassert (r = None)) (\<lambda>_. Inr h))))"
    using t i a(2) by (simp add: ht_remove_def get_ind_def the_table_def split: option.splits)
  show ?thesis
  proof (cases "snd a (hash s)")
    case None
    then have same: "(True, (snd a)(hash s := None)) = a" using alloc by (cases a) auto
    have "unlink hash (hash s) ?b = None"
      using unlink_ok[OF table_chain[OF _ i(1)], of hash "ht_size h" "hash s"] tr None bmap by (auto split: option.splits)
    then have "ht_remove hash s h = Inr h" using start ht_lookup_ok[OF a(1,2), of s] None by (simp add: eassert_def)
    moreover have "ht_rel hash n a h" using a by (auto simp: ht_rel_def)
    ultimately show ?thesis unfolding same by blast
  next
    case (Some e)
    then have ne: "chain_map hash ?b (hash s) \<noteq> None" using bmap by simp
    then obtain b where b: "unlink hash (hash s) ?b = Some b" "chain_ok hash b" "chain_map hash b = (chain_map hash ?b)(hash s := None)"
      "set (chain_data b) \<subseteq> set (chain_data ?b)"
      using unlink_ok[OF table_chain[OF _ i(1)], of hash "ht_size h" "hash s"] tr by (auto split: option.splits)
    have data: "\<forall>e \<in> set (chain_data b). hash e mod ht_size h = hash s mod ht_size h"
    proof -
      have "\<forall>e \<in> set (chain_data ?b). hash e mod ht_size h = int (nat (hash s mod ht_size h))"
        using tr i(1) unfolding table_ok_def by blast
      then show ?thesis using b(4) unfolding nat_0_le[OF i(2)] by blast
    qed
    have card: "card (dom ((snd a)(hash s := None))) = card (dom (snd a)) - 1" "0 < card (dom (snd a))"
      using Some a(4) by (auto simp: card_gt_0_iff card_Diff_singleton domI)
    have f: "(ht_fill h - 1) mod 2 ^ 64 = ht_fill h - 1"
      by (rule mod_pos_pos_trivial) (use card(2) a(5,6) in simp_all)
    let ?h = "h\<lparr>ht_table := Some (t[nat (hash s mod ht_size h) := b]), ht_fill := ht_fill h - 1\<rparr>"
    have rel': "table_rel hash (True, (snd a)(hash s := None)) ?h"
      using table_update[OF _ b(2,3) data] tr by (simp add: table_rel_def)
    then have "ht_lookup hash ?h s = Inr None" using ht_lookup_ok[OF rel'] a(2) by simp
    moreover have "?b \<noteq> BNull" using ne by auto
    ultimately have "ht_remove hash s h = Inr ?h" using start b(1) f by (simp add: eassert_def)
    moreover have "int (card (dom ((snd a)(hash s := None)))) \<le> ht_fill h - 1" using card a(5) by linarith
    ultimately show ?thesis using rel' a by (intro exI[of _ ?h]) (auto simp: ht_rel_def)
  qed
qed

text \<open>Calls of the class with what they return, and the same calls on a map.\<close>

datatype 'e ht_op = HAdd 'e | HRemove 'e | HLookup 'e | HDeleteAll | HPrune

definition quiet :: "'s result \<Rightarrow> ('e option \<times> 's) result" where
  "quiet r = ebind r (\<lambda>s. Inr (None, s))"

fun ht_step :: "('e \<Rightarrow> int) \<Rightarrow> 'e ht_op \<Rightarrow> 'e HashTable \<Rightarrow> ('e option \<times> 'e HashTable) result" where
  "ht_step hash (HAdd s) h = quiet (ht_add hash s h)"
| "ht_step hash (HRemove s) h = quiet (ht_remove hash s h)"
| "ht_step hash (HLookup s) h = ebind (ht_lookup hash h s) (\<lambda>r. Inr (r, h))"
| "ht_step hash HDeleteAll h = quiet (case ht_delete_all h of None \<Rightarrow> Inl Diverges | Some h \<Rightarrow> Inr h)"
| "ht_step hash HPrune h = quiet (case ht_prune h of None \<Rightarrow> Inl Diverges | Some h \<Rightarrow> Inr h)"

fun map_step :: "('e \<Rightarrow> int) \<Rightarrow> 'e ht_op \<Rightarrow> bool \<times> (int \<Rightarrow> 'e option) \<Rightarrow>
    ('e option \<times> bool \<times> (int \<Rightarrow> 'e option)) result" where
  "map_step hash (HAdd s) (a, m) = Inr (None, True, m(hash s \<mapsto> s))"
| "map_step hash (HRemove s) (a, m) = (if a then Inr (None, True, m(hash s := None)) else Inl NullDeref)"
| "map_step hash (HLookup s) (a, m) = Inr (m (hash s), a, m)"
| "map_step hash HDeleteAll (a, m) = Inr (None, a, Map.empty)"
| "map_step hash HPrune (a, m) = Inr (None, False, Map.empty)"

lemma ht_rel_empty:
  assumes "ht_rel hash (Suc n) a h" "table_rel hash (b, Map.empty) h'" "ht_size h' = ht_size h" "0 \<le> ht_fill h'" "ht_fill h' \<le> ht_fill h"
  shows "ht_rel hash n (b, Map.empty) h'"
  using assms by (auto simp: ht_rel_def)

lemma ht_step_sim:
  assumes rel: "ht_rel hash (Suc n) a h"
  shows "case map_step hash x a of Inl e \<Rightarrow> ht_step hash x h = Inl e
    | Inr (y, a') \<Rightarrow> \<exists>h'. ht_step hash x h = Inr (y, h') \<and> ht_rel hash n a' h'"
proof -
  obtain al m where a: "a = (al, m)" by (cases a)
  from rel have t: "table_rel hash a h" "0 < ht_size h" "ht_size h < 2 ^ 32" "0 \<le> ht_fill h" by (auto simp: ht_rel_def)
  have less: "ht_rel hash n a h" using rel by (auto simp: ht_rel_def)
  show ?thesis
  proof (cases x)
    case (HAdd s)
    then show ?thesis using ht_add_ok[OF rel, of s] a by (auto simp: quiet_def)
  next
    case (HRemove s)
    show ?thesis
    proof (cases al)
      case True
      then show ?thesis using HRemove ht_remove_ok[OF rel, of s] a by (auto simp: quiet_def)
    next
      case False
      then have "ht_table h = None" using t(1) a by (auto simp: table_rel_def split: option.splits)
      then show ?thesis using False HRemove a t(2) by (simp add: quiet_def ht_remove_def get_ind_def the_table_def)
    qed
  next
    case (HLookup s)
    then show ?thesis using ht_lookup_ok[OF t(1,2), of s] a less by simp
  next
    case HDeleteAll
    have ok: "table_ok hash k (map (\<lambda>b. BNull) ts) \<and> table_map hash k (map (\<lambda>b. BNull) ts) = Map.empty"
      if "table_ok hash k ts" for k ts
      using that table_index[OF that] by (auto simp: table_ok_def table_map_def)
    have "\<exists>h'. ht_delete_all h = Some h' \<and> table_rel hash (al, Map.empty) h' \<and> ht_size h' = ht_size h \<and> ht_fill h' = ht_fill h"
      using t(1,3) ok a by (auto simp: ht_delete_all_def table_rel_def split: option.splits)
    then show ?thesis using HDeleteAll a ht_rel_empty[OF rel] t(4) by (auto simp: quiet_def)
  next
    case HPrune
    have "\<exists>h'. ht_prune h = Some h' \<and> table_rel hash (False, Map.empty) h' \<and> ht_size h' = ht_size h \<and> 0 \<le> ht_fill h' \<and> ht_fill h' \<le> ht_fill h"
      using t a by (auto simp: ht_prune_def table_rel_def split: option.splits)
    then show ?thesis using HPrune a ht_rel_empty[OF rel] by (auto simp: quiet_def)
  qed
qed

interpretation ht: op_simulation "ht_step hash" "map_step hash" "ht_rel hash" "\<lambda>_. True" for hash
  by unfold_locales (rule ht_step_sim)

lemma ht_init_rel: "\<lbrakk>0 < s; s < 2 ^ 32; 30 * int n + 50 < 2 ^ 32\<rbrakk> \<Longrightarrow> ht_rel hash n (False, Map.empty) (ht_init s)"
  by (simp add: ht_rel_def ht_init_def table_rel_def)

text \<open>
  C35. Any sequence of n calls of add, remove, lookup, delete_all and prune on a new hash table whose initial size is not zero and
  below 2 ^ 32, with 30 n + 50 below 2 ^ 32 (so that no growth passes the range of an unsigned int), gives the answers of a map from
  hash values to elements, through every growth those calls can cause; the one failure is a remove before the first add (or after prune), which
  reads the table pointer while it is NULL. The assertion of remove holds. A table of initial size zero divides by zero and is not covered.
\<close>

theorem hash_table_refines_map:
  assumes "0 < s" "s < 2 ^ 32" "30 * int (length xs) + 50 < 2 ^ 32"
  shows "run_ops (ht_step hash) xs (ht_init s) = run_ops (map_step hash) xs (False, Map.empty)"
  by (rule ht.run_sim) (use ht_init_rel[OF assms] in simp_all)

theorem hash_table_refines_map_witness:
  "run_ops (ht_step (\<lambda>x. x)) [HAdd 4, HAdd 7, HAdd 1, HRemove 4, HLookup 4, HLookup 7] (ht_init 3) =
     Inr [None, None, None, None, None, Some (7 :: int)]"
  using hash_table_refines_map[of 3 "[HAdd 4, HAdd 7, HAdd 1, HRemove 4, HLookup 4, HLookup 7]" "\<lambda>x. x"] by simp

end
