(* ===== verification/Heap_Slots.thy ===== *)
theory Heap_Slots
  imports Op_Refinement
begin

text \<open>
  What array heaps with back pointers share: \<open>src/libsbpl/src/utils/heap.cpp\<close> counts its slots from 1,
  \<open>src/pbnf/src/util/priority_queue.h\<close> from 0, and both move a hole up or down and write the index of every
  element they move. The locale \<open>heap_shape\<close> has the two numberings as instances and carries the order
  arguments; \<open>slots\<close> relates the array with a hole and the index store to the contents.
\<close>

section \<open>Heap order\<close>

locale heap_shape =
  fixes first :: nat and par :: "nat \<Rightarrow> nat" and lft :: "nat \<Rightarrow> nat"
  assumes par_less: "first < j \<Longrightarrow> par j < j" and par_ge: "first < j \<Longrightarrow> first \<le> par j"
    and par_iff: "\<lbrakk>first \<le> i; first < j\<rbrakk> \<Longrightarrow> par j = i \<longleftrightarrow> j = lft i \<or> j = Suc (lft i)"
    and lft_greater: "first \<le> i \<Longrightarrow> first < lft i \<and> i < lft i"
begin

definition ordered_from :: "('e \<Rightarrow> 'k::linorder) \<Rightarrow> nat \<Rightarrow> nat \<Rightarrow> (nat \<Rightarrow> 'e) \<Rightarrow> bool" where
  "ordered_from key lo n b \<longleftrightarrow> (\<forall>j. first < j \<and> j < n \<and> lo \<le> par j \<longrightarrow> key (b (par j)) \<le> key (b j))"

definition up_ok :: "('e \<Rightarrow> 'k::linorder) \<Rightarrow> nat \<Rightarrow> (nat \<Rightarrow> 'e) \<Rightarrow> nat \<Rightarrow> bool" where
  "up_ok key n b h \<longleftrightarrow> first \<le> h \<and> h < n \<and> (\<forall>j. first < j \<and> j < n \<and> j \<noteq> h \<longrightarrow> key (b (par j)) \<le> key (b j)) \<and>
     (\<forall>j. first < j \<and> j < n \<and> par j = h \<and> first < h \<longrightarrow> key (b (par h)) \<le> key (b j))"

definition down_ok :: "('e \<Rightarrow> 'k::linorder) \<Rightarrow> nat \<Rightarrow> nat \<Rightarrow> (nat \<Rightarrow> 'e) \<Rightarrow> nat \<Rightarrow> bool" where
  "down_ok key lo n b h \<longleftrightarrow> first \<le> h \<and> lo \<le> h \<and> h < n \<and>
     (\<forall>j. first < j \<and> j < n \<and> lo \<le> par j \<and> par j \<noteq> h \<longrightarrow> key (b (par j)) \<le> key (b j)) \<and>
     (\<forall>j. first < j \<and> j < n \<and> par j = h \<and> first < h \<and> lo \<le> par h \<longrightarrow> key (b (par h)) \<le> key (b j))"

definition hole_ok :: "('e \<Rightarrow> 'k::linorder) \<Rightarrow> nat \<Rightarrow> (nat \<Rightarrow> 'e) \<Rightarrow> nat \<Rightarrow> bool" where
  "hole_ok key n b h \<longleftrightarrow> first \<le> h \<and> h < n \<and>
     (\<forall>j. first < j \<and> j < n \<and> j \<noteq> h \<and> par j \<noteq> h \<longrightarrow> key (b (par j)) \<le> key (b j)) \<and>
     (\<forall>j. first < j \<and> j < n \<and> par j = h \<and> first < h \<longrightarrow> key (b (par h)) \<le> key (b j))"

lemma lft_children: "first \<le> i \<Longrightarrow> par (lft i) = i \<and> par (Suc (lft i)) = i"
  using lft_greater[of i] par_iff[of i "lft i"] par_iff[of i "Suc (lft i)"] by auto

lemma up_step:
  assumes u: "up_ok key n b h" and h: "first < h" and less: "key (b h) \<le> key (b (par h))"
  shows "up_ok key n (b(h := b (par h), par h := b h)) (par h)"
proof -
  note p = par_less[OF h] par_ge[OF h]
  have "key ((b(h := b (par h), par h := b h)) (par j)) \<le> key ((b(h := b (par h), par h := b h)) j)"
    if j: "first < j" "j < n" "j \<noteq> par h" for j
    using u less p j h par_less[OF j(1)] unfolding up_ok_def by (auto intro: order_trans)
  moreover have "key ((b(h := b (par h), par h := b h)) (par (par h))) \<le> key ((b(h := b (par h), par h := b h)) j)"
    if j: "first < j" "j < n" "par j = par h" "first < par h" for j
  proof -
    have pp: "par (par h) < par h" using par_less[OF j(4)] .
    have 1: "key (b (par (par h))) \<le> key (b (par h))" using u p j unfolding up_ok_def by auto
    have "key (b (par h)) \<le> key (b j)" if "j \<noteq> h" using u j that unfolding up_ok_def by metis
    then show ?thesis using 1 pp p j par_less[OF j(1)] by (auto intro: order_trans)
  qed
  ultimately show ?thesis using u p unfolding up_ok_def by auto
qed

lemma up_done: "\<lbrakk>up_ok key n b h; first < h \<Longrightarrow> key (b (par h)) \<le> key (b h)\<rbrakk> \<Longrightarrow> ordered_from key first n b"
  unfolding up_ok_def ordered_from_def by metis

lemma down_step:
  assumes d: "down_ok key lo n b h" and c: "first < c" "c < n" "par c = h"
    and least: "\<And>j. \<lbrakk>first < j; j < n; par j = h\<rbrakk> \<Longrightarrow> key (b c) \<le> key (b j)" and le: "key (b c) \<le> key (b h)"
  shows "down_ok key lo n (b(h := b c, c := b h)) c"
proof -
  have hc: "h < c" using par_less[OF c(1)] c(3) by simp
  have "key ((b(h := b c, c := b h)) (par j)) \<le> key ((b(h := b c, c := b h)) j)"
    if j: "first < j" "j < n" "lo \<le> par j" "par j \<noteq> c" for j
  proof (cases "par j = h")
    case True
    then show ?thesis using least[OF j(1,2)] le hc par_less[OF j(1)] by auto
  next
    case False
    have 1: "key (b (par j)) \<le> key (b j)" using d j False unfolding down_ok_def by blast
    show ?thesis
    proof (cases "j = h")
      case True
      then have "key (b (par h)) \<le> key (b c)" using d c j unfolding down_ok_def by blast
      then show ?thesis using True False j(4) par_less[OF j(1)] hc by auto
    next
      case jh: False
      then show ?thesis using 1 False j(4) c(3) by auto
    qed
  qed
  moreover have "key ((b(h := b c, c := b h)) (par c)) \<le> key ((b(h := b c, c := b h)) j)"
    if j: "first < j" "j < n" "par j = c" "lo \<le> par c" for j
  proof -
    have "c < j" using par_less[OF j(1)] j(3) by simp
    moreover have "key (b c) \<le> key (b j)" using d j hc c unfolding down_ok_def by auto
    ultimately show ?thesis using hc c(3) by auto
  qed
  ultimately show ?thesis using d hc c unfolding down_ok_def by auto
qed

lemma down_done:
  assumes "down_ok key lo n b h" "\<And>j. \<lbrakk>first < j; j < n; par j = h\<rbrakk> \<Longrightarrow> key (b h) \<le> key (b j)"
  shows "ordered_from key lo n b"
  using assms unfolding down_ok_def ordered_from_def by metis

text \<open>An element of a heap replaced by an arbitrary one goes up or down.\<close>

lemma hole_up: "\<lbrakk>hole_ok key n b h; first < h; key (b h) \<le> key (b (par h))\<rbrakk> \<Longrightarrow> up_ok key n b h"
  unfolding hole_ok_def up_ok_def by (metis order_trans)

lemma hole_down: "\<lbrakk>hole_ok key n b h; first < h \<Longrightarrow> key (b (par h)) \<le> key (b h)\<rbrakk> \<Longrightarrow> down_ok key first n b h"
  unfolding hole_ok_def down_ok_def by metis

lemma ordered_hole:
  assumes o: "ordered_from key first n b" and h: "first \<le> h" "h < m" "m \<le> n"
  shows "hole_ok key m (b(h := x)) h"
proof -
  have le: "key (b (par j)) \<le> key (b j)" if "first < j" "j < m" for j
    using o h that par_ge[OF that(1)] unfolding ordered_from_def by auto
  have "key ((b(h := x)) (par h)) \<le> key ((b(h := x)) j)" if j: "first < j" "j < m" "par j = h" "first < h" for j
    using le[OF j(1,2)] le[OF j(4) h(2)] par_less[OF j(4)] par_less[OF j(1)] j(3) by (auto intro: order_trans)
  then show ?thesis using h le par_less unfolding hole_ok_def by auto
qed

lemma hole_cong:
  assumes h: "hole_ok key n b h" and eq: "\<And>j. \<lbrakk>first \<le> j; j < n; j \<noteq> h\<rbrakk> \<Longrightarrow> key' (b j) = key (b j)"
  shows "hole_ok key' n b h"
proof -
  have p: "first \<le> par j \<and> par j < n \<and> par j \<noteq> j" if "first < j" "j < n" for j
    using par_less[OF that(1)] par_ge[OF that(1)] that by auto
  have "key' (b (par j)) \<le> key' (b j)" if "first < j" "j < n" "j \<noteq> h" "par j \<noteq> h" for j
  proof -
    have "key (b (par j)) \<le> key (b j)" using h that unfolding hole_ok_def by blast
    then show ?thesis using eq[of j] eq[of "par j"] p[OF that(1,2)] that by simp
  qed
  moreover have "key' (b (par h)) \<le> key' (b j)" if "first < j" "j < n" "par j = h" "first < h" for j
  proof -
    have "key (b (par h)) \<le> key (b j)" "h < n" using h that unfolding hole_ok_def by blast+
    then show ?thesis using eq[of j] eq[of "par h"] p[OF that(1,2)] p[OF that(4) \<open>h < n\<close>] that by simp
  qed
  ultimately show ?thesis using h unfolding hole_ok_def by blast
qed

lemma ordered_last:
  assumes o: "ordered_from key first n b" and n: "first \<le> n"
  shows "up_ok key (Suc n) (b(n := x)) n"
proof -
  have p: "par j \<noteq> n" if "first < j" "j < Suc n" for j using par_less[OF that(1)] that by auto
  have "key (b (par j)) \<le> key (b j)" if "first < j" "j < n" for j
    using o that par_ge[OF that(1)] unfolding ordered_from_def by blast
  then show ?thesis using n p unfolding up_ok_def by (auto simp: less_Suc_eq)
qed

lemma first_least:
  assumes o: "ordered_from key first n b"
  shows "\<lbrakk>first \<le> j; j < n\<rbrakk> \<Longrightarrow> key (b first) \<le> key (b j)"
proof (induction j rule: less_induct)
  case (less j)
  show ?case
  proof (cases "j = first")
    case False
    then have j: "first < j" using less.prems by simp
    have "key (b first) \<le> key (b (par j))" using less.IH[OF par_less[OF j] par_ge[OF j]] par_less[OF j] less.prems by simp
    also have "\<dots> \<le> key (b j)" using o j less.prems par_ge[OF j] unfolding ordered_from_def by auto
    finally show ?thesis .
  qed simp
qed

lemma ordered_mono: "\<lbrakk>ordered_from key lo n b; m \<le> n\<rbrakk> \<Longrightarrow> ordered_from key lo m b"
  unfolding ordered_from_def by auto

lemma ordered_cong:
  "\<lbrakk>ordered_from key lo n b; \<And>j. \<lbrakk>first \<le> j; j < n\<rbrakk> \<Longrightarrow> b j = b' j\<rbrakk> \<Longrightarrow> ordered_from key lo n b'"
  unfolding ordered_from_def by (metis less_imp_le_nat order_less_trans par_ge par_less)

text \<open>The second half of a heap has no children: any contents are ordered from there.\<close>

lemma ordered_leaves: "\<lbrakk>first \<le> lo; n \<le> lft lo\<rbrakk> \<Longrightarrow> (\<And>i j. \<lbrakk>first \<le> i; i \<le> j\<rbrakk> \<Longrightarrow> lft i \<le> lft j) \<Longrightarrow> ordered_from key lo n b"
proof -
  assume lo: "first \<le> lo" "n \<le> lft lo" and mono: "\<And>i j. \<lbrakk>first \<le> i; i \<le> j\<rbrakk> \<Longrightarrow> lft i \<le> lft j"
  have "n \<le> j" if "first < j" "lo \<le> par j" for j
    using par_iff[OF par_ge[OF that(1)] that(1)] mono[OF lo(1) that(2)] lo(2) by auto
  then show ?thesis unfolding ordered_from_def by fastforce
qed

lemma ordered_down: "\<lbrakk>ordered_from key (Suc lo) n b; first \<le> lo; lo < n\<rbrakk> \<Longrightarrow> down_ok key lo n b lo"
proof -
  assume o: "ordered_from key (Suc lo) n b" and lo: "first \<le> lo" "lo < n"
  have "key (b (par j)) \<le> key (b j)" if "first < j" "j < n" "lo \<le> par j" "par j \<noteq> lo" for j
    using o that unfolding ordered_from_def by (simp add: Suc_leI)
  moreover have "\<not> lo \<le> par lo" if "first < lo" using par_less[OF that] by simp
  ultimately show ?thesis using lo unfolding down_ok_def by blast
qed

end

text \<open>The two numberings.\<close>

interpretation one: heap_shape 1 "\<lambda>j. j div 2" "\<lambda>i. 2 * i"
  by unfold_locales auto

interpretation zero: heap_shape 0 "\<lambda>j. (j - 1) div 2" "\<lambda>i. 2 * i + 1"
  by unfold_locales auto

section \<open>Slots and the index store\<close>

text \<open>
  \<open>packed\<close>: the cells \<open>f .. n-1\<close> hold the elements \<open>b\<close>, whose set is \<open>E\<close>, and the object of each (\<open>st\<close>)
  has its index. \<open>slots\<close>: the same except for the hole \<open>h\<close>, whose element \<open>b h\<close> is still in a variable;
  objects outside \<open>E\<close> have the indices they had in \<open>idx0\<close>.
\<close>

definition packed :: "('e \<Rightarrow> 'v) \<Rightarrow> nat \<Rightarrow> nat \<Rightarrow> 'e option list \<Rightarrow> ('v \<Rightarrow> int) \<Rightarrow> 'e set \<Rightarrow> (nat \<Rightarrow> 'e) \<Rightarrow> bool" where
  "packed st f n a idx E b \<longleftrightarrow> n \<le> length a \<and> b ` {f..<n} = E \<and>
     (\<forall>j. f \<le> j \<and> j < n \<longrightarrow> a ! j = Some (b j) \<and> idx (st (b j)) = int j)"

definition slots :: "('e \<Rightarrow> 'v) \<Rightarrow> nat \<Rightarrow> nat \<Rightarrow> ('v \<Rightarrow> int) \<Rightarrow> 'e set \<Rightarrow> 'e option list \<Rightarrow> ('v \<Rightarrow> int) \<Rightarrow> (nat \<Rightarrow> 'e) \<Rightarrow> nat \<Rightarrow> bool" where
  "slots st f n idx0 E a idx b h \<longleftrightarrow> n \<le> length a \<and> f \<le> h \<and> h < n \<and> b ` {f..<n} = E \<and> inj_on (st \<circ> b) {f..<n} \<and>
     (\<forall>j. f \<le> j \<and> j < n \<and> j \<noteq> h \<longrightarrow> a ! j = Some (b j) \<and> idx (st (b j)) = int j) \<and>
     (\<forall>s. s \<notin> st ` E \<longrightarrow> idx s = idx0 s)"

lemma swap_image: "\<lbrakk>i \<in> A; j \<in> A\<rbrakk> \<Longrightarrow> (b(i := b j, j := b i)) ` A = b ` A"
  by (auto simp: image_iff)

lemma swap_inj: "\<lbrakk>i \<in> A; j \<in> A; inj_on (g \<circ> b) A\<rbrakk> \<Longrightarrow> inj_on (g \<circ> b(i := b j, j := b i)) A"
proof (rule inj_onI)
  fix x y assume A: "i \<in> A" "j \<in> A" "inj_on (g \<circ> b) A" "x \<in> A" "y \<in> A"
    and eq: "(g \<circ> b(i := b j, j := b i)) x = (g \<circ> b(i := b j, j := b i)) y"
  define t where "t z = (if z = j then i else if z = i then j else z)" for z
  have "(g \<circ> b) (t x) = (g \<circ> b) (t y)" using eq by (simp add: t_def split: if_splits)
  moreover have "t x \<in> A" "t y \<in> A" using A by (auto simp: t_def)
  ultimately have "t x = t y" using A(3) unfolding inj_on_def by blast
  then show "x = y" by (auto simp: t_def split: if_splits)
qed

lemma slots_move:
  assumes s: "slots st f n idx0 E a idx b h" and p: "f \<le> p" "p < n" "p \<noteq> h"
  shows "slots st f n idx0 E (a[h := a ! p]) (idx(st (b p) := int h)) (b(h := b p, p := b h)) p"
proof -
  have i: "inj_on (st \<circ> b) {f..<n}" using s by (simp add: slots_def)
  have ne: "st (b j) \<noteq> st (b p)" if "f \<le> j" "j < n" "j \<noteq> p" for j using i that p unfolding inj_on_def by auto
  have h: "h \<in> {f..<n}" "p \<in> {f..<n}" using s p by (auto simp: slots_def)
  have "b p \<in> E" using s p by (auto simp: slots_def)
  then have frame: "\<forall>s. s \<notin> st ` E \<longrightarrow> (idx(st (b p) := int h)) s = idx0 s" using s unfolding slots_def by (metis fun_upd_other imageI)
  have "\<forall>j. f \<le> j \<and> j < n \<and> j \<noteq> p \<longrightarrow> (a[h := a ! p]) ! j = Some ((b(h := b p, p := b h)) j) \<and>
      (idx(st (b p) := int h)) (st ((b(h := b p, p := b h)) j)) = int j"
    using s p ne by (auto simp: slots_def nth_list_update)
  moreover have "n \<le> length (a[h := a ! p])" "(b(h := b p, p := b h)) ` {f..<n} = E"
    using s swap_image[OF h, of b] unfolding slots_def by auto
  ultimately show ?thesis unfolding slots_def using p frame swap_inj[OF h i] by blast
qed

lemma slots_fill:
  assumes s: "slots st f n idx0 E a idx b h"
  shows "packed st f n (a[h := Some (b h)]) (idx(st (b h) := int h)) E b"
    "\<And>s. s \<notin> st ` E \<Longrightarrow> (idx(st (b h) := int h)) s = idx0 s"
proof -
  have i: "inj_on (st \<circ> b) {f..<n}" using s by (simp add: slots_def)
  have "st (b j) \<noteq> st (b h)" if "f \<le> j" "j < n" "j \<noteq> h" for j using i s that unfolding inj_on_def slots_def by auto
  then show "packed st f n (a[h := Some (b h)]) (idx(st (b h) := int h)) E b"
    using s by (auto simp: packed_def slots_def nth_list_update)
  show "(idx(st (b h) := int h)) s = idx0 s" if "s \<notin> st ` E" for s
  proof -
    have "b h \<in> E" using s by (auto simp: slots_def)
    then show ?thesis using s that unfolding slots_def by (metis fun_upd_other imageI)
  qed
qed

lemma packed_inj: "packed st f n a idx E b \<Longrightarrow> inj_on (st \<circ> b) {f..<n}"
  unfolding packed_def inj_on_def by (metis atLeastLessThan_iff comp_apply of_nat_eq_iff)

lemma packed_at: "\<lbrakk>packed st f n a idx E b; f \<le> j; j < n\<rbrakk> \<Longrightarrow> a ! j = Some (b j) \<and> idx (st (b j)) = int j \<and> j < length a"
  by (auto simp: packed_def)

lemma packed_index: "\<lbrakk>packed st f n a idx E b; e \<in> E\<rbrakk> \<Longrightarrow> \<exists>j. f \<le> j \<and> j < n \<and> b j = e \<and> idx (st e) = int j"
  unfolding packed_def by (metis (no_types, lifting) atLeastLessThan_iff imageE)

lemma packed_card: "packed st f n a idx E b \<Longrightarrow> finite E \<and> card E = n - f \<and> inj_on st E"
proof -
  assume p: "packed st f n a idx E b"
  have E: "E = b ` {f..<n}" and i: "inj_on (st \<circ> b) {f..<n}" using p packed_inj[OF p] by (auto simp: packed_def)
  then show ?thesis using inj_on_imageI2[OF i] inj_on_imageI[OF i] by (simp add: card_image comp_def)
qed

lemma packed_resize: "\<lbrakk>packed st f n a idx E b; n \<le> length a'; \<And>j. \<lbrakk>f \<le> j; j < n\<rbrakk> \<Longrightarrow> a' ! j = a ! j\<rbrakk> \<Longrightarrow> packed st f n a' idx E b"
  by (auto simp: packed_def)

text \<open>Opening a hole: for another key of the same object, for the last element in place of another, and at the end.\<close>

lemma slots_rekey:
  assumes p: "packed st f n a idx E b" and h: "f \<le> h" "h < n" and x: "st x = st (b h)"
  shows "slots st f n idx (insert x (E - {b h})) a idx (b(h := x)) h"
proof -
  have i: "inj_on (st \<circ> b) {f..<n}" using packed_inj[OF p] .
  have "b j \<noteq> b h" if "f \<le> j" "j < n" "j \<noteq> h" for j using i that h unfolding inj_on_def by auto
  then have "(b(h := x)) ` {f..<n} = insert x (E - {b h})" using p h by (auto simp: packed_def image_iff)
  moreover have "st \<circ> b(h := x) = st \<circ> b" using x by (auto simp: fun_eq_iff)
  ultimately show ?thesis using p h i by (auto simp: slots_def packed_def)
qed

lemma slots_last:
  assumes p: "packed st f (Suc n) a idx E b" and h: "f \<le> h" "h < n"
  shows "slots st f n idx (E - {b h}) a idx (b(h := b n)) h"
proof -
  have i: "inj_on (st \<circ> b) {f..<Suc n}" using packed_inj[OF p] .
  have ne: "st (b j) \<noteq> st (b k)" if "f \<le> j" "j \<le> n" "f \<le> k" "k \<le> n" "j \<noteq> k" for j k
    using i that unfolding inj_on_def by (auto simp: less_Suc_eq_le)
  then have nb: "b j \<noteq> b h" if "f \<le> j" "j \<le> n" "j \<noteq> h" for j using that h by (metis order_less_imp_le)
  have E: "E = b ` {f..<Suc n}" using p by (simp add: packed_def)
  have "(b(h := b n)) ` {f..<n} = E - {b h}"
  proof
    show "(b(h := b n)) ` {f..<n} \<subseteq> E - {b h}" unfolding E using nb h by (auto split: if_splits)
    show "E - {b h} \<subseteq> (b(h := b n)) ` {f..<n}"
    proof
      fix e assume "e \<in> E - {b h}"
      then obtain j where "j \<in> {f..<Suc n}" "e = b j" "e \<noteq> b h" unfolding E by blast
      then have j: "f \<le> j" "j \<le> n" "e = b j" "j \<noteq> h" by auto
      show "e \<in> (b(h := b n)) ` {f..<n}"
      proof (cases "j = n")
        case True
        then show ?thesis using j h by (intro image_eqI[of _ _ h]) auto
      next
        case False
        then show ?thesis using j h by (intro image_eqI[of _ _ j]) auto
      qed
    qed
  qed
  moreover have "inj_on (st \<circ> b(h := b n)) {f..<n}" unfolding inj_on_def using ne h by (auto split: if_splits) (metis less_imp_le_nat less_irrefl)+
  moreover have "idx s = idx s" for s ..
  ultimately show ?thesis using p h by (auto simp: slots_def packed_def)
qed

lemma slots_new:
  assumes p: "packed st f n a idx E b" and n: "f \<le> n" "n < length a" and x: "st x \<notin> st ` E"
  shows "slots st f (Suc n) idx (insert x E) a idx (b(n := x)) n"
proof -
  have ne: "st (b j) \<noteq> st x" if "f \<le> j" "j < n" for j
  proof -
    have "b j \<in> E" using p that by (auto simp: packed_def)
    then show ?thesis using x by (metis imageI)
  qed
  have "{f..<Suc n} = insert n {f..<n}" using n by auto
  then have "(b(n := x)) ` {f..<Suc n} = insert x E" using p by (auto simp: packed_def)
  moreover have "inj_on (st \<circ> b(n := x)) {f..<Suc n}"
    using packed_inj[OF p] ne unfolding inj_on_def by (auto simp: less_Suc_eq split: if_splits) (metis)+
  ultimately show ?thesis using p n by (auto simp: slots_def packed_def less_Suc_eq)
qed

lemma slots_reindex: "\<lbrakk>slots st f n idx0 E a idx b h; s \<notin> st ` E\<rbrakk> \<Longrightarrow> slots st f n (idx0(s := v)) E a (idx(s := v)) b h"
  unfolding slots_def by (auto simp: image_iff) (metis atLeastLessThan_iff)+

lemma slots_hole_any: "slots st f n idx0 E a idx b h \<Longrightarrow> slots st f n idx0 E (a[h := y]) idx b h"
  unfolding slots_def by auto

lemma slots_same: "\<lbrakk>packed st f n a idx E b; f \<le> h; h < n\<rbrakk> \<Longrightarrow> slots st f n idx E a idx b h"
  using packed_inj unfolding slots_def packed_def by (metis (no_types, lifting))

lemma slots_hole_index: "slots st f n idx0 E a idx b h \<Longrightarrow> slots st f n idx0 E a (idx(st (b h) := v)) b h"
proof -
  assume s: "slots st f n idx0 E a idx b h"
  have "st (b j) \<noteq> st (b h)" if "f \<le> j" "j < n" "j \<noteq> h" for j using s that unfolding slots_def inj_on_def by auto
  moreover have "b h \<in> E" using s by (auto simp: slots_def)
  ultimately show ?thesis using s unfolding slots_def by (metis fun_upd_other imageI)
qed

text \<open>Dropping the last element.\<close>

lemma packed_drop:
  assumes p: "packed st f (Suc n) a idx E b" and n: "f \<le> n"
  shows "packed st f n a idx (E - {b n}) b"
proof -
  have "b j \<noteq> b n" if "f \<le> j" "j < n" for j
    using packed_inj[OF p] that n unfolding inj_on_def by (metis atLeastLessThan_iff comp_apply lessI less_SucI less_irrefl)
  moreover have "{f..<Suc n} = insert n {f..<n}" using n by auto
  ultimately show ?thesis using p by (auto simp: packed_def)
qed

lemma packed_frame: "\<lbrakk>packed st f n a idx E b; \<And>e. e \<in> E \<Longrightarrow> idx' (st e) = idx (st e); \<And>j. \<lbrakk>f \<le> j; j < n\<rbrakk> \<Longrightarrow> a' ! j = a ! j; n \<le> length a'\<rbrakk> \<Longrightarrow>
    packed st f n a' idx' E b"
  unfolding packed_def by auto

lemma upt_prefix:
  assumes "[m..<n] = pre @ i # post"
  shows "i = m + length pre \<and> m \<le> i \<and> i < n"
proof -
  have "length [m..<n] = Suc (length pre + length post)" "i = [m..<n] ! length pre" unfolding assms by simp_all
  then show ?thesis by (simp add: nth_upt del: upt_Suc)
qed

section \<open>Copying an array\<close>

text \<open>The loop \<open>for (i = 0; i < n; i++) new[i] = old[i]\<close>.\<close>

definition copy_cells :: "int \<Rightarrow> 'a list \<Rightarrow> 'a list \<Rightarrow> 'a list result" where
  "copy_cells n old new = efold (\<lambda>i new. ebind (arr_get old (int i)) (\<lambda>e. arr_set new (int i) e)) [0..<nat n] new"

lemma copy_cells_ok:
  assumes n: "n \<le> int (length old)" "n \<le> int (length new)"
  shows "copy_cells n old new = Inr (take (nat n) old @ drop (nat n) new)"
proof -
  have "\<exists>r. copy_cells n old new = Inr r \<and> length r = length new \<and> (\<forall>j < length new. r ! j = (if j < length [0..<nat n] then old ! j else new ! j))"
    unfolding copy_cells_def
  proof (rule efold_invariant[where I = "\<lambda>xs r. length r = length new \<and> (\<forall>j < length new. r ! j = (if j < length xs then old ! j else new ! j))"])
    fix pre i r assume "\<exists>post. [0..<nat n] = pre @ i # post"
      and r: "length r = length new \<and> (\<forall>j < length new. r ! j = (if j < length pre then old ! j else new ! j))"
    then obtain post where e: "[0..<nat n] = pre @ i # post" by blast
    from upt_prefix[OF e] have i: "i = length pre" "i < nat n" by auto
    then have "int i < int (length old)" "int i < int (length new)" using n by linarith+
    then show "\<exists>r'. ebind (arr_get old (int i)) (\<lambda>e. arr_set r (int i) e) = Inr r' \<and> length r' = length new \<and>
        (\<forall>j < length new. r' ! j = (if j < length (pre @ [i]) then old ! j else new ! j))"
      using r i by (auto simp: nth_list_update less_Suc_eq)
  qed simp
  then obtain r where r: "copy_cells n old new = Inr r" "length r = length new" "\<forall>j < length new. r ! j = (if j < nat n then old ! j else new ! j)"
    by auto
  have le: "nat n \<le> length old" "nat n \<le> length new" using n by linarith+
  have "r = take (nat n) old @ drop (nat n) new" using r(2,3) le by (intro nth_equalityI) (auto simp: nth_append min_def)
  then show ?thesis using r(1) by simp
qed

end
