(* ===== verification/Sbpl_Heap.thy ===== *)
theory Sbpl_Heap
  imports Heap_Slots
begin

text \<open>
  The open list of the SBPL planners: the two-component keys of \<open>src/libsbpl/src/utils/key.h\<close> and the
  binary heaps \<open>CHeap\<close> and \<open>CIntHeap\<close> of \<open>src/libsbpl/src/utils/heap.cpp\<close> (with \<open>heap.h\<close>). The code of
  \<open>CIntHeap\<close> is that of \<open>CHeap\<close> with \<open>int\<close> keys, so the operations are polymorphic in the type of the keys and
  used at both. Slots count from 1, and every search state has a field \<open>heapindex\<close> (0: not in the heap),
  kept here as a function of the state. A cell that was never written is \<open>None\<close>. The statistics counter \<open>percolates\<close>
  is an unbounded integer: nothing reads it.
\<close>

section \<open>Keys\<close>

datatype CKey = CKey (key0: int) (key1: int)

definition INFINITECOST :: int where
  "INFINITECOST = 1000000000"

definition CKey_new :: CKey where
  "CKey_new = CKey 0 0"

definition SetKeytoInfinity :: "CKey \<Rightarrow> CKey" where
  "SetKeytoInfinity k = CKey INFINITECOST INFINITECOST"

definition SetKeytoZero :: "CKey \<Rightarrow> CKey" where
  "SetKeytoZero k = CKey 0 0"

definition ckey_minus :: "CKey \<Rightarrow> CKey \<Rightarrow> CKey result" where
  "ckey_minus a b = ebind (num_add LONG_MAX (key0 a) (- key0 b)) (\<lambda>x. ebind (num_add LONG_MAX (key1 a) (- key1 b)) (\<lambda>y. Inr (CKey x y)))"

definition ckey_greater :: "CKey \<Rightarrow> CKey \<Rightarrow> bool" where
  "ckey_greater a b \<longleftrightarrow> key0 a > key0 b \<or> (key0 a = key0 b \<and> key1 a > key1 b)"

definition ckey_equal :: "CKey \<Rightarrow> CKey \<Rightarrow> bool" where
  "ckey_equal a b \<longleftrightarrow> key0 a = key0 b \<and> key1 a = key1 b"

definition ckey_not_equal :: "CKey \<Rightarrow> CKey \<Rightarrow> bool" where
  "ckey_not_equal a b \<longleftrightarrow> \<not> ckey_equal a b"

definition ckey_less :: "CKey \<Rightarrow> CKey \<Rightarrow> bool" where
  "ckey_less a b \<longleftrightarrow> key0 a < key0 b \<or> (key0 a = key0 b \<and> key1 a < key1 b)"

definition ckey_greater_equal :: "CKey \<Rightarrow> CKey \<Rightarrow> bool" where
  "ckey_greater_equal a b \<longleftrightarrow> \<not> ckey_less a b"

definition ckey_less_equal :: "CKey \<Rightarrow> CKey \<Rightarrow> bool" where
  "ckey_less_equal a b \<longleftrightarrow> \<not> ckey_greater a b"

text \<open>The operators of the class are a linear order.\<close>

instantiation CKey :: linorder
begin

definition less_CKey :: "CKey \<Rightarrow> CKey \<Rightarrow> bool" where
  "less_CKey = ckey_less"

definition less_eq_CKey :: "CKey \<Rightarrow> CKey \<Rightarrow> bool" where
  "less_eq_CKey = ckey_less_equal"

instance
proof
  fix a b c :: CKey
  show "a < b \<longleftrightarrow> a \<le> b \<and> \<not> b \<le> a" "a \<le> a" "a \<le> b \<or> b \<le> a"
    by (auto simp: less_CKey_def less_eq_CKey_def ckey_less_def ckey_less_equal_def ckey_greater_def)
  show "\<lbrakk>a \<le> b; b \<le> c\<rbrakk> \<Longrightarrow> a \<le> c"
    by (auto simp: less_eq_CKey_def ckey_less_equal_def ckey_greater_def)
  show "\<lbrakk>a \<le> b; b \<le> a\<rbrakk> \<Longrightarrow> a = b"
    by (cases a; cases b) (auto simp: less_eq_CKey_def ckey_less_equal_def ckey_greater_def)
qed

end

section \<open>The heap\<close>

definition HEAPSIZE :: int where
  "HEAPSIZE = 20000000"

definition HEAPSIZE_INIT :: int where
  "HEAPSIZE_INIT = 5000"

record ('v, 'k) heapelement =
  heapstate :: 'v
  ekey :: 'k

record ('v, 'k) cheap =
  percolates :: int
  cells :: "('v, 'k) heapelement option list"
  currentsize :: int
  allocated :: int
  heapindex :: "'v \<Rightarrow> int"

definition InfiniteKey :: CKey where
  "InfiniteKey = SetKeytoInfinity CKey_new"

definition heap_alloc :: "('v \<Rightarrow> int) \<Rightarrow> int \<Rightarrow> ('v, 'k) cheap" where
  "heap_alloc idx n = \<lparr>percolates = 0, cells = replicate (nat n) None, currentsize = 0, allocated = n, heapindex = idx\<rparr>"

definition CHeap_new :: "('v \<Rightarrow> int) \<Rightarrow> ('v, CKey) cheap" where
  "CHeap_new idx = heap_alloc idx HEAPSIZE_INIT"

definition heap_cell :: "('v, 'k) cheap \<Rightarrow> int \<Rightarrow> ('v, 'k) heapelement result" where
  "heap_cell h i = ebind (arr_get (cells h) i) (\<lambda>c. case c of None \<Rightarrow> Inl UninitRead | Some e \<Rightarrow> Inr e)"

text \<open>\<open>heap[hole] = e; heap[hole].heapstate->heapindex = hole\<close>\<close>

definition place :: "int \<Rightarrow> ('v, 'k) heapelement \<Rightarrow> ('v, 'k) cheap \<Rightarrow> ('v, 'k) cheap result" where
  "place hole e h = ebind (arr_set (cells h) hole (Some e)) (\<lambda>a.
     Inr (h\<lparr>cells := a, heapindex := (heapindex h)(heapstate e := hole)\<rparr>))"

text \<open>The child of a hole that may take its place.\<close>

definition lesser_child :: "int \<Rightarrow> ('v, 'k::linorder) cheap \<Rightarrow> int result" where
  "lesser_child hole h =
     (if 2 * hole \<noteq> currentsize h then
        ebind (heap_cell h (2 * hole + 1)) (\<lambda>r. ebind (heap_cell h (2 * hole)) (\<lambda>l.
          Inr (if ekey r < ekey l then 2 * hole + 1 else 2 * hole)))
      else Inr (2 * hole))"

text \<open>
  The loop of \<open>percolatedown\<close>. A hole of at least 1 grows in every round, so \<open>currentsize + 1\<close> tests are enough;
  from 0 the loop either leaves 0 at once or stays there for ever.
\<close>

fun percolatedown_loop :: "nat \<Rightarrow> int \<Rightarrow> ('v, 'k::linorder) heapelement \<Rightarrow> ('v, 'k) cheap \<Rightarrow> (int \<times> ('v, 'k) cheap) result" where
  "percolatedown_loop 0 hole tmp h = Inl Diverges"
| "percolatedown_loop (Suc n) hole tmp h =
     (if 2 * hole \<le> currentsize h then
        ebind (lesser_child hole h) (\<lambda>child. ebind (heap_cell h child) (\<lambda>c.
          if ekey c < ekey tmp then
            ebind (place hole c (h\<lparr>percolates := percolates h + 1\<rparr>)) (percolatedown_loop n child tmp)
          else Inr (hole, h)))
      else Inr (hole, h))"

definition percolatedown :: "int \<Rightarrow> ('v, 'k::linorder) heapelement \<Rightarrow> ('v, 'k) cheap \<Rightarrow> ('v, 'k) cheap result" where
  "percolatedown hole tmp h =
     (if currentsize h \<noteq> 0 then
        ebind (percolatedown_loop (nat (currentsize h) + 2) hole tmp h) (\<lambda>(hole, h). place hole tmp h)
      else Inr h)"

function percolateup_loop :: "int \<Rightarrow> ('v, 'k::linorder) heapelement \<Rightarrow> ('v, 'k) cheap \<Rightarrow> (int \<times> ('v, 'k) cheap) result" where
  "percolateup_loop hole tmp h =
     (if hole > 1 then
        ebind (heap_cell h (hole div 2)) (\<lambda>p.
          if ekey tmp < ekey p then
            ebind (place hole p (h\<lparr>percolates := percolates h + 1\<rparr>)) (\<lambda>h. percolateup_loop (hole div 2) tmp h)
          else Inr (hole, h))
      else Inr (hole, h))"
  by pat_completeness auto
termination
  by (relation "measure (\<lambda>(hole, tmp, h). nat hole)") auto

declare percolateup_loop.simps [simp del]

definition percolateup :: "int \<Rightarrow> ('v, 'k::linorder) heapelement \<Rightarrow> ('v, 'k) cheap \<Rightarrow> ('v, 'k) cheap result" where
  "percolateup hole tmp h =
     (if currentsize h \<noteq> 0 then
        ebind (percolateup_loop hole tmp h) (\<lambda>(hole, h). place hole tmp h)
      else Inr h)"

definition percolateupordown :: "int \<Rightarrow> ('v, 'k::linorder) heapelement \<Rightarrow> ('v, 'k) cheap \<Rightarrow> ('v, 'k) cheap result" where
  "percolateupordown hole tmp h =
     (if currentsize h \<noteq> 0 then
        ebind (if hole > 1 then ebind (heap_cell h (hole div 2)) (\<lambda>p. Inr (ekey p > ekey tmp)) else Inr False) (\<lambda>up.
          if up then percolateup hole tmp h else percolatedown hole tmp h)
      else Inr h)"

definition emptyheap :: "('v, 'k) cheap \<Rightarrow> bool" where
  "emptyheap h \<longleftrightarrow> currentsize h = 0"

definition fullheap :: "('v, 'k) cheap \<Rightarrow> bool" where
  "fullheap h \<longleftrightarrow> currentsize h = HEAPSIZE - 1"

definition inheap :: "'v \<Rightarrow> ('v, 'k) cheap \<Rightarrow> bool" where
  "inheap s h \<longleftrightarrow> heapindex h s \<noteq> 0"

definition getkeyheap :: "'v \<Rightarrow> ('v, 'k) cheap \<Rightarrow> 'k result" where
  "getkeyheap s h = (if heapindex h s = 0 then Inl HeapError else ebind (heap_cell h (heapindex h s)) (\<lambda>e. Inr (ekey e)))"

definition forget_indices :: "('v, 'k) cheap \<Rightarrow> ('v, 'k) cheap result" where
  "forget_indices h = efold (\<lambda>i h. ebind (heap_cell h (int i)) (\<lambda>e.
     Inr (h\<lparr>heapindex := (heapindex h)(heapstate e := 0)\<rparr>))) [1..<nat (currentsize h + 1)] h"

definition makeemptyheap :: "('v, 'k) cheap \<Rightarrow> ('v, 'k) cheap result" where
  "makeemptyheap h = ebind (forget_indices h) (\<lambda>h. Inr (h\<lparr>currentsize := 0\<rparr>))"

definition makeheap :: "('v, 'k::linorder) cheap \<Rightarrow> ('v, 'k) cheap result" where
  "makeheap h = efold (\<lambda>i h. ebind (heap_cell h (int i)) (\<lambda>e. percolatedown (int i) e h)) (rev [1..<nat (currentsize h div 2 + 1)]) h"

definition growheap :: "('v, 'k) cheap \<Rightarrow> ('v, 'k) cheap result" where
  "growheap h =
     (let a = (if 2 * allocated h > HEAPSIZE then HEAPSIZE else 2 * allocated h) in
      ebind (copy_cells (currentsize h + 1) (cells h) (replicate (nat a) None)) (\<lambda>newheap.
        Inr (h\<lparr>allocated := a, cells := newheap\<rparr>)))"

definition sizecheck :: "('v, 'k) cheap \<Rightarrow> ('v, 'k) cheap result" where
  "sizecheck h = (if fullheap h then Inl HeapError
     else if currentsize h = allocated h - 1 then growheap h else Inr h)"

definition insertheap :: "'v \<Rightarrow> 'k::linorder \<Rightarrow> ('v, 'k) cheap \<Rightarrow> ('v, 'k) cheap result" where
  "insertheap s k h = ebind (sizecheck h) (\<lambda>h.
     if heapindex h s \<noteq> 0 then Inl HeapError
     else percolateup (currentsize h + 1) \<lparr>heapstate = s, ekey = k\<rparr> (h\<lparr>currentsize := currentsize h + 1\<rparr>))"

definition deleteheap :: "'v \<Rightarrow> ('v, 'k::linorder) cheap \<Rightarrow> ('v, 'k) cheap result" where
  "deleteheap s h = (if heapindex h s = 0 then Inl HeapError
     else ebind (heap_cell h (currentsize h)) (\<lambda>e.
       ebind (percolateupordown (heapindex h s) e (h\<lparr>currentsize := currentsize h - 1\<rparr>)) (\<lambda>h.
         Inr (h\<lparr>heapindex := (heapindex h)(s := 0)\<rparr>))))"

definition set_key :: "int \<Rightarrow> 'k \<Rightarrow> ('v, 'k) cheap \<Rightarrow> ('v, 'k) cheap result" where
  "set_key i k h = ebind (heap_cell h i) (\<lambda>e. ebind (arr_set (cells h) i (Some (e\<lparr>ekey := k\<rparr>))) (\<lambda>a. Inr (h\<lparr>cells := a\<rparr>)))"

definition updateheap :: "'v \<Rightarrow> 'k::linorder \<Rightarrow> ('v, 'k) cheap \<Rightarrow> ('v, 'k) cheap result" where
  "updateheap s k h = (if heapindex h s = 0 then Inl HeapError
     else ebind (heap_cell h (heapindex h s)) (\<lambda>e.
       if ekey e \<noteq> k then
         ebind (set_key (heapindex h s) k h) (\<lambda>h. ebind (heap_cell h (heapindex h s)) (\<lambda>e.
           percolateupordown (heapindex h s) e h))
       else Inr h))"

definition insert_unsafe :: "'v \<Rightarrow> 'k \<Rightarrow> ('v, 'k) cheap \<Rightarrow> ('v, 'k) cheap result" where
  "insert_unsafe s k h = ebind (sizecheck h) (\<lambda>h.
     if heapindex h s \<noteq> 0 then Inl HeapError
     else place (currentsize h + 1) \<lparr>heapstate = s, ekey = k\<rparr> (h\<lparr>currentsize := currentsize h + 1\<rparr>))"

definition deleteheap_unsafe :: "'v \<Rightarrow> ('v, 'k) cheap \<Rightarrow> ('v, 'k) cheap result" where
  "deleteheap_unsafe s h = (if heapindex h s = 0 then Inl HeapError
     else ebind (heap_cell h (currentsize h)) (\<lambda>e. ebind (place (heapindex h s) e (h\<lparr>currentsize := currentsize h - 1\<rparr>)) (\<lambda>h.
       Inr (h\<lparr>heapindex := (heapindex h)(s := 0)\<rparr>))))"

definition updateheap_unsafe :: "'v \<Rightarrow> 'k \<Rightarrow> ('v, 'k) cheap \<Rightarrow> ('v, 'k) cheap result" where
  "updateheap_unsafe s k h = (if heapindex h s = 0 then Inl HeapError
     else ebind (heap_cell h (heapindex h s)) (\<lambda>e. if ekey e \<noteq> k then set_key (heapindex h s) k h else Inr h))"

definition getminheap :: "('v, 'k) cheap \<Rightarrow> 'v result" where
  "getminheap h = (if currentsize h = 0 then Inl HeapError else ebind (heap_cell h 1) (\<lambda>e. Inr (heapstate e)))"

definition getminheap_key :: "('v, 'k) cheap \<Rightarrow> ('v \<times> 'k) result" where
  "getminheap_key h = (if currentsize h = 0 then Inl HeapError else ebind (heap_cell h 1) (\<lambda>e. Inr (heapstate e, ekey e)))"

definition minkey_or :: "'k \<Rightarrow> ('v, 'k) cheap \<Rightarrow> 'k result" where
  "minkey_or big h = (if currentsize h = 0 then Inr big else ebind (heap_cell h 1) (\<lambda>e. Inr (ekey e)))"

definition getminkeyheap :: "('v, CKey) cheap \<Rightarrow> CKey result" where
  "getminkeyheap = minkey_or InfiniteKey"

definition deleteminheap :: "('v, 'k::linorder) cheap \<Rightarrow> ('v \<times> ('v, 'k) cheap) result" where
  "deleteminheap h = (if currentsize h = 0 then Inl HeapError
     else ebind (heap_cell h 1) (\<lambda>m. ebind (heap_cell h (currentsize h)) (\<lambda>e.
       ebind (percolatedown 1 e (h\<lparr>heapindex := (heapindex h)(heapstate m := 0), currentsize := currentsize h - 1\<rparr>)) (\<lambda>h.
         Inr (heapstate m, h)))))"

section \<open>The heap with integer keys\<close>

text \<open>\<open>CIntHeap\<close>: the same code, compiled with keys of type \<open>int\<close>; the other constructor has a size.\<close>

definition CIntHeap_new :: "('v \<Rightarrow> int) \<Rightarrow> ('v, int) cheap" where
  "CIntHeap_new idx = heap_alloc idx HEAPSIZE_INIT"

definition CIntHeap_sized :: "('v \<Rightarrow> int) \<Rightarrow> int \<Rightarrow> ('v, int) cheap result" where
  "CIntHeap_sized idx n = (if n < 0 then Inl LengthError else Inr (heap_alloc idx n))"

definition CIntHeap_percolatedown :: "int \<Rightarrow> ('v, int) heapelement \<Rightarrow> ('v, int) cheap \<Rightarrow> ('v, int) cheap result" where
  "CIntHeap_percolatedown = percolatedown"

definition CIntHeap_percolateup :: "int \<Rightarrow> ('v, int) heapelement \<Rightarrow> ('v, int) cheap \<Rightarrow> ('v, int) cheap result" where
  "CIntHeap_percolateup = percolateup"

definition CIntHeap_percolateupordown :: "int \<Rightarrow> ('v, int) heapelement \<Rightarrow> ('v, int) cheap \<Rightarrow> ('v, int) cheap result" where
  "CIntHeap_percolateupordown = percolateupordown"

definition CIntHeap_emptyheap :: "('v, int) cheap \<Rightarrow> bool" where
  "CIntHeap_emptyheap = emptyheap"

definition CIntHeap_fullheap :: "('v, int) cheap \<Rightarrow> bool" where
  "CIntHeap_fullheap = fullheap"

definition CIntHeap_inheap :: "'v \<Rightarrow> ('v, int) cheap \<Rightarrow> bool" where
  "CIntHeap_inheap = inheap"

definition CIntHeap_getkeyheap :: "'v \<Rightarrow> ('v, int) cheap \<Rightarrow> int result" where
  "CIntHeap_getkeyheap = getkeyheap"

definition CIntHeap_makeemptyheap :: "('v, int) cheap \<Rightarrow> ('v, int) cheap result" where
  "CIntHeap_makeemptyheap = makeemptyheap"

definition CIntHeap_makeheap :: "('v, int) cheap \<Rightarrow> ('v, int) cheap result" where
  "CIntHeap_makeheap = makeheap"

definition CIntHeap_growheap :: "('v, int) cheap \<Rightarrow> ('v, int) cheap result" where
  "CIntHeap_growheap = growheap"

definition CIntHeap_sizecheck :: "('v, int) cheap \<Rightarrow> ('v, int) cheap result" where
  "CIntHeap_sizecheck = sizecheck"

definition CIntHeap_insertheap :: "'v \<Rightarrow> int \<Rightarrow> ('v, int) cheap \<Rightarrow> ('v, int) cheap result" where
  "CIntHeap_insertheap = insertheap"

definition CIntHeap_deleteheap :: "'v \<Rightarrow> ('v, int) cheap \<Rightarrow> ('v, int) cheap result" where
  "CIntHeap_deleteheap = deleteheap"

definition CIntHeap_updateheap :: "'v \<Rightarrow> int \<Rightarrow> ('v, int) cheap \<Rightarrow> ('v, int) cheap result" where
  "CIntHeap_updateheap = updateheap"

definition CIntHeap_getminheap :: "('v, int) cheap \<Rightarrow> 'v result" where
  "CIntHeap_getminheap = getminheap"

definition CIntHeap_getminheap_key :: "('v, int) cheap \<Rightarrow> ('v \<times> int) result" where
  "CIntHeap_getminheap_key = getminheap_key"

definition CIntHeap_deleteminheap :: "('v, int) cheap \<Rightarrow> ('v \<times> ('v, int) cheap) result" where
  "CIntHeap_deleteminheap = deleteminheap"

definition CIntHeap_getminkeyheap :: "('v, int) cheap \<Rightarrow> int result" where
  "CIntHeap_getminkeyheap = minkey_or INFINITECOST"

lemmas cint_defs = CIntHeap_percolatedown_def CIntHeap_percolateup_def CIntHeap_percolateupordown_def CIntHeap_emptyheap_def CIntHeap_fullheap_def CIntHeap_inheap_def CIntHeap_getkeyheap_def CIntHeap_makeemptyheap_def CIntHeap_makeheap_def CIntHeap_growheap_def CIntHeap_sizecheck_def CIntHeap_insertheap_def CIntHeap_deleteheap_def CIntHeap_updateheap_def CIntHeap_getminheap_def CIntHeap_getminheap_key_def CIntHeap_deleteminheap_def CIntHeap_getminkeyheap_def

section \<open>Percolation\<close>

definition same_room :: "('v, 'k) cheap \<Rightarrow> ('v, 'k) cheap \<Rightarrow> bool" where
  "same_room h h' \<longleftrightarrow> currentsize h' = currentsize h \<and> allocated h' = allocated h \<and> length (cells h') = length (cells h)"

text \<open>A heap whose contents \<open>E\<close> are in place, in heap order from the slot \<open>lo\<close> on.\<close>

definition settled :: "nat \<Rightarrow> ('v, 'k::linorder) heapelement set \<Rightarrow> ('v \<Rightarrow> int) \<Rightarrow> ('v, 'k) cheap \<Rightarrow> bool" where
  "settled lo E idx0 h \<longleftrightarrow> (\<exists>b. packed heapstate 1 (Suc (nat (currentsize h))) (cells h) (heapindex h) E b \<and>
     one.ordered_from ekey lo (Suc (nat (currentsize h))) b) \<and> (\<forall>s. s \<notin> heapstate ` E \<longrightarrow> heapindex h s = idx0 s)"

lemma place_ok: "\<lbrakk>0 \<le> i; i < int (length (cells h))\<rbrakk> \<Longrightarrow>
    place i e h = Inr (h\<lparr>cells := (cells h)[nat i := Some e], heapindex := (heapindex h)(heapstate e := i)\<rparr>)"
  by (simp add: place_def)

lemma heap_cell_ok: "\<lbrakk>j < length (cells h); cells h ! j = Some e\<rbrakk> \<Longrightarrow> heap_cell h (int j) = Inr e"
  by (simp add: heap_cell_def)

lemma slots_cell:
  "\<lbrakk>slots heapstate 1 N idx0 E (cells h) (heapindex h) b i; 1 \<le> j; j < N; j \<noteq> i\<rbrakk> \<Longrightarrow> heap_cell h (int j) = Inr (b j)"
  by (rule heap_cell_ok) (auto simp: slots_def)

lemma slots_parent:
  assumes "slots heapstate 1 N idx0 E (cells h) (heapindex h) b i" "1 < i"
  shows "heap_cell h (int i div 2) = Inr (b (i div 2))"
proof -
  have "1 \<le> i div 2" "i div 2 < N" "i div 2 \<noteq> i" using assms by (auto simp: slots_def)
  from slots_cell[OF assms(1) this] show ?thesis by (simp add: zdiv_int)
qed

lemma packed_cell:
  "\<lbrakk>packed heapstate 1 N (cells h) (heapindex h) E b; 1 \<le> j; j < N\<rbrakk> \<Longrightarrow> heap_cell h (int j) = Inr (b j)"
  by (rule heap_cell_ok) (auto simp: packed_def)

lemma slots_place:
  assumes "slots heapstate 1 N idx0 E (cells h) (heapindex h) b i" "1 \<le> p" "p < N" "p \<noteq> i"
  shows "\<exists>h'. place (int i) (b p) (h\<lparr>percolates := x\<rparr>) = Inr h' \<and> same_room h h' \<and>
    slots heapstate 1 N idx0 E (cells h') (heapindex h') (b(i := b p, p := b i)) p"
proof -
  have i: "i < length (cells h)" and p: "cells h ! p = Some (b p)" using assms by (auto simp: slots_def)
  have "place (int i) (b p) (h\<lparr>percolates := x\<rparr>) =
      Inr (h\<lparr>percolates := x, cells := (cells h)[i := Some (b p)], heapindex := (heapindex h)(heapstate (b p) := int i)\<rparr>)"
    using i by (simp add: place_ok)
  then show ?thesis using slots_move[OF assms] p by (simp add: same_room_def)
qed

lemma slots_settle:
  assumes s: "slots heapstate 1 N idx0 E (cells h) (heapindex h) b i" and o: "one.ordered_from ekey lo N b"
    and N: "N = Suc (nat (currentsize h))"
  shows "\<exists>h'. place (int i) (b i) h = Inr h' \<and> same_room h h' \<and> settled lo E idx0 h'"
proof -
  have "i < length (cells h)" using s by (auto simp: slots_def)
  then have "place (int i) (b i) h = Inr (h\<lparr>cells := (cells h)[i := Some (b i)], heapindex := (heapindex h)(heapstate (b i) := int i)\<rparr>)"
    by (simp add: place_ok)
  then show ?thesis using slots_fill[OF s] o unfolding N by (auto simp: same_room_def settled_def)
qed

lemma up_loop_ok:
  "\<lbrakk>slots heapstate 1 N idx0 E (cells h) (heapindex h) b i; one.up_ok ekey N b i\<rbrakk> \<Longrightarrow>
     \<exists>i' h' b'. percolateup_loop (int i) (b i) h = Inr (int i', h') \<and> same_room h h' \<and> b' i' = b i \<and>
       slots heapstate 1 N idx0 E (cells h') (heapindex h') b' i' \<and> one.ordered_from ekey 1 N b'"
proof (induction i arbitrary: h b rule: less_induct)
  case (less i)
  have range: "1 \<le> i" "i < N" using less.prems(1) by (auto simp: slots_def)
  show ?case
  proof (cases "i = 1")
    case True
    then have "percolateup_loop (int i) (b i) h = Inr (int i, h)" by (simp add: percolateup_loop.simps)
    moreover have "one.ordered_from ekey 1 N b" using one.up_done[OF less.prems(2)] True by simp
    ultimately show ?thesis using less.prems(1) by (auto simp: same_room_def)
  next
    case False
    then have p: "1 < i" "1 \<le> i div 2" "i div 2 < N" "i div 2 \<noteq> i" "i div 2 < i" using range by auto
    note cell = slots_parent[OF less.prems(1) p(1)]
    show ?thesis
    proof (cases "ekey (b i) < ekey (b (i div 2))")
      case True
      let ?b = "b(i := b (i div 2), i div 2 := b i)"
      obtain h1 where h1: "place (int i) (b (i div 2)) (h\<lparr>percolates := percolates h + 1\<rparr>) = Inr h1" "same_room h h1"
        "slots heapstate 1 N idx0 E (cells h1) (heapindex h1) ?b (i div 2)" using slots_place[OF less.prems(1) p(2-4)] by blast
      have "one.up_ok ekey N ?b (i div 2)" using one.up_step[OF less.prems(2) p(1)] True by simp
      from less.IH[OF p(5) h1(3) this] obtain i' h' b' where r: "percolateup_loop (int (i div 2)) (?b (i div 2)) h1 = Inr (int i', h')"
        "same_room h1 h'" "b' i' = ?b (i div 2)" "slots heapstate 1 N idx0 E (cells h') (heapindex h') b' i'" "one.ordered_from ekey 1 N b'"
        by (elim exE conjE)
      have "percolateup_loop (int i) (b i) h = Inr (int i', h')"
        using p(1) cell True h1(1) r(1) by (subst percolateup_loop.simps) (simp add: zdiv_int)
      moreover have "same_room h h'" using h1(2) r(2) by (simp add: same_room_def)
      ultimately show ?thesis using r(3-5) by auto
    next
      case F: False
      then have "percolateup_loop (int i) (b i) h = Inr (int i, h)" using p(1) cell by (subst percolateup_loop.simps) simp
      moreover have "one.ordered_from ekey 1 N b" using one.up_done[OF less.prems(2)] F by simp
      ultimately show ?thesis using less.prems(1) by (auto simp: same_room_def)
    qed
  qed
qed

lemma percolateup_ok:
  assumes "slots heapstate 1 (Suc (nat (currentsize h))) idx0 E (cells h) (heapindex h) b i" "one.up_ok ekey (Suc (nat (currentsize h))) b i"
  shows "\<exists>h'. percolateup (int i) (b i) h = Inr h' \<and> same_room h h' \<and> settled 1 E idx0 h'"
proof -
  from up_loop_ok[OF assms] obtain i' h1 b' where r: "percolateup_loop (int i) (b i) h = Inr (int i', h1)" "same_room h h1" "b' i' = b i"
    "slots heapstate 1 (Suc (nat (currentsize h))) idx0 E (cells h1) (heapindex h1) b' i'"
    "one.ordered_from ekey 1 (Suc (nat (currentsize h))) b'" by (elim exE conjE)
  have "currentsize h \<noteq> 0" using assms(1) by (auto simp: slots_def)
  moreover obtain h' where "place (int i') (b' i') h1 = Inr h'" "same_room h1 h'" "settled 1 E idx0 h'"
    using slots_settle[OF r(4,5)] r(2) by (auto simp: same_room_def)
  ultimately show ?thesis using r(1,2,3) by (auto simp: percolateup_def same_room_def)
qed

lemma lesser_child_ok:
  assumes s: "slots heapstate 1 (Suc (nat (currentsize h))) idx0 E (cells h) (heapindex h) b i" and i: "2 * i \<le> nat (currentsize h)"
  shows "\<exists>c. lesser_child (int i) h = Inr (int c) \<and> 1 < c \<and> c \<le> nat (currentsize h) \<and> c div 2 = i \<and> i < c \<and>
    (\<forall>j. 1 < j \<and> j < Suc (nat (currentsize h)) \<and> j div 2 = i \<longrightarrow> ekey (b c) \<le> ekey (b j))"
proof -
  have i1: "1 \<le> i" using s by (simp add: slots_def)
  have child: "j = 2 * i \<or> j = Suc (2 * i)" if "j div 2 = i" for j using that by auto
  have l: "heap_cell h (2 * int i) = Inr (b (2 * i))" using slots_cell[OF s, of "2 * i"] i i1 by simp
  show ?thesis
  proof (cases "2 * int i = currentsize h")
    case True
    then show ?thesis using i i1 child by (intro exI[of _ "2 * i"]) (fastforce simp: lesser_child_def)
  next
    case False
    then have lt: "Suc (2 * i) \<le> nat (currentsize h)" using i i1 by arith
    have r: "heap_cell h (2 * int i + 1) = Inr (b (Suc (2 * i)))"
      using slots_cell[OF s, of "Suc (2 * i)"] lt i1 by (simp add: add.commute)
    show ?thesis
    proof (cases "ekey (b (Suc (2 * i))) < ekey (b (2 * i))")
      case True
      then show ?thesis using False l r lt i1 child by (intro exI[of _ "Suc (2 * i)"]) (fastforce simp: lesser_child_def)
    next
      case ge: False
      then show ?thesis using False l r lt i1 child by (intro exI[of _ "2 * i"]) (fastforce simp: lesser_child_def)
    qed
  qed
qed

lemma down_loop_ok:
  "\<lbrakk>slots heapstate 1 (Suc (nat (currentsize h))) idx0 E (cells h) (heapindex h) b i; one.down_ok ekey lo (Suc (nat (currentsize h))) b i;
     nat (currentsize h) < i + n\<rbrakk> \<Longrightarrow>
     \<exists>i' h' b'. percolatedown_loop n (int i) (b i) h = Inr (int i', h') \<and> same_room h h' \<and> b' i' = b i \<and>
       slots heapstate 1 (Suc (nat (currentsize h))) idx0 E (cells h') (heapindex h') b' i' \<and>
       one.ordered_from ekey lo (Suc (nat (currentsize h))) b'"
proof (induction n arbitrary: i h b)
  case 0
  then show ?case by (simp add: slots_def)
next
  case (Suc n)
  let ?N = "Suc (nat (currentsize h))"
  have stop: ?case if "percolatedown_loop (Suc n) (int i) (b i) h = Inr (int i, h)"
    "\<And>j. \<lbrakk>1 < j; j < ?N; j div 2 = i\<rbrakk> \<Longrightarrow> ekey (b i) \<le> ekey (b j)"
    using that Suc.prems(1) one.down_done[OF Suc.prems(2)] by (auto simp: same_room_def)
  show ?case
  proof (cases "2 * i \<le> nat (currentsize h)")
    case False
    have "1 \<le> i" using Suc.prems(1) by (simp add: slots_def)
    then have "\<not> 2 * int i \<le> currentsize h" using False by arith
    then have "percolatedown_loop (Suc n) (int i) (b i) h = Inr (int i, h)" by simp
    then show ?thesis by (rule stop) (use False in auto)
  next
    case True
    have "1 \<le> i" using Suc.prems(1) by (simp add: slots_def)
    then have le: "2 * int i \<le> currentsize h" using True by arith
    obtain c where c: "lesser_child (int i) h = Inr (int c)" "1 < c" "c \<le> nat (currentsize h)" "c div 2 = i" "i < c"
      "\<forall>j. 1 < j \<and> j < ?N \<and> j div 2 = i \<longrightarrow> ekey (b c) \<le> ekey (b j)" using lesser_child_ok[OF Suc.prems(1) True] by blast
    have cN: "1 \<le> c" "c < ?N" "c \<noteq> i" using c(2,3,5) by auto
    note cell = slots_cell[OF Suc.prems(1) cN]
    show ?thesis
    proof (cases "ekey (b c) < ekey (b i)")
      case less: True
      let ?b = "b(i := b c, c := b i)"
      obtain h1 where h1: "place (int i) (b c) (h\<lparr>percolates := percolates h + 1\<rparr>) = Inr h1" "same_room h h1"
        "slots heapstate 1 ?N idx0 E (cells h1) (heapindex h1) ?b c" using slots_place[OF Suc.prems(1) cN] by blast
      have cs: "currentsize h1 = currentsize h" using h1(2) by (simp add: same_room_def)
      have "one.down_ok ekey lo ?N ?b c"
        by (rule one.down_step[OF Suc.prems(2) c(2) cN(2) c(4)]) (use c(6) less in auto)
      from Suc.IH[of h1 ?b c, unfolded cs, OF h1(3) this] Suc.prems(3) c(5)
      obtain i' h' b' where r: "percolatedown_loop n (int c) (?b c) h1 = Inr (int i', h')" "same_room h1 h'" "b' i' = ?b c"
        "slots heapstate 1 ?N idx0 E (cells h') (heapindex h') b' i'" "one.ordered_from ekey lo ?N b'" by auto
      have "percolatedown_loop (Suc n) (int i) (b i) h = Inr (int i', h')" using le c(1) cell less h1(1) r(1) by simp
      moreover have "same_room h h'" using h1(2) r(2) by (simp add: same_room_def)
      ultimately show ?thesis using r(3-5) by auto
    next
      case ge: False
      then have "percolatedown_loop (Suc n) (int i) (b i) h = Inr (int i, h)" using le c(1) cell by simp
      then show ?thesis by (rule stop) (use c(6) ge in \<open>auto intro: order_trans\<close>)
    qed
  qed
qed

lemma percolatedown_ok:
  assumes "slots heapstate 1 (Suc (nat (currentsize h))) idx0 E (cells h) (heapindex h) b i" "one.down_ok ekey lo (Suc (nat (currentsize h))) b i"
  shows "\<exists>h'. percolatedown (int i) (b i) h = Inr h' \<and> same_room h h' \<and> settled lo E idx0 h'"
proof -
  have "nat (currentsize h) < i + (nat (currentsize h) + 2)" by simp
  from down_loop_ok[OF assms this] obtain i' h1 b' where
    r: "percolatedown_loop (nat (currentsize h) + 2) (int i) (b i) h = Inr (int i', h1)" "same_room h h1" "b' i' = b i"
    "slots heapstate 1 (Suc (nat (currentsize h))) idx0 E (cells h1) (heapindex h1) b' i'"
    "one.ordered_from ekey lo (Suc (nat (currentsize h))) b'" by (elim exE conjE)
  have "currentsize h \<noteq> 0" using assms(1) by (auto simp: slots_def)
  moreover obtain h' where "place (int i') (b' i') h1 = Inr h'" "same_room h1 h'" "settled lo E idx0 h'"
    using slots_settle[OF r(4,5)] r(2) by (auto simp: same_room_def)
  ultimately show ?thesis using r(1,2,3) by (auto simp: percolatedown_def same_room_def)
qed

lemma percolateupordown_ok:
  assumes s: "slots heapstate 1 (Suc (nat (currentsize h))) idx0 E (cells h) (heapindex h) b i"
    and o: "one.hole_ok ekey (Suc (nat (currentsize h))) b i"
  shows "\<exists>h'. percolateupordown (int i) (b i) h = Inr h' \<and> same_room h h' \<and> settled 1 E idx0 h'"
proof -
  have i: "1 \<le> i" "i < Suc (nat (currentsize h))" "currentsize h \<noteq> 0" using s by (auto simp: slots_def)
  show ?thesis
  proof (cases "1 < i \<and> ekey (b i) < ekey (b (i div 2))")
    case True
    then have "percolateupordown (int i) (b i) h = percolateup (int i) (b i) h" using True i(3) slots_parent[OF s] by (simp add: percolateupordown_def)
    moreover have "one.up_ok ekey (Suc (nat (currentsize h))) b i" by (rule one.hole_up[OF o]) (use True in auto)
    ultimately show ?thesis using percolateup_ok[OF s] by simp
  next
    case False
    then have "percolateupordown (int i) (b i) h = percolatedown (int i) (b i) h" using i slots_parent[OF s] by (auto simp: percolateupordown_def)
    moreover have "one.down_ok ekey 1 (Suc (nat (currentsize h))) b i" using one.hole_down[OF o] False by auto
    ultimately show ?thesis using percolatedown_ok[OF s] by simp
  qed
qed

section \<open>The operations on a map\<close>

text \<open>The contents of the heap as a map from states to keys.\<close>

definition elems :: "('v \<Rightarrow> 'k option) \<Rightarrow> ('v, 'k) heapelement set" where
  "elems m = {e. m (heapstate e) = Some (ekey e)}"

definition cheap_ok :: "bool \<Rightarrow> ('v \<Rightarrow> 'k::linorder option) \<Rightarrow> ('v, 'k) cheap \<Rightarrow> bool" where
  "cheap_ok ord m h \<longleftrightarrow> settled (if ord then 1 else Suc (nat (currentsize h))) (elems m) (\<lambda>s. 0) h \<and>
     0 \<le> currentsize h \<and> currentsize h < HEAPSIZE \<and> currentsize h < allocated h \<and> int (length (cells h)) = allocated h"

lemma elems_iff: "e \<in> elems m \<longleftrightarrow> m (heapstate e) = Some (ekey e)"
  by (simp add: elems_def)

lemma elems_states: "heapstate ` elems m = dom m"
proof
  show "dom m \<subseteq> heapstate ` elems m"
  proof
    fix s assume "s \<in> dom m"
    then obtain k where "m s = Some k" by auto
    then show "s \<in> heapstate ` elems m" by (intro image_eqI[of _ _ "\<lparr>heapstate = s, ekey = k\<rparr>"]) (auto simp: elems_def)
  qed
qed (auto simp: elems_def)

lemma elems_insert: "elems (m(s \<mapsto> k)) = insert \<lparr>heapstate = s, ekey = k\<rparr> {e \<in> elems m. heapstate e \<noteq> s}"
  by (auto simp: elems_def)

lemma elems_delete: "elems (m(s := None)) = {e \<in> elems m. heapstate e \<noteq> s}"
  by (auto simp: elems_def)

lemma elems_other: "e \<in> elems m \<Longrightarrow> {x \<in> elems m. heapstate x \<noteq> heapstate e} = elems m - {e}"
  by (auto simp: elems_def)

lemma ordered_trivial: "one.ordered_from key (Suc n) (Suc n) b"
  unfolding one.ordered_from_def by auto

lemma cheap_okD:
  assumes "cheap_ok ord m h"
  obtains n b where "currentsize h = int n" "packed heapstate 1 (Suc n) (cells h) (heapindex h) (elems m) b"
    "ord \<Longrightarrow> one.ordered_from ekey 1 (Suc n) b" "\<And>s. s \<notin> dom m \<Longrightarrow> heapindex h s = 0"
    "int n < HEAPSIZE" "int n < allocated h" "int (length (cells h)) = allocated h"
proof -
  obtain n where n: "currentsize h = int n" using assms unfolding cheap_ok_def by (metis nonneg_int_cases)
  then show ?thesis using assms that[of n] unfolding cheap_ok_def settled_def elems_states by (auto split: if_splits)
qed

lemma cheap_okI:
  assumes "settled (if ord then 1 else Suc (nat (currentsize h))) (elems m) idx0 h" "\<And>s. s \<notin> dom m \<Longrightarrow> idx0 s = 0"
    "0 \<le> currentsize h" "currentsize h < HEAPSIZE" "currentsize h < allocated h" "int (length (cells h)) = allocated h"
  shows "cheap_ok ord m h"
  using assms unfolding cheap_ok_def settled_def elems_states by auto

lemma cheap_index:
  assumes p: "packed heapstate 1 (Suc n) (cells h) (heapindex h) (elems m) b" and none: "\<And>s. s \<notin> dom m \<Longrightarrow> heapindex h s = 0"
  shows "heapindex h s = 0 \<longleftrightarrow> s \<notin> dom m"
    "m s = Some k \<Longrightarrow> \<exists>j. 1 \<le> j \<and> j < Suc n \<and> b j = \<lparr>heapstate = s, ekey = k\<rparr> \<and> heapindex h s = int j"
proof -
  show at: "\<exists>j. 1 \<le> j \<and> j < Suc n \<and> b j = \<lparr>heapstate = s, ekey = k\<rparr> \<and> heapindex h s = int j" if "m s = Some k" for k
    using packed_index[OF p, of "\<lparr>heapstate = s, ekey = k\<rparr>"] that by (auto simp: elems_def)
  show "heapindex h s = 0 \<longleftrightarrow> s \<notin> dom m"
  proof
    show "s \<notin> dom m" if "heapindex h s = 0" using at that by fastforce
  qed (rule none)
qed

lemma cheap_card:
  assumes "packed heapstate 1 (Suc n) a idx (elems m) b"
  shows "finite (dom m)" "card (dom m) = n"
  using packed_card[OF assms] unfolding elems_states[symmetric] by (simp_all add: card_image)

lemma sizecheck_ok:
  assumes ok: "cheap_ok ord m h" and room: "int (card (dom m)) \<noteq> HEAPSIZE - 1"
  shows "\<exists>h'. sizecheck h = Inr h' \<and> cheap_ok ord m h' \<and> currentsize h' = currentsize h \<and> currentsize h' + 1 < allocated h' \<and>
    currentsize h' + 1 < HEAPSIZE \<and> heapindex h' = heapindex h"
proof -
  from ok obtain n b where h: "currentsize h = int n" "packed heapstate 1 (Suc n) (cells h) (heapindex h) (elems m) b"
    "ord \<Longrightarrow> one.ordered_from ekey 1 (Suc n) b" "\<And>s. s \<notin> dom m \<Longrightarrow> heapindex h s = 0"
    "int n < HEAPSIZE" "int n < allocated h" "int (length (cells h)) = allocated h" by (rule cheap_okD) blast
  have full: "\<not> fullheap h" using room cheap_card(2)[OF h(2)] h(1) by (simp add: fullheap_def)
  then have lim: "currentsize h + 1 < HEAPSIZE" using h(1,5) by (auto simp: fullheap_def)
  show ?thesis
  proof (cases "currentsize h = allocated h - 1")
    case False
    then show ?thesis using ok full lim h(1,6) by (simp add: sizecheck_def)
  next
    case True
    let ?a = "if 2 * allocated h > HEAPSIZE then HEAPSIZE else 2 * allocated h"
    let ?new = "take (Suc n) (cells h) @ drop (Suc n) (replicate (nat ?a) None)"
    let ?h = "h\<lparr>allocated := ?a, cells := ?new\<rparr>"
    have a: "int n + 1 < ?a" "int n + 1 = int (length (cells h))" using True h lim by (auto split: if_splits)
    have "copy_cells (int n + 1) (cells h) (replicate (nat ?a) None) = Inr ?new"
      using copy_cells_ok[of "int n + 1" "cells h" "replicate (nat ?a) None"] a by (simp add: nat_add_distrib)
    then have run: "sizecheck h = Inr ?h" using full True h(1) by (simp add: sizecheck_def growheap_def Let_def)
    have len: "int (length ?new) = ?a" using a by simp
    have "packed heapstate 1 (Suc n) ?new (heapindex h) (elems m) b"
      by (rule packed_resize[OF h(2)]) (use a in \<open>auto simp: nth_append\<close>)
    then have "settled (if ord then 1 else Suc (nat (currentsize ?h))) (elems m) (heapindex h) ?h"
      using h(1,3) ordered_trivial[of ekey n b] unfolding settled_def by auto
    then have "cheap_ok ord m ?h" by (rule cheap_okI) (use h len a lim in auto)
    then show ?thesis using run a(1) lim h(1) by auto
  qed
qed

lemma insert_slots:
  assumes h: "currentsize h = int n" "packed heapstate 1 (Suc n) (cells h) (heapindex h) (elems m) b" "s \<notin> dom m" "Suc n < length (cells h)"
  shows "slots heapstate 1 (Suc (Suc n)) (heapindex h) (elems (m(s \<mapsto> k))) (cells h) (heapindex h) (b(Suc n := \<lparr>heapstate = s, ekey = k\<rparr>)) (Suc n)"
proof -
  have "elems (m(s \<mapsto> k)) = insert \<lparr>heapstate = s, ekey = k\<rparr> (elems m)" using h(3) by (auto simp: elems_def dom_def)
  moreover have "heapstate \<lparr>heapstate = s, ekey = k\<rparr> \<notin> heapstate ` elems m" using h(3) by (simp add: elems_states)
  ultimately show ?thesis using slots_new[OF h(2) _ h(4), of "\<lparr>heapstate = s, ekey = k\<rparr>"] by simp
qed

lemma insertheap_ok:
  assumes ok: "cheap_ok True m h" and room: "int (card (dom m)) \<noteq> HEAPSIZE - 1" and s: "s \<notin> dom m"
  shows "\<exists>h'. insertheap s k h = Inr h' \<and> cheap_ok True (m(s \<mapsto> k)) h'"
proof -
  obtain h1 where h1: "sizecheck h = Inr h1" "cheap_ok True m h1" "currentsize h1 + 1 < allocated h1" "currentsize h1 + 1 < HEAPSIZE"
    using sizecheck_ok[OF ok room] by blast
  from h1(2) obtain n b where h: "currentsize h1 = int n" "packed heapstate 1 (Suc n) (cells h1) (heapindex h1) (elems m) b"
    "True \<Longrightarrow> one.ordered_from ekey 1 (Suc n) b" "\<And>s. s \<notin> dom m \<Longrightarrow> heapindex h1 s = 0"
    "int n < HEAPSIZE" "int n < allocated h1" "int (length (cells h1)) = allocated h1" by (rule cheap_okD) blast
  let ?x = "\<lparr>heapstate = s, ekey = k\<rparr>" and ?h = "h1\<lparr>currentsize := currentsize h1 + 1\<rparr>"
  have n: "nat (currentsize ?h) = Suc n" using h(1) by simp
  have "slots heapstate 1 (Suc (nat (currentsize ?h))) (heapindex h1) (elems (m(s \<mapsto> k))) (cells ?h) (heapindex ?h) (b(Suc n := ?x)) (Suc n)"
    unfolding n using insert_slots[OF h(1,2) s] h1(3) h(1,7) by simp
  moreover have "one.up_ok ekey (Suc (nat (currentsize ?h))) (b(Suc n := ?x)) (Suc n)"
    unfolding n by (rule one.ordered_last) (use h(3) in auto)
  ultimately obtain h' where h': "percolateup (int (Suc n)) ((b(Suc n := ?x)) (Suc n)) ?h = Inr h'" "same_room ?h h'"
    "settled 1 (elems (m(s \<mapsto> k))) (heapindex h1) h'" using percolateup_ok by blast
  have "insertheap s k h = Inr h'" using h1(1) h'(1) h(1) h(4)[OF s] by (simp add: insertheap_def add.commute)
  moreover have "cheap_ok True (m(s \<mapsto> k)) h'"
    by (rule cheap_okI[where ?idx0.0 = "heapindex h1"]) (use h' h h1(3,4) in \<open>auto simp: same_room_def\<close>)
  ultimately show ?thesis by blast
qed

lemma settled_forget:
  assumes "settled lo E idx0 h" "s \<notin> heapstate ` E"
  shows "settled lo E (idx0(s := 0)) (h\<lparr>heapindex := (heapindex h)(s := 0)\<rparr>)"
proof -
  from assms(1) obtain b where b: "packed heapstate 1 (Suc (nat (currentsize h))) (cells h) (heapindex h) E b"
    "one.ordered_from ekey lo (Suc (nat (currentsize h))) b" "\<forall>s. s \<notin> heapstate ` E \<longrightarrow> heapindex h s = idx0 s" unfolding settled_def by blast
  have "((heapindex h)(s := 0)) (heapstate e) = heapindex h (heapstate e)" if "e \<in> E" for e
    using assms(2) that by (metis fun_upd_other imageI)
  then have "packed heapstate 1 (Suc (nat (currentsize h))) (cells h) ((heapindex h)(s := 0)) E b"
    by (rule packed_frame[OF b(1)]) (use b(1) in \<open>auto simp: packed_def\<close>)
  then show ?thesis using b unfolding settled_def by auto
qed

text \<open>Taking the last element out does not move anything.\<close>

lemma delete_last:
  assumes h: "currentsize h = int (Suc n)" "packed heapstate 1 (Suc (Suc n)) (cells h) (heapindex h) E b"
    "one.ordered_from ekey 1 (Suc (Suc n)) b"
  shows "percolateupordown (int (Suc n)) (b (Suc n)) (h\<lparr>currentsize := int n\<rparr>) = Inr (h\<lparr>currentsize := int n\<rparr>)"
proof (cases "n = 0")
  case False
  let ?h = "h\<lparr>currentsize := int n\<rparr>"
  have at: "cells h ! Suc n = Some (b (Suc n))" "heapindex h (heapstate (b (Suc n))) = int (Suc n)" "Suc n < length (cells h)"
    using packed_at[OF h(2), of "Suc n"] by auto
  have "1 \<le> Suc n div 2" "Suc n div 2 < Suc (Suc n)" using False by auto
  then have "heap_cell h (int (Suc n) div 2) = Inr (b (Suc n div 2))" using packed_cell[OF h(2)] by (metis of_nat_numeral zdiv_int)
  then have cell: "heap_cell ?h (int (Suc n) div 2) = Inr (b (Suc n div 2))" by (simp add: heap_cell_def)
  have "\<not> ekey (b (Suc n)) < ekey (b (Suc n div 2))" unfolding not_less using h(3) False unfolding one.ordered_from_def by auto
  then have "percolateupordown (int (Suc n)) (b (Suc n)) ?h = percolatedown (int (Suc n)) (b (Suc n)) ?h"
    using cell False by (simp add: percolateupordown_def)
  also have "\<dots> = place (int (Suc n)) (b (Suc n)) ?h" using False by (simp add: percolatedown_def)
  also have "\<dots> = Inr (?h\<lparr>cells := (cells h)[Suc n := Some (b (Suc n))], heapindex := (heapindex h)(heapstate (b (Suc n)) := int (Suc n))\<rparr>)"
    using at(3) place_ok[of "int (Suc n)" ?h] by (simp del: of_nat_Suc)
  also have "(cells h)[Suc n := Some (b (Suc n))] = cells h" using at(1) by (metis list_update_id)
  also have "(heapindex h)(heapstate (b (Suc n)) := int (Suc n)) = heapindex h" using at(2) by (simp add: fun_upd_idem)
  finally show ?thesis by simp
qed (simp add: percolateupordown_def)

lemma deleteheap_ok:
  assumes ok: "cheap_ok True m h" and s: "m s = Some k"
  shows "\<exists>h'. deleteheap s h = Inr h' \<and> cheap_ok True (m(s := None)) h'"
proof -
  from ok obtain n b where h: "currentsize h = int n" "packed heapstate 1 (Suc n) (cells h) (heapindex h) (elems m) b"
    "True \<Longrightarrow> one.ordered_from ekey 1 (Suc n) b" "\<And>s. s \<notin> dom m \<Longrightarrow> heapindex h s = 0"
    "int n < HEAPSIZE" "int n < allocated h" "int (length (cells h)) = allocated h" by (rule cheap_okD) blast
  obtain j where j: "1 \<le> j" "j < Suc n" "b j = \<lparr>heapstate = s, ekey = k\<rparr>" "heapindex h s = int j"
    using cheap_index(2)[OF h(2,4) s] by blast
  obtain p where p: "n = Suc p" using j by (cases n) auto
  have E: "elems (m(s := None)) = elems m - {b j}" using elems_other[of "b j" m] s j(3) by (simp add: elems_delete elems_iff)
  have gone: "s \<notin> heapstate ` (elems m - {b j})" unfolding E[symmetric] elems_states by simp
  let ?h = "h\<lparr>currentsize := int p\<rparr>"
  have "\<exists>h'. percolateupordown (int j) (b n) ?h = Inr h' \<and> same_room ?h h' \<and> settled 1 (elems m - {b j}) (heapindex h) h'"
  proof (cases "j = n")
    case True
    have "packed heapstate 1 n (cells h) (heapindex h) (elems m - {b n}) b" using packed_drop[OF h(2)] p by simp
    moreover have "one.ordered_from ekey 1 n b" by (rule one.ordered_mono[OF h(3)]) simp_all
    moreover have "\<forall>t. t \<notin> heapstate ` (elems m - {b n}) \<longrightarrow> heapindex h t = heapindex h t" by simp
    ultimately have "settled 1 (elems m - {b n}) (heapindex h) ?h" unfolding settled_def using p by auto
    moreover have "percolateupordown (int n) (b n) ?h = Inr ?h" using delete_last[of h p] h(1-3) p by simp
    ultimately show ?thesis using True by (auto simp: same_room_def)
  next
    case False
    then have jn: "j < n" using j by simp
    have "slots heapstate 1 n (heapindex h) (elems m - {b j}) (cells ?h) (heapindex ?h) (b(j := b n)) j" using slots_last[OF h(2) j(1) jn] by simp
    moreover have "one.hole_ok ekey n (b(j := b n)) j" by (rule one.ordered_hole[OF h(3) j(1) jn]) simp_all
    ultimately show ?thesis using percolateupordown_ok[of ?h _ _ "b(j := b n)" j] p by simp
  qed
  then obtain h' where h': "percolateupordown (int j) (b n) ?h = Inr h'" "same_room ?h h'" "settled 1 (elems m - {b j}) (heapindex h) h'" by blast
  let ?h' = "h'\<lparr>heapindex := (heapindex h')(s := 0)\<rparr>"
  have "deleteheap s h = Inr ?h'"
    using j h(1) h'(1) p packed_cell[OF h(2), of n] by (simp add: deleteheap_def)
  moreover have "cheap_ok True (m(s := None)) ?h'"
    by (rule cheap_okI[where ?idx0.0 = "(heapindex h)(s := 0)"])
      (use settled_forget[OF h'(3) gone] h'(2) h p in \<open>auto simp: E same_room_def\<close>)
  ultimately show ?thesis by blast
qed

lemma updateheap_ok:
  assumes ok: "cheap_ok True m h" and s: "m s = Some k0"
  shows "\<exists>h'. updateheap s k h = Inr h' \<and> cheap_ok True (m(s \<mapsto> k)) h'"
proof -
  from ok obtain n b where h: "currentsize h = int n" "packed heapstate 1 (Suc n) (cells h) (heapindex h) (elems m) b"
    "True \<Longrightarrow> one.ordered_from ekey 1 (Suc n) b" "\<And>s. s \<notin> dom m \<Longrightarrow> heapindex h s = 0"
    "int n < HEAPSIZE" "int n < allocated h" "int (length (cells h)) = allocated h" by (rule cheap_okD) blast
  obtain j where j: "1 \<le> j" "j < Suc n" "b j = \<lparr>heapstate = s, ekey = k0\<rparr>" "heapindex h s = int j"
    using cheap_index(2)[OF h(2,4) s] by blast
  note cell = packed_cell[OF h(2) j(1,2)]
  show ?thesis
  proof (cases "k0 = k")
    case True
    then have "m(s \<mapsto> k) = m" using s by auto
    moreover have "updateheap s k h = Inr h" using True cell j by (simp add: updateheap_def)
    ultimately show ?thesis using ok by auto
  next
    case False
    let ?x = "\<lparr>heapstate = s, ekey = k\<rparr>" and ?h = "h\<lparr>cells := (cells h)[j := Some \<lparr>heapstate = s, ekey = k\<rparr>]\<rparr>"
    have jl: "j < length (cells h)" using packed_at[OF h(2) j(1,2)] by simp
    have set: "set_key (heapindex h s) k h = Inr ?h" using cell j jl by (simp add: set_key_def)
    have E: "elems (m(s \<mapsto> k)) = insert ?x (elems m - {b j})" using elems_other[of "b j" m] s j(3) by (simp add: elems_insert elems_iff)
    have "slots heapstate 1 (Suc n) (heapindex h) (elems (m(s \<mapsto> k))) (cells ?h) (heapindex ?h) (b(j := ?x)) j"
      unfolding E using slots_hole_any[OF slots_rekey[OF h(2) j(1,2)]] j(3) by simp
    moreover have "one.hole_ok ekey (Suc n) (b(j := ?x)) j" by (rule one.ordered_hole[OF h(3) j(1,2)]) simp_all
    ultimately obtain h' where h': "percolateupordown (int j) ?x ?h = Inr h'" "same_room ?h h'" "settled 1 (elems (m(s \<mapsto> k))) (heapindex h) h'"
      using percolateupordown_ok[of ?h _ _ "b(j := ?x)" j] h(1) by auto
    have "updateheap s k h = Inr h'" using cell j set False h'(1) jl by (simp add: updateheap_def heap_cell_def)
    moreover have "cheap_ok True (m(s \<mapsto> k)) h'"
      by (rule cheap_okI[where ?idx0.0 = "heapindex h"]) (use h' h in \<open>auto simp: same_room_def\<close>)
    ultimately show ?thesis by blast
  qed
qed

lemma cheap_least:
  assumes h: "packed heapstate 1 (Suc n) (cells h) (heapindex h) (elems m) b" "one.ordered_from ekey 1 (Suc n) b" and n: "n \<noteq> 0"
  shows "m (heapstate (b 1)) = Some (ekey (b 1))" "\<forall>k \<in> ran m. ekey (b 1) \<le> k" "heap_cell h 1 = Inr (b 1)"
proof -
  have "b 1 \<in> elems m" using h(1) n by (auto simp: packed_def)
  then show "m (heapstate (b 1)) = Some (ekey (b 1))" by (simp add: elems_def)
  show "\<forall>k \<in> ran m. ekey (b 1) \<le> k"
  proof
    fix k assume "k \<in> ran m"
    then obtain s where "m s = Some k" by (auto simp: ran_def)
    then have "\<lparr>heapstate = s, ekey = k\<rparr> \<in> elems m" by (simp add: elems_def)
    then obtain j where "1 \<le> j" "j < Suc n" "b j = \<lparr>heapstate = s, ekey = k\<rparr>" using packed_index[OF h(1)] by blast
    then show "ekey (b 1) \<le> k" using one.first_least[OF h(2), of j] by simp
  qed
  show "heap_cell h 1 = Inr (b 1)" using packed_cell[OF h(1), of 1] n by simp
qed

lemma deleteminheap_ok:
  assumes ok: "cheap_ok True m h" and ne: "dom m \<noteq> {}"
  shows "\<exists>s k h'. deleteminheap h = Inr (s, h') \<and> m s = Some k \<and> (\<forall>k' \<in> ran m. k \<le> k') \<and> cheap_ok True (m(s := None)) h'"
proof -
  from ok obtain n b where h: "currentsize h = int n" "packed heapstate 1 (Suc n) (cells h) (heapindex h) (elems m) b"
    "True \<Longrightarrow> one.ordered_from ekey 1 (Suc n) b" "\<And>s. s \<notin> dom m \<Longrightarrow> heapindex h s = 0"
    "int n < HEAPSIZE" "int n < allocated h" "int (length (cells h)) = allocated h" by (rule cheap_okD) blast
  obtain p where p: "n = Suc p" using cheap_card[OF h(2)] ne by (cases n) auto
  note least = cheap_least[OF h(2) h(3)[OF TrueI]]
  let ?s = "heapstate (b 1)" and ?k = "ekey (b 1)"
  let ?h = "h\<lparr>heapindex := (heapindex h)(?s := 0), currentsize := int p\<rparr>"
  have E: "elems (m(?s := None)) = elems m - {b 1}" using elems_other[of "b 1" m] least(1) p by (simp add: elems_delete elems_iff)
  have gone: "?s \<notin> heapstate ` (elems m - {b 1})" unfolding E[symmetric] elems_states by simp
  have "\<exists>h'. percolatedown 1 (b n) ?h = Inr h' \<and> same_room ?h h' \<and> settled 1 (elems m - {b 1}) ((heapindex h)(?s := 0)) h'"
  proof (cases "p = 0")
    case True
    have "packed heapstate 1 n (cells h) (heapindex h) (elems m - {b n}) b" using packed_drop[OF h(2)] p by simp
    moreover have "one.ordered_from ekey 1 n b" by (rule one.ordered_mono[OF h(3)]) simp_all
    ultimately have st: "settled 1 (elems m - {b 1}) (heapindex h) (h\<lparr>currentsize := int p\<rparr>)" unfolding settled_def using p True by auto
    have swap: "h\<lparr>currentsize := int p, heapindex := (heapindex h)(?s := 0)\<rparr> = ?h" by (cases h) simp
    have "settled 1 (elems m - {b 1}) ((heapindex h)(?s := 0)) ?h" using settled_forget[OF st gone] unfolding swap[symmetric] by simp
    then show ?thesis using True by (auto simp: percolatedown_def same_room_def)
  next
    case False
    have "slots heapstate 1 n (heapindex h) (elems m - {b 1}) (cells h) (heapindex h) (b(1 := b n)) 1"
      using slots_last[OF h(2), of 1] p False by simp
    from slots_reindex[OF this gone, of 0]
    have "slots heapstate 1 n ((heapindex h)(?s := 0)) (elems m - {b 1}) (cells ?h) (heapindex ?h) (b(1 := b n)) 1" by simp
    moreover have "one.down_ok ekey 1 n (b(1 := b n)) 1"
      by (rule one.hole_down[OF one.ordered_hole[OF h(3)]]) (use p False in auto)
    ultimately show ?thesis using percolatedown_ok[of ?h _ _ "b(1 := b n)" 1 1] p by simp
  qed
  then obtain h' where h': "percolatedown 1 (b n) ?h = Inr h'" "same_room ?h h'" "settled 1 (elems m - {b 1}) ((heapindex h)(?s := 0)) h'" by blast
  have "deleteminheap h = Inr (?s, h')"
    using h(1) h'(1) p least(3) packed_cell[OF h(2), of n] by (simp add: deleteminheap_def)
  moreover have "cheap_ok True (m(?s := None)) h'"
    by (rule cheap_okI[where ?idx0.0 = "(heapindex h)(?s := 0)"]) (use h'(2) h'(3)[folded E] h p in \<open>auto simp: same_room_def\<close>)
  ultimately show ?thesis using least(1,2) p by blast
qed

lemma forget_indices_ok:
  assumes h: "currentsize h = int n" "packed heapstate 1 (Suc n) (cells h) (heapindex h) E b"
  shows "\<exists>h'. forget_indices h = Inr h' \<and> h' = h\<lparr>heapindex := (\<lambda>s. if s \<in> heapstate ` E then 0 else heapindex h s)\<rparr>"
proof -
  let ?f = "\<lambda>k. h\<lparr>heapindex := (\<lambda>s. if s \<in> heapstate ` b ` {1..<Suc k} then 0 else heapindex h s)\<rparr>"
  have n: "nat (currentsize h + 1) = Suc n" using h(1) by simp
  have "\<exists>h'. forget_indices h = Inr h' \<and> h' = ?f (length [1..<Suc n])"
    unfolding forget_indices_def n
  proof (rule efold_invariant[where I = "\<lambda>xs h'. h' = ?f (length xs)"])
    fix pre i h' assume "\<exists>post. [1..<Suc n] = pre @ i # post" and h': "h' = ?f (length pre)"
    then obtain post where e: "[1..<Suc n] = pre @ i # post" by blast
    from upt_prefix[OF e] have i: "i = Suc (length pre)" "1 \<le> i" "i < Suc n" by auto
    have "heap_cell h' (int i) = Inr (b i)" using packed_cell[OF h(2) i(2,3)] unfolding h' by (simp add: heap_cell_def)
    moreover have "{1..<Suc i} = insert i {1..<i}" using i by auto
    then have "(\<lambda>s. if s \<in> heapstate ` b ` {1..<Suc i} then 0 else heapindex h s) =
        (\<lambda>s. if s \<in> heapstate ` b ` {1..<i} then 0 else heapindex h s)(heapstate (b i) := 0)" by (auto simp: fun_eq_iff)
    ultimately show "\<exists>h''. ebind (heap_cell h' (int i)) (\<lambda>e. Inr (h'\<lparr>heapindex := (heapindex h')(heapstate e := 0)\<rparr>)) = Inr h'' \<and>
        h'' = ?f (length (pre @ [i]))" using i(1) unfolding h' by simp
  qed simp
  then show ?thesis using h(2) by (simp add: packed_def del: upt_Suc)
qed

lemma makeemptyheap_ok:
  assumes "cheap_ok ord m h"
  shows "\<exists>h'. makeemptyheap h = Inr h' \<and> cheap_ok True Map.empty h'"
proof -
  from assms obtain n b where h: "currentsize h = int n" "packed heapstate 1 (Suc n) (cells h) (heapindex h) (elems m) b"
    "ord \<Longrightarrow> one.ordered_from ekey 1 (Suc n) b" "\<And>s. s \<notin> dom m \<Longrightarrow> heapindex h s = 0"
    "int n < HEAPSIZE" "int n < allocated h" "int (length (cells h)) = allocated h" by (rule cheap_okD) blast
  let ?h = "h\<lparr>heapindex := (\<lambda>s. 0), currentsize := 0\<rparr>"
  have "(\<lambda>s. if s \<in> heapstate ` elems m then 0 else heapindex h s) = (\<lambda>s. 0)" using h(4) by (auto simp: elems_states fun_eq_iff)
  then have "makeemptyheap h = Inr ?h" using forget_indices_ok[OF h(1,2)] by (auto simp: makeemptyheap_def)
  moreover have "packed heapstate 1 1 (cells h) (\<lambda>s. 0) (elems Map.empty) b" using h(6,7) by (auto simp: packed_def elems_def)
  then have "cheap_ok True Map.empty ?h" using h(6,7) ordered_trivial[of ekey 0 b]
    by (intro cheap_okI[where ?idx0.0 = "\<lambda>s. 0"]) (auto simp: settled_def HEAPSIZE_def)
  ultimately show ?thesis by blast
qed

text \<open>The linear-time construction: the subtrees below \<open>i\<close> are heaps when the loop reaches \<open>i\<close>.\<close>

lemma makeheap_loop:
  "\<lbrakk>settled (Suc i) E idx0 h; i \<le> nat (currentsize h)\<rbrakk> \<Longrightarrow>
     \<exists>h'. efold (\<lambda>i h. ebind (heap_cell h (int i)) (\<lambda>e. percolatedown (int i) e h)) (rev [1..<Suc i]) h = Inr h' \<and>
       same_room h h' \<and> settled 1 E idx0 h'"
proof (induction i arbitrary: h)
  case (Suc i)
  let ?N = "Suc (nat (currentsize h))"
  from Suc.prems(1) obtain b where b: "packed heapstate 1 ?N (cells h) (heapindex h) E b" "one.ordered_from ekey (Suc (Suc i)) ?N b"
    "\<forall>s. s \<notin> heapstate ` E \<longrightarrow> heapindex h s = idx0 s" unfolding settled_def by blast
  have i: "1 \<le> Suc i" "Suc i < ?N" using Suc.prems(2) by auto
  have "slots heapstate 1 ?N idx0 E (cells h) (heapindex h) b (Suc i)" using slots_same[OF b(1) i] b(3) by (simp add: slots_def)
  from percolatedown_ok[OF this one.ordered_down[OF b(2) i]]
  obtain h1 where h1: "percolatedown (int (Suc i)) (b (Suc i)) h = Inr h1" "same_room h h1" "settled (Suc i) E idx0 h1" by blast
  have le: "i \<le> nat (currentsize h1)" using Suc.prems(2) h1(2) by (simp add: same_room_def)
  from Suc.IH[OF h1(3) le] obtain h' where h': "efold (\<lambda>i h. ebind (heap_cell h (int i)) (\<lambda>e. percolatedown (int i) e h)) (rev [1..<Suc i]) h1 = Inr h'"
    "same_room h1 h'" "settled 1 E idx0 h'" by blast
  have "rev [1..<Suc (Suc i)] = Suc i # rev [1..<Suc i]" by simp
  then show ?case using packed_cell[OF b(1) i] h1(1,2) h' by (simp add: same_room_def del: upt_Suc)
qed (auto simp: same_room_def)

lemma makeheap_ok:
  assumes "cheap_ok ord m h"
  shows "\<exists>h'. makeheap h = Inr h' \<and> cheap_ok True m h'"
proof -
  from assms obtain n b where h: "currentsize h = int n" "packed heapstate 1 (Suc n) (cells h) (heapindex h) (elems m) b"
    "ord \<Longrightarrow> one.ordered_from ekey 1 (Suc n) b" "\<And>s. s \<notin> dom m \<Longrightarrow> heapindex h s = 0"
    "int n < HEAPSIZE" "int n < allocated h" "int (length (cells h)) = allocated h" by (rule cheap_okD) blast
  have half: "nat (currentsize h div 2 + 1) = Suc (n div 2)" using h(1) by (simp add: nat_add_distrib zdiv_int[symmetric] flip: of_nat_Suc)
  have "one.ordered_from ekey (Suc (n div 2)) (Suc n) b" by (rule one.ordered_leaves) auto
  then have "settled (Suc (n div 2)) (elems m) (\<lambda>s. 0) h" using h(1,2,4) unfolding settled_def elems_states by auto
  from makeheap_loop[OF this] h(1) obtain h' where h': "makeheap h = Inr h'" "same_room h h'" "settled 1 (elems m) (\<lambda>s. 0) h'"
    unfolding makeheap_def half by auto
  moreover have "cheap_ok True m h'"
    by (rule cheap_okI[where ?idx0.0 = "\<lambda>s. 0"]) (use h' h in \<open>auto simp: same_room_def\<close>)
  ultimately show ?thesis by blast
qed

text \<open>The operations that do not keep the order.\<close>

lemma settled_loose: "\<lbrakk>packed heapstate 1 (Suc n) (cells h) (heapindex h) E b; currentsize h = int n; \<forall>s. s \<notin> heapstate ` E \<longrightarrow> heapindex h s = idx0 s\<rbrakk> \<Longrightarrow>
    settled (Suc (nat (currentsize h))) E idx0 h"
  unfolding settled_def using ordered_trivial[of ekey n b] by auto

lemma insert_unsafe_ok:
  assumes ok: "cheap_ok ord m h" and room: "int (card (dom m)) \<noteq> HEAPSIZE - 1" and s: "s \<notin> dom m"
  shows "\<exists>h'. insert_unsafe s k h = Inr h' \<and> cheap_ok False (m(s \<mapsto> k)) h'"
proof -
  obtain h1 where h1: "sizecheck h = Inr h1" "cheap_ok ord m h1" "currentsize h1 + 1 < allocated h1" "currentsize h1 + 1 < HEAPSIZE"
    using sizecheck_ok[OF ok room] by blast
  from h1(2) obtain n b where h: "currentsize h1 = int n" "packed heapstate 1 (Suc n) (cells h1) (heapindex h1) (elems m) b"
    "ord \<Longrightarrow> one.ordered_from ekey 1 (Suc n) b" "\<And>s. s \<notin> dom m \<Longrightarrow> heapindex h1 s = 0"
    "int n < HEAPSIZE" "int n < allocated h1" "int (length (cells h1)) = allocated h1" by (rule cheap_okD) blast
  let ?x = "\<lparr>heapstate = s, ekey = k\<rparr>"
  let ?h = "h1\<lparr>currentsize := currentsize h1 + 1, cells := (cells h1)[Suc n := Some ?x], heapindex := (heapindex h1)(s := int (Suc n))\<rparr>"
  have run: "insert_unsafe s k h = Inr ?h"
    using h1(1,3) h(1,7) h(4)[OF s] by (simp add: insert_unsafe_def place_def nat_add_distrib add.commute)
  have "Suc n < length (cells h1)" using h1(3) h(1,7) by simp
  note f = slots_fill[OF insert_slots[OF h(1,2) s this, of k]]
  have "settled (Suc (nat (currentsize ?h))) (elems (m(s \<mapsto> k))) (heapindex h1) ?h"
    by (rule settled_loose[where n = "Suc n" and b = "b(Suc n := ?x)"]) (use f h(1) in \<open>simp_all add: add.commute\<close>)
  then have "cheap_ok False (m(s \<mapsto> k)) ?h"
    by (intro cheap_okI[where ?idx0.0 = "heapindex h1"]) (use h h1(3,4) in auto)
  then show ?thesis using run by blast
qed

lemma deleteheap_unsafe_ok:
  assumes ok: "cheap_ok ord m h" and s: "m s = Some k"
  shows "\<exists>h'. deleteheap_unsafe s h = Inr h' \<and> cheap_ok False (m(s := None)) h'"
proof -
  from ok obtain n b where h: "currentsize h = int n" "packed heapstate 1 (Suc n) (cells h) (heapindex h) (elems m) b"
    "ord \<Longrightarrow> one.ordered_from ekey 1 (Suc n) b" "\<And>s. s \<notin> dom m \<Longrightarrow> heapindex h s = 0"
    "int n < HEAPSIZE" "int n < allocated h" "int (length (cells h)) = allocated h" by (rule cheap_okD) blast
  obtain j where j: "1 \<le> j" "j < Suc n" "b j = \<lparr>heapstate = s, ekey = k\<rparr>" "heapindex h s = int j"
    using cheap_index(2)[OF h(2,4) s] by blast
  obtain p where p: "n = Suc p" using j by (cases n) auto
  have E: "elems (m(s := None)) = elems m - {b j}" using elems_other[of "b j" m] s j(3) by (simp add: elems_delete elems_iff)
  have gone: "s \<notin> heapstate ` (elems m - {b j})" unfolding E[symmetric] elems_states by simp
  let ?h = "h\<lparr>currentsize := int p, cells := (cells h)[j := Some (b n)], heapindex := (heapindex h)(heapstate (b n) := int j)\<rparr>"
  have run: "deleteheap_unsafe s h = Inr (?h\<lparr>heapindex := (heapindex ?h)(s := 0)\<rparr>)"
    using j h packed_cell[OF h(2), of n] p by (simp add: deleteheap_unsafe_def place_def)
  have "settled (Suc (nat (currentsize ?h))) (elems m - {b j}) (\<lambda>t. if t = s then int j else heapindex h t) ?h"
  proof (cases "j = n")
    case True
    have at: "cells h ! n = Some (b n)" "heapindex h (heapstate (b n)) = int n" using packed_at[OF h(2), of n] p by auto
    have same: "(cells h)[j := Some (b n)] = cells h" "(heapindex h)(heapstate (b n) := int j) = heapindex h"
      using at True by (auto simp: fun_upd_idem list_update_same_conv) (metis list_update_id)
    show ?thesis
      by (rule settled_loose[where n = p and b = b]) (use packed_drop[OF h(2)] p True same at j(3) in auto)
  next
    case False
    then have jn: "j < n" using j by simp
    note f = slots_fill[OF slots_last[OF h(2) j(1) jn]]
    show ?thesis
      by (rule settled_loose[where n = p and b = "b(j := b n)"]) (use f p j(4) in auto)
  qed
  from settled_forget[OF this gone]
  have "cheap_ok False (m(s := None)) (?h\<lparr>heapindex := (heapindex ?h)(s := 0)\<rparr>)"
    by (intro cheap_okI[where ?idx0.0 = "(\<lambda>t. if t = s then int j else heapindex h t)(s := 0)"]) (use h p in \<open>auto simp: E\<close>)
  then show ?thesis using run by blast
qed

lemma updateheap_unsafe_ok:
  assumes ok: "cheap_ok ord m h" and s: "m s = Some k0"
  shows "\<exists>h'. updateheap_unsafe s k h = Inr h' \<and> cheap_ok False (m(s \<mapsto> k)) h'"
proof -
  from ok obtain n b where h: "currentsize h = int n" "packed heapstate 1 (Suc n) (cells h) (heapindex h) (elems m) b"
    "ord \<Longrightarrow> one.ordered_from ekey 1 (Suc n) b" "\<And>s. s \<notin> dom m \<Longrightarrow> heapindex h s = 0"
    "int n < HEAPSIZE" "int n < allocated h" "int (length (cells h)) = allocated h" by (rule cheap_okD) blast
  obtain j where j: "1 \<le> j" "j < Suc n" "b j = \<lparr>heapstate = s, ekey = k0\<rparr>" "heapindex h s = int j"
    using cheap_index(2)[OF h(2,4) s] by blast
  note cell = packed_cell[OF h(2) j(1,2)] and at = packed_at[OF h(2) j(1,2)]
  let ?x = "\<lparr>heapstate = s, ekey = k\<rparr>"
  let ?h = "h\<lparr>cells := (cells h)[j := Some ?x]\<rparr>"
  have E: "elems (m(s \<mapsto> k)) = insert ?x (elems m - {b j})" using elems_other[of "b j" m] s j(3) by (simp add: elems_insert elems_iff)
  have same: "?h = h" if "k0 = k" using that at j(3) by (metis cheap.unfold_congs(2) cheap.surjective cheap.update_convs(2) list_update_id)
  have run: "updateheap_unsafe s k h = Inr ?h"
    using cell j at same by (auto simp: updateheap_unsafe_def set_key_def)
  have idx: "(heapindex h)(s := int j) = heapindex h" using j(4) by (simp add: fun_upd_idem)
  have x: "heapstate ?x = heapstate (b j)" using j(3) by simp
  have "packed heapstate 1 (Suc n) ((cells h)[j := Some ?x]) (heapindex h) (elems (m(s \<mapsto> k))) (b(j := ?x))"
    unfolding E using slots_fill(1)[OF slots_rekey[OF h(2) j(1,2) x]] idx by simp
  then have "settled (Suc (nat (currentsize ?h))) (elems (m(s \<mapsto> k))) (heapindex h) ?h"
    by (intro settled_loose[where n = n]) (use h(1) in auto)
  then have "cheap_ok False (m(s \<mapsto> k)) ?h" by (intro cheap_okI[where ?idx0.0 = "heapindex h"]) (use h in auto)
  then show ?thesis using run by blast
qed

section \<open>The contract\<close>

datatype ('v, 'k) heap_op = HInsert 'v 'k | HDelete 'v | HUpdate 'v 'k | HInsertUnsafe 'v 'k | HDeleteUnsafe 'v
  | HUpdateUnsafe 'v 'k | HMakeHeap | HMakeEmpty | HGetMin | HGetMinKey | HMinKey | HDeleteMin | HGetKey 'v | HInHeap 'v | HEmpty | HFull

datatype ('v, 'k) heap_out = ONone | OBool bool | OKey 'k | OState 'v | OStateKey 'v 'k

definition no_out :: "'s result \<Rightarrow> (('v, 'k) heap_out \<times> 's) result" where
  "no_out r = ebind r (\<lambda>s. Inr (ONone, s))"

fun heap_step :: "'k \<Rightarrow> ('v, 'k::linorder) heap_op \<Rightarrow> ('v, 'k) cheap \<Rightarrow> (('v, 'k) heap_out \<times> ('v, 'k) cheap) result" where
  "heap_step big (HInsert s k) h = no_out (insertheap s k h)"
| "heap_step big (HDelete s) h = no_out (deleteheap s h)"
| "heap_step big (HUpdate s k) h = no_out (updateheap s k h)"
| "heap_step big (HInsertUnsafe s k) h = no_out (insert_unsafe s k h)"
| "heap_step big (HDeleteUnsafe s) h = no_out (deleteheap_unsafe s h)"
| "heap_step big (HUpdateUnsafe s k) h = no_out (updateheap_unsafe s k h)"
| "heap_step big HMakeHeap h = no_out (makeheap h)"
| "heap_step big HMakeEmpty h = no_out (makeemptyheap h)"
| "heap_step big HGetMin h = ebind (getminheap h) (\<lambda>s. Inr (OState s, h))"
| "heap_step big HGetMinKey h = ebind (getminheap_key h) (\<lambda>(s, k). Inr (OStateKey s k, h))"
| "heap_step big HMinKey h = ebind (minkey_or big h) (\<lambda>k. Inr (OKey k, h))"
| "heap_step big HDeleteMin h = ebind (deleteminheap h) (\<lambda>(s, h). Inr (OState s, h))"
| "heap_step big (HGetKey s) h = ebind (getkeyheap s h) (\<lambda>k. Inr (OKey k, h))"
| "heap_step big (HInHeap s) h = Inr (OBool (inheap s h), h)"
| "heap_step big HEmpty h = Inr (OBool (emptyheap h), h)"
| "heap_step big HFull h = Inr (OBool (fullheap h), h)"

definition full_map :: "('v \<Rightarrow> 'k option) \<Rightarrow> bool" where
  "full_map m \<longleftrightarrow> int (card (dom m)) = HEAPSIZE - 1"

definition least_at :: "('v \<Rightarrow> 'k::linorder option) \<Rightarrow> 'v \<Rightarrow> 'k \<Rightarrow> bool" where
  "least_at m s k \<longleftrightarrow> m s = Some k \<and> (\<forall>k' \<in> ran m. k \<le> k')"

text \<open>
  The abstract state: whether the heap is in order, and the map from states to keys. The operations that
  keep or use the order may be called only when it is there.
\<close>

fun heap_spec :: "'k \<Rightarrow> (('v, 'k::linorder) heap_op, bool \<times> ('v \<Rightarrow> 'k option), ('v, 'k) heap_out) contract" where
  "heap_spec big (HInsert s k) (od, m) = (if od then Some (\<lambda>r. r = (if full_map m \<or> s \<in> dom m then Inl HeapError else Inr (ONone, True, m(s \<mapsto> k)))) else None)"
| "heap_spec big (HDelete s) (od, m) = (if od then Some (\<lambda>r. r = (if s \<in> dom m then Inr (ONone, True, m(s := None)) else Inl HeapError)) else None)"
| "heap_spec big (HUpdate s k) (od, m) = (if od then Some (\<lambda>r. r = (if s \<in> dom m then Inr (ONone, True, m(s \<mapsto> k)) else Inl HeapError)) else None)"
| "heap_spec big (HInsertUnsafe s k) (od, m) = Some (\<lambda>r. r = (if full_map m \<or> s \<in> dom m then Inl HeapError else Inr (ONone, False, m(s \<mapsto> k))))"
| "heap_spec big (HDeleteUnsafe s) (od, m) = Some (\<lambda>r. r = (if s \<in> dom m then Inr (ONone, False, m(s := None)) else Inl HeapError))"
| "heap_spec big (HUpdateUnsafe s k) (od, m) = Some (\<lambda>r. r = (if s \<in> dom m then Inr (ONone, False, m(s \<mapsto> k)) else Inl HeapError))"
| "heap_spec big HMakeHeap (od, m) = Some (\<lambda>r. r = Inr (ONone, True, m))"
| "heap_spec big HMakeEmpty (od, m) = Some (\<lambda>r. r = Inr (ONone, True, Map.empty))"
| "heap_spec big HGetMin (od, m) = (if od then Some (\<lambda>r. if dom m = {} then r = Inl HeapError else \<exists>s k. least_at m s k \<and> r = Inr (OState s, od, m)) else None)"
| "heap_spec big HGetMinKey (od, m) = (if od then Some (\<lambda>r. if dom m = {} then r = Inl HeapError else \<exists>s k. least_at m s k \<and> r = Inr (OStateKey s k, od, m)) else None)"
| "heap_spec big HMinKey (od, m) = (if od then Some (\<lambda>r. if dom m = {} then r = Inr (OKey big, od, m) else \<exists>s k. least_at m s k \<and> r = Inr (OKey k, od, m)) else None)"
| "heap_spec big HDeleteMin (od, m) = (if od then Some (\<lambda>r. if dom m = {} then r = Inl HeapError else \<exists>s k. least_at m s k \<and> r = Inr (OState s, od, m(s := None))) else None)"
| "heap_spec big (HGetKey s) (od, m) = Some (\<lambda>r. r = (case m s of None \<Rightarrow> Inl HeapError | Some k \<Rightarrow> Inr (OKey k, od, m)))"
| "heap_spec big (HInHeap s) (od, m) = Some (\<lambda>r. r = Inr (OBool (s \<in> dom m), od, m))"
| "heap_spec big HEmpty (od, m) = Some (\<lambda>r. r = Inr (OBool (dom m = {}), od, m))"
| "heap_spec big HFull (od, m) = Some (\<lambda>r. r = Inr (OBool (full_map m), od, m))"

definition heap_rel :: "nat \<Rightarrow> bool \<times> ('v \<Rightarrow> 'k::linorder option) \<Rightarrow> ('v, 'k) cheap \<Rightarrow> bool" where
  "heap_rel n a h \<longleftrightarrow> cheap_ok (fst a) (snd a) h"

lemma cheap_facts:
  assumes "cheap_ok ord m h"
  shows "heapindex h s = 0 \<longleftrightarrow> s \<notin> dom m" "currentsize h = 0 \<longleftrightarrow> dom m = {}" "fullheap h \<longleftrightarrow> full_map m"
    "m s = Some k \<Longrightarrow> heap_cell h (heapindex h s) = Inr \<lparr>heapstate = s, ekey = k\<rparr>"
    "\<lbrakk>ord; dom m \<noteq> {}\<rbrakk> \<Longrightarrow> \<exists>s k. least_at m s k \<and> heap_cell h 1 = Inr \<lparr>heapstate = s, ekey = k\<rparr>"
proof -
  from assms obtain n b where h: "currentsize h = int n" "packed heapstate 1 (Suc n) (cells h) (heapindex h) (elems m) b"
    "ord \<Longrightarrow> one.ordered_from ekey 1 (Suc n) b" "\<And>s. s \<notin> dom m \<Longrightarrow> heapindex h s = 0"
    "int n < HEAPSIZE" "int n < allocated h" "int (length (cells h)) = allocated h" by (rule cheap_okD) blast
  note card = cheap_card[OF h(2)]
  show "heapindex h s = 0 \<longleftrightarrow> s \<notin> dom m" by (rule cheap_index(1)[OF h(2,4)])
  show "currentsize h = 0 \<longleftrightarrow> dom m = {}" using card h(1) by auto
  show "fullheap h \<longleftrightarrow> full_map m" using card h(1) by (simp add: fullheap_def full_map_def)
  show "heap_cell h (heapindex h s) = Inr \<lparr>heapstate = s, ekey = k\<rparr>" if "m s = Some k"
    using cheap_index(2)[OF h(2,4) that] packed_cell[OF h(2)] by metis
  show "\<exists>s k. least_at m s k \<and> heap_cell h 1 = Inr \<lparr>heapstate = s, ekey = k\<rparr>" if o: "ord" and ne: "dom m \<noteq> {}"
  proof -
    have "n \<noteq> 0" using ne card by auto
    note l = cheap_least[OF h(2) h(3)[OF o] this]
    show ?thesis by (intro exI[of _ "heapstate (b 1)"] exI[of _ "ekey (b 1)"]) (use l in \<open>simp add: least_at_def\<close>)
  qed
qed

lemma insert_errors:
  assumes "cheap_ok ord m h" "full_map m \<or> s \<in> dom m"
  shows "insertheap s k h = Inl HeapError" "insert_unsafe s k h = Inl HeapError"
proof -
  have "sizecheck h = Inl HeapError \<or> (\<exists>h'. sizecheck h = Inr h' \<and> heapindex h' s \<noteq> 0)"
  proof (cases "full_map m")
    case True
    then show ?thesis using cheap_facts(3)[OF assms(1)] by (simp add: sizecheck_def)
  next
    case False
    then have "int (card (dom m)) \<noteq> HEAPSIZE - 1" by (simp add: full_map_def)
    from sizecheck_ok[OF assms(1) this] show ?thesis using cheap_facts(1)[OF assms(1), of s] assms(2) False by auto
  qed
  then show "insertheap s k h = Inl HeapError" "insert_unsafe s k h = Inl HeapError" by (auto simp: insertheap_def insert_unsafe_def)
qed

lemma heap_step_ref:
  fixes h :: "('v, 'k::linorder) cheap"
  assumes rel: "heap_rel (Suc n) a h" and P: "heap_spec big x a = Some P"
  shows "case heap_step big x h of Inl e \<Rightarrow> P (Inl e) | Inr (y, h') \<Rightarrow> \<exists>a'. P (Inr (y, a')) \<and> heap_rel n a' h'"
proof -
  obtain od m where a: "a = (od, m)" by (cases a)
  have ok: "cheap_ok od m h" using rel a by (simp add: heap_rel_def)
  note facts = cheap_facts[OF ok]
  note ok' = ok[unfolded heap_rel_def[of n "(od, m)", simplified, symmetric]]
  note room = full_map_def[of m]
  have peek: ?thesis if "heap_step big x h = Inr (y, h)" "P (Inr (y, (od, m)))" for y using that ok' by auto
  show ?thesis
  proof (cases x)
    case (HInsert s k)
    then have o: "od" using P a by (auto split: if_splits)
    show ?thesis
    proof (cases "full_map m \<or> s \<in> dom m")
      case True
      then show ?thesis using HInsert P a o insert_errors(1)[OF ok True] by (auto simp: no_out_def)
    next
      case False
      then show ?thesis using HInsert P a o insertheap_ok[of m h s k] ok by (auto simp: no_out_def heap_rel_def room)
    qed
  next
    case (HDelete s)
    then have o: "od" using P a by (auto split: if_splits)
    show ?thesis
    proof (cases "m s")
      case None
      then show ?thesis using HDelete P a o facts(1)[of s] by (auto simp: no_out_def deleteheap_def domIff)
    next
      case (Some k)
      then show ?thesis using HDelete P a o deleteheap_ok[of m h s k] ok by (auto simp: no_out_def heap_rel_def domIff)
    qed
  next
    case (HUpdate s k)
    then have o: "od" using P a by (auto split: if_splits)
    show ?thesis
    proof (cases "m s")
      case None
      then show ?thesis using HUpdate P a o facts(1)[of s] by (auto simp: no_out_def updateheap_def domIff)
    next
      case (Some k0)
      then show ?thesis using HUpdate P a o updateheap_ok[of m h s k0 k] ok by (auto simp: no_out_def heap_rel_def domIff)
    qed
  next
    case (HInsertUnsafe s k)
    show ?thesis
    proof (cases "full_map m \<or> s \<in> dom m")
      case True
      then show ?thesis using HInsertUnsafe P a insert_errors(2)[OF ok True] by (auto simp: no_out_def)
    next
      case False
      then show ?thesis using HInsertUnsafe P a insert_unsafe_ok[OF ok, of s k] by (auto simp: no_out_def heap_rel_def room)
    qed
  next
    case (HDeleteUnsafe s)
    show ?thesis
    proof (cases "m s")
      case None
      then show ?thesis using HDeleteUnsafe P a facts(1)[of s] by (auto simp: no_out_def deleteheap_unsafe_def domIff)
    next
      case (Some k)
      then show ?thesis using HDeleteUnsafe P a deleteheap_unsafe_ok[OF ok Some] by (auto simp: no_out_def heap_rel_def domIff)
    qed
  next
    case (HUpdateUnsafe s k)
    show ?thesis
    proof (cases "m s")
      case None
      then show ?thesis using HUpdateUnsafe P a facts(1)[of s] by (auto simp: no_out_def updateheap_unsafe_def domIff)
    next
      case (Some k0)
      then show ?thesis using HUpdateUnsafe P a updateheap_unsafe_ok[OF ok Some, of k] by (auto simp: no_out_def heap_rel_def domIff)
    qed
  next
    case HMakeHeap
    then show ?thesis using P a makeheap_ok[OF ok] by (auto simp: no_out_def heap_rel_def)
  next
    case HMakeEmpty
    then show ?thesis using P a makeemptyheap_ok[OF ok] by (auto simp: no_out_def heap_rel_def)
  next
    case HGetMin
    then have o: "od" using P a by (auto split: if_splits)
    show ?thesis
    proof (cases "dom m = {}")
      case True
      then show ?thesis using HGetMin P a o ok' facts(2) by (auto simp: getminheap_def)
    next
      case False
      then obtain s k where "least_at m s k" "heap_cell h 1 = Inr \<lparr>heapstate = s, ekey = k\<rparr>" using facts(5)[OF o] by blast
      then show ?thesis by (intro peek[of "OState s"]) (use HGetMin P a o False facts(2) in \<open>auto simp: getminheap_def\<close>)
    qed
  next
    case HGetMinKey
    then have o: "od" using P a by (auto split: if_splits)
    show ?thesis
    proof (cases "dom m = {}")
      case True
      then show ?thesis using HGetMinKey P a o ok' facts(2) by (auto simp: getminheap_key_def)
    next
      case False
      then obtain s k where "least_at m s k" "heap_cell h 1 = Inr \<lparr>heapstate = s, ekey = k\<rparr>" using facts(5)[OF o] by blast
      then show ?thesis by (intro peek[of "OStateKey s k"]) (use HGetMinKey P a o False facts(2) in \<open>auto simp: getminheap_key_def\<close>)
    qed
  next
    case HMinKey
    then have o: "od" using P a by (auto split: if_splits)
    show ?thesis
    proof (cases "dom m = {}")
      case True
      then show ?thesis using HMinKey P a o ok' facts(2) by (auto simp: minkey_or_def)
    next
      case False
      then obtain s k where "least_at m s k" "heap_cell h 1 = Inr \<lparr>heapstate = s, ekey = k\<rparr>" using facts(5)[OF o] by blast
      then show ?thesis by (intro peek[of "OKey k"]) (use HMinKey P a o False facts(2) in \<open>auto simp: minkey_or_def\<close>)
    qed
  next
    case HDeleteMin
    then have o: "od" using P a by (auto split: if_splits)
    show ?thesis
    proof (cases "dom m = {}")
      case True
      then show ?thesis using HDeleteMin P a o facts(2) by (auto simp: deleteminheap_def)
    next
      case False
      then show ?thesis using HDeleteMin P a o deleteminheap_ok[of m h] ok by (auto simp: heap_rel_def least_at_def)
    qed
  next
    case (HGetKey s)
    then show ?thesis using P a ok' facts(1)[of s] facts(4)[of s] by (cases "m s") (auto simp: getkeyheap_def)
  next
    case (HInHeap s)
    then show ?thesis using P a ok' facts(1)[of s] by (auto simp: inheap_def)
  next
    case HEmpty
    then show ?thesis using P a ok' facts(2) by (auto simp: emptyheap_def)
  next
    case HFull
    then show ?thesis using P a ok' facts(3) by auto
  qed
qed

interpretation hq: op_refinement "heap_step big" "heap_spec big" heap_rel "\<lambda>_. True" for big :: "'k::linorder"
  by unfold_locales (rule heap_step_ref)

lemma heap_alloc_rel: "1 \<le> k \<Longrightarrow> heap_rel n (True, Map.empty) (heap_alloc (\<lambda>s. 0) k)"
  using ordered_trivial[of ekey 0 "\<lambda>_. undefined"]
  by (auto simp: heap_rel_def cheap_ok_def settled_def heap_alloc_def packed_def elems_def HEAPSIZE_def)

text \<open>The calls of \<open>CIntHeap\<close>, which has no unsafe operations.\<close>

fun safe_op :: "('v, 'k) heap_op \<Rightarrow> bool" where
  "safe_op (HInsertUnsafe s k) = False"
| "safe_op (HDeleteUnsafe s) = False"
| "safe_op (HUpdateUnsafe s k) = False"
| "safe_op x = True"

fun cint_step :: "('v, int) heap_op \<Rightarrow> ('v, int) cheap \<Rightarrow> (('v, int) heap_out \<times> ('v, int) cheap) result" where
  "cint_step (HInsert s k) h = no_out (CIntHeap_insertheap s k h)"
| "cint_step (HDelete s) h = no_out (CIntHeap_deleteheap s h)"
| "cint_step (HUpdate s k) h = no_out (CIntHeap_updateheap s k h)"
| "cint_step HMakeHeap h = no_out (CIntHeap_makeheap h)"
| "cint_step HMakeEmpty h = no_out (CIntHeap_makeemptyheap h)"
| "cint_step HGetMin h = ebind (CIntHeap_getminheap h) (\<lambda>s. Inr (OState s, h))"
| "cint_step HGetMinKey h = ebind (CIntHeap_getminheap_key h) (\<lambda>(s, k). Inr (OStateKey s k, h))"
| "cint_step HMinKey h = ebind (CIntHeap_getminkeyheap h) (\<lambda>k. Inr (OKey k, h))"
| "cint_step HDeleteMin h = ebind (CIntHeap_deleteminheap h) (\<lambda>(s, h). Inr (OState s, h))"
| "cint_step (HGetKey s) h = ebind (CIntHeap_getkeyheap s h) (\<lambda>k. Inr (OKey k, h))"
| "cint_step (HInHeap s) h = Inr (OBool (CIntHeap_inheap s h), h)"
| "cint_step HEmpty h = Inr (OBool (CIntHeap_emptyheap h), h)"
| "cint_step HFull h = Inr (OBool (CIntHeap_fullheap h), h)"
| "cint_step (HInsertUnsafe s k) h = Inl AssertFail"
| "cint_step (HDeleteUnsafe s) h = Inl AssertFail"
| "cint_step (HUpdateUnsafe s k) h = Inl AssertFail"

lemma cint_step_eq: "safe_op x \<Longrightarrow> cint_step x h = heap_step INFINITECOST x h"
  by (cases x) (simp_all add: cint_defs)

interpretation iq: op_refinement cint_step "heap_spec INFINITECOST" heap_rel safe_op
  by unfold_locales (auto simp only: cint_step_eq intro: heap_step_ref)

text \<open>
  C28. Every sequence of calls on a new CHeap keeps to the contract of a priority map from search states to
  two-component keys: insert, delete and update act on the map and throw exactly when the state is (or is not) in
  the heap or the heap is full, getmin and deletemin give a state with the least key, the heap grows as needed, and
  after any unsafe calls makeheap restores the order.
\<close>

theorem CHeap_keeps_contract:
  "allowed (heap_spec InfiniteKey) xs (True, Map.empty) (run_ops (heap_step InfiniteKey) xs (CHeap_new (\<lambda>s. 0)))"
  unfolding CHeap_new_def by (rule hq.run_ref[OF heap_alloc_rel]) (simp_all add: HEAPSIZE_INIT_def)

text \<open>
  The heap with integer keys, built with any positive initial size, keeps to the same contract under every
  sequence of its calls; an empty heap reports the infinite cost as its least key.
\<close>

theorem CIntHeap_keeps_contract:
  assumes "1 \<le> n" "\<forall>x \<in> set xs. safe_op x"
  shows "\<exists>h. CIntHeap_sized (\<lambda>s. 0) n = Inr h \<and> allowed (heap_spec INFINITECOST) xs (True, Map.empty) (run_ops cint_step xs h)"
  using iq.run_ref[OF heap_alloc_rel[OF assms(1)] assms(2)] assms(1) by (auto simp: CIntHeap_sized_def)

theorem CIntHeap_keeps_contract_witness:
  "\<exists>h. CIntHeap_sized (\<lambda>s::nat. 0) 1 = Inr h \<and> allowed (heap_spec INFINITECOST) [HInsert 7 3, HInsert 8 2, HDeleteMin] (True, Map.empty)
     (run_ops cint_step [HInsert 7 3, HInsert 8 2, HDeleteMin] h)"
  by (rule CIntHeap_keeps_contract) simp_all

text \<open>
  A CIntHeap built with the initial size 0 never grows: its first insertion writes outside the array.
\<close>

theorem CIntHeap_zero_overruns:
  "ebind (CIntHeap_sized (\<lambda>s. 0) 0) (CIntHeap_insertheap s k) = Inl OutOfBounds"
  by (simp add: CIntHeap_sized_def CIntHeap_insertheap_def insertheap_def sizecheck_def fullheap_def heap_alloc_def HEAPSIZE_def
      percolateup_def percolateup_loop.simps place_def arr_set_def)

end
