(* ===== verification/Sbpl_Bucket.thy ===== *)
theory Sbpl_Bucket
  imports Sbpl_Heap
begin

text \<open>
  The bucket queue \<open>CBucket\<close> of \<open>src/libsbpl/src/utils/list.h\<close>, the open list of the two-dimensional grid search of SBPL. One bucket per
  small priority, one bucket for all larger finite priorities (its priorities are kept beside it in
  \<open>assortedpriorityV\<close>) and one for infinite ones. A state knows its position in its bucket (\<open>heapindex\<close>, here a function of the
  state). Access outside the array of buckets and \<open>at\<close> outside a vector are both \<open>OutOfBounds\<close>. The checks under \<open>DEBUG\<close>
  are not compiled (\<open>DEBUG\<close> is 0 in \<open>sbpl/config.h\<close>).
\<close>

section \<open>The code\<close>

record 'v CBucket =
  bucketV :: "'v list list option"
  assortedpriorityV :: "int list"
  firstpriority :: int
  numofbuckets :: int
  minelement_bucketind :: int
  minelement_priority :: int
  minelement_bucketVind :: int
  maxassortedpriorityVsize :: int
  bheapindex :: "'v \<Rightarrow> int"

definition the_buckets :: "'v CBucket \<Rightarrow> 'v list list result" where
  "the_buckets b = (case bucketV b of None \<Rightarrow> Inl NullDeref | Some bs \<Rightarrow> Inr bs)"

definition set_min :: "int \<times> int \<times> int \<Rightarrow> 'v CBucket \<Rightarrow> 'v CBucket" where
  "set_min m b = b\<lparr>minelement_bucketind := fst m, minelement_priority := fst (snd m), minelement_bucketVind := snd (snd m)\<rparr>"

definition no_min :: "int \<times> int \<times> int" where
  "no_min = (INFINITECOST, INFINITECOST, INFINITECOST)"

definition CBucket_empty :: "'v CBucket \<Rightarrow> bool" where
  "CBucket_empty b \<longleftrightarrow> minelement_bucketind b = INFINITECOST"

text \<open>\<open>makeemptybucketV\<close> marks the states and forgets the minimum; the vectors themselves keep their elements.\<close>

definition makeemptybucketV :: "'v CBucket \<Rightarrow> 'v CBucket result" where
  "makeemptybucketV b = ebind (efold (\<lambda>i idx. ebind (the_buckets b) (\<lambda>bs. ebind (arr_get bs i) (\<lambda>v. Inr (fold (\<lambda>s f. f(s := - 1)) v idx))))
       [0..numofbuckets b - 1] (bheapindex b)) (\<lambda>idx.
     Inr (set_min no_min (b\<lparr>bheapindex := idx, assortedpriorityV := []\<rparr>)))"

definition drop_buckets :: "'v CBucket \<Rightarrow> 'v CBucket result" where
  "drop_buckets b = ebind (makeemptybucketV b) (\<lambda>b. Inr (b\<lparr>bucketV := None, firstpriority := 0, numofbuckets := 0\<rparr>))"

definition CBucket_delete :: "'v CBucket \<Rightarrow> 'v CBucket result" where
  "CBucket_delete b = (if bucketV b \<noteq> None then drop_buckets b else Inr b)"

definition CBucket_reset :: "int \<Rightarrow> int \<Rightarrow> 'v CBucket \<Rightarrow> 'v CBucket result" where
  "CBucket_reset first_priority max_bucketed_priority b =
     ebind (if numofbuckets b \<noteq> 0 then drop_buckets b else Inr b) (\<lambda>b.
     ebind (num_add INT_MAX max_bucketed_priority (- first_priority)) (\<lambda>n.
     ebind (num_add INT_MAX n 1) (\<lambda>n. ebind (num_add INT_MAX n 2) (\<lambda>n.
     if n < 0 then Inl LengthError
     else Inr (set_min no_min (b\<lparr>numofbuckets := n, bucketV := Some (replicate (nat n) []), maxassortedpriorityVsize := 0\<rparr>))))))"

definition CBucket_new :: "('v \<Rightarrow> int) \<Rightarrow> int \<Rightarrow> int \<Rightarrow> 'v CBucket result" where
  "CBucket_new idx first_priority max_bucketed_priority = CBucket_reset first_priority max_bucketed_priority
     \<lparr>bucketV = None, assortedpriorityV = [], firstpriority = 0, numofbuckets = 0, minelement_bucketind = INFINITECOST,
      minelement_priority = INFINITECOST, minelement_bucketVind = INFINITECOST, maxassortedpriorityVsize = 0, bheapindex = idx\<rparr>"

text \<open>\<open>recomputeminelementupfrombucket\<close>: the loop to the next non-empty bucket, the scan of the bucket of mixed priorities, and the choice.\<close>

function find_bucket :: "'v list list \<Rightarrow> int \<Rightarrow> int \<Rightarrow> int result" where
  "find_bucket bs n bind = (if bind < n then ebind (arr_get bs bind) (\<lambda>v. if v \<noteq> [] then Inr bind else find_bucket bs n (bind + 1)) else Inr bind)"
  by pat_completeness auto
termination by (relation "measure (\<lambda>(bs, n, bind). nat (n - bind))") auto

definition assorted_step :: "int list \<Rightarrow> int \<Rightarrow> int \<times> int \<Rightarrow> (int \<times> int) result" where
  "assorted_step ps eind = (\<lambda>(best, vind). ebind (arr_get ps eind) (\<lambda>p. Inr (if best > p then (p, eind) else (best, vind))))"

definition min_from :: "'v list list \<Rightarrow> int list \<Rightarrow> int \<Rightarrow> int \<Rightarrow> int \<Rightarrow> (int \<times> int \<times> int) result" where
  "min_from bs ps n first start = ebind (find_bucket bs n start) (\<lambda>bind.
     if bind < n - 2 then Inr (bind, first + bind, 0)
     else if bind = n - 2 then
       ebind (arr_get bs bind) (\<lambda>v. ebind (efold (assorted_step ps) [0..int (length v) - 1] (INFINITECOST, INFINITECOST)) (\<lambda>(p, vind).
         if p = INFINITECOST then Inl HeapError else Inr (bind, p, vind)))
     else if bind = n - 1 then Inr (bind, INFINITECOST, 0)
     else Inr no_min)"

definition recomputeminelementupfrombucket :: "int \<Rightarrow> 'v CBucket \<Rightarrow> 'v CBucket result" where
  "recomputeminelementupfrombucket startbucketindex b = ebind (the_buckets b) (\<lambda>bs.
     ebind (min_from bs (assortedpriorityV b) (numofbuckets b) (firstpriority b) startbucketindex) (\<lambda>m. Inr (set_min m b)))"

text \<open>\<open>removestategivenbucketindex\<close>: the last element of the bucket takes the place of the removed one.\<close>

definition removestategivenbucketindex :: "'v \<Rightarrow> int \<Rightarrow> 'v CBucket \<Rightarrow> 'v CBucket result" where
  "removestategivenbucketindex s bucketindex b = ebind (the_buckets b) (\<lambda>bs. ebind (arr_get bs bucketindex) (\<lambda>v.
     let removeelemind = bheapindex b s; lastelemind = int (length v) - 1 in
     ebind (if bucketindex = numofbuckets b - 2 then ebind (arr_get (assortedpriorityV b) lastelemind) (arr_set (assortedpriorityV b) removeelemind)
            else Inr (assortedpriorityV b)) (\<lambda>ps.
     ebind (arr_get v lastelemind) (\<lambda>e.
     ebind (arr_set v removeelemind e) (\<lambda>v'.
     ebind (arr_set bs bucketindex (butlast v')) (\<lambda>bs.
     let b = b\<lparr>bucketV := Some bs, assortedpriorityV := ps, bheapindex := (bheapindex b)(e := removeelemind, s := - 1)\<rparr> in
     if bucketindex = minelement_bucketind b \<and> (butlast v' = [] \<or> minelement_bucketind b = numofbuckets b - 2)
     then recomputeminelementupfrombucket bucketindex b else Inr b))))))"

definition CBucket_insert :: "'v \<Rightarrow> int \<Rightarrow> 'v CBucket \<Rightarrow> 'v CBucket result" where
  "CBucket_insert s priority b = ebind (num_add INT_MAX priority (- firstpriority b)) (\<lambda>i.
     let bucketindex = (if priority = INFINITECOST then numofbuckets b - 1 else if i \<ge> numofbuckets b - 2 then numofbuckets b - 2 else i) in
     ebind (the_buckets b) (\<lambda>bs. ebind (arr_get bs bucketindex) (\<lambda>v. ebind (arr_set bs bucketindex (v @ [s])) (\<lambda>bs.
     let b = b\<lparr>bucketV := Some bs, bheapindex := (bheapindex b)(s := int (length v))\<rparr>;
         ps = assortedpriorityV b @ [priority];
         b = (if bucketindex = numofbuckets b - 2 then b\<lparr>assortedpriorityV := ps, maxassortedpriorityVsize := max (maxassortedpriorityVsize b) (int (length ps))\<rparr> else b) in
     if priority < minelement_priority b \<or> minelement_priority b = INFINITECOST then recomputeminelementupfrombucket bucketindex b else Inr b))))"

definition CBucket_remove :: "'v \<Rightarrow> int \<Rightarrow> 'v CBucket \<Rightarrow> 'v CBucket result" where
  "CBucket_remove s priorityattimeofinsertion b = ebind (num_add INT_MAX priorityattimeofinsertion (- firstpriority b)) (\<lambda>i.
     removestategivenbucketindex s (if priorityattimeofinsertion = INFINITECOST then numofbuckets b - 1
       else if i > numofbuckets b - 2 then numofbuckets b - 2 else i) b)"

definition bucket_min :: "'v CBucket \<Rightarrow> 'v result" where
  "bucket_min b = ebind (the_buckets b) (\<lambda>bs. ebind (arr_get bs (minelement_bucketind b)) (\<lambda>v. arr_get v (minelement_bucketVind b)))"

definition CBucket_getminelement :: "'v CBucket \<Rightarrow> 'v option result" where
  "CBucket_getminelement b = (if minelement_bucketind b = INFINITECOST then Inr None else ebind (bucket_min b) (\<lambda>s. Inr (Some s)))"

definition CBucket_popminelement :: "'v CBucket \<Rightarrow> ('v option \<times> 'v CBucket) result" where
  "CBucket_popminelement b = (if minelement_bucketind b = INFINITECOST then Inr (None, b)
     else ebind (bucket_min b) (\<lambda>s. ebind (removestategivenbucketindex s (minelement_bucketind b) b) (\<lambda>b. Inr (Some s, b))))"

definition CBucket_getminpriority :: "'v CBucket \<Rightarrow> int" where
  "CBucket_getminpriority b = minelement_priority b"

declare find_bucket.simps [simp del]

section \<open>Positions\<close>

text \<open>\<open>pos bs s i j\<close>: state \<open>s\<close> stands at position \<open>j\<close> of bucket \<open>i\<close>.\<close>

definition pos :: "'v list list \<Rightarrow> 'v \<Rightarrow> int \<Rightarrow> int \<Rightarrow> bool" where
  "pos bs s i j \<longleftrightarrow> 0 \<le> i \<and> i < int (length bs) \<and> 0 \<le> j \<and> j < int (length (bs ! nat i)) \<and> bs ! nat i ! nat j = s"



section \<open>What the buckets hold\<close>

definition bkt :: "int \<Rightarrow> int \<Rightarrow> int" where
  "bkt n p = (if p = INFINITECOST then n - 1 else if p \<ge> n - 2 then n - 2 else p)"



text \<open>
  The priority map \<open>m\<close> in \<open>n\<close> buckets: every state of the map stands where its \<open>heapindex\<close> says, in the bucket of its priority, and nothing
  else stands anywhere; the priorities of the mixed bucket stand beside it.
\<close>

definition holds :: "int \<Rightarrow> ('v \<Rightarrow> int option) \<Rightarrow> 'v list list \<Rightarrow> int list \<Rightarrow> ('v \<Rightarrow> int) \<Rightarrow> bool" where
  "holds n m bs ps idx \<longleftrightarrow> 3 \<le> n \<and> n \<le> INFINITECOST \<and> length bs = nat n \<and> length (bs ! nat (n - 2)) \<le> length ps \<and>
     (\<forall>s p. m s = Some p \<longrightarrow> 0 \<le> p \<and> p \<le> INFINITECOST \<and> pos bs s (bkt n p) (idx s) \<and> (bkt n p = n - 2 \<longrightarrow> ps ! nat (idx s) = p)) \<and>
     (\<forall>s i j. pos bs s i j \<longrightarrow> (\<exists>p. m s = Some p \<and> bkt n p = i \<and> idx s = j))"

lemma holdsI [intro?]:
  assumes "3 \<le> n" "n \<le> INFINITECOST" "length bs = nat n" "length (bs ! nat (n - 2)) \<le> length ps"
    and "\<And>s p. m s = Some p \<Longrightarrow> 0 \<le> p \<and> p \<le> INFINITECOST \<and> pos bs s (bkt n p) (idx s) \<and> (bkt n p = n - 2 \<longrightarrow> ps ! nat (idx s) = p)"
    and "\<And>s i j. pos bs s i j \<Longrightarrow> \<exists>p. m s = Some p \<and> bkt n p = i \<and> idx s = j"
  shows "holds n m bs ps idx"
  using assms by (simp add: holds_def)




section \<open>Recomputing the minimum\<close>




section \<open>The queue\<close>

definition cur_min :: "'v CBucket \<Rightarrow> int \<times> int \<times> int" where
  "cur_min b = (minelement_bucketind b, minelement_priority b, minelement_bucketVind b)"

lemma cur_min_set [simp]: "cur_min (set_min r b) = r"
  by (simp add: cur_min_def set_min_def)

definition stores :: "int \<Rightarrow> bool \<Rightarrow> ('v \<Rightarrow> int option) \<Rightarrow> 'v CBucket \<Rightarrow> bool" where
  "stores n clean m b \<longleftrightarrow> firstpriority b = 0 \<and> numofbuckets b = n \<and> (\<exists>bs. bucketV b = Some bs \<and>
     holds n m bs (assortedpriorityV b) (bheapindex b) \<and> (clean \<longrightarrow> length (assortedpriorityV b) = length (bs ! nat (n - 2))))"


lemma stores_set_min [simp]: "stores n clean m (set_min r b) \<longleftrightarrow> stores n clean m b"
  by (simp add: stores_def set_min_def)









section \<open>The contract\<close>

datatype 'v bucket_op = BInsert 'v int | BRemove 'v int | BPop | BGetMin | BMinPriority | BEmpty | BReset int int

datatype 'v bucket_out = BDone | BState "'v option" | BInt int | BBool bool

fun bucket_step :: "'v bucket_op \<Rightarrow> 'v CBucket \<Rightarrow> ('v bucket_out \<times> 'v CBucket) result" where
  "bucket_step (BInsert s p) b = ebind (CBucket_insert s p b) (\<lambda>b. Inr (BDone, b))"
| "bucket_step (BRemove s p) b = ebind (CBucket_remove s p b) (\<lambda>b. Inr (BDone, b))"
| "bucket_step BPop b = ebind (CBucket_popminelement b) (\<lambda>(s, b). Inr (BState s, b))"
| "bucket_step BGetMin b = ebind (CBucket_getminelement b) (\<lambda>s. Inr (BState s, b))"
| "bucket_step BMinPriority b = Inr (BInt (CBucket_getminpriority b), b)"
| "bucket_step BEmpty b = Inr (BBool (CBucket_empty b), b)"
| "bucket_step (BReset f x) b = ebind (CBucket_reset f x b) (\<lambda>b. Inr (BDone, b))"













lemmas bucket_run = CBucket_new_def CBucket_reset_def CBucket_insert_def CBucket_popminelement_def bucket_min_def removestategivenbucketindex_def
  recomputeminelementupfrombucket_def min_from_def assorted_step_def the_buckets_def set_min_def no_min_def num_add_def INT_MAX_def INFINITECOST_def
  arr_get_def arr_set_def Let_def find_bucket.simps

text \<open>
  The limit of that contract is real: after a pop from the bucket of mixed priorities its array of priorities keeps one entry too many, the next
  insertion appends behind it, and the queue returns a state of priority 9 although one of priority 3 is in it.
\<close>

theorem CBucket_misorders:
  "ebind (CBucket_new (\<lambda>s. 0) 0 0) (run_ops bucket_step [BInsert (1 :: int) 5, BInsert 2 9, BPop, BInsert 3 3, BPop]) =
     Inr [BDone, BDone, BState (Some 1), BDone, BState (Some 2)]"
  by (simp add: bucket_run upto_rec1 numeral_eq_Suc)

end
