(* ===== verification/Sbpl_Sliding.thy ===== *)
theory Sbpl_Sliding
  imports Op_Refinement Search_Iface
begin

text \<open>
  The sliding bucket queue \<open>CSlidingBucket\<close> of \<open>src/libsbpl/src/utils/list.h\<close>, the open list of the two-dimensional grid search of SBPL in its second
  form. A ring of buckets, one per priority from that of the last element taken on; a bucket is an array that is filled
  from the front, and taken elements become NULL. NULL is \<open>None\<close>, for a bucket and for an element.
\<close>

section \<open>The code\<close>

record 'v CSlidingBucket =
  sbucketV :: "'v option list option list"
  lastelementindexV :: "int list"
  snumofbuckets :: int
  bucketsize :: int
  cur_bindex :: int
  cur_index :: int
  cur_max_priority :: int
  cur_priority :: int
  first_bindex :: int
  first_prio :: int

definition sliding_new :: "int \<Rightarrow> int \<Rightarrow> 'v CSlidingBucket result" where
  "sliding_new num_of_buckets bucket_size = (if num_of_buckets < 0 then Inl LengthError
     else Inr \<lparr>sbucketV = replicate (nat num_of_buckets) None, lastelementindexV = replicate (nat num_of_buckets) (- 1),
       snumofbuckets = num_of_buckets, bucketsize = bucket_size, cur_bindex = 0, cur_index = - 1, cur_max_priority = 0, cur_priority = 0,
       first_bindex = 0, first_prio = 0\<rparr>)"

definition sliding_empty :: "'v CSlidingBucket \<Rightarrow> bool" where
  "sliding_empty b \<longleftrightarrow> cur_index b = - 1 \<and> cur_max_priority b = cur_priority b"

definition sliding_getminkey :: "'v CSlidingBucket \<Rightarrow> int" where
  "sliding_getminkey b = cur_priority b"

text \<open>\<open>reset\<close>: the arrays are kept and filled with NULL.\<close>

definition clear_bucket :: "int \<Rightarrow> 'v CSlidingBucket \<Rightarrow> 'v CSlidingBucket result" where
  "clear_bucket i b = ebind (arr_set (lastelementindexV b) i (- 1)) (\<lambda>l. ebind (arr_get (sbucketV b) i) (\<lambda>v.
     case v of None \<Rightarrow> Inr (b\<lparr>lastelementindexV := l\<rparr>)
     | Some a \<Rightarrow> ebind (efold (\<lambda>eind a. arr_set a eind None) [0..bucketsize b - 1] a) (\<lambda>a.
         ebind (arr_set (sbucketV b) i (Some a)) (\<lambda>v. Inr (b\<lparr>lastelementindexV := l, sbucketV := v\<rparr>)))))"

definition sliding_reset :: "'v CSlidingBucket \<Rightarrow> 'v CSlidingBucket result" where
  "sliding_reset b = efold clear_bucket [0..snumofbuckets b - 1]
     (b\<lparr>cur_bindex := 0, first_bindex := 0, cur_index := - 1, cur_max_priority := 0, cur_priority := 0, first_prio := 0\<rparr>)"

text \<open>The element under the cursor, \<open>None\<close> for any of the three reasons the code tests.\<close>

definition cursor :: "'v CSlidingBucket \<Rightarrow> 'v option result" where
  "cursor b = (if cur_index b = - 1 then Inr None
     else ebind (arr_get (sbucketV b) (cur_bindex b)) (\<lambda>v. case v of None \<Rightarrow> Inr None | Some a \<Rightarrow> arr_get a (cur_index b)))"

definition recompute_body :: "'v option \<times> 'v CSlidingBucket \<Rightarrow> ('v option \<times> 'v CSlidingBucket) loop result" where
  "recompute_body = (\<lambda>(_, b). ebind (cursor b) (\<lambda>e. if e \<noteq> None then Inr (Break (e, b))
     else ebind (arr_get (lastelementindexV b) (cur_bindex b)) (\<lambda>l.
       if cur_index b < l then Inr (Continue (None, b\<lparr>cur_index := cur_index b + 1\<rparr>))
       else ebind (arr_set (lastelementindexV b) (cur_bindex b) (- 1)) (\<lambda>ls. let b = b\<lparr>lastelementindexV := ls\<rparr> in
         if cur_priority b = cur_max_priority b
         then Inr (Break (None, b\<lparr>cur_index := - 1, cur_max_priority := cur_priority b\<rparr>))
         else if snumofbuckets b = 0 then Inl DivByZero
         else Inr (Continue (None, b\<lparr>cur_bindex := (cur_bindex b + 1) mod snumofbuckets b, cur_index := 0, cur_priority := cur_priority b + 1\<rparr>))))))"

definition recomputeandreturnmin :: "'v CSlidingBucket \<Rightarrow> ('v option \<times> 'v CSlidingBucket) result" where
  "recomputeandreturnmin b = (if sliding_empty b then Inr (None, b)
     else case run_loop recompute_body (None, b) of None \<Rightarrow> Inl Diverges | Some r \<Rightarrow> r)"

text \<open>The element the queue returns next: the one under the cursor, or else the cursor is moved.\<close>

definition current_element :: "'v CSlidingBucket \<Rightarrow> ('v option \<times> 'v CSlidingBucket) result" where
  "current_element b = ebind (cursor b) (\<lambda>e. if e = None then recomputeandreturnmin b else Inr (e, b))"

definition erase_cursor :: "'v CSlidingBucket \<Rightarrow> 'v CSlidingBucket result" where
  "erase_cursor b = ebind (arr_get (sbucketV b) (cur_bindex b)) (\<lambda>v. case v of None \<Rightarrow> Inl NullDeref
     | Some a \<Rightarrow> ebind (arr_set a (cur_index b) None) (\<lambda>a. ebind (arr_set (sbucketV b) (cur_bindex b) (Some a)) (\<lambda>v. Inr (b\<lparr>sbucketV := v\<rparr>))))"

definition sliding_popminelement :: "'v CSlidingBucket \<Rightarrow> ('v option \<times> 'v CSlidingBucket) result" where
  "sliding_popminelement b = (if sliding_empty b then Inr (None, b)
     else ebind (current_element b) (\<lambda>(e, b). ebind (erase_cursor b) (\<lambda>b.
       ebind (recomputeandreturnmin (b\<lparr>first_bindex := cur_bindex b, first_prio := cur_priority b\<rparr>)) (\<lambda>(_, b). Inr (e, b)))))"

definition sliding_getminelement :: "'v CSlidingBucket \<Rightarrow> ('v option \<times> 'v CSlidingBucket) result" where
  "sliding_getminelement b = (if sliding_empty b then Inr (None, b) else current_element b)"

definition createbucket :: "int \<Rightarrow> 'v CSlidingBucket \<Rightarrow> 'v CSlidingBucket result" where
  "createbucket i b = ebind (arr_get (sbucketV b) i) (\<lambda>v. if v \<noteq> None then Inl HeapError
     else if bucketsize b < 0 then Inl LengthError
     else ebind (arr_set (sbucketV b) i (Some (replicate (nat (bucketsize b)) None))) (\<lambda>v. Inr (b\<lparr>sbucketV := v\<rparr>)))"

text \<open>Where an element goes: the next free place of its bucket, which is made if need be.\<close>

definition put_last :: "'v \<Rightarrow> int \<Rightarrow> 'v CSlidingBucket \<Rightarrow> 'v CSlidingBucket result" where
  "put_last s i b = ebind (arr_get (lastelementindexV b) i) (\<lambda>l. ebind (arr_set (lastelementindexV b) i (l + 1)) (\<lambda>ls.
     if l + 1 = bucketsize b then Inl HeapError
     else ebind (arr_get (sbucketV b) i) (\<lambda>v.
       ebind (if v = None then createbucket i (b\<lparr>lastelementindexV := ls\<rparr>) else Inr (b\<lparr>lastelementindexV := ls\<rparr>)) (\<lambda>b.
       ebind (arr_get (sbucketV b) i) (\<lambda>v. case v of None \<Rightarrow> Inl NullDeref
       | Some a \<Rightarrow> ebind (arr_set a (l + 1) (Some s)) (\<lambda>a. ebind (arr_set (sbucketV b) i (Some a)) (\<lambda>v. Inr (b\<lparr>sbucketV := v\<rparr>))))))))"

text \<open>The end of \<open>insert\<close>: the greatest and the least priority, and the cursor when the element is the only one.\<close>

definition after_insert :: "int \<Rightarrow> int \<Rightarrow> 'v CSlidingBucket \<Rightarrow> 'v CSlidingBucket" where
  "after_insert p i b = (let b = (if p > cur_max_priority b then b\<lparr>cur_max_priority := p\<rparr> else b);
     b = (if p < cur_priority b then b\<lparr>cur_priority := p, cur_bindex := i\<rparr> else b) in
   if cur_bindex b = i \<and> cur_index b = - 1 then b\<lparr>cur_index := 0\<rparr> else b)"

text \<open>A negative increment makes the remainder negative in C++; the index is not used then, as the exception comes first.\<close>

definition sliding_insert :: "'v \<Rightarrow> int \<Rightarrow> 'v CSlidingBucket \<Rightarrow> 'v CSlidingBucket result" where
  "sliding_insert s p b = ebind (num_add INT_MAX p (- first_prio b)) (\<lambda>inc. ebind (num_add INT_MAX (first_bindex b) inc) (\<lambda>j.
     if snumofbuckets b = 0 then Inl DivByZero
     else let i = j mod snumofbuckets b in
       if inc \<ge> snumofbuckets b \<or> inc < 0 then Inl HeapError
       else ebind (put_last s i b) (\<lambda>b. Inr (after_insert p i b))))"

section \<open>What the ring holds\<close>

text \<open>An array with the elements \<open>xs\<close> in the places from \<open>c\<close> to \<open>l\<close> and NULL in all others.\<close>

definition bucket_holds :: "int \<Rightarrow> 'v option list option \<Rightarrow> int \<Rightarrow> int \<Rightarrow> 'v list \<Rightarrow> bool" where
  "bucket_holds n v l c xs \<longleftrightarrow> 0 \<le> c \<and> int (length xs) = l + 1 - c \<and> l + 1 \<le> n \<and> (case v of None \<Rightarrow> l = - 1 \<and> c = 0
     | Some a \<Rightarrow> 0 < n \<and> int (length a) = n \<and> (\<forall>j. 0 \<le> j \<and> j < n \<longrightarrow> a ! nat j = (if c \<le> j \<and> j \<le> l then Some (xs ! nat (j - c)) else None)))"

lemma bucket_holds_cell:
  assumes "bucket_holds n v l c xs" "0 \<le> j" "j \<le> l"
  shows "\<exists>a. v = Some a \<and> arr_get a j = Inr (if c \<le> j then Some (xs ! nat (j - c)) else None)"
  using assms by (cases v) (auto simp: bucket_holds_def arr_get_def)

lemma bucket_holds_take:
  assumes "bucket_holds n v l c (x # xs)"
  shows "\<exists>a. v = Some a \<and> (\<exists>a'. arr_set a c None = Inr a' \<and> bucket_holds n (Some a') l (c + 1) xs)"
proof -
  have l: "0 \<le> c" "c \<le> l" "l + 1 \<le> n" "int (length xs) = l - c" using assms by (auto simp: bucket_holds_def)
  then obtain a where a: "v = Some a" "int (length a) = n" "\<And>j. \<lbrakk>0 \<le> j; j < n\<rbrakk> \<Longrightarrow> a ! nat j = (if c \<le> j \<and> j \<le> l then Some ((x # xs) ! nat (j - c)) else None)"
    using assms by (cases v) (auto simp: bucket_holds_def)
  have "a[nat c := None] ! nat j = (if c + 1 \<le> j \<and> j \<le> l then Some (xs ! nat (j - (c + 1))) else None)" if "0 \<le> j" "j < n" for j
  proof (cases "j = c")
    case True
    then show ?thesis using l a(2) by (simp add: nat_less_iff)
  next
    case False
    have "nat (j - c) = Suc (nat (j - (c + 1)))" if "c < j" using that by (simp add: nat_diff_distrib Suc_nat_eq_nat_zadd1)
    then show ?thesis using False a(3)[OF that] that l(1) by (auto simp: nth_list_update eq_nat_nat_iff)
  qed
  then have "bucket_holds n (Some (a[nat c := None])) l (c + 1) xs" using l a(2) by (simp add: bucket_holds_def)
  moreover have "arr_set a c None = Inr (a[nat c := None])" using l a(2) by simp
  ultimately show ?thesis using a(1) by blast
qed

lemma bucket_holds_add:
  assumes "bucket_holds n (Some a) l c xs" "l + 1 < n"
  shows "\<exists>a'. arr_set a (l + 1) (Some x) = Inr a' \<and> bucket_holds n (Some a') (l + 1) c (xs @ [x])"
proof -
  have l: "0 \<le> c" "c \<le> l + 1" "int (length xs) = l + 1 - c" "int (length a) = n"
    "\<And>j. \<lbrakk>0 \<le> j; j < n\<rbrakk> \<Longrightarrow> a ! nat j = (if c \<le> j \<and> j \<le> l then Some (xs ! nat (j - c)) else None)"
    using assms by (auto simp: bucket_holds_def)
  have "a[nat (l + 1) := Some x] ! nat j = (if c \<le> j \<and> j \<le> l + 1 then Some ((xs @ [x]) ! nat (j - c)) else None)" if "0 \<le> j" "j < n" for j
  proof (cases "j = l + 1")
    case True
    have "nat (l + 1 - c) = length xs" using l(3) by simp
    then show ?thesis using True l(1,2,4) that by (simp add: nat_less_iff)
  next
    case False
    have "nat (j - c) < length xs" if "c \<le> j" "j \<le> l" using that l(3) by (simp add: nat_less_iff)
    then show ?thesis using False l(1,2,5) that by (auto simp: nth_list_update eq_nat_nat_iff nth_append)
  qed
  then have "bucket_holds n (Some (a[nat (l + 1) := Some x])) (l + 1) c (xs @ [x])" using l assms(2) by (simp add: bucket_holds_def)
  moreover have "arr_set a (l + 1) (Some x) = Inr (a[nat (l + 1) := Some x])" using l assms(2) by simp
  ultimately show ?thesis by blast
qed

lemma bucket_holds_none: "bucket_holds n v l c [] \<Longrightarrow> bucket_holds n v (- 1) 0 []"
  by (auto simp: bucket_holds_def split: option.splits)

lemma bucket_holds_new: "0 < n \<Longrightarrow> bucket_holds n None l c xs \<Longrightarrow> bucket_holds n (Some (replicate (nat n) None)) l c xs"
  by (auto simp: bucket_holds_def)

text \<open>
  The elements \<open>B p\<close> of every priority, oldest first: \<open>N\<close> buckets of size \<open>n\<close>, the first for the priority \<open>f\<close>, the bucket of a
  priority is its remainder. The cursor is in the bucket of priority \<open>k\<close>, whose elements start at \<open>c\<close>. \<open>ins\<close> counts the
  insertions for each priority.
\<close>

definition ring_core :: "int \<Rightarrow> int \<Rightarrow> 'v CSlidingBucket \<Rightarrow> int \<Rightarrow> (int \<Rightarrow> 'v list) \<Rightarrow> (int \<Rightarrow> nat) \<Rightarrow> int \<Rightarrow> bool" where
  "ring_core N n b f B ins c \<longleftrightarrow> 0 < N \<and> 0 \<le> n \<and> snumofbuckets b = N \<and> bucketsize b = n \<and> int (length (sbucketV b)) = N \<and>
     int (length (lastelementindexV b)) = N \<and> first_prio b = f \<and> first_bindex b = f mod N \<and> cur_bindex b = cur_priority b mod N \<and>
     0 \<le> f \<and> f \<le> cur_priority b \<and> cur_priority b \<le> cur_max_priority b \<and> cur_max_priority b < f + N \<and> cur_max_priority b \<le> INT_MAX \<and>
     (\<forall>q. q < cur_priority b \<or> cur_max_priority b < q \<longrightarrow> B q = []) \<and>
     (\<forall>q. f \<le> q \<and> q < f + N \<longrightarrow> lastelementindexV b ! nat (q mod N) < int (ins q) \<and>
        bucket_holds n (sbucketV b ! nat (q mod N)) (lastelementindexV b ! nat (q mod N)) (if q = cur_priority b then c else 0) (B q))"

lemma ring_coreD:
  assumes "ring_core N n b f B ins c"
  shows "0 < N" "0 \<le> n" "snumofbuckets b = N" "bucketsize b = n" "int (length (sbucketV b)) = N" "int (length (lastelementindexV b)) = N"
    and "first_prio b = f" "first_bindex b = f mod N" "cur_bindex b = cur_priority b mod N"
    and "0 \<le> f" "f \<le> cur_priority b" "cur_priority b \<le> cur_max_priority b" "cur_max_priority b < f + N" "cur_max_priority b \<le> INT_MAX"
    and "q < cur_priority b \<Longrightarrow> B q = []" "cur_max_priority b < q \<Longrightarrow> B q = []"
    and "\<lbrakk>f \<le> q; q < f + N\<rbrakk> \<Longrightarrow> lastelementindexV b ! nat (q mod N) < int (ins q)"
    and "\<lbrakk>f \<le> q; q < f + N\<rbrakk> \<Longrightarrow>
      bucket_holds n (sbucketV b ! nat (q mod N)) (lastelementindexV b ! nat (q mod N)) (if q = cur_priority b then c else 0) (B q)"
  using assms by (simp_all add: ring_core_def)

lemma ring_coreI:
  assumes "0 < N" "0 \<le> n" "snumofbuckets b = N" "bucketsize b = n" "int (length (sbucketV b)) = N" "int (length (lastelementindexV b)) = N"
    and "first_prio b = f" "first_bindex b = f mod N" "cur_bindex b = cur_priority b mod N"
    and "0 \<le> f" "f \<le> cur_priority b" "cur_priority b \<le> cur_max_priority b" "cur_max_priority b < f + N" "cur_max_priority b \<le> INT_MAX"
    and "\<And>q. q < cur_priority b \<or> cur_max_priority b < q \<Longrightarrow> B q = []"
    and "\<And>q. \<lbrakk>f \<le> q; q < f + N\<rbrakk> \<Longrightarrow> lastelementindexV b ! nat (q mod N) < int (ins q) \<and>
      bucket_holds n (sbucketV b ! nat (q mod N)) (lastelementindexV b ! nat (q mod N)) (if q = cur_priority b then c else 0) (B q)"
  shows "ring_core N n b f B ins c"
  using assms by (simp add: ring_core_def)

lemma window_inj: "\<lbrakk>f \<le> q; q < f + N; f \<le> p; p < f + N; nat (q mod N) = nat (p mod N); 0 < N\<rbrakk> \<Longrightarrow> q = p" for N :: int
proof -
  assume a: "f \<le> q" "q < f + N" "f \<le> p" "p < f + N" "nat (q mod N) = nat (p mod N)" "0 < N"
  then have "q mod N = p mod N" by (simp add: eq_nat_nat_iff)
  then have "N dvd q - p" by (simp add: mod_eq_dvd_iff)
  moreover have "\<bar>q - p\<bar> < N" using a by auto
  ultimately show ?thesis using dvd_imp_le_int[of "q - p" N] a(6) by auto
qed

lemma bidx: "0 < N \<Longrightarrow> 0 \<le> q mod N \<and> q mod N < N" for N :: int
  by simp

section \<open>Moving the cursor\<close>

lemma ring_bucket:
  assumes "ring_core N n b f B ins c"
  shows "arr_get (sbucketV b) (cur_bindex b) = Inr (sbucketV b ! nat (cur_bindex b))"
    and "arr_get (lastelementindexV b) (cur_bindex b) = Inr (lastelementindexV b ! nat (cur_bindex b))"
    and "bucket_holds n (sbucketV b ! nat (cur_bindex b)) (lastelementindexV b ! nat (cur_bindex b)) c (B (cur_priority b))"
  using ring_coreD(1,5,6,9,11-13)[OF assms] ring_coreD(18)[OF assms, of "cur_priority b"] bidx[of N "cur_priority b"] by auto

lemma cursor_live:
  assumes r: "ring_core N n b f B ins c" and x: "B (cur_priority b) = x # xs" and i: "cur_index b = c"
  shows "cursor b = Inr (Some x)"
proof -
  note h = ring_bucket[OF r]
  have "0 \<le> c" "c \<le> lastelementindexV b ! nat (cur_bindex b)" using h(3) x by (auto simp: bucket_holds_def)
  then show ?thesis using bucket_holds_cell[OF h(3), of c] h(1) i x by (auto simp: cursor_def)
qed

lemma cursor_dead:
  assumes r: "ring_core N n b f B ins c" and i: "cur_index b = c - 1 \<or> (cur_index b = 0 \<and> c = 0 \<and> B (cur_priority b) = [])"
  shows "cursor b = Inr None"
proof (cases "cur_index b = - 1")
  case False
  note h = ring_bucket[OF r]
  let ?l = "lastelementindexV b ! nat (cur_bindex b)"
  from i False show ?thesis
  proof (elim disjE conjE)
    assume c: "cur_index b = c - 1"
    have "0 \<le> cur_index b" "cur_index b \<le> ?l" using c False h(3) by (auto simp: bucket_holds_def)
    then show ?thesis using bucket_holds_cell[OF h(3), of "cur_index b"] h(1) False c by (auto simp: cursor_def)
  next
    assume c: "cur_index b = 0" "c = 0" "B (cur_priority b) = []"
    then have "?l = - 1" using h(3) by (simp add: bucket_holds_def)
    then show ?thesis using h(1,3) c by (auto simp: cursor_def bucket_holds_def arr_get_def split: option.splits)
  qed
qed (simp add: cursor_def)

text \<open>Leaving a bucket without elements, and going on to the next.\<close>

definition left_bucket :: "'v CSlidingBucket \<Rightarrow> 'v CSlidingBucket" where
  "left_bucket b = b\<lparr>lastelementindexV := (lastelementindexV b)[nat (cur_bindex b) := - 1]\<rparr>"

definition next_bucket :: "'v CSlidingBucket \<Rightarrow> 'v CSlidingBucket" where
  "next_bucket b = b\<lparr>cur_bindex := (cur_bindex b + 1) mod snumofbuckets b, cur_index := 0, cur_priority := cur_priority b + 1\<rparr>"

lemma left_bucket_fields: "cur_index (left_bucket b) = cur_index b" "cur_priority (left_bucket b) = cur_priority b"
  "cur_max_priority (left_bucket b) = cur_max_priority b"
  by (simp_all add: left_bucket_def)

lemma ring_core_index: "ring_core N n (b\<lparr>cur_index := i\<rparr>) f B ins c \<longleftrightarrow> ring_core N n b f B ins c"
  by (simp add: ring_core_def)

lemma left_core:
  assumes r: "ring_core N n b f B ins c" and e: "B (cur_priority b) = []"
  shows "ring_core N n (left_bucket b) f B ins 0"
proof (rule ring_coreI)
  note d = ring_coreD[OF r]
  note h = ring_bucket[OF r]
  fix q assume q: "f \<le> q" "q < f + N"
  show "lastelementindexV (left_bucket b) ! nat (q mod N) < int (ins q) \<and>
      bucket_holds n (sbucketV (left_bucket b) ! nat (q mod N)) (lastelementindexV (left_bucket b) ! nat (q mod N)) (if q = cur_priority (left_bucket b) then 0 else 0) (B q)"
  proof (cases "q = cur_priority b")
    case True
    have lt: "nat (q mod N) < length (lastelementindexV b)" using bidx[OF d(1), of q] d(6) by linarith
    have "bucket_holds n (sbucketV b ! nat (cur_bindex b)) (- 1) 0 []" using bucket_holds_none h(3) e by metis
    then show ?thesis using True lt d(9) e by (simp add: left_bucket_def)
  next
    case False
    then have "nat (q mod N) \<noteq> nat (cur_bindex b)" using window_inj[of f q N "cur_priority b"] q d(1,9,11-13) by auto
    then show ?thesis using d(17,18)[OF q] False by (simp add: left_bucket_def)
  qed
qed (use ring_coreD[OF r] in \<open>auto simp: left_bucket_def\<close>)

lemma next_core:
  assumes r: "ring_core N n b f B ins 0" and e: "B (cur_priority b) = []" and m: "cur_priority b \<noteq> cur_max_priority b"
  shows "ring_core N n (next_bucket b) f B ins 0"
proof (rule ring_coreI)
  note d = ring_coreD[OF r]
  show "cur_bindex (next_bucket b) = cur_priority (next_bucket b) mod N" using d(3,9) by (simp add: next_bucket_def mod_add_left_eq)
  show "B q = []" if "q < cur_priority (next_bucket b) \<or> cur_max_priority (next_bucket b) < q" for q
    using that d(15,16)[of q] e by (cases "q = cur_priority b") (auto simp: next_bucket_def)
  show "lastelementindexV (next_bucket b) ! nat (q mod N) < int (ins q) \<and>
      bucket_holds n (sbucketV (next_bucket b) ! nat (q mod N)) (lastelementindexV (next_bucket b) ! nat (q mod N)) (if q = cur_priority (next_bucket b) then 0 else 0) (B q)"
    if "f \<le> q" "q < f + N" for q using d(17,18)[OF that] by (simp add: next_bucket_def)
qed (use ring_coreD[OF r] m in \<open>auto simp: next_bucket_def\<close>)

lemma recompute_leave:
  assumes r: "ring_core N n b f B ins c" and e: "B (cur_priority b) = []" and i: "cur_index b = c - 1 \<or> (cur_index b = 0 \<and> c = 0)"
  shows "recompute_body (x, b) = (if cur_priority b = cur_max_priority b then Inr (Break (None, (left_bucket b)\<lparr>cur_index := - 1\<rparr>))
     else Inr (Continue (None, next_bucket (left_bucket b))))"
proof -
  note d = ring_coreD[OF r] and h = ring_bucket[OF r]
  have c: "cursor b = Inr None" using cursor_dead[OF r] e i by blast
  have l: "\<not> cur_index b < lastelementindexV b ! nat (cur_bindex b)" using h(3) e i by (auto simp: bucket_holds_def)
  have "arr_set (lastelementindexV b) (cur_bindex b) (- 1) = Inr ((lastelementindexV b)[nat (cur_bindex b) := - 1])"
    using d(1,6,9) bidx[of N "cur_priority b"] by simp
  then show ?thesis using c l h(2) d(1,3) by (simp add: recompute_body_def Let_def left_bucket_def next_bucket_def)
qed

lemma recompute_finds:
  assumes "ring_core N n b f B ins c" "B (cur_max_priority b) \<noteq> []" "cur_index b = c \<or> cur_index b = c - 1" "B (cur_priority b) = [] \<longrightarrow> cur_index b = c - 1 \<or> c = 0"
    "c \<noteq> 0 \<longrightarrow> cur_priority b = f"
  shows "\<exists>x xs b'. run_loop recompute_body (e, b) = Some (Inr (Some x, b')) \<and> ring_core N n b' f B ins (cur_index b') \<and>
    B (cur_priority b') = x # xs \<and> 0 \<le> cur_index b' \<and> (cur_index b' \<noteq> 0 \<longrightarrow> cur_priority b' = f) \<and> cur_max_priority b' = cur_max_priority b"
  using assms
proof (induction "nat (cur_max_priority b - cur_priority b)" arbitrary: b c e rule: less_induct)
  case less
  note r = less.prems(1)
  note d = ring_coreD[OF r] and h = ring_bucket[OF r]
  show ?case
  proof (cases "B (cur_priority b)")
    case (Cons x xs)
    have c: "0 \<le> c" "c \<le> lastelementindexV b ! nat (cur_bindex b)" using h(3) Cons by (auto simp: bucket_holds_def)
    have found: "run_loop recompute_body (e', b') = Some (Inr (Some x, b')) \<and> ring_core N n b' f B ins (cur_index b') \<and> B (cur_priority b') = x # xs \<and>
        0 \<le> cur_index b' \<and> (cur_index b' \<noteq> 0 \<longrightarrow> cur_priority b' = f) \<and> cur_max_priority b' = cur_max_priority b"
      if "b' = b\<lparr>cur_index := c\<rparr>" for e' b'
    proof -
      have r': "ring_core N n b' f B ins c" using r that by (simp add: ring_core_def)
      have "cursor b' = Inr (Some x)" by (rule cursor_live[OF r']) (use that Cons in auto)
      then have "recompute_body (e', b') = Inr (Break (Some x, b'))" by (simp add: recompute_body_def)
      then show ?thesis using run_loop_unfold(2) r' that Cons c(1) less.prems(5) by fastforce
    qed
    show ?thesis
    proof (cases "cur_index b = c")
      case True
      then show ?thesis using found[of b e] by auto
    next
      case False
      then have i: "cur_index b = c - 1" using less.prems(3) by blast
      have "cursor b = Inr None" by (rule cursor_dead[OF r]) (use i in simp)
      then have "recompute_body (e, b) = Inr (Continue (None, b\<lparr>cur_index := c\<rparr>))" using h(2) c(2) i by (simp add: recompute_body_def)
      then show ?thesis using found[of "b\<lparr>cur_index := c\<rparr>" None] run_loop_unfold(3) by fastforce
    qed
  next
    case Nil
    then have m: "cur_priority b \<noteq> cur_max_priority b" using less.prems(2) by auto
    let ?b = "next_bucket (left_bucket b)"
    have body: "recompute_body (e, b) = Inr (Continue (None, ?b))" using recompute_leave[OF r Nil] less.prems(3,4) Nil m by auto
    have s: "cur_priority (left_bucket b) = cur_priority b" "cur_max_priority (left_bucket b) = cur_max_priority b"
      "cur_priority ?b = cur_priority b + 1" "cur_max_priority ?b = cur_max_priority b" "cur_index ?b = 0"
      by (simp_all add: left_bucket_def next_bucket_def)
    have r': "ring_core N n ?b f B ins 0" by (rule next_core[OF left_core[OF r Nil]]) (use s Nil m in auto)
    have "\<exists>x xs b'. run_loop recompute_body (None, ?b) = Some (Inr (Some x, b')) \<and> ring_core N n b' f B ins (cur_index b') \<and>
        B (cur_priority b') = x # xs \<and> 0 \<le> cur_index b' \<and> (cur_index b' \<noteq> 0 \<longrightarrow> cur_priority b' = f) \<and> cur_max_priority b' = cur_max_priority ?b"
      by (rule less.hyps[OF _ r']) (use s m d(12) less.prems(2) in auto)
    then show ?thesis using run_loop_unfold(3)[where body = recompute_body and s = "(e, b)", OF body] s by auto
  qed
qed

section \<open>The operations\<close>

text \<open>The state between two calls.\<close>

definition ring_ok :: "int \<Rightarrow> int \<Rightarrow> int \<times> (int \<Rightarrow> 'v list) \<times> (int \<Rightarrow> nat) \<Rightarrow> 'v CSlidingBucket \<Rightarrow> bool" where
  "ring_ok N n = (\<lambda>(f, B, ins) b. ring_core N n b f B ins (max 0 (cur_index b)) \<and> - 1 \<le> cur_index b \<and>
     (cur_index b \<noteq> 0 \<longrightarrow> cur_priority b = f) \<and> (cur_index b = - 1 \<longleftrightarrow> B (cur_priority b) = []) \<and>
     ((cur_index b = - 1 \<and> cur_max_priority b = cur_priority b) \<or> B (cur_max_priority b) \<noteq> []))"

lemma stable_empty:
  assumes s: "ring_ok N n (f, B, ins) b"
  shows "sliding_empty b \<longleftrightarrow> (\<forall>p. B p = [])"
proof
  assume e: "sliding_empty b"
  show "\<forall>p. B p = []"
  proof
    fix p
    have "ring_core N n b f B ins (max 0 (cur_index b))" using s by (simp add: ring_ok_def)
    from ring_coreD(15,16)[OF this, of p] show "B p = []" using e s by (cases p "cur_priority b" rule: linorder_cases) (auto simp: sliding_empty_def ring_ok_def)
  qed
qed (use s in \<open>auto simp: ring_ok_def sliding_empty_def\<close>)

lemma current_ok:
  assumes s: "ring_ok N n (f, B, ins) b" and ne: "B p0 \<noteq> []"
  shows "\<exists>x xs b'. current_element b = Inr (Some x, b') \<and> ring_ok N n (f, B, ins) b' \<and> B (cur_priority b') = x # xs \<and> 0 \<le> cur_index b'"
proof -
  have r: "ring_core N n b f B ins (max 0 (cur_index b))" and i: "- 1 \<le> cur_index b" using s by (simp_all add: ring_ok_def)
  have notempty: "\<not> sliding_empty b" using stable_empty[OF s] ne by blast
  then have top: "B (cur_max_priority b) \<noteq> []" using s by (auto simp: ring_ok_def sliding_empty_def)
  show ?thesis
  proof (cases "cur_index b = - 1")
    case True
    then have c: "cursor b = Inr None" by (simp add: cursor_def)
    obtain x xs b' where b': "run_loop recompute_body (None, b) = Some (Inr (Some x, b'))" "ring_core N n b' f B ins (cur_index b')"
      "B (cur_priority b') = x # xs" "0 \<le> cur_index b'" "cur_index b' \<noteq> 0 \<longrightarrow> cur_priority b' = f" "cur_max_priority b' = cur_max_priority b"
      using recompute_finds[OF r top, of None] True by auto
    have "ring_ok N n (f, B, ins) b'" using b'(2-6) top by (simp add: ring_ok_def max_def)
    then show ?thesis using c b' notempty by (auto simp: current_element_def recomputeandreturnmin_def)
  next
    case False
    then obtain x xs where x: "B (cur_priority b) = x # xs" using s by (cases "B (cur_priority b)") (auto simp: ring_ok_def)
    have "cursor b = Inr (Some x)" by (rule cursor_live[OF r x]) (use False i in auto)
    then show ?thesis using s x False i by (auto simp: current_element_def)
  qed
qed

text \<open>Taking the element under the cursor moves the window to its priority.\<close>

lemma erase_ok:
  assumes r: "ring_core N n b f B ins (cur_index b)" and x: "B (cur_priority b) = x # xs"
  shows "\<exists>b'. erase_cursor b = Inr b' \<and> cur_index b' = cur_index b \<and> cur_priority b' = cur_priority b \<and> cur_max_priority b' = cur_max_priority b \<and>
    ring_core N n (b'\<lparr>first_bindex := cur_bindex b', first_prio := cur_priority b'\<rparr>) (cur_priority b) (B(cur_priority b := xs)) ins (cur_index b + 1)"
proof -
  note d = ring_coreD[OF r] and h = ring_bucket[OF r]
  let ?k = "cur_priority b"
  obtain a a' where a: "sbucketV b ! nat (cur_bindex b) = Some a" "arr_set a (cur_index b) None = Inr a'"
    "bucket_holds n (Some a') (lastelementindexV b ! nat (cur_bindex b)) (cur_index b + 1) xs"
    using bucket_holds_take[of n _ _ "cur_index b" x xs] h(3) x by metis
  define b' where "b' = b\<lparr>sbucketV := (sbucketV b)[nat (cur_bindex b) := Some a']\<rparr>"
  have lt: "nat (cur_bindex b) < length (sbucketV b)" "0 \<le> cur_bindex b" "cur_bindex b < N" using bidx[OF d(1), of ?k] d(5,9) by linarith+
  have run: "erase_cursor b = Inr b'" using h(1) a(1,2) lt d(5) by (simp add: erase_cursor_def b'_def)
  have "ring_core N n (b'\<lparr>first_bindex := cur_bindex b', first_prio := cur_priority b'\<rparr>) ?k (B(?k := xs)) ins (cur_index b + 1)"
  proof (rule ring_coreI)
    fix q assume q: "?k \<le> q" "q < ?k + N"
    let ?b = "b'\<lparr>first_bindex := cur_bindex b', first_prio := cur_priority b'\<rparr>"
    show "lastelementindexV ?b ! nat (q mod N) < int (ins q) \<and> bucket_holds n (sbucketV ?b ! nat (q mod N)) (lastelementindexV ?b ! nat (q mod N))
        (if q = cur_priority ?b then cur_index b + 1 else 0) ((B(?k := xs)) q)"
    proof (cases "q = ?k")
      case True
      then show ?thesis using a(3) lt d(9,11-13) d(17)[of ?k] by (simp add: b'_def)
    next
      case other: False
      show ?thesis
      proof (cases "q < f + N")
        case True
        then have "nat (q mod N) \<noteq> nat (cur_bindex b)" using window_inj[of f q N ?k] q d(1,9,11-13) other by auto
        then show ?thesis using d(17,18)[of q] True other q d(11) by (simp add: b'_def)
      next
        case False
        then have w: "f \<le> q - N" "q - N < f + N" "q - N < ?k" "(q - N) mod N = q mod N" using q d(11-13) by auto
        have "B (q - N) = []" "B q = []" using d(15)[of "q - N"] d(16)[of q] w(3) False d(13) by auto
        then have "bucket_holds n (sbucketV b ! nat (q mod N)) (lastelementindexV b ! nat (q mod N)) 0 (B q)" using d(18)[of "q - N"] w by simp
        moreover have "lastelementindexV b ! nat (q mod N) = - 1" using calculation \<open>B q = []\<close> by (simp add: bucket_holds_def)
        moreover have "nat (q mod N) \<noteq> nat (cur_bindex b)" using window_inj[of f "q - N" N ?k] w d(1,9,11-13) by auto
        ultimately show ?thesis using other by (simp add: b'_def)
      qed
    qed
  qed (use d in \<open>auto simp: b'_def\<close>)
  then show ?thesis using run by (auto simp: b'_def)
qed

lemma pop_ok:
  assumes s: "ring_ok N n (f, B, ins) b" and ne: "B p0 \<noteq> []"
  shows "\<exists>p x xs b'. sliding_popminelement b = Inr (Some x, b') \<and> B p = x # xs \<and> (\<forall>q < p. B q = []) \<and> ring_ok N n (p, B(p := xs), ins) b'"
proof -
  obtain x xs b1 where b1: "current_element b = Inr (Some x, b1)" "ring_ok N n (f, B, ins) b1" "B (cur_priority b1) = x # xs" "0 \<le> cur_index b1"
    using current_ok[OF s ne] by blast
  let ?k = "cur_priority b1"
  let ?B = "B(?k := xs)"
  have r1: "ring_core N n b1 f B ins (cur_index b1)" using b1(2,4) by (simp add: ring_ok_def max_def)
  note d = ring_coreD[OF r1]
  obtain b2 where b2: "erase_cursor b1 = Inr b2" "cur_index b2 = cur_index b1" "cur_priority b2 = ?k" "cur_max_priority b2 = cur_max_priority b1"
    "ring_core N n (b2\<lparr>first_bindex := cur_bindex b2, first_prio := cur_priority b2\<rparr>) ?k ?B ins (cur_index b1 + 1)"
    using erase_ok[OF r1 b1(3)] by blast
  let ?b = "b2\<lparr>first_bindex := cur_bindex b2, first_prio := cur_priority b2\<rparr>"
  have low: "\<forall>q < ?k. B q = []" using d(15) by blast
  have top: "B (cur_max_priority b1) \<noteq> []" using b1(2,4) by (auto simp: ring_ok_def)
  have "\<exists>e b'. recomputeandreturnmin ?b = Inr (e, b') \<and> ring_ok N n (?k, ?B, ins) b'"
  proof (cases "?B (cur_max_priority b1) = []")
    case True
    then have m: "cur_max_priority b1 = ?k" "xs = []" using top by (auto split: if_splits)
    have "recompute_body (None, ?b) = Inr (Break (None, (left_bucket ?b)\<lparr>cur_index := - 1\<rparr>))"
      using recompute_leave[OF b2(5), of None] b2(2-4) m by simp
    then have "run_loop recompute_body (None, ?b) = Some (Inr (None, (left_bucket ?b)\<lparr>cur_index := - 1\<rparr>))" by (rule run_loop_unfold(2))
    moreover have "ring_core N n (left_bucket ?b) ?k ?B ins 0" by (rule left_core[OF b2(5)]) (use b2(3) m in simp)
    then have "ring_ok N n (?k, ?B, ins) ((left_bucket ?b)\<lparr>cur_index := - 1\<rparr>)"
      using m b2(3,4) by (simp add: ring_ok_def left_bucket_fields ring_core_index)
    ultimately show ?thesis using b1(4) b2(2) by (auto simp: recomputeandreturnmin_def sliding_empty_def)
  next
    case False
    obtain y ys b' where b': "run_loop recompute_body (None, ?b) = Some (Inr (Some y, b'))" "ring_core N n b' ?k ?B ins (cur_index b')"
      "?B (cur_priority b') = y # ys" "0 \<le> cur_index b'" "cur_index b' \<noteq> 0 \<longrightarrow> cur_priority b' = ?k" "cur_max_priority b' = cur_max_priority b1"
      using recompute_finds[OF b2(5), of None] False b2(2-4) b1(4) by auto
    have "ring_ok N n (?k, ?B, ins) b'" using b'(2-6) False by (simp add: ring_ok_def max_def del: fun_upd_apply)
    then show ?thesis using b'(1) b1(4) b2(2) by (auto simp: recomputeandreturnmin_def sliding_empty_def)
  qed
  then obtain e b' where b': "recomputeandreturnmin ?b = Inr (e, b')" "ring_ok N n (?k, ?B, ins) b'" by blast
  have "\<not> sliding_empty b" using stable_empty[OF s] ne by blast
  then have "sliding_popminelement b = Inr (Some x, b')" using b1(1) b2(1) b'(1) by (simp add: sliding_popminelement_def)
  then show ?thesis using b1(3) low b'(2) by blast
qed

lemma put_last_ok:
  assumes r: "ring_core N n b f B ins c" and p: "f \<le> p" "p < f + N"
  shows "(let i = nat (p mod N); l = lastelementindexV b ! i in
    if l + 1 = n then put_last s (p mod N) b = Inl HeapError
    else \<exists>a. put_last s (p mod N) b = Inr (b\<lparr>lastelementindexV := (lastelementindexV b)[i := l + 1], sbucketV := (sbucketV b)[i := Some a]\<rparr>) \<and>
      bucket_holds n (Some a) (l + 1) (if p = cur_priority b then c else 0) (B p @ [s]))"
proof -
  note d = ring_coreD[OF r]
  define i l where "i = nat (p mod N)" and "l = lastelementindexV b ! i"
  have idx: "0 \<le> p mod N" "i < length (sbucketV b)" "i < length (lastelementindexV b)" "p mod N < N" using bidx[OF d(1), of p] d(5,6) i_def by linarith+
  have h: "bucket_holds n (sbucketV b ! i) l (if p = cur_priority b then c else 0) (B p)" using d(18)[OF p] by (simp add: i_def l_def)
  have get: "arr_get (lastelementindexV b) (p mod N) = Inr l" "arr_get (sbucketV b) (p mod N) = Inr (sbucketV b ! i)"
    "arr_set (lastelementindexV b) (p mod N) (l + 1) = Inr ((lastelementindexV b)[i := l + 1])"
    using idx d(5,6) by (simp_all add: i_def l_def)
  have put: "arr_set (sbucketV b) (p mod N) v = Inr ((sbucketV b)[i := v])" for v using idx d(5) by (simp add: i_def)
  show ?thesis
  proof (cases "l + 1 = n")
    case True
    then show ?thesis using get d(4) by (simp add: put_last_def i_def[symmetric] l_def[symmetric])
  next
    case False
    then have lt: "l + 1 < n" "0 < n" using h by (auto simp: bucket_holds_def)
    have last: "(if p = cur_priority b then c else 0) \<le> l + 1" using h by (auto simp: bucket_holds_def)
    define a where "a = (case sbucketV b ! i of None \<Rightarrow> replicate (nat n) None | Some a \<Rightarrow> a)"
    have "bucket_holds n (Some a) l (if p = cur_priority b then c else 0) (B p)"
      using h bucket_holds_new[OF lt(2)] by (auto simp: a_def split: option.splits)
    from bucket_holds_add[OF this lt(1), of s] obtain a' where a': "arr_set a (l + 1) (Some s) = Inr a'"
      "bucket_holds n (Some a') (l + 1) (if p = cur_priority b then c else 0) (B p @ [s])" by blast
    have "put_last s (p mod N) b = Inr (b\<lparr>lastelementindexV := (lastelementindexV b)[i := l + 1], sbucketV := (sbucketV b)[i := Some a']\<rparr>)"
    proof (cases "sbucketV b ! i")
      case None
      have "arr_get ((sbucketV b)[i := v]) (p mod N) = Inr v" "arr_set ((sbucketV b)[i := v]) (p mod N) v' = Inr ((sbucketV b)[i := v'])" for v v'
        using idx d(5) by (simp_all add: i_def)
      then show ?thesis using None False get put a'(1) lt d(2,4) by (simp add: put_last_def createbucket_def a_def)
    next
      case (Some x)
      then show ?thesis using False get put a'(1) d(4) by (simp add: put_last_def a_def)
    qed
    then show ?thesis using False a'(2) by (auto simp: i_def[symmetric] l_def[symmetric])
  qed
qed

lemma sliding_insert_ok:
  assumes s: "ring_ok N n (f, B, ins) b" and p: "0 \<le> p" "p \<le> INT_MAX - N"
  shows "if p < f \<or> f + N \<le> p then sliding_insert s p b = Inl HeapError
    else (n \<le> int (ins p) \<and> sliding_insert s p b = Inl HeapError) \<or>
      (\<exists>b'. sliding_insert s p b = Inr b' \<and> ring_ok N n (f, B(p := B p @ [s]), ins(p := Suc (ins p))) b')"
proof -
  let ?c = "max 0 (cur_index b)"
  have r: "ring_core N n b f B ins ?c" using s by (simp add: ring_ok_def)
  note d = ring_coreD[OF r]
  let ?k = "cur_priority b"
  have adds: "num_add INT_MAX p (- first_prio b) = Inr (p - f)" "num_add INT_MAX (first_bindex b) (p - f) = Inr (f mod N + (p - f))"
  proof -
    have "0 \<le> f mod N" "f mod N < N" using bidx[OF d(1)] by blast+
    then have "- INT_MAX - 1 \<le> f mod N + (p - f)" "f mod N + (p - f) \<le> INT_MAX" "- INT_MAX - 1 \<le> p - f" "p - f \<le> INT_MAX"
      using p d(1,10-14) by linarith+
    then show "num_add INT_MAX p (- first_prio b) = Inr (p - f)" "num_add INT_MAX (first_bindex b) (p - f) = Inr (f mod N + (p - f))"
      using d(7,8) by (auto simp: num_add_def)
  qed
  have i: "(f mod N + (p - f)) mod N = p mod N" by (simp add: mod_add_left_eq)
  show ?thesis
  proof (cases "p < f \<or> f + N \<le> p")
    case True
    then show ?thesis using adds d(1,3) by (auto simp: sliding_insert_def Let_def)
  next
    case False
    then have w: "f \<le> p" "p < f + N" by auto
    define j l where "j = nat (p mod N)" and "l = lastelementindexV b ! j"
    have idx: "j < length (sbucketV b)" "j < length (lastelementindexV b)" using bidx[OF d(1), of p] d(5,6) j_def by linarith+
    have run: "sliding_insert s p b = ebind (put_last s (p mod N) b) (\<lambda>b. Inr (after_insert p (p mod N) b))"
      using adds i d(1,3) w by (simp add: sliding_insert_def Let_def)
    show ?thesis
    proof (cases "l + 1 = n")
      case True
      then have "sliding_insert s p b = Inl HeapError" using put_last_ok[OF r w, of s] run by (simp add: j_def l_def Let_def)
      moreover have "n \<le> int (ins p)" using d(17)[OF w] True by (simp add: j_def l_def)
      ultimately show ?thesis using False by simp
    next
      case room: False
      then obtain a where a: "put_last s (p mod N) b = Inr (b\<lparr>lastelementindexV := (lastelementindexV b)[j := l + 1], sbucketV := (sbucketV b)[j := Some a]\<rparr>)"
        "bucket_holds n (Some a) (l + 1) (if p = ?k then ?c else 0) (B p @ [s])"
        using put_last_ok[OF r w, of s] by (auto simp: j_def l_def Let_def)
      define at_k where "at_k = (p = ?k \<and> cur_index b = - 1)"
      define b' where "b' = b\<lparr>lastelementindexV := (lastelementindexV b)[j := l + 1], sbucketV := (sbucketV b)[j := Some a],
        cur_max_priority := max (cur_max_priority b) p, cur_priority := min ?k p, cur_bindex := (if p < ?k then p mod N else cur_bindex b),
        cur_index := (if at_k then 0 else cur_index b)\<rparr>"
      have low: "cur_index b = 0" if "p < ?k" using s that w(1) by (auto simp: ring_ok_def)
      have same: "cur_bindex b = p mod N \<longleftrightarrow> p = ?k"
      proof
        assume "cur_bindex b = p mod N"
        then have "nat (p mod N) = nat (?k mod N)" using d(9) by simp
        from window_inj[OF w d(11) _ this d(1)] show "p = ?k" using d(12,13) by simp
      qed (use d(9) in simp)
      let ?m = "b\<lparr>lastelementindexV := (lastelementindexV b)[j := l + 1], sbucketV := (sbucketV b)[j := Some a]\<rparr>"
      have "after_insert p (p mod N) ?m = b'"
      proof (cases p ?k rule: linorder_cases)
        case less
        then show ?thesis using low d(12) by (simp add: after_insert_def b'_def at_k_def)
      next
        case equal
        then show ?thesis using same d(12) by (simp add: after_insert_def b'_def at_k_def)
      next
        case greater
        then show ?thesis using same by (simp add: after_insert_def b'_def at_k_def max_def)
      qed
      then have "sliding_insert s p b = Inr b'" using run a(1) by simp
      moreover have "ring_core N n b' f (B(p := B p @ [s])) (ins(p := Suc (ins p))) (max 0 (cur_index b'))"
      proof (rule ring_coreI)
        fix q assume q: "f \<le> q" "q < f + N"
        show "lastelementindexV b' ! nat (q mod N) < int ((ins(p := Suc (ins p))) q) \<and> bucket_holds n (sbucketV b' ! nat (q mod N))
            (lastelementindexV b' ! nat (q mod N)) (if q = cur_priority b' then max 0 (cur_index b') else 0) ((B(p := B p @ [s])) q)"
        proof (cases "q = p")
          case True
          have "l < int (ins p)" using d(17)[OF w] by (simp add: j_def l_def)
          moreover have "(if p = cur_priority b' then max 0 (cur_index b') else 0) = (if p = ?k then ?c else 0)"
            using low by (auto simp: b'_def at_k_def min_def)
          ultimately show ?thesis using True a(2) idx by (simp add: b'_def j_def[symmetric])
        next
          case False
          then have "nat (q mod N) \<noteq> j" using window_inj[of f q N p] q w d(1) j_def by auto
          moreover have "(if q = cur_priority b' then max 0 (cur_index b') else 0) = (if q = ?k then ?c else 0)"
            using low False by (auto simp: b'_def at_k_def min_def)
          ultimately show ?thesis using d(17,18)[OF q] False by (simp add: b'_def)
        qed
      next
        show "(B(p := B p @ [s])) q = []" if "q < cur_priority b' \<or> cur_max_priority b' < q" for q
          using that d(15,16)[of q] by (auto simp: b'_def)
      qed (use d w p(2) in \<open>auto simp: b'_def\<close>)
      moreover have "ring_ok N n (f, B(p := B p @ [s]), ins(p := Suc (ins p))) b'"
      proof -
        let ?B = "B(p := B p @ [s])"
        have fl: "cur_priority b' = min ?k p" "cur_max_priority b' = max (cur_max_priority b) p" "cur_index b' = (if at_k then 0 else cur_index b)"
          by (simp_all add: b'_def)
        have st: "- 1 \<le> cur_index b" "cur_index b \<noteq> 0 \<longrightarrow> ?k = f" "cur_index b = - 1 \<longleftrightarrow> B ?k = []"
          "(cur_index b = - 1 \<and> cur_max_priority b = ?k) \<or> B (cur_max_priority b) \<noteq> []" using s by (auto simp: ring_ok_def)
        have "cur_index b' \<noteq> 0 \<longrightarrow> cur_priority b' = f" using st(2) w(1) by (simp add: fl)
        moreover have "cur_index b' = - 1 \<longleftrightarrow> ?B (cur_priority b') = []"
        proof (cases p ?k rule: linorder_cases)
          case less
          then show ?thesis using low by (simp add: fl at_k_def)
        next
          case equal
          then show ?thesis by (simp add: fl at_k_def)
        next
          case greater
          then show ?thesis using st(3) by (simp add: fl at_k_def)
        qed
        moreover have "?B (cur_max_priority b') \<noteq> []"
        proof (cases "p < cur_max_priority b")
          case True
          then show ?thesis using st(4) low by (auto simp: fl max_def)
        next
          case False
          then show ?thesis by (simp add: fl)
        qed
        ultimately show ?thesis using st(1) \<open>ring_core N n b' f ?B (ins(p := Suc (ins p))) (max 0 (cur_index b'))\<close>
          by (simp add: ring_ok_def fl(3))
      qed
      ultimately show ?thesis using False by auto
    qed
  qed
qed

lemma efold_clear: "\<lbrakk>\<forall>j \<in> set js. 0 \<le> j \<and> j < int (length a)\<rbrakk> \<Longrightarrow> \<exists>a'. efold (\<lambda>j a. arr_set a j None) js a = Inr a' \<and> length a' = length a \<and>
  (\<forall>i < length a. a' ! i = (if int i \<in> set js then None else a ! i))"
proof (induction js arbitrary: a)
  case (Cons j js)
  from Cons.prems have j: "arr_set a j None = Inr (a[nat j := None])" "0 \<le> j" by auto
  obtain a' where "efold (\<lambda>j a. arr_set a j None) js (a[nat j := None]) = Inr a'" "length a' = length a"
    "\<forall>i < length a. a' ! i = (if int i \<in> set js then None else a[nat j := None] ! i)"
    using Cons.IH[of "a[nat j := None]"] Cons.prems by auto
  then show ?case using j by (auto simp: nth_list_update nat_eq_iff)
qed simp

definition blank :: "int \<Rightarrow> 'v option list option \<Rightarrow> bool" where
  "blank n v \<longleftrightarrow> (case v of None \<Rightarrow> True | Some a \<Rightarrow> 0 < n \<and> int (length a) = n \<and> (\<forall>i < length a. a ! i = None))"

definition sized :: "int \<Rightarrow> 'v option list option \<Rightarrow> bool" where
  "sized n v \<longleftrightarrow> (case v of None \<Rightarrow> True | Some a \<Rightarrow> 0 < n \<and> int (length a) = n)"

lemma clear_bucket_ok:
  assumes "0 \<le> i" "i < int (length (sbucketV b))" "length (lastelementindexV b) = length (sbucketV b)" "sized (bucketsize b) (sbucketV b ! nat i)"
  shows "\<exists>v. clear_bucket i b = Inr (b\<lparr>lastelementindexV := (lastelementindexV b)[nat i := - 1], sbucketV := (sbucketV b)[nat i := v]\<rparr>) \<and> blank (bucketsize b) v"
proof (cases "sbucketV b ! nat i")
  case None
  have "(sbucketV b)[nat i := None] = sbucketV b" using None by (metis list_update_id)
  then show ?thesis using assms None by (intro exI[of _ None]) (simp add: clear_bucket_def blank_def)
next
  case (Some a)
  then have n: "0 < bucketsize b" "int (length a) = bucketsize b" using assms(4) by (auto simp: sized_def)
  obtain a' where "efold (\<lambda>j a. arr_set a j None) [0..bucketsize b - 1] a = Inr a'" "length a' = length a"
    "\<forall>i < length a. a' ! i = (if int i \<in> set [0..bucketsize b - 1] then None else a ! i)"
    using efold_clear[of "[0..bucketsize b - 1]" a] n by auto
  then show ?thesis using Some assms n by (intro exI[of _ "Some a'"]) (auto simp: clear_bucket_def blank_def)
qed

lemma clear_buckets_ok:
  assumes "length (lastelementindexV b) = length (sbucketV b)" "\<forall>i < length (sbucketV b). sized n (sbucketV b ! i)" "bucketsize b = n"
    and "m \<le> length (sbucketV b)"
  shows "\<exists>vs ls. efold clear_bucket [0..int m - 1] b = Inr (b\<lparr>lastelementindexV := ls, sbucketV := vs\<rparr>) \<and> length vs = length (sbucketV b) \<and>
    length ls = length (sbucketV b) \<and> (\<forall>i < length vs. sized n (vs ! i)) \<and> (\<forall>i < m. blank n (vs ! i) \<and> ls ! i = - 1)"
  using assms(4)
proof (induction m)
  case 0
  then show ?case using assms by (intro exI[of _ "sbucketV b"] exI[of _ "lastelementindexV b"]) simp
next
  case (Suc m)
  then obtain vs ls where e: "efold clear_bucket [0..int m - 1] b = Inr (b\<lparr>lastelementindexV := ls, sbucketV := vs\<rparr>)" "length vs = length (sbucketV b)"
    "length ls = length (sbucketV b)" "\<forall>i < length vs. sized n (vs ! i)" "\<forall>i < m. blank n (vs ! i) \<and> ls ! i = - 1" by auto
  obtain v where v: "clear_bucket (int m) (b\<lparr>lastelementindexV := ls, sbucketV := vs\<rparr>) =
      Inr (b\<lparr>lastelementindexV := ls[m := - 1], sbucketV := vs[m := v]\<rparr>)" "blank n v"
    using clear_bucket_ok[of "int m" "b\<lparr>lastelementindexV := ls, sbucketV := vs\<rparr>"] e Suc.prems assms(3) by auto
  have "[0..int (Suc m) - 1] = [0..int m - 1] @ [int m]" by (simp add: upto_rec2)
  then have "efold clear_bucket [0..int (Suc m) - 1] b = Inr (b\<lparr>lastelementindexV := ls[m := - 1], sbucketV := vs[m := v]\<rparr>)"
    using e(1) v(1) by (simp only: efold_append) simp
  moreover have "sized n v" using v(2) by (auto simp: blank_def sized_def split: option.splits)
  ultimately show ?case using e(2-5) v(2) Suc.prems
    by (intro exI[of _ "vs[m := v]"] exI[of _ "ls[m := - 1]"]) (auto simp: nth_list_update less_Suc_eq)
qed

lemma blank_stable:
  assumes "0 < N" "0 \<le> n" "snumofbuckets b = N" "bucketsize b = n" "int (length (sbucketV b)) = N" "int (length (lastelementindexV b)) = N"
    and "first_prio b = 0" "first_bindex b = 0" "cur_bindex b = 0" "cur_priority b = 0" "cur_max_priority b = 0" "cur_index b = - 1"
    and "\<forall>i < length (sbucketV b). blank n (sbucketV b ! i) \<and> lastelementindexV b ! i = - 1"
  shows "ring_ok N n (0, \<lambda>p. [], \<lambda>p. 0) b"
proof -
  have "ring_core N n b 0 (\<lambda>p. []) (\<lambda>p. 0) 0"
  proof (rule ring_coreI)
    fix q :: int assume "0 \<le> q" "q < 0 + N"
    then have "nat (q mod N) < length (sbucketV b)" using bidx[OF assms(1), of q] assms(5) by linarith
    then have "blank n (sbucketV b ! nat (q mod N))" "lastelementindexV b ! nat (q mod N) = - 1" using assms(13) by auto
    then show "lastelementindexV b ! nat (q mod N) < int 0 \<and> bucket_holds n (sbucketV b ! nat (q mod N)) (lastelementindexV b ! nat (q mod N))
        (if q = cur_priority b then 0 else 0) []"
      using assms(2) by (auto simp: bucket_holds_def blank_def nat_less_iff split: option.splits)
  qed (use assms in \<open>auto simp: INT_MAX_def\<close>)
  then show ?thesis using assms(10-12) by (simp add: ring_ok_def)
qed

lemma sliding_new_ok:
  assumes "0 < N" "0 \<le> n"
  shows "\<exists>b. sliding_new N n = Inr b \<and> ring_ok N n (0, \<lambda>p. [], \<lambda>p. 0) b"
  using assms by (auto simp: sliding_new_def blank_def intro!: blank_stable)

lemma sliding_reset_ok:
  assumes s: "ring_ok N n (f, B, ins) b"
  shows "\<exists>b'. sliding_reset b = Inr b' \<and> ring_ok N n (0, \<lambda>p. [], \<lambda>p. 0) b'"
proof -
  have r: "ring_core N n b f B ins (max 0 (cur_index b))" using s by (simp add: ring_ok_def)
  note d = ring_coreD[OF r]
  have sz: "sized n (sbucketV b ! i)" if "i < length (sbucketV b)" for i
  proof -
    define q where "q = f + (int i - f) mod N"
    have "(f + (int i - f) mod N) mod N = int i mod N" by (simp add: mod_add_right_eq)
    then have "f \<le> q" "q < f + N" "nat (q mod N) = i" using bidx[OF d(1), of "int i - f"] that d(5) by (auto simp: q_def)
    then show ?thesis using d(18)[of q] by (auto simp: bucket_holds_def sized_def split: option.splits)
  qed
  let ?b = "b\<lparr>cur_bindex := 0, first_bindex := 0, cur_index := - 1, cur_max_priority := 0, cur_priority := 0, first_prio := 0\<rparr>"
  have "[0..snumofbuckets b - 1] = [0..int (length (sbucketV ?b)) - 1]" using d(3,5) by simp
  then obtain vs ls where "sliding_reset b = Inr (?b\<lparr>lastelementindexV := ls, sbucketV := vs\<rparr>)" "length vs = length (sbucketV b)" "length ls = length (sbucketV b)"
    "\<forall>i < length vs. blank n (vs ! i) \<and> ls ! i = - 1"
    using clear_buckets_ok[of ?b n "length (sbucketV ?b)"] sz d(4,5,6) by (auto simp: sliding_reset_def)
  then show ?thesis using d(1-6) by (auto intro!: blank_stable)
qed

section \<open>The contract\<close>

datatype 'v sliding_op = SInsert 'v int | SPop | SGetMin | SMinKey | SEmpty | SReset

datatype 'v sliding_out = SDone | SState "'v option" | SInt int | SBool bool

fun sliding_step :: "'v sliding_op \<Rightarrow> 'v CSlidingBucket \<Rightarrow> ('v sliding_out \<times> 'v CSlidingBucket) result" where
  "sliding_step (SInsert s p) b = ebind (sliding_insert s p b) (\<lambda>b. Inr (SDone, b))"
| "sliding_step SPop b = ebind (sliding_popminelement b) (\<lambda>(s, b). Inr (SState s, b))"
| "sliding_step SGetMin b = ebind (sliding_getminelement b) (\<lambda>(s, b). Inr (SState s, b))"
| "sliding_step SMinKey b = Inr (SInt (sliding_getminkey b), b)"
| "sliding_step SEmpty b = Inr (SBool (sliding_empty b), b)"
| "sliding_step SReset b = ebind (sliding_reset b) (\<lambda>b. Inr (SDone, b))"

text \<open>
  The abstract state: the priority \<open>f\<close> of the last element taken, the elements of every priority in the order of their insertion, and the number of
  insertions for every priority since the last reset. An insertion fails outside the \<open>N\<close> priorities from \<open>f\<close>; within them it may fail only after \<open>n\<close>
  insertions for the priority.
\<close>

definition first_of :: "(int \<Rightarrow> 'v list) \<Rightarrow> int \<Rightarrow> 'v \<Rightarrow> 'v list \<Rightarrow> bool" where
  "first_of B p x xs \<longleftrightarrow> B p = x # xs \<and> (\<forall>q < p. B q = [])"

fun sliding_spec :: "int \<Rightarrow> int \<Rightarrow> ('v sliding_op, int \<times> (int \<Rightarrow> 'v list) \<times> (int \<Rightarrow> nat), 'v sliding_out) contract" where
  "sliding_spec N n (SInsert s p) (f, B, ins) = (if 0 \<le> p \<and> p \<le> INT_MAX - N then Some (\<lambda>r.
     if p < f \<or> f + N \<le> p then r = Inl HeapError
     else (n \<le> int (ins p) \<and> r = Inl HeapError) \<or> r = Inr (SDone, f, B(p := B p @ [s]), ins(p := Suc (ins p)))) else None)"
| "sliding_spec N n SPop (f, B, ins) = Some (\<lambda>r. if \<forall>p. B p = [] then r = Inr (SState None, f, B, ins)
     else \<exists>p x xs. first_of B p x xs \<and> r = Inr (SState (Some x), p, B(p := xs), ins))"
| "sliding_spec N n SGetMin (f, B, ins) = Some (\<lambda>r. if \<forall>p. B p = [] then r = Inr (SState None, f, B, ins)
     else \<exists>p x xs. first_of B p x xs \<and> r = Inr (SState (Some x), f, B, ins))"
| "sliding_spec N n SMinKey (f, B, ins) = Some (\<lambda>r. \<exists>k. f \<le> k \<and> (\<forall>q < k. B q = []) \<and> r = Inr (SInt k, f, B, ins))"
| "sliding_spec N n SEmpty (f, B, ins) = Some (\<lambda>r. r = Inr (SBool (\<forall>p. B p = []), f, B, ins))"
| "sliding_spec N n SReset (f, B, ins) = Some (\<lambda>r. r = Inr (SDone, 0, \<lambda>p. [], \<lambda>p. 0))"

lemma getmin_ok:
  assumes s: "ring_ok N n (f, B, ins) b" and ne: "B p0 \<noteq> []"
  shows "\<exists>p x xs b'. sliding_getminelement b = Inr (Some x, b') \<and> first_of B p x xs \<and> ring_ok N n (f, B, ins) b'"
proof -
  obtain x xs b' where b': "current_element b = Inr (Some x, b')" "ring_ok N n (f, B, ins) b'" "B (cur_priority b') = x # xs" "0 \<le> cur_index b'"
    using current_ok[OF s ne] by blast
  have "ring_core N n b' f B ins (max 0 (cur_index b'))" using b'(2) by (simp add: ring_ok_def)
  then have "first_of B (cur_priority b') x xs" using ring_coreD(15) b'(3) by (metis first_of_def)
  moreover have "\<not> sliding_empty b" using stable_empty[OF s] ne by blast
  ultimately show ?thesis using b'(1,2) by (auto simp: sliding_getminelement_def)
qed

lemma sliding_step_ref:
  assumes rel: "ring_ok N n a b" and P: "sliding_spec N n x a = Some P"
  shows "case sliding_step x b of Inl e \<Rightarrow> P (Inl e) | Inr (y, b') \<Rightarrow> \<exists>a'. P (Inr (y, a')) \<and> ring_ok N n a' b'"
proof -
  obtain f B ins where a: "a = (f, B, ins)" by (cases a)
  have ok: "ring_ok N n (f, B, ins) b" using rel a by simp
  have core: "ring_core N n b f B ins (max 0 (cur_index b))" using ok by (simp add: ring_ok_def)
  show ?thesis
  proof (cases x)
    case (SInsert s p)
    then have p: "0 \<le> p" "p \<le> INT_MAX - N" using P a by (auto split: if_splits)
    then have P': "P = (\<lambda>r. if p < f \<or> f + N \<le> p then r = Inl HeapError
      else (n \<le> int (ins p) \<and> r = Inl HeapError) \<or> r = Inr (SDone, f, B(p := B p @ [s]), ins(p := Suc (ins p))))" using P a SInsert by simp
    from sliding_insert_ok[OF ok p, of s] show ?thesis using SInsert by (auto simp: P' split: if_splits)
  next
    case SPop
    show ?thesis
    proof (cases "\<forall>p. B p = []")
      case True
      then show ?thesis using SPop P a ok stable_empty[OF ok] by (auto simp: sliding_popminelement_def)
    next
      case False
      then obtain p x xs b' where b': "sliding_popminelement b = Inr (Some x, b')" "B p = x # xs" "\<forall>q < p. B q = []" "ring_ok N n (p, B(p := xs), ins) b'"
        using pop_ok[OF ok] by blast
      then have "first_of B p x xs" by (simp add: first_of_def)
      then have "P (Inr (SState (Some x), p, B(p := xs), ins))" using SPop P a False by auto
      then show ?thesis using SPop b' by auto
    qed
  next
    case SGetMin
    show ?thesis
    proof (cases "\<forall>p. B p = []")
      case True
      then show ?thesis using SGetMin P a ok stable_empty[OF ok] by (auto simp: sliding_getminelement_def)
    next
      case False
      then obtain p x xs b' where b': "sliding_getminelement b = Inr (Some x, b')" "first_of B p x xs" "ring_ok N n (f, B, ins) b'"
        using getmin_ok[OF ok] by blast
      then have "P (Inr (SState (Some x), f, B, ins))" using SGetMin P a False by auto
      then show ?thesis using SGetMin b' by auto
    qed
  next
    case SMinKey
    have "f \<le> cur_priority b" "\<forall>q < cur_priority b. B q = []" using ring_coreD(11,15)[OF core] by auto
    then show ?thesis using SMinKey P a ok by (auto simp: sliding_getminkey_def)
  next
    case SEmpty
    then show ?thesis using P a ok stable_empty[OF ok] by auto
  next
    case SReset
    then show ?thesis using P a sliding_reset_ok[OF ok] by auto
  qed
qed

definition sliding_rel :: "int \<Rightarrow> int \<Rightarrow> nat \<Rightarrow> int \<times> (int \<Rightarrow> 'v list) \<times> (int \<Rightarrow> nat) \<Rightarrow> 'v CSlidingBucket \<Rightarrow> bool" where
  "sliding_rel N n k = ring_ok N n"

interpretation sq: op_refinement sliding_step "sliding_spec N n" "sliding_rel N n" "\<lambda>_. True"
  for N n by unfold_locales (unfold sliding_rel_def, rule sliding_step_ref)

text \<open>
  C30. A new sliding bucket queue keeps to its contract under every sequence of calls: the elements come out by priority and, within one, in the
  order of insertion; what is inserted must be no more than the number of buckets above the element taken last, which is what the code checks; a full bucket is
  reported only after as many insertions for its priority as it has places; emptiness is exact, and no access leaves its array, divides by zero, or fails to end.
\<close>

theorem CSlidingBucket_keeps_contract:
  assumes "0 < N" "0 \<le> n"
  shows "\<exists>b. sliding_new N n = Inr b \<and> allowed (sliding_spec N n) xs (0, \<lambda>p. [], \<lambda>p. 0) (run_ops sliding_step xs b)"
  using sliding_new_ok[OF assms] sq.run_ref[of N n xs] by (fastforce simp: sliding_rel_def)

theorem CSlidingBucket_keeps_contract_witness:
  "\<exists>b. sliding_new 4 2 = Inr b \<and> allowed (sliding_spec 4 2) [SInsert (7 :: int) 3, SInsert 8 1, SPop, SInsert 9 4, SGetMin, SReset]
     (0, \<lambda>p. [], \<lambda>p. 0) (run_ops sliding_step [SInsert 7 3, SInsert 8 1, SPop, SInsert 9 4, SGetMin, SReset] b)"
  using CSlidingBucket_keeps_contract[of 4 2 "[SInsert (7 :: int) 3, SInsert 8 1, SPop, SInsert 9 4, SGetMin, SReset]"] by simp

end
