(* ===== verification/Sbpl_List.thy ===== *)
theory Sbpl_List
  imports Op_Refinement
begin

text \<open>
  The doubly linked list \<open>CList\<close> of the SBPL planners (\<open>src/libsbpl/src/utils/list.h\<close>), which holds their inconsistent states. The
  nodes live in a memory that all lists share; a search state has one pointer to its node for each of two
  lists (\<open>listelem[2]\<close> of \<open>src/libsbpl/src/include/sbpl/planners/planner.h\<close>). A pointer is \<open>nat option\<close> with \<open>None\<close> as NULL,
  \<open>malloc\<close> gives an address that was never used, and a read or write of a freed node is an error.
\<close>

section \<open>Memory\<close>

record 'v listelement =
  liststate :: 'v
  prev :: "nat option"
  next_elem :: "nat option"

record 'v store =
  mem :: "nat \<Rightarrow> 'v listelement option"
  fresh :: nat
  listelem :: "'v \<Rightarrow> int \<Rightarrow> nat option"

record CList =
  firstelement :: "nat option"
  lastelement :: "nat option"
  list_size :: int

definition LISTSIZE :: int where
  "LISTSIZE = 5000000"

definition deref :: "nat option \<Rightarrow> 'v store \<Rightarrow> 'v listelement result" where
  "deref r st = (case r of None \<Rightarrow> Inl NullDeref | Some p \<Rightarrow> (case mem st p of None \<Rightarrow> Inl UninitRead | Some e \<Rightarrow> Inr e))"

definition set_prev :: "nat option \<Rightarrow> nat option \<Rightarrow> 'v store \<Rightarrow> 'v store result" where
  "set_prev r x st = ebind (deref r st) (\<lambda>e. Inr (st\<lparr>mem := (mem st)(the r \<mapsto> e\<lparr>prev := x\<rparr>)\<rparr>))"

definition set_next :: "nat option \<Rightarrow> nat option \<Rightarrow> 'v store \<Rightarrow> 'v store result" where
  "set_next r x st = ebind (deref r st) (\<lambda>e. Inr (st\<lparr>mem := (mem st)(the r \<mapsto> e\<lparr>next_elem := x\<rparr>)\<rparr>))"

definition free_elem :: "nat option \<Rightarrow> 'v store \<Rightarrow> 'v store result" where
  "free_elem r st = ebind (deref r st) (\<lambda>e. Inr (st\<lparr>mem := (mem st)(the r := None)\<rparr>))"

definition elem_of :: "'v \<Rightarrow> int \<Rightarrow> 'v store \<Rightarrow> nat option result" where
  "elem_of s listindex st = (if listindex = 0 \<or> listindex = 1 then Inr (listelem st s listindex) else Inl OutOfBounds)"

definition set_elem :: "'v \<Rightarrow> int \<Rightarrow> nat option \<Rightarrow> 'v store \<Rightarrow> 'v store result" where
  "set_elem s listindex r st = (if listindex = 0 \<or> listindex = 1
     then Inr (st\<lparr>listelem := (listelem st)(s := (listelem st s)(listindex := r))\<rparr>) else Inl OutOfBounds)"

section \<open>The list\<close>

definition CList_new :: CList where
  "CList_new = \<lparr>firstelement = None, lastelement = None, list_size = 0\<rparr>"

definition CList_empty :: "CList \<Rightarrow> bool" where
  "CList_empty l \<longleftrightarrow> list_size l = 0"

definition CList_full :: "CList \<Rightarrow> bool" where
  "CList_full l \<longleftrightarrow> list_size l \<ge> LISTSIZE"

definition CList_in :: "'v \<Rightarrow> int \<Rightarrow> 'v store \<Rightarrow> bool result" where
  "CList_in s listindex st = ebind (elem_of s listindex st) (\<lambda>r. Inr (r \<noteq> None))"

definition CList_insert :: "'v \<Rightarrow> int \<Rightarrow> 'v store \<times> CList \<Rightarrow> ('v store \<times> CList) result" where
  "CList_insert s listindex = (\<lambda>(st, l).
     if list_size l \<ge> LISTSIZE then Inl HeapError
     else ebind (elem_of s listindex st) (\<lambda>r.
       if r \<noteq> None then Inl HeapError
       else let insertelem = Some (fresh st);
                st = st\<lparr>mem := (mem st)(fresh st \<mapsto> \<lparr>liststate = s, prev = None, next_elem = firstelement l\<rparr>), fresh := fresh st + 1\<rparr> in
         ebind (if firstelement l \<noteq> None then set_prev (firstelement l) insertelem st else Inr st) (\<lambda>st.
         let l = l\<lparr>firstelement := insertelem\<rparr>;
             l = (if lastelement l = None then l\<lparr>lastelement := insertelem\<rparr> else l) in
         ebind (set_elem s listindex insertelem st) (\<lambda>st.
         ebind (num_add INT_MAX (list_size l) 1) (\<lambda>n. Inr (st, l\<lparr>list_size := n\<rparr>))))))"

definition CList_insertinfront :: "'v \<Rightarrow> int \<Rightarrow> 'v store \<times> CList \<Rightarrow> ('v store \<times> CList) result" where
  "CList_insertinfront s listindex w = CList_insert s listindex w"

text \<open>The four cases of \<open>remove\<close>: in the middle, at the end, at the beginning, the only element.\<close>

definition unlink_elem :: "nat option \<Rightarrow> 'v store \<times> CList \<Rightarrow> ('v store \<times> CList) result" where
  "unlink_elem r = (\<lambda>(st, l). ebind (deref r st) (\<lambda>e.
     if prev e \<noteq> None \<and> next_elem e \<noteq> None then
       ebind (set_next (prev e) (next_elem e) st) (\<lambda>st. ebind (deref r st) (\<lambda>e.
       ebind (set_prev (next_elem e) (prev e) st) (\<lambda>st. Inr (st, l))))
     else if prev e \<noteq> None then
       ebind (set_next (prev e) None st) (\<lambda>st. ebind (deref r st) (\<lambda>e. Inr (st, l\<lparr>lastelement := prev e\<rparr>)))
     else if next_elem e \<noteq> None then
       ebind (set_prev (next_elem e) None st) (\<lambda>st. ebind (deref r st) (\<lambda>e. Inr (st, l\<lparr>firstelement := next_elem e\<rparr>)))
     else Inr (st, l\<lparr>firstelement := None, lastelement := None\<rparr>)))"

definition CList_remove :: "'v \<Rightarrow> int \<Rightarrow> 'v store \<times> CList \<Rightarrow> ('v store \<times> CList) result" where
  "CList_remove s listindex = (\<lambda>(st, l).
     if list_size l = 0 then Inl HeapError
     else ebind (elem_of s listindex st) (\<lambda>r.
       if r = None then Inl HeapError
       else ebind (unlink_elem r (st, l)) (\<lambda>(st, l).
         ebind (free_elem r st) (\<lambda>st. ebind (set_elem s listindex None st) (\<lambda>st.
         ebind (num_add INT_MAX (list_size l) (- 1)) (\<lambda>n. Inr (st, l\<lparr>list_size := n\<rparr>)))))))"

text \<open>
  \<open>makeemptylist\<close>: every round removes an element and \<open>remove\<close> throws when the counter is 0, so one test more than the counter says
  is enough.
\<close>

fun makeempty_loop :: "nat \<Rightarrow> int \<Rightarrow> 'v store \<times> CList \<Rightarrow> ('v store \<times> CList) result" where
  "makeempty_loop 0 listindex w = Inl Diverges"
| "makeempty_loop (Suc n) listindex (st, l) =
     (if firstelement l \<noteq> None then
        ebind (deref (firstelement l) st) (\<lambda>e. ebind (CList_remove (liststate e) listindex (st, l)) (makeempty_loop n listindex))
      else Inr (st, l))"

definition makeemptylist :: "int \<Rightarrow> 'v store \<times> CList \<Rightarrow> ('v store \<times> CList) result" where
  "makeemptylist listindex w = makeempty_loop (nat (list_size (snd w)) + 1) listindex w"

definition state_at :: "nat option \<Rightarrow> 'v store \<Rightarrow> 'v option result" where
  "state_at r st = (if r = None then Inr None else ebind (deref r st) (\<lambda>e. Inr (Some (liststate e))))"

definition getfirst :: "'v store \<times> CList \<Rightarrow> 'v option result" where
  "getfirst w = state_at (firstelement (snd w)) (fst w)"

definition getlast :: "'v store \<times> CList \<Rightarrow> 'v option result" where
  "getlast w = state_at (lastelement (snd w)) (fst w)"

definition getnext :: "'v \<Rightarrow> int \<Rightarrow> 'v store \<Rightarrow> 'v option result" where
  "getnext s listindex st = ebind (elem_of s listindex st) (\<lambda>r. ebind (deref r st) (\<lambda>e. state_at (next_elem e) st))"

section \<open>Chains of nodes\<close>

definition first_or :: "(nat \<times> 'v) list \<Rightarrow> nat option \<Rightarrow> nat option" where
  "first_or cs nx = (case cs of [] \<Rightarrow> nx | c # _ \<Rightarrow> Some (fst c))"

definition last_or :: "nat option \<Rightarrow> (nat \<times> 'v) list \<Rightarrow> nat option" where
  "last_or pr cs = (if cs = [] then pr else Some (fst (last cs)))"

lemma first_or_simps [simp]:
  "first_or [] nx = nx" "first_or (c # cs) nx = Some (fst c)" "first_or (cs @ ds) nx = first_or cs (first_or ds nx)"
  by (cases cs; simp add: first_or_def)+

lemma last_or_simps [simp]:
  "last_or pr [] = pr" "last_or pr (c # cs) = last_or (Some (fst c)) cs" "last_or pr (cs @ ds) = last_or (last_or pr cs) ds"
  by (auto simp: last_or_def)

text \<open>\<open>seg m pr cs nx\<close>: the nodes at the addresses of \<open>cs\<close> hold its states and are linked both ways, from \<open>pr\<close> to \<open>nx\<close>.\<close>

fun seg :: "(nat \<Rightarrow> 'v listelement option) \<Rightarrow> nat option \<Rightarrow> (nat \<times> 'v) list \<Rightarrow> nat option \<Rightarrow> bool" where
  "seg m pr [] nx \<longleftrightarrow> True"
| "seg m pr ((p, v) # cs) nx \<longleftrightarrow> m p = Some \<lparr>liststate = v, prev = pr, next_elem = first_or cs nx\<rparr> \<and> seg m (Some p) cs nx"

lemma seg_append [simp]: "seg m pr (cs @ ds) nx \<longleftrightarrow> seg m pr cs (first_or ds nx) \<and> seg m (last_or pr cs) ds nx"
  by (induction m pr cs nx rule: seg.induct) auto

lemma seg_frame: "\<lbrakk>seg m pr cs nx; \<forall>p \<in> fst ` set cs. m' p = m p\<rbrakk> \<Longrightarrow> seg m' pr cs nx"
  by (induction m pr cs nx rule: seg.induct) auto

lemma seg_fun_upd [simp]: "p \<notin> fst ` set cs \<Longrightarrow> seg (m(p := x)) pr cs nx = seg m pr cs nx"
  by (induction m pr cs nx rule: seg.induct) auto

lemma seg_node: "\<lbrakk>seg m pr cs nx; (p, v) \<in> set cs\<rbrakk> \<Longrightarrow> \<exists>e. m p = Some e \<and> liststate e = v"
  by (induction m pr cs nx rule: seg.induct) auto

text \<open>A write to a link at the border of a chain moves the border.\<close>

lemma seg_next_border:
  assumes "seg m pr (cs @ [(p, v)]) nx" "p \<notin> fst ` set cs"
  shows "seg (m(p \<mapsto> the (m p)\<lparr>next_elem := nx'\<rparr>)) pr (cs @ [(p, v)]) nx'"
  using assms by auto

lemma seg_prev_border:
  assumes "seg m pr ((p, v) # cs) nx" "p \<notin> fst ` set cs"
  shows "seg (m(p \<mapsto> the (m p)\<lparr>prev := pr'\<rparr>)) pr' ((p, v) # cs) nx"
  using assms by auto

section \<open>What a list stands for\<close>

definition list_rel :: "int \<Rightarrow> (nat \<times> 'v) list \<Rightarrow> 'v store \<Rightarrow> CList \<Rightarrow> bool" where
  "list_rel li cs st l \<longleftrightarrow> seg (mem st) None cs None \<and> distinct (map fst cs) \<and> distinct (map snd cs) \<and>
     (\<forall>p \<in> fst ` set cs. p < fresh st) \<and> firstelement l = first_or cs None \<and> lastelement l = last_or None cs \<and>
     list_size l = int (length cs) \<and> list_size l \<le> LISTSIZE \<and> (\<forall>v p. listelem st v li = Some p \<longleftrightarrow> (p, v) \<in> set cs)"

text \<open>What a call on list \<open>li\<close> with the nodes \<open>cs\<close> leaves alone.\<close>

definition untouched :: "int \<Rightarrow> (nat \<times> 'v) list \<Rightarrow> 'v store \<Rightarrow> 'v store \<Rightarrow> bool" where
  "untouched li cs st st' \<longleftrightarrow> fresh st \<le> fresh st' \<and> (\<forall>p < fresh st. p \<notin> fst ` set cs \<longrightarrow> mem st' p = mem st p) \<and>
     (\<forall>v lj. lj \<noteq> li \<longrightarrow> listelem st' v lj = listelem st v lj)"

lemma list_rel_frame:
  assumes "list_rel lj ds st k" "untouched li cs st st'" "fst ` set cs \<inter> fst ` set ds = {}" "lj \<noteq> li"
  shows "list_rel lj ds st' k"
proof -
  have "mem st' p = mem st p" if "p \<in> fst ` set ds" for p
    using assms(1,2,3) that unfolding list_rel_def untouched_def by (meson disjoint_iff)
  then have "seg (mem st') None ds None" using assms(1) by (auto simp: list_rel_def elim!: seg_frame)
  moreover have "fresh st \<le> fresh st'" "listelem st' v lj = listelem st v lj" for v
    using assms(2,4) by (auto simp: untouched_def)
  ultimately show ?thesis using assms(1) by (fastforce simp: list_rel_def)
qed

lemma list_rel_elem:
  assumes "list_rel li cs st l"
  shows "listelem st v li = None \<longleftrightarrow> v \<notin> snd ` set cs"
proof -
  have "v \<in> snd ` set cs \<longleftrightarrow> (\<exists>p. listelem st v li = Some p)" using assms by (force simp: list_rel_def)
  then show ?thesis by (cases "listelem st v li") auto
qed

section \<open>The operations on a chain\<close>

lemmas store_defs = deref_def set_prev_def set_next_def free_elem_def elem_of_def set_elem_def

lemma insert_ok:
  assumes rel: "list_rel li cs st l" and li: "li = 0 \<or> li = 1" and size: "int (length cs) < LISTSIZE" and new: "v \<notin> snd ` set cs"
  shows "\<exists>st' l'. CList_insert v li (st, l) = Inr (st', l') \<and> list_rel li ((fresh st, v) # cs) st' l' \<and> untouched li cs st st'"
proof -
  have el: "listelem st v li = None" using list_rel_elem[OF rel] new by simp
  from rel have l: "seg (mem st) None cs None" "distinct (map fst cs)" "distinct (map snd cs)" "\<forall>p \<in> fst ` set cs. p < fresh st"
    "firstelement l = first_or cs None" "lastelement l = last_or None cs" "list_size l = int (length cs)"
    "\<forall>v p. listelem st v li = Some p \<longleftrightarrow> (p, v) \<in> set cs" by (simp_all add: list_rel_def)
  have fresh: "fresh st \<notin> fst ` set cs" using l(4) by auto
  have nv: "(p, v) \<notin> set cs" for p using new by force
  have big: "num_add INT_MAX (int (length cs)) 1 = Inr (int (length cs) + 1)" using size by (simp add: LISTSIZE_def INT_MAX_def)
  show ?thesis
  proof (cases cs)
    case Nil
    then show ?thesis using el li l size big new
      by (auto simp: CList_insert_def store_defs Let_def list_rel_def untouched_def)
  next
    case (Cons c ds)
    obtain q u where c: "c = (q, u)" by (cases c)
    define m where "m = (mem st)(fresh st \<mapsto> \<lparr>liststate = v, prev = None, next_elem = Some q\<rparr>)"
    have q: "q \<noteq> fresh st" "q \<notin> fst ` set ds" "\<exists>e. mem st q = Some e" using fresh l(1,2) Cons c by auto
    have "seg (m(q \<mapsto> the (m q)\<lparr>prev := Some (fresh st)\<rparr>)) (Some (fresh st)) cs None"
      unfolding Cons c by (rule seg_prev_border[where pr = None]) (use l(1) fresh Cons c q in \<open>auto simp: m_def\<close>)
    then show ?thesis using q el li l size big new nv fresh Cons c
      by (auto simp: CList_insert_def store_defs Let_def list_rel_def untouched_def m_def last_or_def)
  qed
qed

lemma unlink_node_ok:
  assumes "seg (mem st) None (xs @ (p, v) # ys) None" "distinct (map fst (xs @ (p, v) # ys))"
    and "firstelement l = first_or (xs @ (p, v) # ys) None" "lastelement l = last_or None (xs @ (p, v) # ys)"
  shows "\<exists>m l'. unlink_elem (Some p) (st, l) = Inr (st\<lparr>mem := m\<rparr>, l') \<and> seg m None (xs @ ys) None \<and> m p = mem st p \<and>
    firstelement l' = first_or (xs @ ys) None \<and> lastelement l' = last_or None (xs @ ys) \<and> list_size l' = list_size l \<and>
    (\<forall>q. q \<notin> fst ` set (xs @ ys) \<longrightarrow> m q = mem st q)"
proof (cases xs rule: rev_cases)
  case Nil
  show ?thesis
  proof (cases ys)
    case (Cons c zs)
    then show ?thesis using assms Nil by (cases c) (auto simp: unlink_elem_def store_defs last_or_def)
  qed (use assms Nil in \<open>auto simp: unlink_elem_def store_defs intro!: exI[of _ "mem st"]\<close>)
next
  case (snoc ws d)
  show ?thesis
  proof (cases ys)
    case Nil
    then show ?thesis using assms snoc by (cases d) (auto simp: unlink_elem_def store_defs)
  next
    case (Cons c zs)
    then show ?thesis using assms snoc by (cases c; cases d) (auto simp: unlink_elem_def store_defs last_or_def)
  qed
qed

lemma remove_ok:
  assumes rel: "list_rel li (xs @ (p, v) # ys) st l" and li: "li = 0 \<or> li = 1"
  shows "\<exists>st' l'. CList_remove v li (st, l) = Inr (st', l') \<and> list_rel li (xs @ ys) st' l' \<and>
    untouched li (xs @ (p, v) # ys) st st'"
proof -
  let ?cs = "xs @ (p, v) # ys"
  from rel have l: "seg (mem st) None ?cs None" "distinct (map fst ?cs)" "distinct (map snd ?cs)" "\<forall>p \<in> fst ` set ?cs. p < fresh st"
    "firstelement l = first_or ?cs None" "lastelement l = last_or None ?cs" "list_size l = int (length ?cs)" "list_size l \<le> LISTSIZE"
    "\<forall>v p. listelem st v li = Some p \<longleftrightarrow> (p, v) \<in> set ?cs" unfolding list_rel_def by blast+
  obtain m l' where u: "unlink_elem (Some p) (st, l) = Inr (st\<lparr>mem := m\<rparr>, l')" "seg m None (xs @ ys) None" "m p = mem st p"
    "firstelement l' = first_or (xs @ ys) None" "lastelement l' = last_or None (xs @ ys)" "list_size l' = list_size l"
    "\<forall>q. q \<notin> fst ` set (xs @ ys) \<longrightarrow> m q = mem st q"
    using unlink_node_ok[OF l(1,2,5,6)] by blast
  let ?st = "st\<lparr>mem := m(p := None), listelem := (listelem st)(v := (listelem st v)(li := None))\<rparr>"
  have el: "listelem st v li = Some p" "\<exists>e. mem st p = Some e" using l(1,9) by auto
  have "num_add INT_MAX (list_size l) (- 1) = Inr (int (length (xs @ ys)))"
    using l(7,8) by (simp add: num_add_def LISTSIZE_def INT_MAX_def)
  then have run: "CList_remove v li (st, l) = Inr (?st, l'\<lparr>list_size := int (length (xs @ ys))\<rparr>)"
    using el u(1,3,6) li l(7) by (auto simp: CList_remove_def store_defs)
  have "(q, w) \<in> set ?cs \<and> w \<noteq> v \<longleftrightarrow> (q, w) \<in> set (xs @ ys)" for q w using l(3) by (force simp: image_iff)
  then have idx: "(if w = v then None else listelem st w li) = Some q \<longleftrightarrow> (q, w) \<in> set (xs @ ys)" for w q using l(9) by auto
  have "p \<notin> fst ` set (xs @ ys)" using l(2) by auto
  then have "seg (m(p := None)) None (xs @ ys) None" using u(2) by (metis seg_fun_upd)
  moreover have "listelem ?st w li = (if w = v then None else listelem st w li)" for w by simp
  then have "\<forall>w q. listelem ?st w li = Some q \<longleftrightarrow> (q, w) \<in> set (xs @ ys)" using idx by presburger
  ultimately have "list_rel li (xs @ ys) ?st (l'\<lparr>list_size := int (length (xs @ ys))\<rparr>)"
    using l u(4,5) by (auto simp: list_rel_def)
  moreover have "untouched li ?cs st ?st" using u(7) by (auto simp: untouched_def)
  ultimately show ?thesis using run by blast
qed

lemma remove_absent:
  assumes "list_rel li cs st l" "li = 0 \<or> li = 1" "v \<notin> snd ` set cs"
  shows "CList_remove v li (st, l) = Inl HeapError"
  using assms(2,3) list_rel_elem[OF assms(1), of v] by (auto simp: CList_remove_def elem_of_def)

lemma untouched_trans:
  assumes "untouched li cs st st1" "untouched li cs' st1 st2" "fst ` set cs' \<subseteq> fst ` set cs \<union> {fresh st..}"
  shows "untouched li cs st st2"
proof -
  have "mem st2 p = mem st p" if "p < fresh st" "p \<notin> fst ` set cs" for p
  proof -
    have "p \<notin> fst ` set cs'" using assms(3) that by auto
    then show ?thesis using assms(1,2) that by (simp add: untouched_def)
  qed
  then show ?thesis using assms(1,2) by (auto simp: untouched_def)
qed

lemma makeempty_ok:
  assumes "list_rel li cs st l" "li = 0 \<or> li = 1" "length cs < n"
  shows "\<exists>st' l'. makeempty_loop n li (st, l) = Inr (st', l') \<and> list_rel li [] st' l' \<and> untouched li cs st st'"
  using assms
proof (induction cs arbitrary: st l n)
  case Nil
  then show ?case by (cases n) (auto simp: list_rel_def untouched_def)
next
  case (Cons c cs)
  obtain p v where c: "c = (p, v)" by (cases c)
  obtain k where n: "n = Suc k" using Cons.prems by (cases n) auto
  have node: "firstelement l = Some p" "\<exists>e. mem st p = Some e \<and> liststate e = v"
    using Cons.prems(1) c by (auto simp: list_rel_def)
  obtain st1 l1 where r: "CList_remove v li (st, l) = Inr (st1, l1)" "list_rel li cs st1 l1" "untouched li (c # cs) st st1"
    using remove_ok[of li "[]" p v cs st l] Cons.prems c by auto
  obtain st2 l2 where m: "makeempty_loop k li (st1, l1) = Inr (st2, l2)" "list_rel li [] st2 l2" "untouched li cs st1 st2"
    using Cons.IH[OF r(2), of k] Cons.prems n by auto
  have "untouched li (c # cs) st st2" by (rule untouched_trans[OF r(3) m(3)]) auto
  then show ?case using node r(1) m(1,2) n by (auto simp: deref_def)
qed

section \<open>Two lists over the same states\<close>

text \<open>The calls on the two lists, each used with its own \<open>listindex\<close>, and their answers.\<close>

datatype 'v list_op = LInsert 'v | LInsertInFront 'v | LRemove 'v | LMakeEmpty | LGetFirst | LGetLast | LGetNext 'v | LEmpty | LFull | LIn 'v

datatype 'v list_out = LDone | LState "'v option" | LBool bool

definition on_list :: "int \<Rightarrow> ('v store \<times> CList) result \<Rightarrow> (int \<Rightarrow> CList) \<Rightarrow> ('v list_out \<times> 'v store \<times> (int \<Rightarrow> CList)) result" where
  "on_list li r ls = ebind r (\<lambda>(st, l). Inr (LDone, st, ls(li := l)))"

fun clist_step :: "int \<times> 'v list_op \<Rightarrow> 'v store \<times> (int \<Rightarrow> CList) \<Rightarrow> ('v list_out \<times> 'v store \<times> (int \<Rightarrow> CList)) result" where
  "clist_step (li, LInsert s) (st, ls) = on_list li (CList_insert s li (st, ls li)) ls"
| "clist_step (li, LInsertInFront s) (st, ls) = on_list li (CList_insertinfront s li (st, ls li)) ls"
| "clist_step (li, LRemove s) (st, ls) = on_list li (CList_remove s li (st, ls li)) ls"
| "clist_step (li, LMakeEmpty) (st, ls) = on_list li (makeemptylist li (st, ls li)) ls"
| "clist_step (li, LGetFirst) (st, ls) = ebind (getfirst (st, ls li)) (\<lambda>s. Inr (LState s, st, ls))"
| "clist_step (li, LGetLast) (st, ls) = ebind (getlast (st, ls li)) (\<lambda>s. Inr (LState s, st, ls))"
| "clist_step (li, LGetNext s) (st, ls) = ebind (getnext s li st) (\<lambda>s. Inr (LState s, st, ls))"
| "clist_step (li, LEmpty) (st, ls) = Inr (LBool (CList_empty (ls li)), st, ls)"
| "clist_step (li, LFull) (st, ls) = Inr (LBool (CList_full (ls li)), st, ls)"
| "clist_step (li, LIn s) (st, ls) = ebind (CList_in s li st) (\<lambda>b. Inr (LBool b, st, ls))"

text \<open>The specification: two sequences of distinct states.\<close>

fun next_of :: "'v \<Rightarrow> 'v list \<Rightarrow> 'v option" where
  "next_of v [] = None"
| "next_of v (x # xs) = (if x = v then (case xs of [] \<Rightarrow> None | y # _ \<Rightarrow> Some y) else next_of v xs)"

definition put_front :: "int \<Rightarrow> 'v \<Rightarrow> (int \<Rightarrow> 'v list) \<Rightarrow> ('v list_out \<times> (int \<Rightarrow> 'v list)) result" where
  "put_front li s a = (if int (length (a li)) \<ge> LISTSIZE \<or> s \<in> set (a li) then Inl HeapError else Inr (LDone, a(li := s # a li)))"

fun seq_step :: "int \<times> 'v list_op \<Rightarrow> (int \<Rightarrow> 'v list) \<Rightarrow> ('v list_out \<times> (int \<Rightarrow> 'v list)) result" where
  "seq_step (li, LInsert s) a = put_front li s a"
| "seq_step (li, LInsertInFront s) a = put_front li s a"
| "seq_step (li, LRemove s) a = (if s \<in> set (a li) then Inr (LDone, a(li := remove1 s (a li))) else Inl HeapError)"
| "seq_step (li, LMakeEmpty) a = Inr (LDone, a(li := []))"
| "seq_step (li, LGetFirst) a = Inr (LState (case a li of [] \<Rightarrow> None | x # _ \<Rightarrow> Some x), a)"
| "seq_step (li, LGetLast) a = Inr (LState (if a li = [] then None else Some (last (a li))), a)"
| "seq_step (li, LGetNext s) a = (if s \<in> set (a li) then Inr (LState (next_of s (a li)), a) else Inl NullDeref)"
| "seq_step (li, LEmpty) a = Inr (LBool (a li = []), a)"
| "seq_step (li, LFull) a = Inr (LBool (int (length (a li)) \<ge> LISTSIZE), a)"
| "seq_step (li, LIn s) a = Inr (LBool (s \<in> set (a li)), a)"

definition chains :: "(int \<Rightarrow> (nat \<times> 'v) list) \<Rightarrow> (int \<Rightarrow> 'v list) \<Rightarrow> 'v store \<Rightarrow> (int \<Rightarrow> CList) \<Rightarrow> bool" where
  "chains cs a st ls \<longleftrightarrow> (\<forall>li \<in> {0, 1}. a li = map snd (cs li) \<and> list_rel li (cs li) st (ls li)) \<and> fst ` set (cs 0) \<inter> fst ` set (cs 1) = {}"

definition world_rel :: "(int \<Rightarrow> 'v list) \<Rightarrow> 'v store \<times> (int \<Rightarrow> CList) \<Rightarrow> bool" where
  "world_rel a = (\<lambda>(st, ls). \<exists>cs. chains cs a st ls)"

lemma chains_at: "\<lbrakk>chains cs a st ls; li = 0 \<or> li = 1\<rbrakk> \<Longrightarrow> a li = map snd (cs li) \<and> list_rel li (cs li) st (ls li)"
  by (auto simp: chains_def)

text \<open>A call on one list keeps the relation when it does its work on its own nodes and new ones.\<close>

lemma world_rel_step:
  assumes ch: "chains cs a st ls" and li: "li = 0 \<or> li = 1"
    and new: "list_rel li cs' st' l'" "untouched li (cs li) st st'" "fst ` set cs' \<subseteq> fst ` set (cs li) \<union> {fresh st..}"
  shows "world_rel (a(li := map snd cs')) (st', ls(li := l'))"
proof -
  define lj where "lj = 1 - li"
  have lj: "lj \<noteq> li" "{0, 1} = {li, lj}" "lj \<in> {0, 1}" using li by (auto simp: lj_def)
  have dis: "fst ` set (cs li) \<inter> fst ` set (cs lj) = {}" using ch li unfolding lj_def chains_def by (elim disjE) (simp_all add: inf_commute)
  have other: "list_rel lj (cs lj) st (ls lj)" "a lj = map snd (cs lj)" using chains_at[OF ch] lj(3) by auto
  have "fst ` set (cs lj) \<inter> {fresh st..} = {}" using other(1) by (force simp: list_rel_def)
  then have dis': "fst ` set cs' \<inter> fst ` set (cs lj) = {}" using new(3) dis by blast
  have "list_rel lj (cs lj) st' (ls lj)" by (rule list_rel_frame[OF other(1) new(2) dis lj(1)])
  then have "\<forall>i \<in> {0, 1}. (a(li := map snd cs')) i = map snd ((cs(li := cs')) i) \<and> list_rel i ((cs(li := cs')) i) st' ((ls(li := l')) i)"
    unfolding lj(2) using new(1) other(2) lj(1) by auto
  moreover have "fst ` set ((cs(li := cs')) 0) \<inter> fst ` set ((cs(li := cs')) 1) = {}"
    using dis' li unfolding lj_def by (elim disjE) (simp_all add: inf_commute)
  ultimately show ?thesis unfolding world_rel_def chains_def by blast
qed

lemma remove1_split: "\<lbrakk>distinct (map snd (xs @ (p, v) # ys))\<rbrakk> \<Longrightarrow> remove1 v (map snd (xs @ (p, v) # ys)) = map snd (xs @ ys)"
  by (auto simp: remove1_append)

lemma state_at_first: "seg (mem st) pr cs None \<Longrightarrow> state_at (first_or cs None) st = Inr (case map snd cs of [] \<Rightarrow> None | x # _ \<Rightarrow> Some x)"
  by (cases cs) (auto simp: state_at_def deref_def)

lemma state_at_last: "seg (mem st) None cs None \<Longrightarrow> state_at (last_or None cs) st = Inr (if cs = [] then None else Some (snd (last cs)))"
  by (cases cs rule: rev_cases) (auto simp: state_at_def deref_def)

lemma next_at: "\<lbrakk>seg (mem st) pr cs None; (p, v) \<in> set cs; distinct (map snd cs)\<rbrakk> \<Longrightarrow>
  \<exists>e. mem st p = Some e \<and> state_at (next_elem e) st = Inr (next_of v (map snd cs))"
proof (induction cs arbitrary: pr)
  case (Cons c cs)
  obtain q u where c: "c = (q, u)" by (cases c)
  show ?case
  proof (cases "(p, v) = c")
    case True
    then show ?thesis using Cons.prems(1) state_at_first[of st "Some q" cs] c by auto
  next
    case False
    then have "u \<noteq> v" "(p, v) \<in> set cs" using Cons.prems c by force+
    then show ?thesis using Cons.IH[of "Some q"] Cons.prems c by auto
  qed
qed simp

section \<open>Refinement\<close>

lemma insert_sim:
  assumes ch: "chains cs a st ls" and li: "li = 0 \<or> li = 1"
  shows "case put_front li v a of Inl e \<Rightarrow> on_list li (CList_insert v li (st, ls li)) ls = Inl e
    | Inr (y, a') \<Rightarrow> \<exists>w'. on_list li (CList_insert v li (st, ls li)) ls = Inr (y, w') \<and> world_rel a' w'"
proof -
  from chains_at[OF assms] have mine: "a li = map snd (cs li)" "list_rel li (cs li) st (ls li)" by auto
  show ?thesis
  proof (cases "int (length (a li)) \<ge> LISTSIZE \<or> v \<in> set (a li)")
    case True
    have "list_size (ls li) = int (length (a li))" using mine by (simp add: list_rel_def)
    then have "CList_insert v li (st, ls li) = Inl HeapError"
      using True li list_rel_elem[OF mine(2), of v] mine(1) by (auto simp: CList_insert_def elem_of_def)
    then show ?thesis using True by (simp add: put_front_def on_list_def)
  next
    case False
    then obtain st' l' where r: "CList_insert v li (st, ls li) = Inr (st', l')" "list_rel li ((fresh st, v) # cs li) st' l'"
      "untouched li (cs li) st st'" using insert_ok[OF mine(2) li, of v] mine(1) by auto
    then show ?thesis using False world_rel_step[OF ch li r(2,3)] mine(1) by (auto simp: put_front_def on_list_def)
  qed
qed

lemma remove_sim:
  assumes ch: "chains cs a st ls" and li: "li = 0 \<or> li = 1"
  shows "if v \<in> set (a li) then \<exists>w'. on_list li (CList_remove v li (st, ls li)) ls = Inr (LDone, w') \<and> world_rel (a(li := remove1 v (a li))) w'
    else CList_remove v li (st, ls li) = Inl HeapError"
proof -
  from chains_at[OF assms] have mine: "a li = map snd (cs li)" "list_rel li (cs li) st (ls li)" by auto
  show ?thesis
  proof (cases "v \<in> set (a li)")
    case True
    then obtain p where "(p, v) \<in> set (cs li)" using mine(1) by auto
    then obtain xs ys where s: "cs li = xs @ (p, v) # ys" by (auto dest: split_list)
    obtain st' l' where r: "CList_remove v li (st, ls li) = Inr (st', l')" "list_rel li (xs @ ys) st' l'" "untouched li (cs li) st st'"
      using remove_ok[of li xs p v ys st "ls li"] mine(2) li s by auto
    have "distinct (map snd (xs @ (p, v) # ys))" using mine(2) s by (simp add: list_rel_def)
    from remove1_split[OF this] have "map snd (xs @ ys) = remove1 v (a li)" using mine(1) s by simp
    moreover have "world_rel (a(li := map snd (xs @ ys))) (st', ls(li := l'))" by (rule world_rel_step[OF ch li r(2,3)]) (use s in auto)
    ultimately show ?thesis using True r(1) by (simp add: on_list_def)
  qed (use remove_absent[OF mine(2) li] mine(1) in simp)
qed

lemma clist_step_sim:
  assumes rel: "world_rel a w" and li: "fst x = 0 \<or> fst x = 1"
  shows "case seq_step x a of Inl e \<Rightarrow> clist_step x w = Inl e | Inr (y, a') \<Rightarrow> \<exists>w'. clist_step x w = Inr (y, w') \<and> world_rel a' w'"
proof -
  obtain st ls where w: "w = (st, ls)" by (cases w)
  obtain li op where x: "x = (li, op)" by (cases x)
  obtain cs where ch: "chains cs a st ls" using rel w by (auto simp: world_rel_def)
  have li: "li = 0 \<or> li = 1" using li x by simp
  with chains_at[OF ch] have mine: "a li = map snd (cs li)" "list_rel li (cs li) st (ls li)" by auto
  have l: "seg (mem st) None (cs li) None" "distinct (map snd (cs li))" "firstelement (ls li) = first_or (cs li) None"
    "lastelement (ls li) = last_or None (cs li)" "list_size (ls li) = int (length (cs li))"
    using mine(2) by (simp_all add: list_rel_def)
  have el: "listelem st v li = None \<longleftrightarrow> v \<notin> set (a li)" for v using list_rel_elem[OF mine(2)] mine(1) by simp
  note ins = insert_sim[OF ch li]
  show ?thesis
  proof (cases op)
    case (LInsert v)
    then show ?thesis using ins[of v] w x by (auto split: sum.splits)
  next
    case (LInsertInFront v)
    then show ?thesis using ins[of v] w x by (auto simp: CList_insertinfront_def split: sum.splits)
  next
    case (LRemove v)
    then show ?thesis using remove_sim[OF ch li, of v] w x by (auto simp: on_list_def)
  next
    case LMakeEmpty
    obtain st' l' where r: "makeempty_loop (length (cs li) + 1) li (st, ls li) = Inr (st', l')" "list_rel li [] st' l'" "untouched li (cs li) st st'"
      using makeempty_ok[OF mine(2) li, of "length (cs li) + 1"] by auto
    then show ?thesis using LMakeEmpty w x world_rel_step[OF ch li r(2,3)] l(5) by (simp add: makeemptylist_def on_list_def)
  next
    case LGetFirst
    then show ?thesis using w x rel mine(1) state_at_first[OF l(1)] l(3) by (simp add: getfirst_def)
  next
    case LGetLast
    then show ?thesis using w x rel mine(1) state_at_last[OF l(1)] l(4) by (auto simp: getlast_def last_map)
  next
    case (LGetNext v)
    show ?thesis
    proof (cases "v \<in> set (a li)")
      case True
      then obtain p where p: "(p, v) \<in> set (cs li)" using mine(1) by auto
      then have "listelem st v li = Some p" using mine(2) by (simp add: list_rel_def)
      then show ?thesis using True LGetNext w x rel li mine(1) next_at[OF l(1) p l(2)] by (auto simp: getnext_def elem_of_def deref_def)
    next
      case False
      then show ?thesis using LGetNext w x li el[of v] by (auto simp: getnext_def elem_of_def deref_def)
    qed
  next
    case LEmpty
    then show ?thesis using w x rel mine(1) l(5) by (simp add: CList_empty_def)
  next
    case LFull
    then show ?thesis using w x rel mine(1) l(5) by (simp add: CList_full_def)
  next
    case (LIn v)
    then show ?thesis using w x rel li el[of v] by (auto simp: CList_in_def elem_of_def)
  qed
qed

interpretation cl: op_simulation clist_step seq_step "\<lambda>n. world_rel" "\<lambda>x. fst x = 0 \<or> fst x = 1"
  by unfold_locales (rule clist_step_sim)

definition new_store :: "'v store" where
  "new_store = \<lparr>mem = \<lambda>p. None, fresh = 0, listelem = \<lambda>s i. None\<rparr>"

text \<open>
  C31. Two new lists over the same search states, each used with its own listindex (0 and 1), give under every sequence of calls the answers
  of two sequences of distinct states, with the same exceptions: insert throws on a full list or a member, remove on a state that is
  not there, and getnext of a state that is not in the list reads through a null pointer. The nodes stay linked both ways, no freed
  node is read or freed twice, neither list changes the other, and makeemptylist returns.
\<close>

theorem CList_refines_sequence:
  assumes "\<forall>x \<in> set xs. fst x = 0 \<or> fst x = 1"
  shows "run_ops clist_step xs (new_store, \<lambda>i. CList_new) = run_ops seq_step xs (\<lambda>i. [])"
proof (rule cl.run_sim[OF _ assms])
  show "world_rel (\<lambda>i. []) (new_store, \<lambda>i. CList_new)"
    by (auto simp: world_rel_def chains_def list_rel_def new_store_def CList_new_def LISTSIZE_def intro!: exI[of _ "\<lambda>i. []"])
qed

theorem CList_refines_sequence_witness:
  "run_ops clist_step [(0, LInsert 5), (0, LInsert 6), (1, LInsert 5), (0, LInsert 7), (0, LRemove 6), (0, LGetNext 7), (1, LMakeEmpty), (0, LGetLast), (1, LIn 5)]
     (new_store, \<lambda>i. CList_new) =
     Inr [LDone, LDone, LDone, LDone, LDone, LState (Some 5), LDone, LState (Some (5 :: int)), LBool False]"
  using CList_refines_sequence[of "[(0, LInsert (5 :: int)), (0, LInsert 6), (1, LInsert 5), (0, LInsert 7), (0, LRemove 6), (0, LGetNext 7), (1, LMakeEmpty), (0, LGetLast), (1, LIn 5)]"]
  by (simp add: put_front_def LISTSIZE_def)

end
