(* ===== verification/Bfs_Space.thy ===== *)
theory Bfs_Space
  imports Search_Iface
begin

text \<open>
  Breadth-first search over a finite set of cells, without its data structures: distances as a function (negative: not reached), the
  queue as a list. A cell is entered when it is free; the sources need not be. The invariant of the search, the
  distances it ends with, and a locale that carries both to a loop over the real data. \<open>Sbpl_Bfs\<close> instantiates it for two and three
  dimensions.
\<close>

section \<open>A loop over a list against a fold\<close>

lemma efold_sim:
  assumes "I s a" "\<And>x s a. \<lbrakk>x \<in> set xs; I s a\<rbrakk> \<Longrightarrow> \<exists>s'. f x s = Inr s' \<and> I s' (g x a)"
  shows "\<exists>s'. efold f xs s = Inr s' \<and> I s' (fold g xs a)"
  using assms
proof (induction xs arbitrary: s a)
  case (Cons x xs)
  obtain s1 where s1: "f x s = Inr s1" "I s1 (g x a)" using Cons.prems(2)[of x s a] Cons.prems(1) by auto
  have "\<exists>s'. efold f xs s1 = Inr s' \<and> I s' (fold g xs (g x a))" by (rule Cons.IH[OF s1(2)]) (use Cons.prems(2) in auto)
  then show ?case using s1(1) by simp
qed simp

section \<open>Distances\<close>

text \<open>\<open>walk n c\<close>: \<open>c\<close> is reached from a source in \<open>n\<close> moves.\<close>

fun walk_in :: "'c set \<Rightarrow> ('c \<Rightarrow> bool) \<Rightarrow> ('c \<Rightarrow> 'c list) \<Rightarrow> 'c set \<Rightarrow> nat \<Rightarrow> 'c \<Rightarrow> bool" where
  "walk_in cells free nbrs S 0 c \<longleftrightarrow> c \<in> S"
| "walk_in cells free nbrs S (Suc n) c \<longleftrightarrow> c \<in> cells \<and> free c \<and> (\<exists>b. walk_in cells free nbrs S n b \<and> c \<in> set (nbrs b))"

text \<open>The distances from the sources: the least number of moves, and -1 where no walk leads.\<close>

definition distances_from :: "'c set \<Rightarrow> ('c \<Rightarrow> bool) \<Rightarrow> ('c \<Rightarrow> 'c list) \<Rightarrow> 'c set \<Rightarrow> ('c \<Rightarrow> int) \<Rightarrow> bool" where
  "distances_from cells free nbrs S D \<longleftrightarrow> (\<forall>c \<in> cells.
     (\<forall>n. walk_in cells free nbrs S n c \<longrightarrow> 0 \<le> D c \<and> D c \<le> int n) \<and>
     (0 \<le> D c \<longrightarrow> walk_in cells free nbrs S (nat (D c)) c) \<and> - 1 \<le> D c)"

section \<open>The search\<close>

definition unreached :: "'c set \<Rightarrow> ('c \<Rightarrow> int) \<Rightarrow> nat" where
  "unreached cells D = card {c \<in> cells. D c < 0}"

definition enter :: "'c set \<Rightarrow> ('c \<Rightarrow> bool) \<Rightarrow> int \<Rightarrow> 'c \<Rightarrow> ('c \<Rightarrow> int) \<times> 'c list \<Rightarrow> ('c \<Rightarrow> int) \<times> 'c list" where
  "enter cells free k c = (\<lambda>(D, Q). if c \<in> cells \<and> D c < 0 \<and> free c then (D(c := k), Q @ [c]) else (D, Q))"

definition expand :: "'c set \<Rightarrow> ('c \<Rightarrow> bool) \<Rightarrow> ('c \<Rightarrow> 'c list) \<Rightarrow> 'c \<Rightarrow> ('c \<Rightarrow> int) \<times> 'c list \<Rightarrow> ('c \<Rightarrow> int) \<times> 'c list" where
  "expand cells free nbrs c = (\<lambda>(D, Q). fold (enter cells free (D c + 1)) (nbrs c) (D, Q))"

definition source :: "'c \<Rightarrow> ('c \<Rightarrow> int) \<times> 'c list \<Rightarrow> ('c \<Rightarrow> int) \<times> 'c list" where
  "source c = (\<lambda>(D, Q). (D(c := 0), Q @ [c]))"

text \<open>The room a bounded queue needs: an entry for every queued cell and for every cell that may still come.\<close>

definition room :: "'c set \<Rightarrow> nat \<Rightarrow> ('c \<Rightarrow> int) \<times> 'c list \<Rightarrow> bool" where
  "room cells cap = (\<lambda>(D, Q). length Q + unreached cells D \<le> cap)"

definition bfs_inv :: "'c set \<Rightarrow> ('c \<Rightarrow> bool) \<Rightarrow> ('c \<Rightarrow> 'c list) \<Rightarrow> 'c set \<Rightarrow> ('c \<Rightarrow> int) \<times> 'c list \<Rightarrow> bool" where
  "bfs_inv cells free nbrs S = (\<lambda>(D, Q). (\<forall>c \<in> set Q. c \<in> cells \<and> 0 \<le> D c) \<and> sorted (map D Q) \<and> (\<forall>c \<in> S. D c = 0) \<and> S \<subseteq> cells \<and>
     (\<forall>c \<in> cells. - 1 \<le> D c \<and> D c + int (unreached cells D) \<le> int (card cells) \<and> (0 \<le> D c \<longrightarrow> walk_in cells free nbrs S (nat (D c)) c) \<and>
        (Q \<noteq> [] \<longrightarrow> D c \<le> D (hd Q) + 1)) \<and>
     (\<forall>b \<in> cells. \<forall>c \<in> set (nbrs b). 0 \<le> D b \<and> b \<notin> set Q \<and> c \<in> cells \<and> free c \<longrightarrow> 0 \<le> D c \<and> D c \<le> D b + 1))"

lemma unreached_upd:
  assumes "finite cells" "c \<in> cells" "D c < 0" "0 \<le> k"
  shows "Suc (unreached cells (D(c := k))) = unreached cells D"
proof -
  have "{x \<in> cells. D x < 0} = insert c {x \<in> cells. (D(c := k)) x < 0}" using assms by auto
  moreover have "c \<notin> {x \<in> cells. (D(c := k)) x < 0}" using assms(4) by simp
  ultimately show ?thesis using assms(1) by (simp add: unreached_def)
qed

lemma enter_room: "\<lbrakk>finite cells; 0 \<le> k; room cells cap a\<rbrakk> \<Longrightarrow> room cells cap (enter cells free k c a)"
  using unreached_upd[of cells c "fst a" k] by (cases a) (auto simp: room_def enter_def)

text \<open>Entering a neighbour needs a free place in the queue.\<close>

lemma room_place: "\<lbrakk>finite cells; room cells cap (D, Q); c \<in> cells; D c < 0\<rbrakk> \<Longrightarrow> length Q < cap"
  using card_gt_0_iff[of "{c \<in> cells. D c < 0}"] by (auto simp: room_def unreached_def)

text \<open>
  While the neighbours of \<open>b\<close>, at distance \<open>k\<close>, are entered: as the invariant, with the neighbours done so far.
\<close>

definition mid_inv :: "'c set \<Rightarrow> ('c \<Rightarrow> bool) \<Rightarrow> ('c \<Rightarrow> 'c list) \<Rightarrow> 'c set \<Rightarrow> 'c \<Rightarrow> int \<Rightarrow> 'c set \<Rightarrow> ('c \<Rightarrow> int) \<times> 'c list \<Rightarrow> bool" where
  "mid_inv cells free nbrs S b k done = (\<lambda>(D, Q). (\<forall>c \<in> set Q. c \<in> cells \<and> k \<le> D c) \<and> sorted (map D Q) \<and> (\<forall>c \<in> S. D c = 0) \<and> S \<subseteq> cells \<and> D b = k \<and> 0 \<le> k \<and>
     (\<forall>c \<in> cells. - 1 \<le> D c \<and> D c \<le> k + 1 \<and> D c + int (unreached cells D) \<le> int (card cells) \<and> (0 \<le> D c \<longrightarrow> walk_in cells free nbrs S (nat (D c)) c)) \<and>
     (\<forall>a \<in> cells. \<forall>c \<in> set (nbrs a). 0 \<le> D a \<and> a \<notin> set Q \<and> a \<noteq> b \<and> c \<in> cells \<and> free c \<longrightarrow> 0 \<le> D c \<and> D c \<le> D a + 1) \<and>
     (\<forall>c \<in> done. c \<in> cells \<and> free c \<longrightarrow> 0 \<le> D c))"

lemma mid_inv_enter:
  assumes fin: "finite cells" and m: "mid_inv cells free nbrs S b k done a" and c: "c \<in> set (nbrs b)" and b: "b \<in> cells"
  shows "mid_inv cells free nbrs S b k (insert c done) (enter cells free (k + 1) c a)"
proof -
  obtain D Q where a: "a = (D, Q)" by (cases a)
  show ?thesis
  proof (cases "c \<in> cells \<and> D c < 0 \<and> free c")
    case True
    let ?D = "D(c := k + 1)"
    have D: "D b = k" "0 \<le> k" "\<forall>x \<in> S. D x = 0" using m a by (simp_all add: mid_inv_def)
    then have nb: "c \<noteq> b" "c \<notin> set Q" "c \<notin> S" using True m a by (auto simp: mid_inv_def)
    have u: "int (unreached cells ?D) + 1 = int (unreached cells D)" using unreached_upd[OF fin, of c D "k + 1"] True D(2) by simp
    have "walk_in cells free nbrs S (nat k) b" using m a b by (auto simp: mid_inv_def)
    then have "walk_in cells free nbrs S (Suc (nat k)) c" using c True by auto
    then have w: "walk_in cells free nbrs S (nat (k + 1)) c" using D(2) by (simp add: nat_add_distrib)
    have "\<forall>x \<in> set Q. D x \<le> k + 1" using m a by (auto simp: mid_inv_def)
    moreover have "map ?D (Q @ [c]) = map D Q @ [k + 1]" using nb by simp
    moreover have "sorted (map D Q)" using m a by (simp add: mid_inv_def)
    ultimately have srt: "sorted (map ?D (Q @ [c]))" by (simp only: sorted_append) simp
    have bnd: "k + int (unreached cells D) \<le> int (card cells)" using m a b D(1) by (auto simp: mid_inv_def)
    have cl: "0 \<le> ?D x \<and> ?D x \<le> ?D y + 1" if "y \<in> cells" "x \<in> set (nbrs y)" "0 \<le> ?D y" "y \<notin> set (Q @ [c])" "y \<noteq> b" "x \<in> cells" "free x" for x y
    proof -
      have "y \<noteq> c" "0 \<le> D x \<and> D x \<le> D y + 1" using that m a by (auto simp: mid_inv_def)
      then show ?thesis using True by auto
    qed
    show ?thesis using True a m nb u w srt bnd cl by (auto simp: mid_inv_def enter_def)
  next
    case False
    then show ?thesis using a m by (auto simp: mid_inv_def enter_def)
  qed
qed

lemma mid_inv_fold:
  assumes "finite cells" "mid_inv cells free nbrs S b k done a" "set cs \<subseteq> set (nbrs b)" "b \<in> cells"
  shows "mid_inv cells free nbrs S b k (set cs \<union> done) (fold (enter cells free (k + 1)) cs a)"
  using assms
proof (induction cs arbitrary: a "done")
  case (Cons c cs)
  have "mid_inv cells free nbrs S b k (insert c done) (enter cells free (k + 1) c a)" using mid_inv_enter[OF Cons.prems(1,2)] Cons.prems by simp
  then have "mid_inv cells free nbrs S b k (set cs \<union> insert c done) (fold (enter cells free (k + 1)) cs (enter cells free (k + 1) c a))"
    by (rule Cons.IH[OF Cons.prems(1)]) (use Cons.prems in simp_all)
  moreover have "set (c # cs) \<union> done = set cs \<union> insert c done" by simp
  ultimately show ?case by (simp only: fold_simps)
qed simp

lemma bfs_inv_expand:
  assumes fin: "finite cells" and inv: "bfs_inv cells free nbrs S (D, c # Q)"
  shows "bfs_inv cells free nbrs S (expand cells free nbrs c (D, Q))"
proof -
  have c: "c \<in> cells" using inv by (simp add: bfs_inv_def)
  have "mid_inv cells free nbrs S c (D c) {} (D, Q)" using inv by (auto simp: bfs_inv_def mid_inv_def)
  from mid_inv_fold[OF fin this subset_refl c]
  have m: "mid_inv cells free nbrs S c (D c) (set (nbrs c)) (expand cells free nbrs c (D, Q))" by (simp add: expand_def)
  obtain D' Q' where e: "expand cells free nbrs c (D, Q) = (D', Q')" by (cases "expand cells free nbrs c (D, Q)")
  have m': "\<forall>x \<in> set Q'. x \<in> cells \<and> D c \<le> D' x" "D' c = D c" "0 \<le> D c" "\<forall>x \<in> cells. D' x \<le> D c + 1" "sorted (map D' Q')"
    "\<forall>x \<in> S. D' x = 0" "S \<subseteq> cells"
    "\<forall>x \<in> cells. - 1 \<le> D' x \<and> D' x + int (unreached cells D') \<le> int (card cells) \<and> (0 \<le> D' x \<longrightarrow> walk_in cells free nbrs S (nat (D' x)) x)"
    "\<forall>a \<in> cells. \<forall>x \<in> set (nbrs a). 0 \<le> D' a \<and> a \<notin> set Q' \<and> a \<noteq> c \<and> x \<in> cells \<and> free x \<longrightarrow> 0 \<le> D' x \<and> D' x \<le> D' a + 1"
    "\<forall>x \<in> set (nbrs c). x \<in> cells \<and> free x \<longrightarrow> 0 \<le> D' x"
    using m unfolding e mid_inv_def prod.case by blast+
  have hd: "D' x \<le> D' (hd Q') + 1" if "Q' \<noteq> []" "x \<in> cells" for x
    using m'(1,4) that hd_in_set[OF that(1)] by fastforce
  have cl: "0 \<le> D' x \<and> D' x \<le> D' b + 1" if "b \<in> cells" "x \<in> set (nbrs b)" "0 \<le> D' b" "b \<notin> set Q'" "x \<in> cells" "free x" for b x
  proof (cases "b = c")
    case True
    then show ?thesis using m'(2,4,10) that by simp
  next
    case False
    then show ?thesis using m'(9) that by blast
  qed
  have "\<forall>x \<in> set Q'. x \<in> cells \<and> 0 \<le> D' x" using m'(1,3) by force
  then show ?thesis unfolding e bfs_inv_def prod.case using m'(5-8) hd cl by blast
qed

lemma bfs_inv_end:
  assumes "bfs_inv cells free nbrs S (D, [])"
  shows "distances_from cells free nbrs S D"
proof -
  have "c \<in> cells \<and> 0 \<le> D c \<and> D c \<le> int n" if "walk_in cells free nbrs S n c" for n c
    using that
  proof (induction n arbitrary: c)
    case 0
    then show ?case using assms by (auto simp: bfs_inv_def)
  next
    case (Suc n)
    then obtain b where b: "walk_in cells free nbrs S n b" "c \<in> set (nbrs b)" "c \<in> cells" "free c" by auto
    then show ?case using Suc.IH[OF b(1)] assms by (fastforce simp: bfs_inv_def)
  qed
  then show ?thesis using assms by (auto simp: distances_from_def bfs_inv_def)
qed

text \<open>Every cell is entered at most once: the loop ends.\<close>

definition work_left :: "'c set \<Rightarrow> ('c \<Rightarrow> int) \<times> 'c list \<Rightarrow> nat" where
  "work_left cells = (\<lambda>(D, Q). length Q + 2 * unreached cells D)"

lemma fold_enter_le: "\<lbrakk>finite cells; 0 \<le> k\<rbrakk> \<Longrightarrow> work_left cells (fold (enter cells free k) cs a) \<le> work_left cells a"
proof (induction cs arbitrary: a)
  case (Cons c cs)
  have "work_left cells (enter cells free k c a) \<le> work_left cells a"
    using unreached_upd[of cells c "fst a" k] Cons.prems by (cases a) (auto simp: work_left_def enter_def)
  then show ?case using Cons.IH[OF Cons.prems, of "enter cells free k c a"] by simp
qed simp

lemma fold_enter_room: "\<lbrakk>finite cells; 0 \<le> k; room cells cap a\<rbrakk> \<Longrightarrow> room cells cap (fold (enter cells free k) cs a)"
  by (induction cs arbitrary: a) (simp_all add: enter_room)

section \<open>The sources\<close>

lemma fold_source: "fold source ss (D, Q) = (\<lambda>c. if c \<in> set ss then 0 else D c, Q @ ss)"
  by (induction ss arbitrary: D Q) (auto simp: source_def)

lemma unreached_le: "finite cells \<Longrightarrow> unreached cells D \<le> card cells"
  by (auto simp: unreached_def intro!: card_mono)

lemma bfs_inv_sources:
  assumes "finite cells" "\<forall>c \<in> cells. D c = - 1" "set ss \<subseteq> cells"
  shows "bfs_inv cells free nbrs (set ss) (fold source ss (D, []))"
proof -
  let ?D = "\<lambda>c. if c \<in> set ss then 0 else D c"
  have "map ?D ss = map (\<lambda>c. 0) ss" by (rule map_cong) auto
  then have "sorted (map ?D ss)" by (simp add: map_replicate_const)
  moreover have "?D c + int (unreached cells ?D) \<le> int (card cells)" if "c \<in> cells" for c
    using assms(2) that unreached_le[OF assms(1), of ?D] by auto
  moreover have "?D (hd ss) = 0" if "ss \<noteq> []" using that by simp
  ultimately show ?thesis using assms(2,3) unfolding fold_source bfs_inv_def prod.case append_Nil
    by (intro conjI ballI impI) (auto split: if_splits)
qed

lemma sources_room: "\<lbrakk>finite cells; card cells + length ss \<le> cap\<rbrakk> \<Longrightarrow> room cells cap (fold source ss (D, []))"
  using unreached_le[of cells "\<lambda>c. if c \<in> set ss then 0 else D c"] by (simp add: fold_source room_def)

lemma sources_room_distinct:
  assumes "finite cells" "distinct ss" "set ss \<subseteq> cells" "card cells \<le> cap"
  shows "room cells cap (fold source ss (D, []))"
proof -
  have "{c \<in> cells. (if c \<in> set ss then 0 else D c) < 0} \<subseteq> cells - set ss" by auto
  then have "unreached cells (\<lambda>c. if c \<in> set ss then 0 else D c) \<le> card (cells - set ss)" using assms(1) by (auto simp: unreached_def intro: card_mono)
  also have "\<dots> = card cells - length ss" using assms(1-3) by (simp add: card_Diff_subset distinct_card)
  finally show ?thesis using assms card_mono[OF assms(1,3)] by (simp add: fold_source room_def distinct_card)
qed

section \<open>A loop over real data\<close>

text \<open>
  The interface: a loop body on states that represent distances and queue. It leaves the loop on an empty queue, and otherwise expands
  the first cell, given room in the queue and a distance that is no larger than the number of cells.
\<close>

locale bfs_loop =
  fixes cells :: "'c set" and free :: "'c \<Rightarrow> bool" and nbrs :: "'c \<Rightarrow> 'c list" and cap :: nat
    and body :: "'s \<Rightarrow> 's loop result" and R :: "'s \<Rightarrow> ('c \<Rightarrow> int) \<times> 'c list \<Rightarrow> bool"
  assumes finite_cells: "finite cells"
    and stop: "R s (D, []) \<Longrightarrow> body s = Inr (Break s)"
    and step: "\<lbrakk>R s (D, c # Q); c \<in> cells; 0 \<le> D c; D c \<le> int (card cells); room cells cap (D, Q)\<rbrakk> \<Longrightarrow>
      \<exists>s'. body s = Inr (Continue s') \<and> R s' (expand cells free nbrs c (D, Q))"
begin

theorem loop_ends:
  assumes "R s a" "bfs_inv cells free nbrs S a" "room cells cap a"
  shows "\<exists>s' D. run_loop body s = Some (Inr s') \<and> R s' (D, []) \<and> distances_from cells free nbrs S D"
  using assms
proof (induction "work_left cells a" arbitrary: s a rule: less_induct)
  case less
  obtain D Q where a: "a = (D, Q)" by (cases a)
  show ?case
  proof (cases Q)
    case Nil
    then have "body s = Inr (Break s)" using less.prems(1) a stop by simp
    then have "run_loop body s = Some (Inr s)" by (rule run_loop_unfold(2))
    moreover have "distances_from cells free nbrs S D" by (rule bfs_inv_end) (use less.prems(2) a Nil in simp)
    moreover have "R s (D, [])" using less.prems(1) a Nil by simp
    ultimately show ?thesis by blast
  next
    case (Cons c Q')
    have c: "c \<in> cells" "0 \<le> D c" "D c \<le> int (card cells)" "room cells cap (D, Q')"
      using less.prems(2,3) a Cons by (auto simp: bfs_inv_def room_def)
    have inv: "bfs_inv cells free nbrs S (expand cells free nbrs c (D, Q'))"
      by (rule bfs_inv_expand[OF finite_cells]) (use less.prems(2) a Cons in simp)
    obtain s1 where s1: "body s = Inr (Continue s1)" "R s1 (expand cells free nbrs c (D, Q'))"
      using step[of s D c Q'] less.prems(1) a Cons c by blast
    have "work_left cells (expand cells free nbrs c (D, Q')) \<le> work_left cells (D, Q')"
      unfolding expand_def prod.case by (rule fold_enter_le[OF finite_cells]) (use c(2) in simp)
    then have lt: "work_left cells (expand cells free nbrs c (D, Q')) < work_left cells a" using a Cons by (simp add: work_left_def)
    have "room cells cap (expand cells free nbrs c (D, Q'))"
      unfolding expand_def prod.case by (rule fold_enter_room[OF finite_cells _ c(4)]) (use c(2) in simp)
    from less.hyps[OF lt s1(2) inv this] show ?thesis using s1(1) run_loop_unfold(3) by metis
  qed
qed

end

end
