(* ===== verification/Sbpl_Fifo.thy ===== *)
theory Sbpl_Fifo
  imports PWSA_Prelude
begin

text \<open>
  The bounded queue of SBPL, \<open>src/libsbpl/src/utils/sbpl_fifo.h\<close>: a ring of \<open>fsize\<close> cells, of which one stays
  free, so that \<open>fhead = ftail\<close> means empty. A call that fails prints a message and returns false. The contents as a list, and each operation on it.
\<close>

section \<open>The code\<close>

record 'a sbpl_fifo =
  fhead :: int
  ftail :: int
  fsize :: int
  fcells :: "'a list"

text \<open>The conversion of an \<open>unsigned int\<close> to \<open>int\<close>. \<open>new T[sz]\<close> fills the array by the default constructor.\<close>

definition to_int :: "int \<Rightarrow> int" where
  "to_int w = (if w \<le> INT_MAX then w else w - 2 ^ 32)"

definition fifo_new :: "'a \<Rightarrow> int \<Rightarrow> 'a sbpl_fifo" where
  "fifo_new dflt sz = \<lparr>fhead = 0, ftail = 0, fsize = to_int sz, fcells = replicate (nat sz) dflt\<rparr>"

definition fifo_insert :: "'a \<Rightarrow> 'a sbpl_fifo \<Rightarrow> (bool \<times> 'a sbpl_fifo) result" where
  "fifo_insert val f = (let t_val = ftail f in
     if t_val = fhead f + 1 \<or> (t_val = 0 \<and> fhead f + 1 = fsize f) then Inr (False, f)
     else ebind (arr_set (fcells f) (fhead f) val) (\<lambda>q.
       let f = f\<lparr>fcells := q, fhead := fhead f + 1\<rparr> in
       Inr (True, if fhead f = fsize f then f\<lparr>fhead := 0\<rparr> else f)))"

text \<open>\<open>remove\<close> writes to the place its argument points to: the old value comes in, the new one goes out.\<close>

definition fifo_remove :: "'a \<Rightarrow> 'a sbpl_fifo \<Rightarrow> (bool \<times> 'a \<times> 'a sbpl_fifo) result" where
  "fifo_remove val f = (if fhead f = ftail f then Inr (False, val, f)
     else ebind (arr_get (fcells f) (ftail f)) (\<lambda>val.
       let f = f\<lparr>ftail := ftail f + 1\<rparr> in
       Inr (True, val, if ftail f = fsize f then f\<lparr>ftail := 0\<rparr> else f)))"

definition fifo_empty :: "'a sbpl_fifo \<Rightarrow> bool" where
  "fifo_empty f \<longleftrightarrow> fhead f = ftail f"

definition fifo_clear :: "'a sbpl_fifo \<Rightarrow> 'a sbpl_fifo" where
  "fifo_clear f = f\<lparr>fhead := 0, ftail := 0\<rparr>"

section \<open>The contents\<close>

text \<open>\<open>ring n f xs\<close>: the queue has room for \<open>n\<close> entries and holds \<open>xs\<close>, the oldest first.\<close>

definition ring :: "nat \<Rightarrow> 'a sbpl_fifo \<Rightarrow> 'a list \<Rightarrow> bool" where
  "ring n f xs \<longleftrightarrow> fsize f = int n + 1 \<and> length (fcells f) = n + 1 \<and> length xs \<le> n \<and> 0 \<le> ftail f \<and> ftail f \<le> int n \<and>
     fhead f = (ftail f + int (length xs)) mod (int n + 1) \<and> (\<forall>i < length xs. fcells f ! nat ((ftail f + int i) mod (int n + 1)) = xs ! i)"

lemma mod_once: "\<lbrakk>0 \<le> a; a \<le> n; 0 \<le> b; b \<le> n\<rbrakk> \<Longrightarrow> (a + b) mod (n + 1) = (if a + b \<le> n then a + b else a + b - n - 1)" for n :: int
  using mod_add_self2[of "a + b - n - 1" "n + 1"] by (auto simp: mod_pos_pos_trivial)

lemma ring_new: "\<lbrakk>0 < sz; sz \<le> INT_MAX\<rbrakk> \<Longrightarrow> ring (nat sz - 1) (fifo_new dflt sz) []"
  by (auto simp: ring_def fifo_new_def to_int_def)

lemma ring_clear: "ring n f xs \<Longrightarrow> ring n (fifo_clear f) []"
  by (auto simp: ring_def fifo_clear_def)

lemma ring_head:
  assumes "ring n f xs"
  shows "fhead f = (if ftail f + int (length xs) \<le> int n then ftail f + int (length xs) else ftail f + int (length xs) - int n - 1)"
  using assms mod_once[of "ftail f" "int n" "int (length xs)"] by (simp add: ring_def)

lemma ring_empty: "ring n f xs \<Longrightarrow> fifo_empty f \<longleftrightarrow> xs = []"
  using ring_head[of n f xs] by (auto simp: fifo_empty_def ring_def split: if_splits)

lemma ring_slot:
  assumes "ring n f xs" "i < length xs"
  shows "fcells f ! nat (if ftail f + int i \<le> int n then ftail f + int i else ftail f + int i - int n - 1) = xs ! i"
proof -
  have "fcells f ! nat ((ftail f + int i) mod (int n + 1)) = xs ! i" using assms by (simp add: ring_def)
  moreover have "(ftail f + int i) mod (int n + 1) = (if ftail f + int i \<le> int n then ftail f + int i else ftail f + int i - int n - 1)"
    by (rule mod_once) (use assms in \<open>auto simp: ring_def\<close>)
  ultimately show ?thesis by metis
qed

lemma ringI:
  assumes "fsize f = int n + 1" "length (fcells f) = n + 1" "length xs \<le> n" "0 \<le> ftail f" "ftail f \<le> int n"
    and "fhead f = (if ftail f + int (length xs) \<le> int n then ftail f + int (length xs) else ftail f + int (length xs) - int n - 1)"
    and "\<And>i. i < length xs \<Longrightarrow> fcells f ! nat (if ftail f + int i \<le> int n then ftail f + int i else ftail f + int i - int n - 1) = xs ! i"
  shows "ring n f xs"
  using assms mod_once[of "ftail f" "int n"] unfolding ring_def by simp

lemma fifo_insert_ok:
  assumes r: "ring n f xs" and room: "length xs < n"
  shows "\<exists>f'. fifo_insert x f = Inr (True, f') \<and> ring n f' (xs @ [x])"
proof -
  note h = ring_head[OF r]
  have b: "fsize f = int n + 1" "length (fcells f) = n + 1" "0 \<le> ftail f" "ftail f \<le> int n" using r by (simp_all add: ring_def)
  have run: "fifo_insert x f = Inr (True, f\<lparr>fcells := (fcells f)[nat (fhead f) := x], fhead := if fhead f = int n then 0 else fhead f + 1\<rparr>)"
    using b h room by (auto simp: fifo_insert_def Let_def arr_set_def split: if_splits)
  have "ring n (f\<lparr>fcells := (fcells f)[nat (fhead f) := x], fhead := if fhead f = int n then 0 else fhead f + 1\<rparr>) (xs @ [x])"
  proof (rule ringI)
    fix i assume i: "i < length (xs @ [x])"
    let ?p = "if ftail f + int i \<le> int n then ftail f + int i else ftail f + int i - int n - 1"
    have "0 \<le> ?p" "?p \<le> int n" "0 \<le> fhead f" "fhead f \<le> int n" "?p = fhead f \<longleftrightarrow> i = length xs" using b h room i by auto
    then show "fcells (f\<lparr>fcells := (fcells f)[nat (fhead f) := x], fhead := if fhead f = int n then 0 else fhead f + 1\<rparr>) !
        nat (if ftail (f\<lparr>fcells := (fcells f)[nat (fhead f) := x], fhead := if fhead f = int n then 0 else fhead f + 1\<rparr>) + int i \<le> int n
          then ftail (f\<lparr>fcells := (fcells f)[nat (fhead f) := x], fhead := if fhead f = int n then 0 else fhead f + 1\<rparr>) + int i
          else ftail (f\<lparr>fcells := (fcells f)[nat (fhead f) := x], fhead := if fhead f = int n then 0 else fhead f + 1\<rparr>) + int i - int n - 1) = (xs @ [x]) ! i"
      using ring_slot[OF r, of i] i b(2) by (auto simp: nth_append nth_list_update nat_eq_iff eq_nat_nat_iff)
  qed (use b h room in auto)
  then show ?thesis using run by blast
qed

lemma fifo_insert_full: "ring n f xs \<Longrightarrow> length xs = n \<Longrightarrow> fifo_insert x f = Inr (False, f)"
  using ring_head[of n f xs] by (auto simp: fifo_insert_def ring_def split: if_splits)

lemma fifo_remove_ok:
  assumes r: "ring n f (x # xs)"
  shows "\<exists>f'. fifo_remove y f = Inr (True, x, f') \<and> ring n f' xs"
proof -
  note h = ring_head[OF r]
  have b: "fsize f = int n + 1" "length (fcells f) = n + 1" "0 \<le> ftail f" "ftail f \<le> int n" "length xs < n" using r by (simp_all add: ring_def)
  have "fcells f ! nat (ftail f) = x" using ring_slot[OF r, of 0] b by simp
  then have run: "fifo_remove y f = Inr (True, x, f\<lparr>ftail := if ftail f = int n then 0 else ftail f + 1\<rparr>)"
    using b h by (auto simp: fifo_remove_def Let_def arr_get_def split: if_splits)
  have "ring n (f\<lparr>ftail := if ftail f = int n then 0 else ftail f + 1\<rparr>) xs"
  proof (rule ringI)
    fix i assume "i < length xs"
    then show "fcells (f\<lparr>ftail := if ftail f = int n then 0 else ftail f + 1\<rparr>) !
        nat (if ftail (f\<lparr>ftail := if ftail f = int n then 0 else ftail f + 1\<rparr>) + int i \<le> int n
          then ftail (f\<lparr>ftail := if ftail f = int n then 0 else ftail f + 1\<rparr>) + int i
          else ftail (f\<lparr>ftail := if ftail f = int n then 0 else ftail f + 1\<rparr>) + int i - int n - 1) = xs ! i"
      using ring_slot[OF r, of "Suc i"] b by (auto simp: algebra_simps split: if_splits)
  qed (use b h in \<open>auto split: if_splits\<close>)
  then show ?thesis using run by blast
qed

end
