(* ===== verification/Sbpl_Bfs.thy ===== *)
theory Sbpl_Bfs
  imports Bfs_Space Sbpl_Fifo
begin

text \<open>
  The breadth-first searches of SBPL, \<open>src/libsbpl/src/utils/sbpl_bfs_2d.h\<close> and \<open>sbpl_bfs_3d.h\<close>. The two classes have the same code but for the
  indices, so the operations are written once over what differs: how cells are stored, bounded and
  moved (\<open>space\<close>). What the constructor computes and nothing changes afterwards (the sizes and the moves \<open>dx\<close>, \<open>dy\<close>, \<open>dz\<close>) is part of the space.
  A cell of the distance array that was never written is \<open>None\<close>. \<open>NUM_ACTIONS\<close> is \<open>num_actions\<close>.
\<close>

section \<open>The code of both classes\<close>

record ('c, 'd, 'g) space =
  cell_default :: 'c
  get_dist :: "'d \<Rightarrow> 'c \<Rightarrow> int option result"
  set_dist :: "'d \<Rightarrow> 'c \<Rightarrow> int option \<Rightarrow> 'd result"
  get_grid :: "'g \<Rightarrow> 'c \<Rightarrow> int result"
  inside :: "'c \<Rightarrow> bool"
  boundary :: "'c \<Rightarrow> bool"
  action :: "'c \<Rightarrow> int \<Rightarrow> 'c result"
  num_actions :: int
  all_cells :: "'c list"

record ('c, 'd) bfs =
  dist_array :: 'd
  bfs_queue :: "'c sbpl_fifo"
  bfs_thresh :: int

definition read_dist :: "('c, 'd, 'g) space \<Rightarrow> 'd \<Rightarrow> 'c \<Rightarrow> int result" where
  "read_dist sp d c = ebind (get_dist sp d c) (\<lambda>v. case v of None \<Rightarrow> Inl UninitRead | Some n \<Rightarrow> Inr n)"

text \<open>A source: \<open>q_->insert(c); dist_[x][y] = 0\<close>.\<close>

definition add_source :: "('c, 'd, 'g) space \<Rightarrow> 'c \<Rightarrow> ('c, 'd) bfs \<Rightarrow> ('c, 'd) bfs result" where
  "add_source sp c b = ebind (fifo_insert c (bfs_queue b)) (\<lambda>(_, q).
     ebind (set_dist sp (dist_array b) c (Some 0)) (\<lambda>d. Inr (b\<lparr>dist_array := d, bfs_queue := q\<rparr>)))"

definition clear_distances :: "('c, 'd, 'g) space \<Rightarrow> ('c, 'd) bfs \<Rightarrow> ('c, 'd) bfs result" where
  "clear_distances sp b = ebind (efold (\<lambda>c d. set_dist sp d c (Some (- 1))) (all_cells sp) (dist_array b)) (\<lambda>d. Inr (b\<lparr>dist_array := d\<rparr>))"

text \<open>A successor inside the grid; the result of \<open>insert\<close> is ignored.\<close>

definition visit :: "('c, 'd, 'g) space \<Rightarrow> 'g \<Rightarrow> int \<Rightarrow> 'c \<Rightarrow> ('c, 'd) bfs \<Rightarrow> ('c, 'd) bfs result" where
  "visit sp grid cost c b = ebind (read_dist sp (dist_array b) c) (\<lambda>d.
     if d < 0 then ebind (get_grid sp grid c) (\<lambda>g.
       if g < bfs_thresh b then ebind (set_dist sp (dist_array b) c (Some cost)) (\<lambda>dist.
         ebind (fifo_insert c (bfs_queue b)) (\<lambda>(_, q). Inr (b\<lparr>dist_array := dist, bfs_queue := q\<rparr>)))
       else Inr b)
     else Inr b)"

definition bfs_body :: "('c, 'd, 'g) space \<Rightarrow> 'g \<Rightarrow> 'c \<times> ('c, 'd) bfs \<Rightarrow> ('c \<times> ('c, 'd) bfs) loop result" where
  "bfs_body sp grid = (\<lambda>(c, b).
     if fifo_empty (bfs_queue b) then Inr (Break (c, b))
     else ebind (fifo_remove c (bfs_queue b)) (\<lambda>(_, c, q). let b = b\<lparr>bfs_queue := q\<rparr> in
       ebind (read_dist sp (dist_array b) c) (\<lambda>d. ebind (num_add INT_MAX d 1) (\<lambda>cost.
       ebind (if boundary sp c
         then efold (\<lambda>i b. ebind (action sp c i) (\<lambda>s. if \<not> inside sp s then Inr b else visit sp grid cost s b)) [0..num_actions sp - 1] b
         else efold (\<lambda>i b. ebind (action sp c i) (\<lambda>s. visit sp grid cost s b)) [0..num_actions sp - 1] b) (\<lambda>b.
       Inr (Continue (c, b)))))))"

definition compute_distances :: "('c, 'd, 'g) space \<Rightarrow> 'g \<Rightarrow> ('c, 'd) bfs \<Rightarrow> (bool \<times> ('c, 'd) bfs) result option" where
  "compute_distances sp grid b = map_option (\<lambda>r. ebind r (\<lambda>(_, b). Inr (True, b))) (run_loop (bfs_body sp grid) (cell_default sp, b))"

text \<open>What comes before the loop, an early return (with false) or the loop.\<close>

definition then_distances :: "('c, 'd, 'g) space \<Rightarrow> 'g \<Rightarrow> (bool \<times> ('c, 'd) bfs) result \<Rightarrow> (bool \<times> ('c, 'd) bfs) result option" where
  "then_distances sp grid r = (case r of Inl e \<Rightarrow> Some (Inl e) | Inr (go, b) \<Rightarrow> if go then compute_distances sp grid b else Some (Inr (False, b)))"

definition fresh_search :: "('c, 'd, 'g) space \<Rightarrow> ('c, 'd) bfs \<Rightarrow> ('c, 'd) bfs result" where
  "fresh_search sp b = clear_distances sp (b\<lparr>bfs_queue := fifo_clear (bfs_queue b)\<rparr>)"

fun add_points :: "('c, 'd, 'g) space \<Rightarrow> 'c list \<Rightarrow> ('c, 'd) bfs \<Rightarrow> (bool \<times> ('c, 'd) bfs) result" where
  "add_points sp [] b = Inr (True, b)"
| "add_points sp (c # cs) b = (if \<not> inside sp c then Inr (False, b) else ebind (add_source sp c b) (add_points sp cs))"

definition from_point :: "('c, 'd, 'g) space \<Rightarrow> 'g \<Rightarrow> 'c \<Rightarrow> ('c, 'd) bfs \<Rightarrow> (bool \<times> ('c, 'd) bfs) result option" where
  "from_point sp grid c b = then_distances sp grid (if \<not> inside sp c then Inr (False, b)
     else ebind (fresh_search sp b) (\<lambda>b. ebind (add_source sp c b) (\<lambda>b. Inr (True, b))))"

definition from_points :: "('c, 'd, 'g) space \<Rightarrow> 'g \<Rightarrow> 'c list \<Rightarrow> ('c, 'd) bfs \<Rightarrow> (bool \<times> ('c, 'd) bfs) result option" where
  "from_points sp grid cs b = then_distances sp grid (ebind (fresh_search sp b) (add_points sp cs))"

definition from_obs :: "('c, 'd, 'g) space \<Rightarrow> 'g \<Rightarrow> ('c, 'd) bfs \<Rightarrow> (bool \<times> ('c, 'd) bfs) result option" where
  "from_obs sp grid b = then_distances sp grid (ebind (fresh_search sp b) (\<lambda>b.
     ebind (efold (\<lambda>c b. ebind (get_grid sp grid c) (\<lambda>g. if g \<ge> bfs_thresh b then add_source sp c b else Inr b)) (all_cells sp) b) (\<lambda>b.
     Inr (True, b))))"

definition get_distance :: "('c, 'd, 'g) space \<Rightarrow> 'c \<Rightarrow> ('c, 'd) bfs \<Rightarrow> int result" where
  "get_distance sp c b = read_dist sp (dist_array b) c"

section \<open>Its correctness, once for all spaces\<close>

text \<open>
  The interface of a space: \<open>dok d F\<close> says that the array \<open>d\<close> holds the values \<open>F\<close>, \<open>gok\<close> the same of a grid.
\<close>

locale dist_space =
  fixes sp :: "('c, 'd, 'g) space" and cells :: "'c set" and nbrs :: "'c \<Rightarrow> 'c list"
    and dok :: "'d \<Rightarrow> ('c \<Rightarrow> int option) \<Rightarrow> bool" and gok :: "'g \<Rightarrow> ('c \<Rightarrow> int) \<Rightarrow> bool"
  assumes get: "\<lbrakk>dok d F; c \<in> cells\<rbrakk> \<Longrightarrow> get_dist sp d c = Inr (F c)"
    and set: "\<lbrakk>dok d F; c \<in> cells\<rbrakk> \<Longrightarrow> \<exists>d'. set_dist sp d c v = Inr d' \<and> dok d' (F(c := v))"
    and grid: "\<lbrakk>gok g G; c \<in> cells\<rbrakk> \<Longrightarrow> get_grid sp g c = Inr (G c)"
    and inside_iff: "inside sp c \<longleftrightarrow> c \<in> cells"
    and interior: "\<lbrakk>c \<in> cells; \<not> boundary sp c\<rbrakk> \<Longrightarrow> List.set (nbrs c) \<subseteq> cells"
    and actions: "int (length (nbrs c)) = num_actions sp" "\<lbrakk>0 \<le> i; i < num_actions sp\<rbrakk> \<Longrightarrow> action sp c i = Inr (nbrs c ! nat i)"
    and all: "List.set (all_cells sp) = cells" "distinct (all_cells sp)"
begin

lemma finite_cells: "finite cells"
  using all(1) by auto

text \<open>What a search object stands for, its thresholds and the room in its queue fixed.\<close>

definition stands :: "int \<Rightarrow> nat \<Rightarrow> ('c, 'd) bfs \<Rightarrow> ('c \<Rightarrow> int) \<times> 'c list \<Rightarrow> bool" where
  "stands th cap b = (\<lambda>(D, Q). bfs_thresh b = th \<and> (\<exists>F. dok (dist_array b) F \<and> (\<forall>c \<in> cells. F c = Some (D c))) \<and> ring cap (bfs_queue b) Q)"

lemma read_ok: "\<lbrakk>stands th cap b (D, Q); c \<in> cells\<rbrakk> \<Longrightarrow> read_dist sp (dist_array b) c = Inr (D c)"
  by (auto simp: stands_def read_dist_def get)

lemma write_ok:
  assumes "stands th cap b (D, Q)" "c \<in> cells" "length Q < cap"
  shows "\<exists>d q. set_dist sp (dist_array b) c (Some k) = Inr d \<and> fifo_insert c (bfs_queue b) = Inr (True, q) \<and>
    stands th cap (b\<lparr>dist_array := d, bfs_queue := q\<rparr>) (D(c := k), Q @ [c])"
proof -
  obtain F where F: "dok (dist_array b) F" "\<forall>c \<in> cells. F c = Some (D c)" "ring cap (bfs_queue b) Q" "bfs_thresh b = th"
    using assms(1) by (auto simp: stands_def)
  obtain d where "set_dist sp (dist_array b) c (Some k) = Inr d" "dok d (F(c := Some k))" using set[OF F(1) assms(2)] by blast
  moreover obtain q where "fifo_insert c (bfs_queue b) = Inr (True, q)" "ring cap q (Q @ [c])" using fifo_insert_ok[OF F(3) assms(3)] by blast
  ultimately show ?thesis using F(2,4) by (fastforce simp: stands_def)
qed

lemma visit_ok:
  assumes st: "stands th cap b a" and g: "gok g G" and c: "c \<in> cells" and room: "room cells cap a"
  shows "\<exists>b'. visit sp g k c b = Inr b' \<and> stands th cap b' (enter cells (\<lambda>c. G c < th) k c a)"
proof -
  obtain D Q where a: "a = (D, Q)" by (cases a)
  have th: "bfs_thresh b = th" using st a by (simp add: stands_def)
  note read = read_ok[OF st[unfolded a] c]
  show ?thesis
  proof (cases "D c < 0 \<and> G c < th")
    case True
    then have "length Q < cap" using room_place[OF finite_cells room[unfolded a] c] by simp
    from write_ok[OF st[unfolded a] c this, of k] show ?thesis
      using True read th grid[OF g c] c a by (auto simp: visit_def enter_def)
  next
    case False
    then show ?thesis using read th grid[OF g c] st a by (auto simp: visit_def enter_def)
  qed
qed

lemma nbrs_upto: "map (\<lambda>i. nbrs c ! nat i) [0..num_actions sp - 1] = nbrs c"
proof (rule nth_equalityI)
  show "length (map (\<lambda>i. nbrs c ! nat i) [0..num_actions sp - 1]) = length (nbrs c)" using actions(1)[of c] by simp
qed (use actions(1)[of c] in simp)

lemma expand_ok:
  assumes st: "stands th cap b (D, Q)" and g: "gok g G" and c: "c \<in> cells" and k: "k = D c + 1" "0 \<le> k" and room: "room cells cap (D, Q)"
    and f: "\<And>i s b. \<lbrakk>0 \<le> i; i < num_actions sp; s = nbrs c ! nat i\<rbrakk> \<Longrightarrow> f i b = (if s \<in> cells then visit sp g k s b else Inr b)"
  shows "\<exists>b'. efold f [0..num_actions sp - 1] b = Inr b' \<and> stands th cap b' (expand cells (\<lambda>c. G c < th) nbrs c (D, Q))"
proof -
  let ?g = "\<lambda>i. enter cells (\<lambda>c. G c < th) k (nbrs c ! nat i)"
  have "\<exists>b'. efold f [0..num_actions sp - 1] b = Inr b' \<and> (stands th cap b' (fold ?g [0..num_actions sp - 1] (D, Q)) \<and>
      room cells cap (fold ?g [0..num_actions sp - 1] (D, Q)))"
  proof (rule efold_sim)
    show "stands th cap b (D, Q) \<and> room cells cap (D, Q)" using st room by simp
    fix i b a assume i: "i \<in> List.set [0..num_actions sp - 1]" and a: "stands th cap b a \<and> room cells cap a"
    let ?s = "nbrs c ! nat i"
    have fi: "f i b = (if ?s \<in> cells then visit sp g k ?s b else Inr b)" using f[of i ?s b] i by simp
    have "room cells cap (?g i a)" by (rule enter_room[OF finite_cells k(2)]) (use a in simp)
    moreover have "\<exists>b'. f i b = Inr b' \<and> stands th cap b' (?g i a)"
    proof (cases "?s \<in> cells")
      case True
      then show ?thesis using visit_ok[OF _ g True, of th cap b a k] a fi by simp
    next
      case False
      then show ?thesis using a fi by (cases a) (auto simp: enter_def)
    qed
    ultimately show "\<exists>b'. f i b = Inr b' \<and> (stands th cap b' (?g i a) \<and> room cells cap (?g i a))" by blast
  qed
  moreover have "fold ?g [0..num_actions sp - 1] (D, Q) = fold (enter cells (\<lambda>c. G c < th) k) (nbrs c) (D, Q)"
    by (subst (2) nbrs_upto[symmetric]) (simp add: fold_map comp_def)
  ultimately show ?thesis using k(1) by (auto simp: expand_def)
qed

definition loop_rel :: "'g \<Rightarrow> ('c \<Rightarrow> int) \<Rightarrow> int \<Rightarrow> nat \<Rightarrow> 'c \<times> ('c, 'd) bfs \<Rightarrow> ('c \<Rightarrow> int) \<times> 'c list \<Rightarrow> bool" where
  "loop_rel g G th cap = (\<lambda>(c, b) a. gok g G \<and> int (card cells) < INT_MAX \<and> stands th cap b a)"

lemma body_stop: "loop_rel g G th cap s (D, []) \<Longrightarrow> bfs_body sp g s = Inr (Break s)"
  using ring_empty by (cases s) (auto simp: loop_rel_def stands_def bfs_body_def)

lemma body_step:
  assumes r: "loop_rel g G th cap s (D, c # Q)" and c: "c \<in> cells" "0 \<le> D c" "D c \<le> int (card cells)" and room: "room cells cap (D, Q)"
  shows "\<exists>s'. bfs_body sp g s = Inr (Continue s') \<and> loop_rel g G th cap s' (expand cells (\<lambda>c. G c < th) nbrs c (D, Q))"
proof -
  obtain c0 b where s: "s = (c0, b)" by (cases s)
  have g: "gok g G" "int (card cells) < INT_MAX" "stands th cap b (D, c # Q)" using r s by (simp_all add: loop_rel_def)
  then have ring: "ring cap (bfs_queue b) (c # Q)" by (auto simp: stands_def)
  obtain q where q: "fifo_remove c0 (bfs_queue b) = Inr (True, c, q)" "ring cap q Q" using fifo_remove_ok[OF ring] by blast
  let ?b = "b\<lparr>bfs_queue := q\<rparr>"
  have st: "stands th cap ?b (D, Q)" using g(3) q(2) by (auto simp: stands_def)
  have ne: "\<not> fifo_empty (bfs_queue b)" using ring_empty[OF ring] by simp
  have cost: "num_add INT_MAX (D c) 1 = Inr (D c + 1)" using c(2,3) g(2) by (simp add: INT_MAX_def)
  have act: "action sp c i = Inr (nbrs c ! nat i)" if "0 \<le> i" "i < num_actions sp" for i using actions(2) that by blast
  have "\<exists>b'. efold (\<lambda>i b. ebind (action sp c i) (\<lambda>s. if \<not> inside sp s then Inr b else visit sp g (D c + 1) s b)) [0..num_actions sp - 1] ?b = Inr b' \<and>
      stands th cap b' (expand cells (\<lambda>c. G c < th) nbrs c (D, Q))"
    by (rule expand_ok[OF st g(1) c(1) refl _ room]) (use c(2) act inside_iff in auto)
  moreover have "\<exists>b'. efold (\<lambda>i b. ebind (action sp c i) (\<lambda>s. visit sp g (D c + 1) s b)) [0..num_actions sp - 1] ?b = Inr b' \<and>
      stands th cap b' (expand cells (\<lambda>c. G c < th) nbrs c (D, Q))" if "\<not> boundary sp c"
  proof (rule expand_ok[OF st g(1) c(1) refl _ room])
    fix i s b assume i: "0 \<le> i" "i < num_actions sp" "s = nbrs c ! nat i"
    then have "s \<in> cells" using interior[OF c(1) that] actions(1)[of c] by (auto intro!: nth_mem simp: nat_less_iff)
    then show "ebind (action sp c i) (\<lambda>s. visit sp g (D c + 1) s b) = (if s \<in> cells then visit sp g (D c + 1) s b else Inr b)" using act i by simp
  qed (use c(2) in simp)
  ultimately show ?thesis using ne q(1) read_ok[OF st c(1)] cost g(1,2) s
    by (cases "boundary sp c") (auto simp: bfs_body_def loop_rel_def)
qed

lemma clear_ok:
  assumes "dok (dist_array b) F"
  shows "\<exists>b'. clear_distances sp b = Inr b' \<and> (\<exists>F. dok (dist_array b') F \<and> (\<forall>c \<in> cells. F c = Some (- 1))) \<and> bfs_queue b' = bfs_queue b \<and> bfs_thresh b' = bfs_thresh b"
proof -
  have "\<exists>d. efold (\<lambda>c d. set_dist sp d c (Some (- 1))) (all_cells sp) (dist_array b) = Inr d \<and>
      dok d (fold (\<lambda>c F. F(c := Some (- 1))) (all_cells sp) F)"
    by (rule efold_sim[where I = dok]) (use assms set all(1) in auto)
  moreover have "fold (\<lambda>c F. F(c := v)) cs F x = (if x \<in> List.set cs then v else F x)" for cs :: "'c list" and F :: "'c \<Rightarrow> int option" and v x
    by (induction cs arbitrary: F) auto
  ultimately show ?thesis using all(1) by (fastforce simp: clear_distances_def)
qed

text \<open>An object that was built or searched before: what every search starts from.\<close>

definition usable :: "int \<Rightarrow> nat \<Rightarrow> ('c, 'd) bfs \<Rightarrow> bool" where
  "usable th cap b \<longleftrightarrow> bfs_thresh b = th \<and> (\<exists>F. dok (dist_array b) F) \<and> (\<exists>Q. ring cap (bfs_queue b) Q)"

lemma fresh_ok:
  assumes "usable th cap b"
  shows "\<exists>b'. fresh_search sp b = Inr b' \<and> stands th cap b' (\<lambda>c. - 1, [])"
proof -
  obtain F Q where "dok (dist_array b) F" "ring cap (bfs_queue b) Q" "bfs_thresh b = th" using assms by (auto simp: usable_def)
  then show ?thesis using clear_ok[of "b\<lparr>bfs_queue := fifo_clear (bfs_queue b)\<rparr>" F] ring_clear by (fastforce simp: fresh_search_def stands_def)
qed

lemma source_ok:
  assumes "stands th cap b a" "c \<in> cells" "length (snd a) < cap"
  shows "\<exists>b'. add_source sp c b = Inr b' \<and> stands th cap b' (source c a)"
  using write_ok[of th cap b "fst a" "snd a" c 0] assms by (cases a) (auto simp: add_source_def source_def)

lemma points_ok:
  assumes "stands th cap b a" "List.set cs \<subseteq> cells" "length (snd a) + length cs \<le> cap"
  shows "\<exists>b'. add_points sp cs b = Inr (True, b') \<and> stands th cap b' (fold source cs a)"
  using assms
proof (induction cs arbitrary: b a)
  case (Cons c cs)
  obtain b1 where b1: "add_source sp c b = Inr b1" "stands th cap b1 (source c a)" using source_ok[of th cap b a c] Cons.prems by auto
  have "length (snd (source c a)) = Suc (length (snd a))" by (cases a) (simp add: source_def)
  then obtain b2 where "add_points sp cs b1 = Inr (True, b2)" "stands th cap b2 (fold source cs (source c a))"
    using Cons.IH[OF b1(2)] Cons.prems by auto
  then show ?case using b1(1) Cons.prems(2) inside_iff by auto
qed simp

definition reports :: "('c \<Rightarrow> int) \<Rightarrow> int \<Rightarrow> nat \<Rightarrow> 'c set \<Rightarrow> (bool \<times> ('c, 'd) bfs) result option \<Rightarrow> bool" where
  "reports G th cap S r \<longleftrightarrow> (\<exists>b D. r = Some (Inr (True, b)) \<and> usable th cap b \<and>
     distances_from cells (\<lambda>c. G c < th) nbrs S D \<and> (\<forall>c \<in> cells. get_distance sp c b = Inr (D c)))"

lemma usableI: "stands th cap b a \<Longrightarrow> usable th cap b"
  by (cases a) (auto simp: stands_def usable_def)

end

sublocale dist_space \<subseteq> lp: bfs_loop cells "\<lambda>c. G c < th" nbrs cap "bfs_body sp g" "loop_rel g G th cap" for g G th cap
  by unfold_locales (rule finite_cells, erule body_stop, rule body_step)

context dist_space
begin

lemma compute_ok:
  assumes g: "gok g G" "int (card cells) < INT_MAX" and st: "stands th cap b a"
    and inv: "bfs_inv cells (\<lambda>c. G c < th) nbrs S a" and room: "room cells cap a"
  shows "reports G th cap S (compute_distances sp g b)"
proof -
  have "loop_rel g G th cap (cell_default sp, b) a" using g st by (simp add: loop_rel_def)
  from lp.loop_ends[OF this inv room] obtain c b' D where l: "run_loop (bfs_body sp g) (cell_default sp, b) = Some (Inr (c, b'))"
    "loop_rel g G th cap (c, b') (D, [])" "distances_from cells (\<lambda>c. G c < th) nbrs S D" by auto
  have "stands th cap b' (D, [])" using l(2) by (simp add: loop_rel_def)
  then have "usable th cap b'" "\<forall>c \<in> cells. get_distance sp c b' = Inr (D c)" using usableI read_ok by (auto simp: get_distance_def)
  then show ?thesis using l(1,3) by (auto simp: reports_def compute_distances_def)
qed

text \<open>The sources as a list, in the order in which they enter the queue.\<close>

lemma search_ok:
  assumes g: "gok g G" "int (card cells) < INT_MAX" and st: "stands th cap b (fold source cs (\<lambda>c. - 1, []))" and cs: "List.set cs \<subseteq> cells"
    and room: "card cells + length cs \<le> cap \<or> distinct cs \<and> card cells \<le> cap"
  shows "reports G th cap (List.set cs) (compute_distances sp g b)"
proof (rule compute_ok[OF g st])
  show "bfs_inv cells (\<lambda>c. G c < th) nbrs (List.set cs) (fold source cs (\<lambda>c. - 1, []))"
    by (rule bfs_inv_sources[OF finite_cells _ cs]) simp
  show "room cells cap (fold source cs (\<lambda>c. - 1, []))"
    using room sources_room[OF finite_cells] sources_room_distinct[OF finite_cells _ cs] by blast
qed

lemma from_points_ok:
  assumes g: "gok g G" "int (card cells) < INT_MAX" and b: "usable th cap b" and cs: "List.set cs \<subseteq> cells"
    and room: "card cells + length cs \<le> cap \<or> distinct cs \<and> card cells \<le> cap"
  shows "reports G th cap (List.set cs) (from_points sp g cs b)"
proof -
  have "length cs \<le> cap" using room card_mono[OF finite_cells cs] by (auto simp: distinct_card)
  obtain b1 where b1: "fresh_search sp b = Inr b1" "stands th cap b1 (\<lambda>c. - 1, [])" using fresh_ok[OF b] by blast
  obtain b2 where b2: "add_points sp cs b1 = Inr (True, b2)" "stands th cap b2 (fold source cs (\<lambda>c. - 1, []))"
    using points_ok[OF b1(2) cs] \<open>length cs \<le> cap\<close> by auto
  have "reports G th cap (List.set cs) (compute_distances sp g b2)" by (rule search_ok[OF g b2(2) cs room])
  then show ?thesis using b1(1) b2(1) by (simp add: from_points_def then_distances_def)
qed

lemma from_point_ok:
  assumes g: "gok g G" "int (card cells) < INT_MAX" and b: "usable th cap b" and c: "c \<in> cells" and room: "card cells \<le> cap"
  shows "reports G th cap {c} (from_point sp g c b)"
proof -
  have "0 < card cells" using c finite_cells card_gt_0_iff by blast
  then have "length (snd (\<lambda>c. - 1 :: int, [])) < cap" using room by simp
  obtain b1 where b1: "fresh_search sp b = Inr b1" "stands th cap b1 (\<lambda>c. - 1, [])" using fresh_ok[OF b] by blast
  obtain b2 where b2: "add_source sp c b1 = Inr b2" "stands th cap b2 (fold source [c] (\<lambda>c. - 1, []))"
    using source_ok[OF b1(2) c] \<open>0 < card cells\<close> room by auto
  have "reports G th cap (List.set [c]) (compute_distances sp g b2)" by (rule search_ok[OF g b2(2)]) (use c room in auto)
  then show ?thesis using b1(1) b2(1) c inside_iff by (simp add: from_point_def then_distances_def)
qed

lemma from_obs_ok:
  assumes g: "gok g G" "int (card cells) < INT_MAX" and b: "usable th cap b" and room: "card cells \<le> cap"
  shows "reports G th cap {c \<in> cells. G c \<ge> th} (from_obs sp g b)"
proof -
  obtain b1 where b1: "fresh_search sp b = Inr b1" "stands th cap b1 (\<lambda>c. - 1, [])" using fresh_ok[OF b] by blast
  let ?f = "\<lambda>c b. ebind (get_grid sp g c) (\<lambda>g. if g \<ge> bfs_thresh b then add_source sp c b else Inr b)"
  have fill: "\<exists>b'. efold ?f cs b = Inr b' \<and> stands th cap b' (fold source (filter (\<lambda>c. G c \<ge> th) cs) a)"
    if "List.set cs \<subseteq> cells" "stands th cap b a" "length (snd a) + length cs \<le> cap" for cs b a
    using that
  proof (induction cs arbitrary: b a)
    case (Cons c cs)
    have th: "bfs_thresh b = th" using Cons.prems(2) by (cases a) (simp add: stands_def)
    have gc: "get_grid sp g c = Inr (G c)" using grid[OF g(1)] Cons.prems(1) by simp
    show ?case
    proof (cases "G c \<ge> th")
      case True
      obtain b' where "add_source sp c b = Inr b'" "stands th cap b' (source c a)" using source_ok[OF Cons.prems(2), of c] Cons.prems by auto
      moreover have "length (snd (source c a)) = Suc (length (snd a))" by (cases a) (simp add: source_def)
      ultimately show ?thesis using Cons.IH[of b' "source c a"] Cons.prems True th gc by simp
    next
      case False
      then show ?thesis using Cons.IH[of b a] Cons.prems th gc by simp
    qed
  qed simp
  let ?cs = "filter (\<lambda>c. G c \<ge> th) (all_cells sp)"
  have len: "length (all_cells sp) = card cells" using distinct_card[OF all(2)] all(1) by simp
  obtain b2 where b2: "efold ?f (all_cells sp) b1 = Inr b2" "stands th cap b2 (fold source ?cs (\<lambda>c. - 1, []))"
    using fill[OF _ b1(2), of "all_cells sp"] all(1) len room by auto
  have "reports G th cap (List.set ?cs) (compute_distances sp g b2)" by (rule search_ok[OF g b2(2)]) (use all room in auto)
  moreover have "List.set ?cs = {c \<in> cells. G c \<ge> th}" using all(1) by auto
  ultimately show ?thesis using b1(1) b2(1) by (simp add: from_obs_def then_distances_def)
qed

end

end
