(* ===== verification/Sbpl_Bfs_Grids.thy ===== *)
theory Sbpl_Bfs_Grids
  imports Sbpl_Bfs
begin

text \<open>
  The two breadth-first searches of SBPL as instances: \<open>sbpl_bfs_2d\<close> on arrays of arrays with 8 moves, \<open>sbpl_bfs_3d\<close> with one dimension more
  and 26 moves. Every search is correct when the queue has room for all cells; the size the
  constructor chooses by itself is smaller, and a run shows what that costs.
\<close>

section \<open>Arrays of arrays\<close>

definition get2 :: "'a list list \<Rightarrow> int \<Rightarrow> int \<Rightarrow> 'a result" where
  "get2 a x y = ebind (arr_get a x) (\<lambda>r. arr_get r y)"

definition set2 :: "'a list list \<Rightarrow> int \<Rightarrow> int \<Rightarrow> 'a \<Rightarrow> 'a list list result" where
  "set2 a x y v = ebind (arr_get a x) (\<lambda>r. ebind (arr_set r y v) (arr_set a x))"

definition get3 :: "'a list list list \<Rightarrow> int \<Rightarrow> int \<Rightarrow> int \<Rightarrow> 'a result" where
  "get3 a x y z = ebind (arr_get a x) (\<lambda>r. get2 r y z)"

definition set3 :: "'a list list list \<Rightarrow> int \<Rightarrow> int \<Rightarrow> int \<Rightarrow> 'a \<Rightarrow> 'a list list list result" where
  "set3 a x y z v = ebind (arr_get a x) (\<lambda>r. ebind (set2 r y z v) (arr_set a x))"

definition holds2 :: "int \<Rightarrow> int \<Rightarrow> 'a list list \<Rightarrow> (int \<times> int \<Rightarrow> 'a) \<Rightarrow> bool" where
  "holds2 sx sy a F \<longleftrightarrow> length a = nat sx \<and>
     (\<forall>x. 0 \<le> x \<and> x < sx \<longrightarrow> length (a ! nat x) = nat sy \<and> (\<forall>y. 0 \<le> y \<and> y < sy \<longrightarrow> a ! nat x ! nat y = F (x, y)))"

definition holds3 :: "int \<Rightarrow> int \<Rightarrow> int \<Rightarrow> 'a list list list \<Rightarrow> (int \<times> int \<times> int \<Rightarrow> 'a) \<Rightarrow> bool" where
  "holds3 sx sy sz a F \<longleftrightarrow> length a = nat sx \<and> (\<forall>x. 0 \<le> x \<and> x < sx \<longrightarrow> holds2 sy sz (a ! nat x) (\<lambda>(y, z). F (x, y, z)))"

lemma get2_ok: "\<lbrakk>holds2 sx sy a F; 0 \<le> x; x < sx; 0 \<le> y; y < sy\<rbrakk> \<Longrightarrow> get2 a x y = Inr (F (x, y))"
  by (simp add: holds2_def get2_def)

lemma set2_ok:
  assumes "holds2 sx sy a F" "0 \<le> x" "x < sx" "0 \<le> y" "y < sy"
  shows "\<exists>a'. set2 a x y v = Inr a' \<and> holds2 sx sy a' (F((x, y) := v))"
proof -
  have "set2 a x y v = Inr (a[nat x := (a ! nat x)[nat y := v]])" using assms by (simp add: holds2_def set2_def)
  moreover have "holds2 sx sy (a[nat x := (a ! nat x)[nat y := v]]) (F((x, y) := v))"
    using assms by (auto simp: holds2_def nth_list_update eq_nat_nat_iff)
  ultimately show ?thesis by blast
qed

lemma get3_ok: "\<lbrakk>holds3 sx sy sz a F; 0 \<le> x; x < sx; 0 \<le> y; y < sy; 0 \<le> z; z < sz\<rbrakk> \<Longrightarrow> get3 a x y z = Inr (F (x, y, z))"
  using get2_ok[of sy sz "a ! nat x" "\<lambda>(y, z). F (x, y, z)" y z] by (simp add: holds3_def get3_def)

lemma set3_ok:
  assumes h: "holds3 sx sy sz a F" and x: "0 \<le> x" "x < sx" and yz: "0 \<le> y" "y < sy" "0 \<le> z" "z < sz"
  shows "\<exists>a'. set3 a x y z v = Inr a' \<and> holds3 sx sy sz a' (F((x, y, z) := v))"
proof -
  have "holds2 sy sz (a ! nat x) (\<lambda>(y, z). F (x, y, z))" using h x by (simp add: holds3_def)
  from set2_ok[OF this yz, of v] obtain r where r: "set2 (a ! nat x) y z v = Inr r" "holds2 sy sz r ((\<lambda>(y, z). F (x, y, z))((y, z) := v))" by blast
  have "set3 a x y z v = Inr (a[nat x := r])" using h x r(1) by (simp add: holds3_def set3_def)
  moreover have "(\<lambda>(y', z'). (F((x, y, z) := v)) (x, y', z')) = (\<lambda>(y, z). F (x, y, z))((y, z) := v)" by (auto simp: fun_eq_iff)
  moreover have "(\<lambda>(y', z'). (F((x, y, z) := v)) (x', y', z')) = (\<lambda>(y, z). F (x', y, z))" if "x' \<noteq> x" for x' using that by (auto simp: fun_eq_iff)
  ultimately have "holds3 sx sy sz (a[nat x := r]) (F((x, y, z) := v))"
    using h x r(2) unfolding holds3_def by (auto simp: nth_list_update eq_nat_nat_iff simp del: fun_upd_apply)
  then show ?thesis using \<open>set3 a x y z v = Inr (a[nat x := r])\<close> by blast
qed

section \<open>Two dimensions\<close>

type_synonym bfs_cell_2d = "int \<times> int"

text \<open>The moves, in the order in which the constructor writes them; all cells of the new arrays are written.\<close>

definition add_action_2d :: "int \<Rightarrow> int \<Rightarrow> int \<times> int list \<times> int list \<Rightarrow> (int \<times> int list \<times> int list) result" where
  "add_action_2d x y = (\<lambda>(idx, dx, dy). if x = 0 \<and> y = 0 then Inr (idx, dx, dy)
     else ebind (arr_set dx idx x) (\<lambda>dx. ebind (arr_set dy idx y) (\<lambda>dy. Inr (idx + 1, dx, dy))))"

definition actions_2d :: "(int \<times> int list \<times> int list) result" where
  "actions_2d = efold (\<lambda>x. efold (add_action_2d x) [-1..1]) [-1..1] (0, replicate 8 0, replicate 8 0)"

definition space_2d :: "int \<Rightarrow> int \<Rightarrow> int list \<Rightarrow> int list \<Rightarrow> (bfs_cell_2d, int option list list, int list list) space" where
  "space_2d sx sy dx dy = \<lparr>cell_default = (0, 0), get_dist = (\<lambda>d (x, y). get2 d x y), set_dist = (\<lambda>d (x, y). set2 d x y),
     get_grid = (\<lambda>g (x, y). get2 g x y), inside = (\<lambda>(x, y). \<not> (x < 0 \<or> x \<ge> sx \<or> y < 0 \<or> y \<ge> sy)),
     boundary = (\<lambda>(x, y). x = 0 \<or> x = sx - 1 \<or> y = 0 \<or> y = sy - 1),
     action = (\<lambda>(x, y) i. ebind (arr_get dx i) (\<lambda>a. ebind (arr_get dy i) (\<lambda>b. Inr (x + a, y + b)))), num_actions = 8,
     all_cells = [(x, y). x \<leftarrow> [0..sx - 1], y \<leftarrow> [0..sy - 1]]\<rparr>"

record sbpl_bfs_2d =
  size_x2 :: int
  size_y2 :: int
  dx2 :: "int list"
  dy2 :: "int list"
  search2 :: "(bfs_cell_2d, int option list list) bfs"

definition space_of_2d :: "sbpl_bfs_2d \<Rightarrow> (bfs_cell_2d, int option list list, int list list) space" where
  "space_of_2d b = space_2d (size_x2 b) (size_y2 b) (dx2 b) (dy2 b)"

definition fifo_size_2d :: "int \<Rightarrow> int \<Rightarrow> int \<Rightarrow> int" where
  "fifo_size_2d sx sy fifo_size = (if fifo_size < 0 then (2 * sx + 2 * sy) mod 2 ^ 32 else fifo_size)"

definition sbpl_bfs_2d_new :: "int \<Rightarrow> int \<Rightarrow> int \<Rightarrow> int \<Rightarrow> sbpl_bfs_2d result" where
  "sbpl_bfs_2d_new sx sy obs_thresh fifo_size = (let x = to_int sx; y = to_int sy in
     if x < 0 \<or> (0 < x \<and> y < 0) then Inl LengthError
     else ebind actions_2d (\<lambda>(idx, dx, dy). Inr \<lparr>size_x2 = x, size_y2 = y, dx2 = dx, dy2 = dy,
       search2 = \<lparr>dist_array = replicate (nat x) (replicate (nat y) None), bfs_queue = fifo_new (0, 0) (fifo_size_2d sx sy fifo_size),
         bfs_thresh = obs_thresh\<rparr>\<rparr>))"

definition back_2d :: "sbpl_bfs_2d \<Rightarrow> (bool \<times> (bfs_cell_2d, int option list list) bfs) result option \<Rightarrow> (bool \<times> sbpl_bfs_2d) result option" where
  "back_2d b r = map_option (\<lambda>r. ebind r (\<lambda>(ok, s). Inr (ok, b\<lparr>search2 := s\<rparr>))) r"

definition compute_distance_from_point_2d :: "int list list \<Rightarrow> int \<Rightarrow> int \<Rightarrow> sbpl_bfs_2d \<Rightarrow> (bool \<times> sbpl_bfs_2d) result option" where
  "compute_distance_from_point_2d grid x y b = back_2d b (from_point (space_of_2d b) grid (x, y) (search2 b))"

definition compute_distance_from_points_2d :: "int list list \<Rightarrow> int list \<Rightarrow> int list \<Rightarrow> sbpl_bfs_2d \<Rightarrow> (bool \<times> sbpl_bfs_2d) result option" where
  "compute_distance_from_points_2d grid x y b =
     (if length x \<noteq> length y then Some (Inr (False, b)) else back_2d b (from_points (space_of_2d b) grid (zip x y) (search2 b)))"

definition compute_distance_from_obs_2d :: "int list list \<Rightarrow> sbpl_bfs_2d \<Rightarrow> (bool \<times> sbpl_bfs_2d) result option" where
  "compute_distance_from_obs_2d grid b = back_2d b (from_obs (space_of_2d b) grid (search2 b))"

definition get_distance_2d :: "int \<Rightarrow> int \<Rightarrow> sbpl_bfs_2d \<Rightarrow> int result" where
  "get_distance_2d x y b = get_distance (space_of_2d b) (x, y) (search2 b)"

text \<open>The specification: the cells, and the eight neighbours of a cell.\<close>

definition cells_2d :: "int \<Rightarrow> int \<Rightarrow> bfs_cell_2d set" where
  "cells_2d sx sy = {0..<sx} \<times> {0..<sy}"

definition moves_2d :: "bfs_cell_2d list" where
  "moves_2d = [(a, b). a \<leftarrow> [-1..1], b \<leftarrow> [-1..1], (a, b) \<noteq> (0, 0)]"

definition neighbours_2d :: "bfs_cell_2d \<Rightarrow> bfs_cell_2d list" where
  "neighbours_2d = (\<lambda>(x, y). map (\<lambda>(a, b). (x + a, y + b)) moves_2d)"

lemma moves_2d_eq: "moves_2d = [(-1, -1), (-1, 0), (-1, 1), (0, -1), (0, 1), (1, -1), (1, 0), (1, 1)]"
  by code_simp

lemma actions_2d_eq: "actions_2d = Inr (8, map fst moves_2d, map snd moves_2d)"
  by code_simp

lemma neighbours_2d_steps: "(c :: bfs_cell_2d) \<in> set (neighbours_2d (x, y)) \<Longrightarrow> \<bar>fst c - x\<bar> \<le> 1 \<and> \<bar>snd c - y\<bar> \<le> 1"
  by (auto simp: neighbours_2d_def moves_2d_eq)

interpretation two: dist_space "space_2d sx sy (map fst moves_2d) (map snd moves_2d)" "cells_2d sx sy" neighbours_2d "holds2 sx sy" "holds2 sx sy" for sx sy
proof (unfold_locales, goal_cases)
  case (1 d F c)
  then show ?case by (cases c) (auto simp: space_2d_def cells_2d_def get2_ok)
next
  case (2 d F c v)
  then show ?case by (cases c) (auto simp: space_2d_def cells_2d_def set2_ok)
next
  case (3 g G c)
  then show ?case by (cases c) (auto simp: space_2d_def cells_2d_def get2_ok)
next
  case (4 c)
  then show ?case by (cases c) (auto simp: space_2d_def cells_2d_def)
next
  case (5 c)
  then show ?case using neighbours_2d_steps by (cases c) (force simp: space_2d_def cells_2d_def)
next
  case (6 c)
  then show ?case by (cases c) (simp add: space_2d_def neighbours_2d_def moves_2d_eq)
next
  case (7 i c)
  have "nat i < length moves_2d" using 7 by (simp add: space_2d_def moves_2d_eq)
  then show ?case using 7 by (cases c) (auto simp: space_2d_def neighbours_2d_def split_beta)
next
  case 8
  then show ?case by (auto simp: space_2d_def cells_2d_def)
next
  case 9
  have "distinct (List.product [0..sx - 1] [0..sy - 1])" by (rule distinct_product) auto
  then show ?case by (simp add: space_2d_def product_concat_map)
qed

text \<open>An object of the given sizes, with room for \<open>cap\<close> cells in its queue, new or after a search.\<close>

definition ready_2d :: "int \<Rightarrow> int \<Rightarrow> int \<Rightarrow> nat \<Rightarrow> sbpl_bfs_2d \<Rightarrow> bool" where
  "ready_2d sx sy th cap b \<longleftrightarrow> size_x2 b = sx \<and> size_y2 b = sy \<and> dx2 b = map fst moves_2d \<and> dy2 b = map snd moves_2d \<and>
     bfs_thresh (search2 b) = th \<and> (\<exists>F. holds2 sx sy (dist_array (search2 b)) F) \<and> (\<exists>Q. ring cap (bfs_queue (search2 b)) Q)"

text \<open>The answer of a search: its object gives the distances from the cells \<open>S\<close> over the cells below the threshold.\<close>

definition reports_2d :: "int \<Rightarrow> int \<Rightarrow> int \<Rightarrow> nat \<Rightarrow> int list list \<Rightarrow> bfs_cell_2d set \<Rightarrow> (bool \<times> sbpl_bfs_2d) result option \<Rightarrow> bool" where
  "reports_2d sx sy th cap grid S r \<longleftrightarrow> (\<exists>b D. r = Some (Inr (True, b)) \<and> ready_2d sx sy th cap b \<and>
     distances_from (cells_2d sx sy) (\<lambda>(x, y). grid ! nat x ! nat y < th) neighbours_2d S D \<and>
     (\<forall>x y. (x, y) \<in> cells_2d sx sy \<longrightarrow> get_distance_2d x y b = Inr (D (x, y))))"

definition grid_2d :: "int \<Rightarrow> int \<Rightarrow> int list list \<Rightarrow> bool" where
  "grid_2d sx sy grid \<longleftrightarrow> int (length grid) = sx \<and> (\<forall>r \<in> set grid. int (length r) = sy)"

lemma grid_2d_holds: "grid_2d sx sy grid \<Longrightarrow> holds2 sx sy grid (\<lambda>(x, y). grid ! nat x ! nat y)"
  by (auto simp: grid_2d_def holds2_def)

lemma card_cells_2d: "\<lbrakk>0 \<le> sx; 0 \<le> sy\<rbrakk> \<Longrightarrow> int (card (cells_2d sx sy)) = sx * sy"
  by (simp add: cells_2d_def card_cartesian_product)

lemma ready_space: "ready_2d sx sy th cap b \<Longrightarrow> space_of_2d b = space_2d sx sy (map fst moves_2d) (map snd moves_2d)"
  by (simp add: ready_2d_def space_of_2d_def)

lemma ready_usable: "ready_2d sx sy th cap b \<Longrightarrow> two.usable sx sy th cap (search2 b)"
  by (auto simp: ready_2d_def two.usable_def)

lemma two_reports:
  assumes "ready_2d sx sy th cap b" "two.reports sx sy (\<lambda>(x, y). grid ! nat x ! nat y) th cap S r"
  shows "reports_2d sx sy th cap grid S (back_2d b r)"
proof -
  obtain s D where s: "r = Some (Inr (True, s))" "two.usable sx sy th cap s"
    "distances_from (cells_2d sx sy) (\<lambda>c. (case c of (x, y) \<Rightarrow> grid ! nat x ! nat y) < th) neighbours_2d S D"
    "\<forall>c \<in> cells_2d sx sy. get_distance (space_2d sx sy (map fst moves_2d) (map snd moves_2d)) c s = Inr (D c)"
    using assms(2) by (auto simp: two.reports_def)
  have "ready_2d sx sy th cap (b\<lparr>search2 := s\<rparr>)" using assms(1) s(2) by (auto simp: ready_2d_def two.usable_def)
  moreover have "(\<lambda>c. (case c of (x, y) \<Rightarrow> grid ! nat x ! nat y) < th) = (\<lambda>(x, y). grid ! nat x ! nat y < th)" by auto
  ultimately show ?thesis using s ready_space[of sx sy th cap "b\<lparr>search2 := s\<rparr>"]
    unfolding reports_2d_def by (intro exI[of _ "b\<lparr>search2 := s\<rparr>"] exI[of _ D]) (auto simp: back_2d_def get_distance_2d_def)
qed

lemma new_2d_ready:
  assumes "0 \<le> sx" "sx \<le> INT_MAX" "0 \<le> sy" "sy \<le> INT_MAX" "0 < fs" "fs \<le> INT_MAX"
  shows "\<exists>b. sbpl_bfs_2d_new sx sy th fs = Inr b \<and> ready_2d sx sy th (nat fs - 1) b"
proof -
  have h: "holds2 sx sy (replicate (nat sx) (replicate (nat sy) None)) (\<lambda>c. None)" by (simp add: holds2_def)
  have "sbpl_bfs_2d_new sx sy th fs = Inr \<lparr>size_x2 = sx, size_y2 = sy, dx2 = map fst moves_2d, dy2 = map snd moves_2d,
    search2 = \<lparr>dist_array = replicate (nat sx) (replicate (nat sy) None), bfs_queue = fifo_new (0, 0) fs, bfs_thresh = th\<rparr>\<rparr>"
    using assms by (simp add: sbpl_bfs_2d_new_def actions_2d_eq to_int_def fifo_size_2d_def Let_def)
  then show ?thesis using h ring_new[OF assms(5,6), of "(0, 0)"] by (auto simp: ready_2d_def)
qed

text \<open>
  C33. sbpl_bfs_2d, built with a queue of more than size_x * size_y entries, computes distances: after compute_distance_from_point, from_points or from_obs (on a
  new object, or on one that has searched before) get_distance is for every cell the least number of moves to one of the eight neighbours, over cells below
  the threshold, from the point, the points or the obstacles, and -1 where no such walk leads. The search ends, writes only inside
  its arrays and reads no cell before it is written. A point outside the grid is refused with false. For from_points the points are cells of the grid, and when
  a point is given more than once the queue must also have room for all of them: more than size_x * size_y plus their number of entries.
\<close>

theorem bfs_2d_distances:
  assumes size: "0 \<le> sx" "sx \<le> INT_MAX" "0 \<le> sy" "sy \<le> INT_MAX" and queue: "sx * sy < fs" "fs \<le> INT_MAX" and grid: "grid_2d sx sy grid"
  shows "(\<exists>b. sbpl_bfs_2d_new sx sy th fs = Inr b \<and> ready_2d sx sy th (nat fs - 1) b) \<and>
    (\<forall>b. ready_2d sx sy th (nat fs - 1) b \<longrightarrow>
      (\<forall>x y. if (x, y) \<in> cells_2d sx sy then reports_2d sx sy th (nat fs - 1) grid {(x, y)} (compute_distance_from_point_2d grid x y b)
         else compute_distance_from_point_2d grid x y b = Some (Inr (False, b))) \<and>
      (\<forall>xs ys. length xs = length ys \<and> set (zip xs ys) \<subseteq> cells_2d sx sy \<and>
           (distinct (zip xs ys) \<or> sx * sy + int (length xs) < fs) \<longrightarrow>
         reports_2d sx sy th (nat fs - 1) grid (set (zip xs ys)) (compute_distance_from_points_2d grid xs ys b)) \<and>
      reports_2d sx sy th (nat fs - 1) grid {(x, y) \<in> cells_2d sx sy. grid ! nat x ! nat y \<ge> th} (compute_distance_from_obs_2d grid b))"
proof (intro conjI allI impI)
  have pos: "0 < fs" using size(1,3) queue(1) by (smt (verit) mult_nonneg_nonneg)
  show "\<exists>b. sbpl_bfs_2d_new sx sy th fs = Inr b \<and> ready_2d sx sy th (nat fs - 1) b" by (rule new_2d_ready[OF size pos queue(2)])
  fix b assume b: "ready_2d sx sy th (nat fs - 1) b"
  note sp = ready_space[OF b] and us = ready_usable[OF b] and g = grid_2d_holds[OF grid]
  have card: "int (card (cells_2d sx sy)) < INT_MAX" "card (cells_2d sx sy) \<le> nat fs - 1"
    using card_cells_2d[OF size(1,3)] queue by auto
  show "if (x, y) \<in> cells_2d sx sy then reports_2d sx sy th (nat fs - 1) grid {(x, y)} (compute_distance_from_point_2d grid x y b)
      else compute_distance_from_point_2d grid x y b = Some (Inr (False, b))" for x y
    using two_reports[OF b two.from_point_ok[OF g card(1) us _ card(2), of "(x, y)"]] sp two.inside_iff[of sx sy "(x, y)"]
    by (auto simp: compute_distance_from_point_2d_def from_point_def then_distances_def back_2d_def)
  show "reports_2d sx sy th (nat fs - 1) grid (set (zip xs ys)) (compute_distance_from_points_2d grid xs ys b)"
    if "length xs = length ys \<and> set (zip xs ys) \<subseteq> cells_2d sx sy \<and> (distinct (zip xs ys) \<or> sx * sy + int (length xs) < fs)" for xs ys
  proof -
    have "card (cells_2d sx sy) + length (zip xs ys) \<le> nat fs - 1 \<or> distinct (zip xs ys) \<and> card (cells_2d sx sy) \<le> nat fs - 1"
      using that card_cells_2d[OF size(1,3)] card(2) by auto
    then show ?thesis using two_reports[OF b two.from_points_ok[OF g card(1) us, of "zip xs ys"]] sp that
      by (simp add: compute_distance_from_points_2d_def)
  qed
  show "reports_2d sx sy th (nat fs - 1) grid {(x, y) \<in> cells_2d sx sy. grid ! nat x ! nat y \<ge> th} (compute_distance_from_obs_2d grid b)"
    using two_reports[OF b two.from_obs_ok[OF g card(1) us card(2)]] sp by (simp add: compute_distance_from_obs_2d_def split_def)
qed

theorem bfs_2d_distances_witness:
  "\<exists>b. sbpl_bfs_2d_new 2 2 1 10 = Inr b \<and>
     reports_2d 2 2 1 9 [[0, 0], [0, 1]] {(1, 1)} (compute_distance_from_obs_2d [[0, 0], [0, 1]] b) \<and>
     reports_2d 2 2 1 9 [[0, 0], [0, 1]] {(0, 1)} (compute_distance_from_point_2d [[0, 0], [0, 1]] 0 1 b)"
proof -
  have obs: "{(x, y) \<in> cells_2d 2 2. [[0, 0], [0, 1 :: int]] ! nat x ! nat y \<ge> 1} = {(1, 1)}"
    by (auto simp: cells_2d_def numeral_2_eq_2 nth_Cons' split: if_splits)
  have c: "(0, 1) \<in> cells_2d 2 2" by (simp add: cells_2d_def)
  have nine: "nat 10 - 1 = 9" by simp
  have all: "(\<exists>b. sbpl_bfs_2d_new 2 2 1 10 = Inr b \<and> ready_2d 2 2 1 9 b) \<and> (\<forall>b. ready_2d 2 2 1 9 b \<longrightarrow>
      (\<forall>x y. if (x, y) \<in> cells_2d 2 2 then reports_2d 2 2 1 9 [[0, 0], [0, 1]] {(x, y)} (compute_distance_from_point_2d [[0, 0], [0, 1]] x y b)
         else compute_distance_from_point_2d [[0, 0], [0, 1]] x y b = Some (Inr (False, b))) \<and>
      reports_2d 2 2 1 9 [[0, 0], [0, 1]] {(1, 1)} (compute_distance_from_obs_2d [[0, 0], [0, 1]] b))"
    using bfs_2d_distances[of 2 2 10 "[[0, 0], [0, 1]]" 1] unfolding obs nine by (simp add: INT_MAX_def grid_2d_def)
  then obtain b where b: "sbpl_bfs_2d_new 2 2 1 10 = Inr b" "ready_2d 2 2 1 9 b" by blast
  have "if (0, 1) \<in> cells_2d 2 2 then reports_2d 2 2 1 9 [[0, 0], [0, 1]] {(0, 1)} (compute_distance_from_point_2d [[0, 0], [0, 1]] 0 1 b)
      else compute_distance_from_point_2d [[0, 0], [0, 1]] 0 1 b = Some (Inr (False, b))"
    "reports_2d 2 2 1 9 [[0, 0], [0, 1]] {(1, 1)} (compute_distance_from_obs_2d [[0, 0], [0, 1]] b)" using all b(2) by blast+
  then show ?thesis using b(1) c by simp
qed

declare run_loop.simps [code]

text \<open>
  The queue of the default size 2 * sx + 2 * sy is too small: on a grid of 6 by 6 cells whose first five rows are obstacles, compute_distance_from_obs
  loses the seven obstacles that come last, without a word to the caller, and the cells of the free row keep the
  distance -1 although each of them has an obstacle beside it.
\<close>

theorem bfs_default_queue_loses_cells:
  "(case sbpl_bfs_2d_new 6 6 1 (- 1) of Inl e \<Rightarrow> None
     | Inr b \<Rightarrow> map_option (\<lambda>r. ebind r (\<lambda>(ok, b). ebind (get_distance_2d 5 5 b) (\<lambda>d. Inr (ok, d))))
         (compute_distance_from_obs_2d (replicate 5 (replicate 6 1) @ [replicate 6 0]) b)) = Some (Inr (True, - 1))"
  by code_simp

end
