(* ===== verification/Sbpl_Bfs_3d.thy ===== *)
theory Sbpl_Bfs_3d
  imports Sbpl_Bfs_Grids
begin

text \<open>The search in three dimensions, \<open>src/libsbpl/src/utils/sbpl_bfs_3d.h\<close>: the second instance of \<open>Sbpl_Bfs\<close>.\<close>

section \<open>The class\<close>

type_synonym bfs_cell_3d = "int \<times> int \<times> int"

definition add_action_3d :: "int \<Rightarrow> int \<Rightarrow> int \<Rightarrow> int \<times> int list \<times> int list \<times> int list \<Rightarrow> (int \<times> int list \<times> int list \<times> int list) result" where
  "add_action_3d x y z = (\<lambda>(idx, dx, dy, dz). if x = 0 \<and> y = 0 \<and> z = 0 then Inr (idx, dx, dy, dz)
     else ebind (arr_set dx idx x) (\<lambda>dx. ebind (arr_set dy idx y) (\<lambda>dy. ebind (arr_set dz idx z) (\<lambda>dz. Inr (idx + 1, dx, dy, dz)))))"

definition actions_3d :: "(int \<times> int list \<times> int list \<times> int list) result" where
  "actions_3d = efold (\<lambda>x. efold (\<lambda>y. efold (add_action_3d x y) [-1..1]) [-1..1]) [-1..1]
     (0, replicate 26 0, replicate 26 0, replicate 26 0)"

definition space_3d :: "int \<Rightarrow> int \<Rightarrow> int \<Rightarrow> int list \<Rightarrow> int list \<Rightarrow> int list \<Rightarrow> (bfs_cell_3d, int option list list list, int list list list) space" where
  "space_3d sx sy sz dx dy dz = \<lparr>cell_default = (0, 0, 0), get_dist = (\<lambda>d (x, y, z). get3 d x y z), set_dist = (\<lambda>d (x, y, z). set3 d x y z),
     get_grid = (\<lambda>g (x, y, z). get3 g x y z), inside = (\<lambda>(x, y, z). \<not> (x < 0 \<or> x \<ge> sx \<or> y < 0 \<or> y \<ge> sy \<or> z < 0 \<or> z \<ge> sz)),
     boundary = (\<lambda>(x, y, z). x = 0 \<or> x = sx - 1 \<or> y = 0 \<or> y = sy - 1 \<or> z = 0 \<or> z = sz - 1),
     action = (\<lambda>(x, y, z) i. ebind (arr_get dx i) (\<lambda>a. ebind (arr_get dy i) (\<lambda>b. ebind (arr_get dz i) (\<lambda>c. Inr (x + a, y + b, z + c))))),
     num_actions = 26, all_cells = [(x, y, z). x \<leftarrow> [0..sx - 1], y \<leftarrow> [0..sy - 1], z \<leftarrow> [0..sz - 1]]\<rparr>"

record sbpl_bfs_3d =
  size_x3 :: int
  size_y3 :: int
  size_z3 :: int
  dx3 :: "int list"
  dy3 :: "int list"
  dz3 :: "int list"
  search3 :: "(bfs_cell_3d, int option list list list) bfs"

definition space_of_3d :: "sbpl_bfs_3d \<Rightarrow> (bfs_cell_3d, int option list list list, int list list list) space" where
  "space_of_3d b = space_3d (size_x3 b) (size_y3 b) (size_z3 b) (dx3 b) (dy3 b) (dz3 b)"

definition fifo_size_3d :: "int \<Rightarrow> int \<Rightarrow> int \<Rightarrow> int \<Rightarrow> int" where
  "fifo_size_3d sx sy sz fifo_size = (if fifo_size < 0 then (2 * sx * sy + 2 * sx * sz + 2 * sy * sz) mod 2 ^ 32 else fifo_size)"

definition sbpl_bfs_3d_new :: "int \<Rightarrow> int \<Rightarrow> int \<Rightarrow> int \<Rightarrow> int \<Rightarrow> sbpl_bfs_3d result" where
  "sbpl_bfs_3d_new sx sy sz obs_thresh fifo_size = (let x = to_int sx; y = to_int sy; z = to_int sz in
     if x < 0 \<or> (0 < x \<and> (y < 0 \<or> (0 < y \<and> z < 0))) then Inl LengthError
     else ebind actions_3d (\<lambda>(idx, dx, dy, dz). Inr \<lparr>size_x3 = x, size_y3 = y, size_z3 = z, dx3 = dx, dy3 = dy, dz3 = dz,
       search3 = \<lparr>dist_array = replicate (nat x) (replicate (nat y) (replicate (nat z) None)),
         bfs_queue = fifo_new (0, 0, 0) (fifo_size_3d sx sy sz fifo_size), bfs_thresh = obs_thresh\<rparr>\<rparr>))"

definition back_3d :: "sbpl_bfs_3d \<Rightarrow> (bool \<times> (bfs_cell_3d, int option list list list) bfs) result option \<Rightarrow> (bool \<times> sbpl_bfs_3d) result option" where
  "back_3d b r = map_option (\<lambda>r. ebind r (\<lambda>(ok, s). Inr (ok, b\<lparr>search3 := s\<rparr>))) r"

definition clear_distances_3d :: "sbpl_bfs_3d \<Rightarrow> sbpl_bfs_3d result" where
  "clear_distances_3d b = ebind (clear_distances (space_of_3d b) (search3 b)) (\<lambda>s. Inr (b\<lparr>search3 := s\<rparr>))"

definition compute_distances_3d :: "int list list list \<Rightarrow> sbpl_bfs_3d \<Rightarrow> (bool \<times> sbpl_bfs_3d) result option" where
  "compute_distances_3d grid b = back_3d b (compute_distances (space_of_3d b) grid (search3 b))"

definition compute_distance_from_point_3d :: "int list list list \<Rightarrow> int \<Rightarrow> int \<Rightarrow> int \<Rightarrow> sbpl_bfs_3d \<Rightarrow> (bool \<times> sbpl_bfs_3d) result option" where
  "compute_distance_from_point_3d grid x y z b = back_3d b (from_point (space_of_3d b) grid (x, y, z) (search3 b))"

definition compute_distance_from_points_3d :: "int list list list \<Rightarrow> int list \<Rightarrow> int list \<Rightarrow> int list \<Rightarrow> sbpl_bfs_3d \<Rightarrow> (bool \<times> sbpl_bfs_3d) result option" where
  "compute_distance_from_points_3d grid x y z b = (if length x \<noteq> length y \<or> length x \<noteq> length z then Some (Inr (False, b))
     else back_3d b (from_points (space_of_3d b) grid (zip x (zip y z)) (search3 b)))"

definition compute_distance_from_obs_3d :: "int list list list \<Rightarrow> sbpl_bfs_3d \<Rightarrow> (bool \<times> sbpl_bfs_3d) result option" where
  "compute_distance_from_obs_3d grid b = back_3d b (from_obs (space_of_3d b) grid (search3 b))"

definition get_distance_3d :: "int \<Rightarrow> int \<Rightarrow> int \<Rightarrow> sbpl_bfs_3d \<Rightarrow> int result" where
  "get_distance_3d x y z b = get_distance (space_of_3d b) (x, y, z) (search3 b)"

section \<open>The instance\<close>

definition cells_3d :: "int \<Rightarrow> int \<Rightarrow> int \<Rightarrow> bfs_cell_3d set" where
  "cells_3d sx sy sz = {0..<sx} \<times> {0..<sy} \<times> {0..<sz}"

definition moves_3d :: "bfs_cell_3d list" where
  "moves_3d = [(a, b, c). a \<leftarrow> [-1..1], b \<leftarrow> [-1..1], c \<leftarrow> [-1..1], (a, b, c) \<noteq> (0, 0, 0)]"

definition neighbours_3d :: "bfs_cell_3d \<Rightarrow> bfs_cell_3d list" where
  "neighbours_3d = (\<lambda>(x, y, z). map (\<lambda>(a, b, c). (x + a, y + b, z + c)) moves_3d)"

lemma actions_3d_eq: "actions_3d = Inr (26, map fst moves_3d, map (fst \<circ> snd) moves_3d, map (snd \<circ> snd) moves_3d)"
  by code_simp

lemma moves_3d_length: "length moves_3d = 26"
  by code_simp

lemma neighbours_3d_steps: "(u, v, w) \<in> set (neighbours_3d (x, y, z)) \<Longrightarrow> \<bar>u - x\<bar> \<le> 1 \<and> \<bar>v - y\<bar> \<le> 1 \<and> \<bar>w - z\<bar> \<le> 1"
  by (auto simp: neighbours_3d_def moves_3d_def)

interpretation three: dist_space "space_3d sx sy sz (map fst moves_3d) (map (fst \<circ> snd) moves_3d) (map (snd \<circ> snd) moves_3d)"
  "cells_3d sx sy sz" neighbours_3d "holds3 sx sy sz" "holds3 sx sy sz" for sx sy sz
proof (unfold_locales, goal_cases)
  case (1 d F c)
  then show ?case by (cases c) (auto simp: space_3d_def cells_3d_def get3_ok)
next
  case (2 d F c v)
  then show ?case by (cases c) (auto simp: space_3d_def cells_3d_def set3_ok)
next
  case (3 g G c)
  then show ?case by (cases c) (auto simp: space_3d_def cells_3d_def get3_ok)
next
  case (4 c)
  then show ?case by (cases c) (auto simp: space_3d_def cells_3d_def)
next
  case (5 c)
  then show ?case using neighbours_3d_steps by (cases c) (force simp: space_3d_def cells_3d_def)
next
  case (6 c)
  then show ?case by (cases c) (simp add: space_3d_def neighbours_3d_def moves_3d_length)
next
  case (7 i c)
  have "nat i < length moves_3d" using 7 by (simp add: space_3d_def moves_3d_length)
  then show ?case using 7 by (cases c) (auto simp: space_3d_def neighbours_3d_def moves_3d_length split_beta)
next
  case 8
  have "set (List.product [0..sx - 1] (List.product [0..sy - 1] [0..sz - 1])) = cells_3d sx sy sz" by (auto simp: cells_3d_def)
  then show ?case by (simp add: space_3d_def product_concat_map map_concat comp_def)
next
  case 9
  have "distinct (List.product [0..sx - 1] (List.product [0..sy - 1] [0..sz - 1]))" by (intro distinct_product) auto
  then show ?case by (simp add: space_3d_def product_concat_map map_concat comp_def)
qed

section \<open>Correctness\<close>

definition ready_3d :: "int \<Rightarrow> int \<Rightarrow> int \<Rightarrow> int \<Rightarrow> nat \<Rightarrow> sbpl_bfs_3d \<Rightarrow> bool" where
  "ready_3d sx sy sz th cap b \<longleftrightarrow> size_x3 b = sx \<and> size_y3 b = sy \<and> size_z3 b = sz \<and>
     dx3 b = map fst moves_3d \<and> dy3 b = map (fst \<circ> snd) moves_3d \<and> dz3 b = map (snd \<circ> snd) moves_3d \<and>
     bfs_thresh (search3 b) = th \<and> (\<exists>F. holds3 sx sy sz (dist_array (search3 b)) F) \<and> (\<exists>Q. ring cap (bfs_queue (search3 b)) Q)"

definition reports_3d :: "int \<Rightarrow> int \<Rightarrow> int \<Rightarrow> int \<Rightarrow> nat \<Rightarrow> int list list list \<Rightarrow> bfs_cell_3d set \<Rightarrow> (bool \<times> sbpl_bfs_3d) result option \<Rightarrow> bool" where
  "reports_3d sx sy sz th cap grid S r \<longleftrightarrow> (\<exists>b D. r = Some (Inr (True, b)) \<and> ready_3d sx sy sz th cap b \<and>
     distances_from (cells_3d sx sy sz) (\<lambda>(x, y, z). grid ! nat x ! nat y ! nat z < th) neighbours_3d S D \<and>
     (\<forall>x y z. (x, y, z) \<in> cells_3d sx sy sz \<longrightarrow> get_distance_3d x y z b = Inr (D (x, y, z))))"

definition grid_3d :: "int \<Rightarrow> int \<Rightarrow> int \<Rightarrow> int list list list \<Rightarrow> bool" where
  "grid_3d sx sy sz grid \<longleftrightarrow> int (length grid) = sx \<and> (\<forall>g \<in> set grid. grid_2d sy sz g)"

lemma grid_3d_holds: "grid_3d sx sy sz grid \<Longrightarrow> holds3 sx sy sz grid (\<lambda>(x, y, z). grid ! nat x ! nat y ! nat z)"
  using grid_2d_holds[of sy sz] by (fastforce simp: grid_3d_def holds3_def)

lemma card_cells_3d: "\<lbrakk>0 \<le> sx; 0 \<le> sy; 0 \<le> sz\<rbrakk> \<Longrightarrow> int (card (cells_3d sx sy sz)) = sx * sy * sz"
  by (simp add: cells_3d_def card_cartesian_product)

lemma ready_space_3d: "ready_3d sx sy sz th cap b \<Longrightarrow>
  space_of_3d b = space_3d sx sy sz (map fst moves_3d) (map (fst \<circ> snd) moves_3d) (map (snd \<circ> snd) moves_3d)"
  by (simp add: ready_3d_def space_of_3d_def)

lemma ready_usable_3d: "ready_3d sx sy sz th cap b \<Longrightarrow> three.usable sx sy sz th cap (search3 b)"
  by (auto simp: ready_3d_def three.usable_def)

lemma three_reports:
  assumes "ready_3d sx sy sz th cap b" "three.reports sx sy sz (\<lambda>(x, y, z). grid ! nat x ! nat y ! nat z) th cap S r"
  shows "reports_3d sx sy sz th cap grid S (back_3d b r)"
proof -
  obtain s D where s: "r = Some (Inr (True, s))" "three.usable sx sy sz th cap s"
    "distances_from (cells_3d sx sy sz) (\<lambda>c. (case c of (x, y, z) \<Rightarrow> grid ! nat x ! nat y ! nat z) < th) neighbours_3d S D"
    "\<forall>c \<in> cells_3d sx sy sz. get_distance (space_3d sx sy sz (map fst moves_3d) (map (fst \<circ> snd) moves_3d) (map (snd \<circ> snd) moves_3d)) c s = Inr (D c)"
    using assms(2) by (auto simp: three.reports_def)
  have r: "ready_3d sx sy sz th cap (b\<lparr>search3 := s\<rparr>)" using assms(1) s(2) by (auto simp: ready_3d_def three.usable_def)
  have "(\<lambda>c. (case c of (x, y, z) \<Rightarrow> grid ! nat x ! nat y ! nat z) < th) = (\<lambda>(x, y, z). grid ! nat x ! nat y ! nat z < th)" by auto
  then show ?thesis using s r ready_space_3d[OF r]
    unfolding reports_3d_def by (intro exI[of _ "b\<lparr>search3 := s\<rparr>"] exI[of _ D]) (auto simp: back_3d_def get_distance_3d_def)
qed

lemma new_3d_ready:
  assumes "0 \<le> sx" "sx \<le> INT_MAX" "0 \<le> sy" "sy \<le> INT_MAX" "0 \<le> sz" "sz \<le> INT_MAX" "0 < fs" "fs \<le> INT_MAX"
  shows "\<exists>b. sbpl_bfs_3d_new sx sy sz th fs = Inr b \<and> ready_3d sx sy sz th (nat fs - 1) b"
proof -
  have h: "holds3 sx sy sz (replicate (nat sx) (replicate (nat sy) (replicate (nat sz) None))) (\<lambda>c. None)"
    by (simp add: holds3_def holds2_def split_def)
  have "sbpl_bfs_3d_new sx sy sz th fs = Inr \<lparr>size_x3 = sx, size_y3 = sy, size_z3 = sz,
    dx3 = map fst moves_3d, dy3 = map (fst \<circ> snd) moves_3d, dz3 = map (snd \<circ> snd) moves_3d,
    search3 = \<lparr>dist_array = replicate (nat sx) (replicate (nat sy) (replicate (nat sz) None)), bfs_queue = fifo_new (0, 0, 0) fs, bfs_thresh = th\<rparr>\<rparr>"
    using assms by (simp add: sbpl_bfs_3d_new_def actions_3d_eq to_int_def fifo_size_3d_def Let_def)
  then show ?thesis using h ring_new[OF assms(7,8), of "(0, 0, 0)"] by (auto simp: ready_3d_def)
qed

text \<open>
  C34. sbpl_bfs_3d, built with a queue of more entries than the grid has cells, computes distances in the same sense: get_distance is for every cell the least
  number of moves to one of the 26 neighbours, over cells below the threshold, from the point, the points or the
  obstacles, and -1 where no such walk leads; a point outside the grid is refused with false. For from_points the points are cells of the grid, and when a point is
  given more than once the queue must have more entries than the cells and the given points together.
\<close>

theorem bfs_3d_distances:
  assumes size: "0 \<le> sx" "sx \<le> INT_MAX" "0 \<le> sy" "sy \<le> INT_MAX" "0 \<le> sz" "sz \<le> INT_MAX"
    and queue: "sx * sy * sz < fs" "fs \<le> INT_MAX" and grid: "grid_3d sx sy sz grid"
  shows "(\<exists>b. sbpl_bfs_3d_new sx sy sz th fs = Inr b \<and> ready_3d sx sy sz th (nat fs - 1) b) \<and>
    (\<forall>b. ready_3d sx sy sz th (nat fs - 1) b \<longrightarrow>
      (\<forall>x y z. if (x, y, z) \<in> cells_3d sx sy sz
         then reports_3d sx sy sz th (nat fs - 1) grid {(x, y, z)} (compute_distance_from_point_3d grid x y z b)
         else compute_distance_from_point_3d grid x y z b = Some (Inr (False, b))) \<and>
      (\<forall>xs ys zs. length xs = length ys \<and> length xs = length zs \<and> set (zip xs (zip ys zs)) \<subseteq> cells_3d sx sy sz \<and>
           (distinct (zip xs (zip ys zs)) \<or> sx * sy * sz + int (length xs) < fs) \<longrightarrow>
         reports_3d sx sy sz th (nat fs - 1) grid (set (zip xs (zip ys zs))) (compute_distance_from_points_3d grid xs ys zs b)) \<and>
      reports_3d sx sy sz th (nat fs - 1) grid {(x, y, z) \<in> cells_3d sx sy sz. grid ! nat x ! nat y ! nat z \<ge> th} (compute_distance_from_obs_3d grid b))"
proof (intro conjI allI impI)
  have pos: "0 < fs" using mult_nonneg_nonneg[OF mult_nonneg_nonneg[OF size(1,3)] size(5)] queue(1) by linarith
  show "\<exists>b. sbpl_bfs_3d_new sx sy sz th fs = Inr b \<and> ready_3d sx sy sz th (nat fs - 1) b" by (rule new_3d_ready[OF size pos queue(2)])
  fix b assume b: "ready_3d sx sy sz th (nat fs - 1) b"
  note sp = ready_space_3d[OF b] and us = ready_usable_3d[OF b] and g = grid_3d_holds[OF grid]
  have card: "int (card (cells_3d sx sy sz)) < INT_MAX" "card (cells_3d sx sy sz) \<le> nat fs - 1"
    using card_cells_3d[OF size(1,3,5)] queue by auto
  show "if (x, y, z) \<in> cells_3d sx sy sz then reports_3d sx sy sz th (nat fs - 1) grid {(x, y, z)} (compute_distance_from_point_3d grid x y z b)
      else compute_distance_from_point_3d grid x y z b = Some (Inr (False, b))" for x y z
    using three_reports[OF b three.from_point_ok[OF g card(1) us _ card(2), of "(x, y, z)"]] sp three.inside_iff[of sx sy sz "(x, y, z)"]
    by (auto simp: compute_distance_from_point_3d_def from_point_def then_distances_def back_3d_def)
  show "reports_3d sx sy sz th (nat fs - 1) grid (set (zip xs (zip ys zs))) (compute_distance_from_points_3d grid xs ys zs b)"
    if "length xs = length ys \<and> length xs = length zs \<and> set (zip xs (zip ys zs)) \<subseteq> cells_3d sx sy sz \<and>
      (distinct (zip xs (zip ys zs)) \<or> sx * sy * sz + int (length xs) < fs)" for xs ys zs
  proof -
    have "card (cells_3d sx sy sz) + length (zip xs (zip ys zs)) \<le> nat fs - 1 \<or>
        distinct (zip xs (zip ys zs)) \<and> card (cells_3d sx sy sz) \<le> nat fs - 1"
      using that card_cells_3d[OF size(1,3,5)] card(2) by auto
    then show ?thesis using three_reports[OF b three.from_points_ok[OF g card(1) us, of "zip xs (zip ys zs)"]] sp that
      by (simp add: compute_distance_from_points_3d_def)
  qed
  show "reports_3d sx sy sz th (nat fs - 1) grid {(x, y, z) \<in> cells_3d sx sy sz. grid ! nat x ! nat y ! nat z \<ge> th} (compute_distance_from_obs_3d grid b)"
    using three_reports[OF b three.from_obs_ok[OF g card(1) us card(2)]] sp by (simp add: compute_distance_from_obs_3d_def split_def)
qed

theorem bfs_3d_distances_witness:
  "\<exists>b. sbpl_bfs_3d_new 1 1 2 1 9 = Inr b \<and>
     reports_3d 1 1 2 1 8 [[[0, 1]]] {(0, 0, 1)} (compute_distance_from_point_3d [[[0, 1]]] 0 0 1 b)"
proof -
  have c: "(0, 0, 1) \<in> cells_3d 1 1 2" by (simp add: cells_3d_def)
  have eight: "nat 9 - 1 = 8" by simp
  have "(\<exists>b. sbpl_bfs_3d_new 1 1 2 1 9 = Inr b \<and> ready_3d 1 1 2 1 8 b) \<and> (\<forall>b. ready_3d 1 1 2 1 8 b \<longrightarrow>
      (\<forall>x y z. if (x, y, z) \<in> cells_3d 1 1 2 then reports_3d 1 1 2 1 8 [[[0, 1]]] {(x, y, z)} (compute_distance_from_point_3d [[[0, 1]]] x y z b)
         else compute_distance_from_point_3d [[[0, 1]]] x y z b = Some (Inr (False, b))))"
    using bfs_3d_distances[of 1 1 2 9 "[[[0, 1]]]" 1] unfolding eight by (simp add: INT_MAX_def grid_3d_def grid_2d_def)
  then obtain b where b: "sbpl_bfs_3d_new 1 1 2 1 9 = Inr b"
    "if (0, 0, 1) \<in> cells_3d 1 1 2 then reports_3d 1 1 2 1 8 [[[0, 1]]] {(0, 0, 1)} (compute_distance_from_point_3d [[[0, 1]]] 0 0 1 b)
     else compute_distance_from_point_3d [[[0, 1]]] 0 0 1 b = Some (Inr (False, b))" by blast
  then show ?thesis using c by simp
qed

end
