(* ===== verification/Ubvec.thy ===== *)
theory Ubvec
  imports Op_Refinement
begin

text \<open>
  The growing array of states \<open>ubvec\<close> of \<open>src/libsbpl/src/include/sbpl/planners/ubvec.h\<close>, as one thread uses it. Its cells lie in up to 32 vectors,
  made when first needed and never moved, so that a pointer to a cell stays valid; a pointer is the pair of a vector and a position in it. A null vector is
  \<open>None\<close>. It refines a map from numbers to states; numbers the vectors cannot hold are errors.
\<close>

section \<open>The code\<close>

record 't ubvec =
  ub_init :: "int list"
  ub_vecs :: "'t list option list"

definition NUM_INNER_VECS :: nat where "NUM_INNER_VECS = 32"

definition MIN_VEC_SIZE :: int where "MIN_VEC_SIZE = 2048"

definition LOG_MIN_VEC_SIZE :: int where "LOG_MIN_VEC_SIZE = 11"

definition ubvec_new :: "'t ubvec" where
  "ubvec_new = \<lparr>ub_init = replicate NUM_INNER_VECS (- 1), ub_vecs = replicate NUM_INNER_VECS None\<rparr>"

text \<open>The macro \<open>S(k)\<close> on \<open>i\<close> and \<open>n\<close>, and its six uses.\<close>

definition log2_step :: "nat \<Rightarrow> int \<times> int \<Rightarrow> int \<times> int" where
  "log2_step k = (\<lambda>(i, n). if n \<ge> 2 ^ k then (i + int k, n div 2 ^ k) else (i, n))"

definition uint64_log2 :: "int \<Rightarrow> int" where
  "uint64_log2 n = fst (fold log2_step [32, 16, 8, 4, 2, 1] (if n = 0 then - 1 else 0, n))"

text \<open>The conversion of an \<open>int\<close> to \<open>uint64_t\<close> is modulo \<open>2 ^ 64\<close>.\<close>

definition speclog :: "int \<Rightarrow> int" where
  "speclog i = (if i = 0 then 0 else max (uint64_log2 (i mod 2 ^ 64) - LOG_MIN_VEC_SIZE + 1) 0)"

definition get_index :: "int \<Rightarrow> int \<Rightarrow> int" where
  "get_index logI i = (let nb = 2 ^ nat logI - 1 in if i \<ge> MIN_VEC_SIZE then i - nb - (MIN_VEC_SIZE - 1) else i)"

text \<open>
  \<open>1 << (logI + LOG_MIN_VEC_SIZE)\<close> must be an \<open>int\<close>. A single thread finds the flag at -1 with a null vector; with another flag its loop would not end. A spurious
  failure of the compare-and-swap only repeats the turn.
\<close>

definition createVec :: "'t \<Rightarrow> int \<Rightarrow> 't ubvec \<Rightarrow> 't ubvec result" where
  "createVec new logI u = ebind (arr_get (ub_vecs u) logI) (\<lambda>val. case val of Some _ \<Rightarrow> Inr u
     | None \<Rightarrow> ebind (arr_get (ub_init u) logI) (\<lambda>flag. if flag \<noteq> - 1 then Inl Diverges
         else if 2 ^ nat (logI + LOG_MIN_VEC_SIZE) > INT_MAX then Inl SignedOverflow
         else ebind (arr_set (ub_vecs u) logI (Some (replicate (2 ^ nat (logI + LOG_MIN_VEC_SIZE)) new))) (\<lambda>vecs.
              ebind (arr_set (ub_init u) logI 1) (\<lambda>init. Inr \<lparr>ub_init = init, ub_vecs = vecs\<rparr>))))"

definition getState :: "'t \<Rightarrow> int \<Rightarrow> 't ubvec \<Rightarrow> ((int \<times> int) \<times> 't ubvec) result" where
  "getState new i u = (let logI = speclog i in ebind (arr_get (ub_vecs u) logI) (\<lambda>val.
     ebind (if val = None then createVec new logI u else Inr u) (\<lambda>u. Inr ((logI, get_index logI i), u))))"

text \<open>Reading and writing through the pointer.\<close>

definition ub_read :: "int \<times> int \<Rightarrow> 't ubvec \<Rightarrow> 't result" where
  "ub_read = (\<lambda>(k, j) u. ebind (arr_get (ub_vecs u) k) (\<lambda>val. case val of None \<Rightarrow> Inl NullDeref | Some a \<Rightarrow> arr_get a j))"

definition ub_write :: "int \<times> int \<Rightarrow> 't \<Rightarrow> 't ubvec \<Rightarrow> 't ubvec result" where
  "ub_write = (\<lambda>(k, j) s u. ebind (arr_get (ub_vecs u) k) (\<lambda>val. case val of None \<Rightarrow> Inl NullDeref
     | Some a \<Rightarrow> ebind (arr_set a j s) (\<lambda>a. ebind (arr_set (ub_vecs u) k (Some a)) (\<lambda>vecs. Inr (u\<lparr>ub_vecs := vecs\<rparr>)))))"

section \<open>The vector and the position of a number\<close>

definition log_part :: "int \<Rightarrow> nat \<Rightarrow> int \<times> int \<Rightarrow> bool" where
  "log_part N b = (\<lambda>(i, n). \<exists>j. i = int j \<and> 2 ^ j * n \<le> N \<and> N < 2 ^ j * (n + 1) \<and> 1 \<le> n \<and> n < 2 ^ b)"

lemma log2_step_ok:
  assumes "log_part N (2 * k) s"
  shows "log_part N k (log2_step k s)"
proof -
  obtain j n where s: "s = (int j, n)" "2 ^ j * n \<le> N" "N < 2 ^ j * (n + 1)" "1 \<le> n" "n < 2 ^ (2 * k)"
    using assms by (cases s) (auto simp: log_part_def)
  show ?thesis
  proof (cases "2 ^ k \<le> n")
    case True
    define q where "q = n div 2 ^ k"
    have n: "2 ^ k * q \<le> n" "n < 2 ^ k * (q + 1)"
    proof -
      have e: "2 ^ k * q + n mod 2 ^ k = n" "0 \<le> n mod 2 ^ k" "n mod 2 ^ k < 2 ^ k" by (simp_all add: q_def)
      show "2 ^ k * q \<le> n" using e by linarith
      have "2 ^ k * (q + 1) = 2 ^ k * q + 2 ^ k" by (simp add: distrib_left)
      then show "n < 2 ^ k * (q + 1)" using e by linarith
    qed
    have "2 ^ (j + k) * q \<le> 2 ^ j * n" "2 ^ j * (n + 1) \<le> 2 ^ (j + k) * (q + 1)"
      using n by (simp_all add: power_add mult.assoc)
    moreover have "1 \<le> q" using True by (simp add: q_def pos_imp_zdiv_pos_iff int_one_le_iff_zero_less)
    moreover have "n < 2 ^ k * 2 ^ k" using s(5) by (simp add: mult_2 power_add)
    then have "2 ^ k * q < 2 ^ k * 2 ^ k" using n(1) by linarith
    then have "q < 2 ^ k" by simp
    ultimately show ?thesis using True s by (auto simp: log2_step_def log_part_def q_def[symmetric] intro!: exI[of _ "j + k"])
  next
    case False
    then show ?thesis using s by (auto simp: log2_step_def log_part_def)
  qed
qed

lemma uint64_log2_ok:
  assumes "0 < n" "n < 2 ^ 64"
  shows "\<exists>j. uint64_log2 n = int j \<and> 2 ^ j \<le> n \<and> n < 2 ^ (j + 1)"
proof -
  have "log_part n 64 (0, n)" using assms by (auto simp: log_part_def intro!: exI[of _ 0])
  then have "log_part n 1 (fold log2_step [32, 16, 8, 4, 2, 1] (0, n))"
    using log2_step_ok[of n 32] log2_step_ok[of n 16] log2_step_ok[of n 8] log2_step_ok[of n 4] log2_step_ok[of n 2] log2_step_ok[of n 1] by simp
  then obtain i m where r: "fold log2_step [32, 16, 8, 4, 2, 1] (0, n) = (i, m)" "log_part n 1 (i, m)"
    by (cases "fold log2_step [32, 16, 8, 4, 2, 1] (0, n)") (simp del: fold_simps)
  then obtain j where "i = int j" "2 ^ j * m \<le> n" "n < 2 ^ j * (m + 1)" "1 \<le> m" "m < 2" by (auto simp: log_part_def)
  moreover from this have "m = 1" by linarith
  ultimately show ?thesis using r(1) assms(1) by (auto simp: uint64_log2_def simp del: fold_simps)
qed

lemma speclog_small: "\<lbrakk>0 \<le> i; i < 2048\<rbrakk> \<Longrightarrow> speclog i = 0"
proof -
  assume i: "0 \<le> i" "i < 2048"
  show ?thesis
  proof (cases "i = 0")
    case False
    then obtain j where j: "uint64_log2 i = int j" "2 ^ j \<le> i" using uint64_log2_ok[of i] i by auto
    have "(2 :: int) ^ j < 2 ^ 11" using j(2) i(2) by simp
    then have "j < 11" by (rule power_less_imp_less_exp[rotated]) simp
    then show ?thesis using j(1) i by (simp add: speclog_def LOG_MIN_VEC_SIZE_def)
  qed (simp add: speclog_def)
qed

lemma speclog_large:
  assumes "2048 \<le> i" "i < 2 ^ 64"
  shows "\<exists>k. speclog i = int k \<and> 1 \<le> k \<and> 2 ^ (k + 10) \<le> i \<and> i < 2 ^ (k + 11)"
proof -
  obtain j where j: "uint64_log2 i = int j" "2 ^ j \<le> i" "i < 2 ^ (j + 1)" using uint64_log2_ok[of i] assms by auto
  have "(2 :: int) ^ 11 < 2 ^ (j + 1)" using j(3) assms(1) by simp
  then have "11 < j + 1" by (rule power_less_imp_less_exp[rotated]) simp
  then have k: "j = (j - 10) + 10" "1 \<le> j - 10" "j + 1 = (j - 10) + 11" by auto
  have "speclog i = int (j - 10)" using j(1) assms k(2) by (simp add: speclog_def LOG_MIN_VEC_SIZE_def)
  moreover have "2 ^ (j - 10 + 10) \<le> i" "i < 2 ^ (j - 10 + 11)" using j(2,3) k by metis+
  ultimately show ?thesis using k(2) by blast
qed

text \<open>The numbers that have a place: 20 vectors, the last of size \<open>2 ^ 30\<close>.\<close>

definition placed :: "int \<Rightarrow> bool" where
  "placed i \<longleftrightarrow> 0 \<le> i \<and> i < 2 ^ 30"

lemma speclog_placed:
  assumes "placed i"
  shows "\<exists>k. speclog i = int k \<and> k < 20 \<and> 0 \<le> get_index (int k) i \<and> get_index (int k) i < 2 ^ (k + 11)"
proof (cases "i < 2048")
  case True
  then show ?thesis using assms speclog_small[of i] by (intro exI[of _ 0]) (simp add: placed_def get_index_def MIN_VEC_SIZE_def)
next
  case False
  then obtain k where k: "speclog i = int k" "1 \<le> k" "2 ^ (k + 10) \<le> i" "i < 2 ^ (k + 11)"
    using speclog_large[of i] assms by (auto simp: placed_def)
  have "(2 :: int) ^ (k + 10) < 2 ^ 30" using k(3) assms by (auto simp: placed_def)
  then have "k + 10 < 30" by (rule power_less_imp_less_exp[rotated]) simp
  have "(2 :: int) ^ 1 \<le> 2 ^ k" using k(2) by (rule power_increasing) simp
  then have "get_index (int k) i = i - 2 ^ k - 2046" "2 ^ k + 2046 \<le> (2 :: int) ^ (k + 10)" "(0 :: int) < 2 ^ k"
    using False by (simp_all add: get_index_def MIN_VEC_SIZE_def Let_def power_add)
  then have "0 \<le> get_index (int k) i" "get_index (int k) i < 2 ^ (k + 11)" using k(3,4) by linarith+
  then show ?thesis using k(1,3,4) \<open>k + 10 < 30\<close> by (intro exI[of _ k]) simp
qed

lemma place_inj:
  assumes "placed i" "placed j" "speclog i = speclog j" "get_index (speclog i) i = get_index (speclog j) j"
  shows "i = j"
proof -
  have small: "x < 2048 \<longleftrightarrow> speclog x = 0" if "placed x" for x
    using speclog_small[of x] speclog_large[of x] that by (force simp: placed_def)
  show ?thesis using assms small[of i] small[of j] by (auto simp: get_index_def MIN_VEC_SIZE_def Let_def split: if_splits)
qed

text \<open>Numbers that have none.\<close>

lemma speclog_too_large: "\<lbrakk>2 ^ 30 \<le> i; i \<le> INT_MAX\<rbrakk> \<Longrightarrow> speclog i = 20"
proof -
  assume i: "2 ^ 30 \<le> i" "i \<le> INT_MAX"
  then obtain k where k: "speclog i = int k" "2 ^ (k + 10) \<le> i" "i < 2 ^ (k + 11)" using speclog_large[of i] by (auto simp: INT_MAX_def)
  have "(2 :: int) ^ 30 < 2 ^ (k + 11)" using i(1) k(3) by linarith
  then have "30 < k + 11" by (rule power_less_imp_less_exp[rotated]) simp
  moreover have "(2 :: int) ^ (k + 10) < 2 ^ 31" using i(2) k(2) by (simp add: INT_MAX_def)
  then have "k + 10 < 31" by (rule power_less_imp_less_exp[rotated]) simp
  ultimately show ?thesis using k(1) by simp
qed

lemma speclog_negative: "\<lbrakk>- INT_MAX - 1 \<le> i; i < 0\<rbrakk> \<Longrightarrow> 32 \<le> speclog i"
proof -
  assume i: "- INT_MAX - 1 \<le> i" "i < 0"
  have m: "i mod 2 ^ 64 = i + 2 ^ 64"
    using mod_pos_pos_trivial[of "i + 2 ^ 64" "2 ^ 64"] i by (simp add: INT_MAX_def)
  then obtain j where j: "uint64_log2 (i mod 2 ^ 64) = int j" "i + 2 ^ 64 < 2 ^ (j + 1)"
    using uint64_log2_ok[of "i mod 2 ^ 64"] i by (auto simp: INT_MAX_def)
  have "(2 :: int) ^ 63 < 2 ^ (j + 1)" using i(1) j(2) by (simp add: INT_MAX_def)
  then have "63 < j + 1" by (rule power_less_imp_less_exp[rotated]) simp
  then show ?thesis using i(2) j(1) by (simp add: speclog_def LOG_MIN_VEC_SIZE_def)
qed

section \<open>The map\<close>

definition ub_ok :: "'t ubvec \<Rightarrow> bool" where
  "ub_ok u \<longleftrightarrow> length (ub_init u) = 32 \<and> length (ub_vecs u) = 32 \<and> (\<forall>k < 32. case ub_vecs u ! k of None \<Rightarrow> ub_init u ! k = - 1
     | Some a \<Rightarrow> k < 20 \<and> length a = 2 ^ (k + 11))"

definition made :: "'t ubvec \<Rightarrow> int \<Rightarrow> bool" where
  "made u i \<longleftrightarrow> ub_vecs u ! nat (speclog i) \<noteq> None"

definition ub_map :: "'t \<Rightarrow> 't ubvec \<Rightarrow> int \<Rightarrow> 't" where
  "ub_map new u i = (if placed i then case ub_vecs u ! nat (speclog i) of None \<Rightarrow> new | Some a \<Rightarrow> a ! nat (get_index (speclog i) i) else new)"

definition cell_of :: "int \<Rightarrow> int \<times> int" where
  "cell_of i = (speclog i, get_index (speclog i) i)"

lemma ubvec_new_ok: "ub_ok ubvec_new" "ub_map new ubvec_new = (\<lambda>i. new)"
proof -
  show "ub_ok ubvec_new" by (simp add: ub_ok_def ubvec_new_def NUM_INNER_VECS_def)
  have "ub_map new ubvec_new i = new" for i using speclog_placed[of i] by (auto simp: ub_map_def ubvec_new_def NUM_INNER_VECS_def)
  then show "ub_map new ubvec_new = (\<lambda>i. new)" by blast
qed

lemma getState_ok:
  assumes u: "ub_ok u" and i: "placed i"
  shows "\<exists>u'. getState new i u = Inr (cell_of i, u') \<and> ub_ok u' \<and> ub_map new u' = ub_map new u \<and> made u' i \<and> (\<forall>j. made u j \<longrightarrow> made u' j)"
proof -
  obtain k where k: "speclog i = int k" "k < 20" "0 \<le> get_index (int k) i" "get_index (int k) i < 2 ^ (k + 11)" using speclog_placed[OF i] by blast
  have len: "length (ub_init u) = 32" "length (ub_vecs u) = 32" using u by (simp_all add: ub_ok_def)
  show ?thesis
  proof (cases "ub_vecs u ! k")
    case (Some a)
    then show ?thesis using k len u by (intro exI[of _ u]) (simp add: getState_def cell_of_def made_def Let_def)
  next
    case None
    define u' where "u' = \<lparr>ub_init = (ub_init u)[k := 1], ub_vecs = (ub_vecs u)[k := Some (replicate (2 ^ (k + 11)) new)]\<rparr>"
    have "ub_init u ! k = - 1" using u None k(2) by (auto simp: ub_ok_def dest!: spec[of _ k])
    moreover have "(2 :: int) ^ (k + 11) \<le> 2 ^ 30" using k(2) by (intro power_increasing) auto
    then have "\<not> INT_MAX < 2 ^ (k + 11)" by (simp add: INT_MAX_def)
    moreover have "nat (int k + 11) = k + 11" by simp
    ultimately have "getState new i u = Inr (cell_of i, u')"
      using None k(1,2) len by (simp add: getState_def createVec_def LOG_MIN_VEC_SIZE_def Let_def cell_of_def u'_def)
    moreover have "ub_ok u'" using u k(2) by (auto simp: ub_ok_def u'_def nth_list_update split: option.splits)
    moreover have "ub_map new u' j = ub_map new u j" for j
    proof (cases "placed j \<and> speclog j = int k")
      case True
      then have "0 \<le> get_index (int k) j" "get_index (int k) j < 2 ^ (k + 11)" using speclog_placed[of j] by auto
      then have "nat (get_index (int k) j) < 2 ^ (k + 11)" by (simp add: nat_less_iff)
      then show ?thesis using True None k(2) len by (simp add: ub_map_def u'_def)
    next
      case False
      then have "placed j \<Longrightarrow> nat (speclog j) \<noteq> k" using speclog_placed[of j] by auto
      then show ?thesis by (cases "placed j") (simp_all add: ub_map_def u'_def)
    qed
    moreover have "made u' i" "made u j \<longrightarrow> made u' j" for j using k(1,2) len by (auto simp: made_def u'_def nth_list_update)
    ultimately show ?thesis by blast
  qed
qed

lemma ub_read_ok:
  assumes "ub_ok u" "placed i" "made u i"
  shows "ub_read (cell_of i) u = Inr (ub_map new u i)"
proof -
  obtain k where k: "speclog i = int k" "k < 20" "0 \<le> get_index (int k) i" "get_index (int k) i < 2 ^ (k + 11)" using speclog_placed[OF assms(2)] by blast
  then obtain a where a: "ub_vecs u ! k = Some a" using assms(3) by (auto simp: made_def)
  then have "length a = 2 ^ (k + 11)" "length (ub_vecs u) = 32" using assms(1) k(2) by (auto simp: ub_ok_def dest!: spec[of _ k])
  then show ?thesis using a k assms(2) by (simp add: ub_read_def cell_of_def ub_map_def)
qed

lemma ub_write_ok:
  assumes "ub_ok u" "placed i" "made u i"
  shows "\<exists>u'. ub_write (cell_of i) s u = Inr u' \<and> ub_ok u' \<and> ub_map new u' = (ub_map new u)(i := s) \<and> made u' = made u"
proof -
  obtain k where k: "speclog i = int k" "k < 20" "0 \<le> get_index (int k) i" "get_index (int k) i < 2 ^ (k + 11)" using speclog_placed[OF assms(2)] by blast
  then obtain a where a: "ub_vecs u ! k = Some a" using assms(3) by (auto simp: made_def)
  then have len: "length a = 2 ^ (k + 11)" "length (ub_vecs u) = 32" using assms(1) k(2) by (auto simp: ub_ok_def dest!: spec[of _ k])
  let ?g = "nat (get_index (int k) i)"
  define u' where "u' = u\<lparr>ub_vecs := (ub_vecs u)[k := Some (a[?g := s])]\<rparr>"
  have g: "?g < length a" using k len by (simp add: nat_less_iff)
  have "ub_write (cell_of i) s u = Inr u'" using a k len by (simp add: ub_write_def cell_of_def u'_def)
  moreover have "ub_ok u'" using assms(1) a k(2) len by (auto simp: ub_ok_def u'_def nth_list_update split: option.splits)
  moreover have "ub_map new u' j = ((ub_map new u)(i := s)) j" for j
  proof (cases "placed j \<and> speclog j = int k")
    case True
    then have "j \<noteq> i \<Longrightarrow> nat (get_index (int k) j) \<noteq> ?g"
      using place_inj[of j i] assms(2) k(1,3) speclog_placed[of j] by (auto simp: eq_nat_nat_iff)
    then show ?thesis using True a k(2) len g assms(2) by (cases "j = i") (simp_all add: ub_map_def u'_def)
  next
    case False
    then have "placed j \<Longrightarrow> nat (speclog j) \<noteq> k" using speclog_placed[of j] by auto
    then show ?thesis using False k(1) assms(2) by (auto simp: ub_map_def u'_def)
  qed
  moreover have "made u' j = made u j" for j using a k(2) len by (auto simp: made_def u'_def nth_list_update)
  ultimately show ?thesis by blast
qed

lemma getState_too_large:
  assumes "ub_ok u" "2 ^ 30 \<le> i" "i \<le> INT_MAX"
  shows "getState new i u = Inl SignedOverflow"
proof -
  have len: "length (ub_init u) = 32" "length (ub_vecs u) = 32" using assms(1) by (simp_all add: ub_ok_def)
  have "ub_vecs u ! 20 = None" "ub_init u ! 20 = - 1" using assms(1) by (auto simp: ub_ok_def dest!: spec[of _ 20] split: option.splits)
  then show ?thesis using len speclog_too_large[OF assms(2,3)]
    by (simp add: getState_def createVec_def LOG_MIN_VEC_SIZE_def INT_MAX_def)
qed

lemma getState_negative: "\<lbrakk>ub_ok u; - INT_MAX - 1 \<le> i; i < 0\<rbrakk> \<Longrightarrow> getState new i u = Inl OutOfBounds"
  using speclog_negative[of i] by (simp add: getState_def arr_get_def ub_ok_def)

section \<open>The contract\<close>

datatype 't ubvec_op = UGet int | USet int 't

datatype 't ubvec_out = UDone | UState 't

fun ubvec_step :: "'t \<Rightarrow> 't ubvec_op \<Rightarrow> 't ubvec \<Rightarrow> ('t ubvec_out \<times> 't ubvec) result" where
  "ubvec_step new (UGet i) u = ebind (getState new i u) (\<lambda>(p, u). ebind (ub_read p u) (\<lambda>s. Inr (UState s, u)))"
| "ubvec_step new (USet i s) u = ebind (getState new i u) (\<lambda>(p, u). ebind (ub_write p s u) (\<lambda>u. Inr (UDone, u)))"

fun op_number :: "'t ubvec_op \<Rightarrow> int" where
  "op_number (UGet i) = i"
| "op_number (USet i s) = i"

fun map_access :: "'t ubvec_op \<Rightarrow> (int \<Rightarrow> 't) \<Rightarrow> 't ubvec_out \<times> (int \<Rightarrow> 't)" where
  "map_access (UGet i) m = (UState (m i), m)"
| "map_access (USet i s) m = (UDone, m(i := s))"

definition placed_step :: "'t ubvec_op \<Rightarrow> (int \<Rightarrow> 't) \<Rightarrow> ('t ubvec_out \<times> (int \<Rightarrow> 't)) result" where
  "placed_step x m = (if op_number x < 0 then Inl OutOfBounds else if op_number x \<ge> 2 ^ 30 then Inl SignedOverflow else Inr (map_access x m))"

definition in_int :: "int \<Rightarrow> bool" where
  "in_int i \<longleftrightarrow> - INT_MAX - 1 \<le> i \<and> i \<le> INT_MAX"

definition ubvec_rel :: "'t \<Rightarrow> nat \<Rightarrow> (int \<Rightarrow> 't) \<Rightarrow> 't ubvec \<Rightarrow> bool" where
  "ubvec_rel new k m u \<longleftrightarrow> ub_ok u \<and> m = ub_map new u"

lemma ubvec_step_sim:
  assumes rel: "ubvec_rel new (Suc k) m u" and x: "in_int (op_number x)"
  shows "case placed_step x m of Inl e \<Rightarrow> ubvec_step new x u = Inl e
    | Inr (y, m') \<Rightarrow> \<exists>u'. ubvec_step new x u = Inr (y, u') \<and> ubvec_rel new k m' u'"
proof -
  have u: "ub_ok u" "m = ub_map new u" using rel by (simp_all add: ubvec_rel_def)
  consider (neg) "op_number x < 0" | (big) "2 ^ 30 \<le> op_number x" | (ok) "placed (op_number x)" unfolding placed_def by linarith
  then show ?thesis
  proof cases
    case neg
    then show ?thesis using getState_negative[OF u(1)] x by (cases x) (auto simp: placed_step_def in_int_def)
  next
    case big
    then show ?thesis using getState_too_large[OF u(1)] x by (cases x) (auto simp: placed_step_def in_int_def)
  next
    case ok
    then have step: "placed_step x m = Inr (map_access x m)" by (simp add: placed_step_def placed_def)
    obtain u' where u': "getState new (op_number x) u = Inr (cell_of (op_number x), u')" "ub_ok u'" "ub_map new u' = ub_map new u" "made u' (op_number x)"
      using getState_ok[OF u(1) ok] by blast
    show ?thesis
    proof (cases x)
      case (UGet i)
      then show ?thesis using step u' ub_read_ok[OF u'(2) ok u'(4), of new] u(2) by (simp add: ubvec_rel_def)
    next
      case (USet i s)
      obtain u2 where "ub_write (cell_of (op_number x)) s u' = Inr u2" "ub_ok u2" "ub_map new u2 = (ub_map new u')(op_number x := s)"
        using ub_write_ok[OF u'(2) ok u'(4)] by blast
      then show ?thesis using USet step u' u(2) by (simp add: ubvec_rel_def)
    qed
  qed
qed

interpretation uv: op_simulation "ubvec_step new" placed_step "ubvec_rel new" "\<lambda>x. in_int (op_number x)" for new
  by unfold_locales (rule ubvec_step_sim)

text \<open>
  C27. A growing array of states behaves as a map in which every number has the state its constructor makes until it is assigned: no two numbers
  share a cell and no access leaves its vector. This holds for the numbers below 2 ^ 30; above, the size of the vector overflows, and a negative number selects
  a vector that does not exist.
\<close>

theorem ubvec_refines_map:
  assumes "\<forall>x \<in> set xs. in_int (op_number x)"
  shows "run_ops (ubvec_step new) xs ubvec_new = run_ops placed_step xs (\<lambda>i. new)"
  by (rule uv.run_sim[OF _ assms]) (simp add: ubvec_rel_def ubvec_new_ok)

theorem ubvec_refines_map_witness:
  "run_ops (ubvec_step 0) [USet 5 (1 :: int), USet 4096 2, UGet 5, UGet 2048, UGet 4096] ubvec_new =
     Inr [UDone, UDone, UState 1, UState 0, UState 2]"
  using ubvec_refines_map[of "[USet 5 (1 :: int), USet 4096 2, UGet 5, UGet 2048, UGet 4096]" 0] by (simp add: in_int_def INT_MAX_def placed_step_def)

end
