(* ===== verification/Wastar_Planner.thy ===== *)
theory Wastar_Planner
  imports Ubvec AStar Weighted_Graph Sbpl_Heap
begin

text \<open>
  The sequential planner \<open>wAStarPlanner\<close> of \<open>src/libsbpl/src/planners/PWSA/pwsaplanner.cpp\<close> with its search \<open>wAStar\<close> of
  \<open>src/libsbpl/src/include/sbpl/planners/pwsaplanner.h\<close>. The environment is an abstract class of SBPL: successors and heuristic are functions of the
  number of a state. The states are kept in a \<open>ubvec\<close>; \<open>eps\<close> and the priorities computed with it are read over the real numbers. Timing and printing are left out.
\<close>

section \<open>The code\<close>

record Environment =
  GetSuccs :: "int \<Rightarrow> (int \<times> int) list"
  GetGoalHeuristic :: "int \<Rightarrow> int"

text \<open>\<open>h\<close> has no value before \<open>initialized\<close> is set; \<open>g\<close> is unsigned.\<close>

record astarState =
  sp_pred :: int
  sp_g :: int
  sp_expanded :: bool
  sp_initialized :: bool
  sp_h :: "int option"

definition astarState_new :: astarState where
  "astarState_new = \<lparr>sp_pred = - 1, sp_g = INT_MAX, sp_expanded = False, sp_initialized = False, sp_h = None\<rparr>"

definition GetState :: "Environment \<Rightarrow> int \<Rightarrow> astarState ubvec \<Rightarrow> ((int \<times> int) \<times> astarState ubvec) result" where
  "GetState E sid u = ebind (getState astarState_new sid u) (\<lambda>(p, u). ebind (ub_read p u) (\<lambda>s.
     if sp_initialized s then Inr (p, u)
     else ebind (ub_write p (s\<lparr>sp_h := Some (GetGoalHeuristic E sid), sp_initialized := True\<rparr>) u) (\<lambda>u. Inr (p, u))))"

text \<open>The lambda \<open>heuristic\<close> of \<open>run_wAStar\<close>.\<close>

definition planner_heuristic :: "Environment \<Rightarrow> real \<Rightarrow> int \<Rightarrow> astarState ubvec \<Rightarrow> (real \<times> astarState ubvec) result" where
  "planner_heuristic E eps v u = ebind (GetState E v u) (\<lambda>(p, u). ebind (ub_read p u) (\<lambda>s.
     case sp_h s of None \<Rightarrow> Inl UninitRead | Some h \<Rightarrow> Inr (eps * real_of_int h, u)))"

text \<open>Conversions between \<open>int\<close> and \<open>unsigned int\<close>.\<close>

definition int_to_uint :: "int \<Rightarrow> int" where
  "int_to_uint x = x mod 2 ^ 32"

definition uint_to_int :: "int \<Rightarrow> int" where
  "uint_to_int x = (x + 2 ^ 31) mod 2 ^ 32 - 2 ^ 31"

text \<open>The lambda that \<open>wAStar\<close> passes to \<open>for_each_neighbor_of\<close>; \<open>p\<close> is the pointer \<open>vState\<close>.\<close>

definition wastar_relax :: "Environment \<Rightarrow> (int, 'h) heap_ops \<Rightarrow> real \<Rightarrow> int \<Rightarrow> int \<times> int \<Rightarrow> int \<times> int \<Rightarrow>
    astarState ubvec \<times> 'h \<Rightarrow> (astarState ubvec \<times> 'h) result" where
  "wastar_relax E H eps v p = (\<lambda>(ngh, weight) (u, frontier).
     ebind (ub_read p u) (\<lambda>sv. let nghdist = uint_to_int (sp_g sv + weight) in
     ebind (GetState E ngh u) (\<lambda>(q, u). ebind (ub_read q u) (\<lambda>sn.
       if int_to_uint nghdist < sp_g sn
       then ebind (planner_heuristic E eps ngh u) (\<lambda>(h, u).
            ebind (to_long (h + real_of_int nghdist)) (\<lambda>prio.
            ebind (op_insert H prio ngh frontier) (\<lambda>frontier.
            ebind (ub_read q u) (\<lambda>sn.
            ebind (ub_write q (sn\<lparr>sp_pred := v, sp_g := int_to_uint nghdist\<rparr>) u) (\<lambda>u. Inr (u, frontier))))))
       else Inr (u, frontier)))))"

definition wastar_body :: "Environment \<Rightarrow> (int, 'h) heap_ops \<Rightarrow> real \<Rightarrow> int \<times> int \<Rightarrow> astarState ubvec \<times> 'h \<Rightarrow> (astarState ubvec \<times> 'h) loop result" where
  "wastar_body E H eps dest = (\<lambda>(u, frontier). ebind (ub_read dest u) (\<lambda>sd.
     if sp_g sd \<noteq> INT_MAX then Inr (Break (u, frontier))
     else ebind (op_delete_min H frontier) (\<lambda>(v, frontier).
       ebind (GetState E v u) (\<lambda>(p, u). ebind (ub_read p u) (\<lambda>sv.
         if sp_expanded sv then Inr (Continue (u, frontier))
         else ebind (ub_write p (sv\<lparr>sp_expanded := True\<rparr>) u) (\<lambda>u.
              ebind (GetState E v u) (\<lambda>(parent, u).
              ebind (efold (wastar_relax E H eps v p) (GetSuccs E v) (u, frontier)) (\<lambda>s. Inr (Continue s)))))))))"

definition wastar_start :: "Environment \<Rightarrow> (int, 'h) heap_ops \<Rightarrow> real \<Rightarrow> int \<Rightarrow> int \<Rightarrow> astarState ubvec \<Rightarrow>
    ((int \<times> int) \<times> astarState ubvec \<times> 'h) result" where
  "wastar_start E H eps source destination u = ebind (GetState E source u) (\<lambda>(src, u).
     ebind (ub_read src u) (\<lambda>s. ebind (ub_write src (s\<lparr>sp_g := 0, sp_pred := source\<rparr>) u) (\<lambda>u.
     ebind (planner_heuristic E eps source u) (\<lambda>(h, u). ebind (to_long h) (\<lambda>prio.
     ebind (op_insert H prio source (op_new H)) (\<lambda>frontier.
     ebind (GetState E destination u) (\<lambda>(dest, u). Inr (dest, u, frontier))))))))"

definition wAStar :: "Environment \<Rightarrow> (int, 'h) heap_ops \<Rightarrow> real \<Rightarrow> int \<Rightarrow> int \<Rightarrow> astarState ubvec \<Rightarrow> astarState ubvec result option" where
  "wAStar E H eps source destination u = (case wastar_start E H eps source destination u of
       Inl e \<Rightarrow> Some (Inl e)
     | Inr (dest, u, frontier) \<Rightarrow> map_option (\<lambda>r. ebind r (\<lambda>(u, frontier). Inr u)) (run_loop (wastar_body E H eps dest) (u, frontier)))"

text \<open>The cheapest action from one state to another.\<close>

definition least_action :: "Environment \<Rightarrow> int \<Rightarrow> int \<Rightarrow> int" where
  "least_action E v x = fold (\<lambda>(y, c) actioncost. if y = x \<and> c < actioncost then c else actioncost) (GetSuccs E v) INFINITECOST"

text \<open>The loop of \<open>GetSearchPath\<close> over \<open>state\<close>, \<open>cur_id\<close>, \<open>solcost\<close> and \<open>wholePathIds\<close>, and the reversal at its end. The wait for a key
  (\<open>std::cin.get\<close>) after the message about an action of cost \<open>INFINITECOST\<close> is left out; in an environment that fits the integers no such action is met.\<close>

type_synonym path_state = "(int \<times> int) \<times> int \<times> int \<times> int list \<times> astarState ubvec"

definition search_path_body :: "Environment \<Rightarrow> int \<Rightarrow> path_state \<Rightarrow> path_state loop result" where
  "search_path_body E start = (\<lambda>(state, cur_id, solcost, ids, u).
     if cur_id = start then Inr (Break (state, cur_id, solcost, ids, u))
     else ebind (ub_read state u) (\<lambda>s. if sp_pred s = - 1 then Inr (Break (state, cur_id, solcost, ids, u))
       else if sp_g s = INT_MAX then Inr (Break (state, cur_id, solcost, ids, u))
       else ebind (num_add INT_MAX solcost (least_action E (sp_pred s) cur_id)) (\<lambda>solcost.
            ebind (GetState E (sp_pred s) u) (\<lambda>(state, u). Inr (Continue (state, sp_pred s, solcost, ids @ [sp_pred s], u))))))"

definition swap_ends :: "int \<Rightarrow> int list \<Rightarrow> int list result" where
  "swap_ends i ids = (let other_idx = int (length ids) - i - 1 in
     ebind (arr_get ids i) (\<lambda>temp. ebind (arr_get ids other_idx) (\<lambda>x.
     ebind (arr_set ids i x) (\<lambda>ids. arr_set ids other_idx temp))))"

definition reverse_ids :: "int list \<Rightarrow> int list result" where
  "reverse_ids ids = efold swap_ends [0..int (length ids) div 2 - 1] ids"

definition GetSearchPath :: "Environment \<Rightarrow> int \<Rightarrow> int \<Rightarrow> int \<times> int \<Rightarrow> astarState ubvec \<Rightarrow> (int list \<times> int \<times> astarState ubvec) result option" where
  "GetSearchPath E start goal goal_state u = map_option (\<lambda>r. ebind r (\<lambda>(state, cur_id, solcost, ids, u).
       ebind (reverse_ids ids) (\<lambda>ids. Inr (ids, solcost, u))))
     (run_loop (search_path_body E start) (goal_state, goal, 0, [goal], u))"

record wAStarPlanner =
  start_state_id :: int
  goal_state_id :: int
  planner_eps :: real
  planner_states :: "astarState ubvec"
  goal_state_ptr :: "int \<times> int"
  start_state_ptr :: "int \<times> int"

definition wAStarPlanner_new :: "wAStarPlanner \<Rightarrow> wAStarPlanner" where
  "wAStarPlanner_new pl = pl\<lparr>goal_state_id := - 1, start_state_id := - 1\<rparr>"

definition set_goal :: "int \<Rightarrow> wAStarPlanner \<Rightarrow> wAStarPlanner" where
  "set_goal sid pl = pl\<lparr>goal_state_id := sid\<rparr>"

definition set_start :: "int \<Rightarrow> wAStarPlanner \<Rightarrow> wAStarPlanner" where
  "set_start sid pl = pl\<lparr>start_state_id := sid\<rparr>"

definition initializeSearch :: "Environment \<Rightarrow> wAStarPlanner \<Rightarrow> wAStarPlanner result" where
  "initializeSearch E pl = ebind (GetState E (goal_state_id pl) (planner_states pl)) (\<lambda>(g, u).
     ebind (GetState E (start_state_id pl) u) (\<lambda>(s, u). ebind (ub_read s u) (\<lambda>st. ebind (ub_write s (st\<lparr>sp_g := 0\<rparr>) u) (\<lambda>u.
       Inr (pl\<lparr>goal_state_ptr := g, start_state_ptr := s, planner_states := u\<rparr>)))))"

text \<open>\<open>Search\<close>: whether a solution was found, \<open>pathIds\<close>, and \<open>PathCost\<close>, which has no value before \<open>GetSearchPath\<close> sets it.\<close>

definition Search :: "Environment \<Rightarrow> (int, 'h) heap_ops \<Rightarrow> wAStarPlanner \<Rightarrow> (bool \<times> int list \<times> int option \<times> wAStarPlanner) result option" where
  "Search E H pl = (case initializeSearch E pl of Inl e \<Rightarrow> Some (Inl e)
     | Inr pl \<Rightarrow> (case wAStar E H (planner_eps pl) (start_state_id pl) (goal_state_id pl) (planner_states pl) of
         None \<Rightarrow> None
       | Some r \<Rightarrow> (case ebind r (\<lambda>u. ebind (GetState E (goal_state_id pl) u) (\<lambda>(g, u). ebind (ub_read g u) (\<lambda>s. Inr (sp_g s, u)))) of
           Inl e \<Rightarrow> Some (Inl e)
         | Inr (g, u) \<Rightarrow> if g = INT_MAX then Some (Inr (False, [], None, pl\<lparr>planner_states := u\<rparr>))
             else map_option (\<lambda>r. ebind r (\<lambda>(ids, cost, u). Inr (True, ids, Some cost, pl\<lparr>planner_states := u\<rparr>)))
                    (GetSearchPath E (start_state_id pl) (goal_state_id pl) (goal_state_ptr pl) u))))"

text \<open>\<open>replan\<close>: the value returned, what is written to the two output parameters, if anything, and the planner.\<close>

definition replan :: "Environment \<Rightarrow> (int, 'h) heap_ops \<Rightarrow> int \<Rightarrow> int \<Rightarrow> real \<Rightarrow> wAStarPlanner \<Rightarrow>
    (int \<times> (int list \<times> int option) option \<times> wAStarPlanner) result option" where
  "replan E H start goal eps pl = (let pl = (set_goal goal (set_start start (pl\<lparr>planner_states := ubvec_new\<rparr>)))\<lparr>planner_eps := eps\<rparr> in
     if goal_state_id pl < 0 then Some (Inr (0, None, pl))
     else if start_state_id pl < 0 then Some (Inr (0, None, pl))
     else map_option (\<lambda>r. ebind r (\<lambda>(found, ids, cost, pl).
            Inr (if found then 1 else 0, Some (ids, cost), pl\<lparr>start_state_id := - 1, goal_state_id := - 1\<rparr>))) (Search E H pl))"

definition replan_again :: "Environment \<Rightarrow> (int, 'h) heap_ops \<Rightarrow> real \<Rightarrow> wAStarPlanner \<Rightarrow>
    (int \<times> (int list \<times> int option) option \<times> wAStarPlanner) result option" where
  "replan_again E H eps pl = replan E H (start_state_id pl) (goal_state_id pl) eps pl"

section \<open>The states as the search sees them\<close>

text \<open>What the search writes to a state, without the heuristic that is filled in on the first access.\<close>

definition seen :: "astarState ubvec \<Rightarrow> int \<Rightarrow> int \<times> int \<times> bool" where
  "seen u i = (let s = ub_map astarState_new u i in (sp_g s, sp_pred s, sp_expanded s))"

definition states_ok :: "Environment \<Rightarrow> astarState ubvec \<Rightarrow> bool" where
  "states_ok E u \<longleftrightarrow> ub_ok u \<and> (\<forall>i. sp_initialized (ub_map astarState_new u i) \<longrightarrow> sp_h (ub_map astarState_new u i) = Some (GetGoalHeuristic E i))"

definition ready_at :: "astarState ubvec \<Rightarrow> int \<Rightarrow> bool" where
  "ready_at u i \<longleftrightarrow> made u i \<and> sp_initialized (ub_map astarState_new u i)"

lemma read_seen:
  assumes "states_ok E u" "placed i" "ready_at u i" "seen u i = (g, p, x)"
  shows "\<exists>s. ub_read (cell_of i) u = Inr s \<and> sp_g s = g \<and> sp_pred s = p \<and> sp_expanded s = x \<and> sp_initialized s \<and> sp_h s = Some (GetGoalHeuristic E i)"
  using assms ub_read_ok[of u i astarState_new] by (auto simp: states_ok_def ready_at_def seen_def Let_def)

lemma write_seen:
  assumes u: "states_ok E u" "placed i" "made u i" and s: "sp_initialized s" "sp_h s = Some (GetGoalHeuristic E i)"
  shows "\<exists>u'. ub_write (cell_of i) s u = Inr u' \<and> states_ok E u' \<and> seen u' = (seen u)(i := (sp_g s, sp_pred s, sp_expanded s)) \<and>
    ready_at u' i \<and> (\<forall>j. ready_at u j \<longrightarrow> ready_at u' j)"
proof -
  obtain u' where u': "ub_write (cell_of i) s u = Inr u'" "ub_ok u'" "ub_map astarState_new u' = (ub_map astarState_new u)(i := s)" "made u' = made u"
    using ub_write_ok[of u i s astarState_new] u by (auto simp: states_ok_def)
  have "seen u' = (seen u)(i := (sp_g s, sp_pred s, sp_expanded s))" by (rule ext) (simp add: seen_def u'(3))
  then show ?thesis using u' u s by (auto simp: states_ok_def ready_at_def)
qed

lemma GetState_ok:
  assumes u: "states_ok E u" and i: "placed i"
  shows "\<exists>u'. GetState E i u = Inr (cell_of i, u') \<and> states_ok E u' \<and> seen u' = seen u \<and> ready_at u' i \<and> (\<forall>j. ready_at u j \<longrightarrow> ready_at u' j)"
proof -
  obtain v where v: "getState astarState_new i u = Inr (cell_of i, v)" "ub_ok v" "ub_map astarState_new v = ub_map astarState_new u" "made v i"
    "\<And>j. made u j \<Longrightarrow> made v j" using getState_ok[of u i astarState_new] u i by (auto simp: states_ok_def)
  have d: "ub_read (cell_of i) v = Inr (ub_map astarState_new u i)" using ub_read_ok[OF v(2) i v(4), of astarState_new] v(3) by simp
  have ok: "states_ok E v" "seen v = seen u" using u v(2,3) by (auto simp: states_ok_def seen_def)
  have keep: "ready_at u j \<Longrightarrow> ready_at v j" for j using v(3,5) by (simp add: ready_at_def)
  show ?thesis
  proof (cases "sp_initialized (ub_map astarState_new u i)")
    case True
    then show ?thesis using v(1,3,4) d ok keep by (auto simp: GetState_def ready_at_def)
  next
    case False
    let ?s = "(ub_map astarState_new u i)\<lparr>sp_h := Some (GetGoalHeuristic E i), sp_initialized := True\<rparr>"
    obtain w where w: "ub_write (cell_of i) ?s v = Inr w" "states_ok E w" "seen w = (seen v)(i := (sp_g ?s, sp_pred ?s, sp_expanded ?s))" "ready_at w i"
      "\<forall>j. ready_at v j \<longrightarrow> ready_at w j" using write_seen[OF ok(1) i v(4), of ?s] by auto
    have "seen w = seen u" using w(3) ok(2) by (auto simp: fun_eq_iff seen_def Let_def)
    then show ?thesis using v(1) d False w keep by (auto simp: GetState_def)
  qed
qed

lemma planner_heuristic_ok:
  assumes "states_ok E u" "placed i"
  shows "\<exists>u'. planner_heuristic E eps i u = Inr (eps * real_of_int (GetGoalHeuristic E i), u') \<and> states_ok E u' \<and> seen u' = seen u \<and>
    (\<forall>j. ready_at u j \<longrightarrow> ready_at u' j)"
proof -
  obtain u' where u': "GetState E i u = Inr (cell_of i, u')" "states_ok E u'" "seen u' = seen u" "ready_at u' i" "\<forall>j. ready_at u j \<longrightarrow> ready_at u' j"
    using GetState_ok[OF assms] by blast
  obtain g p x where "seen u' i = (g, p, x)" by (cases "seen u' i")
  from read_seen[OF u'(2) assms(2) u'(4) this] show ?thesis using u' by (auto simp: planner_heuristic_def)
qed

section \<open>What a plan is\<close>

definition env_graph :: "Environment \<Rightarrow> int \<Rightarrow> unit graph_ops" where
  "env_graph E n = \<lparr>number_vertices = (\<lambda>_. n), neighbor_list = (\<lambda>_ v. Inr (GetSuccs E v))\<rparr>"

text \<open>
  An environment with the states below \<open>n\<close>, costs of actions from 0 to \<open>W\<close> and a heuristic from 0 to \<open>Hmax\<close>, such that no cost of a path without
  repeated states and no priority overflows.
\<close>

definition env_fits :: "Environment \<Rightarrow> int \<Rightarrow> int \<Rightarrow> int \<Rightarrow> real \<Rightarrow> bool" where
  "env_fits E n W Hmax eps \<longleftrightarrow> 0 \<le> n \<and> n \<le> 2 ^ 30 \<and> 0 \<le> W \<and> W < INFINITECOST \<and> n * W < INT_MAX \<and> 0 \<le> eps \<and>
     eps * real_of_int Hmax + real_of_int INT_MAX \<le> real_of_int LONG_MAX \<and>
     (\<forall>v. 0 \<le> v \<and> v < n \<longrightarrow> 0 \<le> GetGoalHeuristic E v \<and> GetGoalHeuristic E v \<le> Hmax \<and>
        (\<forall>(x, w) \<in> set (GetSuccs E v). 0 \<le> x \<and> x < n \<and> 0 \<le> w \<and> w \<le> W))"

lemma env_edge: "edge (env_graph E n) g u v w \<longleftrightarrow> 0 \<le> u \<and> u < n \<and> (v, w) \<in> set (GetSuccs E u)"
  by (simp add: edge_def env_graph_def)

interpretation eg: search_graph "env_graph E n" "\<lambda>_. env_fits E n W Hmax eps" "\<lambda>_. W"
  for E n W Hmax eps
proof
  fix g u v w assume "env_fits E n W Hmax eps" "edge (env_graph E n) g u v w"
  then show "0 \<le> v \<and> v < number_vertices (env_graph E n) g \<and> 0 \<le> w \<and> w \<le> W"
    by (auto simp: env_fits_def env_edge) (auto simp: env_graph_def)
qed (auto simp: env_graph_def env_fits_def)

lemma env_action: "\<lbrakk>env_fits E n W Hmax eps; 0 \<le> u; u < n; (v, w) \<in> set (GetSuccs E u)\<rbrakk> \<Longrightarrow> 0 \<le> v \<and> v < n \<and> 0 \<le> w \<and> w \<le> W \<and> w < INFINITECOST"
  by (fastforce simp: env_fits_def)

fun plan_cost :: "Environment \<Rightarrow> int list \<Rightarrow> int" where
  "plan_cost E (v # x # ids) = least_action E v x + plan_cost E (x # ids)"
| "plan_cost E ids = 0"

fun plan_steps :: "Environment \<Rightarrow> int list \<Rightarrow> bool" where
  "plan_steps E (v # x # ids) \<longleftrightarrow> x \<in> fst ` set (GetSuccs E v) \<and> plan_steps E (x # ids)"
| "plan_steps E ids \<longleftrightarrow> True"

definition is_plan :: "Environment \<Rightarrow> int \<Rightarrow> int \<Rightarrow> int list \<Rightarrow> bool" where
  "is_plan E s t ids \<longleftrightarrow> ids \<noteq> [] \<and> hd ids = s \<and> last ids = t \<and> plan_steps E ids"

lemma plan_append: "plan_cost E (ids @ [u, v]) = plan_cost E (ids @ [u]) + least_action E u v"
  "plan_steps E (ids @ [u, v]) \<longleftrightarrow> plan_steps E (ids @ [u]) \<and> v \<in> fst ` set (GetSuccs E u)"
proof (induction ids)
  case (Cons a ids)
  {
    case 1
    then show ?case using Cons by (cases ids) auto
  next
    case 2
    then show ?case using Cons by (cases ids) auto
  }
qed auto

lemma least_action_ok:
  assumes "(x, w) \<in> set (GetSuccs E v)" "w < INFINITECOST"
  shows "least_action E v x \<le> w" "\<exists>c. (x, c) \<in> set (GetSuccs E v) \<and> least_action E v x = c"
proof -
  define f where "f = (\<lambda>(y, c) a. if y = x \<and> c < a then c else (a :: int))"
  have le: "fold f l a \<le> a \<and> (\<forall>w. (x, w) \<in> set l \<longrightarrow> fold f l a \<le> w) \<and> (fold f l a = a \<or> (x, fold f l a) \<in> set l)" for l and a :: int
  proof (induction l arbitrary: a)
    case (Cons yc l)
    obtain y c where [simp]: "yc = (y, c)" by (cases yc)
    show ?case using Cons.IH[of "f yc a"] by (auto simp: f_def)
  qed simp
  have "least_action E v x = fold f (GetSuccs E v) INFINITECOST" by (simp add: least_action_def f_def)
  then show "least_action E v x \<le> w" "\<exists>c. (x, c) \<in> set (GetSuccs E v) \<and> least_action E v x = c"
    using le[of "GetSuccs E v" INFINITECOST] assms by force+
qed

lemma plan_path:
  assumes "is_plan E s t ids" "env_fits E n W Hmax eps" "0 \<le> s" "s < n"
  shows "path (env_graph E n) () s t (plan_cost E ids) \<and> 0 \<le> t \<and> t < n"
  using assms
proof (induction ids arbitrary: t rule: rev_induct)
  case (snoc v ids)
  show ?case
  proof (cases ids rule: rev_cases)
    case Nil
    then show ?thesis using snoc.prems by (auto simp: is_plan_def intro: path.intros)
  next
    case (snoc ys u)
    then have u: "is_plan E s u ids" "t = v" "v \<in> fst ` set (GetSuccs E u)" using snoc.prems(1) plan_append(2)[of E ys u v] by (auto simp: is_plan_def hd_append)
    from snoc.IH[OF u(1) snoc.prems(2-4)] have p: "path (env_graph E n) () s u (plan_cost E ids)" "0 \<le> u" "u < n" by auto
    obtain w where w: "(v, w) \<in> set (GetSuccs E u)" using u(3) by auto
    have "0 \<le> v" "v < n" "w < INFINITECOST" using env_action[OF snoc.prems(2) p(2,3) w] by auto
    then obtain c where "(v, c) \<in> set (GetSuccs E u)" "least_action E u v = c" using least_action_ok(2)[OF w] by blast
    then have "edge (env_graph E n) () u v (least_action E u v)" using p by (simp add: env_edge)
    from path.path_step[OF p(1) this] show ?thesis using \<open>0 \<le> v\<close> \<open>v < n\<close> u(2) snoc plan_append(1)[of E ys u v] by simp
  qed
qed (simp add: is_plan_def)

section \<open>The invariant of the search\<close>

definition gd :: "astarState ubvec \<Rightarrow> int \<Rightarrow> int" where "gd u v = fst (seen u v)"

definition pd :: "astarState ubvec \<Rightarrow> int \<Rightarrow> int" where "pd u v = fst (snd (seen u v))"

definition xd :: "astarState ubvec \<Rightarrow> int \<Rightarrow> bool" where "xd u v = snd (snd (seen u v))"

lemma seen_cong: "seen u' = seen u \<Longrightarrow> gd u' = gd u \<and> pd u' = pd u \<and> xd u' = xd u"
  by (auto simp: gd_def pd_def xd_def fun_eq_iff)

lemma seen_upd: "seen u' = (seen u)(i := (g, p, x)) \<Longrightarrow> gd u' = (gd u)(i := g) \<and> pd u' = (pd u)(i := p) \<and> xd u' = (xd u)(i := x)"
  by (auto simp: gd_def pd_def xd_def fun_eq_iff)

lemma read_gd: "\<lbrakk>states_ok E u; placed i; ready_at u i\<rbrakk> \<Longrightarrow> \<exists>s. ub_read (cell_of i) u = Inr s \<and> sp_g s = gd u i \<and> sp_pred s = pd u i \<and> sp_expanded s = xd u i \<and>
    sp_initialized s \<and> sp_h s = Some (GetGoalHeuristic E i)"
  using read_seen[of E u i "gd u i" "pd u i" "xd u i"] by (simp add: gd_def pd_def xd_def)

definition search_inv :: "Environment \<Rightarrow> int \<Rightarrow> int \<Rightarrow> int \<Rightarrow> astarState ubvec \<Rightarrow> (int \<times> int) multiset \<Rightarrow> bool" where
  "search_inv E n W src u C \<longleftrightarrow> states_ok E u \<and> pred_tree (edge (env_graph E n) ()) src INT_MAX (gd u) (pd u) \<and>
     (\<forall>v. gd u v \<le> INT_MAX) \<and> (\<forall>v. gd u v < INT_MAX \<longrightarrow> 0 \<le> v \<and> v < n) \<and>
     (\<forall>v. gd u v < INT_MAX \<and> \<not> xd u v \<longrightarrow> (\<exists>p. (p, v) \<in># C)) \<and> (\<forall>p v. (p, v) \<in># C \<longrightarrow> gd u v < INT_MAX) \<and>
     (\<forall>v. xd u v \<longrightarrow> gd u v < INT_MAX) \<and> (\<forall>v. gd u v < INT_MAX \<longrightarrow> gd u v \<le> W * int (card {v. xd u v}))"

lemma search_invD:
  assumes "search_inv E n W src u C"
  shows "states_ok E u" "pred_tree (edge (env_graph E n) ()) src INT_MAX (gd u) (pd u)" "gd u v \<le> INT_MAX" "gd u v < INT_MAX \<Longrightarrow> 0 \<le> v \<and> v < n"
    "\<lbrakk>gd u v < INT_MAX; \<not> xd u v\<rbrakk> \<Longrightarrow> \<exists>p. (p, v) \<in># C" "(p, v) \<in># C \<Longrightarrow> gd u v < INT_MAX" "xd u v \<Longrightarrow> gd u v < INT_MAX"
    "gd u v < INT_MAX \<Longrightarrow> gd u v \<le> W * int (card {v. xd u v})"
  using assms unfolding search_inv_def by auto

lemma search_invI:
  assumes "states_ok E u" "pred_tree (edge (env_graph E n) ()) src INT_MAX (gd u) (pd u)" "\<And>v. gd u v \<le> INT_MAX" "\<And>v. gd u v < INT_MAX \<Longrightarrow> 0 \<le> v \<and> v < n"
    "\<And>v. \<lbrakk>gd u v < INT_MAX; \<not> xd u v\<rbrakk> \<Longrightarrow> \<exists>p. (p, v) \<in># C" "\<And>p v. (p, v) \<in># C \<Longrightarrow> gd u v < INT_MAX" "\<And>v. xd u v \<Longrightarrow> gd u v < INT_MAX"
    "\<And>v. gd u v < INT_MAX \<Longrightarrow> gd u v \<le> W * int (card {v. xd u v})"
  shows "search_inv E n W src u C"
  unfolding search_inv_def using assms by blast

lemma expanded_card:
  assumes "search_inv E n W src u C" "env_fits E n W Hmax eps"
  shows "finite {v. xd u v}" "int (card {v. xd u v}) \<le> n" "W * int (card {v. xd u v}) < INT_MAX"
proof -
  have sub: "{v. xd u v} \<subseteq> {0..<n}" using search_invD(4,7)[OF assms(1)] by auto
  then show "finite {v. xd u v}" by (rule finite_subset) simp
  have n: "0 \<le> n" "0 \<le> W" "n * W < INT_MAX" using assms(2) by (simp_all add: env_fits_def)
  show c: "int (card {v. xd u v}) \<le> n" using card_mono[OF _ sub] n(1) by simp
  have "W * int (card {v. xd u v}) \<le> W * n" using c n(2) by (rule mult_left_mono)
  then show "W * int (card {v. xd u v}) < INT_MAX" using n(3) by (simp add: mult.commute)
qed

lemma uint_to_int_id: "\<lbrakk>0 \<le> d; d \<le> INT_MAX\<rbrakk> \<Longrightarrow> uint_to_int d = d" "\<lbrakk>0 \<le> d; d \<le> INT_MAX\<rbrakk> \<Longrightarrow> int_to_uint d = d"
  by (simp_all add: uint_to_int_def int_to_uint_def INT_MAX_def)

lemma to_long_ok:
  assumes "0 \<le> x" "x \<le> real_of_int LONG_MAX"
  shows "\<exists>p. to_long x = Inr p \<and> p \<le> LONG_MAX"
proof -
  have "0 \<le> \<lfloor>x\<rfloor>" "\<lfloor>x\<rfloor> \<le> LONG_MAX" using assms by (simp_all add: floor_le_iff)
  then show ?thesis using assms(1) by (simp add: to_long_def truncate_real_def LONG_MAX_def)
qed

lemma placed_env: "\<lbrakk>env_fits E n W Hmax eps; 0 \<le> v; v < n\<rbrakk> \<Longrightarrow> placed v"
  by (simp add: env_fits_def placed_def)

lemma priority_ok:
  assumes "env_fits E n W Hmax eps" "0 \<le> v" "v < n" "0 \<le> d" "d \<le> INT_MAX"
  shows "\<exists>p. to_long (eps * real_of_int (GetGoalHeuristic E v) + real_of_int d) = Inr p \<and> p \<le> LONG_MAX"
proof (rule to_long_ok)
  have h: "0 \<le> GetGoalHeuristic E v" "GetGoalHeuristic E v \<le> Hmax" "0 \<le> eps" using assms(1-3) by (auto simp: env_fits_def)
  then show "0 \<le> eps * real_of_int (GetGoalHeuristic E v) + real_of_int d" using assms(4) by simp
  have "eps * real_of_int (GetGoalHeuristic E v) \<le> eps * real_of_int Hmax" using h by (intro mult_left_mono) auto
  moreover have "real_of_int d \<le> real_of_int INT_MAX" using assms(5) by simp
  ultimately show "eps * real_of_int (GetGoalHeuristic E v) + real_of_int d \<le> real_of_int LONG_MAX" using assms(1) by (simp add: env_fits_def)
qed

locale wastar_ctx = frontier_heap H invar entries
  for H :: "(int, 'h) heap_ops" and invar entries
begin

lemma relax_ok:
  assumes fits: "env_fits E n W Hmax eps" and inv: "search_inv E n W src u (entries fr)" and fr: "invar fr"
    and v: "ready_at u v" "xd u v" "(x, w) \<in> set (GetSuccs E v)" "gd u v + W \<le> W * int (card {v. xd u v})"
  shows "\<exists>u' fr'. wastar_relax E H eps v (cell_of v) (x, w) (u, fr) = Inr (u', fr') \<and> invar fr' \<and> search_inv E n W src u' (entries fr') \<and>
    (\<forall>j. ready_at u j \<longrightarrow> ready_at u' j) \<and> xd u' = xd u \<and> gd u' v = gd u v \<and> gd u' x < INT_MAX \<and>
    (\<forall>y. gd u' y \<le> gd u y \<and> ((gd u' y = gd u y \<and> pd u' y = pd u y) \<or> pd u' y = v))"
proof -
  note iv = search_invD[OF inv]
  note c = expanded_card[OF inv fits]
  have vr: "0 \<le> v" "v < n" using iv(4)[OF iv(7)[OF v(2)]] by auto
  have xr: "0 \<le> x" "x < n" "0 \<le> w" "w \<le> W" using env_action[OF fits vr v(3)] by auto
  note pl = placed_env[OF fits vr] placed_env[OF fits xr(1,2)]
  let ?d = "gd u v + w"
  have vM: "gd u v < INT_MAX" by (rule iv(7)[OF v(2)])
  have d: "0 \<le> gd u v" "0 \<le> ?d" "?d \<le> W * int (card {v. xd u v})" "?d < INT_MAX"
    using pred_treeD(2)[OF iv(2) vM] xr(3,4) v(4) c(3) by auto
  obtain sv where sv: "ub_read (cell_of v) u = Inr sv" "sp_g sv = gd u v" using read_gd[OF iv(1) pl(1) v(1)] by blast
  obtain u1 where u1: "GetState E x u = Inr (cell_of x, u1)" "states_ok E u1" "seen u1 = seen u" "ready_at u1 x" "\<forall>j. ready_at u j \<longrightarrow> ready_at u1 j"
    using GetState_ok[OF iv(1) pl(2)] by blast
  note s1 = seen_cong[OF u1(3)]
  obtain sn where sn: "ub_read (cell_of x) u1 = Inr sn" "sp_g sn = gd u x" using read_gd[OF u1(2) pl(2) u1(4)] s1 by auto
  show ?thesis
  proof (cases "?d < gd u x")
    case False
    then have "wastar_relax E H eps v (cell_of v) (x, w) (u, fr) = Inr (u1, fr)"
      using sv sn u1(1) d by (simp add: wastar_relax_def Let_def uint_to_int_id)
    moreover have "search_inv E n W src u1 (entries fr)" using inv u1(2) s1 by (simp add: search_inv_def)
    moreover have "gd u x < INT_MAX" using False d(4) by simp
    ultimately show ?thesis using fr u1(5) s1 by auto
  next
    case True
    obtain u2 where u2: "planner_heuristic E eps x u1 = Inr (eps * real_of_int (GetGoalHeuristic E x), u2)" "states_ok E u2" "seen u2 = seen u1"
      "\<forall>j. ready_at u1 j \<longrightarrow> ready_at u2 j" using planner_heuristic_ok[OF u1(2) pl(2)] by blast
    obtain p where p: "to_long (eps * real_of_int (GetGoalHeuristic E x) + real_of_int ?d) = Inr p" "p \<le> LONG_MAX"
      using priority_ok[OF fits xr(1,2) d(2)] d(4) by auto
    obtain fr' where fr': "op_insert H p x fr = Inr fr'" "invar fr'" "entries fr' = add_mset (p, x) (entries fr)" using insert[OF fr p(2)] by blast
    have rx: "ready_at u2 x" using u1(4) u2(4) by blast
    obtain s2 where s2: "ub_read (cell_of x) u2 = Inr s2" "sp_initialized s2" "sp_h s2 = Some (GetGoalHeuristic E x)" "sp_expanded s2 = xd u x"
      using read_gd[OF u2(2) pl(2) rx] seen_cong[OF u2(3)] s1 by auto
    let ?s = "s2\<lparr>sp_pred := v, sp_g := ?d\<rparr>"
    obtain u3 where u3: "ub_write (cell_of x) ?s u2 = Inr u3" "states_ok E u3" "seen u3 = (seen u2)(x := (?d, v, xd u x))" "\<forall>j. ready_at u2 j \<longrightarrow> ready_at u3 j"
      using write_seen[OF u2(2) pl(2), of ?s] rx s2 by (auto simp: ready_at_def)
    have "real_of_int ?d = real_of_int (gd u v) + real_of_int w" by simp
    then have run: "wastar_relax E H eps v (cell_of v) (x, w) (u, fr) = Inr (u3, fr')"
      using sv sn u1(1) u2(1) p(1) fr'(1) s2(1) u3(1) True d by (simp add: wastar_relax_def Let_def uint_to_int_id)
    have D: "gd u3 = (gd u)(x := ?d)" "pd u3 = (pd u)(x := v)" "xd u3 = xd u"
      using seen_upd[OF u3(3)] seen_cong[OF u2(3)] s1 by (auto simp: fun_eq_iff)
    have vx: "v \<noteq> x" using True xr(3) by auto
    have e: "edge (env_graph E n) () v x w" using vr v(3) by (simp add: env_edge)
    have "search_inv E n W src u3 (entries fr')"
    proof (rule search_invI, goal_cases)
      case 2
      show ?case unfolding D
        by (rule pred_tree_relax[OF iv(2) _ e _ vM True iv(3)]) (use eg.edge_ok[OF fits] in blast, simp)
    next
      case (5 y)
      then show ?case using iv(5)[of y] by (auto simp: D fr'(3) split: if_splits)
    next
      case (6 q y)
      then show ?case using iv(6)[of q y] d(4) by (auto simp: D fr'(3))
    qed (use iv(3,4,7,8) d xr u3(2) in \<open>auto simp: D split: if_splits\<close>)
    then show ?thesis using run fr'(2) u1(5) u2(4) u3(4) D vx d(4) True by auto
  qed
qed

lemma relax_all_ok:
  assumes fits: "env_fits E n W Hmax eps" and inv: "search_inv E n W src u (entries fr)" and fr: "invar fr"
    and v: "ready_at u v" "xd u v" "gd u v + W \<le> W * int (card {v. xd u v})"
  shows "\<exists>u' fr'. efold (wastar_relax E H eps v (cell_of v)) (GetSuccs E v) (u, fr) = Inr (u', fr') \<and> invar fr' \<and> search_inv E n W src u' (entries fr') \<and>
    (\<forall>j. ready_at u j \<longrightarrow> ready_at u' j) \<and> xd u' = xd u \<and> (\<forall>x w. (x, w) \<in> set (GetSuccs E v) \<longrightarrow> gd u' x < INT_MAX) \<and>
    (\<forall>y. gd u' y \<le> gd u y \<and> ((gd u' y = gd u y \<and> pd u' y = pd u y) \<or> pd u' y = v))"
proof -
  define I where "I = (\<lambda>bef :: (int \<times> int) list. \<lambda>(u', fr'). invar fr' \<and> search_inv E n W src u' (entries fr') \<and> (\<forall>j. ready_at u j \<longrightarrow> ready_at u' j) \<and> xd u' = xd u \<and>
    gd u' v = gd u v \<and> (\<forall>x w. (x, w) \<in> set bef \<longrightarrow> gd u' x < INT_MAX) \<and>
    (\<forall>y. gd u' y \<le> gd u y \<and> ((gd u' y = gd u y \<and> pd u' y = pd u y) \<or> pd u' y = v)))"
  have "\<exists>s'. efold (wastar_relax E H eps v (cell_of v)) (GetSuccs E v) (u, fr) = Inr s' \<and> I (GetSuccs E v) s'"
  proof (rule efold_invariant)
    show "I [] (u, fr)" using inv fr by (simp add: I_def)
    fix bef xw s assume l: "\<exists>post. GetSuccs E v = bef @ xw # post" and Is: "I bef s"
    obtain x w u1 fr1 where xw: "xw = (x, w)" "s = (u1, fr1)" by (metis surj_pair)
    have e: "(x, w) \<in> set (GetSuccs E v)" using l by (auto simp: xw)
    have i1: "invar fr1" "search_inv E n W src u1 (entries fr1)" "ready_at u1 v" "xd u1 v" "gd u1 v + W \<le> W * int (card {v. xd u1 v})"
      using Is v unfolding I_def xw by auto
    obtain u2 fr2 where r: "wastar_relax E H eps v (cell_of v) (x, w) (u1, fr1) = Inr (u2, fr2)" "invar fr2" "search_inv E n W src u2 (entries fr2)"
      "\<forall>j. ready_at u1 j \<longrightarrow> ready_at u2 j" "xd u2 = xd u1" "gd u2 v = gd u1 v" "gd u2 x < INT_MAX"
      "\<And>y. gd u2 y \<le> gd u1 y \<and> ((gd u2 y = gd u1 y \<and> pd u2 y = pd u1 y) \<or> pd u2 y = v)"
      using relax_ok[OF fits i1(2,1,3,4) e i1(5)] by blast
    have 1: "gd u2 y < INT_MAX" if "(y, c) \<in> set (bef @ [(x, w)])" for y c
      using Is r(7) r(8)[of y] that unfolding I_def xw by (auto intro: le_less_trans)
    have 2: "gd u2 y \<le> gd u y \<and> ((gd u2 y = gd u y \<and> pd u2 y = pd u y) \<or> pd u2 y = v)" for y
      using Is r(8)[of y] unfolding I_def xw by (auto intro: order_trans dest!: spec[of _ y])
    have "I (bef @ [(x, w)]) (u2, fr2)" unfolding I_def prod.case
      by (intro conjI allI impI) (use Is r(2-6) 1 2 in \<open>simp_all add: I_def xw\<close>)
    then show "\<exists>s'. wastar_relax E H eps v (cell_of v) xw s = Inr s' \<and> I (bef @ [xw]) s'" using r(1) by (auto simp: xw)
  qed
  then show ?thesis unfolding I_def by auto
qed

end

section \<open>The loop of the search\<close>

definition loop_ok :: "Environment \<Rightarrow> int \<Rightarrow> int \<Rightarrow> int \<Rightarrow> int \<Rightarrow> astarState ubvec \<Rightarrow> (int \<times> int) multiset \<Rightarrow> bool" where
  "loop_ok E n W src dst u C \<longleftrightarrow> search_inv E n W src u C \<and> 0 \<le> dst \<and> dst < n \<and> ready_at u dst \<and>
     (\<forall>v x w. xd u v \<and> (x, w) \<in> set (GetSuccs E v) \<longrightarrow> gd u x < INT_MAX)"

context wastar_ctx
begin

lemma mark_ok:
  assumes fits: "env_fits E n W Hmax eps" and inv: "search_inv E n W src u (add_mset (p, v) C)" and v: "\<not> xd u v" "ready_at u v"
  shows "\<exists>s u'. ub_read (cell_of v) u = Inr s \<and> \<not> sp_expanded s \<and> ub_write (cell_of v) (s\<lparr>sp_expanded := True\<rparr>) u = Inr u' \<and> search_inv E n W src u' C \<and>
    gd u' = gd u \<and> pd u' = pd u \<and> xd u' = (xd u)(v := True) \<and> (\<forall>j. ready_at u j \<longrightarrow> ready_at u' j) \<and>
    card {y. xd u' y} = Suc (card {y. xd u y}) \<and> gd u v + W \<le> W * int (card {y. xd u' y})"
proof -
  note iv = search_invD[OF inv]
  have vM: "gd u v < INT_MAX" using iv(6)[of p v] by simp
  then have vr: "0 \<le> v" "v < n" using iv(4) by auto
  note pl = placed_env[OF fits vr]
  obtain s where s: "ub_read (cell_of v) u = Inr s" "sp_g s = gd u v" "sp_pred s = pd u v" "sp_expanded s = xd u v" "sp_initialized s" "sp_h s = Some (GetGoalHeuristic E v)"
    using read_gd[OF iv(1) pl v(2)] by blast
  obtain u' where u': "ub_write (cell_of v) (s\<lparr>sp_expanded := True\<rparr>) u = Inr u'" "states_ok E u'" "seen u' = (seen u)(v := (gd u v, pd u v, True))"
    "\<forall>j. ready_at u j \<longrightarrow> ready_at u' j"
    using write_seen[OF iv(1) pl, of "s\<lparr>sp_expanded := True\<rparr>"] v(2) s by (auto simp: ready_at_def)
  have D: "gd u' = gd u" "pd u' = pd u" "xd u' = (xd u)(v := True)" using seen_upd[OF u'(3)] by auto
  have "{y. xd u' y} = insert v {y. xd u y}" by (auto simp: D)
  then have card: "card {y. xd u' y} = Suc (card {y. xd u y})" using expanded_card(1)[OF inv fits] v(1) by simp
  have W: "0 \<le> W" using fits by (simp add: env_fits_def)
  have grow: "W * int (card {y. xd u' y}) = W * int (card {y. xd u y}) + W" by (simp add: card algebra_simps)
  have "search_inv E n W src u' C"
  proof (rule search_invI, goal_cases)
    case (5 y)
    then show ?case using iv(5)[of y] by (auto simp: D split: if_splits)
  next
    case (6 q y)
    then show ?case using iv(6)[of q y] by (simp add: D)
  next
    case (8 y)
    then show ?case using iv(8)[of y] grow W by (simp add: D)
  qed (use iv vM u'(2) in \<open>auto simp: D split: if_splits\<close>)
  moreover have "gd u v + W \<le> W * int (card {y. xd u' y})" using iv(8)[OF vM] grow by simp
  moreover have "\<not> sp_expanded s" using s(4) v(1) by simp
  ultimately show ?thesis using s(1) u'(1,4) D card by blast
qed

lemma wastar_body_step:
  assumes fits: "env_fits E n W Hmax eps" and l: "loop_ok E n W src dst u (entries fr)" and fr: "invar fr"
    and go: "gd u dst = INT_MAX" "entries fr \<noteq> {#}"
  obtains p v u' fr' where "wastar_body E H eps (cell_of dst) (u, fr) = Inr (Continue (u', fr'))" "(p, v) \<in># entries fr" "invar fr'"
    "loop_ok E n W src dst u' (entries fr')"
    "xd u v \<longrightarrow> seen u' = seen u \<and> size (entries fr') < size (entries fr)"
    "\<not> xd u v \<longrightarrow> card {y. xd u y} < card {y. xd u' y} \<and> (\<forall>x w. (x, w) \<in> set (GetSuccs E v) \<longrightarrow> gd u' x < INT_MAX) \<and>
      (\<forall>y. (gd u' y = gd u y \<and> pd u' y = pd u y) \<or> pd u' y = v)"
proof -
  have inv: "search_inv E n W src u (entries fr)" and dst: "0 \<le> dst" "dst < n" "ready_at u dst"
    and closed: "\<And>v x w. \<lbrakk>xd u v; (x, w) \<in> set (GetSuccs E v)\<rbrakk> \<Longrightarrow> gd u x < INT_MAX" using l by (auto simp: loop_ok_def)
  note iv = search_invD[OF inv]
  obtain sd where sd: "ub_read (cell_of dst) u = Inr sd" "sp_g sd = INT_MAX"
    using read_gd[OF iv(1) placed_env[OF fits dst(1,2)] dst(3)] go(1) by auto
  obtain p v fr1 where pop: "op_delete_min H fr = Inr (v, fr1)" "invar fr1" "entries fr = add_mset (p, v) (entries fr1)" using delete_min[OF fr go(2)] by blast
  have vM: "gd u v < INT_MAX" using iv(6)[of p v] pop(3) by simp
  then have vr: "0 \<le> v" "v < n" using iv(4) by auto
  note pl = placed_env[OF fits vr]
  obtain u1 where u1: "GetState E v u = Inr (cell_of v, u1)" "states_ok E u1" "seen u1 = seen u" "ready_at u1 v" "\<forall>j. ready_at u j \<longrightarrow> ready_at u1 j"
    using GetState_ok[OF iv(1) pl] by blast
  note s1 = seen_cong[OF u1(3)]
  have inv1: "search_inv E n W src u1 (add_mset (p, v) (entries fr1))" using inv u1(2) s1 pop(3) by (simp add: search_inv_def)
  show ?thesis
  proof (cases "xd u v")
    case True
    obtain sv where sv: "ub_read (cell_of v) u1 = Inr sv" "sp_expanded sv" using read_gd[OF u1(2) pl u1(4)] True s1 by auto
    have run: "wastar_body E H eps (cell_of dst) (u, fr) = Inr (Continue (u1, fr1))" using sd pop(1) u1(1) sv by (simp add: wastar_body_def)
    have "search_inv E n W src u1 (entries fr1)"
    proof (rule search_invI, goal_cases)
      case (5 y)
      then show ?case using search_invD(5)[OF inv1, of y] True s1 by auto
    next
      case (6 q y)
      then show ?case using search_invD(6)[OF inv1, of q y] by simp
    qed (use search_invD[OF inv1] in auto)
    then have "loop_ok E n W src dst u1 (entries fr1)" using dst u1(5) s1 closed by (auto simp: loop_ok_def)
    then show ?thesis using that[OF run, of p v] pop True u1(3) by simp
  next
    case False
    obtain sv u2 where u2: "ub_read (cell_of v) u1 = Inr sv" "\<not> sp_expanded sv" "ub_write (cell_of v) (sv\<lparr>sp_expanded := True\<rparr>) u1 = Inr u2"
      "search_inv E n W src u2 (entries fr1)" "gd u2 = gd u1" "pd u2 = pd u1" "xd u2 = (xd u1)(v := True)" "\<forall>j. ready_at u1 j \<longrightarrow> ready_at u2 j"
      "card {y. xd u2 y} = Suc (card {y. xd u1 y})" "gd u1 v + W \<le> W * int (card {y. xd u2 y})"
      using mark_ok[OF fits inv1 _ u1(4)] False s1 by metis
    obtain u3 where u3: "GetState E v u2 = Inr (cell_of v, u3)" "states_ok E u3" "seen u3 = seen u2" "ready_at u3 v" "\<forall>j. ready_at u2 j \<longrightarrow> ready_at u3 j"
      using GetState_ok[OF search_invD(1)[OF u2(4)] pl] by blast
    note s3 = seen_cong[OF u3(3)]
    have inv3: "search_inv E n W src u3 (entries fr1)" using u2(4) u3(2) s3 by (simp add: search_inv_def)
    have v3: "xd u3 v" "gd u3 v + W \<le> W * int (card {y. xd u3 y})" using s3 u2(5,7,10) by simp_all
    obtain u4 fr4 where u4: "efold (wastar_relax E H eps v (cell_of v)) (GetSuccs E v) (u3, fr1) = Inr (u4, fr4)" "invar fr4"
      "search_inv E n W src u4 (entries fr4)" "\<forall>j. ready_at u3 j \<longrightarrow> ready_at u4 j" "xd u4 = xd u3"
      "\<And>x w. (x, w) \<in> set (GetSuccs E v) \<Longrightarrow> gd u4 x < INT_MAX"
      "\<And>y. gd u4 y \<le> gd u3 y \<and> ((gd u4 y = gd u3 y \<and> pd u4 y = pd u3 y) \<or> pd u4 y = v)"
      using relax_all_ok[OF fits inv3 pop(2) u3(4) v3] by blast
    have run: "wastar_body E H eps (cell_of dst) (u, fr) = Inr (Continue (u4, fr4))"
      using sd pop(1) u1(1) u2(1-3) u3(1) u4(1) by (simp add: wastar_body_def)
    have D: "gd u3 = gd u" "pd u3 = pd u" "xd u4 = (xd u)(v := True)" using s1 s3 u2(5-7) u4(5) by simp_all
    have "gd u4 x < INT_MAX" if "xd u4 a" "(x, w) \<in> set (GetSuccs E a)" for a x w
    proof (cases "a = v")
      case True
      then show ?thesis using u4(6) that(2) by simp
    next
      case other: False
      then have "gd u x < INT_MAX" using that closed D(3) by simp
      then show ?thesis using u4(7)[of x] D(1) by simp
    qed
    then have "loop_ok E n W src dst u4 (entries fr4)" using u4(3,4) u3(5) u2(8) u1(5) dst by (auto simp: loop_ok_def)
    moreover have "card {y. xd u y} < card {y. xd u4 y}" using u2(9) u4(5) s1 s3 by simp
    ultimately show ?thesis using that[OF run, of p v] pop(3) u4(2,6,7) D False by simp
  qed
qed

lemma search_loop:
  assumes fits: "env_fits E n W Hmax eps" and l: "loop_ok E n W src dst u (entries fr)" and fr: "invar fr"
  shows "\<exists>r. run_loop (wastar_body E H eps (cell_of dst)) (u, fr) = Some r \<and> (case r of
      Inl e \<Rightarrow> e = AssertFail \<and> (\<exists>u'. loop_ok E n W src dst u' {#} \<and> gd u' dst = INT_MAX)
    | Inr (u', fr') \<Rightarrow> loop_ok E n W src dst u' (entries fr') \<and> gd u' dst < INT_MAX)"
proof -
  define I where "I = (\<lambda>(u, fr). loop_ok E n W src dst u (entries fr) \<and> invar fr)"
  define R where "R = inv_image (less_than <*lex*> less_than) (\<lambda>(u, fr). (nat n - card {y. xd u y}, size (entries fr)))"
  have dref: "\<exists>sd. ub_read (cell_of dst) u = Inr sd \<and> sp_g sd = gd u dst" if "loop_ok E n W src dst u C" for u C
    using that read_gd[of E u dst] placed_env[OF fits] search_invD(1) by (metis loop_ok_def)
  have brk: "wastar_body E H eps (cell_of dst) (u, fr) = Inr (Break (u, fr))" if "I (u, fr)" "gd u dst \<noteq> INT_MAX" for u fr
    using that dref[of u "entries fr"] by (auto simp: I_def wastar_body_def)
  have fail: "wastar_body E H eps (cell_of dst) (u, fr) = Inl AssertFail" if "I (u, fr)" "gd u dst = INT_MAX" "entries fr = {#}" for u fr
    using that dref[of u "entries fr"] delete_min_empty[of fr] by (auto simp: I_def wastar_body_def)
  have step: "I t \<and> (t, s) \<in> R" if "I s" "wastar_body E H eps (cell_of dst) s = Inr (Continue t)" for s t
  proof -
    obtain u fr where s: "s = (u, fr)" by (cases s)
    have go: "gd u dst = INT_MAX" "entries fr \<noteq> {#}" using brk[of u fr] fail[of u fr] that s by auto
    have inv: "search_inv E n W src u (entries fr)" using that(1) by (simp add: I_def s loop_ok_def)
    have "loop_ok E n W src dst u (entries fr)" "invar fr" using that(1) by (simp_all add: I_def s)
    from wastar_body_step[OF fits this go] obtain p v u' fr' where st: "wastar_body E H eps (cell_of dst) (u, fr) = Inr (Continue (u', fr'))" "invar fr'"
      "loop_ok E n W src dst u' (entries fr')" "xd u v \<longrightarrow> seen u' = seen u \<and> size (entries fr') < size (entries fr)"
      "\<not> xd u v \<longrightarrow> card {y. xd u y} < card {y. xd u' y}" by metis
    have t: "t = (u', fr')" using st(1) that(2) s by simp
    have "search_inv E n W src u' (entries fr')" using st(3) by (simp add: loop_ok_def)
    from expanded_card(2)[OF this fits] have "card {y. xd u' y} \<le> nat n" by simp
    then have "(t, s) \<in> R" using st(4,5) seen_cong[of u' u] by (cases "xd u v") (auto simp: R_def s t)
    then show ?thesis using st(2,3) by (simp add: I_def t)
  qed
  have wf: "wf R" unfolding R_def by (intro wf_inv_image wf_lex_prod wf_less_than)
  have I0: "I (u, fr)" using l fr by (simp add: I_def)
  from run_loop_rule[OF I0 wf step] obtain r s where r: "run_loop (wastar_body E H eps (cell_of dst)) (u, fr) = Some r" "I s"
    "case r of Inl e \<Rightarrow> wastar_body E H eps (cell_of dst) s = Inl e | Inr t \<Rightarrow> wastar_body E H eps (cell_of dst) s = Inr (Break t)" by blast
  obtain u2 fr2 where s: "s = (u2, fr2)" by (cases s)
  have l2: "loop_ok E n W src dst u2 (entries fr2)" "invar fr2" "gd u2 dst \<le> INT_MAX" using r(2) search_invD(3)[of E n W src u2 "entries fr2" dst] by (auto simp: I_def s loop_ok_def)
  consider (found) "gd u2 dst \<noteq> INT_MAX" | (empty) "gd u2 dst = INT_MAX" "entries fr2 = {#}" | (go) "gd u2 dst = INT_MAX" "entries fr2 \<noteq> {#}" by blast
  then show ?thesis
  proof cases
    case found
    then show ?thesis using r brk[of u2 fr2] s l2 by (auto split: sum.splits)
  next
    case empty
    then show ?thesis using r fail[of u2 fr2] s l2 by (auto split: sum.splits)
  next
    case go
    from wastar_body_step[OF fits l2(1,2) go] obtain t where "wastar_body E H eps (cell_of dst) (u2, fr2) = Inr (Continue t)" by metis
    then show ?thesis using r s by (auto split: sum.splits)
  qed
qed

text \<open>An empty frontier means that the destination is not reachable.\<close>

lemma drained_unreachable:
  assumes fits: "env_fits E n W Hmax eps" and l: "loop_ok E n W src dst u {#}" and d: "gd u dst = INT_MAX"
  shows "\<not> path (env_graph E n) () src dst c"
proof
  have inv: "search_inv E n W src u {#}" using l by (simp add: loop_ok_def)
  note iv = search_invD[OF inv]
  assume p: "path (env_graph E n) () src dst c"
  have "gd u src < INT_MAX" using pred_treeD(1)[OF iv(2)] by (simp add: INT_MAX_def)
  moreover have "xd u v" if "gd u v < INT_MAX" for v using iv(5)[OF that] by auto
  ultimately have "src \<in> {v. xd u v}" "dst \<notin> {v. xd u v}" using iv(7)[of dst] d by auto
  from path_leaves[OF p this] obtain x y w where "xd u x" "edge (env_graph E n) () x y w" "\<not> xd u y" by blast
  then show False using l \<open>\<And>v. gd u v < INT_MAX \<Longrightarrow> xd u v\<close> by (auto simp: loop_ok_def env_edge)
qed

end

section \<open>The path\<close>

lemma search_path_walk:
  assumes fits: "env_fits E n W Hmax eps" and tree: "pred_tree (edge (env_graph E n) ()) src INT_MAX D P" and ch: "chain P src v"
    and v: "D v < INT_MAX" "0 \<le> v" "v < n" and u: "states_ok E u" "gd u = D" "pd u = P" "ready_at u v" and c: "0 \<le> cost" "cost + D v \<le> INT_MAX"
  shows "\<exists>ws q u'. run_loop (search_path_body E src) (cell_of v, v, cost, ids, u) =
      Some (Inr (q, src, cost + plan_cost E (rev ws @ [v]), ids @ ws, u')) \<and>
    is_plan E src v (rev ws @ [v]) \<and> plan_cost E (rev ws @ [v]) \<le> D v \<and> states_ok E u' \<and> seen u' = seen u \<and>
    (v = src \<longrightarrow> ws = []) \<and> (v \<noteq> src \<and> P v = src \<longrightarrow> ws = [src])"
  using ch v u c
proof (induction arbitrary: cost ids u rule: chain.induct)
  case chain_root
  have "search_path_body E src (cell_of src, src, cost, ids, u) = Inr (Break (cell_of src, src, cost, ids, u))" by (simp add: search_path_body_def)
  then have "run_loop (search_path_body E src) (cell_of src, src, cost, ids, u) = Some (Inr (cell_of src, src, cost, ids, u))" by (rule run_loop_unfold(2))
  moreover have "0 \<le> D src" using pred_treeD(1)[OF tree] by simp
  ultimately show ?case using chain_root by (intro exI[of _ "[]"]) (simp add: is_plan_def)
next
  case (chain_step v)
  note p = chain_step.prems
  obtain w where w: "edge (env_graph E n) () (P v) v w" "D (P v) + w \<le> D v" using pred_treeD(4)[OF tree p(1) chain_step.hyps(1)] by blast
  have pv: "0 \<le> P v" "P v < n" "(v, w) \<in> set (GetSuccs E (P v))" using w(1) by (simp_all add: env_edge)
  have wr: "0 \<le> w" "w < INFINITECOST" using env_action[OF fits pv] by auto
  let ?a = "least_action E (P v) v"
  have a: "?a \<le> w" "0 \<le> ?a" using least_action_ok[OF pv(3) wr(2)] env_action[OF fits pv(1,2)] by auto
  have DP: "0 \<le> D (P v)" "D (P v) < INT_MAX" using pred_treeD(2)[OF tree, of "P v"] w(2) wr(1) p(1) by linarith+
  obtain s where s: "ub_read (cell_of v) u = Inr s" "sp_pred s = P v" "sp_g s = D v"
    using read_gd[OF p(4) placed_env[OF fits p(2,3)] p(7)] p(5,6) by auto
  obtain u1 where u1: "GetState E (P v) u = Inr (cell_of (P v), u1)" "states_ok E u1" "seen u1 = seen u" "ready_at u1 (P v)"
    using GetState_ok[OF p(4) placed_env[OF fits pv(1,2)]] by blast
  have add: "num_add INT_MAX cost ?a = Inr (cost + ?a)" using p(8,9) a w(2) DP by simp
  have body: "search_path_body E src (cell_of v, v, cost, ids, u) = Inr (Continue (cell_of (P v), P v, cost + ?a, ids @ [P v], u1))"
    using chain_step.hyps(1) s u1(1) add pv(1) p(1) by (simp add: search_path_body_def)
  have "gd u1 = D" "pd u1 = P" using seen_cong[OF u1(3)] p(5,6) by auto
  moreover have "0 \<le> cost + ?a" "cost + ?a + D (P v) \<le> INT_MAX" using p(8,9) a w(2) by linarith+
  ultimately obtain ws q u' where r: "run_loop (search_path_body E src) (cell_of (P v), P v, cost + ?a, ids @ [P v], u1) =
      Some (Inr (q, src, cost + ?a + plan_cost E (rev ws @ [P v]), (ids @ [P v]) @ ws, u'))" "is_plan E src (P v) (rev ws @ [P v])"
    "plan_cost E (rev ws @ [P v]) \<le> D (P v)" "states_ok E u'" "seen u' = seen u1" "P v = src \<longrightarrow> ws = []"
    using chain_step.IH[OF DP(2) pv(1,2) u1(2) _ _ u1(4)] by blast
  let ?l = "rev (P v # ws) @ [v]"
  have l: "plan_cost E ?l = plan_cost E (rev ws @ [P v]) + ?a" "is_plan E src v ?l"
    using plan_append[of E "rev ws" "P v" v] r(2) pv(3) by (auto simp: is_plan_def hd_append image_iff intro!: bexI[of _ "(v, w)"] split: if_splits)
  have "run_loop (search_path_body E src) (cell_of v, v, cost, ids, u) = Some (Inr (q, src, cost + plan_cost E ?l, ids @ (P v # ws), u'))"
    using run_loop_unfold(3)[where body = "search_path_body E src", OF body] r(1) l(1) by (simp add: algebra_simps)
  moreover have "plan_cost E ?l \<le> D v" using l(1) r(3) a(1) w(2) by linarith
  ultimately show ?case using l(2) r(4-6) u1(3) chain_step.hyps(1) by (intro exI[of _ "P v # ws"]) auto
qed

text \<open>The reversal in place.\<close>

lemma swaps_ok:
  "2 * m \<le> length xs \<Longrightarrow> \<exists>ys. efold swap_ends [0..int m - 1] xs = Inr ys \<and> length ys = length xs \<and>
     (\<forall>i < length xs. ys ! i = (if i < m \<or> length xs - m \<le> i then xs ! (length xs - Suc i) else xs ! i))"
proof (induction m)
  case (Suc m)
  then obtain ys where ys: "efold swap_ends [0..int m - 1] xs = Inr ys" "length ys = length xs"
    "\<forall>i < length xs. ys ! i = (if i < m \<or> length xs - m \<le> i then xs ! (length xs - Suc i) else xs ! i)" by auto
  have m: "m < length xs" "length xs - Suc m < length xs" "m < length xs - Suc m" using Suc.prems by auto
  let ?ys = "ys[m := ys ! (length xs - Suc m), length xs - Suc m := ys ! m]"
  have n: "nat (int (length xs) - int m - 1) = length xs - Suc m" by simp
  have "swap_ends (int m) ys = Inr ?ys" using m ys(2) by (simp add: swap_ends_def Let_def arr_get_def arr_set_def n)
  moreover have "[0..int (Suc m) - 1] = [0..int m - 1] @ [int m]" by (simp add: upto_rec2)
  ultimately have "efold swap_ends [0..int (Suc m) - 1] xs = Inr ?ys" using ys(1) by (simp only: efold_append) simp
  moreover have "?ys ! i = (if i < Suc m \<or> length xs - Suc m \<le> i then xs ! (length xs - Suc i) else xs ! i)" if "i < length xs" for i
  proof -
    have "ys ! m = xs ! m" "ys ! (length xs - Suc m) = xs ! (length xs - Suc m)" using ys(3) m by auto
    then show ?thesis using that m ys(2,3) by (cases "i = m \<or> i = length xs - Suc m") (auto simp: nth_list_update)
  qed
  ultimately show ?case using ys(2) by auto
qed simp

lemma reverse_ids_ok: "reverse_ids ids = Inr (rev ids)"
proof -
  let ?m = "length ids div 2"
  obtain ys where ys: "efold swap_ends [0..int ?m - 1] ids = Inr ys" "length ys = length ids"
    "\<forall>i < length ids. ys ! i = (if i < ?m \<or> length ids - ?m \<le> i then ids ! (length ids - Suc i) else ids ! i)" using swaps_ok[of ?m ids] by auto
  have "ys = rev ids"
  proof (rule nth_equalityI)
    fix i assume i: "i < length ys"
    have "length ids - Suc i = i" if "\<not> (i < ?m \<or> length ids - ?m \<le> i)" using that by linarith
    then show "ys ! i = rev ids ! i" using ys(2,3) i by (auto simp: rev_nth)
  qed (use ys(2) in simp)
  then show ?thesis using ys(1) by (simp add: reverse_ids_def zdiv_int)
qed

lemma GetSearchPath_ok:
  assumes fits: "env_fits E n W Hmax eps" and l: "loop_ok E n W src dst u C" and d: "gd u dst < INT_MAX"
  shows "\<exists>ids u'. GetSearchPath E src dst (cell_of dst) u = Some (Inr (ids, plan_cost E ids, u')) \<and> is_plan E src dst ids \<and> plan_cost E ids \<le> gd u dst \<and>
    (dst \<noteq> src \<and> pd u dst = src \<longrightarrow> ids = [src, dst])"
proof -
  have inv: "search_inv E n W src u C" and dst: "0 \<le> dst" "dst < n" "ready_at u dst" using l by (auto simp: loop_ok_def)
  note iv = search_invD[OF inv]
  obtain ws q u' where r: "run_loop (search_path_body E src) (cell_of dst, dst, 0, [dst], u) =
      Some (Inr (q, src, 0 + plan_cost E (rev ws @ [dst]), [dst] @ ws, u'))" "is_plan E src dst (rev ws @ [dst])"
    "plan_cost E (rev ws @ [dst]) \<le> gd u dst" "dst \<noteq> src \<and> pd u dst = src \<longrightarrow> ws = [src]"
    using search_path_walk[OF fits iv(2) pred_treeD(3)[OF iv(2) d] d dst(1,2) iv(1) refl refl dst(3), of 0 "[dst]"] d by auto
  then show ?thesis by (intro exI[of _ "rev ws @ [dst]"] exI[of _ u']) (auto simp: GetSearchPath_def reverse_ids_ok)
qed

section \<open>A call of the planner\<close>

definition fresh :: "int \<Rightarrow> int \<Rightarrow> int \<Rightarrow> int \<times> int \<times> bool" where
  "fresh s p = (\<lambda>v. (INT_MAX, - 1, False))(s := (0, p, False))"

lemma seen_new: "states_ok E ubvec_new" "seen ubvec_new = (\<lambda>v. (INT_MAX, - 1, False))"
  using ubvec_new_ok(1) ubvec_new_ok(2)[of astarState_new] by (auto simp: states_ok_def seen_def astarState_new_def fun_eq_iff)

context wastar_ctx
begin

lemma wastar_start_ok:
  assumes fits: "env_fits E n W Hmax eps" and u: "states_ok E u" "seen u = fresh s (- 1)" and r: "0 \<le> s" "s < n" "0 \<le> d" "d < n"
  shows "\<exists>u' fr p. wastar_start E H eps s d u = Inr (cell_of d, u', fr) \<and> loop_ok E n W s d u' (entries fr) \<and> invar fr \<and>
    seen u' = fresh s s \<and> entries fr = {#(p, s)#}"
proof -
  note pl = placed_env[OF fits r(1,2)] placed_env[OF fits r(3,4)]
  obtain u1 where u1: "GetState E s u = Inr (cell_of s, u1)" "states_ok E u1" "seen u1 = seen u" "ready_at u1 s" using GetState_ok[OF u(1) pl(1)] by blast
  obtain st where st: "ub_read (cell_of s) u1 = Inr st" "sp_expanded st = xd u1 s" "sp_initialized st" "sp_h st = Some (GetGoalHeuristic E s)"
    using read_gd[OF u1(2) pl(1) u1(4)] by blast
  have x: "\<not> sp_expanded st" using st(2) u1(3) u(2) by (simp add: xd_def fresh_def)
  obtain u2 where u2: "ub_write (cell_of s) (st\<lparr>sp_g := 0, sp_pred := s\<rparr>) u1 = Inr u2" "states_ok E u2" "seen u2 = (seen u1)(s := (0, s, False))"
    using write_seen[OF u1(2) pl(1), of "st\<lparr>sp_g := 0, sp_pred := s\<rparr>"] u1(4) st x by (auto simp: ready_at_def)
  obtain u3 where u3: "planner_heuristic E eps s u2 = Inr (eps * real_of_int (GetGoalHeuristic E s), u3)" "states_ok E u3" "seen u3 = seen u2"
    using planner_heuristic_ok[OF u2(2) pl(1)] by blast
  obtain p where p: "to_long (eps * real_of_int (GetGoalHeuristic E s)) = Inr p" "p \<le> LONG_MAX"
    using priority_ok[OF fits r(1,2), of 0] by (auto simp: INT_MAX_def)
  obtain fr where fr: "op_insert H p s (op_new H) = Inr fr" "invar fr" "entries fr = {#(p, s)#}" using insert[OF new(1) p(2), of s] new(2) by auto
  obtain u4 where u4: "GetState E d u3 = Inr (cell_of d, u4)" "states_ok E u4" "seen u4 = seen u3" "ready_at u4 d" using GetState_ok[OF u3(2) pl(2)] by blast
  have f: "seen u4 = fresh s s" using u4(3) u3(3) u2(3) u1(3) u(2) by (simp add: fresh_def)
  have D: "gd u4 = (\<lambda>v. INT_MAX)(s := 0)" "pd u4 = (\<lambda>v. - 1)(s := s)" "xd u4 = (\<lambda>v. False)"
    by (auto simp: gd_def pd_def xd_def f fresh_def fun_eq_iff)
  have M: "0 < INT_MAX" by (simp add: INT_MAX_def)
  have "search_inv E n W s u4 (entries fr)"
  proof (rule search_invI, goal_cases)
    case 2
    show ?case by (rule pred_tree_init) (use M in \<open>auto simp: D\<close>)
  qed (use u4(2) r M in \<open>auto simp: D fr(3) split: if_splits\<close>)
  then have "loop_ok E n W s d u4 (entries fr)" using r(3,4) u4(4) D(3) by (simp add: loop_ok_def)
  moreover have "wastar_start E H eps s d u = Inr (cell_of d, u4, fr)"
    using u1(1) st(1) u2(1) u3(1) p(1) fr(1) u4(1) by (simp add: wastar_start_def)
  ultimately show ?thesis using f fr(2,3) by blast
qed

lemma wAStar_ok:
  assumes fits: "env_fits E n W Hmax eps" and u: "states_ok E u" "seen u = fresh s (- 1)" and r: "0 \<le> s" "s < n" "0 \<le> d" "d < n"
  shows "\<exists>r. wAStar E H eps s d u = Some r \<and> (case r of
      Inl e \<Rightarrow> e = AssertFail \<and> (\<forall>c. \<not> path (env_graph E n) () s d c)
    | Inr u' \<Rightarrow> (\<exists>C. loop_ok E n W s d u' C) \<and> gd u' d < INT_MAX \<and> (d \<noteq> s \<and> d \<in> fst ` set (GetSuccs E s) \<longrightarrow> pd u' d = s))"
proof -
  obtain u1 fr p where start: "wastar_start E H eps s d u = Inr (cell_of d, u1, fr)" "loop_ok E n W s d u1 (entries fr)" "invar fr"
    "seen u1 = fresh s s" "entries fr = {#(p, s)#}" using wastar_start_ok[OF assms] by blast
  show ?thesis
  proof (cases "d \<noteq> s \<and> d \<in> fst ` set (GetSuccs E s)")
    case True
    then have g1: "gd u1 d = INT_MAX" "\<not> xd u1 v" for v by (auto simp: gd_def xd_def start(4) fresh_def)
    obtain q v u2 fr2 where st: "wastar_body E H eps (cell_of d) (u1, fr) = Inr (Continue (u2, fr2))" "(q, v) \<in># entries fr" "invar fr2"
      "loop_ok E n W s d u2 (entries fr2)" "\<forall>x w. (x, w) \<in> set (GetSuccs E v) \<longrightarrow> gd u2 x < INT_MAX"
      "\<forall>y. (gd u2 y = gd u1 y \<and> pd u2 y = pd u1 y) \<or> pd u2 y = v"
      by (rule wastar_body_step[OF fits start(2,3) g1(1)]) (use start(5) g1(2) in auto)
    have v: "v = s" using st(2) start(5) by simp
    then have g2: "gd u2 d < INT_MAX" using st(5) True by force
    then have "pd u2 d = s" using st(6) g1(1) v by (metis less_irrefl)
    have "0 \<le> d" "d < n" "ready_at u2 d" "states_ok E u2" using st(4) search_invD(1) by (auto simp: loop_ok_def)
    then have "wastar_body E H eps (cell_of d) (u2, fr2) = Inr (Break (u2, fr2))"
      using read_gd[OF _ placed_env[OF fits]] g2 by (fastforce simp: wastar_body_def)
    then have "run_loop (wastar_body E H eps (cell_of d)) (u1, fr) = Some (Inr (u2, fr2))"
      using st(1) by (simp add: run_loop_unfold)
    then show ?thesis using start(1) st(4) g2 \<open>pd u2 d = s\<close> by (auto simp: wAStar_def)
  next
    case False
    from search_loop[OF fits start(2,3)] obtain r where r: "run_loop (wastar_body E H eps (cell_of d)) (u1, fr) = Some r"
      "case r of Inl e \<Rightarrow> e = AssertFail \<and> (\<exists>u'. loop_ok E n W s d u' {#} \<and> gd u' d = INT_MAX)
        | Inr (u', fr') \<Rightarrow> loop_ok E n W s d u' (entries fr') \<and> gd u' d < INT_MAX" by blast
    show ?thesis
    proof (cases r)
      case (Inl e)
      then show ?thesis using r start(1) drained_unreachable[OF fits] by (auto simp: wAStar_def)
    next
      case (Inr t)
      then show ?thesis using r start(1) False by (cases t) (auto simp: wAStar_def)
    qed
  qed
qed

lemma initializeSearch_ok:
  assumes fits: "env_fits E n W Hmax eps" and r: "0 \<le> s" "s < n" "0 \<le> d" "d < n"
    and pl: "start_state_id pl = s" "goal_state_id pl = d" "planner_states pl = ubvec_new"
  shows "\<exists>u. initializeSearch E pl = Inr (pl\<lparr>goal_state_ptr := cell_of d, start_state_ptr := cell_of s, planner_states := u\<rparr>) \<and>
    states_ok E u \<and> seen u = fresh s (- 1)"
proof -
  note p = placed_env[OF fits r(1,2)] placed_env[OF fits r(3,4)]
  obtain u1 where u1: "GetState E d ubvec_new = Inr (cell_of d, u1)" "states_ok E u1" "seen u1 = seen ubvec_new" using GetState_ok[OF seen_new(1) p(2)] by blast
  obtain u2 where u2: "GetState E s u1 = Inr (cell_of s, u2)" "states_ok E u2" "seen u2 = seen u1" "ready_at u2 s" using GetState_ok[OF u1(2) p(1)] by blast
  obtain st where st: "ub_read (cell_of s) u2 = Inr st" "sp_pred st = pd u2 s" "sp_expanded st = xd u2 s" "sp_initialized st" "sp_h st = Some (GetGoalHeuristic E s)"
    using read_gd[OF u2(2) p(1) u2(4)] by blast
  have f: "sp_pred st = - 1" "\<not> sp_expanded st" using st(2,3) u2(3) u1(3) by (simp_all add: pd_def xd_def seen_new)
  obtain u3 where u3: "ub_write (cell_of s) (st\<lparr>sp_g := 0\<rparr>) u2 = Inr u3" "states_ok E u3" "seen u3 = (seen u2)(s := (0, - 1, False))"
    using write_seen[OF u2(2) p(1), of "st\<lparr>sp_g := 0\<rparr>"] u2(4) st f by (auto simp: ready_at_def)
  have "seen u3 = fresh s (- 1)" using u3(3) u2(3) u1(3) by (simp add: fresh_def seen_new)
  then show ?thesis using u1(1) u2(1) st(1) u3(1,2) pl by (auto simp: initializeSearch_def)
qed

lemma replan_ok:
  assumes fits: "env_fits E n W Hmax eps" and r: "0 \<le> s" "s < n" "0 \<le> d" "d < n"
  shows "\<exists>r. replan E H s d eps pl = Some r \<and> (case r of
      Inl e \<Rightarrow> e = AssertFail \<and> (\<forall>c. \<not> path (env_graph E n) () s d c)
    | Inr (ret, out, pl') \<Rightarrow> ret = 1 \<and> start_state_id pl' = - 1 \<and> goal_state_id pl' = - 1 \<and> (\<exists>ids. out = Some (ids, Some (plan_cost E ids)) \<and> is_plan E s d ids \<and>
        (d \<noteq> s \<and> d \<in> fst ` set (GetSuccs E s) \<longrightarrow> ids = [s, d])))"
proof -
  define p0 where "p0 = (set_goal d (set_start s (pl\<lparr>planner_states := ubvec_new\<rparr>)))\<lparr>planner_eps := eps\<rparr>"
  have p0: "start_state_id p0 = s" "goal_state_id p0 = d" "planner_states p0 = ubvec_new" "planner_eps p0 = eps"
    by (simp_all add: p0_def set_goal_def set_start_def)
  obtain u where u: "initializeSearch E p0 = Inr (p0\<lparr>goal_state_ptr := cell_of d, start_state_ptr := cell_of s, planner_states := u\<rparr>)"
    "states_ok E u" "seen u = fresh s (- 1)" using initializeSearch_ok[OF fits r p0(1-3)] by blast
  have run: "replan E H s d eps pl = map_option (\<lambda>r. ebind r (\<lambda>(found, ids, cost, pl).
      Inr (if found then 1 else 0, Some (ids, cost), pl\<lparr>start_state_id := - 1, goal_state_id := - 1\<rparr>))) (Search E H p0)"
    using p0 r by (simp add: replan_def p0_def[symmetric] Let_def)
  obtain q where q: "wAStar E H eps s d u = Some q" "case q of
      Inl e \<Rightarrow> e = AssertFail \<and> (\<forall>c. \<not> path (env_graph E n) () s d c)
    | Inr u' \<Rightarrow> (\<exists>C. loop_ok E n W s d u' C) \<and> gd u' d < INT_MAX \<and> (d \<noteq> s \<and> d \<in> fst ` set (GetSuccs E s) \<longrightarrow> pd u' d = s)"
    using wAStar_ok[OF fits u(2,3) r] by blast
  show ?thesis
  proof (cases q)
    case (Inl e)
    then have "Search E H p0 = Some (Inl e)" using u(1) q(1) p0 by (simp add: Search_def)
    then show ?thesis using run q(2) Inl by simp
  next
    case (Inr u1)
    obtain C where l: "loop_ok E n W s d u1 C" and g: "gd u1 d < INT_MAX" and one: "d \<noteq> s \<and> d \<in> fst ` set (GetSuccs E s) \<longrightarrow> pd u1 d = s"
      using q(2) Inr by auto
    have inv: "search_inv E n W s u1 C" using l by (simp add: loop_ok_def)
    obtain u2 where u2: "GetState E d u1 = Inr (cell_of d, u2)" "states_ok E u2" "seen u2 = seen u1" "ready_at u2 d"
      using GetState_ok[OF search_invD(1)[OF inv] placed_env[OF fits r(3,4)]] by blast
    note s2 = seen_cong[OF u2(3)]
    have l2: "loop_ok E n W s d u2 C" using l u2(2,4) s2 by (simp add: loop_ok_def search_inv_def)
    obtain st where st: "ub_read (cell_of d) u2 = Inr st" "sp_g st = gd u1 d" using read_gd[OF u2(2) placed_env[OF fits r(3,4)] u2(4)] s2 by auto
    obtain ids u3 where ids: "GetSearchPath E s d (cell_of d) u2 = Some (Inr (ids, plan_cost E ids, u3))" "is_plan E s d ids"
      "d \<noteq> s \<and> pd u2 d = s \<longrightarrow> ids = [s, d]" using GetSearchPath_ok[OF fits l2] g s2 by auto
    have "\<exists>pl'. Search E H p0 = Some (Inr (True, ids, Some (plan_cost E ids), pl'))"
      using u(1) q(1) Inr u2(1) st g ids(1) p0 by (simp add: Search_def)
    then show ?thesis using run ids(2,3) one s2 by auto
  qed
qed

end

interpretation wa: wastar_ctx bin_heap_ops heap_invar contents
  by unfold_locales

section \<open>The planner with the binary heap\<close>

lemma replan_cases:
  assumes "env_fits E n W Hmax eps" "0 \<le> s" "s < n" "0 \<le> d" "d < n"
  obtains (fails) "replan E bin_heap_ops s d eps pl = Some (Inl AssertFail)" "\<And>c. \<not> path (env_graph E n) () s d c"
  | (plan) ids pl' where "replan E bin_heap_ops s d eps pl = Some (Inr (1, Some (ids, Some (plan_cost E ids)), pl'))" "is_plan E s d ids"
      "start_state_id pl' = - 1" "goal_state_id pl' = - 1" "\<lbrakk>d \<noteq> s; d \<in> fst ` set (GetSuccs E s)\<rbrakk> \<Longrightarrow> ids = [s, d]"
proof -
  from wa.replan_ok[OF assms, of pl] obtain r where r: "replan E bin_heap_ops s d eps pl = Some r" "case r of
      Inl e \<Rightarrow> e = AssertFail \<and> (\<forall>c. \<not> path (env_graph E n) () s d c)
    | Inr (ret, out, pl') \<Rightarrow> ret = 1 \<and> start_state_id pl' = - 1 \<and> goal_state_id pl' = - 1 \<and> (\<exists>ids. out = Some (ids, Some (plan_cost E ids)) \<and> is_plan E s d ids \<and>
        (d \<noteq> s \<and> d \<in> fst ` set (GetSuccs E s) \<longrightarrow> ids = [s, d]))" by blast
  show ?thesis
  proof (cases r)
    case (Inl e)
    then show ?thesis using r by (intro fails) auto
  next
    case (Inr t)
    then show ?thesis using r by (cases t) (auto intro: plan)
  qed
qed

lemma replan_again_fails: "start_state_id pl = - 1 \<Longrightarrow> goal_state_id pl = - 1 \<Longrightarrow> \<exists>pl'. replan_again E H eps pl = Some (Inr (0, None, pl'))"
  by (simp add: replan_again_def replan_def Let_def set_goal_def set_start_def)

text \<open>
  C24. In an environment that fits the machine integers, a call of \<open>replan\<close> whose goal can be reached ends, returns 1, and writes a sequence of states from
  the start to the goal that are successors of each other, with its cost; a call of the other \<open>replan\<close> after it has no start and goal any more and returns 0.
\<close>

theorem planner_returns_plan:
  assumes "env_fits E n W Hmax eps" "0 \<le> s" "s < n" "0 \<le> d" "d < n" "path (env_graph E n) () s d c"
  shows "\<exists>ids pl' pl''. replan E bin_heap_ops s d eps pl = Some (Inr (1, Some (ids, Some (plan_cost E ids)), pl')) \<and> is_plan E s d ids \<and>
    path (env_graph E n) () s d (plan_cost E ids) \<and> replan_again E bin_heap_ops eps pl' = Some (Inr (0, None, pl''))"
proof (rule replan_cases[OF assms(1-5), of pl])
  fix ids pl'
  assume "replan E bin_heap_ops s d eps pl = Some (Inr (1, Some (ids, Some (plan_cost E ids)), pl'))" "is_plan E s d ids"
    "start_state_id pl' = - 1" "goal_state_id pl' = - 1"
  then show ?thesis using plan_path[OF _ assms(1-3)] replan_again_fails[of pl' E bin_heap_ops eps] by blast
qed (use assms(6) in blast)

definition detour_env :: Environment where
  "detour_env = \<lparr>GetSuccs = (\<lambda>v. if v = 0 then [(2, 10), (1, 1)] else if v = 1 then [(2, 1)] else []), GetGoalHeuristic = (\<lambda>v. 0)\<rparr>"

lemma detour_fits: "env_fits detour_env 4 10 0 1"
  by (auto simp: env_fits_def detour_env_def INFINITECOST_def INT_MAX_def LONG_MAX_def)

lemma detour_path: "path (env_graph detour_env 4) () 0 2 2"
proof -
  have "edge (env_graph detour_env 4) () 0 1 1" "edge (env_graph detour_env 4) () 1 2 1" by (simp_all add: env_edge detour_env_def)
  then show ?thesis using path_step[OF path_edge] by fastforce
qed

theorem planner_returns_plan_witness:
  "\<forall>pl. \<exists>ids pl' pl''. replan detour_env bin_heap_ops 0 2 1 pl = Some (Inr (1, Some (ids, Some (plan_cost detour_env ids)), pl')) \<and> is_plan detour_env 0 2 ids \<and>
    path (env_graph detour_env 4) () 0 2 (plan_cost detour_env ids) \<and> replan_again detour_env bin_heap_ops 1 pl' = Some (Inr (0, None, pl''))"
  by (intro allI, rule planner_returns_plan[OF detour_fits _ _ _ _ detour_path]) simp_all

text \<open>
  C25. When the goal cannot be reached \<open>replan\<close> does not return 0: the frontier runs empty and \<open>delete_min\<close> fails its assertion.
\<close>

theorem planner_unreachable_asserts:
  assumes "env_fits E n W Hmax eps" "0 \<le> s" "s < n" "0 \<le> d" "d < n" "\<And>c. \<not> path (env_graph E n) () s d c"
  shows "replan E bin_heap_ops s d eps pl = Some (Inl AssertFail)"
  by (rule replan_cases[OF assms(1-5), of pl]) (use plan_path[OF _ assms(1-3)] assms(6) in blast)+

lemma detour_apart: "\<not> path (env_graph detour_env 4) () 0 3 c"
proof
  assume "path (env_graph detour_env 4) () 0 3 c"
  from path_leaves[OF this, of "{0, 1, 2}"] obtain x y w where "x \<in> {0, 1, 2}" "edge (env_graph detour_env 4) () x y w" "y \<notin> {0, 1, 2}" by auto
  then show False by (auto simp: env_edge detour_env_def split: if_splits)
qed

theorem planner_unreachable_asserts_witness: "\<forall>pl. replan detour_env bin_heap_ops 0 3 1 pl = Some (Inl AssertFail)"
  by (intro allI, rule planner_unreachable_asserts[OF detour_fits _ _ _ _ detour_apart]) simp_all

text \<open>A goal next to the start: the search ends when the goal has a label, which is after one expansion.\<close>

lemma planner_direct_step:
  assumes "env_fits E n W Hmax eps" "0 \<le> s" "s < n" "0 \<le> d" "d < n" "d \<noteq> s" "(d, w) \<in> set (GetSuccs E s)"
  shows "\<exists>pl'. replan E bin_heap_ops s d eps pl = Some (Inr (1, Some ([s, d], Some (least_action E s d)), pl'))"
proof -
  have "edge (env_graph E n) () s d w" using assms by (simp add: env_edge)
  then have "path (env_graph E n) () s d w" by (rule path_edge)
  moreover have "d \<in> fst ` set (GetSuccs E s)" using assms(7) by force
  ultimately show ?thesis using replan_cases[OF assms(1-5), of pl] assms(6) by (metis plan_cost.simps(1,3) add.right_neutral)
qed

text \<open>
  C26. The cost is not within the factor \<open>eps\<close> of the least: with \<open>eps\<close> 1 and the heuristic 0, which is consistent, the planner returns the direct action of
  cost 10 where a path of cost 2 exists.
\<close>

theorem planner_exceeds_eps:
  "(\<exists>pl'. replan detour_env bin_heap_ops 0 2 1 pl = Some (Inr (1, Some ([0, 2], Some 10), pl'))) \<and> path (env_graph detour_env 4) () 0 2 2 \<and>
   eps_consistent (env_graph detour_env 4) 1 (GetGoalHeuristic detour_env) ()"
proof -
  have "least_action detour_env 0 2 = 10" by (simp add: least_action_def detour_env_def INFINITECOST_def)
  then have "\<exists>pl'. replan detour_env bin_heap_ops 0 2 1 pl = Some (Inr (1, Some ([0, 2], Some 10), pl'))"
    using planner_direct_step[OF detour_fits, of 0 2 10 pl] by (simp add: detour_env_def)
  moreover have "eps_consistent (env_graph detour_env 4) 1 (GetGoalHeuristic detour_env) ()"
    by (auto simp: eps_consistent_def env_edge detour_env_def split: if_splits)
  ultimately show ?thesis using detour_path by blast
qed

end
