(* ===== verification/Priority_Queue.thy ===== *)
theory Priority_Queue
  imports Heap_Slots
begin

text \<open>
  The binary heap of \<open>src/pbnf/src/util/priority_queue.h\<close>, a template over pointers to elements that carry
  their own index (-1: not in the queue). The predicate of the class \<open>PQOps\<close> is a parameter; a cell that
  is NULL or was never written is \<open>None\<close>. The self-checks under \<open>PQ_DEBUG\<close> are not compiled in.
\<close>

section \<open>The program\<close>

record 'e pqueue =
  pq_fill :: int
  pq_size :: int
  pq_heap :: "'e option list"
  pq_index :: "'e \<Rightarrow> int"

definition left_of :: "int \<Rightarrow> int" where
  "left_of i = 2 * i + 1"

definition right_of :: "int \<Rightarrow> int" where
  "right_of i = 2 * i + 2"

definition parent_of :: "int \<Rightarrow> int" where
  "parent_of i = cdiv (i - 1) 2"

definition is_leaf :: "'e pqueue \<Rightarrow> int \<Rightarrow> bool" where
  "is_leaf q i \<longleftrightarrow> left_of i \<ge> pq_fill q \<and> right_of i \<ge> pq_fill q"

definition pq_deref :: "'e option \<Rightarrow> 'e result" where
  "pq_deref c = (case c of None \<Rightarrow> Inl NullDeref | Some e \<Rightarrow> Inr e)"

definition pq_cell :: "'e pqueue \<Rightarrow> int \<Rightarrow> 'e result" where
  "pq_cell q i = ebind (arr_get (pq_heap q) i) pq_deref"

definition set_cell :: "int \<Rightarrow> 'e option \<Rightarrow> 'e pqueue \<Rightarrow> 'e pqueue result" where
  "set_cell i c q = ebind (arr_set (pq_heap q) i c) (\<lambda>a. Inr (q\<lparr>pq_heap := a\<rparr>))"

definition set_index :: "'e \<Rightarrow> int \<Rightarrow> 'e pqueue \<Rightarrow> 'e pqueue" where
  "set_index e i q = q\<lparr>pq_index := (pq_index q)(e := i)\<rparr>"

definition max_child :: "('e \<Rightarrow> 'e \<Rightarrow> bool) \<Rightarrow> 'e pqueue \<Rightarrow> int \<Rightarrow> int result" where
  "max_child pred q i = ebind (eassert (\<not> is_leaf q i)) (\<lambda>_.
     if left_of i < pq_fill q \<and> right_of i < pq_fill q then
       ebind (pq_cell q (right_of i)) (\<lambda>r. ebind (pq_cell q (left_of i)) (\<lambda>l.
         Inr (if pred r l then right_of i else left_of i)))
     else if left_of i < pq_fill q then Inr (left_of i)
     else Inr (right_of i))"

text \<open>\<open>heap[i] = e; set_index(e, i); assert(i < fill)\<close>\<close>

definition settle :: "'e \<Rightarrow> int \<Rightarrow> 'e pqueue \<Rightarrow> 'e pqueue result" where
  "settle e i q = ebind (set_cell i (Some e) q) (\<lambda>q. ebind (eassert (i < pq_fill q)) (\<lambda>_. Inr (set_index e i q)))"

lemma parent_of_less: "0 < i \<Longrightarrow> nat (parent_of i) < nat i"
  by (simp add: parent_of_def)

function sift_up_loop :: "('e \<Rightarrow> 'e \<Rightarrow> bool) \<Rightarrow> 'e \<Rightarrow> int \<Rightarrow> 'e pqueue \<Rightarrow> (int \<times> 'e pqueue) result" where
  "sift_up_loop pred e i q =
     ebind (arr_get (pq_heap q) (parent_of i)) (\<lambda>parent.
       if i > 0 then
         ebind (pq_deref parent) (\<lambda>p.
           if pred e p then ebind (settle p i q) (\<lambda>q. sift_up_loop pred e (parent_of i) q)
           else Inr (i, q))
       else Inr (i, q))"
  by pat_completeness auto
termination
  by (relation "measure (\<lambda>(pred, e, i, q). nat i)") (auto dest: parent_of_less)

declare sift_up_loop.simps [simp del]

definition sift_up :: "('e \<Rightarrow> 'e \<Rightarrow> bool) \<Rightarrow> int \<Rightarrow> 'e pqueue \<Rightarrow> (int \<times> 'e pqueue) result" where
  "sift_up pred i q =
     ebind (pq_cell q i) (\<lambda>e. ebind (sift_up_loop pred e i q) (\<lambda>(i, q).
       ebind (set_cell i (Some e) q) (\<lambda>q. Inr (i, q))))"

text \<open>
  \<open>try_push\<close> recurs on a child: from an index of at least 0 the index grows, and a negative one fails at
  once, so \<open>fill + 1\<close> calls are enough.
\<close>

fun try_push :: "('e \<Rightarrow> 'e \<Rightarrow> bool) \<Rightarrow> nat \<Rightarrow> 'e \<Rightarrow> int \<Rightarrow> 'e pqueue \<Rightarrow> (int \<times> 'e pqueue) result" where
  "try_push pred 0 e i q = Inl Diverges"
| "try_push pred (Suc n) e i q = ebind (eassert (i \<noteq> -1)) (\<lambda>_.
     if left_of i < pq_fill q then
       ebind (pq_cell q (left_of i)) (\<lambda>l.
       ebind (if right_of i < pq_fill q then ebind (pq_cell q (right_of i)) (\<lambda>r.
                Inr (if pred r l then (right_of i, r) else (left_of i, l)))
              else Inr (left_of i, l)) (\<lambda>(child_i, child).
         if pred e child then Inr (i, q)
         else ebind (settle child i q) (try_push pred n e child_i)))
     else Inr (i, q))"

definition sift_down :: "('e \<Rightarrow> 'e \<Rightarrow> bool) \<Rightarrow> 'e \<Rightarrow> int \<Rightarrow> 'e pqueue \<Rightarrow> (int \<times> 'e pqueue) result" where
  "sift_down pred e i q =
     ebind (try_push pred (nat (pq_fill q) + 1) e i q) (\<lambda>(i, q). ebind (eassert (i < pq_fill q)) (\<lambda>_.
     ebind (settle e i q) (\<lambda>q. Inr (i, q))))"

definition pq_grow :: "'e pqueue \<Rightarrow> 'e pqueue result" where
  "pq_grow q = ebind (num_mul INT_MAX (pq_size q) 2) (\<lambda>sz.
     ebind (copy_cells (pq_fill q) (pq_heap q) (replicate (nat sz) None)) (\<lambda>a. Inr (q\<lparr>pq_size := sz, pq_heap := a\<rparr>)))"

definition pq_add :: "('e \<Rightarrow> 'e \<Rightarrow> bool) \<Rightarrow> 'e \<Rightarrow> 'e pqueue \<Rightarrow> 'e pqueue result" where
  "pq_add pred e q =
     ebind (if pq_size q \<le> pq_fill q then pq_grow q else Inr q) (\<lambda>q.
     ebind (set_cell (pq_fill q) (Some e) q) (\<lambda>q. ebind (num_add INT_MAX (pq_fill q) 1) (\<lambda>f.
     ebind (sift_up pred (f - 1) (q\<lparr>pq_fill := f\<rparr>)) (\<lambda>(i, q). ebind (eassert (i < pq_fill q)) (\<lambda>_. Inr (set_index e i q))))))"

text \<open>\<open>set_index(x, -1); heap[i] = heap[fill - 1]; heap[fill - 1] = NULL; fill -= 1\<close>\<close>

definition replace_last :: "int \<Rightarrow> 'e \<Rightarrow> 'e pqueue \<Rightarrow> 'e pqueue result" where
  "replace_last i x q = ebind (arr_get (pq_heap q) (pq_fill q - 1)) (\<lambda>l. ebind (set_cell i l (set_index x (-1) q)) (\<lambda>q.
     ebind (set_cell (pq_fill q - 1) None q) (\<lambda>q. Inr (q\<lparr>pq_fill := pq_fill q - 1\<rparr>))))"

definition pq_take :: "('e \<Rightarrow> 'e \<Rightarrow> bool) \<Rightarrow> 'e pqueue \<Rightarrow> ('e option \<times> 'e pqueue) result" where
  "pq_take pred q =
     (if pq_fill q \<le> 0 then Inr (None, q)
      else ebind (pq_cell q 0) (\<lambda>e. ebind (replace_last 0 e q) (\<lambda>q.
        if pq_fill q > 0 then ebind (pq_cell q 0) (\<lambda>x. ebind (sift_down pred x 0 q) (\<lambda>(i, q). Inr (Some e, q)))
        else Inr (Some e, q))))"

definition pq_remove :: "('e \<Rightarrow> 'e \<Rightarrow> bool) \<Rightarrow> int \<Rightarrow> 'e pqueue \<Rightarrow> 'e pqueue result" where
  "pq_remove pred i q =
     ebind (eassert (i < pq_fill q)) (\<lambda>_. ebind (pq_cell q i) (\<lambda>x. ebind (replace_last i x q) (\<lambda>q.
       if i < pq_fill q then
         ebind (pq_cell q i) (\<lambda>e. ebind (sift_up pred i (set_index e i q)) (\<lambda>(j, q).
           ebind (sift_down pred e j q) (\<lambda>(j, q). Inr q)))
       else Inr q)))"

definition see_update :: "('e \<Rightarrow> 'e \<Rightarrow> bool) \<Rightarrow> int \<Rightarrow> 'e pqueue \<Rightarrow> 'e pqueue result" where
  "see_update pred i q =
     ebind (eassert (i \<ge> 0)) (\<lambda>_. ebind (eassert (i < pq_fill q)) (\<lambda>_.
     ebind (pq_cell q i) (\<lambda>e. ebind (sift_up pred i q) (\<lambda>(ind, q). ebind (sift_down pred e ind q) (\<lambda>(j, q). Inr q)))))"

definition pq_front :: "'e pqueue \<Rightarrow> 'e option result" where
  "pq_front q = (if pq_fill q \<le> 0 then Inr None else arr_get (pq_heap q) 0)"

definition pq_empty :: "'e pqueue \<Rightarrow> bool" where
  "pq_empty q \<longleftrightarrow> pq_fill q \<le> 0"

definition get_elem :: "'e pqueue \<Rightarrow> int \<Rightarrow> 'e option result" where
  "get_elem q i = ebind (eassert (i < pq_fill q)) (\<lambda>_. arr_get (pq_heap q) i)"

definition PriorityQueue_new :: "('e \<Rightarrow> int) \<Rightarrow> 'e pqueue" where
  "PriorityQueue_new idx = \<lparr>pq_fill = 0, pq_size = 100, pq_heap = replicate 100 None, pq_index = idx\<rparr>"

definition pq_reset :: "'e pqueue \<Rightarrow> 'e pqueue result" where
  "pq_reset q = ebind (efold (\<lambda>i q. ebind (pq_cell q (int i)) (\<lambda>e. Inr (set_index e (-1) q))) [0..<nat (pq_fill q)] q) (\<lambda>q.
     Inr (q\<lparr>pq_fill := 0, pq_size := 100, pq_heap := replicate 100 None\<rparr>))"

text \<open>The loop of \<open>heap_holds\<close> from \<open>i\<close> for the \<open>n\<close> indices up to \<open>ind_end\<close>.\<close>

definition violated :: "('e \<Rightarrow> 'e \<Rightarrow> bool) \<Rightarrow> 'e pqueue \<Rightarrow> int \<Rightarrow> int \<Rightarrow> bool result" where
  "violated pred q c i = (if c < pq_fill q then ebind (pq_cell q c) (\<lambda>x. ebind (pq_cell q i) (\<lambda>y. Inr (pred x y))) else Inr False)"

fun heap_holds_loop :: "('e \<Rightarrow> 'e \<Rightarrow> bool) \<Rightarrow> 'e pqueue \<Rightarrow> nat \<Rightarrow> int \<Rightarrow> bool result" where
  "heap_holds_loop pred q 0 i = Inr True"
| "heap_holds_loop pred q (Suc n) i = ebind (violated pred q (right_of i) i) (\<lambda>v. if v then Inr False
     else ebind (violated pred q (left_of i) i) (\<lambda>v. if v then Inr False else heap_holds_loop pred q n (i + 1)))"

definition heap_holds :: "('e \<Rightarrow> 'e \<Rightarrow> bool) \<Rightarrow> 'e pqueue \<Rightarrow> int \<Rightarrow> int \<Rightarrow> bool result" where
  "heap_holds pred q ind_start ind_end = heap_holds_loop pred q (nat (ind_end - ind_start + 1)) ind_start"

fun indexes_match_loop :: "'e pqueue \<Rightarrow> nat list \<Rightarrow> bool result" where
  "indexes_match_loop q [] = Inr True"
| "indexes_match_loop q (i # is) = ebind (pq_cell q (int i)) (\<lambda>e. if pq_index q e \<noteq> int i then Inr False else indexes_match_loop q is)"

definition indexes_match :: "'e pqueue \<Rightarrow> bool result" where
  "indexes_match q = indexes_match_loop q [0..<nat (pq_fill q)]"

definition resort :: "('e \<Rightarrow> 'e \<Rightarrow> bool) \<Rightarrow> 'e pqueue \<Rightarrow> 'e pqueue result" where
  "resort pred q =
     ebind (efold (\<lambda>i q'. ebind (pq_cell q (int i)) (\<lambda>e. pq_add pred e q')) [0..<nat (pq_fill q)]
       (q\<lparr>pq_heap := replicate (nat (pq_size q)) None, pq_fill := 0\<rparr>)) (\<lambda>q.
     ebind (heap_holds pred q 0 (pq_fill q - 1)) (\<lambda>ok. ebind (eassert ok) (\<lambda>_. Inr q)))"

definition to_list :: "'e pqueue \<Rightarrow> 'e option list result" where
  "to_list q = efold (\<lambda>i xs. ebind (arr_get (pq_heap q) (int i)) (\<lambda>c. Inr (c # xs))) [0..<nat (pq_fill q)] []"

section \<open>Sifting\<close>

abbreviation less_val :: "('e \<Rightarrow> 'k::linorder) \<Rightarrow> 'e \<Rightarrow> 'e \<Rightarrow> bool" where
  "less_val val a b \<equiv> val a < val b"

definition same_pq :: "'e pqueue \<Rightarrow> 'e pqueue \<Rightarrow> bool" where
  "same_pq q q' \<longleftrightarrow> pq_fill q' = pq_fill q \<and> pq_size q' = pq_size q \<and> length (pq_heap q') = length (pq_heap q)"

definition pq_slots :: "('e \<Rightarrow> int) \<Rightarrow> 'e set \<Rightarrow> 'e pqueue \<Rightarrow> (nat \<Rightarrow> 'e) \<Rightarrow> nat \<Rightarrow> bool" where
  "pq_slots idx0 E q b i \<longleftrightarrow> slots id 0 (nat (pq_fill q)) idx0 E (pq_heap q) (pq_index q) b i"

definition pq_settled :: "('e \<Rightarrow> 'k::linorder) \<Rightarrow> 'e set \<Rightarrow> ('e \<Rightarrow> int) \<Rightarrow> 'e pqueue \<Rightarrow> bool" where
  "pq_settled val E idx0 q \<longleftrightarrow> (\<exists>b. packed id 0 (nat (pq_fill q)) (pq_heap q) (pq_index q) E b \<and>
     zero.ordered_from val 0 (nat (pq_fill q)) b) \<and> (\<forall>s. s \<notin> E \<longrightarrow> pq_index q s = idx0 s)"

lemma parent_of_int: "0 < i \<Longrightarrow> parent_of (int i) = int ((i - 1) div 2)"
  by (simp add: parent_of_def of_nat_diff zdiv_int Suc_leI)

lemma child_ints: "left_of (int i) = int (2 * i + 1)" "right_of (int i) = int (2 * i + 2)"
  by (simp_all add: left_of_def right_of_def)

lemma pq_cell_ok: "\<lbrakk>j < length (pq_heap q); pq_heap q ! j = Some e\<rbrakk> \<Longrightarrow> pq_cell q (int j) = Inr e"
  by (simp add: pq_cell_def pq_deref_def)

lemma pq_slots_cell: "\<lbrakk>pq_slots idx0 E q b i; j < nat (pq_fill q); j \<noteq> i\<rbrakk> \<Longrightarrow>
    j < length (pq_heap q) \<and> pq_heap q ! j = Some (b j) \<and> pq_cell q (int j) = Inr (b j)"
  by (auto simp: pq_slots_def slots_def intro!: pq_cell_ok)

lemma pq_slots_index: "pq_slots idx0 E q b i \<Longrightarrow> i < nat (pq_fill q) \<and> int i < pq_fill q \<and> i < length (pq_heap q)"
  by (auto simp: pq_slots_def slots_def)

lemma settle_move:
  assumes s: "pq_slots idx0 E q b i" and p: "p < nat (pq_fill q)" "p \<noteq> i"
  shows "\<exists>q'. settle (b p) (int i) q = Inr q' \<and> same_pq q q' \<and> pq_slots idx0 E q' (b(i := b p, p := b i)) p"
proof -
  note i = pq_slots_index[OF s]
  let ?q = "q\<lparr>pq_heap := (pq_heap q)[i := Some (b p)], pq_index := (pq_index q)(b p := int i)\<rparr>"
  have "settle (b p) (int i) q = Inr ?q" using i by (simp add: settle_def set_cell_def set_index_def eassert_def)
  moreover have "slots id 0 (nat (pq_fill q)) idx0 E (pq_heap ?q) (pq_index ?q) (b(i := b p, p := b i)) p"
    using slots_move[OF s[unfolded pq_slots_def] _ p] pq_slots_cell[OF s p] by simp
  ultimately show ?thesis by (auto simp: same_pq_def pq_slots_def)
qed

lemma settle_fill:
  assumes s: "pq_slots idx0 E q b i" and o: "zero.ordered_from val 0 (nat (pq_fill q)) b"
  shows "\<exists>q'. settle (b i) (int i) q = Inr q' \<and> same_pq q q' \<and> pq_settled val E idx0 q'"
proof -
  note i = pq_slots_index[OF s]
  let ?q = "q\<lparr>pq_heap := (pq_heap q)[i := Some (b i)], pq_index := (pq_index q)(b i := int i)\<rparr>"
  have "settle (b i) (int i) q = Inr ?q" using i by (simp add: settle_def set_cell_def set_index_def eassert_def)
  moreover have "pq_settled val E idx0 ?q" using slots_fill[OF s[unfolded pq_slots_def]] o by (auto simp: pq_settled_def)
  ultimately show ?thesis by (auto simp: same_pq_def)
qed

lemma sift_up_loop_ok:
  "\<lbrakk>pq_slots idx0 E q b i; zero.up_ok val (nat (pq_fill q)) b i\<rbrakk> \<Longrightarrow>
     \<exists>i' q' b'. sift_up_loop (less_val val) (b i) (int i) q = Inr (int i', q') \<and> same_pq q q' \<and> b' i' = b i \<and>
       pq_slots idx0 E q' b' i' \<and> zero.ordered_from val 0 (nat (pq_fill q)) b'"
proof (induction i arbitrary: q b rule: less_induct)
  case (less i)
  note i = pq_slots_index[OF less.prems(1)]
  have stop: ?case if "sift_up_loop (less_val val) (b i) (int i) q = Inr (int i, q)" "0 < i \<Longrightarrow> val (b ((i - 1) div 2)) \<le> val (b i)"
    using that less.prems(1) zero.up_done[OF less.prems(2)] by (auto simp: same_pq_def)
  show ?case
  proof (cases "i = 0")
    case True
    have "arr_get (pq_heap q) (parent_of 0) = Inr (pq_heap q ! 0)" using i True by (simp add: parent_of_def cdiv_def)
    then show ?thesis by (intro stop) (simp_all add: True sift_up_loop.simps)
  next
    case False
    let ?p = "(i - 1) div 2"
    have p: "?p < nat (pq_fill q)" "?p \<noteq> i" "?p < i" and pip: "parent_of (int i) = int ?p" using i False parent_of_int by auto
    note cell = pq_slots_cell[OF less.prems(1) p(1,2)]
    show ?thesis
    proof (cases "val (b i) < val (b ?p)")
      case True
      let ?b = "b(i := b ?p, ?p := b i)"
      obtain q1 where q1: "settle (b ?p) (int i) q = Inr q1" "same_pq q q1" "pq_slots idx0 E q1 ?b ?p"
        using settle_move[OF less.prems(1) p(1,2)] by blast
      have "zero.up_ok val (nat (pq_fill q1)) ?b ?p"
        using zero.up_step[OF less.prems(2)] True False q1(2) by (simp add: same_pq_def)
      from less.IH[OF p(3) q1(3) this] obtain i' q' b' where r: "sift_up_loop (less_val val) (?b ?p) (int ?p) q1 = Inr (int i', q')"
        "same_pq q1 q'" "b' i' = ?b ?p" "pq_slots idx0 E q' b' i'" "zero.ordered_from val 0 (nat (pq_fill q1)) b'" by (elim exE conjE)
      have "sift_up_loop (less_val val) (b i) (int i) q = Inr (int i', q')"
        using cell False True q1(1) r(1) pip by (subst sift_up_loop.simps) (simp add: pq_deref_def)
      then show ?thesis using r(2-5) q1(2) by (auto simp: same_pq_def)
    next
      case F: False
      then show ?thesis using cell False pip by (intro stop) (simp_all add: sift_up_loop.simps[of _ _ "int i"] pq_deref_def)
    qed
  qed
qed

text \<open>After the way up the element is in its cell, its index is still the old one, and it may go down from there.\<close>

lemma sift_up_ok:
  assumes s: "pq_slots idx0 E q b i" and e: "pq_heap q ! i = Some (b i)" and o: "zero.hole_ok val (nat (pq_fill q)) b i"
  shows "\<exists>i' q' b'. sift_up (less_val val) (int i) q = Inr (int i', q') \<and> same_pq q q' \<and> b' i' = b i \<and> pq_slots idx0 E q' b' i' \<and>
    pq_heap q' ! i' = Some (b i) \<and> zero.down_ok val 0 (nat (pq_fill q)) b' i' \<and> (zero.up_ok val (nat (pq_fill q)) b i \<longrightarrow> zero.ordered_from val 0 (nat (pq_fill q)) b')"
proof -
  note i = pq_slots_index[OF s]
  have cell: "pq_cell q (int i) = Inr (b i)" using i e by (intro pq_cell_ok) auto
  have wr: "sift_up (less_val val) (int i) q = Inr (int j, q'\<lparr>pq_heap := (pq_heap q')[j := Some (b i)]\<rparr>)"
    if "sift_up_loop (less_val val) (b i) (int i) q = Inr (int j, q')" "j < length (pq_heap q')" for j q'
    using that cell by (simp add: sift_up_def set_cell_def)
  show ?thesis
  proof (cases "zero.up_ok val (nat (pq_fill q)) b i")
    case True
    from sift_up_loop_ok[OF s True] obtain i' q1 b' where r: "sift_up_loop (less_val val) (b i) (int i) q = Inr (int i', q1)" "same_pq q q1"
      "b' i' = b i" "pq_slots idx0 E q1 b' i'" "zero.ordered_from val 0 (nat (pq_fill q)) b'" by (elim exE conjE)
    note i' = pq_slots_index[OF r(4)]
    let ?q = "q1\<lparr>pq_heap := (pq_heap q1)[i' := Some (b i)]\<rparr>"
    have "pq_slots idx0 E ?q b' i'" using r(4) slots_hole_any unfolding pq_slots_def by auto
    moreover have "zero.down_ok val 0 (nat (pq_fill q)) b' i'"
    proof (rule zero.hole_down)
      show "zero.hole_ok val (nat (pq_fill q)) b' i'"
        using zero.ordered_hole[OF r(5), of i' "nat (pq_fill q)" "b' i'"] i' r(2) by (simp add: same_pq_def)
      show "val (b' ((i' - 1) div 2)) \<le> val (b' i')" if "0 < i'"
        using r(5) i' r(2) that unfolding zero.ordered_from_def by (simp add: same_pq_def)
    qed
    ultimately show ?thesis using wr[OF r(1)] r(2,3,5) i' by (intro exI[of _ i'] exI[of _ ?q] exI[of _ b']) (auto simp: same_pq_def)
  next
    case False
    then have ge: "0 < i \<Longrightarrow> \<not> val (b i) < val (b ((i - 1) div 2))" using zero.hole_up[OF o] by (metis less_imp_le)
    have "arr_get (pq_heap q) (parent_of (int i)) = Inr (pq_heap q ! ((i - 1) div 2))"
      using i by (cases "i = 0") (auto simp: parent_of_int, simp add: parent_of_def cdiv_def)
    moreover have "pq_heap q ! ((i - 1) div 2) = Some (b ((i - 1) div 2))" if "0 < i" using pq_slots_cell[OF s, of "(i - 1) div 2"] i that by auto
    ultimately have "sift_up_loop (less_val val) (b i) (int i) q = Inr (int i, q)"
      using ge by (cases "i = 0") (simp_all add: sift_up_loop.simps[of _ _ "int i"] sift_up_loop.simps[of _ _ 0] pq_deref_def)
    from wr[OF this] have "sift_up (less_val val) (int i) q = Inr (int i, q\<lparr>pq_heap := (pq_heap q)[i := Some (b i)]\<rparr>)" using i by simp
    moreover have "(pq_heap q)[i := Some (b i)] = pq_heap q" using e by (metis list_update_id)
    moreover have "zero.down_ok val 0 (nat (pq_fill q)) b i" by (rule zero.hole_down[OF o]) (use ge in auto)
    ultimately show ?thesis using s e False by (intro exI[of _ i] exI[of _ q] exI[of _ b]) (auto simp: same_pq_def)
  qed
qed

text \<open>The child that \<open>try_push\<close> compares with.\<close>

lemma push_child_ok:
  assumes s: "pq_slots idx0 E q b i" and l: "2 * i + 1 < nat (pq_fill q)"
  shows "\<exists>c. ebind (pq_cell q (left_of (int i))) (\<lambda>l. (if right_of (int i) < pq_fill q then ebind (pq_cell q (right_of (int i))) (\<lambda>r.
       Inr (if less_val val r l then (right_of (int i), r) else (left_of (int i), l))) else Inr (left_of (int i), l))) = Inr (int c, b c) \<and>
     c < nat (pq_fill q) \<and> 0 < c \<and> (c - 1) div 2 = i \<and> i < c \<and> (\<forall>j. 0 < j \<and> j < nat (pq_fill q) \<and> (j - 1) div 2 = i \<longrightarrow> val (b c) \<le> val (b j))"
proof -
  have child: "j = 2 * i + 1 \<or> j = 2 * i + 2" if "0 < j" "(j - 1) div 2 = i" for j using that by auto
  have lc: "pq_cell q (left_of (int i)) = Inr (b (2 * i + 1))" using pq_slots_cell[OF s l] by (simp add: child_ints)
  show ?thesis
  proof (cases "2 * i + 2 < nat (pq_fill q)")
    case True
    have rc: "pq_cell q (right_of (int i)) = Inr (b (2 * i + 2))" using pq_slots_cell[OF s True] by (simp add: child_ints)
    have rf: "right_of (int i) < pq_fill q" using True by (simp add: right_of_def)
    show ?thesis
    proof (cases "val (b (2 * i + 2)) < val (b (2 * i + 1))")
      case less: True
      then show ?thesis using lc rc rf True child by (intro exI[of _ "2 * i + 2"]) (fastforce simp: child_ints)
    next
      case ge: False
      then show ?thesis using lc rc rf l child by (intro exI[of _ "2 * i + 1"]) (fastforce simp: child_ints)
    qed
  next
    case False
    then have "\<not> right_of (int i) < pq_fill q" by (simp add: right_of_def)
    then show ?thesis using lc l False child by (intro exI[of _ "2 * i + 1"]) (fastforce simp: child_ints)
  qed
qed

lemma try_push_ok:
  "\<lbrakk>pq_slots idx0 E q b i; zero.down_ok val 0 (nat (pq_fill q)) b i; nat (pq_fill q) \<le> i + n; 0 < n\<rbrakk> \<Longrightarrow>
     \<exists>i' q' b'. try_push (less_val val) n (b i) (int i) q = Inr (int i', q') \<and> same_pq q q' \<and> b' i' = b i \<and>
       pq_slots idx0 E q' b' i' \<and> zero.ordered_from val 0 (nat (pq_fill q)) b'"
proof (induction n arbitrary: i q b)
  case (Suc n)
  note i = pq_slots_index[OF Suc.prems(1)]
  have stop: ?case if "try_push (less_val val) (Suc n) (b i) (int i) q = Inr (int i, q)"
    "\<And>j. \<lbrakk>0 < j; j < nat (pq_fill q); (j - 1) div 2 = i\<rbrakk> \<Longrightarrow> val (b i) \<le> val (b j)"
    using that Suc.prems(1) zero.down_done[OF Suc.prems(2)] by (auto simp: same_pq_def)
  show ?case
  proof (cases "2 * i + 1 < nat (pq_fill q)")
    case False
    then have "\<not> left_of (int i) < pq_fill q" by (simp add: left_of_def)
    then show ?thesis by (intro stop) (use False in \<open>auto simp: eassert_def\<close>)
  next
    case True
    then have lf: "left_of (int i) < pq_fill q" by (simp add: left_of_def)
    obtain c where c: "ebind (pq_cell q (left_of (int i))) (\<lambda>l. (if right_of (int i) < pq_fill q then ebind (pq_cell q (right_of (int i))) (\<lambda>r.
       Inr (if less_val val r l then (right_of (int i), r) else (left_of (int i), l))) else Inr (left_of (int i), l))) = Inr (int c, b c)"
      "c < nat (pq_fill q)" "0 < c" "(c - 1) div 2 = i" "i < c"
      "\<forall>j. 0 < j \<and> j < nat (pq_fill q) \<and> (j - 1) div 2 = i \<longrightarrow> val (b c) \<le> val (b j)" using push_child_ok[OF Suc.prems(1) True, of val] by blast
    then obtain l where l: "pq_cell q (left_of (int i)) = Inr l" "(if right_of (int i) < pq_fill q then ebind (pq_cell q (right_of (int i))) (\<lambda>r.
       Inr (if less_val val r l then (right_of (int i), r) else (left_of (int i), l))) else Inr (left_of (int i), l)) = Inr (int c, b c)"
      by (auto simp only: ebind_Inr_iff)
    have run: "try_push (less_val val) (Suc n) (b i) (int i) q =
        (if val (b i) < val (b c) then Inr (int i, q) else ebind (settle (b c) (int i) q) (try_push (less_val val) n (b i) (int c)))"
      using lf l by (simp add: eassert_def)
    show ?thesis
    proof (cases "val (b i) < val (b c)")
      case less: True
      show ?thesis
      proof (rule stop)
        show "try_push (less_val val) (Suc n) (b i) (int i) q = Inr (int i, q)" using run less by simp
        show "val (b i) \<le> val (b j)" if "0 < j" "j < nat (pq_fill q)" "(j - 1) div 2 = i" for j
        proof -
          have "val (b c) \<le> val (b j)" using c(6) that by blast
          then show ?thesis using less by simp
        qed
      qed
    next
      case ge: False
      let ?b = "b(i := b c, c := b i)"
      have ci: "c \<noteq> i" using c(5) by simp
      obtain q1 where q1: "settle (b c) (int i) q = Inr q1" "same_pq q q1" "pq_slots idx0 E q1 ?b c"
        using settle_move[OF Suc.prems(1) c(2) ci] by blast
      have f: "pq_fill q1 = pq_fill q" using q1(2) by (simp add: same_pq_def)
      have "zero.down_ok val 0 (nat (pq_fill q)) ?b c"
        by (rule zero.down_step[OF Suc.prems(2) c(3,2,4)]) (use c(6) ge in auto)
      from Suc.IH[of q1 ?b c, unfolded f, OF q1(3) this] Suc.prems(3) c(2,5)
      obtain i' q' b' where r: "try_push (less_val val) n (?b c) (int c) q1 = Inr (int i', q')" "same_pq q1 q'" "b' i' = ?b c"
        "pq_slots idx0 E q' b' i'" "zero.ordered_from val 0 (nat (pq_fill q)) b'" by auto
      have "try_push (less_val val) (Suc n) (b i) (int i) q = Inr (int i', q')" using run ge q1(1) r(1) by simp
      then show ?thesis using r(2-5) q1(2) by (auto simp: same_pq_def)
    qed
  qed
qed simp

lemma sift_down_ok:
  assumes s: "pq_slots idx0 E q b i" and o: "zero.down_ok val 0 (nat (pq_fill q)) b i"
  shows "\<exists>i' q'. sift_down (less_val val) (b i) (int i) q = Inr (i', q') \<and> same_pq q q' \<and> pq_settled val E idx0 q'"
proof -
  have n: "nat (pq_fill q) \<le> i + (nat (pq_fill q) + 1)" "0 < nat (pq_fill q) + 1" by auto
  from try_push_ok[OF s o n] obtain i' q1 b' where r: "try_push (less_val val) (nat (pq_fill q) + 1) (b i) (int i) q = Inr (int i', q1)"
    "same_pq q q1" "b' i' = b i" "pq_slots idx0 E q1 b' i'" "zero.ordered_from val 0 (nat (pq_fill q)) b'" by (elim exE conjE)
  note i' = pq_slots_index[OF r(4)]
  obtain q' where q': "settle (b' i') (int i') q1 = Inr q'" "same_pq q1 q'" "pq_settled val E idx0 q'"
    using settle_fill[OF r(4)] r(2,5) by (auto simp: same_pq_def)
  have "sift_down (less_val val) (b i) (int i) q = Inr (int i', q')" using r(1,3) q'(1) i' by (simp add: sift_down_def eassert_def)
  then show ?thesis using r(2) q'(2,3) by (auto simp: same_pq_def)
qed

lemma sift_up_down_ok:
  assumes "pq_slots idx0 E q b i" "pq_heap q ! i = Some (b i)" "zero.hole_ok val (nat (pq_fill q)) b i"
  shows "\<exists>i1 q1 i2 q'. sift_up (less_val val) (int i) q = Inr (i1, q1) \<and> sift_down (less_val val) (b i) i1 q1 = Inr (i2, q') \<and>
    same_pq q q' \<and> pq_settled val E idx0 q'"
proof -
  from sift_up_ok[OF assms] obtain i1 q1 b1 where u: "sift_up (less_val val) (int i) q = Inr (int i1, q1)" "same_pq q q1" "b1 i1 = b i"
    "pq_slots idx0 E q1 b1 i1" "zero.down_ok val 0 (nat (pq_fill q)) b1 i1" by (elim exE conjE)
  have f: "pq_fill q1 = pq_fill q" using u(2) by (simp add: same_pq_def)
  from sift_down_ok[OF u(4), unfolded f, OF u(5)]
  obtain i2 q' where "sift_down (less_val val) (b1 i1) (int i1) q1 = Inr (i2, q')" "same_pq q1 q'" "pq_settled val E idx0 q'" by (elim exE conjE)
  then show ?thesis using u(1-3) by (auto simp: same_pq_def)
qed

section \<open>The operations\<close>

definition pq_room :: "'e pqueue \<Rightarrow> bool" where
  "pq_room q \<longleftrightarrow> 0 \<le> pq_fill q \<and> pq_fill q \<le> pq_size q \<and> 0 < pq_size q \<and> int (length (pq_heap q)) = pq_size q"

definition pq_ok :: "('e \<Rightarrow> 'k::linorder) \<Rightarrow> 'e set \<Rightarrow> 'e pqueue \<Rightarrow> bool" where
  "pq_ok val S q \<longleftrightarrow> pq_settled val S (\<lambda>_. -1) q \<and> pq_room q"

lemma pq_settledD:
  assumes "pq_settled val S idx0 q" "pq_room q"
  obtains n b where "pq_fill q = int n" "packed id 0 n (pq_heap q) (pq_index q) S b" "zero.ordered_from val 0 n b"
    "\<And>e. e \<notin> S \<Longrightarrow> pq_index q e = idx0 e" "n \<le> length (pq_heap q)" "finite S" "card S = n"
proof -
  obtain n where n: "pq_fill q = int n" using assms(2) unfolding pq_room_def by (metis nonneg_int_cases)
  then obtain b where b: "packed id 0 n (pq_heap q) (pq_index q) S b" "zero.ordered_from val 0 n b" "\<forall>e. e \<notin> S \<longrightarrow> pq_index q e = idx0 e"
    using assms(1) unfolding pq_settled_def by auto
  show ?thesis by (rule that[OF n b(1,2)]) (use b packed_card[OF b(1)] assms(2) n in \<open>auto simp: pq_room_def\<close>)
qed

lemma packed_pq_cell: "\<lbrakk>packed id 0 n (pq_heap q) (pq_index q) S b; j < n\<rbrakk> \<Longrightarrow>
    pq_cell q (int j) = Inr (b j) \<and> pq_heap q ! j = Some (b j) \<and> j < length (pq_heap q) \<and> pq_index q (b j) = int j \<and> b j \<in> S"
  using packed_at[of id 0 n "pq_heap q" "pq_index q" S b j] by (auto simp: packed_def intro!: pq_cell_ok)

lemma pq_add_ok:
  assumes st: "pq_settled val S idx0 q" and room: "pq_room q" and e: "e \<notin> S" and small: "2 * (pq_fill q + 1) \<le> INT_MAX"
  shows "\<exists>q'. pq_add (less_val val) e q = Inr q' \<and> pq_settled val (insert e S) idx0 q' \<and> pq_room q' \<and>
    pq_fill q' = pq_fill q + 1 \<and> (pq_fill q < pq_size q \<longrightarrow> pq_size q' = pq_size q)"
proof -
  from st room obtain n b where q: "pq_fill q = int n" "packed id 0 n (pq_heap q) (pq_index q) S b" "zero.ordered_from val 0 n b"
    "\<And>e. e \<notin> S \<Longrightarrow> pq_index q e = idx0 e" "n \<le> length (pq_heap q)" "finite S" "card S = n" by (rule pq_settledD) blast
  obtain sz a where g: "(if pq_size q \<le> pq_fill q then pq_grow q else Inr q) = Inr (q\<lparr>pq_size := sz, pq_heap := a\<rparr>)" "int (length a) = sz"
    "pq_fill q < sz" "packed id 0 n a (pq_index q) S b" "pq_fill q < pq_size q \<longrightarrow> sz = pq_size q"
  proof (cases "pq_size q \<le> pq_fill q")
    case True
    then have full: "pq_size q = int n" "int (length (pq_heap q)) = int n" using room q(1) by (auto simp: pq_room_def)
    let ?a = "take n (pq_heap q) @ drop n (replicate (nat (2 * int n)) None)"
    have "0 < n" using full room by (simp add: pq_room_def)
    have m: "num_mul INT_MAX (pq_size q) 2 = Inr (int n * 2)" using small full q(1) by (simp add: INT_MAX_def)
    moreover have "copy_cells (int n) (pq_heap q) (replicate (nat (int n * 2)) None) = Inr ?a"
      using copy_cells_ok[of "int n" "pq_heap q" "replicate (nat (int n * 2)) None"] full by (simp add: mult.commute)
    ultimately have "pq_grow q = Inr (q\<lparr>pq_size := int n * 2, pq_heap := ?a\<rparr>)" using q(1) by (simp add: pq_grow_def)
    moreover have "packed id 0 n ?a (pq_index q) S b" by (rule packed_resize[OF q(2)]) (use full in \<open>auto simp: nth_append\<close>)
    ultimately show ?thesis using True full q(1) \<open>0 < n\<close> by (intro that[of ?a "int n * 2"]) auto
  next
    case False
    then show ?thesis using room q(2) by (intro that[of "pq_heap q" "pq_size q"]) (auto simp: pq_room_def)
  qed
  let ?q = "q\<lparr>pq_size := sz, pq_heap := a[n := Some e], pq_fill := int n + 1\<rparr>"
  have nl: "n < length a" using g(2,3) q(1) by simp
  have "slots id 0 (Suc n) (pq_index q) (insert e S) (a[n := Some e]) (pq_index q) (b(n := e)) n"
    using slots_hole_any[OF slots_new[OF g(4) _ nl, of e]] e by simp
  then have s: "pq_slots idx0 (insert e S) ?q (b(n := e)) n" using q(4) by (auto simp: pq_slots_def slots_def nat_add_distrib)
  have up: "zero.up_ok val (nat (pq_fill ?q)) (b(n := e)) n" using zero.ordered_last[OF q(3)] by (simp add: nat_add_distrib)
  have hole: "zero.hole_ok val (nat (pq_fill ?q)) (b(n := e)) n" using up unfolding zero.hole_ok_def zero.up_ok_def by blast
  have at: "pq_heap ?q ! n = Some ((b(n := e)) n)" using nl by simp
  from sift_up_ok[OF s at hole] up obtain i' q1 b' where r: "sift_up (less_val val) (int n) ?q = Inr (int i', q1)" "same_pq ?q q1" "b' i' = e"
    "pq_slots idx0 (insert e S) q1 b' i'" "pq_heap q1 ! i' = Some e" "zero.ordered_from val 0 (nat (pq_fill ?q)) b'" by auto
  let ?q' = "set_index e (int i') q1"
  note i' = pq_slots_index[OF r(4)]
  have same: "(pq_heap q1)[i' := Some e] = pq_heap q1" using r(5) by (metis list_update_id)
  note f = slots_fill[OF r(4)[unfolded pq_slots_def]]
  have "pq_settled val (insert e S) idx0 ?q'" using f r(2,3,6) same by (auto simp: pq_settled_def set_index_def same_pq_def)
  moreover have "pq_add (less_val val) e q = Inr ?q'"
    using g(1) nl small q(1) r(1) i' by (simp add: pq_add_def set_cell_def eassert_def INT_MAX_def)
  moreover have "pq_room ?q'" using r(2) g(2,3) q(1) by (auto simp: pq_room_def set_index_def same_pq_def)
  ultimately show ?thesis using r(2) g(5) q(1) by (auto simp: set_index_def same_pq_def)
qed

lemma pq_indices:
  assumes p: "packed id 0 n (pq_heap q) (pq_index q) S b" and none: "\<And>e. e \<notin> S \<Longrightarrow> pq_index q e = -1"
  shows "e \<notin> S \<Longrightarrow> pq_index q e = -1" "e \<in> S \<Longrightarrow> \<exists>j. j < n \<and> b j = e \<and> pq_index q e = int j"
  using packed_index[OF p] none by auto

text \<open>The queue after the last element has replaced the one at \<open>i\<close>.\<close>

definition cut_out :: "nat \<Rightarrow> 'e \<Rightarrow> 'e pqueue \<Rightarrow> 'e pqueue" where
  "cut_out i x q = q\<lparr>pq_index := (pq_index q)(x := -1), pq_heap := (pq_heap q)[i := pq_heap q ! nat (pq_fill q - 1), nat (pq_fill q - 1) := None],
     pq_fill := pq_fill q - 1\<rparr>"

lemma cut_slots:
  assumes q: "pq_fill q = int (Suc p)" "packed id 0 (Suc p) (pq_heap q) (pq_index q) S b" "zero.ordered_from val 0 (Suc p) b" and i: "i < p"
  shows "pq_slots ((pq_index q)(b i := -1)) (S - {b i}) (cut_out i (b i) q) (b(i := b p)) i" "pq_heap (cut_out i (b i) q) ! i = Some (b p)"
    "zero.hole_ok val (nat (pq_fill (cut_out i (b i) q))) (b(i := b p)) i"
proof -
  have p: "pq_heap q ! p = Some (b p)" "p < length (pq_heap q)" using packed_pq_cell[OF q(2), of p] by auto
  have "slots id 0 p (pq_index q) (S - {b i}) (pq_heap q) (pq_index q) (b(i := b p)) i" using slots_last[OF q(2) _ i] by simp
  from slots_hole_any[OF slots_reindex[OF this, of "b i" "-1"], of "Some (b p)"]
  have "slots id 0 p ((pq_index q)(b i := -1)) (S - {b i}) ((pq_heap q)[i := Some (b p)]) ((pq_index q)(b i := -1)) (b(i := b p)) i" by simp
  then show "pq_slots ((pq_index q)(b i := -1)) (S - {b i}) (cut_out i (b i) q) (b(i := b p)) i"
    using q(1) p unfolding pq_slots_def slots_def cut_out_def by (auto simp: nth_list_update)
  show "pq_heap (cut_out i (b i) q) ! i = Some (b p)" using p q(1) i by (simp add: cut_out_def)
  show "zero.hole_ok val (nat (pq_fill (cut_out i (b i) q))) (b(i := b p)) i"
    using zero.ordered_hole[OF q(3) _ i, of "b p"] q(1) by (simp add: cut_out_def)
qed

lemma cut_last:
  assumes q: "pq_fill q = int (Suc p)" "packed id 0 (Suc p) (pq_heap q) (pq_index q) S b" "zero.ordered_from val 0 (Suc p) b"
    "\<And>e. e \<notin> S \<Longrightarrow> pq_index q e = idx0 e"
  shows "pq_settled val (S - {b p}) (idx0(b p := -1)) (cut_out p (b p) q)"
proof -
  have at: "packed id 0 p (pq_heap q) (pq_index q) (S - {b p}) b" using packed_drop[OF q(2)] by simp
  have "packed id 0 p ((pq_heap q)[p := pq_heap q ! p, p := None]) ((pq_index q)(b p := -1)) (S - {b p}) b"
    by (rule packed_frame[OF at]) (use q(2) in \<open>auto simp: packed_def\<close>)
  moreover have "zero.ordered_from val 0 p b" by (rule zero.ordered_mono[OF q(3)]) simp
  ultimately show ?thesis using q(1,4) by (auto simp: pq_settled_def cut_out_def)
qed

lemma cut_room: "\<lbrakk>pq_room q; 0 < pq_fill q\<rbrakk> \<Longrightarrow> pq_room (cut_out i x q)"
  by (auto simp: pq_room_def cut_out_def)

lemma same_room: "\<lbrakk>pq_room q; same_pq q q'\<rbrakk> \<Longrightarrow> pq_room q'"
  by (auto simp: pq_room_def same_pq_def)

lemma pq_settled_idx: "\<lbrakk>pq_settled val E idx0 q; \<And>e. e \<notin> E \<Longrightarrow> idx0 e = idx1 e\<rbrakk> \<Longrightarrow> pq_settled val E idx1 q"
  by (auto simp: pq_settled_def)

lemma replace_last_ok:
  assumes q: "pq_fill q = int (Suc p)" "packed id 0 (Suc p) (pq_heap q) (pq_index q) S b" and i: "i \<le> p"
  shows "replace_last (int i) (b i) q = Inr (cut_out i (b i) q)"
proof -
  have "p < length (pq_heap q)" using q(2) by (simp add: packed_def)
  then show ?thesis using q(1) i by (simp add: replace_last_def set_cell_def set_index_def cut_out_def)
qed

lemma pq_remove_ok:
  assumes ok: "pq_ok val S q" and x: "x \<in> S"
  shows "\<exists>q'. pq_remove (less_val val) (pq_index q x) q = Inr q' \<and> pq_ok val (S - {x}) q' \<and> pq_fill q' = pq_fill q - 1"
proof -
  from ok have st: "pq_settled val S (\<lambda>_. -1) q" and room: "pq_room q" by (auto simp: pq_ok_def)
  from st room obtain n b where q: "pq_fill q = int n" "packed id 0 n (pq_heap q) (pq_index q) S b" "zero.ordered_from val 0 n b"
    "\<And>e. e \<notin> S \<Longrightarrow> pq_index q e = -1" "n \<le> length (pq_heap q)" "finite S" "card S = n" by (rule pq_settledD) blast
  obtain i where i: "i < n" "b i = x" "pq_index q x = int i" using pq_indices(2)[OF q(2,4) x] by blast
  obtain p where p: "n = Suc p" using i by (cases n) auto
  note q' = q(1-3)[unfolded p]
  have ip: "i \<le> p" using i p by simp
  note cell = packed_pq_cell[OF q'(2), of i]
  let ?c = "cut_out i (b i) q"
  have run: "pq_remove (less_val val) (int i) q = (if int i < pq_fill ?c then
         ebind (pq_cell ?c (int i)) (\<lambda>e. ebind (sift_up (less_val val) (int i) (set_index e (int i) ?c)) (\<lambda>(j, q).
           ebind (sift_down (less_val val) e j q) (\<lambda>(j, q). Inr q))) else Inr ?c)"
    using cell ip q'(1) replace_last_ok[OF q'(1,2) ip] by (simp add: pq_remove_def eassert_def)
  have idx: "((pq_index q)(b i := -1)) e = -1" if "e \<notin> S - {b i}" for e using q(4) that by auto
  have room': "pq_room ?c" by (rule cut_room[OF room]) (use q'(1) in simp)
  have "\<exists>q'. pq_remove (less_val val) (int i) q = Inr q' \<and> same_pq ?c q' \<and> pq_settled val (S - {b i}) (\<lambda>_. -1) q'"
  proof (cases "i = p")
    case True
    have "pq_settled val (S - {b p}) ((\<lambda>_. -1)(b p := -1)) (cut_out p (b p) q)" by (rule cut_last[OF q']) (rule q(4))
    then show ?thesis using run True q'(1) by (auto simp: cut_out_def same_pq_def elim: pq_settled_idx)
  next
    case False
    then have lt: "i < p" using ip by simp
    note c = cut_slots[OF q' lt]
    let ?d = "set_index (b p) (int i) ?c"
    have "slots id 0 (nat (pq_fill ?c)) ((pq_index q)(b i := -1)) (S - {b i}) (pq_heap ?c) ((pq_index ?c)(b p := int i)) (b(i := b p)) i"
      using slots_hole_index[OF c(1)[unfolded pq_slots_def]] by simp
    then have d: "pq_slots ((pq_index q)(b i := -1)) (S - {b i}) ?d (b(i := b p)) i" by (simp add: pq_slots_def set_index_def)
    have dat: "pq_heap ?d ! i = Some ((b(i := b p)) i)" and dh: "zero.hole_ok val (nat (pq_fill ?d)) (b(i := b p)) i"
      using c(2,3) by (simp_all add: set_index_def)
    from sift_up_down_ok[OF d dat dh] obtain i1 q1 i2 q2 where r: "sift_up (less_val val) (int i) ?d = Inr (i1, q1)"
      "sift_down (less_val val) ((b(i := b p)) i) i1 q1 = Inr (i2, q2)" "same_pq ?d q2" "pq_settled val (S - {b i}) ((pq_index q)(b i := -1)) q2"
      by (elim exE conjE)
    have "pq_cell ?c (int i) = Inr (b p)" using c(2) pq_slots_index[OF c(1)] by (intro pq_cell_ok) auto
    then have "pq_remove (less_val val) (int i) q = Inr q2" using run r(1,2) pq_slots_index[OF c(1)] by simp
    moreover have "pq_settled val (S - {b i}) (\<lambda>_. -1) q2" using r(4) idx by (rule pq_settled_idx)
    ultimately show ?thesis using r(3) by (auto simp: same_pq_def set_index_def)
  qed
  then show ?thesis using i room' same_room[OF room'] by (auto simp: pq_ok_def same_pq_def cut_out_def)
qed

lemma pq_take_ok:
  assumes ok: "pq_ok val S q" and ne: "S \<noteq> {}"
  shows "\<exists>e q'. pq_take (less_val val) q = Inr (Some e, q') \<and> e \<in> S \<and> (\<forall>x \<in> S. val e \<le> val x) \<and> pq_ok val (S - {e}) q' \<and> pq_fill q' = pq_fill q - 1"
proof -
  from ok have st: "pq_settled val S (\<lambda>_. -1) q" and room: "pq_room q" by (auto simp: pq_ok_def)
  from st room obtain n b where q: "pq_fill q = int n" "packed id 0 n (pq_heap q) (pq_index q) S b" "zero.ordered_from val 0 n b"
    "\<And>e. e \<notin> S \<Longrightarrow> pq_index q e = -1" "n \<le> length (pq_heap q)" "finite S" "card S = n" by (rule pq_settledD) blast
  obtain p where p: "n = Suc p" using q(6,7) ne by (cases n) auto
  note q' = q(1-3)[unfolded p]
  note cell = packed_pq_cell[OF q'(2), of 0, simplified]
  have least: "val (b 0) \<le> val x" if "x \<in> S" for x
    using pq_indices(2)[OF q(2,4) that] zero.first_least[OF q(3)] by auto
  let ?c = "cut_out 0 (b 0) q"
  have run: "pq_take (less_val val) q = (if pq_fill ?c > 0 then ebind (pq_cell ?c 0) (\<lambda>x. ebind (sift_down (less_val val) x 0 ?c) (\<lambda>(i, q). Inr (Some (b 0), q)))
      else Inr (Some (b 0), ?c))"
    using cell q'(1) replace_last_ok[OF q'(1,2), of 0] by (simp add: pq_take_def)
  have idx: "((pq_index q)(b 0 := -1)) e = -1" if "e \<notin> S - {b 0}" for e using q(4) that by auto
  have room': "pq_room ?c" by (rule cut_room[OF room]) (use q'(1) in simp)
  have "\<exists>q'. pq_take (less_val val) q = Inr (Some (b 0), q') \<and> same_pq ?c q' \<and> pq_settled val (S - {b 0}) (\<lambda>_. -1) q'"
  proof (cases "p = 0")
    case True
    have "pq_settled val (S - {b p}) ((\<lambda>_. -1)(b p := -1)) (cut_out p (b p) q)" by (rule cut_last[OF q']) (rule q(4))
    then show ?thesis using run True q'(1) by (auto simp: cut_out_def same_pq_def elim: pq_settled_idx)
  next
    case False
    then have lt: "0 < p" by simp
    note c = cut_slots[OF q' lt]
    have "zero.down_ok val 0 (nat (pq_fill ?c)) (b(0 := b p)) 0" by (rule zero.hole_down[OF c(3)]) simp
    from sift_down_ok[OF c(1) this] obtain i2 q2 where r: "sift_down (less_val val) (b p) 0 ?c = Inr (i2, q2)" "same_pq ?c q2"
      "pq_settled val (S - {b 0}) ((pq_index q)(b 0 := -1)) q2" by auto
    have "pq_cell ?c (int 0) = Inr (b p)" using c(2) pq_slots_index[OF c(1)] by (intro pq_cell_ok) auto
    then have "pq_take (less_val val) q = Inr (Some (b 0), q2)" using run r(1) pq_slots_index[OF c(1)] by simp
    moreover have "pq_settled val (S - {b 0}) (\<lambda>_. -1) q2" using r(3) idx by (rule pq_settled_idx)
    ultimately show ?thesis using r(2) by blast
  qed
  then show ?thesis using cell least room' same_room[OF room'] by (intro exI[of _ "b 0"]) (auto simp: pq_ok_def same_pq_def cut_out_def)
qed

lemma see_update_ok:
  assumes ok: "pq_ok val S q" and x: "x \<in> S"
  shows "\<exists>q'. see_update (less_val (val(x := k))) (pq_index q x) q = Inr q' \<and> pq_ok (val(x := k)) S q' \<and> pq_fill q' = pq_fill q"
proof -
  from ok have st: "pq_settled val S (\<lambda>_. -1) q" and room: "pq_room q" by (auto simp: pq_ok_def)
  from st room obtain n b where q: "pq_fill q = int n" "packed id 0 n (pq_heap q) (pq_index q) S b" "zero.ordered_from val 0 n b"
    "\<And>e. e \<notin> S \<Longrightarrow> pq_index q e = -1" "n \<le> length (pq_heap q)" "finite S" "card S = n" by (rule pq_settledD) blast
  let ?val = "val(x := k)"
  obtain i where i: "i < n" "b i = x" "pq_index q x = int i" using pq_indices(2)[OF q(2,4) x] by blast
  note cell = packed_pq_cell[OF q(2) i(1)]
  have s: "pq_slots (\<lambda>_. -1) S q b i" using slots_same[OF q(2) _ i(1)] q(1,4) by (auto simp: pq_slots_def slots_def)
  have other: "?val (b j) = val (b j)" if "j < n" "j \<noteq> i" for j
    using packed_inj[OF q(2)] that i unfolding inj_on_def by auto
  have "zero.hole_ok val n (b(i := b i)) i" by (rule zero.ordered_hole[OF q(3)]) (use i in auto)
  then have "zero.hole_ok val n b i" by simp
  from zero.hole_cong[where key' = ?val, OF this other] have h: "zero.hole_ok ?val (nat (pq_fill q)) b i" unfolding q(1) nat_int by blast
  from sift_up_down_ok[OF s _ h] cell obtain i1 q1 i2 q' where r: "sift_up (less_val ?val) (int i) q = Inr (i1, q1)"
    "sift_down (less_val ?val) (b i) i1 q1 = Inr (i2, q')" "same_pq q q'" "pq_settled ?val S (\<lambda>_. -1) q'" by auto
  have "see_update (less_val ?val) (pq_index q x) q = Inr q'"
    using i cell r(1,2) q(1) by (simp add: see_update_def eassert_def)
  then show ?thesis using r(3,4) same_room[OF room r(3)] by (auto simp: pq_ok_def same_pq_def)
qed

lemma new_room: "pq_room (q\<lparr>pq_fill := 0, pq_size := 100, pq_heap := replicate 100 None\<rparr>)"
  by (simp add: pq_room_def)

lemma empty_settled: "pq_fill q = 0 \<Longrightarrow> pq_settled val {} (pq_index q) q"
proof -
  have "zero.ordered_from val 0 0 (\<lambda>_. undefined)" unfolding zero.ordered_from_def by simp
  then show "pq_fill q = 0 \<Longrightarrow> pq_settled val {} (pq_index q) q" by (auto simp: pq_settled_def packed_def)
qed

lemma pq_reset_ok:
  assumes ok: "pq_ok val S q"
  shows "\<exists>q'. pq_reset q = Inr q' \<and> pq_ok val {} q' \<and> pq_fill q' = 0"
proof -
  from ok have st: "pq_settled val S (\<lambda>_. -1) q" and room: "pq_room q" by (auto simp: pq_ok_def)
  from st room obtain n b where q: "pq_fill q = int n" "packed id 0 n (pq_heap q) (pq_index q) S b" "zero.ordered_from val 0 n b"
    "\<And>e. e \<notin> S \<Longrightarrow> pq_index q e = -1" "n \<le> length (pq_heap q)" "finite S" "card S = n" by (rule pq_settledD) blast
  let ?f = "\<lambda>k. q\<lparr>pq_index := (\<lambda>e. if e \<in> b ` {0..<k} then -1 else pq_index q e)\<rparr>"
  have "\<exists>q'. efold (\<lambda>i q. ebind (pq_cell q (int i)) (\<lambda>e. Inr (set_index e (-1) q))) [0..<n] q = Inr q' \<and> q' = ?f (length [0..<n])"
  proof (rule efold_invariant[where I = "\<lambda>xs q'. q' = ?f (length xs)"])
    fix pre i q' assume "\<exists>post. [0..<n] = pre @ i # post" and q': "q' = ?f (length pre)"
    then obtain post where e: "[0..<n] = pre @ i # post" by blast
    from upt_prefix[OF e] have i: "i = length pre" "i < n" by auto
    have "pq_cell q' (int i) = Inr (b i)" using packed_pq_cell[OF q(2) i(2)] unfolding q' by (simp add: pq_cell_def pq_deref_def)
    then show "\<exists>q''. ebind (pq_cell q' (int i)) (\<lambda>e. Inr (set_index e (-1) q')) = Inr q'' \<and> q'' = ?f (length (pre @ [i]))"
      unfolding q' using i(1) by (auto simp: set_index_def fun_eq_iff atLeast0_lessThan_Suc)
  qed simp
  moreover have "(\<lambda>e. if e \<in> b ` {0..<n} then -1 else pq_index q e) = (\<lambda>_. -1)"
    using q(2,4) by (auto simp: fun_eq_iff packed_def)
  ultimately have "pq_reset q = Inr (q\<lparr>pq_index := (\<lambda>_. -1), pq_fill := 0, pq_size := 100, pq_heap := replicate 100 None\<rparr>)"
    using q(1) by (simp add: pq_reset_def)
  then show ?thesis
    using empty_settled[of "q\<lparr>pq_index := (\<lambda>_. -1), pq_fill := 0, pq_size := 100, pq_heap := replicate 100 None\<rparr>" val] new_room by (auto simp: pq_ok_def)
qed

lemma heap_holds_ok:
  assumes "pq_settled val S idx0 q" "pq_room q"
  shows "heap_holds (less_val val) q 0 (pq_fill q - 1) = Inr True"
proof -
  from assms obtain n b where q: "pq_fill q = int n" "packed id 0 n (pq_heap q) (pq_index q) S b" "zero.ordered_from val 0 n b"
    "\<And>e. e \<notin> S \<Longrightarrow> pq_index q e = idx0 e" "n \<le> length (pq_heap q)" "finite S" "card S = n" by (rule pq_settledD) blast
  have child: "violated (less_val val) q (int c) (int i) = Inr False" if "0 < c" "(c - 1) div 2 = i" "i < n" for c i
  proof (cases "c < n")
    case True
    then have "\<not> val (b c) < val (b i)" unfolding not_less using q(3) that unfolding zero.ordered_from_def by auto
    then show ?thesis using packed_pq_cell[OF q(2) True] packed_pq_cell[OF q(2) that(3)] q(1) by (simp add: violated_def)
  qed (use q(1) in \<open>simp add: violated_def\<close>)
  have "heap_holds_loop (less_val val) q m (int i) = Inr True" if "i + m \<le> n" for m i
    using that
  proof (induction m arbitrary: i)
    case (Suc m)
    then show ?case using child[of "2 * i + 2" i] child[of "2 * i + 1" i] Suc.IH[of "Suc i"] by (simp add: child_ints add.commute)
  qed simp
  from this[of 0 n] show ?thesis using q(1) by (simp add: heap_holds_def)
qed

lemma indexes_match_ok:
  assumes "pq_settled val S idx0 q" "pq_room q"
  shows "indexes_match q = Inr True"
proof -
  from assms obtain n b where q: "pq_fill q = int n" "packed id 0 n (pq_heap q) (pq_index q) S b" "zero.ordered_from val 0 n b"
    "\<And>e. e \<notin> S \<Longrightarrow> pq_index q e = idx0 e" "n \<le> length (pq_heap q)" "finite S" "card S = n" by (rule pq_settledD) blast
  have "\<forall>i \<in> set xs. i < n \<Longrightarrow> indexes_match_loop q xs = Inr True" for xs
    by (induction xs) (auto simp: packed_pq_cell[OF q(2)])
  then show ?thesis using q(1) by (simp add: indexes_match_def)
qed

lemma resort_ok:
  assumes ok: "pq_ok val0 S q" and small: "2 * (pq_fill q + 1) \<le> INT_MAX"
  shows "\<exists>q'. resort (less_val val) q = Inr q' \<and> pq_ok val S q' \<and> pq_fill q' = pq_fill q"
proof -
  from ok have st: "pq_settled val0 S (\<lambda>_. -1) q" and room: "pq_room q" by (auto simp: pq_ok_def)
  from st room obtain n b where q: "pq_fill q = int n" "packed id 0 n (pq_heap q) (pq_index q) S b" "zero.ordered_from val0 0 n b"
    "\<And>e. e \<notin> S \<Longrightarrow> pq_index q e = -1" "n \<le> length (pq_heap q)" "finite S" "card S = n" by (rule pq_settledD) blast
  let ?q0 = "q\<lparr>pq_heap := replicate (nat (pq_size q)) None, pq_fill := 0\<rparr>"
  let ?I = "\<lambda>xs q'. pq_settled val (b ` {0..<length xs}) (pq_index q) q' \<and> pq_room q' \<and> pq_fill q' = int (length xs) \<and> pq_size q' = pq_size q"
  have "\<exists>q'. efold (\<lambda>i q'. ebind (pq_cell q (int i)) (\<lambda>e. pq_add (less_val val) e q')) [0..<n] ?q0 = Inr q' \<and> ?I [0..<n] q'"
  proof (rule efold_invariant[where I = ?I])
    show "?I [] ?q0" using empty_settled[of ?q0 val] room by (simp add: pq_room_def)
  next
    fix pre i q' assume "\<exists>post. [0..<n] = pre @ i # post" and I: "?I pre q'"
    then obtain post where e: "[0..<n] = pre @ i # post" by blast
    from upt_prefix[OF e] have i: "i = length pre" "i < n" by auto
    have new: "b i \<notin> b ` {0..<i}"
    proof
      assume "b i \<in> b ` {0..<i}"
      then obtain j where "j < i" "b j = b i" by auto
      moreover from this have "j = i" using packed_inj[OF q(2)] i(2) by (auto dest: inj_onD[of _ _ j i])
      ultimately show False by simp
    qed
    have I': "pq_settled val (b ` {0..<i}) (pq_index q) q'" "pq_room q'" "2 * (pq_fill q' + 1) \<le> INT_MAX" "pq_fill q' < pq_size q'"
      using I i small room q(1) by (auto simp: pq_room_def)
    from pq_add_ok[OF I'(1,2) new I'(3)] obtain q'' where "pq_add (less_val val) (b i) q' = Inr q''"
      "pq_settled val (insert (b i) (b ` {0..<i})) (pq_index q) q''" "pq_room q''" "pq_fill q'' = pq_fill q' + 1" "pq_size q'' = pq_size q'"
      using I'(4) by blast
    then show "\<exists>q''. ebind (pq_cell q (int i)) (\<lambda>e. pq_add (less_val val) e q') = Inr q'' \<and> ?I (pre @ [i]) q''"
      using packed_pq_cell[OF q(2) i(2)] I i(1) by (auto simp: atLeast0_lessThan_Suc)
  qed
  then obtain q' where q': "efold (\<lambda>i q'. ebind (pq_cell q (int i)) (\<lambda>e. pq_add (less_val val) e q')) [0..<n] ?q0 = Inr q'"
    "pq_settled val (b ` {0..<n}) (pq_index q) q'" "pq_room q'" "pq_fill q' = int n" by auto
  have S: "b ` {0..<n} = S" using q(2) by (simp add: packed_def)
  have "pq_settled val S (\<lambda>_. -1) q'" using q'(2) q(4) unfolding S by (rule pq_settled_idx)
  moreover have "resort (less_val val) q = Inr q'"
    using q(1) q'(1) heap_holds_ok[OF q'(2,3)] by (simp add: resort_def eassert_def)
  ultimately show ?thesis using q'(3,4) q(1) by (auto simp: pq_ok_def)
qed

lemma to_list_ok:
  assumes "pq_settled val S idx0 q" "pq_room q"
  shows "\<exists>xs. to_list q = Inr (map Some xs) \<and> distinct xs \<and> set xs = S"
proof -
  from assms obtain n b where q: "pq_fill q = int n" "packed id 0 n (pq_heap q) (pq_index q) S b" "zero.ordered_from val 0 n b"
    "\<And>e. e \<notin> S \<Longrightarrow> pq_index q e = idx0 e" "n \<le> length (pq_heap q)" "finite S" "card S = n" by (rule pq_settledD) blast
  have "\<forall>i \<in> set is. i < n \<Longrightarrow> efold (\<lambda>i xs. ebind (arr_get (pq_heap q) (int i)) (\<lambda>c. Inr (c # xs))) is ys = Inr (rev (map (\<lambda>i. Some (b i)) is) @ ys)" for "is" ys
    using packed_pq_cell[OF q(2)] by (induction "is" arbitrary: ys) auto
  from this[of "[0..<n]" "[]"] have "to_list q = Inr (map Some (rev (map b [0..<n])))"
    using q(1) by (simp add: to_list_def rev_map comp_def)
  moreover have "distinct (rev (map b [0..<n]))" "set (rev (map b [0..<n])) = S"
    using packed_inj[OF q(2)] q(2) by (auto simp: distinct_map packed_def)
  ultimately show ?thesis by blast
qed

section \<open>The contract\<close>

text \<open>
  Calls by a client whose elements carry a value: \<open>PUpdate\<close> changes the value of an element and reports it with
  \<open>see_update\<close>, \<open>PChange\<close> changes all values and calls \<open>resort\<close>; elements are removed by their index.
\<close>

datatype ('e, 'k) pq_op = PAdd 'e | PTake | PRemove 'e | PUpdate 'e 'k | PChange "'e \<Rightarrow> 'k" | PFront | PEmpty | PReset | PHolds | PMatch | PList

datatype 'e pq_out = PNone | PElem "'e option" | PBool bool | PElems "'e option list"

fun pq_step :: "('e, 'k::linorder) pq_op \<Rightarrow> ('e \<Rightarrow> 'k) \<times> 'e pqueue \<Rightarrow> ('e pq_out \<times> ('e \<Rightarrow> 'k) \<times> 'e pqueue) result" where
  "pq_step (PAdd e) (val, q) = ebind (pq_add (less_val val) e q) (\<lambda>q. Inr (PNone, val, q))"
| "pq_step PTake (val, q) = ebind (pq_take (less_val val) q) (\<lambda>(e, q). Inr (PElem e, val, q))"
| "pq_step (PRemove e) (val, q) = ebind (pq_remove (less_val val) (pq_index q e) q) (\<lambda>q. Inr (PNone, val, q))"
| "pq_step (PUpdate e k) (val, q) = (let val = val(e := k) in ebind (see_update (less_val val) (pq_index q e) q) (\<lambda>q. Inr (PNone, val, q)))"
| "pq_step (PChange f) (val, q) = ebind (resort (less_val f) q) (\<lambda>q. Inr (PNone, f, q))"
| "pq_step PFront (val, q) = ebind (pq_front q) (\<lambda>e. Inr (PElem e, val, q))"
| "pq_step PEmpty (val, q) = Inr (PBool (pq_empty q), val, q)"
| "pq_step PReset (val, q) = ebind (pq_reset q) (\<lambda>q. Inr (PNone, val, q))"
| "pq_step PHolds (val, q) = ebind (heap_holds (less_val val) q 0 (pq_fill q - 1)) (\<lambda>b. Inr (PBool b, val, q))"
| "pq_step PMatch (val, q) = ebind (indexes_match q) (\<lambda>b. Inr (PBool b, val, q))"
| "pq_step PList (val, q) = ebind (to_list q) (\<lambda>xs. Inr (PElems xs, val, q))"

definition least_in :: "('e \<Rightarrow> 'k::linorder) \<Rightarrow> 'e set \<Rightarrow> 'e \<Rightarrow> bool" where
  "least_in val S e \<longleftrightarrow> e \<in> S \<and> (\<forall>x \<in> S. val e \<le> val x)"

text \<open>
  The values and the set of the elements in the queue. Only a second \<open>add\<close> of an element is outside of
  the contract; removing an element that is not in the queue reads \<open>heap[-1]\<close>, reporting a change of it fails an assertion.
\<close>

fun pq_spec :: "(('e, 'k::linorder) pq_op, ('e \<Rightarrow> 'k) \<times> 'e set, 'e pq_out) contract" where
  "pq_spec (PAdd e) (val, S) = (if e \<in> S then None else Some (\<lambda>r. r = Inr (PNone, val, insert e S)))"
| "pq_spec PTake (val, S) = Some (\<lambda>r. if S = {} then r = Inr (PElem None, val, S) else \<exists>e. least_in val S e \<and> r = Inr (PElem (Some e), val, S - {e}))"
| "pq_spec (PRemove e) (val, S) = Some (\<lambda>r. r = (if e \<in> S then Inr (PNone, val, S - {e}) else Inl OutOfBounds))"
| "pq_spec (PUpdate e k) (val, S) = Some (\<lambda>r. r = (if e \<in> S then Inr (PNone, val(e := k), S) else Inl AssertFail))"
| "pq_spec (PChange f) (val, S) = Some (\<lambda>r. r = Inr (PNone, f, S))"
| "pq_spec PFront (val, S) = Some (\<lambda>r. if S = {} then r = Inr (PElem None, val, S) else \<exists>e. least_in val S e \<and> r = Inr (PElem (Some e), val, S))"
| "pq_spec PEmpty (val, S) = Some (\<lambda>r. r = Inr (PBool (S = {}), val, S))"
| "pq_spec PReset (val, S) = Some (\<lambda>r. r = Inr (PNone, val, {}))"
| "pq_spec PHolds (val, S) = Some (\<lambda>r. r = Inr (PBool True, val, S))"
| "pq_spec PMatch (val, S) = Some (\<lambda>r. r = Inr (PBool True, val, S))"
| "pq_spec PList (val, S) = Some (\<lambda>r. \<exists>xs. distinct xs \<and> set xs = S \<and> r = Inr (PElems (map Some xs), val, S))"

definition pq_rel :: "nat \<Rightarrow> ('e \<Rightarrow> 'k::linorder) \<times> 'e set \<Rightarrow> ('e \<Rightarrow> 'k) \<times> 'e pqueue \<Rightarrow> bool" where
  "pq_rel n a c \<longleftrightarrow> fst c = fst a \<and> pq_ok (fst a) (snd a) (snd c) \<and> 2 * (pq_fill (snd c) + int n + 1) \<le> INT_MAX"

lemma pq_step_ref:
  assumes rel: "pq_rel (Suc n) a c" and P: "pq_spec x a = Some P"
  shows "case pq_step x c of Inl e \<Rightarrow> P (Inl e) | Inr (y, c') \<Rightarrow> \<exists>a'. P (Inr (y, a')) \<and> pq_rel n a' c'"
proof -
  obtain val S q where a: "a = (val, S)" "c = (val, q)" using rel by (cases a; cases c) (auto simp: pq_rel_def)
  have ok: "pq_ok val S q" and small: "2 * (pq_fill q + int (Suc n) + 1) \<le> INT_MAX" using rel a by (auto simp: pq_rel_def)
  have st: "pq_settled val S (\<lambda>_. -1) q" and room: "pq_room q" using ok by (auto simp: pq_ok_def)
  from st room obtain m b where q: "pq_fill q = int m" "packed id 0 m (pq_heap q) (pq_index q) S b" "zero.ordered_from val 0 m b"
    "\<And>e. e \<notin> S \<Longrightarrow> pq_index q e = -1" "m \<le> length (pq_heap q)" "finite S" "card S = m" by (rule pq_settledD) blast
  have empty: "S = {} \<longleftrightarrow> m = 0" using q(6,7) by auto
  have next1: ?thesis if "pq_step x c = Inr (y, val', q')" "P (Inr (y, val', S'))" "pq_ok val' S' q'" "pq_fill q' \<le> pq_fill q + 1" for y val' S' q'
    using that small by (auto simp: pq_rel_def)
  have next0: ?thesis if "pq_step x c = Inr (y, val, q)" "P (Inr (y, val, S))" for y using next1[OF that ok] by simp
  show ?thesis
  proof (cases x)
    case (PAdd e)
    then have e: "e \<notin> S" using P a by (auto split: if_splits)
    have "2 * (pq_fill q + 1) \<le> INT_MAX" using small by simp
    from pq_add_ok[OF st room e this] obtain q' where "pq_add (less_val val) e q = Inr q'" "pq_ok val (insert e S) q'" "pq_fill q' = pq_fill q + 1"
      by (auto simp: pq_ok_def)
    then show ?thesis by (intro next1[of PNone val q' "insert e S"]) (use PAdd P a e in auto)
  next
    case PTake
    show ?thesis
    proof (cases "S = {}")
      case True
      then show ?thesis by (intro next0[of "PElem None"]) (use PTake P a q(1) empty in \<open>auto simp: pq_take_def\<close>)
    next
      case False
      from pq_take_ok[OF ok False] obtain e q' where e: "pq_take (less_val val) q = Inr (Some e, q')" "e \<in> S" "\<forall>x \<in> S. val e \<le> val x"
        "pq_ok val (S - {e}) q'" "pq_fill q' = pq_fill q - 1" by (elim exE conjE)
      then show ?thesis by (intro next1[of "PElem (Some e)" val q' "S - {e}"]) (use PTake P a False in \<open>auto simp: least_in_def\<close>)
    qed
  next
    case (PRemove e)
    show ?thesis
    proof (cases "e \<in> S")
      case True
      from pq_remove_ok[OF ok True] obtain q' where "pq_remove (less_val val) (pq_index q e) q = Inr q'" "pq_ok val (S - {e}) q'" "pq_fill q' = pq_fill q - 1"
        by (elim exE conjE)
      then show ?thesis by (intro next1[of PNone val q' "S - {e}"]) (use PRemove P a True in auto)
    next
      case False
      then show ?thesis using PRemove P a q(1) q(4)[OF False] by (auto simp: pq_remove_def eassert_def pq_cell_def arr_get_def)
    qed
  next
    case (PUpdate e k)
    show ?thesis
    proof (cases "e \<in> S")
      case True
      from see_update_ok[OF ok True, of k] obtain q' where "see_update (less_val (val(e := k))) (pq_index q e) q = Inr q'" "pq_ok (val(e := k)) S q'"
        "pq_fill q' = pq_fill q" by (elim exE conjE)
      then show ?thesis by (intro next1[of PNone "val(e := k)" q' S]) (use PUpdate P a True in auto)
    next
      case False
      then show ?thesis using PUpdate P a q(4)[OF False] by (auto simp: see_update_def eassert_def)
    qed
  next
    case (PChange f)
    have "2 * (pq_fill q + 1) \<le> INT_MAX" using small by simp
    from resort_ok[OF ok this, of f] obtain q' where "resort (less_val f) q = Inr q'" "pq_ok f S q'" "pq_fill q' = pq_fill q" by (elim exE conjE)
    then show ?thesis by (intro next1[of PNone f q' S]) (use PChange P a in auto)
  next
    case PFront
    show ?thesis
    proof (cases "S = {}")
      case True
      then show ?thesis by (intro next0[of "PElem None"]) (use PFront P a q(1) empty in \<open>auto simp: pq_front_def\<close>)
    next
      case False
      then have m: "0 < m" using empty by simp
      have "val (b 0) \<le> val x" if "x \<in> S" for x using pq_indices(2)[OF q(2,4) that] zero.first_least[OF q(3)] by auto
      then have "least_in val S (b 0)" using packed_pq_cell[OF q(2) m] by (auto simp: least_in_def)
      then show ?thesis by (intro next0[of "PElem (Some (b 0))"]) (use PFront P a q(1) m False packed_pq_cell[OF q(2) m] in \<open>auto simp: pq_front_def\<close>)
    qed
  next
    case PEmpty
    then show ?thesis by (intro next0[of "PBool (S = {})"]) (use PEmpty P a q(1) empty in \<open>auto simp: pq_empty_def\<close>)
  next
    case PReset
    from pq_reset_ok[OF ok] obtain q' where "pq_reset q = Inr q'" "pq_ok val {} q'" "pq_fill q' = 0" by (elim exE conjE)
    then show ?thesis by (intro next1[of PNone val q' "{}"]) (use PReset P a q(1) in auto)
  next
    case PHolds
    then show ?thesis by (intro next0[of "PBool True"]) (use PHolds P a heap_holds_ok[OF st room] in auto)
  next
    case PMatch
    then show ?thesis by (intro next0[of "PBool True"]) (use PMatch P a indexes_match_ok[OF st room] in auto)
  next
    case PList
    from to_list_ok[OF st room] obtain xs where "to_list q = Inr (map Some xs)" "distinct xs" "set xs = S" by (elim exE conjE)
    then show ?thesis by (intro next0[of "PElems (map Some xs)"]) (use PList P a in auto)
  qed
qed

interpretation pbq: op_refinement pq_step pq_spec pq_rel "\<lambda>_. True"
  by unfold_locales (rule pq_step_ref)

text \<open>
  C32. Every sequence of fewer than 2^30 - 1 calls on a new priority queue, by a client that never adds an element twice, keeps to the
  contract of a set of valued elements: take and front give a least element or NULL, elements can be removed and re-valued
  by the index the queue wrote into them, resort follows any change of all values, both self-checks always pass and no
  other assertion fails. Removing an element that is not in the queue reads heap[-1].
\<close>

theorem priority_queue_keeps_contract:
  assumes "length xs < 1073741822"
  shows "allowed pq_spec xs (val, {}) (run_ops pq_step xs (val, PriorityQueue_new (\<lambda>_. -1)))"
proof (rule pbq.run_ref)
  have "pq_settled val {} (\<lambda>_. -1) (PriorityQueue_new (\<lambda>_. -1))"
    using empty_settled[of "PriorityQueue_new (\<lambda>_. -1)" val] by (simp add: PriorityQueue_new_def)
  then show "pq_rel (length xs) (val, {}) (val, PriorityQueue_new (\<lambda>_. -1))"
    using assms by (simp add: pq_rel_def pq_ok_def pq_room_def PriorityQueue_new_def INT_MAX_def)
qed simp

theorem priority_queue_keeps_contract_witness:
  "allowed pq_spec [PAdd 3, PAdd 5, PUpdate 3 9, PTake] (\<lambda>e::nat. e, {})
     (run_ops pq_step [PAdd 3, PAdd 5, PUpdate 3 9, PTake] (\<lambda>e. e, PriorityQueue_new (\<lambda>_. -1)))"
  by (rule priority_queue_keeps_contract) simp

end
