(* ===== verification/Spec2Isabelle.thy ===== *)
theory Spec2Isabelle
  imports Grid_Main Treap_Frontier Pairing_Heap Array_Util Hash_Table Sbpl_Bucket Sbpl_Sliding Sbpl_List Sbpl_Bfs_3d Wastar_Planner Priority_Queue
begin

text \<open>
  A verification library for PWSA*, a repository of parallel weighted best-first searches on grid maps, with
  the containers they and the code around them use.

  \<^bold>\<open>The program.\<close> A driver (\<open>src/test/grid/src/grid_main.cpp\<close>) loads a map into a graph
  (\<open>src/src/shared/weighted_graph.hpp\<close>), looks up source and destination and calls the search named on its command line:
  the sequential \<open>astar\<close> (\<open>src/src/astar.hpp\<close>), \<open>wpanre\<close> with one locked queue (\<open>src/src/wpanre.hpp\<close>), \<open>pase\<close> with an
  independence check (\<open>src/src/pase.hpp\<close>), or \<open>pwsa_pc\<close> and the simple \<open>pwsa\<close> (\<open>src/src/pwsa.hpp\<close>), whose workers own
  private binary heaps (\<open>src/src/shared/bin_heap.hpp\<close>) and share work through the loop of
  \<open>src/src/shared/parallel_while.hpp\<close>. The result (\<open>src/src/shared/search_utils.hpp\<close>) goes back to the graph, which adds up
  the length of the path. Beside these stand a treap and a pairing heap as other frontiers (\<open>src/test/grid/other\<close>), array
  operations (\<open>src/src/old/array_util.hpp\<close>), the hash table and priority queue of the competing searches
  (\<open>src/pbnf/src/util\<close>) and the keys, heaps, lists and breadth-first searches of the SBPL planners (\<open>src/libsbpl/src/utils\<close>).

  \<^bold>\<open>How code is modelled.\<close> Classes and structs are records, pointers to unshared nodes are datatypes, shared nodes live in an explicit store,
  arrays are lists with checked access, and every way to leave defined behaviour (a failed \<open>assert\<close>, an access outside an
  array, signed overflow, a null or uninitialised read, an exception, \<open>exit\<close>) is a value of \<open>cerror\<close> in the sum type \<open>result\<close>.
  \<open>int\<close> and \<open>long\<close> keep their ranges where sums of costs are formed; \<open>unsigned\<close> types and the 64-bit hash wrap. Loops
  that may not end are \<open>partial_function (option)\<close>, or have fuel that the theorems prove sufficient (the percolation of a hole in
  \<open>Sbpl_Heap\<close> and \<open>Priority_Queue\<close>: the index grows in every round, so one round per element and one more is enough). A parallel
  program is a step function of one worker: a step is an atomic load, a compare-and-swap, a read of a shared field or a
  critical section. Theorems hold for every reachable state, so for every schedule and every number of workers, one included; weak
  compare-and-swaps may fail spuriously, and the victims of a request are drawn by \<open>random_other\<close>, whose assertion fails for a lone worker
  that runs out of work. \<open>double\<close> arithmetic of the heuristic is read over the reals.

  \<^bold>\<open>The theories.\<close>
  \<^item> \<open>PWSA_Prelude\<close>: errors, results, checked arithmetic and arrays, folds that may fail. \<open>Text_IO\<close>: \<open>fscanf\<close> and \<open>fprintf\<close>.
  \<^item> \<open>Bin_Heap\<close>: the binary heap with its insertion, deletion and the split of a heap into two. \<open>Search_Iface\<close>: the contracts of heap
    and graph as locales (\<open>frontier_heap\<close>, \<open>search_graph\<close>), search results, paths. \<open>Pred_Tree\<close>: the tree of predecessors every search keeps.
  \<^item> \<open>AStar\<close>: the sequential search, proved once over the two contracts: it ends, and its distances are within the
    factor of an almost consistent heuristic.
  \<^item> \<open>Weighted_Graph\<close>, \<open>Graph_Load\<close>, \<open>Graph_Paths\<close>, \<open>Life_Graph\<close>: both grid graphs, the loader against the text of a map, neighbour
    arrays, heuristics, \<open>pathlen\<close> and \<open>pebble_dump\<close>. \<open>Grid_Search\<close>: the search on a loaded map.
  \<^item> \<open>Par_Search\<close>: the abstract parallel search, a step relation with its invariant, its measure and its completeness at rest;
    \<open>Wpanre\<close>, \<open>Pase\<close>, \<open>Pwsa\<close> refine it. \<open>Parallel_While\<close>: the request and answer protocol, a locale over its clients, with the
    invariant that no frontier entry is lost and every waiting worker has one debtor. \<open>Par_Grid\<close>, \<open>Pwsa_Grid\<close>, \<open>Pase_Grid\<close>: the
    instances on grids. \<open>Pwsa_Simple\<close>: the simple version and a run of it that loses the path.
  \<^item> \<open>Grid_Main\<close>: the driver, from the map file to the printed report, over all searches.
  \<^item> \<open>Min_Queue\<close>: the contract of a queue of least entries, with \<open>Treap_Frontier\<close> and \<open>Pairing_Heap\<close> as instances. \<open>Array_Util\<close>: scan,
    filter, quickselect and reduce against their list counterparts.
  \<^item> \<open>Op_Refinement\<close>: sequences of calls against a functional or a relational contract. \<open>Hash_Table\<close> refines a map while no growth passes 2 ^ 32 cells. \<open>Heap_Slots\<close>: heap order
    and back pointers for both numberings of slots; \<open>Sbpl_Heap\<close> (\<open>CKey\<close>, \<open>CHeap\<close>, \<open>CIntHeap\<close>) and \<open>Priority_Queue\<close> keep the contract of
    a priority map under every sequence of calls. \<open>Sbpl_List\<close>: the linked lists in a shared memory of nodes refine sequences of states.
    \<open>Sbpl_Bucket\<close>: the bucket queue keeps the contract too, as long as nothing is inserted into its bucket of mixed priorities after a removal from
    it, and a run past that limit returns the wrong state. \<open>Sbpl_Sliding\<close>: the ring of buckets against lists by priority, its window included.
  \<^item> \<open>Ubvec\<close>: the growing array of states, a map on the numbers below 2 ^ 30. \<open>Wastar_Planner\<close>: the sequential planner \<open>wAStarPlanner\<close> over an
    abstract environment of SBPL, from \<open>replan\<close> to the path, on the array of states: what it returns, that it asserts when there is no path, and that its
    cost is not within \<open>eps\<close> of the least.
  \<^item> \<open>Bfs_Space\<close>: breadth-first search over a finite set of cells with its invariant, a locale over the loop body; \<open>Sbpl_Fifo\<close>: the ring buffer
    against a list; \<open>Sbpl_Bfs\<close>: the code of \<open>sbpl_bfs_2d\<close> and \<open>sbpl_bfs_3d\<close> over a record of what differs, proved once in the locale
    \<open>dist_space\<close>; \<open>Sbpl_Bfs_Grids\<close>, \<open>Sbpl_Bfs_3d\<close>: the two classes. With a queue for all cells, and for the given points where they repeat, the distances are the least numbers of moves;
    with the default queue a run loses cells.

  \<^bold>\<open>Hypotheses.\<close> The theorems about searches assume that vertex count times the greatest edge cost plus the greatest heuristic value
  fits the number type, and a split cutoff of at least 1; with such bounds no addition overflows. Template parameters
  (hash functions, comparisons, associative operations) are arguments with the laws the templates document.

  \<^bold>\<open>Not modelled.\<close> The PASL runtime (scheduler, work-stealing deques, chunked sequences: vendored; of it only \<open>random_other\<close>), the other code of pbnf and
  SBPL (environments, other planners, lattice files), \<open>pwsaPlanner\<close> (a variant of \<open>pwsa_pc\<close> behind the same interface), the copies of the repository under \<open>src/pwsa_project\<close> and \<open>src/xytheta\<close>, the older
  versions \<open>pwsa-old.hpp\<close> and \<open>pwsa-before-refactor.hpp\<close>, which the build does not use, the benchmark programs of other
  projects under \<open>src/test/grid/other\<close>, timing (\<open>exptime\<close>), debug output and scripts.
\<close>

end
